(* ===== verification/Prelude.thy ===== *)
theory Prelude
  imports Main "HOL-Library.Word" "HOL-Library.Product_Lexorder"
begin

text \<open>
  Shared vocabulary of the development: the machine integers, the error values
  (\<open>src/src/error.h\<close>, and the LMDB return codes the code tests), the sequencing of fallible
  steps (\<open>MONERO_CHECK\<close> and \<open>MLWS_LMDB_CHECK\<close>), and generic lemmas on rows kept in
  the order of a sort key.
\<close>

section \<open>Machine integers and opaque byte strings\<close>

type_synonym u8 = "8 word"
type_synonym u32 = "32 word"
type_synonym u64 = "64 word"

text \<open>
  Hashes, keys and key images are 32 byte arrays compared by \<open>memcmp\<close>. An array is
  read here as the number whose big-endian digits are its bytes, so that \<open>memcmp\<close> is the
  order of the numbers.
\<close>

type_synonym hash = "256 word"
type_synonym public_key = "256 word"
type_synonym secret_key = "256 word"
type_synonym uuid = "128 word"

section \<open>Errors\<close>

datatype lws_error =
    account_exists | account_max | account_not_found | bad_address | bad_view_key
  | bad_blockchain | bad_client_tx | bad_daemon_response | bad_height | bad_url | bad_verb
  | bad_webhook | blockchain_reorg | configuration | crypto_failure | create_queue_max
  | daemon_timeout | duplicate_request | exceeded_blockchain_buffer
  | exceeded_rest_request_limit | exchange_rates_disabled | exchange_rates_fetch
  | exchange_rates_old | http_server | invalid_range | json_rpc | max_subaddresses
  | not_enough_mixin | not_enough_amount | signal_abort_process | signal_abort_scan
  | signal_unknown | system_clock_invalid_range | rmq_failure | tx_relay_failed

datatype mdb_error = MDB_NOTFOUND | MDB_KEYEXIST | MDB_MAP_FULL | MDB_MAP_RESIZED | MDB_CODE int

datatype error = Lws lws_error | Mdb mdb_error | Schema_array | Schema_binary | Invalid_argument | Out_of_range | Runtime_error

text \<open>\<open>check m f\<close>: go on with \<open>f\<close> if \<open>m\<close> succeeded, return its error otherwise.\<close>

definition check :: "('e + 'a) \<Rightarrow> ('a \<Rightarrow> 'e + 'b) \<Rightarrow> 'e + 'b" where
  "check m f = (case m of Inl e \<Rightarrow> Inl e | Inr x \<Rightarrow> f x)"

definition lmdb_check :: "(mdb_error + 'a) \<Rightarrow> ('a \<Rightarrow> error + 'b) \<Rightarrow> error + 'b" where
  "lmdb_check m f = (case m of Inl e \<Rightarrow> Inl (Mdb e) | Inr x \<Rightarrow> f x)"

definition precond :: "bool \<Rightarrow> (error + 'b) \<Rightarrow> error + 'b" where
  "precond b m = (if b then m else Inl Invalid_argument)"

lemma check_simps [simp]: "check (Inl e) f = Inl e" "check (Inr x) f = f x"
  by (simp_all add: check_def)

lemma lmdb_check_simps [simp]:
  "lmdb_check (Inl e) f = Inl (Mdb e)" "lmdb_check (Inr x) f = f x"
  by (simp_all add: lmdb_check_def)

lemma precond_simps [simp]: "precond True m = m" "precond False m = Inl Invalid_argument"
  by (simp_all add: precond_def)

lemma check_Inr_iff: "check m f = Inr y \<longleftrightarrow> (\<exists>x. m = Inr x \<and> f x = Inr y)"
  by (cases m) auto

lemma lmdb_check_Inr_iff: "lmdb_check m f = Inr y \<longleftrightarrow> (\<exists>x. m = Inr x \<and> f x = Inr y)"
  by (cases m) auto

lemma check_cong [fundef_cong]:
  "m = m' \<Longrightarrow> (\<And>x. m' = Inr x \<Longrightarrow> f x = f' x) \<Longrightarrow> check m f = check m' f'"
  by (cases m') auto

lemma lmdb_check_cong [fundef_cong]:
  "m = m' \<Longrightarrow> (\<And>x. m' = Inr x \<Longrightarrow> f x = f' x) \<Longrightarrow> lmdb_check m f = lmdb_check m' f'"
  by (cases m') auto

lemma map_sum_InrE: "map_sum h f x = Inr y \<Longrightarrow> (\<And>z. x = Inr z \<Longrightarrow> f z = y \<Longrightarrow> thesis) \<Longrightarrow> thesis"
  by (cases x) auto

lemma unat_no_wrap:
  fixes a b :: u64
  assumes "\<not> -1 - a < b"
  shows "unat (a + b) = unat a + unat b"
proof -
  have "unat b \<le> unat (-1 - a)" using assms by (simp add: not_less word_le_nat_alt)
  moreover have "unat (-1 - a) = unat (-1 :: u64) - unat a" by (rule unat_sub) simp
  moreover have "unat (-1 :: u64) = 2 ^ 64 - 1" by (simp add: unsigned_minus_1_eq_mask mask_eq_exp_minus_1)
  moreover have "unat a < 2 ^ 64" using unsigned_less[of a, where ?'a = nat] by simp
  ultimately show ?thesis by (simp add: unat_word_ariths)
qed

section \<open>Rows in the order of a sort key\<close>

definition sorted_rows :: "('v \<Rightarrow> 'f::linorder) \<Rightarrow> 'v list \<Rightarrow> bool" where
  "sorted_rows sk xs \<longleftrightarrow> sorted_wrt (\<lambda>x y. sk x < sk y) xs"

fun ins_row :: "('v \<Rightarrow> 'f::linorder) \<Rightarrow> 'v \<Rightarrow> 'v list \<Rightarrow> 'v list" where
  "ins_row sk v [] = [v]"
| "ins_row sk v (x # xs) =
     (if sk v < sk x then v # x # xs
      else if sk v = sk x then v # xs
      else x # ins_row sk v xs)"

definition has_row :: "('v \<Rightarrow> 'f) \<Rightarrow> 'f \<Rightarrow> 'v list \<Rightarrow> bool" where
  "has_row sk f xs \<longleftrightarrow> f \<in> sk ` set xs"

definition find_row :: "('v \<Rightarrow> 'f) \<Rightarrow> 'f \<Rightarrow> 'v list \<Rightarrow> 'v option" where
  "find_row sk f xs = List.find (\<lambda>x. sk x = f) xs"

definition del_row :: "('v \<Rightarrow> 'f) \<Rightarrow> 'f \<Rightarrow> 'v list \<Rightarrow> 'v list" where
  "del_row sk f xs = filter (\<lambda>x. sk x \<noteq> f) xs"

text \<open>The rows from the first one that is not below \<open>f\<close> on.\<close>

definition rows_from :: "('v \<Rightarrow> 'f::linorder) \<Rightarrow> 'f \<Rightarrow> 'v list \<Rightarrow> 'v list" where
  "rows_from sk f xs = dropWhile (\<lambda>x. sk x < f) xs"

lemma sorted_rows_Nil [simp]: "sorted_rows sk []"
  by (simp add: sorted_rows_def)

lemma sorted_rows_Cons [simp]:
  "sorted_rows sk (x # xs) \<longleftrightarrow> (\<forall>y \<in> set xs. sk x < sk y) \<and> sorted_rows sk xs"
  by (simp add: sorted_rows_def)

lemma sorted_rows_append:
  "sorted_rows sk (xs @ ys) \<longleftrightarrow>
     sorted_rows sk xs \<and> sorted_rows sk ys \<and> (\<forall>x \<in> set xs. \<forall>y \<in> set ys. sk x < sk y)"
  by (auto simp: sorted_rows_def sorted_wrt_append)

lemma sorted_rows_filter [intro]: "sorted_rows sk xs \<Longrightarrow> sorted_rows sk (filter P xs)"
  by (simp add: sorted_rows_def sorted_wrt_filter)

lemma sorted_rows_inj:
  assumes "sorted_rows sk xs" "x \<in> set xs" "y \<in> set xs" "sk x = sk y"
  shows "x = y"
  using assms
proof (induction xs)
  case (Cons z xs)
  from Cons.prems(1) have z: "\<And>w. w \<in> set xs \<Longrightarrow> sk z \<noteq> sk w" by force
  with Cons show ?case by (metis set_ConsD sorted_rows_Cons)
qed simp

lemma sorted_rows_distinct: "sorted_rows sk xs \<Longrightarrow> distinct (map sk xs)"
  by (induction xs) force+

lemma set_ins_row:
  "sorted_rows sk xs \<Longrightarrow> set (ins_row sk v xs) = insert v {x \<in> set xs. sk x \<noteq> sk v}"
  by (induction xs) force+

lemma sorted_ins_row: "sorted_rows sk xs \<Longrightarrow> sorted_rows sk (ins_row sk v xs)"
proof (induction xs)
  case (Cons x xs)
  then show ?case
    by (auto simp: set_ins_row not_less dest: less_trans order_le_less_trans)
qed simp

lemma ins_row_not_Nil [simp]: "ins_row sk v xs \<noteq> []"
  by (cases xs) auto

lemma sk_ins_row: "sk ` set (ins_row sk v xs) = insert (sk v) (sk ` set xs)"
  by (induction xs) auto

lemma has_row_ins [simp]: "has_row sk f (ins_row sk v xs) \<longleftrightarrow> f = sk v \<or> has_row sk f xs"
  by (auto simp: has_row_def sk_ins_row)

lemma find_row_Some: "find_row sk f xs = Some v \<Longrightarrow> v \<in> set xs \<and> sk v = f"
  by (auto simp: find_row_def find_Some_iff)

lemma find_row_None_iff: "find_row sk f xs = None \<longleftrightarrow> \<not> has_row sk f xs"
  by (auto simp: find_row_def find_None_iff has_row_def)

lemma find_row_eq_Some_iff:
  "sorted_rows sk xs \<Longrightarrow> find_row sk f xs = Some v \<longleftrightarrow> v \<in> set xs \<and> sk v = f"
proof (cases "find_row sk f xs")
  case None
  then have "\<not> has_row sk f xs" by (simp add: find_row_None_iff)
  with None show ?thesis by (auto simp: has_row_def)
next
  case (Some w)
  assume s: "sorted_rows sk xs"
  from find_row_Some[OF Some] have w: "w \<in> set xs" "sk w = f" by simp_all
  then have "v = w" if "v \<in> set xs" "sk v = f"
    using sorted_rows_inj[OF s] that by metis
  with Some w show ?thesis by auto
qed

lemma find_row_ins:
  "sorted_rows sk xs \<Longrightarrow>
     find_row sk f (ins_row sk v xs) = (if f = sk v then Some v else find_row sk f xs)"
  by (induction xs) (auto simp: find_row_def)

lemma find_row_del: "find_row sk f (del_row sk g xs) = (if f = g then None else find_row sk f xs)"
  by (induction xs) (auto simp: find_row_def del_row_def)

lemma set_del_row: "set (del_row sk f xs) = {x \<in> set xs. sk x \<noteq> f}"
  by (auto simp: del_row_def)

lemma sorted_del_row: "sorted_rows sk xs \<Longrightarrow> sorted_rows sk (del_row sk f xs)"
  by (simp add: del_row_def sorted_rows_filter)

lemma ins_row_last:
  "(\<forall>x \<in> set xs. sk x < sk v) \<Longrightarrow> ins_row sk v xs = xs @ [v]"
  by (induction xs) auto

lemma rows_from_filter: "sorted_rows sk xs \<Longrightarrow> rows_from sk f xs = filter (\<lambda>x. f \<le> sk x) xs"
proof (induction xs)
  case (Cons x xs)
  show ?case
  proof (cases "sk x < f")
    case True
    with Cons show ?thesis by (auto simp: rows_from_def)
  next
    case False
    with Cons.prems have "\<forall>y \<in> set xs. f \<le> sk y" by (auto dest: order_le_less_trans)
    with False show ?thesis by (simp add: rows_from_def not_less)
  qed
qed (simp add: rows_from_def)

lemma del_row_ins_comm:
  "sorted_rows sk xs \<Longrightarrow>
     del_row sk f (ins_row sk v xs) =
       (if sk v = f then del_row sk f xs else ins_row sk v (del_row sk f xs))"
proof (induction xs)
  case (Cons x xs)
  have low: "ins_row sk v ys = v # ys" if "\<forall>y \<in> set ys. sk v < sk y" for ys
    using that by (cases ys) auto
  have "\<forall>y \<in> set (del_row sk f xs). sk v < sk y" if "sk v \<le> sk x"
    using that Cons.prems by (auto simp: del_row_def)
  with Cons show ?case
    by (auto simp: del_row_def low)
qed (simp add: del_row_def)

end
