(* ===== verification/Data.thy ===== *)
theory Data
  imports Prelude
begin

text \<open>
  The values of the database, from \<open>src/src/db/data.h\<close> and \<open>src/src/db/data.cpp\<close>: the
  structs as records (structs that the source gives an \<open>operator<\<close> as one-constructor
  datatypes, so that the operator can be their \<open>linorder\<close> instance), the packing of
  \<open>extra_and_length\<close>, the split of a 128 bit difficulty, the check on subaddress ranges and
  the translation of outputs and spends to and from their wire objects.
\<close>

section \<open>Identifiers\<close>

type_synonym account_id = u32
type_synonym account_time = u32
type_synonym block_id = u64
type_synonym major_index = u32
type_synonym minor_index = u32

definition account_id_invalid :: account_id where
  "account_id_invalid = -1"

definition block_id_txpool :: block_id where
  "block_id_txpool = -1"

datatype output_id = Output_id (oid_high: u64) (oid_low: u64)

definition output_id_txpool :: output_id where
  "output_id_txpool = Output_id 0 (-1)"

datatype account_status = active | inactive | hidden

datatype request = create | import_scan

type_synonym account_flags = u8

definition admin_account :: account_flags where
  "admin_account = 1"

definition account_generated_locally :: account_flags where
  "account_generated_locally = 2"

datatype address_index = Address_index (maj_i: major_index) (min_i: minor_index)

definition is_zero :: "address_index \<Rightarrow> bool" where
  "is_zero i \<longleftrightarrow> maj_i i = 0 \<and> min_i i = 0"

datatype transaction_link = Transaction_link (tl_height: block_id) (tl_tx_hash: hash)

datatype webhook_type = tx_confirmation | new_account | tx_spend

datatype webhook_key = Webhook_key (wk_user: account_id) (wk_type: webhook_type)

datatype webhook_dupsort = Webhook_dupsort (wd_payment_id: u64) (wd_event_id: uuid)

datatype webhook_output = Webhook_output (wo_tx: transaction_link) (wo_out: output_id)

datatype webhook_event = Webhook_event (we_link: webhook_output) (we_link_webhook: webhook_dupsort)

section \<open>Orders\<close>

text \<open>The comparison operators of the source, each as the order of its type.\<close>

instantiation account_status :: linorder
begin

fun account_status_nat :: "account_status \<Rightarrow> nat" where
  "account_status_nat active = 0"
| "account_status_nat inactive = 1"
| "account_status_nat hidden = 2"

definition less_eq_account_status :: "account_status \<Rightarrow> account_status \<Rightarrow> bool" where
  "less_eq_account_status a b \<longleftrightarrow> account_status_nat a \<le> account_status_nat b"

definition less_account_status :: "account_status \<Rightarrow> account_status \<Rightarrow> bool" where
  "less_account_status a b \<longleftrightarrow> account_status_nat a < account_status_nat b"

instance
proof
  fix a b :: account_status
  show "a \<le> b \<Longrightarrow> b \<le> a \<Longrightarrow> a = b"
    by (cases a; cases b) (simp_all add: less_eq_account_status_def)
qed (auto simp: less_eq_account_status_def less_account_status_def)

end

instantiation request :: linorder
begin

fun request_nat :: "request \<Rightarrow> nat" where
  "request_nat create = 0"
| "request_nat import_scan = 1"

definition less_eq_request :: "request \<Rightarrow> request \<Rightarrow> bool" where
  "less_eq_request a b \<longleftrightarrow> request_nat a \<le> request_nat b"

definition less_request :: "request \<Rightarrow> request \<Rightarrow> bool" where
  "less_request a b \<longleftrightarrow> request_nat a < request_nat b"

instance
proof
  fix a b :: request
  show "a \<le> b \<Longrightarrow> b \<le> a \<Longrightarrow> a = b"
    by (cases a; cases b) (simp_all add: less_eq_request_def)
qed (auto simp: less_eq_request_def less_request_def)

end

instantiation webhook_type :: linorder
begin

fun webhook_type_nat :: "webhook_type \<Rightarrow> nat" where
  "webhook_type_nat tx_confirmation = 0"
| "webhook_type_nat new_account = 1"
| "webhook_type_nat tx_spend = 2"

definition less_eq_webhook_type :: "webhook_type \<Rightarrow> webhook_type \<Rightarrow> bool" where
  "less_eq_webhook_type a b \<longleftrightarrow> webhook_type_nat a \<le> webhook_type_nat b"

definition less_webhook_type :: "webhook_type \<Rightarrow> webhook_type \<Rightarrow> bool" where
  "less_webhook_type a b \<longleftrightarrow> webhook_type_nat a < webhook_type_nat b"

instance
proof
  fix a b :: webhook_type
  show "a \<le> b \<Longrightarrow> b \<le> a \<Longrightarrow> a = b"
    by (cases a; cases b) (simp_all add: less_eq_webhook_type_def)
qed (auto simp: less_eq_webhook_type_def less_webhook_type_def)

end

text \<open>
  The structs are compared field by field: the second field decides where the first ones are
  equal. \<open>operator<=\<close> of the source is the union of \<open>operator<\<close> and equality
  (\<open>output_id_le\<close> and \<open>transaction_link_le\<close> below are the source's own definitions, and
  are shown to agree).
\<close>

instantiation output_id :: linorder
begin

definition less_output_id :: "output_id \<Rightarrow> output_id \<Rightarrow> bool" where
  "less_output_id left right \<longleftrightarrow>
     (if oid_high left = oid_high right then oid_low left < oid_low right
      else oid_high left < oid_high right)"

definition less_eq_output_id :: "output_id \<Rightarrow> output_id \<Rightarrow> bool" where
  "less_eq_output_id left right \<longleftrightarrow> left < right \<or> left = right"

instance
  by standard
    (auto simp: less_output_id_def less_eq_output_id_def output_id.expand not_less_iff_gr_or_eq split: if_splits)

end

instantiation address_index :: linorder
begin

definition less_address_index :: "address_index \<Rightarrow> address_index \<Rightarrow> bool" where
  "less_address_index left right \<longleftrightarrow>
     (if maj_i left = maj_i right then min_i left < min_i right else maj_i left < maj_i right)"

definition less_eq_address_index :: "address_index \<Rightarrow> address_index \<Rightarrow> bool" where
  "less_eq_address_index left right \<longleftrightarrow> left < right \<or> left = right"

instance
  by standard
    (auto simp: less_address_index_def less_eq_address_index_def address_index.expand not_less_iff_gr_or_eq
      split: if_splits)

end

instantiation transaction_link :: linorder
begin

definition less_transaction_link :: "transaction_link \<Rightarrow> transaction_link \<Rightarrow> bool" where
  "less_transaction_link left right \<longleftrightarrow>
     (if tl_height left = tl_height right then tl_tx_hash left < tl_tx_hash right
      else tl_height left < tl_height right)"

definition less_eq_transaction_link :: "transaction_link \<Rightarrow> transaction_link \<Rightarrow> bool" where
  "less_eq_transaction_link left right \<longleftrightarrow> left < right \<or> left = right"

instance
  by standard
    (auto simp: less_transaction_link_def less_eq_transaction_link_def transaction_link.expand not_less_iff_gr_or_eq
      split: if_splits)

end

instantiation webhook_key :: linorder
begin

definition less_webhook_key :: "webhook_key \<Rightarrow> webhook_key \<Rightarrow> bool" where
  "less_webhook_key left right \<longleftrightarrow>
     (if wk_user left = wk_user right then wk_type left < wk_type right
      else wk_user left < wk_user right)"

definition less_eq_webhook_key :: "webhook_key \<Rightarrow> webhook_key \<Rightarrow> bool" where
  "less_eq_webhook_key left right \<longleftrightarrow> left < right \<or> left = right"

instance
  by standard
    (auto simp: less_webhook_key_def less_eq_webhook_key_def webhook_key.expand not_less_iff_gr_or_eq split: if_splits)

end

instantiation webhook_dupsort :: linorder
begin

definition less_webhook_dupsort :: "webhook_dupsort \<Rightarrow> webhook_dupsort \<Rightarrow> bool" where
  "less_webhook_dupsort left right \<longleftrightarrow>
     (if wd_payment_id left = wd_payment_id right then wd_event_id left < wd_event_id right
      else wd_payment_id left < wd_payment_id right)"

definition less_eq_webhook_dupsort :: "webhook_dupsort \<Rightarrow> webhook_dupsort \<Rightarrow> bool" where
  "less_eq_webhook_dupsort left right \<longleftrightarrow> left < right \<or> left = right"

instance
  by standard
    (auto simp: less_webhook_dupsort_def less_eq_webhook_dupsort_def webhook_dupsort.expand not_less_iff_gr_or_eq
      split: if_splits)

end

instantiation webhook_output :: linorder
begin

definition less_webhook_output :: "webhook_output \<Rightarrow> webhook_output \<Rightarrow> bool" where
  "less_webhook_output left right \<longleftrightarrow>
     (if wo_tx left = wo_tx right then wo_out left < wo_out right else wo_tx left < wo_tx right)"

definition less_eq_webhook_output :: "webhook_output \<Rightarrow> webhook_output \<Rightarrow> bool" where
  "less_eq_webhook_output left right \<longleftrightarrow> left < right \<or> left = right"

instance
  by standard
    (auto simp: less_webhook_output_def less_eq_webhook_output_def webhook_output.expand not_less_iff_gr_or_eq
      split: if_splits)

end

instantiation webhook_event :: linorder
begin

definition less_webhook_event :: "webhook_event \<Rightarrow> webhook_event \<Rightarrow> bool" where
  "less_webhook_event left right \<longleftrightarrow>
     (if we_link left = we_link right then we_link_webhook left < we_link_webhook right
      else we_link left < we_link right)"

definition less_eq_webhook_event :: "webhook_event \<Rightarrow> webhook_event \<Rightarrow> bool" where
  "less_eq_webhook_event left right \<longleftrightarrow> left < right \<or> left = right"

instance
  by standard
    (auto simp: less_webhook_event_def less_eq_webhook_event_def webhook_event.expand not_less_iff_gr_or_eq
      split: if_splits)

end

definition output_id_le :: "output_id \<Rightarrow> output_id \<Rightarrow> bool" where
  "output_id_le left right \<longleftrightarrow>
     (if oid_high left = oid_high right then oid_low left \<le> oid_low right
      else oid_high left < oid_high right)"

definition transaction_link_le :: "transaction_link \<Rightarrow> transaction_link \<Rightarrow> bool" where
  "transaction_link_le left right \<longleftrightarrow>
     (if tl_height right = tl_height left then tl_tx_hash left \<le> tl_tx_hash right
      else tl_height left < tl_height right)"

lemma output_id_le: "output_id_le a b \<longleftrightarrow> a \<le> b"
  by (auto simp: output_id_le_def less_eq_output_id_def less_output_id_def output_id.expand order_le_less)

lemma transaction_link_le: "transaction_link_le a b \<longleftrightarrow> a \<le> b"
  by (auto simp: transaction_link_le_def less_eq_transaction_link_def less_transaction_link_def
      transaction_link.expand order_le_less)

text \<open>Events are ordered by the block of their output first.\<close>

lemma webhook_event_height_mono:
  "a \<le> b \<Longrightarrow> tl_height (wo_tx (we_link a)) \<le> tl_height (wo_tx (we_link b))"
  by (auto simp: less_eq_webhook_event_def less_webhook_event_def less_webhook_output_def
      less_transaction_link_def split: if_splits)


section \<open>Records of the tables\<close>

record account_address =
  view_public :: public_key
  spend_public :: public_key

type_synonym index_range = "minor_index \<times> minor_index"
type_synonym index_ranges = "index_range list"
type_synonym subaddress_dict = "major_index \<times> index_ranges"

record subaddress_map =
  sub_subaddress :: public_key
  sub_index :: address_index

record account =
  a_id :: account_id
  a_access :: account_time
  a_address :: account_address
  a_key :: secret_key
  a_scan_height :: block_id
  a_start_height :: block_id
  a_creation :: account_time
  a_flags :: account_flags
  a_lookahead :: address_index
  a_lookahead_fail :: block_id

record block_info =
  bi_id :: block_id
  bi_hash :: hash

datatype block_difficulty = Block_difficulty (bd_high: u64) (bd_low: u64)

record block_pow =
  bp_id :: block_id
  bp_timestamp :: u64
  bp_cumulative_diff :: block_difficulty

record pow_sync =
  sync_timestamp :: u64
  sync_cumulative_diff :: block_difficulty

record spend_meta =
  sm_id :: output_id
  sm_amount :: u64
  sm_mixin_count :: u32
  sm_index :: u32
  sm_tx_public :: public_key

text \<open>The payment id is a union of an 8 and a 32 byte array: its 32 bytes, as a list.\<close>

record db_output =
  o_link :: transaction_link
  o_spend_meta :: spend_meta
  o_timestamp :: u64
  o_unlock_time :: u64
  o_tx_prefix_hash :: hash
  o_pub :: public_key
  o_ringct_mask :: "256 word"
  o_extra :: u8
  o_payment_id :: "u8 list"
  o_fee :: u64
  o_recipient :: address_index

record spend =
  s_link :: transaction_link
  s_image :: "256 word"
  s_source :: output_id
  s_timestamp :: u64
  s_unlock_time :: u64
  s_mixin_count :: u32
  s_length :: u8
  s_payment_id :: hash
  s_sender :: address_index

record key_image =
  ki_value :: "256 word"
  ki_link :: transaction_link

record key_image_source =
  kis_image :: "256 word"
  kis_source :: output_id
  kis_tx_hash :: hash
  kis_pub :: public_key
  kis_out_index :: u32

record pending_spend =
  ps_source :: output_id
  ps_tx_hash :: hash
  ps_pub :: public_key
  ps_out_index :: u32
  ps_recorded :: account_time

record request_info =
  r_address :: account_address
  r_key :: secret_key
  r_start_height :: block_id
  r_creation :: account_time
  r_creation_flags :: account_flags
  r_lookahead :: address_index

record webhook_data =
  wh_url :: string
  wh_token :: string
  wh_confirmations :: u32

type_synonym webhook_value = "webhook_dupsort \<times> webhook_data"

record webhook_tx_confirmation =
  wc_key :: webhook_key
  wc_value :: webhook_value
  wc_tx_info :: db_output

record webhook_tx_spend =
  ws_key :: webhook_key
  ws_value :: webhook_value
  ws_input :: spend
  ws_source :: spend_meta

record webhook_new_account =
  wn_value :: webhook_value
  wn_account :: account_address

record account_lookup =
  al_id :: account_id
  al_status :: account_status

record account_by_address =
  ba_address :: account_address
  ba_lookup :: account_lookup

section \<open>Packed output flags\<close>

definition coinbase_output :: u8 where
  "coinbase_output = 1"

definition ringct_output :: u8 where
  "ringct_output = 2"

unbundle bit_operations_syntax

definition pack :: "u8 \<Rightarrow> u8 \<Rightarrow> u8" where
  "pack val len = (push_bit 6 val) OR (len AND 0x3f)"

definition unpack :: "u8 \<Rightarrow> u8 \<times> u8" where
  "unpack val = (drop_bit 6 val, val AND 0x3f)"

section \<open>Difficulty\<close>

definition set_difficulty :: "128 word \<Rightarrow> block_difficulty" where
  "set_difficulty d = Block_difficulty (ucast (drop_bit 64 d AND 0xffffffffffffffff))
     (ucast (d AND 0xffffffffffffffff))"

definition get_difficulty :: "block_difficulty \<Rightarrow> 128 word" where
  "get_difficulty b = push_bit 64 (ucast (bd_high b)) + ucast (bd_low b)"

section \<open>Subaddress ranges\<close>

text \<open>
  The loop of \<open>check_subaddress_dict\<close>, with its local variables \<open>is_first\<close> and
  \<open>last\<close>; the test on neighbours is made on 64 bit values and cannot wrap.
\<close>

fun check_ranges :: "bool \<Rightarrow> minor_index \<Rightarrow> index_ranges \<Rightarrow> bool" where
  "check_ranges is_first lst [] = True"
| "check_ranges is_first lst (elem # elems) =
     (if snd elem < fst elem then False
      else if unat (fst elem) \<le> unat lst + 1 \<and> \<not> is_first then False
      else check_ranges False (snd elem) elems)"

definition check_subaddress_dict :: "subaddress_dict \<Rightarrow> bool" where
  "check_subaddress_dict self = check_ranges True 0 (snd self)"

section \<open>Outputs and spends on the wire\<close>

text \<open>
  The fields of the wire objects, optional where the source declares them so. A
  \<open>defaulted\<close> field is left out when it has its default and gets it when absent.
\<close>

record wire_output =
  wo_id :: "output_id option"
  wo_block :: "block_id option"
  wo_index :: u32
  wo_amount :: u64
  wo_timestamp :: u64
  wo_tx_hash :: hash
  wo_tx_prefix_hash :: hash
  wo_tx_public :: public_key
  wo_rct_mask :: "256 word option"
  wo_payment_id :: "u8 list option"
  wo_unlock_time :: u64
  wo_mixin_count :: u32
  wo_coinbase :: bool
  wo_fee :: u64
  wo_recipient :: address_index
  wo_pub :: public_key

definition write_default :: "'a \<Rightarrow> 'a \<Rightarrow> 'a option" where
  "write_default dflt x = (if x = dflt then None else Some x)"

definition read_default :: "'a \<Rightarrow> 'a option \<Rightarrow> 'a" where
  "read_default dflt x = (case x of None \<Rightarrow> dflt | Some v \<Rightarrow> v)"

definition write_output :: "db_output \<Rightarrow> wire_output" where
  "write_output self =
     (let unpacked = unpack (o_extra self);
          coinbase = (fst unpacked AND coinbase_output \<noteq> 0);
          rct = (fst unpacked AND ringct_output \<noteq> 0);
          rct_mask = (if rct then Some (o_ringct_mask self) else None);
          payment_bytes = (if snd unpacked = 32 then o_payment_id self
            else if snd unpacked = 8 then take 8 (o_payment_id self) else []);
          payment_id = (if payment_bytes = [] then None else Some payment_bytes)
      in \<lparr>wo_id = write_default output_id_txpool (sm_id (o_spend_meta self)),
          wo_block = write_default block_id_txpool (tl_height (o_link self)),
          wo_index = sm_index (o_spend_meta self),
          wo_amount = sm_amount (o_spend_meta self),
          wo_timestamp = o_timestamp self,
          wo_tx_hash = tl_tx_hash (o_link self),
          wo_tx_prefix_hash = o_tx_prefix_hash self,
          wo_tx_public = sm_tx_public (o_spend_meta self),
          wo_rct_mask = rct_mask,
          wo_payment_id = payment_id,
          wo_unlock_time = o_unlock_time self,
          wo_mixin_count = sm_mixin_count (o_spend_meta self),
          wo_coinbase = coinbase,
          wo_fee = o_fee self,
          wo_recipient = o_recipient self,
          wo_pub = o_pub self\<rparr>)"

text \<open>
  Reading fills in an existing object \<open>self\<close>: a payment id that is absent leaves its bytes
  as they are. The length is narrowed to 8 bits before it is tested.
\<close>

definition read_output :: "db_output \<Rightarrow> wire_output \<Rightarrow> error + db_output" where
  "read_output self source =
     (let pay_length = (case wo_payment_id source of None \<Rightarrow> 0 | Some b \<Rightarrow> (of_nat (length b) :: u8));
          bytes = (case wo_payment_id source of None \<Rightarrow> [] | Some b \<Rightarrow> b)
      in if pay_length \<noteq> 0 \<and> pay_length \<noteq> 8 \<and> pay_length \<noteq> 32 then Inl Schema_binary
      else
        let payment = (if pay_length = 8 then take 8 bytes @ drop 8 (o_payment_id self)
              else if pay_length = 32 then take 32 bytes else o_payment_id self);
            mask = (case wo_rct_mask source of Some m \<Rightarrow> m | None \<Rightarrow> 0);
            flags0 = (if wo_coinbase source then coinbase_output else 0);
            flags = (if wo_rct_mask source \<noteq> None then ringct_output OR flags0 else flags0)
        in Inr \<lparr>o_link = Transaction_link (read_default block_id_txpool (wo_block source)) (wo_tx_hash source),
          o_spend_meta = \<lparr>sm_id = read_default output_id_txpool (wo_id source),
            sm_amount = wo_amount source, sm_mixin_count = wo_mixin_count source,
            sm_index = wo_index source, sm_tx_public = wo_tx_public source\<rparr>,
          o_timestamp = wo_timestamp source,
          o_unlock_time = wo_unlock_time source,
          o_tx_prefix_hash = wo_tx_prefix_hash source,
          o_pub = wo_pub source,
          o_ringct_mask = mask,
          o_extra = pack flags pay_length,
          o_payment_id = payment,
          o_fee = wo_fee source,
          o_recipient = wo_recipient source\<rparr>)"

record wire_spend =
  wsp_height :: block_id
  wsp_tx_hash :: hash
  wsp_image :: "256 word"
  wsp_source :: output_id
  wsp_timestamp :: u64
  wsp_unlock_time :: u64
  wsp_mixin_count :: u32
  wsp_payment_id :: "hash option"
  wsp_sender :: address_index

definition write_spend :: "spend \<Rightarrow> wire_spend" where
  "write_spend source =
     (let payment_id = (if s_length source = 32 then Some (s_payment_id source) else None)
      in \<lparr>wsp_height = tl_height (s_link source), wsp_tx_hash = tl_tx_hash (s_link source),
          wsp_image = s_image source, wsp_source = s_source source,
          wsp_timestamp = s_timestamp source, wsp_unlock_time = s_unlock_time source,
          wsp_mixin_count = s_mixin_count source, wsp_payment_id = payment_id,
          wsp_sender = s_sender source\<rparr>)"

definition read_spend :: "spend \<Rightarrow> wire_spend \<Rightarrow> spend" where
  "read_spend dest source =
     (let dest' = dest\<lparr>s_link := Transaction_link (wsp_height source) (wsp_tx_hash source),
            s_image := wsp_image source, s_source := wsp_source source,
            s_timestamp := wsp_timestamp source, s_unlock_time := wsp_unlock_time source,
            s_mixin_count := wsp_mixin_count source, s_sender := wsp_sender source\<rparr>
      in case wsp_payment_id source of
           Some p \<Rightarrow> dest'\<lparr>s_length := 32, s_payment_id := p\<rparr>
         | None \<Rightarrow> dest'\<lparr>s_length := 0\<rparr>)"

section \<open>Round trips of the packed values\<close>

lemma mask6: "(0x3f :: u8) = mask 6" by (simp add: mask_eq_exp_minus_1)
lemma mask64: "(0xffffffffffffffff :: 128 word) = mask 64" by (simp add: mask_eq_exp_minus_1)
lemma unpack_pack:
  assumes "val < 4" "len < 64"
  shows "unpack (pack val len) = (val, len)"
proof -
  have v: "take_bit 2 val = val" using assms(1) by (simp add: take_bit_eq_mask less_mask_eq)
  have l: "take_bit 6 len = len" using assms(2) by (simp add: take_bit_eq_mask less_mask_eq)
  have v': "bit val n \<Longrightarrow> n < 2" for n using v by (metis bit_take_bit_iff)
  have l': "bit len n \<Longrightarrow> n < 6" for n using l by (metis bit_take_bit_iff)
  show ?thesis unfolding unpack_def pack_def mask6
    by (auto simp: bit_eq_iff bit_simps dest: v' l')
qed
lemma pack_unpack: "pack (fst (unpack b)) (snd (unpack b)) = b"
  unfolding pack_def unpack_def fst_conv snd_conv mask6
  by (auto simp: bit_eq_iff bit_simps)
lemma get_set_difficulty: "get_difficulty (set_difficulty d) = d"
  unfolding get_difficulty_def set_difficulty_def block_difficulty.sel mask64
  by (subst disjunctive_add_eq_or) (auto simp: bit_eq_iff bit_simps)
lemma set_get_difficulty: "set_difficulty (get_difficulty b) = b"
proof -
  have "get_difficulty b = push_bit 64 (ucast (bd_high b)) OR ucast (bd_low b)"
    unfolding get_difficulty_def
    by (subst disjunctive_add_eq_or) (auto simp: bit_eq_iff bit_simps dest: bit_imp_le_length)
  then show ?thesis
    unfolding set_difficulty_def mask64
    by (cases b) (auto simp: bit_eq_iff bit_simps dest: bit_imp_le_length)
qed
lemma unat_unpack_length: "unat (snd (unpack b)) < 64"
  using word_and_le1[of b "0x3f"] by (simp add: unpack_def word_le_nat_alt)

section \<open>Subaddress ranges as sets\<close>

definition range_members :: "index_ranges \<Rightarrow> minor_index set" where
  "range_members rs = (\<Union>r \<in> set rs. {fst r .. snd r})"

definition ranges_ok :: "index_ranges \<Rightarrow> bool" where
  "ranges_ok rs \<longleftrightarrow> (\<forall>r \<in> set rs. fst r \<le> snd r) \<and>
     sorted_wrt (\<lambda>a b. unat (snd a) + 1 < unat (fst b)) rs"

lemma range_members_simps [simp]:
  "range_members [] = {}"
  "range_members (r # rs) = {fst r .. snd r} \<union> range_members rs"
  "range_members (xs @ ys) = range_members xs \<union> range_members ys"
  by (auto simp: range_members_def)

lemma ranges_ok_Cons:
  "ranges_ok (r # rs) \<longleftrightarrow> fst r \<le> snd r \<and> ranges_ok rs \<and> (\<forall>q \<in> set rs. unat (snd r) + 1 < unat (fst q))"
  by (auto simp: ranges_ok_def)

lemma check_ranges_False:
  "check_ranges False lst rs \<longleftrightarrow> ranges_ok rs \<and> (\<forall>r \<in> set rs. unat lst + 1 < unat (fst r))"
proof (induction rs arbitrary: lst)
  case (Cons r rs)
  have "unat lst + 1 < unat (fst q)"
    if "unat lst + 1 < unat (fst r)" "fst r \<le> snd r" "unat (snd r) + 1 < unat (fst q)" for q :: index_range
    using that by (simp add: word_le_nat_alt)
  with Cons show ?case by (auto simp: ranges_ok_Cons not_less not_le)
qed (simp add: ranges_ok_def)

lemma check_subaddress_dict_iff: "check_subaddress_dict d \<longleftrightarrow> ranges_ok (snd d)"
proof (cases "snd d")
  case (Cons r rs)
  then show ?thesis
    by (auto simp: check_subaddress_dict_def check_ranges_False ranges_ok_Cons not_less)
qed (simp add: check_subaddress_dict_def ranges_ok_def)

section \<open>Round trips of the wire objects\<close>

lemma unpack_flags:
  fixes e :: u8
  defines "f \<equiv> fst (unpack e)"
  shows "(if f AND ringct_output \<noteq> 0 then ringct_output OR (if f AND coinbase_output \<noteq> 0 then coinbase_output else 0)
          else (if f AND coinbase_output \<noteq> 0 then coinbase_output else 0)) = f"
proof -
  have "unat f < 4"
    using unsigned_less[of e, where ?'a = nat]
    by (simp add: f_def unpack_def unat_drop_bit_eq drop_bit_eq_div unat_div_distrib)
  then consider "unat f = 0" | "unat f = 1" | "unat f = 2" | "unat f = 3" by linarith
  then have "f \<in> {0, 1, 2, 3}"
  proof cases
    case 1 then have "f = 0" by unat_arith then show ?thesis by simp
  next
    case 2 then have "f = 1" by unat_arith then show ?thesis by simp
  next
    case 3 then have "f = 2" by unat_arith then show ?thesis by simp
  next
    case 4 then have "f = 3" by unat_arith then show ?thesis by simp
  qed
  then show ?thesis by (auto simp: coinbase_output_def ringct_output_def)
qed

definition payment_after_read :: "db_output \<Rightarrow> db_output \<Rightarrow> u8 list" where
  "payment_after_read self out =
     (if snd (unpack (o_extra out)) = 32 then o_payment_id out
      else if snd (unpack (o_extra out)) = 8 then take 8 (o_payment_id out) @ drop 8 (o_payment_id self)
      else o_payment_id self)"

text \<open>
  Reading back a written output gives the output: every field that is on the wire
  returns, the ring CT mask is kept for a ring CT output and zero otherwise, and the payment
  id returns at its length (0, 8 or 32 bytes).
\<close>

theorem read_write_output:
  assumes "snd (unpack (o_extra out)) \<in> {0, 8, 32}" and "length (o_payment_id out) = 32"
  shows "read_output self (write_output out) =
    Inr (out\<lparr>o_ringct_mask := (if fst (unpack (o_extra out)) AND ringct_output \<noteq> 0
                then o_ringct_mask out else 0),
             o_payment_id := payment_after_read self out\<rparr>)"
proof -
  have extra: "pack (fst (unpack (o_extra out))) n = o_extra out" if "snd (unpack (o_extra out)) = n" for n
    using pack_unpack[of "o_extra out"] that by simp
  have dflt: "read_default d (write_default d x) = x" for d x :: "'z"
    by (simp add: read_default_def write_default_def)
  have link: "Transaction_link (tl_height l) (tl_tx_hash l) = l" for l by simp
  have ne: "take 8 (o_payment_id out) \<noteq> []" "o_payment_id out \<noteq> []" using assms(2) by auto
  let ?f = "fst (unpack (o_extra out))"
  note flags = unpack_flags[of "o_extra out"]
  note defs = read_output_def write_output_def Let_def dflt payment_after_read_def
  consider "snd (unpack (o_extra out)) = 0" | "snd (unpack (o_extra out)) = 8"
    | "snd (unpack (o_extra out)) = 32" using assms(1) by auto
  then show ?thesis
    by cases
      (cases "?f AND ringct_output = 0"; use flags ne assms(2) in
        \<open>simp add: defs extra del: not_None_eq\<close>)+
qed

text \<open>The theorem on a ring CT output of a transaction with a short payment id.\<close>

definition sample_output :: db_output where
  "sample_output =
     \<lparr>o_link = Transaction_link 7 100,
      o_spend_meta = \<lparr>sm_id = Output_id 0 5, sm_amount = 50, sm_mixin_count = 15, sm_index = 1, sm_tx_public = 31\<rparr>,
      o_timestamp = 1000, o_unlock_time = 0, o_tx_prefix_hash = 32, o_pub = 33, o_ringct_mask = 34,
      o_extra = pack ringct_output 8, o_payment_id = [1, 2, 3, 4, 5, 6, 7, 8] @ replicate 24 0, o_fee = 7,
      o_recipient = Address_index 0 1\<rparr>"

theorem read_write_output_witness:
  "read_output (sample_output\<lparr>o_payment_id := replicate 32 9\<rparr>) (write_output sample_output) =
     Inr (sample_output\<lparr>o_payment_id := [1, 2, 3, 4, 5, 6, 7, 8] @ replicate 24 9\<rparr>)"
proof -
  have u: "unpack (o_extra sample_output) = (ringct_output, 8)"
    by (simp add: sample_output_def unpack_def pack_def ringct_output_def)
  have l: "length (o_payment_id sample_output) = 32" by (simp add: sample_output_def)
  show ?thesis
    using read_write_output[of sample_output "sample_output\<lparr>o_payment_id := replicate 32 9\<rparr>"] u l
    by (simp add: payment_after_read_def) (simp add: sample_output_def ringct_output_def numeral_eq_Suc)
qed

text \<open>C32: Reading back a written spend gives the spend, with the payment id kept exactly when
  it is 32 bytes long.\<close>

theorem read_write_spend:
  "read_spend dest (write_spend sp) =
     sp\<lparr>s_length := (if s_length sp = 32 then 32 else 0),
        s_payment_id := (if s_length sp = 32 then s_payment_id sp else s_payment_id dest)\<rparr>"
  by (simp add: read_spend_def write_spend_def Let_def)

end
