(* ===== verification/Compare.thy ===== *)
theory Compare
  imports Data
begin

text \<open>
  The comparison functions that \<open>src/src/db/storage.cpp\<close> gives to LMDB, on byte spans, and the
  order on records each of them computes. The tables of \<open>Store\<close> are sorted by these orders.
\<close>

section \<open>Bytes of the fields\<close>

type_synonym span = "u8 list"

text \<open>Integers are stored in the byte order of the machine (little-endian).\<close>

fun le_nat :: "span \<Rightarrow> nat" where
  "le_nat [] = 0"
| "le_nat (b # bs) = unat b + 256 * le_nat bs"

fun nat_le :: "nat \<Rightarrow> nat \<Rightarrow> span" where
  "nat_le 0 x = []"
| "nat_le (Suc n) x = of_nat (x mod 256) # nat_le n (x div 256)"

definition bytes_u64 :: "u64 \<Rightarrow> span" where
  "bytes_u64 x = nat_le 8 (unat x)"

definition bytes_u32 :: "u32 \<Rightarrow> span" where
  "bytes_u32 x = nat_le 4 (unat x)"

definition read_u64 :: "span \<Rightarrow> u64" where
  "read_u64 bs = of_nat (le_nat (take 8 bs))"

definition read_u32 :: "span \<Rightarrow> u32" where
  "read_u32 bs = of_nat (le_nat (take 4 bs))"

text \<open>A 32 byte array, from the number whose big-endian digits it holds.\<close>

definition bytes_hash :: "hash \<Rightarrow> span" where
  "bytes_hash x = rev (nat_le 32 (unat x))"

definition bytes_output_id :: "output_id \<Rightarrow> span" where
  "bytes_output_id i = bytes_u64 (oid_high i) @ bytes_u64 (oid_low i)"

definition read_output_id :: "span \<Rightarrow> output_id" where
  "read_output_id bs = Output_id (read_u64 bs) (read_u64 (drop 8 bs))"

section \<open>The comparison functions\<close>

text \<open>\<open>less<T>\<close>: a span too short for a \<open>T\<close> is below every other one.\<close>

definition less_val :: "nat \<Rightarrow> (span \<Rightarrow> 'a::linorder) \<Rightarrow> span \<Rightarrow> span \<Rightarrow> int" where
  "less_val n rd left right =
     (if length left < n then -1
      else if length right < n then 1
      else let left_val = rd left; right_val = rd right
        in if left_val < right_val then -1 else if right_val < left_val then 1 else 0)"

fun memcmp :: "span \<Rightarrow> span \<Rightarrow> int" where
  "memcmp (a # as) (b # bs) = (if a < b then -1 else if b < a then 1 else memcmp as bs)"
| "memcmp _ _ = 0"

definition compare_32bytes :: "span \<Rightarrow> span \<Rightarrow> int" where
  "compare_32bytes left right =
     (if length left < 32 then -1
      else if length right < 32 then 1
      else memcmp (take 32 left) (take 32 right))"

definition output_compare :: "span \<Rightarrow> span \<Rightarrow> int" where
  "output_compare left right =
     (let diff = less_val 8 read_u64 left right in
      if diff \<noteq> 0 then diff else
      let left = drop 8 left; right = drop 8 right; diff = compare_32bytes left right in
      if diff \<noteq> 0 then diff else
      let left = drop 32 left; right = drop 32 right in
      less_val 16 read_output_id left right)"

definition spend_compare :: "span \<Rightarrow> span \<Rightarrow> int" where
  "spend_compare left right =
     (let diff = less_val 8 read_u64 left right in
      if diff \<noteq> 0 then diff else
      let left = drop 8 left; right = drop 8 right; diff = compare_32bytes left right in
      if diff \<noteq> 0 then diff else
      let left = drop 32 left; right = drop 32 right; diff = compare_32bytes left right in
      if diff \<noteq> 0 then diff else
      let left = drop 32 left; right = drop 32 right in
      less_val 16 read_output_id left right)"

definition pending_spend_compare :: "span \<Rightarrow> span \<Rightarrow> int" where
  "pending_spend_compare left right =
     (let diff = less_val 16 read_output_id left right in
      if diff \<noteq> 0 then diff else
      let left = drop 16 left; right = drop 16 right; diff = compare_32bytes left right in
      if diff \<noteq> 0 then diff else
      let left = drop 32 left; right = drop 32 right; diff = compare_32bytes left right in
      if diff \<noteq> 0 then diff else
      let left = drop 32 left; right = drop 32 right; diff = less_val 4 read_u32 left right in
      if diff \<noteq> 0 then diff else
      let left = drop 4 left; right = drop 4 right in
      less_val 4 read_u32 left right)"

definition key_image_source_compare :: "span \<Rightarrow> span \<Rightarrow> int" where
  "key_image_source_compare left right =
     (let diff = compare_32bytes left right in
      if diff \<noteq> 0 then diff else
      let left = drop 32 left; right = drop 32 right in
      less_val 16 read_output_id left right)"

section \<open>The orders they compute\<close>

definition cmp :: "'a::linorder \<Rightarrow> 'a \<Rightarrow> int" where
  "cmp a b = (if a < b then -1 else if b < a then 1 else 0)"

lemma cmp_0_iff [simp]: "cmp a b = 0 \<longleftrightarrow> a = b"
  by (auto simp: cmp_def)

lemma length_nat_le [simp]: "length (nat_le n x) = n"
  by (induction n arbitrary: x) auto

lemma length_bytes [simp]:
  "length (bytes_u64 x) = 8" "length (bytes_u32 y) = 4" "length (bytes_hash h) = 32"
  "length (bytes_output_id i) = 16"
  by (simp_all add: bytes_u64_def bytes_u32_def bytes_hash_def bytes_output_id_def)

lemma le_nat_nat_le: "le_nat (nat_le n x) = x mod 256 ^ n"
proof (induction n arbitrary: x)
  case (Suc n)
  have "x mod 256 + 256 * (x div 256 mod 256 ^ n) = x mod (256 * 256 ^ n)"
    by (simp add: mod_mult2_eq)
  with Suc show ?case by (simp add: unat_of_nat take_bit_eq_mod)
qed simp

lemma read_bytes_u64 [simp]: "read_u64 (bytes_u64 x @ bs) = x"
  using unsigned_less[of x, where ?'a = nat]
  by (simp add: read_u64_def bytes_u64_def le_nat_nat_le)

lemma read_bytes_u32 [simp]: "read_u32 (bytes_u32 x @ bs) = x"
  using unsigned_less[of x, where ?'a = nat]
  by (simp add: read_u32_def bytes_u32_def le_nat_nat_le)

lemma read_bytes_output_id [simp]: "read_output_id (bytes_output_id i @ bs) = i"
  using read_bytes_u64[of "oid_low i" bs]
  by (simp add: read_output_id_def bytes_output_id_def del: read_bytes_u64)
     (simp add: append_assoc)

fun be_nat :: "span \<Rightarrow> nat" where
  "be_nat [] = 0"
| "be_nat (b # bs) = unat b * 256 ^ length bs + be_nat bs"

lemma digit_bound:
  fixes b x n :: nat
  assumes "b < k" "x < n"
  shows "b * n + x < k * n"
proof -
  have "(b + 1) * n \<le> k * n" using assms(1) by (intro mult_right_mono) auto
  with assms(2) show ?thesis unfolding add_mult_distrib by linarith
qed

lemma be_nat_bound: "be_nat bs < 256 ^ length bs"
proof (induction bs)
  case (Cons b bs)
  have "unat b < 256" using unsigned_less[of b, where ?'a = nat] by simp
  then show ?case using digit_bound[OF _ Cons.IH] by simp
qed simp

lemma memcmp_be_nat: "length as = length bs \<Longrightarrow> memcmp as bs = cmp (be_nat as) (be_nat bs)"
proof (induction as bs rule: list_induct2)
  case (Cons a as b bs)
  have lt: "be_nat (x # xs) < be_nat (y # ys)" if "x < y" "length xs = length ys" for x y :: u8 and xs ys
  proof -
    have "unat x + 1 \<le> unat y" using that(1) by (simp add: word_less_nat_alt)
    then have "unat x * 256 ^ length xs + be_nat xs < unat y * 256 ^ length xs"
      by (intro digit_bound be_nat_bound) simp
    with that(2) show ?thesis by simp
  qed
  show ?case
    using Cons lt[of a b as bs] lt[of b a bs as]
    by (auto simp: cmp_def not_less dest: less_imp_not_less)
qed (simp add: cmp_def)

lemma be_nat_append: "be_nat (xs @ [b]) = 256 * be_nat xs + unat b"
  by (induction xs) (auto simp: algebra_simps)

lemma be_nat_rev: "be_nat (rev bs) = le_nat bs"
  by (induction bs) (auto simp: be_nat_append)

lemma be_nat_bytes_hash: "be_nat (bytes_hash h) = unat h"
  using unsigned_less[of h, where ?'a = nat]
  by (simp add: bytes_hash_def be_nat_rev le_nat_nat_le)

lemma compare_hash [simp]:
  "compare_32bytes (bytes_hash a @ l) (bytes_hash b @ r) = cmp a b"
  by (simp add: compare_32bytes_def memcmp_be_nat be_nat_bytes_hash)
     (simp add: cmp_def word_less_nat_alt)

lemma less_val_u64 [simp]: "less_val 8 read_u64 (bytes_u64 a @ l) (bytes_u64 b @ r) = cmp a b"
  by (simp add: less_val_def cmp_def Let_def)

lemma less_val_u32 [simp]: "less_val 4 read_u32 (bytes_u32 a @ l) (bytes_u32 b @ r) = cmp a b"
  by (simp add: less_val_def cmp_def Let_def)

lemma less_val_output_id [simp]:
  "less_val 16 read_output_id (bytes_output_id a @ l) (bytes_output_id b @ r) = cmp a b"
  by (simp add: less_val_def cmp_def Let_def)

lemma cmp_pair: "cmp (a, b) (c, d) = (if cmp a c \<noteq> 0 then cmp a c else cmp b d)"
  by (auto simp: cmp_def)

text \<open>The order of a table, as a sort key: the compared fields, most significant first.\<close>

definition output_key :: "db_output \<Rightarrow> block_id \<times> hash \<times> output_id" where
  "output_key out = (tl_height (o_link out), tl_tx_hash (o_link out), sm_id (o_spend_meta out))"

definition spend_key :: "spend \<Rightarrow> block_id \<times> hash \<times> hash \<times> output_id" where
  "spend_key sp = (tl_height (s_link sp), tl_tx_hash (s_link sp), s_image sp, s_source sp)"

definition pending_key :: "pending_spend \<Rightarrow> output_id \<times> hash \<times> public_key \<times> u32 \<times> u32" where
  "pending_key ps = (ps_source ps, ps_tx_hash ps, ps_pub ps, ps_out_index ps, ps_recorded ps)"

definition source_key :: "key_image_source \<Rightarrow> hash \<times> output_id" where
  "source_key k = (kis_image k, kis_source k)"

text \<open>The leading bytes of the stored structs, in the order of their fields.\<close>

definition output_bytes :: "db_output \<Rightarrow> span \<Rightarrow> span" where
  "output_bytes out rest = bytes_u64 (tl_height (o_link out)) @ bytes_hash (tl_tx_hash (o_link out))
     @ bytes_output_id (sm_id (o_spend_meta out)) @ rest"

definition spend_bytes :: "spend \<Rightarrow> span \<Rightarrow> span" where
  "spend_bytes sp rest = bytes_u64 (tl_height (s_link sp)) @ bytes_hash (tl_tx_hash (s_link sp))
     @ bytes_hash (s_image sp) @ bytes_output_id (s_source sp) @ rest"

definition pending_bytes :: "pending_spend \<Rightarrow> span" where
  "pending_bytes ps = bytes_output_id (ps_source ps) @ bytes_hash (ps_tx_hash ps)
     @ bytes_hash (ps_pub ps) @ bytes_u32 (ps_out_index ps) @ bytes_u32 (ps_recorded ps)"

definition source_bytes :: "key_image_source \<Rightarrow> span \<Rightarrow> span" where
  "source_bytes k rest = bytes_hash (kis_image k) @ bytes_output_id (kis_source k) @ rest"

text \<open>
  The four comparators compute, on the bytes of stored records, the lexicographic order of
  the fields the tables are named after, whatever bytes follow those fields.
\<close>

theorem comparators_are_key_orders:
  "output_compare (output_bytes a ra) (output_bytes b rb) = cmp (output_key a) (output_key b)
   \<and> spend_compare (spend_bytes c rc) (spend_bytes d rd) = cmp (spend_key c) (spend_key d)
   \<and> pending_spend_compare (pending_bytes p) (pending_bytes q) = cmp (pending_key p) (pending_key q)
   \<and> key_image_source_compare (source_bytes k rk) (source_bytes l rl) = cmp (source_key k) (source_key l)"
  using less_val_u32[where l = "[]" and r = "[]"]
  by (simp add: output_compare_def output_bytes_def output_key_def spend_compare_def
      spend_bytes_def spend_key_def pending_spend_compare_def pending_bytes_def pending_key_def
      key_image_source_compare_def source_bytes_def source_key_def Let_def cmp_pair)

text \<open>
  A search value that holds only a block height is, for the output and spend comparators,
  below every record of that height and of the heights above, and above every record of a lower
  height: a range search for a height finds the first record of that height or above.
\<close>

theorem height_search_value:
  "output_compare (bytes_u64 h) (output_bytes b rb) = (if h \<le> tl_height (o_link b) then -1 else 1)
   \<and> spend_compare (bytes_u64 h) (spend_bytes d rd) = (if h \<le> tl_height (s_link d) then -1 else 1)"
proof -
  have u: "less_val 8 read_u64 (bytes_u64 h) (bytes_u64 x @ r) = cmp h x" for x r
    using less_val_u64[of h "[]" x r] by simp
  have e: "compare_32bytes [] r = -1" for r
    by (simp add: compare_32bytes_def)
  have c: "(if cmp h x \<noteq> 0 then cmp h x else -1) = (if h \<le> x then -1 else 1)" for x
    by (auto simp: cmp_def)
  have 1: "output_compare (bytes_u64 h) (output_bytes b rb) = (if h \<le> tl_height (o_link b) then -1 else 1)"
    by (simp only: output_compare_def output_bytes_def Let_def u e c length_bytes drop_all
        order_refl) (auto simp add: e cmp_def)
  have 2: "spend_compare (bytes_u64 h) (spend_bytes d rd) = (if h \<le> tl_height (s_link d) then -1 else 1)"
    by (simp only: spend_compare_def spend_bytes_def Let_def u e c length_bytes drop_all order_refl)
       (auto simp add: e cmp_def)
  from 1 2 show ?thesis by simp
qed

end
