(* ===== verification/Mdb.thy ===== *)
theory Mdb
  imports Compare
begin

text \<open>
  The interface to an LMDB table with sorted duplicates (\<open>MDB_DUPSORT\<close>). LMDB is not part of
  the repository: its table operations are a parameter (the record \<open>mdb\<close>) over an opaque
  state of a table, and what the code relies on, the documented effect of the calls on what a
  cursor walk sees, is the locale \<open>mdb_table\<close>. Cursor reads are functions of the rows a
  walk over a key sees. An instance over a log of rows shows that the laws can be met, and
  gives the witnesses of the development something to run on.

  The wrappers around it that are in the repository, \<open>bulk_insert\<close> of \<open>storage.cpp\<close> and the
  transaction loop \<open>try_write\<close> of \<open>lws_database.h\<close>, are modelled at the end.
\<close>

section \<open>The operations and their laws\<close>

datatype put_flag = MDB_DEFAULT | MDB_NODUPDATA | MDB_CURRENT

record ('t, 'k, 'v) mdb =
  m_keys :: "'t \<Rightarrow> 'k list"
  m_dups :: "'t \<Rightarrow> 'k \<Rightarrow> 'v list"
  m_put :: "put_flag \<Rightarrow> 'k \<Rightarrow> 'v \<Rightarrow> 't \<Rightarrow> mdb_error + 't"
  m_del :: "'k \<Rightarrow> 'v \<Rightarrow> 't \<Rightarrow> mdb_error + 't"
  m_del_key :: "'k \<Rightarrow> 't \<Rightarrow> mdb_error + 't"

text \<open>
  Cursor reads: \<open>MDB_GET_BOTH\<close> looks up the duplicate that compares equal to the search
  value, \<open>MDB_GET_BOTH_RANGE\<close> (followed by \<open>MDB_NEXT_DUP\<close>) walks from the first one that does
  not compare below it, \<open>MDB_SET\<close> followed by \<open>MDB_LAST_DUP\<close> finds the last.
\<close>

definition get_both :: "('t, 'k, 'v) mdb \<Rightarrow> ('v \<Rightarrow> 'f) \<Rightarrow> 't \<Rightarrow> 'k \<Rightarrow> 'f \<Rightarrow> mdb_error + 'v" where
  "get_both M sk t k f =
     (case find_row sk f (m_dups M t k) of None \<Rightarrow> Inl MDB_NOTFOUND | Some v \<Rightarrow> Inr v)"

definition get_both_range ::
  "('t, 'k, 'v) mdb \<Rightarrow> ('v \<Rightarrow> 'f::linorder) \<Rightarrow> 't \<Rightarrow> 'k \<Rightarrow> 'f \<Rightarrow> 'v list" where
  "get_both_range M sk t k f = rows_from sk f (m_dups M t k)"

definition get_last_dup :: "('t, 'k, 'v) mdb \<Rightarrow> 't \<Rightarrow> 'k \<Rightarrow> mdb_error + 'v" where
  "get_last_dup M t k = (if m_dups M t k = [] then Inl MDB_NOTFOUND else Inr (last (m_dups M t k)))"

text \<open>The state after a successful write.\<close>

definition tput :: "('t, 'k, 'v) mdb \<Rightarrow> 'k \<Rightarrow> 'v \<Rightarrow> 't \<Rightarrow> 't" where
  "tput M k v t = projr (m_put M MDB_DEFAULT k v t)"

definition tdel :: "('t, 'k, 'v) mdb \<Rightarrow> 'k \<Rightarrow> 'v \<Rightarrow> 't \<Rightarrow> 't" where
  "tdel M k v t = projr (m_del M k v t)"

definition tdel_key :: "('t, 'k, 'v) mdb \<Rightarrow> 'k \<Rightarrow> 't \<Rightarrow> 't" where
  "tdel_key M k t = projr (m_del_key M k t)"

locale mdb_table =
  fixes M :: "('t, 'k::linorder, 'v) mdb" and sk :: "'v \<Rightarrow> 'f::linorder"
  assumes dups_sorted [simp, intro!]: "sorted_rows sk (m_dups M t k)"
    and keys_sorted: "sorted_wrt (<) (m_keys M t)"
    and keys_iff: "k \<in> set (m_keys M t) \<longleftrightarrow> m_dups M t k \<noteq> []"
    and put_default_ex: "\<exists>t'. m_put M MDB_DEFAULT k v t = Inr t' \<and>
          m_dups M t' = (m_dups M t)(k := ins_row sk v (m_dups M t k))"
    and put_nodup: "m_put M MDB_NODUPDATA k v t =
          (if has_row sk (sk v) (m_dups M t k) then Inl MDB_KEYEXIST
           else m_put M MDB_DEFAULT k v t)"
    and put_current: "has_row sk (sk v) (m_dups M t k) \<Longrightarrow>
          m_put M MDB_CURRENT k v t = m_put M MDB_DEFAULT k v t"
    and del_ex: "v \<in> set (m_dups M t k) \<Longrightarrow> \<exists>t'. m_del M k v t = Inr t' \<and>
          m_dups M t' = (m_dups M t)(k := del_row sk (sk v) (m_dups M t k))"
    and del_key_ex: "m_dups M t k \<noteq> [] \<Longrightarrow> \<exists>t'. m_del_key M k t = Inr t' \<and>
          m_dups M t' = (m_dups M t)(k := [])"
begin

lemma put_default_both:
  "m_put M MDB_DEFAULT k v t = Inr (tput M k v t) \<and>
   m_dups M (tput M k v t) = (m_dups M t)(k := ins_row sk v (m_dups M t k))"
  using put_default_ex[of k v t] by (auto simp: tput_def)

lemmas put_default [simp] = put_default_both[THEN conjunct1]
lemmas dups_tput [simp] = put_default_both[THEN conjunct2]

lemma del_both: "v \<in> set (m_dups M t k) \<Longrightarrow>
    m_del M k v t = Inr (tdel M k v t) \<and>
    m_dups M (tdel M k v t) = (m_dups M t)(k := del_row sk (sk v) (m_dups M t k))"
  using del_ex[of v t k] by (auto simp: tdel_def)

lemmas del_eq [simp] = del_both[THEN conjunct1]
lemmas dups_tdel [simp] = del_both[THEN conjunct2]

lemma del_key_both: "m_dups M t k \<noteq> [] \<Longrightarrow>
    m_del_key M k t = Inr (tdel_key M k t) \<and> m_dups M (tdel_key M k t) = (m_dups M t)(k := [])"
  using del_key_ex[of t k] by (auto simp: tdel_key_def)

lemmas del_key_eq [simp] = del_key_both[THEN conjunct1]
lemmas dups_tdel_key [simp] = del_key_both[THEN conjunct2]

lemma put_nodup_eq [simp]: "m_put M MDB_NODUPDATA k v t =
    (if has_row sk (sk v) (m_dups M t k) then Inl MDB_KEYEXIST else Inr (tput M k v t))"
  by (simp add: put_nodup)

lemma put_current_eq [simp]:
  "has_row sk (sk v) (m_dups M t k) \<Longrightarrow> m_put M MDB_CURRENT k v t = Inr (tput M k v t)"
  by (simp add: put_current)

lemma get_both_Inr_iff [simp]:
  "get_both M sk t k f = Inr v \<longleftrightarrow> v \<in> set (m_dups M t k) \<and> sk v = f"
  using find_row_eq_Some_iff[OF dups_sorted, of f t k v]
  by (auto simp: get_both_def split: option.splits)

lemma get_both_Inl_iff:
  "get_both M sk t k f = Inl e \<longleftrightarrow> e = MDB_NOTFOUND \<and> \<not> has_row sk f (m_dups M t k)"
  by (auto simp: get_both_def find_row_None_iff[symmetric] split: option.splits)

lemma row_unique:
  "v \<in> set (m_dups M t k) \<Longrightarrow> w \<in> set (m_dups M t k) \<Longrightarrow> sk v = sk w \<Longrightarrow> v = w"
  by (rule sorted_rows_inj[OF dups_sorted])

lemma distinct_keys: "distinct (m_keys M t)"
  using keys_sorted[of t] by (simp add: strict_sorted_iff)

lemma keys_list: "m_keys M t = sorted_list_of_set {k. m_dups M t k \<noteq> []}"
proof -
  have "set (m_keys M t) = {k. m_dups M t k \<noteq> []}" by (auto simp: keys_iff)
  then show ?thesis
    using keys_sorted[of t] by (metis sorted_list_of_set.idem_if_sorted_distinct strict_sorted_iff)
qed

end

text \<open>The effect of a write on the set of all rows, and on the rows of its key.\<close>

definition rows_set :: "('t, 'k, 'v) mdb \<Rightarrow> 't \<Rightarrow> ('k \<times> 'v) set" where
  "rows_set M t = {(k, v). v \<in> set (m_dups M t k)}"

context mdb_table begin

lemma set_put_over:
  assumes "v \<in> set (m_dups M t k)" "sk u = sk v"
  shows "set (m_dups M (tput M k u t) k) = insert u (set (m_dups M t k) - {v})"
  using assms by (auto simp: set_ins_row dest: row_unique)

lemma set_put_new:
  assumes "\<not> has_row sk (sk u) (m_dups M t k)"
  shows "set (m_dups M (tput M k u t) k) = insert u (set (m_dups M t k))"
  using assms by (auto simp: set_ins_row has_row_def image_iff)

lemma set_del:
  assumes "v \<in> set (m_dups M t k)"
  shows "set (m_dups M (tdel M k v t) k) = set (m_dups M t k) - {v}"
  using assms by (auto simp: set_del_row dest: row_unique)

lemma rows_put_over:
  assumes "(k, v) \<in> rows_set M t" "sk u = sk v"
  shows "rows_set M (tput M k u t) = insert (k, u) (rows_set M t - {(k, v)})"
proof -
  have e: "set (m_dups M (tput M k u t) j) = (if j = k then insert u (set (m_dups M t k) - {v}) else set (m_dups M t j))" for j
    using set_put_over[of v t k u] assms by (simp add: rows_set_def)
  show ?thesis unfolding rows_set_def by (auto simp only: e split: if_splits)
qed

lemma rows_put_new:
  assumes "\<not> has_row sk (sk u) (m_dups M t k)"
  shows "rows_set M (tput M k u t) = insert (k, u) (rows_set M t)"
proof -
  have e: "set (m_dups M (tput M k u t) j) = (if j = k then insert u (set (m_dups M t k)) else set (m_dups M t j))" for j
    using set_put_new[of u t k] assms by simp
  show ?thesis unfolding rows_set_def by (auto simp only: e split: if_splits)
qed

lemma rows_del:
  assumes "(k, v) \<in> rows_set M t"
  shows "rows_set M (tdel M k v t) = rows_set M t - {(k, v)}"
proof -
  have v: "v \<in> set (m_dups M t k)" using assms by (simp add: rows_set_def)
  have e: "set (m_dups M (tdel M k v t) j) = (if j = k then set (m_dups M t k) - {v} else set (m_dups M t j))" for j
    using set_del[OF v] v by simp
  show ?thesis unfolding rows_set_def by (auto simp only: e split: if_splits)
qed

end

section \<open>An instance: a log of rows\<close>

text \<open>
  Rows of several tables in one list, newest first; \<open>prj\<close> selects a table's rows. Reading
  sorts, so the laws hold for every log.
\<close>

fun log_rows :: "('c \<Rightarrow> ('k \<times> 'v) option) \<Rightarrow> ('v \<Rightarrow> 'f::linorder) \<Rightarrow> 'k \<Rightarrow> 'c list \<Rightarrow> 'v list" where
  "log_rows prj sk k [] = []"
| "log_rows prj sk k (c # cs) =
     (case prj c of
        None \<Rightarrow> log_rows prj sk k cs
      | Some (k', v) \<Rightarrow>
          if k' = k then ins_row sk v (log_rows prj sk k cs) else log_rows prj sk k cs)"

fun log_keys :: "('c \<Rightarrow> ('k::linorder \<times> 'v) option) \<Rightarrow> 'c list \<Rightarrow> 'k list" where
  "log_keys prj [] = []"
| "log_keys prj (c # cs) =
     (case prj c of None \<Rightarrow> log_keys prj cs | Some (k, _) \<Rightarrow> ins_row (\<lambda>k. k) k (log_keys prj cs))"

definition log_without :: "('c \<Rightarrow> ('k \<times> 'v) option) \<Rightarrow> ('k \<Rightarrow> 'v \<Rightarrow> bool) \<Rightarrow> 'c list \<Rightarrow> 'c list" where
  "log_without prj P cs =
     filter (\<lambda>c. case prj c of None \<Rightarrow> True | Some (k, v) \<Rightarrow> \<not> P k v) cs"

definition log_put :: "('k \<Rightarrow> 'v \<Rightarrow> 'c) \<Rightarrow> ('c \<Rightarrow> ('k \<times> 'v) option) \<Rightarrow> ('v \<Rightarrow> 'f::linorder) \<Rightarrow>
    put_flag \<Rightarrow> 'k \<Rightarrow> 'v \<Rightarrow> 'c list \<Rightarrow> mdb_error + 'c list" where
  "log_put mk prj sk flag k v t =
     (if flag = MDB_NODUPDATA \<and> has_row sk (sk v) (log_rows prj sk k t) then Inl MDB_KEYEXIST
      else Inr (mk k v # t))"

definition log_del :: "('c \<Rightarrow> ('k \<times> 'v) option) \<Rightarrow> ('v \<Rightarrow> 'f::linorder) \<Rightarrow>
    'k \<Rightarrow> 'v \<Rightarrow> 'c list \<Rightarrow> mdb_error + 'c list" where
  "log_del prj sk k v t =
     (if has_row sk (sk v) (log_rows prj sk k t)
      then Inr (log_without prj (\<lambda>k' v'. k' = k \<and> sk v' = sk v) t) else Inl (MDB_CODE 22))"

definition log_del_key :: "('c \<Rightarrow> ('k \<times> 'v) option) \<Rightarrow> ('v \<Rightarrow> 'f::linorder) \<Rightarrow>
    'k \<Rightarrow> 'c list \<Rightarrow> mdb_error + 'c list" where
  "log_del_key prj sk k t =
     (if log_rows prj sk k t = [] then Inl (MDB_CODE 22)
      else Inr (log_without prj (\<lambda>k' v'. k' = k) t))"

definition log_mdb :: "('k \<Rightarrow> 'v \<Rightarrow> 'c) \<Rightarrow> ('c \<Rightarrow> ('k \<times> 'v) option) \<Rightarrow> ('v \<Rightarrow> 'f::linorder) \<Rightarrow>
    ('c list, 'k::linorder, 'v) mdb" where
  "log_mdb mk prj sk =
     \<lparr>m_keys = log_keys prj, m_dups = (\<lambda>t k. log_rows prj sk k t),
      m_put = log_put mk prj sk, m_del = log_del prj sk, m_del_key = log_del_key prj sk\<rparr>"

lemma log_rows_sorted: "sorted_rows sk (log_rows prj sk k t)"
  by (induction t) (auto intro: sorted_ins_row split: option.splits)

lemma log_keys_sorted: "sorted_rows (\<lambda>k. k) (log_keys prj t)"
  by (induction t) (auto intro: sorted_ins_row split: option.splits)

lemma log_keys_iff: "k \<in> set (log_keys prj t) \<longleftrightarrow> log_rows prj sk k t \<noteq> []"
proof (induction t)
  case (Cons c t)
  then show ?case by (auto simp: set_ins_row[OF log_keys_sorted] split: option.splits)
qed simp

lemma log_rows_without:
  "log_rows prj sk k (log_without prj (\<lambda>k' v'. k' = k0 \<and> sk v' = f) t) =
     (if k = k0 then del_row sk f (log_rows prj sk k t) else log_rows prj sk k t)"
proof (induction t)
  case (Cons c t)
  then show ?case
    by (auto simp: log_without_def del_row_ins_comm log_rows_sorted split: option.splits)
qed (simp add: log_without_def del_row_def)

lemma log_rows_without_key:
  "log_rows prj sk k (log_without prj (\<lambda>k' v'. k' = k0) t) =
     (if k = k0 then [] else log_rows prj sk k t)"
proof (induction t)
  case (Cons c t)
  show ?case
  proof (cases "prj c")
    case (Some p)
    with Cons show ?thesis by (cases p) (auto simp: log_without_def)
  qed (use Cons in \<open>simp add: log_without_def\<close>)
qed (simp add: log_without_def)

lemma log_mdb_table:
  assumes inj: "\<And>k v. prj (mk k v) = Some (k, v)"
  shows "mdb_table (log_mdb mk prj sk) sk"
proof
  fix t k
  show "sorted_wrt (<) (m_keys (log_mdb mk prj sk) t)"
    using log_keys_sorted[of prj t] by (simp add: log_mdb_def sorted_rows_def)
  show "k \<in> set (m_keys (log_mdb mk prj sk) t) \<longleftrightarrow> m_dups (log_mdb mk prj sk) t k \<noteq> []"
    by (simp add: log_mdb_def log_keys_iff)
qed (auto simp: log_mdb_def log_rows_sorted log_put_def log_del_def log_del_key_def inj
    log_rows_without log_rows_without_key fun_eq_iff has_row_def)

section \<open>Bulk insertion\<close>

text \<open>
  \<open>bulk_insert\<close>: put the values one after the other under one key; a value that is already
  present is skipped, any other error ends the loop.
\<close>

fun bulk_insert :: "('t, 'k, 'v) mdb \<Rightarrow> put_flag \<Rightarrow> 'k \<Rightarrow> 'v list \<Rightarrow> 't \<Rightarrow> error + 't" where
  "bulk_insert M flag k [] t = Inr t"
| "bulk_insert M flag k (v # values) t =
     (case m_put M flag k v t of
        Inl e \<Rightarrow> if e = MDB_KEYEXIST then bulk_insert M flag k values t else Inl (Mdb e)
      | Inr t' \<Rightarrow> bulk_insert M flag k values t')"

text \<open>What the rows of the key are afterwards, overwriting or keeping rows that compare equal.\<close>

definition ins_new :: "('v \<Rightarrow> 'f::linorder) \<Rightarrow> 'v \<Rightarrow> 'v list \<Rightarrow> 'v list" where
  "ins_new sk v xs = (if has_row sk (sk v) xs then xs else ins_row sk v xs)"

lemma ins_new_inj:
  assumes "sorted_rows sk xs" "inj_on sk (set xs \<union> set vs)"
  shows "set (fold (ins_new sk) vs xs) = set xs \<union> set vs"
  using assms
proof (induction vs arbitrary: xs)
  case (Cons v vs)
  show ?case
  proof (cases "has_row sk (sk v) xs")
    case True
    then have "v \<in> set xs" using Cons.prems(2) by (auto simp: has_row_def inj_on_def)
    with True Cons.IH[OF Cons.prems(1)] Cons.prems(2) show ?thesis
      by (auto simp: ins_new_def intro: inj_on_subset)
  next
    case False
    have s: "set (ins_row sk v xs) = insert v (set xs)"
      using False Cons.prems(1) by (auto simp: set_ins_row has_row_def image_iff)
    with False Cons.IH[OF sorted_ins_row[OF Cons.prems(1)], of v] Cons.prems(2) show ?thesis
      by (simp add: ins_new_def)
  qed
qed simp

lemma ins_new_sub:
  assumes "sorted_rows sk xs"
  shows "set xs \<subseteq> set (fold (ins_new sk) vs xs)" "set (fold (ins_new sk) vs xs) \<subseteq> set xs \<union> set vs"
    "\<And>v. v \<in> set vs \<Longrightarrow> has_row sk (sk v) (fold (ins_new sk) vs xs)"
proof -
  have "set xs \<subseteq> set (fold (ins_new sk) vs xs) \<and> set (fold (ins_new sk) vs xs) \<subseteq> set xs \<union> set vs \<and>
    (\<forall>v \<in> set vs. has_row sk (sk v) (fold (ins_new sk) vs xs))"
    using assms
  proof (induction vs arbitrary: xs)
    case (Cons v vs)
    show ?case
    proof (cases "has_row sk (sk v) xs")
      case True
      with Cons.IH[OF Cons.prems] show ?thesis by (auto simp: ins_new_def has_row_def)
    next
      case False
      then have "set (ins_row sk v xs) = insert v (set xs)" using Cons.prems by (auto simp: set_ins_row has_row_def image_iff)
      with False Cons.IH[OF sorted_ins_row[OF Cons.prems], of v] show ?thesis by (auto simp: ins_new_def has_row_def)
    qed
  qed simp
  then show "set xs \<subseteq> set (fold (ins_new sk) vs xs)" "set (fold (ins_new sk) vs xs) \<subseteq> set xs \<union> set vs"
    "\<And>v. v \<in> set vs \<Longrightarrow> has_row sk (sk v) (fold (ins_new sk) vs xs)" by blast+
qed

context mdb_table begin

lemma bulk_insert_nodup:
  "\<exists>t'. bulk_insert M MDB_NODUPDATA k vs t = Inr t' \<and>
     m_dups M t' = (m_dups M t)(k := fold (ins_new sk) vs (m_dups M t k))"
proof (induction vs arbitrary: t)
  case (Cons v vs)
  show ?case
  proof (cases "has_row sk (sk v) (m_dups M t k)")
    case True
    with Cons[of t] show ?thesis by (simp add: ins_new_def)
  next
    case False
    with Cons[of "tput M k v t"] show ?thesis by (auto simp: ins_new_def fun_eq_iff)
  qed
qed simp

lemma bulk_insert_over:
  "\<exists>t'. bulk_insert M MDB_DEFAULT k vs t = Inr t' \<and>
     m_dups M t' = (m_dups M t)(k := fold (ins_row sk) vs (m_dups M t k))"
proof (induction vs arbitrary: t)
  case (Cons v vs)
  have "m_put M MDB_DEFAULT k v t = Inr (tput M k v t)" by simp
  with Cons[of "tput M k v t"] show ?case by (auto simp: fun_eq_iff)
qed simp

end

section \<open>Transactions\<close>

text \<open>
  \<open>database::try_write\<close>. What LMDB and the operating system answer is the parameter: the
  result of beginning a transaction, of committing it and of resizing the map, for each
  attempt. The body runs on the state at the start of the transaction; its changes count only
  if the commit succeeds.
\<close>

record 's txn_env =
  env_begin :: "nat \<Rightarrow> error option"
  env_commit :: "nat \<Rightarrow> 's \<Rightarrow> error option"
  env_resize :: "nat \<Rightarrow> error option"

fun try_write_from :: "'s txn_env \<Rightarrow> ('s \<Rightarrow> error + 's \<times> 'a) \<Rightarrow> 's \<Rightarrow> nat \<Rightarrow> nat \<Rightarrow> 's \<times> (error + 'a)" where
  "try_write_from E f s i 0 = (s, Inl (Mdb MDB_MAP_FULL))"
| "try_write_from E f s i (Suc left) =
     (case env_begin E i of
        Some e \<Rightarrow> (s, Inl e)
      | None \<Rightarrow>
          (let retry = (case env_resize E i of
                          Some e \<Rightarrow> (s, Inl e)
                        | None \<Rightarrow> try_write_from E f s (Suc i) left)
           in case f s of
                Inr (s', wrote) \<Rightarrow>
                  (case env_commit E i s' of
                     None \<Rightarrow> (s', Inr wrote)
                   | Some e \<Rightarrow> if e = Mdb MDB_MAP_FULL then retry else (s, Inl e))
              | Inl e \<Rightarrow> if e = Mdb MDB_MAP_FULL then retry else (s, Inl e)))"

definition try_write :: "'s txn_env \<Rightarrow> ('s \<Rightarrow> error + 's \<times> 'a) \<Rightarrow> 's \<Rightarrow> 's \<times> (error + 'a)" where
  "try_write E f s = try_write_from E f s 0 3"

lemma try_write_from_atomic:
  "case try_write_from E f s i n of
     (s', Inl e) \<Rightarrow> s' = s
   | (s', Inr a) \<Rightarrow> f s = Inr (s', a)"
proof (induction n arbitrary: i)
  case (Suc n)
  show ?case
    using Suc[of "Suc i"] by (auto simp: Let_def split: option.splits sum.splits)
qed simp


end
