(* ===== verification/Store.thy ===== *)
theory Store
  imports Mdb
begin

text \<open>
  The tables of the database (\<open>storage_internal\<close> and the table declarations of
  \<open>src/src/db/storage.cpp\<close>): one LMDB table per kind of record, each with the type of its key and
  the fields its duplicates are sorted by. \<open>'t\<close> is the opaque state of a table, \<open>tables\<close> the
  state of the database and \<open>lmdb\<close> the library's operations at the type of each table.
\<close>

section \<open>Sort keys\<close>

text \<open>
  \<open>MONERO_SORT_BY\<close> and \<open>MONERO_COMPARE\<close> name one field; the other comparators are those of
  \<open>Compare\<close> or the \<open>operator<\<close> of the record. Accounts are found by view key, requests by spend
  key.
\<close>

definition ba_view :: "account_by_address \<Rightarrow> public_key" where
  "ba_view a = view_public (ba_address a)"

definition r_spend :: "request_info \<Rightarrow> public_key" where
  "r_spend r = spend_public (r_address r)"

definition ks_self :: "hash \<Rightarrow> hash" where
  "ks_self k = k"

definition ev_self :: "webhook_event \<Rightarrow> webhook_event" where
  "ev_self e = e"

section \<open>The tables\<close>

definition blocks_version :: nat where
  "blocks_version = 0"

definition by_address_version :: nat where
  "by_address_version = 0"

definition pows_version :: nat where
  "pows_version = 1"

definition pows_previous_version :: nat where
  "pows_previous_version = 0"

record 't tables =
  blocks_t :: 't
  pows_t :: 't
  accounts_t :: 't
  accounts_ba_t :: 't
  accounts_bh_t :: 't
  outputs_t :: 't
  spends_t :: 't
  images_t :: 't
  confirmed_spends_t :: 't
  imported_spend_sources_t :: 't
  pending_spends_t :: 't
  requests_t :: 't
  webhooks_t :: 't
  events_t :: 't
  subaddress_ranges_t :: 't
  subaddress_indexes_t :: 't

record 't lmdb =
  blocks_m :: "('t, nat, block_info) mdb"
  pows_m :: "('t, nat, block_pow) mdb"
  accounts_m :: "('t, account_status, account) mdb"
  accounts_ba_m :: "('t, nat, account_by_address) mdb"
  accounts_bh_m :: "('t, block_id, account_lookup) mdb"
  outputs_m :: "('t, account_id, db_output) mdb"
  spends_m :: "('t, account_id, spend) mdb"
  images_m :: "('t, output_id, key_image) mdb"
  confirmed_spends_m :: "('t, account_id, hash) mdb"
  imported_spend_sources_m :: "('t, account_id, key_image_source) mdb"
  pending_spends_m :: "('t, account_id, pending_spend) mdb"
  requests_m :: "('t, request, request_info) mdb"
  webhooks_m :: "('t, webhook_key, webhook_value) mdb"
  events_m :: "('t, account_id, webhook_event) mdb"
  subaddress_ranges_m :: "('t, account_id, subaddress_dict) mdb"
  subaddress_indexes_m :: "('t, account_id, subaddress_map) mdb"

locale lmdb_store =
  blocks: mdb_table "blocks_m L" bi_id +
  pows: mdb_table "pows_m L" bp_id +
  accounts: mdb_table "accounts_m L" a_id +
  accounts_ba: mdb_table "accounts_ba_m L" ba_view +
  accounts_bh: mdb_table "accounts_bh_m L" al_id +
  outputs: mdb_table "outputs_m L" output_key +
  spends: mdb_table "spends_m L" spend_key +
  images: mdb_table "images_m L" ki_value +
  confirmed_spends: mdb_table "confirmed_spends_m L" ks_self +
  imported_spend_sources: mdb_table "imported_spend_sources_m L" source_key +
  pending_spends: mdb_table "pending_spends_m L" pending_key +
  requests: mdb_table "requests_m L" r_spend +
  webhooks: mdb_table "webhooks_m L" fst +
  events: mdb_table "events_m L" ev_self +
  subaddress_ranges: mdb_table "subaddress_ranges_m L" fst +
  subaddress_indexes: mdb_table "subaddress_indexes_m L" sub_subaddress
  for L :: "'t lmdb"

section \<open>An instance\<close>

datatype cell =
    Cell_blocks nat block_info
  | Cell_pows nat block_pow
  | Cell_accounts account_status account
  | Cell_accounts_ba nat account_by_address
  | Cell_accounts_bh block_id account_lookup
  | Cell_outputs account_id db_output
  | Cell_spends account_id spend
  | Cell_images output_id key_image
  | Cell_confirmed_spends account_id hash
  | Cell_imported_spend_sources account_id key_image_source
  | Cell_pending_spends account_id pending_spend
  | Cell_requests request request_info
  | Cell_webhooks webhook_key webhook_value
  | Cell_events account_id webhook_event
  | Cell_subaddress_ranges account_id subaddress_dict
  | Cell_subaddress_indexes account_id subaddress_map

fun prj_blocks :: "cell \<Rightarrow> (nat \<times> block_info) option" where
  "prj_blocks (Cell_blocks k v) = Some (k, v)"
| "prj_blocks _ = None"

fun prj_pows :: "cell \<Rightarrow> (nat \<times> block_pow) option" where
  "prj_pows (Cell_pows k v) = Some (k, v)"
| "prj_pows _ = None"

fun prj_accounts :: "cell \<Rightarrow> (account_status \<times> account) option" where
  "prj_accounts (Cell_accounts k v) = Some (k, v)"
| "prj_accounts _ = None"

fun prj_accounts_ba :: "cell \<Rightarrow> (nat \<times> account_by_address) option" where
  "prj_accounts_ba (Cell_accounts_ba k v) = Some (k, v)"
| "prj_accounts_ba _ = None"

fun prj_accounts_bh :: "cell \<Rightarrow> (block_id \<times> account_lookup) option" where
  "prj_accounts_bh (Cell_accounts_bh k v) = Some (k, v)"
| "prj_accounts_bh _ = None"

fun prj_outputs :: "cell \<Rightarrow> (account_id \<times> db_output) option" where
  "prj_outputs (Cell_outputs k v) = Some (k, v)"
| "prj_outputs _ = None"

fun prj_spends :: "cell \<Rightarrow> (account_id \<times> spend) option" where
  "prj_spends (Cell_spends k v) = Some (k, v)"
| "prj_spends _ = None"

fun prj_images :: "cell \<Rightarrow> (output_id \<times> key_image) option" where
  "prj_images (Cell_images k v) = Some (k, v)"
| "prj_images _ = None"

fun prj_confirmed_spends :: "cell \<Rightarrow> (account_id \<times> hash) option" where
  "prj_confirmed_spends (Cell_confirmed_spends k v) = Some (k, v)"
| "prj_confirmed_spends _ = None"

fun prj_imported_spend_sources :: "cell \<Rightarrow> (account_id \<times> key_image_source) option" where
  "prj_imported_spend_sources (Cell_imported_spend_sources k v) = Some (k, v)"
| "prj_imported_spend_sources _ = None"

fun prj_pending_spends :: "cell \<Rightarrow> (account_id \<times> pending_spend) option" where
  "prj_pending_spends (Cell_pending_spends k v) = Some (k, v)"
| "prj_pending_spends _ = None"

fun prj_requests :: "cell \<Rightarrow> (request \<times> request_info) option" where
  "prj_requests (Cell_requests k v) = Some (k, v)"
| "prj_requests _ = None"

fun prj_webhooks :: "cell \<Rightarrow> (webhook_key \<times> webhook_value) option" where
  "prj_webhooks (Cell_webhooks k v) = Some (k, v)"
| "prj_webhooks _ = None"

fun prj_events :: "cell \<Rightarrow> (account_id \<times> webhook_event) option" where
  "prj_events (Cell_events k v) = Some (k, v)"
| "prj_events _ = None"

fun prj_subaddress_ranges :: "cell \<Rightarrow> (account_id \<times> subaddress_dict) option" where
  "prj_subaddress_ranges (Cell_subaddress_ranges k v) = Some (k, v)"
| "prj_subaddress_ranges _ = None"

fun prj_subaddress_indexes :: "cell \<Rightarrow> (account_id \<times> subaddress_map) option" where
  "prj_subaddress_indexes (Cell_subaddress_indexes k v) = Some (k, v)"
| "prj_subaddress_indexes _ = None"

definition log_lmdb :: "cell list lmdb" where
  "log_lmdb =
    \<lparr>blocks_m = log_mdb Cell_blocks prj_blocks bi_id,
      pows_m = log_mdb Cell_pows prj_pows bp_id,
      accounts_m = log_mdb Cell_accounts prj_accounts a_id,
      accounts_ba_m = log_mdb Cell_accounts_ba prj_accounts_ba ba_view,
      accounts_bh_m = log_mdb Cell_accounts_bh prj_accounts_bh al_id,
      outputs_m = log_mdb Cell_outputs prj_outputs output_key,
      spends_m = log_mdb Cell_spends prj_spends spend_key,
      images_m = log_mdb Cell_images prj_images ki_value,
      confirmed_spends_m = log_mdb Cell_confirmed_spends prj_confirmed_spends ks_self,
      imported_spend_sources_m = log_mdb Cell_imported_spend_sources prj_imported_spend_sources source_key,
      pending_spends_m = log_mdb Cell_pending_spends prj_pending_spends pending_key,
      requests_m = log_mdb Cell_requests prj_requests r_spend,
      webhooks_m = log_mdb Cell_webhooks prj_webhooks fst,
      events_m = log_mdb Cell_events prj_events ev_self,
      subaddress_ranges_m = log_mdb Cell_subaddress_ranges prj_subaddress_ranges fst,
      subaddress_indexes_m = log_mdb Cell_subaddress_indexes prj_subaddress_indexes sub_subaddress\<rparr>"

definition empty_tables :: "cell list tables" where
  "empty_tables =
    \<lparr>blocks_t = [], pows_t = [], accounts_t = [], accounts_ba_t = [], accounts_bh_t = [], outputs_t = [], spends_t = [], images_t = [], confirmed_spends_t = [], imported_spend_sources_t = [], pending_spends_t = [], requests_t = [], webhooks_t = [], events_t = [], subaddress_ranges_t = [], subaddress_indexes_t = []\<rparr>"

interpretation log: lmdb_store log_lmdb
  by (simp add: lmdb_store_def log_lmdb_def log_mdb_table)

end
