(* ===== verification/Wellformed.thy ===== *)
theory Wellformed
  imports Store
begin

text \<open>
  What the operations keep true between the tables: the account tables index each other, and
  every recorded spend has its key image. The rows of a table are read through the library's
  interface; \<open>rows\<close> abbreviations give them names.
\<close>

section \<open>Rows of the database\<close>

abbreviation blocks_rows :: "'t lmdb \<Rightarrow> 't tables \<Rightarrow> block_info list" where
  "blocks_rows L s \<equiv> m_dups (blocks_m L) (blocks_t s) blocks_version"

abbreviation pows_rows :: "'t lmdb \<Rightarrow> 't tables \<Rightarrow> block_pow list" where
  "pows_rows L s \<equiv> m_dups (pows_m L) (pows_t s) pows_version"

abbreviation accounts_rows :: "'t lmdb \<Rightarrow> 't tables \<Rightarrow> account_status \<Rightarrow> account list" where
  "accounts_rows L s \<equiv> m_dups (accounts_m L) (accounts_t s)"

abbreviation by_address_rows :: "'t lmdb \<Rightarrow> 't tables \<Rightarrow> account_by_address list" where
  "by_address_rows L s \<equiv> m_dups (accounts_ba_m L) (accounts_ba_t s) by_address_version"

abbreviation by_height_rows :: "'t lmdb \<Rightarrow> 't tables \<Rightarrow> block_id \<Rightarrow> account_lookup list" where
  "by_height_rows L s \<equiv> m_dups (accounts_bh_m L) (accounts_bh_t s)"

abbreviation outputs_rows :: "'t lmdb \<Rightarrow> 't tables \<Rightarrow> account_id \<Rightarrow> db_output list" where
  "outputs_rows L s \<equiv> m_dups (outputs_m L) (outputs_t s)"

abbreviation spends_rows :: "'t lmdb \<Rightarrow> 't tables \<Rightarrow> account_id \<Rightarrow> spend list" where
  "spends_rows L s \<equiv> m_dups (spends_m L) (spends_t s)"

abbreviation images_rows :: "'t lmdb \<Rightarrow> 't tables \<Rightarrow> output_id \<Rightarrow> key_image list" where
  "images_rows L s \<equiv> m_dups (images_m L) (images_t s)"

abbreviation requests_rows :: "'t lmdb \<Rightarrow> 't tables \<Rightarrow> request \<Rightarrow> request_info list" where
  "requests_rows L s \<equiv> m_dups (requests_m L) (requests_t s)"

abbreviation webhooks_rows :: "'t lmdb \<Rightarrow> 't tables \<Rightarrow> webhook_key \<Rightarrow> webhook_value list" where
  "webhooks_rows L s \<equiv> m_dups (webhooks_m L) (webhooks_t s)"

abbreviation events_rows :: "'t lmdb \<Rightarrow> 't tables \<Rightarrow> account_id \<Rightarrow> webhook_event list" where
  "events_rows L s \<equiv> m_dups (events_m L) (events_t s)"

abbreviation ranges_rows :: "'t lmdb \<Rightarrow> 't tables \<Rightarrow> account_id \<Rightarrow> subaddress_dict list" where
  "ranges_rows L s \<equiv> m_dups (subaddress_ranges_m L) (subaddress_ranges_t s)"

abbreviation indexes_rows :: "'t lmdb \<Rightarrow> 't tables \<Rightarrow> account_id \<Rightarrow> subaddress_map list" where
  "indexes_rows L s \<equiv> m_dups (subaddress_indexes_m L) (subaddress_indexes_t s)"

section \<open>Invariants\<close>

definition lookup_of :: "account_status \<Rightarrow> account \<Rightarrow> account_lookup" where
  "lookup_of st a = \<lparr>al_id = a_id a, al_status = st\<rparr>"

text \<open>
  The account index: an account has its row by height under the block it was scanned to, and its
  row by address; every row of an index leads to an account; an id has one status.
\<close>

definition accounts_inv :: "'t lmdb \<Rightarrow> 't tables \<Rightarrow> bool" where
  "accounts_inv L s \<longleftrightarrow>
     (\<forall>k. \<forall>lk \<in> set (by_height_rows L s k).
        \<exists>a \<in> set (accounts_rows L s (al_status lk)). a_id a = al_id lk \<and> a_scan_height a = k) \<and>
     (\<forall>st. \<forall>a \<in> set (accounts_rows L s st). lookup_of st a \<in> set (by_height_rows L s (a_scan_height a))) \<and>
     (\<forall>st st'. \<forall>a \<in> set (accounts_rows L s st). \<forall>a' \<in> set (accounts_rows L s st').
        a_id a = a_id a' \<longrightarrow> st = st') \<and>
     (\<forall>e \<in> set (by_address_rows L s).
        \<exists>a \<in> set (accounts_rows L s (al_status (ba_lookup e))).
          a_id a = al_id (ba_lookup e) \<and> a_address a = ba_address e) \<and>
     (\<forall>st. \<forall>a \<in> set (accounts_rows L s st).
        \<lparr>ba_address = a_address a, ba_lookup = lookup_of st a\<rparr> \<in> set (by_address_rows L s))"

text \<open>
  Every spend has its key image under the output it spends, and no two spends share one.
\<close>

definition images_inv :: "'t lmdb \<Rightarrow> 't tables \<Rightarrow> bool" where
  "images_inv L s \<longleftrightarrow>
     (\<forall>u. \<forall>sp \<in> set (spends_rows L s u).
        has_row ki_value (s_image sp) (images_rows L s (s_source sp))) \<and>
     (\<forall>u u'. \<forall>sp \<in> set (spends_rows L s u). \<forall>sp' \<in> set (spends_rows L s u').
        s_source sp = s_source sp' \<longrightarrow> s_image sp = s_image sp' \<longrightarrow> u = u' \<and> sp = sp')"

lemma accounts_invD:
  assumes "accounts_inv L s"
  shows "\<And>k lk. lk \<in> set (by_height_rows L s k) \<Longrightarrow>
      \<exists>a \<in> set (accounts_rows L s (al_status lk)). a_id a = al_id lk \<and> a_scan_height a = k"
    and "\<And>st a. a \<in> set (accounts_rows L s st) \<Longrightarrow>
      lookup_of st a \<in> set (by_height_rows L s (a_scan_height a))"
    and "\<And>st st' a a'. a \<in> set (accounts_rows L s st) \<Longrightarrow> a' \<in> set (accounts_rows L s st') \<Longrightarrow>
      a_id a = a_id a' \<Longrightarrow> st = st'"
    and "\<And>e. e \<in> set (by_address_rows L s) \<Longrightarrow>
      \<exists>a \<in> set (accounts_rows L s (al_status (ba_lookup e))).
        a_id a = al_id (ba_lookup e) \<and> a_address a = ba_address e"
    and "\<And>st a. a \<in> set (accounts_rows L s st) \<Longrightarrow>
      \<lparr>ba_address = a_address a, ba_lookup = lookup_of st a\<rparr> \<in> set (by_address_rows L s)"
  using assms unfolding accounts_inv_def by blast+

lemma lookup_of_sel [simp]: "al_id (lookup_of st a) = a_id a" "al_status (lookup_of st a) = st"
  by (simp_all add: lookup_of_def)

lemma lookup_of_eq_iff: "lookup_of st a = lk \<longleftrightarrow> al_id lk = a_id a \<and> al_status lk = st"
  by (cases lk) (auto simp: lookup_of_def)

lemma lookup_of_inject [simp]: "lookup_of st a = lookup_of st' b \<longleftrightarrow> a_id a = a_id b \<and> st = st'"
  by (auto simp: lookup_of_def)

section \<open>Rows replaced in place\<close>

lemma ins_row_replace:
  "sorted_rows sk xs \<Longrightarrow> has_row sk (sk v) xs \<Longrightarrow>
     ins_row sk v xs = map (\<lambda>x. if sk x = sk v then v else x) xs"
proof (induction xs)
  case (Cons x xs)
  have "map (\<lambda>y. if sk y = sk v then v else y) xs = xs" if "sk x = sk v"
    using that Cons.prems(1) by (intro map_idI) auto
  with Cons show ?case by (auto simp: has_row_def)
qed (simp add: has_row_def)

lemma ins_new_fresh:
  "distinct (map sk vs) \<Longrightarrow> sk ` set vs \<inter> sk ` set xs = {} \<Longrightarrow> sorted_rows sk xs \<Longrightarrow>
     set (fold (ins_new sk) vs xs) = set xs \<union> set vs \<and> sorted_rows sk (fold (ins_new sk) vs xs)"
proof (induction vs arbitrary: xs)
  case (Cons v vs)
  then have fresh: "\<not> has_row sk (sk v) xs" by (auto simp: has_row_def)
  then have s: "set (ins_row sk v xs) = insert v (set xs)"
    using Cons.prems(3) by (auto simp: set_ins_row has_row_def) (metis image_eqI)
  have "sk ` set vs \<inter> sk ` set (ins_row sk v xs) = {}"
    using Cons.prems(1,2) by (auto simp: s)
  with Cons fresh s show ?case by (auto simp: ins_new_def sorted_ins_row)
qed simp

context lmdb_store begin

lemma account_id_unique:
  assumes "accounts_inv L s" "a \<in> set (accounts_rows L s st)" "b \<in> set (accounts_rows L s st')"
    "a_id a = a_id b"
  shows "a = b \<and> st = st'"
proof -
  have "st = st'" using accounts_invD(3)[OF assms(1)] assms by blast
  with assms show ?thesis using accounts.row_unique[of a "accounts_t s" st b] by simp
qed

lemma by_height_unique:
  assumes "accounts_inv L s" "lk \<in> set (by_height_rows L s k)" "lk' \<in> set (by_height_rows L s k')"
    "al_id lk = al_id lk'"
  shows "lk = lk' \<and> k = k'"
proof -
  obtain a where a: "a \<in> set (accounts_rows L s (al_status lk))" "a_id a = al_id lk" "a_scan_height a = k"
    using accounts_invD(1)[OF assms(1,2)] by blast
  obtain b where b: "b \<in> set (accounts_rows L s (al_status lk'))" "a_id b = al_id lk'" "a_scan_height b = k'"
    using accounts_invD(1)[OF assms(1,3)] by blast
  from account_id_unique[OF assms(1) a(1) b(1)] a b assms(4) have "a = b" "al_status lk = al_status lk'" by auto
  with a b assms(4) show ?thesis by (cases lk; cases lk') simp
qed

lemma lookup_account:
  assumes "accounts_inv L s" "lk \<in> set (by_height_rows L s k)"
  obtains a where "a \<in> set (accounts_rows L s (al_status lk))" "a_id a = al_id lk"
    "a_scan_height a = k" "lookup_of (al_status lk) a = lk"
  using accounts_invD(1)[OF assms] by (auto simp: lookup_of_eq_iff)

end

end
