(* ===== verification/Demo.thy ===== *)
theory Demo
  imports Wellformed
begin

text \<open>
  A small database, for the witnesses: four blocks and their difficulties, an account that is
  scanned to the last block with outputs in two of the blocks and a spend, a second account that
  was scanned less far, and a webhook event of the last block.
\<close>

definition demo_account :: account where
  "demo_account =
     \<lparr>a_id = 1, a_access = 5, a_address = \<lparr>view_public = 11, spend_public = 12\<rparr>, a_key = 13,
      a_scan_height = 3, a_start_height = 1, a_creation = 5, a_flags = 0,
      a_lookahead = Address_index 0 0, a_lookahead_fail = 0\<rparr>"

definition demo_account2 :: account where
  "demo_account2 =
     \<lparr>a_id = 2, a_access = 6, a_address = \<lparr>view_public = 21, spend_public = 22\<rparr>, a_key = 23,
      a_scan_height = 1, a_start_height = 1, a_creation = 6, a_flags = 0,
      a_lookahead = Address_index 0 0, a_lookahead_fail = 0\<rparr>"

definition demo_output :: "block_id \<Rightarrow> u64 \<Rightarrow> db_output" where
  "demo_output h n =
     \<lparr>o_link = Transaction_link h (100 + of_nat (unat n)),
      o_spend_meta = \<lparr>sm_id = Output_id 0 n, sm_amount = 50, sm_mixin_count = 15, sm_index = 0, sm_tx_public = 31\<rparr>,
      o_timestamp = 1000, o_unlock_time = 0, o_tx_prefix_hash = 32, o_pub = 33, o_ringct_mask = 34,
      o_extra = 0, o_payment_id = replicate 32 0, o_fee = 7, o_recipient = Address_index 0 0\<rparr>"

definition demo_spend :: spend where
  "demo_spend =
     \<lparr>s_link = Transaction_link 3 103, s_image = 41, s_source = Output_id 0 1, s_timestamp = 1003,
      s_unlock_time = 0, s_mixin_count = 15, s_length = 0, s_payment_id = 0, s_sender = Address_index 0 0\<rparr>"

definition demo_image :: key_image where
  "demo_image = \<lparr>ki_value = 41, ki_link = Transaction_link 3 103\<rparr>"

definition demo_event :: webhook_event where
  "demo_event = Webhook_event (Webhook_output (Transaction_link 3 103) (Output_id 0 2)) (Webhook_dupsort 9 8)"

definition demo_block :: "block_id \<Rightarrow> block_info" where
  "demo_block h = \<lparr>bi_id = h, bi_hash = 500 + of_nat (unat h)\<rparr>"

definition demo_pow :: "block_id \<Rightarrow> block_pow" where
  "demo_pow h = \<lparr>bp_id = h, bp_timestamp = 1000 + h, bp_cumulative_diff = Block_difficulty 0 (1 + h)\<rparr>"

definition demo :: "cell list tables" where
  "demo = empty_tables\<lparr>
     blocks_t := [Cell_blocks 0 (demo_block 3), Cell_blocks 0 (demo_block 2), Cell_blocks 0 (demo_block 1), Cell_blocks 0 (demo_block 0)],
     pows_t := [Cell_pows 1 (demo_pow 3), Cell_pows 1 (demo_pow 2), Cell_pows 1 (demo_pow 1), Cell_pows 1 (demo_pow 0)],
     accounts_t := [Cell_accounts active demo_account, Cell_accounts inactive demo_account2],
     accounts_ba_t := [Cell_accounts_ba 0 \<lparr>ba_address = a_address demo_account, ba_lookup = lookup_of active demo_account\<rparr>,
                       Cell_accounts_ba 0 \<lparr>ba_address = a_address demo_account2, ba_lookup = lookup_of inactive demo_account2\<rparr>],
     accounts_bh_t := [Cell_accounts_bh 3 (lookup_of active demo_account), Cell_accounts_bh 1 (lookup_of inactive demo_account2)],
     outputs_t := [Cell_outputs 1 (demo_output 2 1), Cell_outputs 1 (demo_output 3 2)],
     spends_t := [Cell_spends 1 demo_spend],
     images_t := [Cell_images (Output_id 0 1) demo_image],
     events_t := [Cell_events 1 demo_event]\<rparr>"

text \<open>The rows of a log of rows, computed.\<close>

lemmas log_simps =
  log_lmdb_def log_mdb_def blocks_version_def pows_version_def by_address_version_def lookup_of_def

lemma demo_accounts:
  "accounts_rows log_lmdb demo st =
     (case st of active \<Rightarrow> [demo_account] | inactive \<Rightarrow> [demo_account2] | hidden \<Rightarrow> [])"
  by (cases st) (simp_all add: log_simps demo_def)

lemma demo_by_height:
  "by_height_rows log_lmdb demo k =
     (if k = 3 then [lookup_of active demo_account] else if k = 1 then [lookup_of inactive demo_account2] else [])"
  by (simp add: log_simps demo_def)

lemma demo_by_address:
  "by_address_rows log_lmdb demo =
     [\<lparr>ba_address = a_address demo_account, ba_lookup = lookup_of active demo_account\<rparr>,
      \<lparr>ba_address = a_address demo_account2, ba_lookup = lookup_of inactive demo_account2\<rparr>]"
  by (simp add: log_simps demo_def demo_account_def demo_account2_def ba_view_def)

lemma demo_spends: "spends_rows log_lmdb demo u = (if u = 1 then [demo_spend] else [])"
  by (simp add: log_simps demo_def)

lemma demo_images: "images_rows log_lmdb demo out = (if out = Output_id 0 1 then [demo_image] else [])"
  by (simp add: log_simps demo_def)

lemma demo_blocks: "blocks_rows log_lmdb demo = map demo_block [0, 1, 2, 3]"
  by (simp add: log_simps demo_def demo_block_def)

lemma demo_pows: "pows_rows log_lmdb demo = map demo_pow [0, 1, 2, 3]"
  by (simp add: log_simps demo_def demo_pow_def)

lemma demo_accounts_inv: "accounts_inv log_lmdb demo"
  unfolding accounts_inv_def demo_accounts demo_by_height demo_by_address
  by (auto simp: demo_account_def demo_account2_def split: account_status.splits)

lemma demo_images_inv: "images_inv log_lmdb demo"
  unfolding images_inv_def demo_spends demo_images
  by (auto simp: has_row_def demo_spend_def demo_image_def split: if_splits)

end
