(* ===== verification/Rollback.thy ===== *)
theory Rollback
  imports Demo
begin

text \<open>
  Undoing blocks: \<open>rollback_outputs\<close>, \<open>rollback_spends\<close>, \<open>rollback_accounts\<close>,
  \<open>rollback_events\<close> and \<open>rollback_chain\<close> of \<open>src/src/db/storage.cpp\<close>. A cursor that is
  positioned and then only moved forwards over duplicates is the list of the rows still to come.
\<close>

section \<open>Operations\<close>

text \<open>\<open>mdb_cursor_del\<close> followed by \<open>MDB_NEXT_DUP\<close>, until the duplicates of the key end.\<close>

fun del_rows :: "('t, 'k, 'v) mdb \<Rightarrow> 'k \<Rightarrow> 'v list \<Rightarrow> 't \<Rightarrow> error + 't" where
  "del_rows M k [] t = Inr t"
| "del_rows M k (v # vs) t = lmdb_check (m_del M k v t) (\<lambda>t. del_rows M k vs t)"

definition output_height :: "db_output \<Rightarrow> block_id" where
  "output_height out = tl_height (o_link out)"

definition spend_height :: "spend \<Rightarrow> block_id" where
  "spend_height sp = tl_height (s_link sp)"

definition event_height :: "webhook_event \<Rightarrow> block_id" where
  "event_height e = tl_height (wo_tx (we_link e))"

definition rollback_outputs :: "'t lmdb \<Rightarrow> account_id \<Rightarrow> block_id \<Rightarrow> 't tables \<Rightarrow> error + 't tables" where
  "rollback_outputs L user height s =
     (let rows = get_both_range (outputs_m L) output_height (outputs_t s) user height in
      check (del_rows (outputs_m L) user rows (outputs_t s)) (\<lambda>t. Inr (s\<lparr>outputs_t := t\<rparr>)))"

fun rollback_spend_rows :: "'t lmdb \<Rightarrow> account_id \<Rightarrow> spend list \<Rightarrow> 't tables \<Rightarrow> error + 't tables" where
  "rollback_spend_rows L user [] s = Inr s"
| "rollback_spend_rows L user (sp # rows) s =
     lmdb_check (get_both (images_m L) ki_value (images_t s) (s_source sp) (s_image sp)) (\<lambda>image.
     lmdb_check (m_del (images_m L) (s_source sp) image (images_t s)) (\<lambda>ti.
     lmdb_check (m_del (spends_m L) user sp (spends_t s)) (\<lambda>ts.
       rollback_spend_rows L user rows (s\<lparr>images_t := ti, spends_t := ts\<rparr>))))"

definition rollback_spends :: "'t lmdb \<Rightarrow> account_id \<Rightarrow> block_id \<Rightarrow> 't tables \<Rightarrow> error + 't tables" where
  "rollback_spends L user height s =
     rollback_spend_rows L user
       (get_both_range (spends_m L) spend_height (spends_t s) user height) s"

text \<open>The rows of \<open>accounts_by_height\<close> from a height on, key by key.\<close>

definition by_height_walk :: "'t lmdb \<Rightarrow> block_id \<Rightarrow> 't tables \<Rightarrow> (block_id \<times> account_lookup) list" where
  "by_height_walk L height s =
     concat (map (\<lambda>k. map (Pair k) (m_dups (accounts_bh_m L) (accounts_bh_t s) k))
       (filter (\<lambda>k. height \<le> k) (m_keys (accounts_bh_m L) (accounts_bh_t s))))"

fun rollback_account_rows :: "'t lmdb \<Rightarrow> block_id \<Rightarrow> block_id \<Rightarrow> (block_id \<times> account_lookup) list \<Rightarrow>
    account_lookup list \<Rightarrow> 't tables \<Rightarrow> error + account_lookup list \<times> 't tables" where
  "rollback_account_rows L height new_height [] new_by_heights s = Inr (new_by_heights, s)"
| "rollback_account_rows L height new_height ((k, lookup) # walk) new_by_heights s =
     lmdb_check (get_both (accounts_m L) a_id (accounts_t s) (al_status lookup) (al_id lookup)) (\<lambda>user.
     (let user = user\<lparr>a_scan_height := new_height,
                      a_start_height := min new_height (a_start_height user)\<rparr> in
     lmdb_check (m_put (accounts_m L) MDB_CURRENT (al_status lookup) user (accounts_t s)) (\<lambda>ta.
     (let s = s\<lparr>accounts_t := ta\<rparr>;
          new_by_heights = new_by_heights @ [\<lparr>al_id = a_id user, al_status = al_status lookup\<rparr>] in
     check (rollback_outputs L (a_id user) height s) (\<lambda>s.
     check (rollback_spends L (a_id user) height s) (\<lambda>s.
     lmdb_check (m_del (accounts_bh_m L) k lookup (accounts_bh_t s)) (\<lambda>tb.
       rollback_account_rows L height new_height walk new_by_heights (s\<lparr>accounts_bh_t := tb\<rparr>))))))))"

definition rollback_accounts :: "'t lmdb \<Rightarrow> block_id \<Rightarrow> 't tables \<Rightarrow> error + 't tables" where
  "rollback_accounts L height s =
     (let walk = by_height_walk L height s in
      if walk = [] then Inr s
      else
        let new_height = max height 1 - 1 in
        check (rollback_account_rows L height new_height walk [] s) (\<lambda>(new_by_heights, s).
        check (bulk_insert (accounts_bh_m L) MDB_NODUPDATA new_height new_by_heights (accounts_bh_t s)) (\<lambda>tb.
          Inr (s\<lparr>accounts_bh_t := tb\<rparr>))))"

text \<open>All rows of the events table in cursor order.\<close>

definition events_walk :: "'t lmdb \<Rightarrow> 't tables \<Rightarrow> (account_id \<times> webhook_event) list" where
  "events_walk L s =
     concat (map (\<lambda>k. map (Pair k) (m_dups (events_m L) (events_t s) k)) (m_keys (events_m L) (events_t s)))"

text \<open>
  The loop walks backwards from the last row. The first event of a user below the height ends
  the user: \<open>MDB_PREV_NODUP\<close> moves on to the last event of the previous user.
\<close>

function rollback_event_rows :: "'t lmdb \<Rightarrow> block_id \<Rightarrow> (account_id \<times> webhook_event) list \<Rightarrow> 't \<Rightarrow> error + 't" where
  "rollback_event_rows L height [] t = Inr t"
| "rollback_event_rows L height ((user, event) # walk) t =
     (if event_height event < height
      then rollback_event_rows L height (dropWhile (\<lambda>(u, _). u = user) walk) t
      else lmdb_check (m_del (events_m L) user event t) (\<lambda>t. rollback_event_rows L height walk t))"
  by pat_completeness auto
termination
  by (relation "measure (\<lambda>(L, height, walk, t). length walk)")
    (auto simp: le_imp_less_Suc length_dropWhile_le)

definition rollback_events :: "'t lmdb \<Rightarrow> block_id \<Rightarrow> 't tables \<Rightarrow> error + 't tables" where
  "rollback_events L height s =
     check (rollback_event_rows L height (rev (events_walk L s)) (events_t s)) (\<lambda>t.
       Inr (s\<lparr>events_t := t\<rparr>))"

text \<open>
  \<open>rollback_chain\<close> is called with the blocks cursor on the first block to remove, \<open>rows\<close> here
  are that block and the ones after it.
\<close>

definition rollback_chain :: "'t lmdb \<Rightarrow> block_info list \<Rightarrow> block_id \<Rightarrow> 't tables \<Rightarrow> error + 't tables" where
  "rollback_chain L rows height s =
     check (del_rows (blocks_m L) blocks_version rows (blocks_t s)) (\<lambda>tb.
     (let s = s\<lparr>blocks_t := tb\<rparr>;
          pow_rows = (case get_both (pows_m L) bp_id (pows_t s) pows_version height of
             Inl e \<Rightarrow> []
           | Inr v \<Rightarrow> get_both_range (pows_m L) bp_id (pows_t s) pows_version height) in
     check (del_rows (pows_m L) pows_version pow_rows (pows_t s)) (\<lambda>tp.
     check (rollback_accounts L height (s\<lparr>pows_t := tp\<rparr>)) (\<lambda>s.
       rollback_events L height s))))"

section \<open>Rows in the order of a coarser key\<close>

lemma dropWhile_sorted_filter:
  fixes ht :: "'v \<Rightarrow> 'f::linorder"
  shows "sorted (map ht xs) \<Longrightarrow> dropWhile (\<lambda>x. ht x < h) xs = filter (\<lambda>x. h \<le> ht x) xs"
proof (induction xs)
  case (Cons x xs)
  show ?case
  proof (cases "ht x < h")
    case False
    with Cons.prems have "\<forall>y \<in> set xs. h \<le> ht y" by force
    with False show ?thesis by (simp add: not_less)
  qed (use Cons in auto)
qed simp

lemma sorted_rows_coarse:
  assumes "sorted_rows sk xs" and "\<And>a b. sk a < sk b \<Longrightarrow> ht a \<le> ht b"
  shows "sorted (map ht xs)"
  using assms(1) by (induction xs) (auto intro: assms(2))

lemma output_height_mono: "output_key a < output_key b \<Longrightarrow> output_height a \<le> output_height b"
  by (auto simp: output_key_def output_height_def)

lemma spend_height_mono: "spend_key a < spend_key b \<Longrightarrow> spend_height a \<le> spend_height b"
  by (auto simp: spend_key_def spend_height_def)

lemma event_height_mono: "ev_self a < ev_self b \<Longrightarrow> event_height a \<le> event_height b"
  by (simp add: ev_self_def event_height_def webhook_event_height_mono)

context mdb_table begin

lemma del_rows_eq:
  assumes "distinct (map sk vs)" and "set vs \<subseteq> set (m_dups M t k)"
  shows "\<exists>t'. del_rows M k vs t = Inr t' \<and>
    m_dups M t' = (m_dups M t)(k := filter (\<lambda>x. sk x \<notin> sk ` set vs) (m_dups M t k))"
  using assms
proof (induction vs arbitrary: t)
  case (Cons v vs)
  from Cons.prems have v: "v \<in> set (m_dups M t k)" by simp
  have "set vs \<subseteq> set (m_dups M (tdel M k v t) k)"
    using Cons.prems v by (auto simp: set_del_row image_iff)
  moreover have "distinct (map sk vs)" using Cons.prems(1) by simp
  ultimately obtain t' where t': "del_rows M k vs (tdel M k v t) = Inr t'"
    "m_dups M t' = (m_dups M (tdel M k v t))(k := filter (\<lambda>x. sk x \<notin> sk ` set vs) (m_dups M (tdel M k v t) k))"
    using Cons.IH[of "tdel M k v t"] by blast
  have "filter (\<lambda>x. sk x \<notin> sk ` set vs) (del_row sk (sk v) (m_dups M t k)) =
      filter (\<lambda>x. sk x \<notin> sk ` set (v # vs)) (m_dups M t k)"
    by (auto simp: del_row_def intro!: filter_cong)
  with t' v show ?case by (simp add: fun_eq_iff)
qed simp

lemma range_filter:
  assumes "\<And>a b. sk a < sk b \<Longrightarrow> ht a \<le> ht b"
  shows "get_both_range M ht t k h = filter (\<lambda>x. h \<le> ht x) (m_dups M t k)"
  unfolding get_both_range_def rows_from_def
  by (rule dropWhile_sorted_filter, rule sorted_rows_coarse[OF dups_sorted]) (rule assms)

lemma del_range_eq:
  assumes "\<And>a b. sk a < sk b \<Longrightarrow> ht a \<le> ht b"
  shows "\<exists>t'. del_rows M k (get_both_range M ht t k h) t = Inr t' \<and>
    m_dups M t' = (m_dups M t)(k := filter (\<lambda>x. ht x < h) (m_dups M t k))"
proof -
  let ?vs = "get_both_range M ht t k h"
  have vs: "?vs = filter (\<lambda>x. h \<le> ht x) (m_dups M t k)" by (rule range_filter[OF assms])
  have "distinct (map sk ?vs)"
    unfolding vs by (intro sorted_rows_distinct sorted_rows_filter dups_sorted)
  moreover have "filter (\<lambda>x. sk x \<notin> sk ` set ?vs) (m_dups M t k) = filter (\<lambda>x. ht x < h) (m_dups M t k)"
    unfolding vs by (auto intro!: filter_cong dest: row_unique)
  ultimately show ?thesis
    using del_rows_eq[of ?vs t k] by (auto simp: vs)
qed

end


section \<open>What the rollbacks do\<close>

context lmdb_store begin

lemma rollback_outputs_eq:
  "\<exists>t'. rollback_outputs L u h s = Inr (s\<lparr>outputs_t := t'\<rparr>) \<and>
     m_dups (outputs_m L) t' =
       (outputs_rows L s)(u := filter (\<lambda>out. output_height out < h) (outputs_rows L s u))"
proof -
  obtain t' where "del_rows (outputs_m L) u (get_both_range (outputs_m L) output_height (outputs_t s) u h)
       (outputs_t s) = Inr t'"
    "m_dups (outputs_m L) t' =
       (outputs_rows L s)(u := filter (\<lambda>out. output_height out < h) (outputs_rows L s u))"
    using outputs.del_range_eq[where ht = output_height and t = "outputs_t s" and k = u and h = h,
        OF output_height_mono] by blast
  then show ?thesis by (auto simp: rollback_outputs_def)
qed

lemma spend_rows_range:
  "get_both_range (spends_m L) spend_height (spends_t s) u h =
     filter (\<lambda>sp. h \<le> spend_height sp) (spends_rows L s u)"
  by (rule spends.range_filter) (rule spend_height_mono)

text \<open>Removing some rows of a user's spends, with their key images.\<close>

lemma rollback_spend_rows_eq:
  assumes "images_inv L s" and "distinct (map spend_key rows)" and "set rows \<subseteq> set (spends_rows L s u)"
  shows "\<exists>ti ts. rollback_spend_rows L u rows s = Inr (s\<lparr>images_t := ti, spends_t := ts\<rparr>) \<and>
    m_dups (spends_m L) ts =
      (spends_rows L s)(u := filter (\<lambda>x. spend_key x \<notin> spend_key ` set rows) (spends_rows L s u)) \<and>
    (\<forall>out. set (m_dups (images_m L) ti out) =
       {i \<in> set (images_rows L s out). \<forall>sp \<in> set rows. s_source sp = out \<longrightarrow> s_image sp \<noteq> ki_value i})"
  using assms
proof (induction rows arbitrary: s)
  case Nil
  then show ?case by (intro exI[of _ "images_t s"] exI[of _ "spends_t s"]) simp
next
  case (Cons sp rows)
  from Cons.prems have sp: "sp \<in> set (spends_rows L s u)" by simp
  from Cons.prems(1) sp obtain i where i: "i \<in> set (images_rows L s (s_source sp))" "ki_value i = s_image sp"
    unfolding images_inv_def has_row_def by (metis imageE)
  then have g: "get_both (images_m L) ki_value (images_t s) (s_source sp) (s_image sp) = Inr i" by simp
  define ti where "ti = tdel (images_m L) (s_source sp) i (images_t s)"
  define ts where "ts = tdel (spends_m L) u sp (spends_t s)"
  define s1 where "s1 = s\<lparr>images_t := ti, spends_t := ts\<rparr>"
  have ti: "m_dups (images_m L) ti =
      (images_rows L s)(s_source sp := del_row ki_value (s_image sp) (images_rows L s (s_source sp)))"
    using i by (simp add: ti_def)
  have ts: "m_dups (spends_m L) ts =
      (spends_rows L s)(u := del_row spend_key (spend_key sp) (spends_rows L s u))"
    using sp by (simp add: ts_def)
  have sub: "set (spends_rows L s1 v) \<subseteq> set (spends_rows L s v)" for v
    by (simp add: s1_def ts set_del_row subset_iff)
  have gone: "sp \<notin> set (spends_rows L s1 v)" for v
    using Cons.prems(1) sp by (auto simp: s1_def ts set_del_row images_inv_def)
  have inv1: "images_inv L s1"
    unfolding images_inv_def
  proof (intro conjI allI ballI impI)
    fix v x assume x: "x \<in> set (spends_rows L s1 v)"
    with sub have xs: "x \<in> set (spends_rows L s v)" by blast
    with Cons.prems(1) have "has_row ki_value (s_image x) (images_rows L s (s_source x))"
      by (auto simp: images_inv_def)
    moreover have "\<not> (s_source x = s_source sp \<and> s_image x = s_image sp)"
    proof
      assume e: "s_source x = s_source sp \<and> s_image x = s_image sp"
      with Cons.prems(1) xs sp have "x = sp" unfolding images_inv_def by blast
      with gone x show False by blast
    qed
    ultimately show "has_row ki_value (s_image x) (images_rows L s1 (s_source x))"
      by (auto simp: s1_def ti has_row_def set_del_row)
  next
    fix v w x y assume "x \<in> set (spends_rows L s1 v)" "y \<in> set (spends_rows L s1 w)"
      "s_source x = s_source y" "s_image x = s_image y"
    with sub Cons.prems(1) show "v = w" "x = y" unfolding images_inv_def by blast+
  qed
  have "set rows \<subseteq> set (spends_rows L s1 u)"
    using Cons.prems(2,3) by (auto simp: s1_def ts set_del_row image_iff)
  moreover have "distinct (map spend_key rows)" using Cons.prems(2) by simp
  ultimately obtain ti' ts' where
    r: "rollback_spend_rows L u rows s1 = Inr (s1\<lparr>images_t := ti', spends_t := ts'\<rparr>)"
    and ts': "m_dups (spends_m L) ts' =
      (spends_rows L s1)(u := filter (\<lambda>x. spend_key x \<notin> spend_key ` set rows) (spends_rows L s1 u))"
    and ti': "\<forall>out. set (m_dups (images_m L) ti' out) =
       {i \<in> set (images_rows L s1 out). \<forall>sp \<in> set rows. s_source sp = out \<longrightarrow> s_image sp \<noteq> ki_value i}"
    using Cons.IH[OF inv1] by blast
  have "rollback_spend_rows L u (sp # rows) s = Inr (s\<lparr>images_t := ti', spends_t := ts'\<rparr>)"
    using r i sp by (simp add: g s1_def ti_def ts_def)
  moreover have "m_dups (spends_m L) ts' =
      (spends_rows L s)(u := filter (\<lambda>x. spend_key x \<notin> spend_key ` set (sp # rows)) (spends_rows L s u))"
    by (auto simp: ts' s1_def ts del_row_def fun_eq_iff intro!: filter_cong)
  moreover have "\<forall>out. set (m_dups (images_m L) ti' out) =
       {i \<in> set (images_rows L s out). \<forall>x \<in> set (sp # rows). s_source x = out \<longrightarrow> s_image x \<noteq> ki_value i}"
    by (auto simp: ti' s1_def ti set_del_row)
  ultimately show ?case by blast
qed

lemma rollback_spends_eq:
  assumes "images_inv L s"
  shows "\<exists>ti ts. rollback_spends L u h s = Inr (s\<lparr>images_t := ti, spends_t := ts\<rparr>) \<and>
    m_dups (spends_m L) ts = (spends_rows L s)(u := filter (\<lambda>sp. spend_height sp < h) (spends_rows L s u)) \<and>
    (\<forall>out. set (m_dups (images_m L) ti out) = {i \<in> set (images_rows L s out).
       \<not> (\<exists>sp \<in> set (spends_rows L s u). h \<le> spend_height sp \<and> s_source sp = out \<and> s_image sp = ki_value i)}) \<and>
    images_inv L (s\<lparr>images_t := ti, spends_t := ts\<rparr>)"
proof -
  let ?rows = "filter (\<lambda>sp. h \<le> spend_height sp) (spends_rows L s u)"
  have d: "distinct (map spend_key ?rows)"
    by (intro sorted_rows_distinct sorted_rows_filter spends.dups_sorted)
  obtain ti ts where
    r: "rollback_spend_rows L u ?rows s = Inr (s\<lparr>images_t := ti, spends_t := ts\<rparr>)"
    and ts: "m_dups (spends_m L) ts =
      (spends_rows L s)(u := filter (\<lambda>x. spend_key x \<notin> spend_key ` set ?rows) (spends_rows L s u))"
    and ti: "\<And>out. set (m_dups (images_m L) ti out) =
       {i \<in> set (images_rows L s out). \<forall>sp \<in> set ?rows. s_source sp = out \<longrightarrow> s_image sp \<noteq> ki_value i}"
    using rollback_spend_rows_eq[OF assms d, of u] by auto
  have ts2: "m_dups (spends_m L) ts = (spends_rows L s)(u := filter (\<lambda>sp. spend_height sp < h) (spends_rows L s u))"
    unfolding ts by (auto simp: fun_eq_iff not_le intro!: filter_cong dest: spends.row_unique)
  have "images_inv L (s\<lparr>images_t := ti, spends_t := ts\<rparr>)"
    unfolding images_inv_def
  proof (intro conjI allI ballI impI)
    fix v x assume "x \<in> set (spends_rows L (s\<lparr>images_t := ti, spends_t := ts\<rparr>) v)"
    then have x: "x \<in> set (spends_rows L s v)" "v = u \<Longrightarrow> spend_height x < h"
      by (auto simp: ts2 split: if_splits)
    have "\<not> (s_source sp = s_source x \<and> s_image sp = s_image x)" if "sp \<in> set ?rows" for sp
    proof
      assume e: "s_source sp = s_source x \<and> s_image sp = s_image x"
      from that have sp: "sp \<in> set (spends_rows L s u)" "h \<le> spend_height sp" by auto
      with assms x(1) e have "u = v \<and> sp = x" unfolding images_inv_def by blast
      with sp x(2) show False by auto
    qed
    with assms x(1) show "has_row ki_value (s_image x)
        (images_rows L (s\<lparr>images_t := ti, spends_t := ts\<rparr>) (s_source x))"
      unfolding images_inv_def has_row_def by (simp add: ti image_iff) metis
  next
    fix v w x y assume "x \<in> set (spends_rows L (s\<lparr>images_t := ti, spends_t := ts\<rparr>) v)"
      "y \<in> set (spends_rows L (s\<lparr>images_t := ti, spends_t := ts\<rparr>) w)"
      "s_source x = s_source y" "s_image x = s_image y"
    then have "x \<in> set (spends_rows L s v)" "y \<in> set (spends_rows L s w)"
      by (auto simp: ts2 split: if_splits)
    with \<open>s_source x = s_source y\<close> \<open>s_image x = s_image y\<close> assms
    show "v = w" "x = y" unfolding images_inv_def by blast+
  qed
  moreover have "set (m_dups (images_m L) ti out) = {i \<in> set (images_rows L s out).
       \<not> (\<exists>sp \<in> set (spends_rows L s u). h \<le> spend_height sp \<and> s_source sp = out \<and> s_image sp = ki_value i)}" for out
    unfolding ti by auto
  ultimately show ?thesis
    using r ts2 unfolding rollback_spends_def spend_rows_range by blast
qed

end


section \<open>Rolling back the accounts\<close>

definition rolled_back :: "block_id \<Rightarrow> account_id set \<Rightarrow> account \<Rightarrow> account" where
  "rolled_back nh ids a =
     (if a_id a \<in> ids then a\<lparr>a_scan_height := nh, a_start_height := min nh (a_start_height a)\<rparr> else a)"

lemma rolled_back_id [simp]: "a_id (rolled_back nh ids a) = a_id a"
  by (simp add: rolled_back_def)

lemma rolled_back_address [simp]: "a_address (rolled_back nh ids a) = a_address a"
  by (simp add: rolled_back_def)

lemma rolled_back_insert:
  "rolled_back nh ids (rolled_back nh {i} a) = rolled_back nh (insert i ids) a"
  by (simp add: rolled_back_def)

text \<open>The tables a rollback of accounts does not touch.\<close>

definition rb_frame :: "'t tables \<Rightarrow> 't tables \<Rightarrow> bool" where
  "rb_frame s s' \<longleftrightarrow>
     s' = s\<lparr>accounts_t := accounts_t s', accounts_bh_t := accounts_bh_t s',
            outputs_t := outputs_t s', spends_t := spends_t s', images_t := images_t s'\<rparr>"

lemma rb_frame_trans: "rb_frame s s' \<Longrightarrow> rb_frame s' s'' \<Longrightarrow> rb_frame s s''"
  unfolding rb_frame_def by (cases s; cases s'; cases s'') simp

lemma rb_frame_sel:
  assumes "rb_frame s s'"
  shows "blocks_t s' = blocks_t s" "pows_t s' = pows_t s" "accounts_ba_t s' = accounts_ba_t s"
    "events_t s' = events_t s" "webhooks_t s' = webhooks_t s" "requests_t s' = requests_t s"
    "subaddress_ranges_t s' = subaddress_ranges_t s" "subaddress_indexes_t s' = subaddress_indexes_t s"
  using assms unfolding rb_frame_def by (cases s; cases s'; simp)+

definition ids_unique :: "'t lmdb \<Rightarrow> 't tables \<Rightarrow> bool" where
  "ids_unique L s \<longleftrightarrow>
     (\<forall>st st'. \<forall>a \<in> set (accounts_rows L s st). \<forall>a' \<in> set (accounts_rows L s st').
        a_id a = a_id a' \<longrightarrow> st = st')"

definition cut :: "('v \<Rightarrow> block_id) \<Rightarrow> block_id \<Rightarrow> account_id set \<Rightarrow> (account_id \<Rightarrow> 'v list) \<Rightarrow> account_id \<Rightarrow> 'v list" where
  "cut ht h ids rows u = (if u \<in> ids then filter (\<lambda>x. ht x < h) (rows u) else rows u)"

lemma cut_insert: "cut ht h ids (rows(i := filter (\<lambda>x. ht x < h) (rows i))) = cut ht h (insert i ids) rows"
  by (auto simp: cut_def fun_eq_iff)

context lmdb_store begin

lemma put_account_rolled_back:
  fixes a :: account and nh :: block_id
  assumes "ids_unique L s" "a \<in> set (accounts_rows L s st)"
  defines "u \<equiv> a\<lparr>a_scan_height := nh, a_start_height := min nh (a_start_height a)\<rparr>"
  shows "m_put (accounts_m L) MDB_CURRENT st u (accounts_t s) = Inr (tput (accounts_m L) st u (accounts_t s))"
    and "m_dups (accounts_m L) (tput (accounts_m L) st u (accounts_t s)) =
      (\<lambda>st'. map (rolled_back nh {a_id a}) (accounts_rows L s st'))"
proof -
  have h: "has_row a_id (a_id u) (accounts_rows L s st)"
    using assms(2) by (auto simp: has_row_def u_def)
  then show "m_put (accounts_m L) MDB_CURRENT st u (accounts_t s) = Inr (tput (accounts_m L) st u (accounts_t s))"
    by simp
  have "ins_row a_id u (accounts_rows L s st) = map (rolled_back nh {a_id a}) (accounts_rows L s st)"
    unfolding ins_row_replace[OF accounts.dups_sorted h]
    using assms(2) by (auto simp: rolled_back_def u_def dest: accounts.row_unique)
  moreover have "map (rolled_back nh {a_id a}) (accounts_rows L s st') = accounts_rows L s st'" if "st' \<noteq> st" for st'
    using assms(1,2) that by (intro map_idI) (auto simp: ids_unique_def rolled_back_def)
  ultimately show "m_dups (accounts_m L) (tput (accounts_m L) st u (accounts_t s)) =
      (\<lambda>st'. map (rolled_back nh {a_id a}) (accounts_rows L s st'))"
    by (auto simp: fun_eq_iff)
qed

lemma rollback_account_rows_eq:
  assumes "ids_unique L s" and "images_inv L s" and "distinct (map (al_id \<circ> snd) walk)"
    and "\<forall>(k, lk) \<in> set walk. lk \<in> set (by_height_rows L s k) \<and>
           (\<exists>a \<in> set (accounts_rows L s (al_status lk)). a_id a = al_id lk)"
  defines "ids \<equiv> (al_id \<circ> snd) ` set walk"
  shows "\<exists>s'. rollback_account_rows L h nh walk nb s = Inr (nb @ map snd walk, s') \<and> rb_frame s s' \<and>
    accounts_rows L s' = (\<lambda>st. map (rolled_back nh ids) (accounts_rows L s st)) \<and>
    by_height_rows L s' = (\<lambda>k. filter (\<lambda>lk. (k, lk) \<notin> set walk) (by_height_rows L s k)) \<and>
    outputs_rows L s' = cut output_height h ids (outputs_rows L s) \<and>
    spends_rows L s' = cut spend_height h ids (spends_rows L s) \<and> images_inv L s'"
  using assms(1-4) unfolding ids_def
proof (induction walk arbitrary: s nb)
  case Nil
  then show ?case
    by (intro exI[of _ s]) (auto simp: rb_frame_def rolled_back_def cut_def fun_eq_iff)
next
  case (Cons w walk)
  obtain k lk where w: "w = (k, lk)" by force
  from Cons.prems(4) w have lk: "lk \<in> set (by_height_rows L s k)" by auto
  from Cons.prems(4) w obtain a where a: "a \<in> set (accounts_rows L s (al_status lk))" "a_id a = al_id lk" by auto
  define u where "u = a\<lparr>a_scan_height := nh, a_start_height := min nh (a_start_height a)\<rparr>"
  define s1 where "s1 = s\<lparr>accounts_t := tput (accounts_m L) (al_status lk) u (accounts_t s)\<rparr>"
  note put = put_account_rolled_back[OF Cons.prems(1) a(1), of nh, folded u_def]
  have uid: "a_id u = al_id lk" using a by (simp add: u_def)
  have inv1: "images_inv L s1" using Cons.prems(2) by (simp add: images_inv_def s1_def)
  obtain t2 where t2: "rollback_outputs L (al_id lk) h s1 = Inr (s1\<lparr>outputs_t := t2\<rparr>)"
    "m_dups (outputs_m L) t2 = (outputs_rows L s1)(al_id lk :=
        filter (\<lambda>out. output_height out < h) (outputs_rows L s1 (al_id lk)))"
    using rollback_outputs_eq by blast
  define s2 where "s2 = s1\<lparr>outputs_t := t2\<rparr>"
  have inv2: "images_inv L s2" using inv1 by (simp add: images_inv_def s2_def)
  obtain ti ts where t3: "rollback_spends L (al_id lk) h s2 = Inr (s2\<lparr>images_t := ti, spends_t := ts\<rparr>)"
    "m_dups (spends_m L) ts = (spends_rows L s2)(al_id lk :=
        filter (\<lambda>sp. spend_height sp < h) (spends_rows L s2 (al_id lk)))"
    "images_inv L (s2\<lparr>images_t := ti, spends_t := ts\<rparr>)"
    using rollback_spends_eq[OF inv2] by blast
  define s3 where "s3 = s2\<lparr>images_t := ti, spends_t := ts\<rparr>"
  define s4 where "s4 = s3\<lparr>accounts_bh_t := tdel (accounts_bh_m L) k lk (accounts_bh_t s3)\<rparr>"
  have bh3: "accounts_bh_t s3 = accounts_bh_t s" by (simp add: s3_def s2_def s1_def)
  have bh4: "by_height_rows L s4 = (\<lambda>j. if j = k then del_row al_id (al_id lk) (by_height_rows L s k) else by_height_rows L s j)"
    using lk by (auto simp: s4_def bh3 fun_eq_iff)
  have acc4: "accounts_rows L s4 = (\<lambda>st. map (rolled_back nh {al_id lk}) (accounts_rows L s st))"
    using put(2) a by (simp add: s4_def s3_def s2_def s1_def)
  have out4: "outputs_rows L s4 = (outputs_rows L s)(al_id lk :=
        filter (\<lambda>out. output_height out < h) (outputs_rows L s (al_id lk)))"
    using t2(2) by (simp add: s4_def s3_def s2_def s1_def)
  have sp4: "spends_rows L s4 = (spends_rows L s)(al_id lk :=
        filter (\<lambda>sp. spend_height sp < h) (spends_rows L s (al_id lk)))"
    using t3(2) by (simp add: s4_def s3_def s2_def s1_def)
  have frame4: "rb_frame s s4" by (simp add: rb_frame_def s4_def s3_def s2_def s1_def)
  have step: "rollback_account_rows L h nh (w # walk) nb s = rollback_account_rows L h nh walk (nb @ [lk]) s4"
  proof -
    have g: "get_both (accounts_m L) a_id (accounts_t s) (al_status lk) (al_id lk) = Inr a"
      using a by simp
    have e: "\<lparr>al_id = al_id lk, al_status = al_status lk\<rparr> = lk" by (cases lk) simp
    have "m_del (accounts_bh_m L) k lk (accounts_bh_t s3) = Inr (tdel (accounts_bh_m L) k lk (accounts_bh_t s3))"
      using lk by (simp add: bh3)
    then show ?thesis
      by (simp add: w g e Let_def put(1) u_def[symmetric] s1_def[symmetric] a(2) t2(1) s2_def[symmetric]
          t3(1) s3_def[symmetric] s4_def[symmetric])
  qed
  have u4: "ids_unique L s4"
    using Cons.prems(1) by (auto simp: ids_unique_def acc4)
  have i4: "images_inv L s4" using t3(3) by (simp add: images_inv_def s4_def s3_def)
  have d4: "distinct (map (al_id \<circ> snd) walk)" using Cons.prems(3) by (simp add: comp_def)
  have w4: "\<forall>(j, x) \<in> set walk. x \<in> set (by_height_rows L s4 j) \<and>
           (\<exists>a \<in> set (accounts_rows L s4 (al_status x)). a_id a = al_id x)"
  proof (clarify, intro conjI)
    fix j x assume jx: "(j, x) \<in> set walk"
    have "al_id x \<noteq> al_id lk" using Cons.prems(3) jx w by force
    moreover have x: "x \<in> set (by_height_rows L s j)"
      "\<exists>a \<in> set (accounts_rows L s (al_status x)). a_id a = al_id x"
      using Cons.prems(4) jx by auto
    ultimately show "x \<in> set (by_height_rows L s4 j)" by (auto simp: bh4 set_del_row)
    show "\<exists>a \<in> set (accounts_rows L s4 (al_status x)). a_id a = al_id x"
      using x(2) by (auto simp: acc4)
  qed
  obtain s' where s': "rollback_account_rows L h nh walk (nb @ [lk]) s4 = Inr ((nb @ [lk]) @ map snd walk, s')"
    "rb_frame s4 s'"
    "accounts_rows L s' = (\<lambda>st. map (rolled_back nh ((al_id \<circ> snd) ` set walk)) (accounts_rows L s4 st))"
    "by_height_rows L s' = (\<lambda>k. filter (\<lambda>lk. (k, lk) \<notin> set walk) (by_height_rows L s4 k))"
    "outputs_rows L s' = cut output_height h ((al_id \<circ> snd) ` set walk) (outputs_rows L s4)"
    "spends_rows L s' = cut spend_height h ((al_id \<circ> snd) ` set walk) (spends_rows L s4)"
    "images_inv L s'"
    using Cons.IH[OF u4 i4 d4 w4] by blast
  have "by_height_rows L s' = (\<lambda>j. filter (\<lambda>x. (j, x) \<notin> set (w # walk)) (by_height_rows L s j))"
    using lk accounts_bh.row_unique
    by (auto simp: s'(4) bh4 w fun_eq_iff del_row_def intro!: filter_cong)
  moreover have "accounts_rows L s' = (\<lambda>st. map (rolled_back nh ((al_id \<circ> snd) ` set (w # walk))) (accounts_rows L s st))"
    by (auto simp: s'(3) acc4 w rolled_back_insert)
  moreover have "outputs_rows L s' = cut output_height h ((al_id \<circ> snd) ` set (w # walk)) (outputs_rows L s)"
    unfolding s'(5) out4 cut_insert by (simp add: w)
  moreover have "spends_rows L s' = cut spend_height h ((al_id \<circ> snd) ` set (w # walk)) (spends_rows L s)"
    unfolding s'(6) sp4 cut_insert by (simp add: w)
  moreover have "rb_frame s s'" using frame4 s'(2) by (rule rb_frame_trans)
  moreover have "rollback_account_rows L h nh (w # walk) nb s = Inr (nb @ map snd (w # walk), s')"
    unfolding step s'(1) by (simp add: w)
  ultimately show ?case using s'(7) by blast
qed

lemma by_height_walk_set:
  "set (by_height_walk L h s) = {(k, lk). h \<le> k \<and> lk \<in> set (by_height_rows L s k)}"
proof -
  have "k \<in> set (m_keys (accounts_bh_m L) (accounts_bh_t s))" if "lk \<in> set (by_height_rows L s k)" for k lk
    using that by (metis accounts_bh.keys_iff empty_iff empty_set)
  then show ?thesis by (auto simp: by_height_walk_def)
qed

lemma by_height_walk_distinct:
  assumes "accounts_inv L s"
  shows "distinct (map (al_id \<circ> snd) (by_height_walk L h s))"
proof -
  have "distinct (map (al_id \<circ> snd) (concat (map (\<lambda>k. map (Pair k) (by_height_rows L s k)) ks)))"
    if "distinct ks" for ks
    using that
  proof (induction ks)
    case (Cons k ks)
    have "distinct (map al_id (by_height_rows L s k))"
      by (intro sorted_rows_distinct accounts_bh.dups_sorted)
    moreover have "al_id lk \<noteq> al_id lk'"
      if "lk \<in> set (by_height_rows L s k)" "j \<in> set ks" "lk' \<in> set (by_height_rows L s j)" for lk j lk'
      using by_height_unique[OF assms that(1,3)] Cons.prems that(2) by auto
    ultimately show ?case using Cons by (auto simp: comp_def)
  qed simp
  then show ?thesis
    unfolding by_height_walk_def by (simp add: accounts_bh.distinct_keys)
qed

end

text \<open>The account after a rollback to below block \<open>h\<close>.\<close>

definition rewound :: "block_id \<Rightarrow> account \<Rightarrow> account" where
  "rewound h a =
     (if h \<le> a_scan_height a
      then a\<lparr>a_scan_height := max h 1 - 1, a_start_height := min (max h 1 - 1) (a_start_height a)\<rparr>
      else a)"

lemma rewound_sel [simp]: "a_id (rewound h a) = a_id a" "a_address (rewound h a) = a_address a"
  by (simp_all add: rewound_def)

lemma lookup_of_rewound [simp]: "lookup_of st (rewound h a) = lookup_of st a"
  by simp

definition ahead :: "'t lmdb \<Rightarrow> block_id \<Rightarrow> 't tables \<Rightarrow> account_id set" where
  "ahead L h s = {u. \<exists>st. \<exists>a \<in> set (accounts_rows L s st). a_id a = u \<and> h \<le> a_scan_height a}"

context lmdb_store begin

lemma walk_ids:
  assumes "accounts_inv L s"
  shows "(al_id \<circ> snd) ` set (by_height_walk L h s) = ahead L h s"
proof (intro set_eqI iffI)
  fix u assume "u \<in> (al_id \<circ> snd) ` set (by_height_walk L h s)"
  then obtain k lk where "h \<le> k" "lk \<in> set (by_height_rows L s k)" "al_id lk = u"
    by (auto simp: by_height_walk_set)
  with accounts_invD(1)[OF assms] show "u \<in> ahead L h s" unfolding ahead_def by blast
next
  fix u assume "u \<in> ahead L h s"
  then obtain st a where a: "a \<in> set (accounts_rows L s st)" "a_id a = u" "h \<le> a_scan_height a"
    unfolding ahead_def by blast
  with accounts_invD(2)[OF assms a(1)]
  have "(a_scan_height a, lookup_of st a) \<in> set (by_height_walk L h s)" by (simp add: by_height_walk_set)
  with a(2) show "u \<in> (al_id \<circ> snd) ` set (by_height_walk L h s)" by force
qed

lemma rolled_back_rewound:
  assumes "accounts_inv L s" "a \<in> set (accounts_rows L s st)"
  shows "rolled_back (max h 1 - 1) (ahead L h s) a = rewound h a"
proof -
  have "a_id a \<in> ahead L h s \<longleftrightarrow> h \<le> a_scan_height a"
    using account_id_unique[OF assms] assms(2) unfolding ahead_def mem_Collect_eq by metis
  then show ?thesis by (simp add: rolled_back_def rewound_def)
qed

lemma rollback_accounts_eq:
  assumes "accounts_inv L s" "images_inv L s"
  shows "\<exists>s'. rollback_accounts L h s = Inr s' \<and> rb_frame s s' \<and> accounts_inv L s' \<and> images_inv L s' \<and>
    accounts_rows L s' = (\<lambda>st. map (rewound h) (accounts_rows L s st)) \<and>
    outputs_rows L s' = cut output_height h (ahead L h s) (outputs_rows L s) \<and>
    spends_rows L s' = cut spend_height h (ahead L h s) (spends_rows L s)"
proof -
  let ?walk = "by_height_walk L h s" and ?nh = "max h 1 - 1"
  have u: "ids_unique L s" using accounts_invD(3)[OF assms(1)] unfolding ids_unique_def by blast
  have w: "\<forall>(k, lk) \<in> set ?walk. lk \<in> set (by_height_rows L s k) \<and>
           (\<exists>a \<in> set (accounts_rows L s (al_status lk)). a_id a = al_id lk)"
    using accounts_invD(1)[OF assms(1)] by (fastforce simp: by_height_walk_set)
  obtain s1 where s1: "rollback_account_rows L h ?nh ?walk [] s = Inr (map snd ?walk, s1)" "rb_frame s s1"
    "accounts_rows L s1 = (\<lambda>st. map (rolled_back ?nh (ahead L h s)) (accounts_rows L s st))"
    "by_height_rows L s1 = (\<lambda>k. filter (\<lambda>lk. (k, lk) \<notin> set ?walk) (by_height_rows L s k))"
    "outputs_rows L s1 = cut output_height h (ahead L h s) (outputs_rows L s)"
    "spends_rows L s1 = cut spend_height h (ahead L h s) (spends_rows L s)" "images_inv L s1"
    using rollback_account_rows_eq[OF u assms(2) by_height_walk_distinct[OF assms(1)] w, of h ?nh "[]"]
    unfolding walk_ids[OF assms(1)] by auto
  have acc1: "accounts_rows L s1 = (\<lambda>st. map (rewound h) (accounts_rows L s st))"
    unfolding s1(3) using rolled_back_rewound[OF assms(1)] by (auto simp: fun_eq_iff)
  obtain tb where tb: "bulk_insert (accounts_bh_m L) MDB_NODUPDATA ?nh (map snd ?walk) (accounts_bh_t s1) = Inr tb"
    "m_dups (accounts_bh_m L) tb = (by_height_rows L s1)(?nh := fold (ins_new al_id) (map snd ?walk) (by_height_rows L s1 ?nh))"
    using accounts_bh.bulk_insert_nodup by blast
  define s2 where "s2 = s1\<lparr>accounts_bh_t := tb\<rparr>"
  have f2: "rb_frame s s2"
    by (rule rb_frame_trans[OF s1(2)]) (simp add: rb_frame_def s2_def)
  have "al_id ` set (map snd ?walk) \<inter> al_id ` set (by_height_rows L s1 ?nh) = {}"
    using by_height_unique[OF assms(1)] by (fastforce simp: s1(4) by_height_walk_set)
  then have bh2: "set (by_height_rows L s2 ?nh) = set (by_height_rows L s1 ?nh) \<union> snd ` set ?walk"
    using ins_new_fresh[of al_id "map snd ?walk" "by_height_rows L s1 ?nh"]
      by_height_walk_distinct[OF assms(1), of h] by (simp add: s2_def tb(2))
  have bh2': "k \<noteq> ?nh \<Longrightarrow> by_height_rows L s2 k = by_height_rows L s1 k" for k
    by (simp add: s2_def tb(2))
  have acc2: "accounts_rows L s2 = (\<lambda>st. map (rewound h) (accounts_rows L s st))"
    by (simp add: s2_def acc1)
  have fr: "rollback_accounts L h s = Inr s2"
  proof (cases "?walk = []")
    case True
    then have "s1 = s" "tb = accounts_bh_t s" using s1(1) tb(1) by auto
    with True show ?thesis by (simp add: rollback_accounts_def s2_def)
  next
    case False
    with s1(1) tb(1) show ?thesis by (simp add: rollback_accounts_def s2_def Let_def)
  qed
  have rows2: "lk \<in> set (by_height_rows L s2 k) \<longleftrightarrow>
      k < h \<and> lk \<in> set (by_height_rows L s k) \<or> k = ?nh \<and> (\<exists>j. h \<le> j \<and> lk \<in> set (by_height_rows L s j))" for k lk
    by (cases "k = ?nh") (auto simp: bh2 bh2' s1(4) by_height_walk_set image_iff not_le)
  have "accounts_inv L s2"
    unfolding accounts_inv_def
  proof (intro conjI allI ballI impI)
    fix k lk assume "lk \<in> set (by_height_rows L s2 k)"
    then consider "k < h" "lk \<in> set (by_height_rows L s k)"
      | j where "k = ?nh" "h \<le> j" "lk \<in> set (by_height_rows L s j)" by (auto simp: rows2)
    then show "\<exists>a \<in> set (accounts_rows L s2 (al_status lk)). a_id a = al_id lk \<and> a_scan_height a = k"
    proof cases
      case 1
      obtain a where "a \<in> set (accounts_rows L s (al_status lk))" "a_id a = al_id lk" "a_scan_height a = k"
        by (rule lookup_account[OF assms(1) 1(2)])
      with 1 show ?thesis by (intro bexI[of _ "rewound h a"]) (auto simp: acc2 rewound_def)
    next
      case 2
      obtain a where "a \<in> set (accounts_rows L s (al_status lk))" "a_id a = al_id lk" "a_scan_height a = j"
        by (rule lookup_account[OF assms(1) 2(3)])
      with 2 show ?thesis by (intro bexI[of _ "rewound h a"]) (auto simp: acc2 rewound_def)
    qed
  next
    fix st b assume "b \<in> set (accounts_rows L s2 st)"
    then obtain a where a: "a \<in> set (accounts_rows L s st)" "b = rewound h a" by (auto simp: acc2)
    have e: "lookup_of st b = lookup_of st a" by (simp add: a(2))
    note l = accounts_invD(2)[OF assms(1) a(1)]
    show "lookup_of st b \<in> set (by_height_rows L s2 (a_scan_height b))"
    proof (cases "h \<le> a_scan_height a")
      case True
      then have "a_scan_height b = ?nh" by (simp add: a(2) rewound_def)
      with l True show ?thesis unfolding rows2 e by blast
    next
      case False
      then have "b = a" by (simp add: a(2) rewound_def)
      with l False show ?thesis unfolding rows2 by (simp add: not_le)
    qed
  next
    fix st st' a a' assume "a \<in> set (accounts_rows L s2 st)" "a' \<in> set (accounts_rows L s2 st')" "a_id a = a_id a'"
    then show "st = st'" using accounts_invD(3)[OF assms(1)] by (auto simp: acc2)
  next
    fix e assume "e \<in> set (by_address_rows L s2)"
    then show "\<exists>a \<in> set (accounts_rows L s2 (al_status (ba_lookup e))).
        a_id a = al_id (ba_lookup e) \<and> a_address a = ba_address e"
      using accounts_invD(4)[OF assms(1), of e] by (simp add: rb_frame_sel[OF f2] acc2)
  next
    fix st b assume "b \<in> set (accounts_rows L s2 st)"
    then obtain a where a: "a \<in> set (accounts_rows L s st)" "b = rewound h a" by (auto simp: acc2)
    from accounts_invD(5)[OF assms(1) a(1)]
    show "\<lparr>ba_address = a_address b, ba_lookup = lookup_of st b\<rparr> \<in> set (by_address_rows L s2)"
      by (simp add: rb_frame_sel[OF f2] a(2))
  qed
  moreover have "images_inv L s2" "outputs_rows L s2 = cut output_height h (ahead L h s) (outputs_rows L s)"
    "spends_rows L s2 = cut spend_height h (ahead L h s) (spends_rows L s)"
    using s1(5-7) by (simp_all add: s2_def images_inv_def)
  ultimately show ?thesis using fr f2 acc2 by blast
qed

text \<open>The events of one user, walked backwards.\<close>

lemma rollback_events_user:
  assumes "sorted (map event_height xs)" "distinct xs" "set xs \<subseteq> set (m_dups (events_m L) t k)"
    and "\<forall>(u, e) \<in> set rest. u \<noteq> k"
  shows "\<exists>t'. rollback_event_rows L h (rev (map (Pair k) xs) @ rest) t = rollback_event_rows L h rest t' \<and>
    m_dups (events_m L) t' = (m_dups (events_m L) t)(k :=
      filter (\<lambda>e. e \<in> set xs \<longrightarrow> event_height e < h) (m_dups (events_m L) t k))"
  using assms
proof (induction xs arbitrary: t rule: rev_induct)
  case Nil
  then show ?case by auto
next
  case (snoc x xs)
  show ?case
  proof (cases "event_height x < h")
    case True
    have "rollback_event_rows L h (rev (map (Pair k) (xs @ [x])) @ rest) t = rollback_event_rows L h rest t"
    proof -
      have "dropWhile (\<lambda>(u, _). u = k) (rev (map (Pair k) xs) @ rest) = dropWhile (\<lambda>(u, _). u = k) rest"
        by (rule dropWhile_append2) auto
      also have "\<dots> = rest" using snoc.prems(4) by (cases rest) auto
      finally show ?thesis using True by simp
    qed
    moreover have "event_height e < h" if "e \<in> set (xs @ [x])" for e
      using snoc.prems(1) True that by (auto simp: sorted_append)
    then have "filter (\<lambda>e. e \<in> set (xs @ [x]) \<longrightarrow> event_height e < h) (m_dups (events_m L) t k) = m_dups (events_m L) t k"
      by (intro filter_True) blast
    ultimately show ?thesis by (metis fun_upd_triv)
  next
    case False
    have x: "x \<in> set (m_dups (events_m L) t k)" using snoc.prems(3) by simp
    define t1 where "t1 = tdel (events_m L) k x t"
    have d1: "m_dups (events_m L) t1 = (m_dups (events_m L) t)(k := filter (\<lambda>e. e \<noteq> x) (m_dups (events_m L) t k))"
      using x by (simp add: t1_def del_row_def ev_self_def)
    have "set xs \<subseteq> set (m_dups (events_m L) t1 k)" using snoc.prems(2,3) by (auto simp: d1)
    moreover have "sorted (map event_height xs)" "distinct xs" using snoc.prems(1,2) by (auto simp: sorted_append)
    ultimately obtain t' where t': "rollback_event_rows L h (rev (map (Pair k) xs) @ rest) t1 = rollback_event_rows L h rest t'"
      "m_dups (events_m L) t' = (m_dups (events_m L) t1)(k :=
        filter (\<lambda>e. e \<in> set xs \<longrightarrow> event_height e < h) (m_dups (events_m L) t1 k))"
      using snoc.IH[of t1] snoc.prems(4) by blast
    have "rollback_event_rows L h (rev (map (Pair k) (xs @ [x])) @ rest) t =
        rollback_event_rows L h (rev (map (Pair k) xs) @ rest) t1"
      using False x by (simp add: t1_def)
    moreover have "m_dups (events_m L) t' = (m_dups (events_m L) t)(k :=
        filter (\<lambda>e. e \<in> set (xs @ [x]) \<longrightarrow> event_height e < h) (m_dups (events_m L) t k))"
      unfolding t'(2) d1 using False by (auto simp: fun_eq_iff intro!: filter_cong)
    ultimately show ?thesis using t'(1) by metis
  qed
qed

lemma rollback_event_rows_eq:
  assumes "distinct ks" and "\<forall>k \<in> set ks. m_dups (events_m L) t k = rows k"
  shows "\<exists>t'. rollback_event_rows L h (rev (concat (map (\<lambda>k. map (Pair k) (rows k)) ks))) t = Inr t' \<and>
    m_dups (events_m L) t' = (\<lambda>k. if k \<in> set ks then filter (\<lambda>e. event_height e < h) (rows k) else m_dups (events_m L) t k)"
  using assms
proof (induction ks arbitrary: t rule: rev_induct)
  case (snoc k ks)
  let ?rest = "rev (concat (map (\<lambda>k. map (Pair k) (rows k)) ks))"
  have r: "m_dups (events_m L) t k = rows k" using snoc.prems(2) by simp
  have srt: "sorted_rows ev_self (rows k)" using events.dups_sorted[of t k] by (simp add: r)
  have "sorted (map event_height (rows k))"
    using sorted_rows_coarse[OF srt event_height_mono] .
  moreover have "distinct (rows k)" using sorted_rows_distinct[OF srt] by (simp add: distinct_map)
  moreover have "\<forall>(u, e) \<in> set ?rest. u \<noteq> k" using snoc.prems(1) by auto
  ultimately obtain t1 where t1: "rollback_event_rows L h (rev (map (Pair k) (rows k)) @ ?rest) t = rollback_event_rows L h ?rest t1"
    "m_dups (events_m L) t1 = (m_dups (events_m L) t)(k := filter (\<lambda>e. e \<in> set (rows k) \<longrightarrow> event_height e < h) (rows k))"
    using rollback_events_user[of "rows k" t k ?rest h] by (auto simp: r)
  have "\<forall>j \<in> set ks. m_dups (events_m L) t1 j = rows j" using snoc.prems by (auto simp: t1(2))
  then obtain t' where t': "rollback_event_rows L h ?rest t1 = Inr t'"
    "m_dups (events_m L) t' = (\<lambda>j. if j \<in> set ks then filter (\<lambda>e. event_height e < h) (rows j) else m_dups (events_m L) t1 j)"
    using snoc.IH[of t1] snoc.prems(1) by auto
  have f: "filter (\<lambda>e. e \<in> set (rows k) \<longrightarrow> event_height e < h) (rows k) = filter (\<lambda>e. event_height e < h) (rows k)"
    by (rule filter_cong) auto
  have "rollback_event_rows L h (rev (concat (map (\<lambda>k. map (Pair k) (rows k)) (ks @ [k])))) t = Inr t'"
    using t1(1) t'(1) by simp
  moreover have "m_dups (events_m L) t' = (\<lambda>j. if j \<in> set (ks @ [k]) then filter (\<lambda>e. event_height e < h) (rows j)
      else m_dups (events_m L) t j)"
    using snoc.prems(1) by (auto simp: t'(2) t1(2) f fun_eq_iff)
  ultimately show ?case by blast
qed simp

lemma rollback_events_eq:
  "\<exists>t'. rollback_events L h s = Inr (s\<lparr>events_t := t'\<rparr>) \<and>
     m_dups (events_m L) t' = (\<lambda>u. filter (\<lambda>e. event_height e < h) (events_rows L s u))"
proof -
  obtain t' where t': "rollback_event_rows L h (rev (events_walk L s)) (events_t s) = Inr t'"
    "m_dups (events_m L) t' = (\<lambda>k. if k \<in> set (m_keys (events_m L) (events_t s))
        then filter (\<lambda>e. event_height e < h) (events_rows L s k) else events_rows L s k)"
    using rollback_event_rows_eq[OF events.distinct_keys, of "events_t s" "events_t s" "events_rows L s" h]
    unfolding events_walk_def by auto
  have "m_dups (events_m L) t' = (\<lambda>u. filter (\<lambda>e. event_height e < h) (events_rows L s u))"
    by (auto simp: t'(2) events.keys_iff fun_eq_iff)
  with t'(1) show ?thesis by (intro exI[of _ t']) (simp add: rollback_events_def)
qed

lemma pow_rows_from:
  assumes "has_row bp_id h (pows_rows L s)"
  shows "(case get_both (pows_m L) bp_id (pows_t s) pows_version h of
             Inl e \<Rightarrow> [] | Inr v \<Rightarrow> get_both_range (pows_m L) bp_id (pows_t s) pows_version h) =
         get_both_range (pows_m L) bp_id (pows_t s) pows_version h"
  using assms by (auto simp: pows.get_both_Inl_iff split: sum.splits)

lemma rollback_chain_eq:
  assumes "accounts_inv L s" "images_inv L s"
    and "rows = get_both_range (blocks_m L) bi_id (blocks_t s) blocks_version h"
  shows "\<exists>s'. rollback_chain L rows h s = Inr s' \<and> accounts_inv L s' \<and> images_inv L s' \<and>
    blocks_rows L s' = filter (\<lambda>b. bi_id b < h) (blocks_rows L s) \<and>
    pows_rows L s' = (if has_row bp_id h (pows_rows L s) then filter (\<lambda>b. bp_id b < h) (pows_rows L s)
                      else pows_rows L s) \<and>
    accounts_rows L s' = (\<lambda>st. map (rewound h) (accounts_rows L s st)) \<and>
    outputs_rows L s' = cut output_height h (ahead L h s) (outputs_rows L s) \<and>
    spends_rows L s' = cut spend_height h (ahead L h s) (spends_rows L s) \<and>
    events_rows L s' = (\<lambda>u. filter (\<lambda>e. event_height e < h) (events_rows L s u))"
proof -
  obtain tb where tb: "del_rows (blocks_m L) blocks_version rows (blocks_t s) = Inr tb"
    "m_dups (blocks_m L) tb = (m_dups (blocks_m L) (blocks_t s))(blocks_version := filter (\<lambda>b. bi_id b < h) (blocks_rows L s))"
    using blocks.del_range_eq[where ht = bi_id, OF less_imp_le, of blocks_version "blocks_t s" h] unfolding assms(3) by blast
  let ?pr = "case get_both (pows_m L) bp_id (pows_t s) pows_version h of
             Inl e \<Rightarrow> [] | Inr v \<Rightarrow> get_both_range (pows_m L) bp_id (pows_t s) pows_version h"
  obtain tp where tp: "del_rows (pows_m L) pows_version ?pr (pows_t s) = Inr tp"
    "m_dups (pows_m L) tp pows_version = (if has_row bp_id h (pows_rows L s)
       then filter (\<lambda>b. bp_id b < h) (pows_rows L s) else pows_rows L s)"
  proof (cases "has_row bp_id h (pows_rows L s)")
    case True
    then show ?thesis
      using pows.del_range_eq[where ht = bp_id, OF less_imp_le, of pows_version "pows_t s" h] that
      unfolding pow_rows_from[OF True] by auto
  next
    case False
    then have "?pr = []" by (auto simp: has_row_def split: sum.splits)
    with False that show ?thesis by simp
  qed
  define s1 where "s1 = s\<lparr>blocks_t := tb, pows_t := tp\<rparr>"
  have inv1: "accounts_inv L s1" "images_inv L s1"
    using assms(1,2) by (simp_all add: accounts_inv_def images_inv_def s1_def)
  obtain s2 where s2: "rollback_accounts L h s1 = Inr s2" "rb_frame s1 s2" "accounts_inv L s2" "images_inv L s2"
    "accounts_rows L s2 = (\<lambda>st. map (rewound h) (accounts_rows L s1 st))"
    "outputs_rows L s2 = cut output_height h (ahead L h s1) (outputs_rows L s1)"
    "spends_rows L s2 = cut spend_height h (ahead L h s1) (spends_rows L s1)"
    using rollback_accounts_eq[OF inv1] by blast
  obtain te where te: "rollback_events L h s2 = Inr (s2\<lparr>events_t := te\<rparr>)"
    "m_dups (events_m L) te = (\<lambda>u. filter (\<lambda>e. event_height e < h) (events_rows L s2 u))"
    using rollback_events_eq by blast
  have "rollback_chain L rows h s = Inr (s2\<lparr>events_t := te\<rparr>)"
    using tb(1) tp(1) s2(1) te(1) by (simp add: rollback_chain_def Let_def s1_def cong: sum.case_cong)
  moreover have "accounts_inv L (s2\<lparr>events_t := te\<rparr>)" "images_inv L (s2\<lparr>events_t := te\<rparr>)"
    using s2(3,4) by (simp_all add: accounts_inv_def images_inv_def)
  moreover have "ahead L h s1 = ahead L h s" by (simp add: ahead_def s1_def)
  ultimately show ?thesis
    using s2(5-7) te(2) tb(2) tp(2) by (simp add: rb_frame_sel[OF s2(2)] s1_def)
qed

end

section \<open>Properties\<close>

text \<open>
  C1: Undoing the blocks from height \<open>h\<close> on never fails on a well-formed database, and undoes
  exactly what the blocks brought: the blocks from \<open>h\<close> on go, and their difficulties if the
  block \<open>h\<close> has one; every account that was scanned to \<open>h\<close> or further is set back to the block
  before, in its row and in the index by height (which stays consistent), and loses precisely
  the outputs and spends from \<open>h\<close> on, with the key images of those spends; webhook events from
  \<open>h\<close> on go; other accounts, and everything below \<open>h\<close>, stay.
\<close>

theorem rollback_chain_undoes:
  assumes "lmdb_store L" and "accounts_inv L s" and "images_inv L s"
    and "rows = get_both_range (blocks_m L) bi_id (blocks_t s) blocks_version h"
  shows "\<exists>s'. rollback_chain L rows h s = Inr s' \<and> accounts_inv L s' \<and> images_inv L s' \<and>
    blocks_rows L s' = filter (\<lambda>b. bi_id b < h) (blocks_rows L s) \<and>
    pows_rows L s' = (if has_row bp_id h (pows_rows L s) then filter (\<lambda>b. bp_id b < h) (pows_rows L s)
                      else pows_rows L s) \<and>
    accounts_rows L s' = (\<lambda>st. map (rewound h) (accounts_rows L s st)) \<and>
    outputs_rows L s' = cut output_height h (ahead L h s) (outputs_rows L s) \<and>
    spends_rows L s' = cut spend_height h (ahead L h s) (spends_rows L s) \<and>
    events_rows L s' = (\<lambda>u. filter (\<lambda>e. event_height e < h) (events_rows L s u))"
  by (rule lmdb_store.rollback_chain_eq[OF assms])

theorem rollback_chain_undoes_witness:
  "\<exists>s'. rollback_chain log_lmdb [demo_block 3] 3 demo = Inr s' \<and> accounts_inv log_lmdb s' \<and>
     blocks_rows log_lmdb s' = map demo_block [0, 1, 2] \<and> pows_rows log_lmdb s' = map demo_pow [0, 1, 2] \<and>
     accounts_rows log_lmdb s' active = [demo_account\<lparr>a_scan_height := 2\<rparr>] \<and>
     accounts_rows log_lmdb s' inactive = [demo_account2] \<and>
     outputs_rows log_lmdb s' 1 = [demo_output 2 1] \<and> spends_rows log_lmdb s' 1 = [] \<and>
     events_rows log_lmdb s' 1 = []"
proof -
  have r: "[demo_block 3] = get_both_range (blocks_m log_lmdb) bi_id (blocks_t demo) blocks_version 3"
    by (simp add: get_both_range_def demo_blocks rows_from_def demo_block_def)
  have a: "1 \<in> ahead log_lmdb 3 demo"
    unfolding ahead_def demo_accounts by (auto intro!: exI[of _ active] simp: demo_account_def)
  have o: "outputs_rows log_lmdb demo 1 = [demo_output 2 1, demo_output 3 2]"
    by (simp add: log_simps demo_def demo_output_def output_key_def)
  have e: "events_rows log_lmdb demo 1 = [demo_event]"
    by (simp add: log_simps demo_def)
  have n: "\<not> (3::u64) \<le> 1" by (simp add: word_le_nat_alt)
  obtain s' where "rollback_chain log_lmdb [demo_block 3] 3 demo = Inr s'" "accounts_inv log_lmdb s'"
    "blocks_rows log_lmdb s' = filter (\<lambda>b. bi_id b < 3) (blocks_rows log_lmdb demo)"
    "pows_rows log_lmdb s' = (if has_row bp_id 3 (pows_rows log_lmdb demo)
        then filter (\<lambda>b. bp_id b < 3) (pows_rows log_lmdb demo) else pows_rows log_lmdb demo)"
    "accounts_rows log_lmdb s' = (\<lambda>st. map (rewound 3) (accounts_rows log_lmdb demo st))"
    "outputs_rows log_lmdb s' = cut output_height 3 (ahead log_lmdb 3 demo) (outputs_rows log_lmdb demo)"
    "spends_rows log_lmdb s' = cut spend_height 3 (ahead log_lmdb 3 demo) (spends_rows log_lmdb demo)"
    "events_rows log_lmdb s' = (\<lambda>u. filter (\<lambda>e. event_height e < 3) (events_rows log_lmdb demo u))"
    using rollback_chain_undoes[OF log.lmdb_store_axioms demo_accounts_inv demo_images_inv r] by blast
  then show ?thesis
    unfolding demo_blocks demo_pows demo_accounts
    by (intro exI[of _ s']) (simp add: cut_def a o e n demo_spends rewound_def demo_block_def demo_pow_def has_row_def
        demo_account_def demo_account2_def demo_output_def output_height_def demo_spend_def spend_height_def
        demo_event_def event_height_def)
qed

end
