(* ===== verification/Chain.thy ===== *)
theory Chain
  imports Rollback
begin

text \<open>
  The block table: set-up of a new database, the block hashes sent to the daemon to find the
  common ancestor, the window of difficulties for the proof of work check, and the two ways of
  taking over blocks from the daemon, \<open>sync_chain\<close> and \<open>sync_pow\<close>, with \<open>rollback\<close>, of
  \<open>src/src/db/storage.cpp\<close>. The checkpoints come from a library: their points, in the order of
  the height, and the largest height are a parameter.
\<close>

record checkpoints =
  get_points :: "(u64 \<times> hash) list"
  get_max_height :: u64

section \<open>Set-up\<close>

definition do_get_block_hash :: "'t lmdb \<Rightarrow> block_id \<Rightarrow> 't tables \<Rightarrow> error + hash" where
  "do_get_block_hash L i s =
     lmdb_check (get_both (blocks_m L) bi_id (blocks_t s) blocks_version i) (\<lambda>b. Inr (bi_hash b))"

definition check_blockchain :: "'t lmdb \<Rightarrow> checkpoints \<Rightarrow> 't tables \<Rightarrow> error + 't tables" where
  "check_blockchain L cp s =
     (let points = get_points cp in
      if points = [] \<or> fst (hd points) \<noteq> 0 then Inl (Lws bad_blockchain)
      else if m_dups (blocks_m L) (blocks_t s) blocks_version = [] then
        lmdb_check (m_put (blocks_m L) MDB_NODUPDATA blocks_version
            \<lparr>bi_id = fst (hd points), bi_hash = snd (hd points)\<rparr> (blocks_t s)) (\<lambda>t.
          if 1 < length points
          then lmdb_check (m_put (blocks_m L) MDB_NODUPDATA blocks_version
                 \<lparr>bi_id = fst (last points), bi_hash = snd (last points)\<rparr> t) (\<lambda>t. Inr (s\<lparr>blocks_t := t\<rparr>))
          else Inr (s\<lparr>blocks_t := t\<rparr>))
      else check (do_get_block_hash L 0 s) (\<lambda>genesis.
        if genesis \<noteq> snd (hd points) then Inl (Lws bad_blockchain) else Inr s))"

text \<open>Difficulties under the key of the previous schema are moved to the current key.\<close>

definition check_pow :: "'t lmdb \<Rightarrow> 't tables \<Rightarrow> error + 't tables" where
  "check_pow L s =
     (if m_dups (pows_m L) (pows_t s) pows_version \<noteq> [] then Inr s
      else
        let migrated = m_dups (pows_m L) (pows_t s) pows_previous_version in
        if migrated \<noteq> [] then
          check (del_rows (pows_m L) pows_previous_version migrated (pows_t s)) (\<lambda>t.
          check (bulk_insert (pows_m L) MDB_NODUPDATA pows_version migrated t) (\<lambda>t.
            Inr (s\<lparr>pows_t := t\<rparr>)))
        else
          lmdb_check (m_put (pows_m L) MDB_NODUPDATA pows_version
              \<lparr>bp_id = 0, bp_timestamp = 0, bp_cumulative_diff = Block_difficulty 0 1\<rparr> (pows_t s)) (\<lambda>t.
            Inr (s\<lparr>pows_t := t\<rparr>)))"

section \<open>Hashes to find the common ancestor\<close>

text \<open>
  Up to \<open>n\<close> blocks backwards; the flag tells whether the walk met the first row of the table.
\<close>

fun tail_walk :: "nat \<Rightarrow> block_info list \<Rightarrow> block_info list \<times> bool" where
  "tail_walk 0 back = ([], False)"
| "tail_walk (Suc n) [] = ([], True)"
| "tail_walk (Suc n) [b] = ([b], True)"
| "tail_walk (Suc n) (b # back) = (let (out, end_of) = tail_walk n back in (b # out, end_of))"

definition add_block :: "'t lmdb \<Rightarrow> 't tables \<Rightarrow> u64 \<Rightarrow> block_info list \<Rightarrow> error + block_info list" where
  "add_block L s i out =
     check (do_get_block_hash L i s) (\<lambda>h. Inr (out @ [\<lparr>bi_id = i, bi_hash = h\<rparr>]))"

text \<open>\<open>2 << i\<close> is a shift of an \<open>int\<close>, converted to 64 bits afterwards.\<close>

definition internal_offset :: "nat \<Rightarrow> u64" where
  "internal_offset i = scast (push_bit i (2 :: 32 word))"

fun internal_blocks :: "'t lmdb \<Rightarrow> 't tables \<Rightarrow> u64 \<Rightarrow> u64 \<Rightarrow> nat list \<Rightarrow> block_info list \<Rightarrow>
    error + block_info list" where
  "internal_blocks L s checkpoint anchor [] out = Inr out"
| "internal_blocks L s checkpoint anchor (i # is) out =
     (let offset = internal_offset i in
      if anchor < offset \<or> anchor - offset < checkpoint then Inr out
      else check (add_block L s (anchor - offset) out) (internal_blocks L s checkpoint anchor is))"

definition get_blocks_tail :: "'t lmdb \<Rightarrow> checkpoints \<Rightarrow> 't tables \<Rightarrow> block_info list \<Rightarrow> nat \<Rightarrow>
    error + block_info list" where
  "get_blocks_tail L cp s back max_internal =
     (let (out, end_of) = tail_walk 10 back in
      if end_of then if bi_id (last out) \<noteq> 0 then Inl (Lws bad_blockchain) else Inr out
      else
        let checkpoint = get_max_height cp; anchor = bi_id (last out) in
        check (internal_blocks L s checkpoint anchor [1..<Suc max_internal] out) (\<lambda>out.
        check (if checkpoint < bi_id (last out) then add_block L s checkpoint out else Inr out) (\<lambda>out.
          if bi_id (last out) \<noteq> 0 then add_block L s 0 out else Inr out)))"

definition get_blocks :: "'t lmdb \<Rightarrow> checkpoints \<Rightarrow> nat \<Rightarrow> 't tables \<Rightarrow> error + block_info list" where
  "get_blocks L cp max_internal s =
     (let rows = m_dups (blocks_m L) (blocks_t s) blocks_version in
      if rows = [] then Inl (Mdb MDB_NOTFOUND)
      else get_blocks_tail L cp s (rev rows) (min 64 max_internal))"

definition get_blocks_from_height :: "'t lmdb \<Rightarrow> checkpoints \<Rightarrow> nat \<Rightarrow> block_id \<Rightarrow> 't tables \<Rightarrow>
    error + block_info list" where
  "get_blocks_from_height L cp max_internal last_pow s =
     lmdb_check (get_both (blocks_m L) bi_id (blocks_t s) blocks_version last_pow) (\<lambda>_.
       get_blocks_tail L cp s
         (rev (takeWhile (\<lambda>b. bi_id b \<le> last_pow) (m_dups (blocks_m L) (blocks_t s) blocks_version)))
         (min 64 max_internal))"

definition get_last_block :: "'t lmdb \<Rightarrow> 't tables \<Rightarrow> error + block_info" where
  "get_last_block L s = lmdb_check (get_last_dup (blocks_m L) (blocks_t s) blocks_version) Inr"

definition get_last_pow_block :: "'t lmdb \<Rightarrow> 't tables \<Rightarrow> error + block_pow" where
  "get_last_pow_block L s = lmdb_check (get_last_dup (pows_m L) (pows_t s) pows_version) Inr"

definition get_chain_sync :: "'t lmdb \<Rightarrow> checkpoints \<Rightarrow> 't tables \<Rightarrow> error + hash list" where
  "get_chain_sync L cp s = check (get_blocks L cp 64 s) (\<lambda>blocks. Inr (map bi_hash blocks))"

definition get_pow_sync :: "'t lmdb \<Rightarrow> checkpoints \<Rightarrow> 't tables \<Rightarrow> error + hash list" where
  "get_pow_sync L cp s =
     lmdb_check (get_last_dup (pows_m L) (pows_t s) pows_version) (\<lambda>pow.
     check (get_blocks_from_height L cp 64 (bp_id pow) s) (\<lambda>blocks. Inr (map bi_hash blocks)))"

text \<open>
  The last blocks for the proof of work check. The number of difficulties and of timestamps are
  constants of the Monero configuration.
\<close>

record pow_window =
  pow_timestamps :: "u64 list"
  cumulative_diffs :: "128 word list"
  median_timestamps :: "u64 list"

fun window_walk :: "u64 \<Rightarrow> u64 \<Rightarrow> block_pow list \<Rightarrow> error + block_pow list" where
  "window_walk next lst [] = Inl (Mdb MDB_NOTFOUND)"
| "window_walk next lst (b # rows) =
     (if next + 1 = lst + 1 then Inr [b]
      else check (window_walk (next + 1) lst rows) (\<lambda>bs. Inr (b # bs)))"

definition window_from :: "'t lmdb \<Rightarrow> 't tables \<Rightarrow> u64 \<Rightarrow> u64 \<Rightarrow> error + block_pow list" where
  "window_from L s next lst =
     lmdb_check (get_both (pows_m L) bp_id (pows_t s) pows_version next) (\<lambda>_.
       window_walk next lst (get_both_range (pows_m L) bp_id (pows_t s) pows_version next))"

definition get_pow_window :: "'t lmdb \<Rightarrow> u64 \<Rightarrow> u64 \<Rightarrow> block_id \<Rightarrow> 't tables \<Rightarrow> error + pow_window" where
  "get_pow_window L difficulty_blocks timestamp_window lst s =
     (if lst = 0 then Inr \<lparr>pow_timestamps = [], cumulative_diffs = [], median_timestamps = []\<rparr>
      else
        let next = (if difficulty_blocks < lst then lst - (difficulty_blocks - 1) else 0) in
        check (window_from L s next lst) (\<lambda>bs.
        (let out = \<lparr>pow_timestamps = map bp_timestamp bs,
                    cumulative_diffs = map (get_difficulty \<circ> bp_cumulative_diff) bs,
                    median_timestamps = []\<rparr> in
         if lst < timestamp_window then Inr out
         else check (window_from L s (lst - (timestamp_window - 1)) lst) (\<lambda>bs.
           Inr (out\<lparr>median_timestamps := map bp_timestamp bs\<rparr>)))))"

section \<open>Blocks from the daemon\<close>

text \<open>Blocks are collected in a buffer of 25 (31 difficulties) that is written when it is full.\<close>

fun append_hashes_loop :: "'t lmdb \<Rightarrow> u64 \<Rightarrow> block_info list \<Rightarrow> hash list \<Rightarrow> 't \<Rightarrow> error + 't" where
  "append_hashes_loop L height hashes [] t = bulk_insert (blocks_m L) MDB_DEFAULT blocks_version hashes t"
| "append_hashes_loop L height hashes (current # chain) t =
     check (if length hashes = 25 then bulk_insert (blocks_m L) MDB_DEFAULT blocks_version hashes t else Inr t) (\<lambda>t.
     (let hashes = (if length hashes = 25 then [] else hashes) in
      append_hashes_loop L (height + 1) (hashes @ [\<lparr>bi_id = height, bi_hash = current\<rparr>]) chain t))"

definition append_block_hashes :: "'t lmdb \<Rightarrow> block_id \<Rightarrow> hash list \<Rightarrow> 't tables \<Rightarrow> error + 't tables" where
  "append_block_hashes L first chain s =
     check (append_hashes_loop L first [] chain (blocks_t s)) (\<lambda>t. Inr (s\<lparr>blocks_t := t\<rparr>))"

fun append_pow_loop :: "'t lmdb \<Rightarrow> u64 \<Rightarrow> block_pow list \<Rightarrow> pow_sync list \<Rightarrow> 't \<Rightarrow> error + 't" where
  "append_pow_loop L height pows [] t = bulk_insert (pows_m L) MDB_NODUPDATA pows_version pows t"
| "append_pow_loop L height pows (current # chain) t =
     check (if length pows = 31 then bulk_insert (pows_m L) MDB_NODUPDATA pows_version pows t else Inr t) (\<lambda>t.
     (let pows = (if length pows = 31 then [] else pows) in
      append_pow_loop L (height + 1)
        (pows @ [\<lparr>bp_id = height, bp_timestamp = sync_timestamp current,
                  bp_cumulative_diff = sync_cumulative_diff current\<rparr>]) chain t))"

definition append_pow :: "'t lmdb \<Rightarrow> block_id \<Rightarrow> pow_sync list \<Rightarrow> 't tables \<Rightarrow> error + 't tables" where
  "append_pow L first chain s =
     check (append_pow_loop L first [] chain (pows_t s)) (\<lambda>t. Inr (s\<lparr>pows_t := t\<rparr>))"

definition rollback :: "'t lmdb \<Rightarrow> block_id \<Rightarrow> 't tables \<Rightarrow> error + 't tables" where
  "rollback L height s =
     (case get_both (blocks_m L) bi_id (blocks_t s) blocks_version height of
        Inl e \<Rightarrow> if e = MDB_NOTFOUND then Inr s else Inl (Mdb e)
      | Inr b \<Rightarrow>
          rollback_chain L (get_both_range (blocks_m L) bi_id (blocks_t s) blocks_version height) height s)"

text \<open>
  The rows a cursor visits after the block at \<open>height\<close>.
\<close>

definition blocks_after :: "'t lmdb \<Rightarrow> block_id \<Rightarrow> 't tables \<Rightarrow> block_info list" where
  "blocks_after L height s = tl (get_both_range (blocks_m L) bi_id (blocks_t s) blocks_version height)"

text \<open>
  The loops give the height and the rest of the chain from which to append.
\<close>

fun sync_chain_loop :: "'t lmdb \<Rightarrow> checkpoints \<Rightarrow> bool \<Rightarrow> u64 \<Rightarrow> block_info list \<Rightarrow> hash list \<Rightarrow> 't tables \<Rightarrow>
    error + u64 \<times> hash list \<times> 't tables" where
  "sync_chain_loop L cp regtest current rows [] s = Inr (current, [], s)"
| "sync_chain_loop L cp regtest current [] chain s = Inr (current, chain, s)"
| "sync_chain_loop L cp regtest current (b # rows) (front # chain) s =
     (if bi_hash b \<noteq> front then
        if \<not> regtest \<and> current \<le> get_max_height cp then Inl (Lws bad_blockchain)
        else check (rollback_chain L (b # rows) current s) (\<lambda>s. Inr (current, front # chain, s))
      else sync_chain_loop L cp regtest (current + 1) rows chain s)"

definition sync_chain :: "'t lmdb \<Rightarrow> checkpoints \<Rightarrow> block_id \<Rightarrow> hash list \<Rightarrow> bool \<Rightarrow> 't tables \<Rightarrow>
    error + 't tables" where
  "sync_chain L cp height hashes regtest s =
     precond (hashes \<noteq> [])
       (check (do_get_block_hash L height s) (\<lambda>h.
        if h \<noteq> hd hashes then Inl (Lws bad_blockchain)
        else check (sync_chain_loop L cp regtest (height + 1) (blocks_after L height s) (tl hashes) s)
          (\<lambda>(current, chain, s). append_block_hashes L current chain s)))"

definition missed_checkpoint :: "checkpoints \<Rightarrow> u64 \<Rightarrow> hash \<Rightarrow> bool" where
  "missed_checkpoint cp current h =
     (case map_of (get_points cp) current of None \<Rightarrow> False | Some point \<Rightarrow> point \<noteq> h)"

fun sync_pow_loop :: "'t lmdb \<Rightarrow> checkpoints \<Rightarrow> u64 \<Rightarrow> block_info list \<Rightarrow> hash list \<Rightarrow> 't tables \<Rightarrow>
    error + u64 \<times> hash list \<times> 't tables" where
  "sync_pow_loop L cp current rows [] s = Inr (current, [], s)"
| "sync_pow_loop L cp current rows (front # chain) s =
     (if missed_checkpoint cp current front then Inl (Lws bad_blockchain)
      else case rows of
        [] \<Rightarrow> Inr (current, front # chain, s)
      | b # rows \<Rightarrow>
          if bi_id b \<noteq> current then Inr (current, front # chain, s)
          else if bi_hash b \<noteq> front then
            if current \<le> get_max_height cp then Inl (Lws bad_blockchain)
            else check (rollback_chain L (b # rows) current s) (\<lambda>s. Inr (current, front # chain, s))
          else sync_pow_loop L cp (current + 1) rows chain s)"

fun scan_checkpoints :: "checkpoints \<Rightarrow> u64 \<Rightarrow> hash list \<Rightarrow> error + unit" where
  "scan_checkpoints cp current [] = Inr ()"
| "scan_checkpoints cp current (current_hash # chain) =
     (if missed_checkpoint cp current current_hash then Inl (Lws bad_blockchain)
      else scan_checkpoints cp (current + 1) chain)"

definition sync_pow :: "'t lmdb \<Rightarrow> checkpoints \<Rightarrow> block_id \<Rightarrow> hash list \<Rightarrow> pow_sync list \<Rightarrow> 't tables \<Rightarrow>
    error + 't tables" where
  "sync_pow L cp height hashes pow s =
     precond (hashes \<noteq> [] \<and> length hashes = length pow)
       (check (do_get_block_hash L height s) (\<lambda>h.
        if h \<noteq> hd hashes then Inl (Lws bad_blockchain)
        else check (sync_pow_loop L cp (height + 1) (blocks_after L height s) (tl hashes) s)
          (\<lambda>(current, chain, s).
           check (scan_checkpoints cp current chain) (\<lambda>_.
           check (append_block_hashes L current chain s)
             (append_pow L current (drop (length hashes - length chain) pow))))))"

section \<open>Appending\<close>

text \<open>Blocks with consecutive heights.\<close>

fun chain_blocks :: "u64 \<Rightarrow> hash list \<Rightarrow> block_info list" where
  "chain_blocks h [] = []"
| "chain_blocks h (x # xs) = \<lparr>bi_id = h, bi_hash = x\<rparr> # chain_blocks (h + 1) xs"

fun pow_blocks :: "u64 \<Rightarrow> pow_sync list \<Rightarrow> block_pow list" where
  "pow_blocks h [] = []"
| "pow_blocks h (x # xs) =
     \<lparr>bp_id = h, bp_timestamp = sync_timestamp x, bp_cumulative_diff = sync_cumulative_diff x\<rparr> # pow_blocks (h + 1) xs"

lemma chain_blocks_hashes [simp]: "map bi_hash (chain_blocks h xs) = xs"
  by (induction xs arbitrary: h) auto

lemma length_chain_blocks [simp]: "length (chain_blocks h xs) = length xs"
  by (induction xs arbitrary: h) auto

lemma chain_blocks_append:
  "chain_blocks h (xs @ ys) = chain_blocks h xs @ chain_blocks (h + of_nat (length xs)) ys"
  by (induction xs arbitrary: h) (simp_all add: algebra_simps)

lemma take_chain_blocks: "take n (chain_blocks h xs) = chain_blocks h (take n xs)"
  by (induction xs arbitrary: h n) (simp_all add: take_Cons split: nat.splits)

lemma unat_Suc_bound: "unat h + Suc n \<le> 2 ^ 64 \<Longrightarrow> n \<noteq> 0 \<Longrightarrow> unat (h + 1) = Suc (unat h)" for h :: u64
  by (subst unat_add_lem[THEN iffD1]) auto

lemma chain_blocks_range:
  "b \<in> set (chain_blocks h xs) \<Longrightarrow> unat h + length xs \<le> 2 ^ 64 \<Longrightarrow>
     unat h \<le> unat (bi_id b) \<and> unat (bi_id b) < unat h + length xs"
proof (induction xs arbitrary: h)
  case (Cons x xs)
  show ?case
  proof (cases "b = \<lparr>bi_id = h, bi_hash = x\<rparr>")
    case False
    with Cons.prems(1) have b: "b \<in> set (chain_blocks (h + 1) xs)" by simp
    then have "xs \<noteq> []" by auto
    then have "unat (h + 1) = Suc (unat h)" using Cons.prems(2) unat_Suc_bound[of h "length xs"] by simp
    with Cons.IH[OF b] Cons.prems(2) show ?thesis by simp
  qed simp
qed simp

lemma chain_blocks_sorted: "unat h + length xs \<le> 2 ^ 64 \<Longrightarrow> sorted_rows bi_id (chain_blocks h xs)"
proof (induction xs arbitrary: h)
  case (Cons x xs)
  show ?case
  proof (cases "xs = []")
    case False
    then have u: "unat (h + 1) = Suc (unat h)" using Cons.prems unat_Suc_bound[of h "length xs"] by simp
    have "h < bi_id b" if "b \<in> set (chain_blocks (h + 1) xs)" for b
      using chain_blocks_range[OF that] u Cons.prems by (simp add: word_less_nat_alt)
    with Cons u show ?thesis by simp
  qed simp
qed simp

lemma fold_ins_append: "sorted_rows sk (xs @ ys) \<Longrightarrow> fold (ins_row sk) ys xs = xs @ ys"
proof (induction ys arbitrary: xs)
  case (Cons y ys)
  then have "ins_row sk y xs = xs @ [y]" by (intro ins_row_last) (simp add: sorted_rows_append)
  with Cons.IH[of "xs @ [y]"] Cons.prems show ?case by simp
qed simp

context lmdb_store begin

lemma append_hashes_loop_eq:
  "\<exists>t'. append_hashes_loop L h buf chain t = Inr t' \<and>
     m_dups (blocks_m L) t' = (m_dups (blocks_m L) t)(blocks_version :=
       fold (ins_row bi_id) (buf @ chain_blocks h chain) (m_dups (blocks_m L) t blocks_version))"
proof (induction chain arbitrary: h buf t)
  case Nil
  then show ?case using blocks.bulk_insert_over[of blocks_version buf t] by (simp add: fun_upd_def)
next
  case (Cons x chain)
  let ?b = "\<lparr>bi_id = h, bi_hash = x\<rparr>"
  show ?case
  proof (cases "length buf = 25")
    case True
    obtain t1 where t1: "bulk_insert (blocks_m L) MDB_DEFAULT blocks_version buf t = Inr t1"
      "m_dups (blocks_m L) t1 = (m_dups (blocks_m L) t)(blocks_version := fold (ins_row bi_id) buf (m_dups (blocks_m L) t blocks_version))"
      using blocks.bulk_insert_over by blast
    with True Cons.IH[of "h + 1" "[?b]" t1] show ?thesis by (simp add: t1(2) fun_upd_def cong: if_cong)
  next
    case False
    with Cons.IH[of "h + 1" "buf @ [?b]" t] show ?thesis by simp
  qed
qed

lemma append_pow_loop_eq:
  "\<exists>t'. append_pow_loop L h buf chain t = Inr t' \<and>
     m_dups (pows_m L) t' = (m_dups (pows_m L) t)(pows_version :=
       fold (ins_new bp_id) (buf @ pow_blocks h chain) (m_dups (pows_m L) t pows_version))"
proof (induction chain arbitrary: h buf t)
  case Nil
  then show ?case using pows.bulk_insert_nodup[of pows_version buf t] by (simp add: fun_upd_def)
next
  case (Cons x chain)
  let ?b = "\<lparr>bp_id = h, bp_timestamp = sync_timestamp x, bp_cumulative_diff = sync_cumulative_diff x\<rparr>"
  show ?case
  proof (cases "length buf = 31")
    case True
    obtain t1 where t1: "bulk_insert (pows_m L) MDB_NODUPDATA pows_version buf t = Inr t1"
      "m_dups (pows_m L) t1 = (m_dups (pows_m L) t)(pows_version := fold (ins_new bp_id) buf (m_dups (pows_m L) t pows_version))"
      using pows.bulk_insert_nodup by blast
    with True Cons.IH[of "h + 1" "[?b]" t1] show ?thesis by (simp add: t1(2) fun_upd_def cong: if_cong)
  next
    case False
    with Cons.IH[of "h + 1" "buf @ [?b]" t] show ?thesis by simp
  qed
qed

lemma append_block_hashes_eq:
  "\<exists>t'. append_block_hashes L h chain s = Inr (s\<lparr>blocks_t := t'\<rparr>) \<and>
     m_dups (blocks_m L) t' blocks_version = fold (ins_row bi_id) (chain_blocks h chain) (blocks_rows L s)"
  using append_hashes_loop_eq[of h "[]" chain "blocks_t s"] by (auto simp: append_block_hashes_def)

lemma append_pow_eq:
  "\<exists>t'. append_pow L h chain s = Inr (s\<lparr>pows_t := t'\<rparr>) \<and>
     m_dups (pows_m L) t' pows_version = fold (ins_new bp_id) (pow_blocks h chain) (pows_rows L s)"
  using append_pow_loop_eq[of h "[]" chain "pows_t s"] by (auto simp: append_pow_def)

end

section \<open>Taking over a chain\<close>

text \<open>The number of leading hashes two chains share, and the chain that should result.\<close>

fun common :: "'a list \<Rightarrow> 'a list \<Rightarrow> nat" where
  "common (x # xs) (y # ys) = (if x = y then Suc (common xs ys) else 0)"
| "common _ _ = 0"

definition forks :: "'a list \<Rightarrow> 'a list \<Rightarrow> bool" where
  "forks old new \<longleftrightarrow> common old new < length old \<and> common old new < length new"

definition merge_chain :: "'a list \<Rightarrow> 'a list \<Rightarrow> 'a list" where
  "merge_chain old new = (if common old new = length new then old else new)"

lemma common_Nil [simp]: "common xs [] = 0"
  by (cases xs) auto

lemma common_le: "common xs ys \<le> length xs" "common xs ys \<le> length ys"
  by (induction xs ys rule: common.induct) auto

lemma take_common: "take (common xs ys) xs = take (common xs ys) ys"
  by (induction xs ys rule: common.induct) auto

lemma forks_Cons [simp]: "forks (x # xs) (y # ys) \<longleftrightarrow> (x = y \<longrightarrow> forks xs ys)"
  by (simp add: forks_def)

lemma forks_Nil [simp]: "\<not> forks [] ys" "\<not> forks xs []"
  by (simp_all add: forks_def)

lemma merge_chain_eq:
  "(if forks old new then take (common old new) old else old) @ drop (common old new) new = merge_chain old new"
proof (cases "common old new = length new")
  case False
  then have lt: "common old new < length new" using common_le(2)[of old new] by simp
  have "take (common old new) old @ drop (common old new) new = new"
    by (simp add: take_common)
  with False lt common_le(1)[of old new] show ?thesis
    by (auto simp: merge_chain_def forks_def)
qed (auto simp: merge_chain_def forks_def)

text \<open>
  The rows of the table around a cursor: those below, and consecutive blocks from \<open>current\<close> on.
\<close>

definition contiguous_from :: "'t lmdb \<Rightarrow> 't tables \<Rightarrow> block_info list \<Rightarrow> u64 \<Rightarrow> hash list \<Rightarrow> bool" where
  "contiguous_from L s low current old \<longleftrightarrow>
     blocks_rows L s = low @ chain_blocks current old \<and>
     (\<forall>b \<in> set low. bi_id b < current) \<and> unat current + length old \<le> 2 ^ 64"

lemma contiguous_step:
  assumes "contiguous_from L s low current (x # old)" "unat current + 1 < 2 ^ 64"
  shows "contiguous_from L s (low @ [\<lparr>bi_id = current, bi_hash = x\<rparr>]) (current + 1) old"
proof -
  have "unat (current + 1) = Suc (unat current)"
    using assms(2) by (subst unat_add_lem[THEN iffD1]) auto
  with assms show ?thesis
    by (auto simp: contiguous_from_def word_less_nat_alt)
qed

context lmdb_store begin

lemma contiguous_range:
  assumes "contiguous_from L s low current old"
  shows "get_both_range (blocks_m L) bi_id (blocks_t s) blocks_version current = chain_blocks current old"
    and "filter (\<lambda>b. bi_id b < current) (blocks_rows L s) = low"
proof -
  have up: "current \<le> bi_id b" if "b \<in> set (chain_blocks current old)" for b
    using chain_blocks_range[OF that] assms by (simp add: contiguous_from_def word_le_nat_alt)
  have low: "\<not> current \<le> bi_id b" if "b \<in> set low" for b
    using assms that by (auto simp: contiguous_from_def)
  show "get_both_range (blocks_m L) bi_id (blocks_t s) blocks_version current = chain_blocks current old"
    unfolding get_both_range_def rows_from_filter[OF blocks.dups_sorted]
    using assms up low by (auto simp: contiguous_from_def filter_empty_conv)
  show "filter (\<lambda>b. bi_id b < current) (blocks_rows L s) = low"
    using assms up low by (auto simp: contiguous_from_def filter_empty_conv not_less filter_True)
qed

lemma contiguous_sorted:
  assumes "contiguous_from L s low h old" "unat h + length xs \<le> 2 ^ 64"
  shows "sorted_rows bi_id (low @ chain_blocks h xs)"
  unfolding sorted_rows_append
proof (intro conjI ballI)
  show "sorted_rows bi_id low"
    using assms(1) unfolding contiguous_from_def by (metis blocks.dups_sorted sorted_rows_append)
  show "sorted_rows bi_id (chain_blocks h xs)" by (rule chain_blocks_sorted[OF assms(2)])
  fix a b assume "a \<in> set low" "b \<in> set (chain_blocks h xs)"
  then show "bi_id a < bi_id b"
    using chain_blocks_range[OF _ assms(2), of b] assms(1)
    by (auto simp: contiguous_from_def word_le_nat_alt intro: order_less_le_trans)
qed

lemma sync_chain_loop_eq:
  assumes "accounts_inv L s" "images_inv L s" "contiguous_from L s low current old"
    and "unat current + length chain < 2 ^ 64"
  defines "n \<equiv> common old chain"
  shows "if forks old chain \<and> \<not> regtest \<and> current + of_nat n \<le> get_max_height cp
    then sync_chain_loop L cp regtest current (chain_blocks current old) chain s = Inl (Lws bad_blockchain)
    else \<exists>s'. sync_chain_loop L cp regtest current (chain_blocks current old) chain s =
        Inr (current + of_nat n, drop n chain, s') \<and> accounts_inv L s' \<and> images_inv L s' \<and>
        blocks_rows L s' = low @ (if forks old chain then chain_blocks current (take n old) else chain_blocks current old) \<and>
        accounts_rows L s' = (if forks old chain then \<lambda>st. map (rewound (current + of_nat n)) (accounts_rows L s st)
                              else accounts_rows L s)"
  using assms(1-4) unfolding n_def
proof (induction old arbitrary: current chain low)
  case Nil
  then show ?case by (cases chain) (auto simp: contiguous_from_def)
next
  case (Cons x old)
  show ?case
  proof (cases chain)
    case Nil
    with Cons.prems show ?thesis by (auto simp: contiguous_from_def)
  next
    case (Cons y ys)
    let ?b = "\<lparr>bi_id = current, bi_hash = x\<rparr>"
    show ?thesis
    proof (cases "x = y")
      case True
      have "unat current + 1 < 2 ^ 64" using Cons.prems(4) Cons by simp
      then have u: "unat (current + 1) = Suc (unat current)" by (subst unat_add_lem[THEN iffD1]) auto
      have c: "contiguous_from L s (low @ [?b]) (current + 1) old"
        by (rule contiguous_step[OF Cons.prems(3)]) fact
      show ?thesis
        using Cons.IH[OF Cons.prems(1,2) c, of ys] Cons.prems(4) u True Cons
        by (cases regtest) (simp_all add: algebra_simps split: if_splits)
    next
      case False
      obtain s' where s': "rollback_chain L (chain_blocks current (x # old)) current s = Inr s'"
        "accounts_inv L s'" "images_inv L s'" "blocks_rows L s' = low"
        "accounts_rows L s' = (\<lambda>st. map (rewound current) (accounts_rows L s st))"
        using rollback_chain_eq[OF Cons.prems(1,2) contiguous_range(1)[OF Cons.prems(3), symmetric]]
          contiguous_range(2)[OF Cons.prems(3)] by auto
      with False Cons show ?thesis by auto
    qed
  qed
qed

lemma sync_chain_eq:
  assumes "accounts_inv L s" "images_inv L s" "contiguous_from L s low height (g # old)"
    and "unat height + length (g # new) < 2 ^ 64"
  defines "fork \<equiv> height + 1 + of_nat (common old new)"
  shows "if forks old new \<and> \<not> regtest \<and> fork \<le> get_max_height cp
    then sync_chain L cp height (g # new) regtest s = Inl (Lws bad_blockchain)
    else \<exists>s'. sync_chain L cp height (g # new) regtest s = Inr s' \<and> accounts_inv L s' \<and> images_inv L s' \<and>
        blocks_rows L s' = low @ chain_blocks height (g # merge_chain old new) \<and>
        accounts_rows L s' = (if forks old new then \<lambda>st. map (rewound fork) (accounts_rows L s st)
                              else accounts_rows L s)"
proof -
  let ?b = "\<lparr>bi_id = height, bi_hash = g\<rparr>" and ?n = "common old new"
  let ?X = "if forks old new then take ?n old else old"
  have "unat height + 1 < 2 ^ 64" using assms(4) by simp
  then have u: "unat (height + 1) = Suc (unat height)" by (subst unat_add_lem[THEN iffD1]) auto
  have c: "contiguous_from L s (low @ [?b]) (height + 1) old"
    by (rule contiguous_step[OF assms(3)]) fact
  have rng: "get_both_range (blocks_m L) bi_id (blocks_t s) blocks_version height = ?b # chain_blocks (height + 1) old"
    using contiguous_range(1)[OF assms(3)] by simp
  have gb: "get_both (blocks_m L) bi_id (blocks_t s) blocks_version height = Inr ?b"
    using assms(3) by (simp add: contiguous_from_def)
  have hash: "do_get_block_hash L height s = Inr g" unfolding do_get_block_hash_def gb by simp
  have after: "blocks_after L height s = chain_blocks (height + 1) old" by (simp add: blocks_after_def rng)
  note loop = sync_chain_loop_eq[OF assms(1,2) c, of new regtest cp]
  show ?thesis
  proof (cases "forks old new \<and> \<not> regtest \<and> fork \<le> get_max_height cp")
    case True
    with loop u assms(4) show ?thesis
      by (simp add: sync_chain_def hash after fork_def)
  next
    case False
    obtain s1 where s1: "sync_chain_loop L cp regtest (height + 1) (chain_blocks (height + 1) old) new s =
        Inr (fork, drop ?n new, s1)" "accounts_inv L s1" "images_inv L s1"
      "blocks_rows L s1 = (low @ [?b]) @ (if forks old new then chain_blocks (height + 1) (take ?n old) else chain_blocks (height + 1) old)"
      "accounts_rows L s1 = (if forks old new then \<lambda>st. map (rewound fork) (accounts_rows L s st) else accounts_rows L s)"
      using loop u assms(4) False unfolding fork_def by (auto split: if_splits)
    have merged: "blocks_rows L s1 @ chain_blocks fork (drop ?n new) = low @ chain_blocks height (g # merge_chain old new)"
    proof -
      have "chain_blocks (height + 1) ?X @ chain_blocks fork (drop ?n new) = chain_blocks (height + 1) (?X @ drop ?n new)"
      proof (cases "drop ?n new = []")
        case False
        then have "length ?X = ?n" using common_le[of old new] by (auto simp: forks_def)
        then show ?thesis by (simp add: chain_blocks_append fork_def)
      qed simp
      then show ?thesis unfolding s1(4) using merge_chain_eq[of old new] by (simp split: if_splits)
    qed
    have "unat height + length (g # merge_chain old new) \<le> 2 ^ 64"
      using assms(3,4) by (auto simp: merge_chain_def contiguous_from_def)
    then have "sorted_rows bi_id (low @ chain_blocks height (g # merge_chain old new))"
      by (rule contiguous_sorted[OF assms(3)])
    then have "fold (ins_row bi_id) (chain_blocks fork (drop ?n new)) (blocks_rows L s1) = low @ chain_blocks height (g # merge_chain old new)"
      using fold_ins_append merged by metis
    then obtain t' where t': "append_block_hashes L fork (drop ?n new) s1 = Inr (s1\<lparr>blocks_t := t'\<rparr>)"
      "m_dups (blocks_m L) t' blocks_version = low @ chain_blocks height (g # merge_chain old new)"
      using append_block_hashes_eq[of fork "drop ?n new" s1] by auto
    have "sync_chain L cp height (g # new) regtest s = Inr (s1\<lparr>blocks_t := t'\<rparr>)"
      by (simp add: sync_chain_def hash after s1(1) t'(1))
    moreover have "accounts_inv L (s1\<lparr>blocks_t := t'\<rparr>)" "images_inv L (s1\<lparr>blocks_t := t'\<rparr>)"
      using s1(2,3) by (simp_all add: accounts_inv_def images_inv_def)
    ultimately show ?thesis using False t'(2) s1(5) by auto
  qed
qed

end

section \<open>Properties\<close>

text \<open>
  C2: Taking over a chain of hashes from the daemon, starting at a block both know. If the
  chains part at or below the last checkpoint (and this is not a regression test network) the
  call is refused. Otherwise it succeeds, and the table holds the blocks below, the common block
  and the merge of the two chains: the old chain if it already has all the new hashes, and the
  new one otherwise. Accounts that were scanned past the fork are set back to it, no other
  account changes, and the account index and the key images stay consistent.
\<close>

theorem sync_chain_merges:
  assumes "lmdb_store L" and "accounts_inv L s" and "images_inv L s"
    and "contiguous_from L s low height (g # old)" and "unat height + length (g # new) < 2 ^ 64"
  shows "if forks old new \<and> \<not> regtest \<and> height + 1 + of_nat (common old new) \<le> get_max_height cp
    then sync_chain L cp height (g # new) regtest s = Inl (Lws bad_blockchain)
    else \<exists>s'. sync_chain L cp height (g # new) regtest s = Inr s' \<and> accounts_inv L s' \<and> images_inv L s' \<and>
        blocks_rows L s' = low @ chain_blocks height (g # merge_chain old new) \<and>
        accounts_rows L s' = (if forks old new
          then \<lambda>st. map (rewound (height + 1 + of_nat (common old new))) (accounts_rows L s st)
          else accounts_rows L s)"
  by (rule lmdb_store.sync_chain_eq[OF assms])

text \<open>
  C3: A daemon that is not trusted cannot change what a checkpoint covers: whatever chain it
  sends, if it is taken over then every block up to the last checkpoint is still in the table.
\<close>

theorem checkpoint_blocks_stay:
  assumes "lmdb_store L" and "accounts_inv L s" and "images_inv L s"
    and "contiguous_from L s low height (g # old)" and "unat height + length (g # new) < 2 ^ 64"
    and "sync_chain L cp height (g # new) False s = Inr s'"
    and "b \<in> set (blocks_rows L s)" and "bi_id b \<le> get_max_height cp"
  shows "b \<in> set (blocks_rows L s')"
proof -
  let ?n = "common old new"
  note m = lmdb_store.sync_chain_eq[OF assms(1-5), of False cp]
  have nf: "\<not> (forks old new \<and> height + 1 + of_nat ?n \<le> get_max_height cp)"
    using m assms(6) by auto
  have rows': "blocks_rows L s' = low @ chain_blocks height (g # merge_chain old new)"
    using m assms(6) nf by (auto split: if_splits)
  have rows: "blocks_rows L s = low @ chain_blocks height (g # old)"
    using assms(4) by (simp add: contiguous_from_def)
  show ?thesis
  proof (cases "forks old new")
    case True
    have "chain_blocks height (g # old) = chain_blocks height (g # take ?n old @ drop ?n old)" by simp
    also have "\<dots> = chain_blocks height (g # take ?n old) @ chain_blocks (height + 1 + of_nat ?n) (drop ?n old)"
      using common_le(1)[of old new] by (simp only: chain_blocks.simps chain_blocks_append length_take min_absorb2) simp
    finally have split: "chain_blocks height (g # old) = \<dots>" .
    have fork: "unat (height + 1 + of_nat ?n :: u64) = unat height + 1 + ?n"
    proof -
      have "height + 1 + of_nat ?n = (of_nat (unat height + 1 + ?n) :: u64)" by simp
      then show ?thesis using assms(5) common_le(2)[of old new]
        by (simp only: unat_of_nat) simp
    qed
    have "height + 1 + of_nat ?n \<le> bi_id b" if "b \<in> set (chain_blocks (height + 1 + of_nat ?n) (drop ?n old))"
      using chain_blocks_range[OF that] fork assms(4) common_le(1)[of old new]
      by (auto simp: word_le_nat_alt contiguous_from_def)
    with nf True assms(8) have "b \<notin> set (chain_blocks (height + 1 + of_nat ?n) (drop ?n old))" by auto
    with assms(7) have "b \<in> set (low @ chain_blocks height (g # take ?n old))"
      unfolding rows split by auto
    moreover have "set (chain_blocks height (g # take ?n old)) \<subseteq> set (chain_blocks height (g # merge_chain old new))"
      using True set_take_subset[of "Suc ?n" "chain_blocks height (g # new)"]
      by (simp add: merge_chain_def forks_def take_common take_chain_blocks)
    ultimately show ?thesis unfolding rows' by auto
  next
    case False
    then have "set (chain_blocks height (g # old)) \<subseteq> set (chain_blocks height (g # merge_chain old new))"
    proof -
      have "merge_chain old new = old @ drop ?n new" using merge_chain_eq[of old new] False by simp
      then show ?thesis by (auto simp: chain_blocks_append)
    qed
    with assms(7) show ?thesis unfolding rows rows' by auto
  qed
qed

lemma scan_checkpoints_ok:
  "scan_checkpoints cp c chain = Inr u \<Longrightarrow> i < length chain \<Longrightarrow> \<not> missed_checkpoint cp (c + of_nat i) (chain ! i)"
proof (induction chain arbitrary: c i)
  case (Cons x chain)
  then show ?case
    using Cons.IH[of "c + 1" "i - 1"] by (cases i) (auto simp: algebra_simps split: if_splits)
qed simp

lemma sync_pow_loop_checked:
  assumes "sync_pow_loop L cp c rows chain s = Inr (c', chain', s')"
  shows "\<exists>n \<le> length chain. chain' = drop n chain \<and> c' = c + of_nat n \<and>
    (\<forall>i < n. \<not> missed_checkpoint cp (c + of_nat i) (chain ! i))"
  using assms
proof (induction chain arbitrary: c rows s)
  case (Cons x chain)
  show ?case
  proof (cases "\<exists>b rows'. rows = b # rows' \<and> bi_id b = c \<and> bi_hash b = x")
    case True
    then obtain b rows' where r: "rows = b # rows'" "bi_id b = c" "bi_hash b = x" by blast
    with Cons.prems have ok: "\<not> missed_checkpoint cp c x"
      "sync_pow_loop L cp (c + 1) rows' chain s = Inr (c', chain', s')" by (auto split: if_splits)
    from Cons.IH[OF ok(2)] obtain n where n: "n \<le> length chain" "chain' = drop n chain" "c' = c + 1 + of_nat n"
      "\<forall>i < n. \<not> missed_checkpoint cp (c + 1 + of_nat i) (chain ! i)" by blast
    have "\<not> missed_checkpoint cp (c + of_nat i) ((x # chain) ! i)" if "i < Suc n" for i
      using n(4) ok(1) that by (cases i) (simp_all add: algebra_simps)
    with n show ?thesis by (intro exI[of _ "Suc n"]) (simp add: algebra_simps)
  next
    case False
    with Cons.prems have "chain' = x # chain" "c' = c"
      by (auto simp: check_Inr_iff split: if_splits list.splits)
    then show ?thesis by (intro exI[of _ 0]) simp
  qed
qed simp

text \<open>
  In the mode that checks the proof of work itself, no block that contradicts a checkpoint
  is ever stored: if the hashes are taken over, each of them that stands at the height of a
  checkpoint is the hash of that checkpoint. This needs no assumption on the database.
\<close>

theorem sync_pow_honours_checkpoints:
  assumes "sync_pow L cp height hashes pow s = Inr s'" and "0 < i" and "i < length hashes"
    and "map_of (get_points cp) (height + of_nat i) = Some point"
  shows "hashes ! i = point"
proof -
  obtain h0 chain where hs: "hashes = h0 # chain" using assms(3) by (cases hashes) auto
  from assms(1) obtain c' chain' s1 where
    loop: "sync_pow_loop L cp (height + 1) (blocks_after L height s) chain s = Inr (c', chain', s1)"
    and scan: "scan_checkpoints cp c' chain' = Inr ()"
    by (auto simp: sync_pow_def hs precond_def check_Inr_iff split: if_splits)
  from sync_pow_loop_checked[OF loop] obtain n where
    n: "n \<le> length chain" "chain' = drop n chain" "c' = height + 1 + of_nat n"
      "\<forall>i < n. \<not> missed_checkpoint cp (height + 1 + of_nat i) (chain ! i)" by blast
  obtain j where j: "i = Suc j" "j < length chain" using assms(2,3) hs by (cases i) auto
  have "\<not> missed_checkpoint cp (height + 1 + of_nat j) (chain ! j)"
  proof (cases "j < n")
    case False
    then have "\<not> missed_checkpoint cp (c' + of_nat (j - n)) (chain' ! (j - n))"
      using scan_checkpoints_ok[OF scan, of "j - n"] j n(1,2) by simp
    moreover have "c' + of_nat (j - n) = height + 1 + of_nat j"
      using False n(3) by (simp add: of_nat_diff)
    moreover have "chain' ! (j - n) = chain ! j" using False n(1,2) by simp
    ultimately show ?thesis by simp
  qed (use n in simp)
  with assms(4) show ?thesis
    by (simp add: missed_checkpoint_def hs j(1) algebra_simps)
qed

section \<open>Witnesses\<close>

definition demo_checkpoints :: checkpoints where
  "demo_checkpoints = \<lparr>get_points = [(0, 500), (4, 604)], get_max_height = 2\<rparr>"

lemma demo_contiguous: "contiguous_from log_lmdb demo [demo_block 0] 1 [501, 502, 503]"
  by (simp add: contiguous_from_def demo_blocks demo_block_def)

theorem sync_chain_merges_witness:
  "\<exists>s'. sync_chain log_lmdb demo_checkpoints 1 [501, 502, 603, 604] False demo = Inr s' \<and>
     map bi_hash (blocks_rows log_lmdb s') = [500, 501, 502, 603, 604] \<and>
     accounts_rows log_lmdb s' active = [demo_account\<lparr>a_scan_height := 2\<rparr>]"
proof -
  have n: "(3::u64) \<le> 3" "\<not> (3::u64) \<le> 2" "(1::u64) \<le> 2" by (simp_all add: word_le_nat_alt)
  show ?thesis
    using sync_chain_merges[OF log.lmdb_store_axioms demo_accounts_inv demo_images_inv demo_contiguous,
        of "[502, 603, 604]" False demo_checkpoints]
    by (auto simp: demo_checkpoints_def forks_def merge_chain_def demo_block_def demo_accounts rewound_def
        demo_account_def n)
qed

theorem checkpoint_blocks_stay_witness:
  "\<exists>s'. sync_chain log_lmdb demo_checkpoints 1 [501, 502, 603] False demo = Inr s' \<and>
     demo_block 2 \<in> set (blocks_rows log_lmdb s')"
proof -
  have c: "length [502, 603 :: hash] < 3" "unat (1::u64) + length [501, 502, 603 :: hash] < 2 ^ 64" by simp_all
  obtain s' where s': "sync_chain log_lmdb demo_checkpoints 1 [501, 502, 603] False demo = Inr s'"
    using lmdb_store.sync_chain_eq[OF log.lmdb_store_axioms demo_accounts_inv demo_images_inv demo_contiguous c(2),
        of False demo_checkpoints]
    by (auto simp: demo_checkpoints_def forks_def)
  have "demo_block 2 \<in> set (blocks_rows log_lmdb s')"
    by (rule checkpoint_blocks_stay[OF log.lmdb_store_axioms demo_accounts_inv demo_images_inv demo_contiguous c(2) s'])
      (simp_all add: demo_blocks demo_block_def demo_checkpoints_def)
  with s' show ?thesis by blast
qed

theorem sync_pow_honours_checkpoints_witness:
  "\<exists>s'. sync_pow log_lmdb demo_checkpoints 3 [503, 604]
       [\<lparr>sync_timestamp = 1003, sync_cumulative_diff = Block_difficulty 0 4\<rparr>,
        \<lparr>sync_timestamp = 1004, sync_cumulative_diff = Block_difficulty 0 5\<rparr>] demo = Inr s' \<and>
     [503, 604] ! 1 = (604 :: hash)"
proof -
  let ?pow = "[\<lparr>sync_timestamp = 1003, sync_cumulative_diff = Block_difficulty 0 4\<rparr>,
        \<lparr>sync_timestamp = 1004, sync_cumulative_diff = Block_difficulty 0 5\<rparr>]"
  have c: "contiguous_from log_lmdb demo (map demo_block [0, 1, 2]) 3 [503]"
    by (simp add: contiguous_from_def demo_blocks demo_block_def)
  have rng: "blocks_after log_lmdb 3 demo = []"
    unfolding blocks_after_def log.contiguous_range(1)[OF c] by simp
  have "get_both (blocks_m log_lmdb) bi_id (blocks_t demo) blocks_version 3 = Inr (demo_block 3)"
    by (simp add: demo_blocks) (simp add: demo_block_def)
  then have h: "do_get_block_hash log_lmdb 3 demo = Inr 503"
    unfolding do_get_block_hash_def by (simp only: lmdb_check_simps) (simp add: demo_block_def)
  obtain t1 where t1: "append_block_hashes log_lmdb 4 [604] demo = Inr (demo\<lparr>blocks_t := t1\<rparr>)"
    using log.append_block_hashes_eq by blast
  obtain t2 where t2: "append_pow log_lmdb 4 (drop 1 ?pow) (demo\<lparr>blocks_t := t1\<rparr>) = Inr (demo\<lparr>blocks_t := t1, pows_t := t2\<rparr>)"
    using log.append_pow_eq by blast
  have s': "sync_pow log_lmdb demo_checkpoints 3 [503, 604] ?pow demo = Inr (demo\<lparr>blocks_t := t1, pows_t := t2\<rparr>)"
    using t2 by (simp add: sync_pow_def h rng missed_checkpoint_def demo_checkpoints_def t1)
  have "[503, 604] ! 1 = (604 :: hash)"
    by (rule sync_pow_honours_checkpoints[OF s']) (simp_all add: demo_checkpoints_def)
  with s' show ?thesis by blast
qed

end
