(* ===== verification/Accounts.thy ===== *)
theory Accounts
  imports Chain
begin

text \<open>
  Accounts of \<open>src/src/db/storage.cpp\<close>: looking them up, access times, status changes, adding
  an account, and the requests of clients that wait for the administrator. The clock (seconds
  since the epoch) and the curve operation that gives the public key of a secret key are
  parameters.
\<close>

section \<open>The account tables as sets\<close>

definition acct_set :: "'t lmdb \<Rightarrow> 't tables \<Rightarrow> (account_status \<times> account) set" where
  "acct_set L s = rows_set (accounts_m L) (accounts_t s)"

definition height_set :: "'t lmdb \<Rightarrow> 't tables \<Rightarrow> (block_id \<times> account_lookup) set" where
  "height_set L s = rows_set (accounts_bh_m L) (accounts_bh_t s)"

definition height_entry :: "account_status \<times> account \<Rightarrow> block_id \<times> account_lookup" where
  "height_entry p = (a_scan_height (snd p), lookup_of (fst p) (snd p))"

definition address_entry :: "account_status \<times> account \<Rightarrow> account_by_address" where
  "address_entry p = \<lparr>ba_address = a_address (snd p), ba_lookup = lookup_of (fst p) (snd p)\<rparr>"

lemma acct_set_iff [simp]: "(st, a) \<in> acct_set L s \<longleftrightarrow> a \<in> set (accounts_rows L s st)"
  by (simp add: acct_set_def rows_set_def)

lemma height_set_iff [simp]: "(k, lk) \<in> height_set L s \<longleftrightarrow> lk \<in> set (by_height_rows L s k)"
  by (simp add: height_set_def rows_set_def)

lemma entries_inj:
  "height_entry p = height_entry q \<Longrightarrow> a_id (snd p) = a_id (snd q) \<and> fst p = fst q"
  "address_entry p = address_entry q \<Longrightarrow> a_id (snd p) = a_id (snd q) \<and> fst p = fst q"
  by (simp_all add: height_entry_def address_entry_def)

lemma image_remove: "(\<And>r. r \<in> A \<Longrightarrow> r \<noteq> p \<Longrightarrow> f r \<noteq> f p) \<Longrightarrow> f ` (A - {p}) = f ` A - {f p}"
  by auto

lemma image_swap: "p \<in> A \<Longrightarrow> (\<lambda>x. if x = p then q else x) ` A = insert q (A - {p})"
  by auto

context lmdb_store begin

lemma accounts_inv_sets:
  "accounts_inv L s \<longleftrightarrow>
     height_set L s = height_entry ` acct_set L s \<and>
     set (by_address_rows L s) = address_entry ` acct_set L s \<and>
     (\<forall>p \<in> acct_set L s. \<forall>q \<in> acct_set L s. a_id (snd p) = a_id (snd q) \<longrightarrow> p = q)"
  (is "_ \<longleftrightarrow> ?H \<and> ?B \<and> ?U")
proof
  assume inv: "accounts_inv L s"
  have ?H
  proof (intro set_eqI iffI)
    fix e assume "e \<in> height_set L s"
    then obtain k lk where e: "e = (k, lk)" "lk \<in> set (by_height_rows L s k)" by (cases e) auto
    from lookup_account[OF inv e(2)] obtain a where "a \<in> set (accounts_rows L s (al_status lk))"
      "a_scan_height a = k" "lookup_of (al_status lk) a = lk" by blast
    then show "e \<in> height_entry ` acct_set L s"
      by (intro image_eqI[of _ _ "(al_status lk, a)"]) (simp_all add: e height_entry_def)
  next
    fix e assume "e \<in> height_entry ` acct_set L s"
    then show "e \<in> height_set L s"
      using accounts_invD(2)[OF inv] by (auto simp: height_entry_def)
  qed
  moreover have ?B
  proof (intro set_eqI iffI)
    fix e assume "e \<in> set (by_address_rows L s)"
    from accounts_invD(4)[OF inv this] obtain a where "a \<in> set (accounts_rows L s (al_status (ba_lookup e)))"
      "a_id a = al_id (ba_lookup e)" "a_address a = ba_address e" by blast
    then show "e \<in> address_entry ` acct_set L s"
      by (intro image_eqI[of _ _ "(al_status (ba_lookup e), a)"])
        (simp_all add: address_entry_def lookup_of_def)
  next
    fix e assume "e \<in> address_entry ` acct_set L s"
    then show "e \<in> set (by_address_rows L s)"
      using accounts_invD(5)[OF inv] by (auto simp: address_entry_def)
  qed
  moreover have ?U
    using account_id_unique[OF inv] by auto
  ultimately show "?H \<and> ?B \<and> ?U" by blast
next
  assume sets: "?H \<and> ?B \<and> ?U"
  have A: "a \<in> set (accounts_rows L s st) \<longleftrightarrow> (st, a) \<in> acct_set L s" for st a by simp
  have H: "lk \<in> set (by_height_rows L s k) \<longleftrightarrow> (k, lk) \<in> height_entry ` acct_set L s" for k lk
    using sets by (simp flip: height_set_iff)
  have B: "e \<in> set (by_address_rows L s) \<longleftrightarrow> e \<in> address_entry ` acct_set L s" for e
    using sets by simp
  have U: "p = q" if "p \<in> acct_set L s" "q \<in> acct_set L s" "a_id (snd p) = a_id (snd q)" for p q
    using sets that by blast
  show "accounts_inv L s"
    unfolding accounts_inv_def
  proof (intro conjI allI ballI impI)
    fix k lk assume "lk \<in> set (by_height_rows L s k)"
    then obtain st a where "(st, a) \<in> acct_set L s" "(k, lk) = height_entry (st, a)" unfolding H by force
    then show "\<exists>a \<in> set (accounts_rows L s (al_status lk)). a_id a = al_id lk \<and> a_scan_height a = k"
      by (intro bexI[of _ a]) (simp_all add: height_entry_def)
  next
    fix st a assume "a \<in> set (accounts_rows L s st)"
    then show "lookup_of st a \<in> set (by_height_rows L s (a_scan_height a))"
      unfolding H A by (intro image_eqI[of _ _ "(st, a)"]) (simp_all add: height_entry_def)
  next
    fix st st' a a' assume "a \<in> set (accounts_rows L s st)" "a' \<in> set (accounts_rows L s st')" "a_id a = a_id a'"
    then show "st = st'" unfolding A using U[of "(st, a)" "(st', a')"] by simp
  next
    fix e assume "e \<in> set (by_address_rows L s)"
    then obtain st a where "(st, a) \<in> acct_set L s" "e = address_entry (st, a)" unfolding B by force
    then show "\<exists>a \<in> set (accounts_rows L s (al_status (ba_lookup e))). a_id a = al_id (ba_lookup e) \<and> a_address a = ba_address e"
      by (intro bexI[of _ a]) (simp_all add: address_entry_def)
  next
    fix st a assume "a \<in> set (accounts_rows L s st)"
    then show "\<lparr>ba_address = a_address a, ba_lookup = lookup_of st a\<rparr> \<in> set (by_address_rows L s)"
      unfolding B A by (intro image_eqI[of _ _ "(st, a)"]) (simp_all add: address_entry_def)
  qed
qed

lemma accounts_inv_replace:
  assumes "accounts_inv L s" "p \<in> acct_set L s" "a_id (snd q) = a_id (snd p)"
    and "acct_set L s' = insert q (acct_set L s - {p})"
    and "height_set L s' = insert (height_entry q) (height_set L s - {height_entry p})"
    and "set (by_address_rows L s') = insert (address_entry q) (set (by_address_rows L s) - {address_entry p})"
  shows "accounts_inv L s'"
proof -
  note inv = assms(1)[unfolded accounts_inv_sets]
  have U: "x = y" if "x \<in> acct_set L s" "y \<in> acct_set L s" "a_id (snd x) = a_id (snd y)" for x y
    using inv that by blast
  have ne: "height_entry r \<noteq> height_entry p" "address_entry r \<noteq> address_entry p"
    if "r \<in> acct_set L s" "r \<noteq> p" for r
    using entries_inj(1)[of r p] entries_inj(2)[of r p] U[OF that(1) assms(2)] that(2) by blast+
  have e: "height_entry ` (acct_set L s - {p}) = height_set L s - {height_entry p}"
    "address_entry ` (acct_set L s - {p}) = set (by_address_rows L s) - {address_entry p}"
    using image_remove[of "acct_set L s" p height_entry, OF ne(1)]
      image_remove[of "acct_set L s" p address_entry, OF ne(2)] inv[THEN conjunct1] inv[THEN conjunct2, THEN conjunct1]
    by simp_all
  have "r = r'" if r: "r \<in> acct_set L s'" "r' \<in> acct_set L s'" "a_id (snd r) = a_id (snd r')" for r r'
  proof (cases "r = q \<or> r' = q")
    case True
    have "x = q" if "x \<in> acct_set L s'" "a_id (snd x) = a_id (snd q)" for x
      using that U[of x p] assms(2-4) by auto
    with True r show ?thesis by metis
  next
    case False
    with r(1,2) have "r \<in> acct_set L s" "r' \<in> acct_set L s" unfolding assms(4) by blast+
    then show ?thesis using r(3) by (rule U)
  qed
  then have "\<forall>r \<in> acct_set L s'. \<forall>r' \<in> acct_set L s'. a_id (snd r) = a_id (snd r') \<longrightarrow> r = r'" by blast
  with e show ?thesis
    unfolding accounts_inv_sets unfolding assms(4-6) by (simp only: image_insert)
qed

lemma accounts_inv_insert:
  assumes "accounts_inv L s" "\<And>p. p \<in> acct_set L s \<Longrightarrow> a_id (snd p) \<noteq> a_id (snd q)"
    and "acct_set L s' = insert q (acct_set L s)"
    and "height_set L s' = insert (height_entry q) (height_set L s)"
    and "set (by_address_rows L s') = insert (address_entry q) (set (by_address_rows L s))"
  shows "accounts_inv L s'"
proof -
  note inv = assms(1)[unfolded accounts_inv_sets]
  have "\<forall>p \<in> acct_set L s'. \<forall>r \<in> acct_set L s'. a_id (snd p) = a_id (snd r) \<longrightarrow> p = r"
    using inv assms(2) unfolding assms(3) by (metis insertE)
  with inv show ?thesis unfolding accounts_inv_sets assms(3-5) by simp
qed

end

section \<open>Looking up accounts\<close>

definition get_account :: "'t lmdb \<Rightarrow> account_status \<Rightarrow> account_id \<Rightarrow> 't tables \<Rightarrow> error + account" where
  "get_account L status i s =
     (case get_both (accounts_m L) a_id (accounts_t s) status i of
        Inl e \<Rightarrow> if e = MDB_NOTFOUND then Inl (Lws account_not_found) else Inl (Mdb e)
      | Inr user \<Rightarrow> Inr user)"

text \<open>The index is sorted by view key only; the whole address is compared afterwards.\<close>

definition get_account_by_address :: "'t lmdb \<Rightarrow> account_address \<Rightarrow> 't tables \<Rightarrow> error + account_status \<times> account" where
  "get_account_by_address L address s =
     (case get_both (accounts_ba_m L) ba_view (accounts_ba_t s) by_address_version (view_public address) of
        Inl e \<Rightarrow> if e = MDB_NOTFOUND then Inl (Lws account_not_found) else Inl (Mdb e)
      | Inr value \<Rightarrow>
          if ba_address value \<noteq> address then Inl (Lws account_not_found)
          else
            let lookup = ba_lookup value in
            check (get_account L (al_status lookup) (al_id lookup) s) (\<lambda>user. Inr (al_status lookup, user)))"

definition get_request :: "'t lmdb \<Rightarrow> request \<Rightarrow> account_address \<Rightarrow> 't tables \<Rightarrow> error + request_info" where
  "get_request L type address s =
     lmdb_check (get_both (requests_m L) r_spend (requests_t s) type (spend_public address)) Inr"

text \<open>The row of the index for a view key, without a look at the spend key.\<close>

definition find_lookup :: "'t lmdb \<Rightarrow> account_address \<Rightarrow> 't tables \<Rightarrow> error + account_by_address" where
  "find_lookup L address s =
     (case get_both (accounts_ba_m L) ba_view (accounts_ba_t s) by_address_version (view_public address) of
        Inl e \<Rightarrow> if e = MDB_NOTFOUND then Inl (Lws account_not_found) else Inl (Mdb e)
      | Inr value \<Rightarrow> Inr value)"

definition get_account_time :: "int \<Rightarrow> error + account_time" where
  "get_account_time now =
     (if now < 0 then Inl (Lws system_clock_invalid_range)
      else if 2 ^ 32 - 1 < now then Inl (Lws system_clock_invalid_range)
      else Inr (word_of_int now))"

section \<open>Changing accounts\<close>

definition update_access_time :: "'t lmdb \<Rightarrow> int \<Rightarrow> account_address \<Rightarrow> 't tables \<Rightarrow> error + 't tables" where
  "update_access_time L now address s =
     check (get_account_time now) (\<lambda>current_time.
     check (find_lookup L address s) (\<lambda>value.
     (let lookup = ba_lookup value in
     lmdb_check (get_both (accounts_m L) a_id (accounts_t s) (al_status lookup) (al_id lookup)) (\<lambda>user.
     (let user = user\<lparr>a_access := current_time\<rparr> in
     lmdb_check (m_put (accounts_m L) MDB_CURRENT (al_status lookup) user (accounts_t s)) (\<lambda>t.
       Inr (s\<lparr>accounts_t := t\<rparr>)))))))"

definition change_status_one :: "'t lmdb \<Rightarrow> account_status \<Rightarrow> account_by_address \<Rightarrow> 't tables \<Rightarrow> error + 't tables" where
  "change_status_one L status by_address s =
     (let current = al_status (ba_lookup by_address) in
      if current = status then Inr s
      else
        let by_address = by_address\<lparr>ba_lookup := (ba_lookup by_address)\<lparr>al_status := status\<rparr>\<rparr> in
        lmdb_check (m_put (accounts_ba_m L) MDB_CURRENT by_address_version by_address (accounts_ba_t s)) (\<lambda>tba.
        lmdb_check (get_both (accounts_m L) a_id (accounts_t s) current (al_id (ba_lookup by_address))) (\<lambda>user.
        lmdb_check (m_del (accounts_m L) current user (accounts_t s)) (\<lambda>ta.
        lmdb_check (m_put (accounts_m L) MDB_NODUPDATA status user ta) (\<lambda>ta.
        lmdb_check (get_both (accounts_bh_m L) al_id (accounts_bh_t s) (a_scan_height user) (a_id user)) (\<lambda>_.
        lmdb_check (m_put (accounts_bh_m L) MDB_CURRENT (a_scan_height user) (ba_lookup by_address) (accounts_bh_t s)) (\<lambda>tbh.
          Inr (s\<lparr>accounts_ba_t := tba, accounts_t := ta, accounts_bh_t := tbh\<rparr>))))))))"

fun change_status :: "'t lmdb \<Rightarrow> account_status \<Rightarrow> account_address list \<Rightarrow> account_address list \<Rightarrow> 't tables \<Rightarrow>
    error + account_address list \<times> 't tables" where
  "change_status L status [] changed s = Inr (changed, s)"
| "change_status L status (address # addresses) changed s =
     (case get_both (accounts_ba_m L) ba_view (accounts_ba_t s) by_address_version (view_public address) of
        Inl e \<Rightarrow> if e = MDB_NOTFOUND then change_status L status addresses changed s else Inl (Mdb e)
      | Inr by_address \<Rightarrow>
          check (change_status_one L status by_address s) (\<lambda>s.
            change_status L status addresses (changed @ [address]) s))"

text \<open>The account is hidden when its flags are those of an administrator, and nothing else.\<close>

definition do_add_account :: "'t lmdb \<Rightarrow> (secret_key \<Rightarrow> public_key option) \<Rightarrow> account \<Rightarrow> 't tables \<Rightarrow> error + 't tables" where
  "do_add_account L to_public user s =
     (case to_public (a_key user) of
        None \<Rightarrow> Inl (Lws bad_view_key)
      | Some verify \<Rightarrow>
          if verify \<noteq> view_public (a_address user) then Inl (Lws bad_view_key)
          else
            let status = (if a_flags user = admin_account then hidden else active);
                by_address = \<lparr>ba_address = a_address user, ba_lookup = \<lparr>al_id = a_id user, al_status = status\<rparr>\<rparr> in
            case m_put (accounts_ba_m L) MDB_NODUPDATA by_address_version by_address (accounts_ba_t s) of
              Inl e \<Rightarrow> if e = MDB_KEYEXIST then Inl (Lws account_exists) else Inl (Mdb e)
            | Inr tba \<Rightarrow>
                lmdb_check (m_put (accounts_bh_m L) MDB_NODUPDATA (a_scan_height user) (ba_lookup by_address) (accounts_bh_t s)) (\<lambda>tbh.
                lmdb_check (m_put (accounts_m L) MDB_NODUPDATA status user (accounts_t s)) (\<lambda>ta.
                  Inr (s\<lparr>accounts_ba_t := tba, accounts_bh_t := tbh, accounts_t := ta\<rparr>))))"

definition find_last_id :: "'t lmdb \<Rightarrow> 't tables \<Rightarrow> account_id" where
  "find_last_id L s =
     fold (\<lambda>key best. max best (a_id (last (m_dups (accounts_m L) (accounts_t s) key))))
       (m_keys (accounts_m L) (accounts_t s)) 0"

definition add_account :: "'t lmdb \<Rightarrow> (secret_key \<Rightarrow> public_key option) \<Rightarrow> int \<Rightarrow> account_address \<Rightarrow> secret_key \<Rightarrow>
    account_flags \<Rightarrow> 't tables \<Rightarrow> error + 't tables" where
  "add_account L to_public now address key flags s =
     check (get_account_time now) (\<lambda>current_time.
     lmdb_check (get_last_dup (blocks_m L) (blocks_t s) blocks_version) (\<lambda>block.
     (let next_id = find_last_id L s + 1;
          height = bi_id block;
          user = \<lparr>a_id = next_id, a_access = current_time, a_address = address, a_key = key,
                  a_scan_height = height, a_start_height = height, a_creation = current_time,
                  a_flags = flags, a_lookahead = Address_index 0 0, a_lookahead_fail = 0\<rparr> in
       do_add_account L to_public user s)))"

section \<open>Requests\<close>

definition creation_request :: "'t lmdb \<Rightarrow> nat \<Rightarrow> int \<Rightarrow> account_address \<Rightarrow> secret_key \<Rightarrow> account_flags \<Rightarrow>
    address_index \<Rightarrow> 't tables \<Rightarrow> error + webhook_new_account list \<times> 't tables" where
  "creation_request L queue_max now address key flags lookahead s =
     (if queue_max = 0 then Inl (Lws create_queue_max)
      else
     check (get_account_time now) (\<lambda>current_time.
     (case get_both (accounts_ba_m L) ba_view (accounts_ba_t s) by_address_version (view_public address) of
        Inr _ \<Rightarrow> Inl (Lws account_exists)
      | Inl e \<Rightarrow>
     if e \<noteq> MDB_NOTFOUND then Inl (Mdb e)
     else if queue_max \<le> length (m_dups (requests_m L) (requests_t s) create)
          \<and> m_dups (requests_m L) (requests_t s) create \<noteq> [] then Inl (Lws create_queue_max)
     else lmdb_check (get_last_dup (blocks_m L) (blocks_t s) blocks_version) (\<lambda>block.
     (let info = \<lparr>r_address = address, r_key = key, r_start_height = bi_id block, r_creation = current_time,
                  r_creation_flags = flags, r_lookahead = lookahead\<rparr> in
      case m_put (requests_m L) MDB_NODUPDATA create info (requests_t s) of
        Inl e \<Rightarrow> if e = MDB_KEYEXIST then Inl (Lws duplicate_request) else Inl (Mdb e)
      | Inr t \<Rightarrow>
          let hooks = map (\<lambda>value. \<lparr>wn_value = value, wn_account = address\<rparr>)
                (m_dups (webhooks_m L) (webhooks_t s) (Webhook_key account_id_invalid new_account)) in
          Inr (hooks, s\<lparr>requests_t := t\<rparr>))))))"

definition import_request :: "'t lmdb \<Rightarrow> int \<Rightarrow> account_address \<Rightarrow> block_id \<Rightarrow> address_index \<Rightarrow> 't tables \<Rightarrow>
    error + 't tables" where
  "import_request L now address height lookahead s =
     check (get_account_time now) (\<lambda>current_time.
     check (find_lookup L address s) (\<lambda>_.
     (let info = \<lparr>r_address = address, r_key = 0, r_start_height = height, r_creation = 0,
                  r_creation_flags = 0, r_lookahead = lookahead\<rparr> in
      case m_put (requests_m L) MDB_NODUPDATA import_scan info (requests_t s) of
        Inl e \<Rightarrow> if e = MDB_KEYEXIST then Inl (Lws duplicate_request) else Inl (Mdb e)
      | Inr t \<Rightarrow> Inr (s\<lparr>requests_t := t\<rparr>))))"

definition shrink_lookahead :: "'t lmdb \<Rightarrow> account_address \<Rightarrow> address_index \<Rightarrow> 't tables \<Rightarrow> error + 't tables" where
  "shrink_lookahead L address lookahead s =
     check (find_lookup L address s) (\<lambda>value.
     (let lookup = ba_lookup value in
     lmdb_check (get_both (accounts_m L) a_id (accounts_t s) (al_status lookup) (al_id lookup)) (\<lambda>user.
     (if a_lookahead_fail user \<noteq> 0 \<or> maj_i (a_lookahead user) < maj_i lookahead \<or> min_i (a_lookahead user) < min_i lookahead
      then Inl (Lws max_subaddresses)
      else lmdb_check (m_put (accounts_m L) MDB_CURRENT (al_status lookup) (user\<lparr>a_lookahead := lookahead\<rparr>) (accounts_t s)) (\<lambda>t.
        Inr (s\<lparr>accounts_t := t\<rparr>))))))"

fun reject_loop :: "'t lmdb \<Rightarrow> request \<Rightarrow> account_address list \<Rightarrow> account_address list \<Rightarrow> 't tables \<Rightarrow>
    error + account_address list \<times> 't tables" where
  "reject_loop L req [] rejected s = Inr (rejected, s)"
| "reject_loop L req (address # addresses) rejected s =
     (case get_both (requests_m L) r_spend (requests_t s) req (spend_public address) of
        Inl e \<Rightarrow> if e = MDB_NOTFOUND then reject_loop L req addresses rejected s else Inl (Mdb e)
      | Inr info \<Rightarrow>
          lmdb_check (m_del (requests_m L) req info (requests_t s)) (\<lambda>t.
            reject_loop L req addresses (rejected @ [address]) (s\<lparr>requests_t := t\<rparr>)))"

definition reject_requests :: "'t lmdb \<Rightarrow> request \<Rightarrow> account_address list \<Rightarrow> 't tables \<Rightarrow>
    error + account_address list \<times> 't tables" where
  "reject_requests L req addresses s = reject_loop L req addresses [] s"

section \<open>What the operations do\<close>

lemma get_account_time_Inr: "get_account_time now = Inr t \<longleftrightarrow> 0 \<le> now \<and> now < 2 ^ 32 \<and> t = word_of_int now"
  by (auto simp: get_account_time_def)

context lmdb_store begin

lemma find_lookup_Inr:
  "find_lookup L address s = Inr e \<longleftrightarrow> e \<in> set (by_address_rows L s) \<and> view_public (ba_address e) = view_public address"
proof -
  have "find_lookup L address s = Inr e \<longleftrightarrow>
      get_both (accounts_ba_m L) ba_view (accounts_ba_t s) by_address_version (view_public address) = Inr e"
    by (cases "get_both (accounts_ba_m L) ba_view (accounts_ba_t s) by_address_version (view_public address)")
      (simp_all add: find_lookup_def del: accounts_ba.get_both_Inr_iff)
  then show ?thesis by (simp add: ba_view_def)
qed

lemma find_lookup_account:
  assumes "accounts_inv L s" "find_lookup L address s = Inr e"
  obtains a where "a \<in> set (accounts_rows L s (al_status (ba_lookup e)))" "a_id a = al_id (ba_lookup e)"
    "a_address a = ba_address e" "view_public (a_address a) = view_public address"
    "get_both (accounts_m L) a_id (accounts_t s) (al_status (ba_lookup e)) (al_id (ba_lookup e)) = Inr a"
proof -
  from assms(2) have e: "e \<in> set (by_address_rows L s)" "view_public (ba_address e) = view_public address"
    by (simp_all add: find_lookup_Inr)
  with accounts_invD(4)[OF assms(1) e(1)] that show ?thesis by fastforce
qed

text \<open>Writing an account back with the same id, address and scan height keeps the index.\<close>

lemma put_account_inv:
  assumes "accounts_inv L s" "a \<in> set (accounts_rows L s st)" "a_id u = a_id a" "a_address u = a_address a"
    "a_scan_height u = a_scan_height a"
  shows "m_put (accounts_m L) MDB_CURRENT st u (accounts_t s) = Inr (tput (accounts_m L) st u (accounts_t s))"
    and "accounts_inv L (s\<lparr>accounts_t := tput (accounts_m L) st u (accounts_t s)\<rparr>)" (is "accounts_inv L ?s")
    and "acct_set L (s\<lparr>accounts_t := tput (accounts_m L) st u (accounts_t s)\<rparr>) = insert (st, u) (acct_set L s - {(st, a)})"
proof -
  show "m_put (accounts_m L) MDB_CURRENT st u (accounts_t s) = Inr (tput (accounts_m L) st u (accounts_t s))"
    using assms(2,3) by (intro accounts.put_current_eq) (auto simp: has_row_def intro: image_eqI[of _ _ a])
  show A: "acct_set L ?s = insert (st, u) (acct_set L s - {(st, a)})"
    unfolding acct_set_def using accounts.rows_put_over[of st a "accounts_t s" u] assms(2,3) by (simp add: rows_set_def)
  have eq: "height_entry (st, u) = height_entry (st, a)" "address_entry (st, u) = address_entry (st, a)"
    using assms(3-5) by (simp_all add: height_entry_def address_entry_def lookup_of_def)
  have in_sets: "height_entry (st, a) \<in> height_set L s" "address_entry (st, a) \<in> set (by_address_rows L s)"
    using assms(1,2) unfolding accounts_inv_sets by force+
  have p: "(st, a) \<in> acct_set L s" using assms(2) by simp
  show "accounts_inv L ?s"
    by (rule accounts_inv_replace[OF assms(1) p _ A])
      (use assms(3) eq in_sets in \<open>auto simp: height_set_def\<close>)
qed

lemma update_access_time_eq:
  assumes "accounts_inv L s" "find_lookup L address s = Inr e" "get_account_time now = Inr t"
  shows "\<exists>a s'. update_access_time L now address s = Inr s' \<and> accounts_inv L s' \<and>
    a \<in> set (accounts_rows L s (al_status (ba_lookup e))) \<and> a_id a = al_id (ba_lookup e) \<and>
    acct_set L s' = insert (al_status (ba_lookup e), a\<lparr>a_access := t\<rparr>) (acct_set L s - {(al_status (ba_lookup e), a)})"
proof -
  let ?st = "al_status (ba_lookup e)"
  obtain a where a: "a \<in> set (accounts_rows L s ?st)" "a_id a = al_id (ba_lookup e)"
    "get_both (accounts_m L) a_id (accounts_t s) ?st (al_id (ba_lookup e)) = Inr a"
    using find_lookup_account[OF assms(1,2)] by blast
  note put = put_account_inv[OF assms(1) a(1), of "a\<lparr>a_access := t\<rparr>", simplified]
  show ?thesis
    using put(2,3) a(1,2) by (auto simp: update_access_time_def assms(2,3) a(3) put(1) Let_def)
qed

text \<open>An account moved to another status.\<close>

lemma view_unique:
  assumes "accounts_inv L s" "a \<in> set (accounts_rows L s st)" "b \<in> set (accounts_rows L s st')"
    "view_public (a_address a) = view_public (a_address b)"
  shows "a = b \<and> st = st'"
proof -
  have "address_entry (st, a) \<in> set (by_address_rows L s)" "address_entry (st', b) \<in> set (by_address_rows L s)"
    using accounts_invD(5)[OF assms(1)] assms(2,3) by (simp_all add: address_entry_def)
  then have "address_entry (st, a) = address_entry (st', b)"
    by (rule accounts_ba.row_unique) (use assms(4) in \<open>simp add: ba_view_def address_entry_def\<close>)
  then have "a_id a = a_id b" using entries_inj(2)[of "(st, a)" "(st', b)"] by simp
  with account_id_unique[OF assms(1-3)] show ?thesis by blast
qed

lemma change_status_one_eq:
  assumes "accounts_inv L s" "e \<in> set (by_address_rows L s)"
  shows "\<exists>s' a. change_status_one L status e s = Inr s' \<and> accounts_inv L s' \<and>
    a \<in> set (accounts_rows L s (al_status (ba_lookup e))) \<and> a_address a = ba_address e \<and>
    acct_set L s' = insert (status, a) (acct_set L s - {(al_status (ba_lookup e), a)})"
proof -
  let ?cur = "al_status (ba_lookup e)"
  obtain a where a: "a \<in> set (accounts_rows L s ?cur)" "a_id a = al_id (ba_lookup e)" "a_address a = ba_address e"
    using accounts_invD(4)[OF assms] by blast
  show ?thesis
  proof (cases "?cur = status")
    case True
    then have "change_status_one L status e s = Inr s" by (simp add: change_status_one_def)
    moreover have "acct_set L s = insert (status, a) (acct_set L s - {(?cur, a)})" using a(1) True by auto
    ultimately show ?thesis using assms(1) a by blast
  next
    case False
    let ?e = "e\<lparr>ba_lookup := (ba_lookup e)\<lparr>al_status := status\<rparr>\<rparr>"
    let ?tba = "tput (accounts_ba_m L) by_address_version ?e (accounts_ba_t s)"
    let ?ta1 = "tdel (accounts_m L) ?cur a (accounts_t s)"
    let ?ta = "tput (accounts_m L) status a ?ta1"
    let ?tbh = "tput (accounts_bh_m L) (a_scan_height a) ((ba_lookup e)\<lparr>al_status := status\<rparr>) (accounts_bh_t s)"
    let ?s = "s\<lparr>accounts_ba_t := ?tba, accounts_t := ?ta, accounts_bh_t := ?tbh\<rparr>"
    have e_eq: "e = address_entry (?cur, a)" "?e = address_entry (status, a)"
      using a(2,3) by (cases e; cases "ba_lookup e"; simp add: address_entry_def lookup_of_def)+
    have ga: "get_both (accounts_m L) a_id (accounts_t s) ?cur (al_id (ba_lookup e)) = Inr a" using a by simp
    have lke: "(ba_lookup e)\<lparr>al_status := status\<rparr> = lookup_of status a"
      using a(2) by (cases "ba_lookup e") (simp add: lookup_of_def)
    have lk: "lookup_of ?cur a \<in> set (by_height_rows L s (a_scan_height a))"
      by (rule accounts_invD(2)[OF assms(1) a(1)])
    have gh: "get_both (accounts_bh_m L) al_id (accounts_bh_t s) (a_scan_height a) (a_id a) = Inr (lookup_of ?cur a)"
      using lk by simp
    have p1: "m_put (accounts_ba_m L) MDB_CURRENT by_address_version ?e (accounts_ba_t s) = Inr ?tba"
      using assms(2) by (intro accounts_ba.put_current_eq) (auto simp: has_row_def ba_view_def intro: image_eqI[of _ _ e])
    have fresh: "\<not> has_row a_id (a_id a) (accounts_rows L s status)"
      using False account_id_unique[OF assms(1) a(1)] by (auto simp: has_row_def)
    have p2: "m_put (accounts_m L) MDB_NODUPDATA status a ?ta1 = Inr ?ta"
      using fresh a(1) False by simp
    have p3: "m_put (accounts_bh_m L) MDB_CURRENT (a_scan_height a) ((ba_lookup e)\<lparr>al_status := status\<rparr>) (accounts_bh_t s) = Inr ?tbh"
      using lk a(2) by (intro accounts_bh.put_current_eq) (auto simp: has_row_def intro: image_eqI[of _ _ "lookup_of ?cur a"])
    have run: "change_status_one L status e s = Inr ?s"
      using False a(1) by (simp add: change_status_one_def Let_def p1 ga p2 gh p3 fresh)
    have A: "acct_set L ?s = insert (status, a) (acct_set L s - {(?cur, a)})"
    proof -
      have "rows_set (accounts_m L) ?ta1 = acct_set L s - {(?cur, a)}"
        unfolding acct_set_def by (rule accounts.rows_del) (use a(1) in \<open>simp add: rows_set_def\<close>)
      moreover have "\<not> has_row a_id (a_id a) (m_dups (accounts_m L) ?ta1 status)" using fresh a(1) False by simp
      ultimately show ?thesis using accounts.rows_put_new by (simp add: acct_set_def)
    qed
    have "accounts_inv L ?s"
    proof (rule accounts_inv_replace[OF assms(1), of "(?cur, a)" "(status, a)"])
      have "(a_scan_height a, lookup_of ?cur a) \<in> rows_set (accounts_bh_m L) (accounts_bh_t s)"
        using lk by (simp add: rows_set_def)
      from accounts_bh.rows_put_over[OF this, of "ba_lookup ?e"] a(2)
      show "height_set L ?s = insert (height_entry (status, a)) (height_set L s - {height_entry (?cur, a)})"
        by (simp add: height_set_def height_entry_def lke)
      show "set (by_address_rows L ?s) = insert (address_entry (status, a)) (set (by_address_rows L s) - {address_entry (?cur, a)})"
        using accounts_ba.set_put_over[OF assms(2), of ?e] unfolding e_eq(2)[symmetric] e_eq(1)[symmetric]
        by (simp add: ba_view_def)
    qed (use a(1) A in simp_all)
    with run A a show ?thesis by blast
  qed
qed

end

definition has_view :: "'t lmdb \<Rightarrow> 't tables \<Rightarrow> account_address \<Rightarrow> bool" where
  "has_view L s address \<longleftrightarrow> (\<exists>p \<in> acct_set L s. view_public address = view_public (a_address (snd p)))"

definition restatus :: "account_status \<Rightarrow> account_address list \<Rightarrow> account_status \<times> account \<Rightarrow> account_status \<times> account" where
  "restatus status addresses p =
     (if view_public (a_address (snd p)) \<in> view_public ` set addresses then (status, snd p) else p)"

lemma restatus_Cons: "restatus status as (restatus status [a] p) = restatus status (a # as) p"
  by (simp add: restatus_def)

lemma restatus_snd [simp]: "snd (restatus status as p) = snd p"
  by (simp add: restatus_def)

lemma restatus_id: "(\<And>p. p \<in> A \<Longrightarrow> view_public (a_address (snd p)) \<noteq> view_public a) \<Longrightarrow>
    restatus status (a # as) ` A = restatus status as ` A"
  by (rule image_cong) (auto simp: restatus_def)

context lmdb_store begin

lemma has_view_row:
  assumes "accounts_inv L s"
  shows "has_view L s address \<longleftrightarrow> has_row ba_view (view_public address) (by_address_rows L s)"
proof -
  have B: "set (by_address_rows L s) = address_entry ` acct_set L s"
    using assms unfolding accounts_inv_sets by blast
  show ?thesis
    unfolding has_view_def has_row_def B image_image by (simp add: ba_view_def address_entry_def image_iff)
qed

lemma change_status_eq:
  assumes "accounts_inv L s"
  shows "\<exists>s'. change_status L status addresses changed s =
      Inr (changed @ filter (has_view L s) addresses, s') \<and>
    accounts_inv L s' \<and> acct_set L s' = restatus status addresses ` acct_set L s"
  using assms
proof (induction addresses arbitrary: changed s)
  case Nil
  then show ?case by (simp add: restatus_def)
next
  case (Cons a as)
  show ?case
  proof (cases "has_view L s a")
    case False
    then have nr: "\<not> has_row ba_view (view_public a) (by_address_rows L s)"
      using has_view_row[OF Cons.prems] by simp
    then have "get_both (accounts_ba_m L) ba_view (accounts_ba_t s) by_address_version (view_public a) = Inl MDB_NOTFOUND"
      by (simp add: accounts_ba.get_both_Inl_iff)
    then have "change_status L status (a # as) changed s = change_status L status as changed s" by simp
    moreover have "restatus status (a # as) ` acct_set L s = restatus status as ` acct_set L s"
      using False by (intro restatus_id) (auto simp: has_view_def simp del: acct_set_iff)
    ultimately show ?thesis using Cons.IH[OF Cons.prems, of changed] False by simp
  next
    case True
    then obtain e where e: "e \<in> set (by_address_rows L s)" "ba_view e = view_public a"
      using has_view_row[OF Cons.prems] by (auto simp: has_row_def)
    then have g: "get_both (accounts_ba_m L) ba_view (accounts_ba_t s) by_address_version (view_public a) = Inr e" by simp
    obtain s1 b where s1: "change_status_one L status e s = Inr s1" "accounts_inv L s1"
      "b \<in> set (accounts_rows L s (al_status (ba_lookup e)))" "a_address b = ba_address e"
      "acct_set L s1 = insert (status, b) (acct_set L s - {(al_status (ba_lookup e), b)})"
      using change_status_one_eq[OF Cons.prems e(1)] by blast
    have bv: "view_public (a_address b) = view_public a" using e(2) s1(4) by (simp add: ba_view_def)
    let ?p = "(al_status (ba_lookup e), b)"
    have p: "?p \<in> acct_set L s" using s1(3) by simp
    have uniq: "p = ?p" if "p \<in> acct_set L s" "view_public (a_address (snd p)) = view_public a" for p
      using view_unique[OF Cons.prems _ s1(3), of "snd p" "fst p"] that bv by (cases p) simp
    have "restatus status [a] ` acct_set L s = (\<lambda>p. if p = ?p then (status, b) else p) ` acct_set L s"
    proof (rule image_cong[OF refl])
      fix p assume "p \<in> acct_set L s"
      then show "restatus status [a] p = (if p = ?p then (status, b) else p)"
        using bv uniq[of p] by (cases "p = ?p") (auto simp: restatus_def)
    qed
    also have "\<dots> = insert (status, b) (acct_set L s - {?p})" by (rule image_swap[OF p])
    finally have A: "acct_set L s1 = restatus status [a] ` acct_set L s" unfolding s1(5) ..
    have hv: "has_view L s1 = has_view L s"
      by (simp add: has_view_def A fun_eq_iff)
    obtain s' where s': "change_status L status as (changed @ [a]) s1 = Inr ((changed @ [a]) @ filter (has_view L s1) as, s')"
      "accounts_inv L s'" "acct_set L s' = restatus status as ` acct_set L s1"
      using Cons.IH[OF s1(2), of "changed @ [a]"] by blast
    have "change_status L status (a # as) changed s = Inr (changed @ filter (has_view L s) (a # as), s')"
      using s'(1) True by (simp add: g s1(1) hv)
    moreover have "acct_set L s' = restatus status (a # as) ` acct_set L s"
      unfolding s'(3) A image_image restatus_Cons ..
    ultimately show ?thesis using s'(2) by blast
  qed
qed

end

definition initial_status :: "account_flags \<Rightarrow> account_status" where
  "initial_status flags = (if flags = admin_account then hidden else active)"

definition fresh_id :: "'t lmdb \<Rightarrow> 't tables \<Rightarrow> account_id \<Rightarrow> bool" where
  "fresh_id L s i \<longleftrightarrow> (\<forall>p \<in> acct_set L s. a_id (snd p) \<noteq> i)"

context lmdb_store begin

lemma do_add_account_eq:
  assumes "accounts_inv L s" "fresh_id L s (a_id user)"
  shows "if to_public (a_key user) \<noteq> Some (view_public (a_address user))
    then do_add_account L to_public user s = Inl (Lws bad_view_key)
    else if has_view L s (a_address user) then do_add_account L to_public user s = Inl (Lws account_exists)
    else \<exists>tba ta tbh. let s' = s\<lparr>accounts_ba_t := tba, accounts_bh_t := tbh, accounts_t := ta\<rparr> in
      do_add_account L to_public user s = Inr s' \<and> accounts_inv L s' \<and>
      acct_set L s' = insert (initial_status (a_flags user), user) (acct_set L s)"
proof (cases "to_public (a_key user) = Some (view_public (a_address user)) \<and> \<not> has_view L s (a_address user)")
  case False
  then show ?thesis
    using has_view_row[OF assms(1), of "a_address user"]
    by (auto simp: do_add_account_def Let_def ba_view_def split: option.splits)
next
  case True
  let ?st = "initial_status (a_flags user)"
  let ?e = "address_entry (?st, user)"
  let ?tba = "tput (accounts_ba_m L) by_address_version ?e (accounts_ba_t s)"
  let ?tbh = "tput (accounts_bh_m L) (a_scan_height user) (lookup_of ?st user) (accounts_bh_t s)"
  let ?ta = "tput (accounts_m L) ?st user (accounts_t s)"
  let ?s = "s\<lparr>accounts_ba_t := ?tba, accounts_bh_t := ?tbh, accounts_t := ?ta\<rparr>"
  have f1: "\<not> has_row ba_view (ba_view ?e) (by_address_rows L s)"
    using True has_view_row[OF assms(1)] by (simp add: ba_view_def address_entry_def)
  have f2: "\<not> has_row a_id (a_id user) (accounts_rows L s st)" for st
  proof
    assume "has_row a_id (a_id user) (accounts_rows L s st)"
    then obtain a where "(st, a) \<in> acct_set L s" "a_id a = a_id user" by (auto simp: has_row_def)
    with assms(2) show False unfolding fresh_id_def by (metis snd_conv)
  qed
  have f3: "\<not> has_row al_id (a_id user) (by_height_rows L s k)" for k
  proof
    assume "has_row al_id (a_id user) (by_height_rows L s k)"
    then obtain lk where lk: "lk \<in> set (by_height_rows L s k)" "al_id lk = a_id user" by (auto simp: has_row_def)
    obtain a where "a \<in> set (accounts_rows L s (al_status lk))" "a_id a = al_id lk"
      by (rule lookup_account[OF assms(1) lk(1)])
    with lk(2) f2[of "al_status lk"] show False unfolding has_row_def by (metis imageI)
  qed
  have run: "do_add_account L to_public user s = Inr ?s"
    using True f1 f2[of hidden] f2[of active] f3[of "a_scan_height user"]
    by (simp add: do_add_account_def Let_def initial_status_def address_entry_def lookup_of_def)
  have A: "acct_set L ?s = insert (?st, user) (acct_set L s)"
    using accounts.rows_put_new[OF f2] by (simp add: acct_set_def)
  have "accounts_inv L ?s"
  proof (rule accounts_inv_insert[OF assms(1), of "(?st, user)"])
    show "height_set L ?s = insert (height_entry (?st, user)) (height_set L s)"
      using accounts_bh.rows_put_new[of "lookup_of ?st user"] f3 by (simp add: height_set_def height_entry_def)
    show "set (by_address_rows L ?s) = insert (address_entry (?st, user)) (set (by_address_rows L s))"
      using accounts_ba.set_put_new[OF f1] by simp
    show "a_id (snd p) \<noteq> a_id (snd (?st, user))" if "p \<in> acct_set L s" for p
      using assms(2) that by (simp add: fresh_id_def)
  qed (rule A)
  with True run A show ?thesis unfolding Let_def by auto
qed

lemma find_last_id_ge:
  assumes "a \<in> set (accounts_rows L s st)"
  shows "a_id a \<le> find_last_id L s"
proof -
  have mono: "b \<le> fold (\<lambda>k best. max best (g k)) ks b" for g and ks :: "account_status list" and b :: account_id
    by (induction ks arbitrary: b) (auto intro: order_trans[OF max.cobounded1])
  have ge: "k \<in> set ks \<Longrightarrow> g k \<le> fold (\<lambda>k best. max best (g k)) ks b"
    for g k and ks :: "account_status list" and b :: account_id
    by (induction ks arbitrary: b) (auto intro: order_trans[OF max.cobounded2 mono])
  let ?rows = "accounts_rows L s st"
  have ne: "?rows \<noteq> []" using assms by auto
  have "a_id a \<le> a_id (last ?rows)"
  proof (cases "a = last ?rows")
    case False
    obtain xs where "?rows = xs @ [last ?rows]" using ne by (metis append_butlast_last_id)
    moreover from this False assms have "a \<in> set xs" by (metis rotate1.simps(2) set_ConsD set_rotate1)
    ultimately show ?thesis using accounts.dups_sorted[of "accounts_t s" st]
      by (metis list.set_intros(1) order_less_imp_le sorted_rows_append)
  qed simp
  also have "\<dots> \<le> find_last_id L s"
    unfolding find_last_id_def by (rule ge) (simp add: accounts.keys_iff ne)
  finally show ?thesis .
qed

lemma next_id_fresh: "find_last_id L s \<noteq> -1 \<Longrightarrow> fresh_id L s (find_last_id L s + 1)"
  unfolding fresh_id_def
proof
  fix p assume n: "find_last_id L s \<noteq> -1" and p: "p \<in> acct_set L s"
  have "a_id (snd p) \<le> find_last_id L s" using p find_last_id_ge by (cases p) simp
  moreover have "find_last_id L s < find_last_id L s + 1"
  proof -
    have "1 + find_last_id L s \<noteq> 0" using n by (metis add.inverse_unique)
    then show ?thesis by (simp add: word_less_nat_alt unatSuc add.commute)
  qed
  ultimately show "a_id (snd p) \<noteq> find_last_id L s + 1" by auto
qed

lemma get_account_by_address_iff:
  assumes "accounts_inv L s"
  shows "get_account_by_address L address s = Inr (st, a) \<longleftrightarrow> a \<in> set (accounts_rows L s st) \<and> a_address a = address"
proof
  assume r: "get_account_by_address L address s = Inr (st, a)"
  obtain e where e: "get_both (accounts_ba_m L) ba_view (accounts_ba_t s) by_address_version (view_public address) = Inr e"
    using r by (cases "get_both (accounts_ba_m L) ba_view (accounts_ba_t s) by_address_version (view_public address)")
      (auto simp: get_account_by_address_def split: if_splits simp del: accounts_ba.get_both_Inr_iff)
  then have row: "e \<in> set (by_address_rows L s)" by simp
  obtain b where b: "b \<in> set (accounts_rows L s (al_status (ba_lookup e)))" "a_id b = al_id (ba_lookup e)"
    "a_address b = ba_address e" using accounts_invD(4)[OF assms row] by blast
  then have "get_both (accounts_m L) a_id (accounts_t s) (al_status (ba_lookup e)) (al_id (ba_lookup e)) = Inr b" by simp
  then show "a \<in> set (accounts_rows L s st) \<and> a_address a = address"
    using r b unfolding get_account_by_address_def e get_account_def
    by (simp add: Let_def del: accounts.get_both_Inr_iff accounts_ba.get_both_Inr_iff split: if_splits)
next
  assume a: "a \<in> set (accounts_rows L s st) \<and> a_address a = address"
  then have "address_entry (st, a) \<in> set (by_address_rows L s)"
    using accounts_invD(5)[OF assms, of a st] by (simp add: address_entry_def)
  with a have e: "get_both (accounts_ba_m L) ba_view (accounts_ba_t s) by_address_version (view_public address) = Inr (address_entry (st, a))"
    by (simp add: ba_view_def address_entry_def)
  have "get_both (accounts_m L) a_id (accounts_t s) st (a_id a) = Inr a" using a by simp
  then show "get_account_by_address L address s = Inr (st, a)"
    using a unfolding get_account_by_address_def e get_account_def
    by (simp add: Let_def address_entry_def del: accounts.get_both_Inr_iff)
qed

lemma length_ins_row: "\<not> has_row f (f v) xs \<Longrightarrow> length (ins_row f v xs) = Suc (length xs)"
  for f :: "'y \<Rightarrow> 'z::linorder"
  by (induction xs) (auto simp: has_row_def)

lemma creation_request_eq:
  assumes "accounts_inv L s" "creation_request L queue_max now address key flags lookahead s = Inr (hooks, s')"
  shows "\<not> has_view L s address \<and> length (requests_rows L s' create) \<le> queue_max \<and>
    (\<exists>info t. s' = s\<lparr>requests_t := t\<rparr> \<and> r_address info = address \<and> r_key info = key \<and>
       r_start_height info = bi_id (last (blocks_rows L s)) \<and>
       \<not> has_row r_spend (spend_public address) (requests_rows L s create) \<and>
       requests_rows L s' = (requests_rows L s)(create := ins_row r_spend info (requests_rows L s create)))"
proof -
  let ?g = "get_both (accounts_ba_m L) ba_view (accounts_ba_t s) by_address_version (view_public address)"
  from assms(2) obtain ct where ct: "get_account_time now = Inr ct" "queue_max \<noteq> 0"
    by (auto simp: creation_request_def check_Inr_iff split: if_splits)
  have g: "?g = Inl MDB_NOTFOUND"
    using assms(2) ct
    by (cases ?g) (auto simp: creation_request_def split: if_splits simp del: accounts_ba.get_both_Inr_iff)
  have ne: "blocks_rows L s \<noteq> []"
    using assms(2) ct g by (auto simp: creation_request_def get_last_dup_def split: if_splits)
  let ?info = "\<lparr>r_address = address, r_key = key, r_start_height = bi_id (last (blocks_rows L s)), r_creation = ct,
                  r_creation_flags = flags, r_lookahead = lookahead\<rparr>"
  have nr: "\<not> has_row r_spend (r_spend ?info) (requests_rows L s create)"
    and len: "length (requests_rows L s create) < queue_max"
    and s': "s' = s\<lparr>requests_t := tput (requests_m L) create ?info (requests_t s)\<rparr>"
    using assms(2) ct g ne by (auto simp: creation_request_def get_last_dup_def Let_def split: if_splits)
  have "\<not> has_view L s address"
    using g unfolding has_view_row[OF assms(1)] by (simp add: accounts_ba.get_both_Inl_iff)
  with nr len show ?thesis
    by (intro conjI) (auto simp: s' length_ins_row r_spend_def intro!: exI[of _ ?info])
qed

end

section \<open>Properties\<close>

text \<open>
  Changing the status of accounts: the call succeeds, reports the addresses whose view key
  has an account (in the order given), moves exactly the accounts with those view keys to the new
  status without changing anything else of them, and keeps the indexes by address and by height
  consistent.
\<close>

theorem change_status_moves:
  assumes "lmdb_store L" and "accounts_inv L s"
  shows "\<exists>s'. change_status L status addresses [] s = Inr (filter (has_view L s) addresses, s') \<and>
    accounts_inv L s' \<and> acct_set L s' = restatus status addresses ` acct_set L s"
  using lmdb_store.change_status_eq[OF assms, of status addresses "[]"] by simp

theorem change_status_moves_witness:
  "\<exists>s'. change_status log_lmdb hidden [a_address demo_account] [] demo = Inr ([a_address demo_account], s') \<and>
     accounts_inv log_lmdb s' \<and> acct_set log_lmdb s' = {(hidden, demo_account), (inactive, demo_account2)}"
proof -
  have A: "acct_set log_lmdb demo = {(active, demo_account), (inactive, demo_account2)}"
    by (auto simp: demo_accounts split: account_status.splits)
  have v: "view_public (a_address demo_account) = 11" "view_public (a_address demo_account2) = 21"
    by (simp_all add: demo_account_def demo_account2_def)
  show ?thesis
    using change_status_moves[OF log.lmdb_store_axioms demo_accounts_inv, of hidden "[a_address demo_account]"]
    by (simp add: has_view_def A restatus_def v insert_commute del: change_status.simps)
qed

text \<open>
  Adding an account: it is refused when the view key is not the secret key of the address or
  when an account has the view key already (whatever its spend key); otherwise an account with a
  new id appears, scanned to the last block, active or (for an administrator) hidden, and every
  other account stays. The indexes stay consistent.
\<close>

theorem add_account_correct:
  assumes "lmdb_store L" and "accounts_inv L s" and "get_account_time now = Inr t"
    and "blocks_rows L s \<noteq> []" and "find_last_id L s \<noteq> -1"
  shows "if to_public key \<noteq> Some (view_public address)
    then add_account L to_public now address key flags s = Inl (Lws bad_view_key)
    else if has_view L s address then add_account L to_public now address key flags s = Inl (Lws account_exists)
    else \<exists>s' a. add_account L to_public now address key flags s = Inr s' \<and> accounts_inv L s' \<and>
      fresh_id L s (a_id a) \<and> a_address a = address \<and> a_key a = key \<and> a_flags a = flags \<and>
      a_scan_height a = bi_id (last (blocks_rows L s)) \<and> a_start_height a = a_scan_height a \<and>
      acct_set L s' = insert (initial_status flags, a) (acct_set L s)"
proof -
  define user where "user =
    \<lparr>a_id = find_last_id L s + 1, a_access = t, a_address = address, a_key = key,
     a_scan_height = bi_id (last (blocks_rows L s)), a_start_height = bi_id (last (blocks_rows L s)),
     a_creation = t, a_flags = flags, a_lookahead = Address_index 0 0, a_lookahead_fail = 0\<rparr>"
  have run: "add_account L to_public now address key flags s = do_add_account L to_public user s"
    using assms(3,4) by (simp add: add_account_def get_last_dup_def user_def Let_def)
  have fresh: "fresh_id L s (a_id user)"
    using lmdb_store.next_id_fresh[OF assms(1,5)] by (simp add: user_def)
  have u: "a_address user = address" "a_key user = key" "a_flags user = flags"
    "a_scan_height user = bi_id (last (blocks_rows L s))" "a_start_height user = a_scan_height user"
    by (simp_all add: user_def)
  note added = lmdb_store.do_add_account_eq[OF assms(1,2) fresh, of to_public, unfolded u(1-3)]
  show ?thesis
  proof (cases "to_public key = Some (view_public address) \<and> \<not> has_view L s address")
    case True
    with added obtain s' where "do_add_account L to_public user s = Inr s'" "accounts_inv L s'"
      "acct_set L s' = insert (initial_status flags, user) (acct_set L s)" by (auto simp: Let_def)
    with True u fresh show ?thesis unfolding run by auto
  qed (use added in \<open>auto simp: run\<close>)
qed

theorem add_account_correct_witness:
  "\<exists>s' a. add_account log_lmdb (\<lambda>k. Some (k + 1)) 1700000000 \<lparr>view_public = 31, spend_public = 32\<rparr> 30 admin_account demo = Inr s' \<and>
     accounts_inv log_lmdb s' \<and> a_scan_height a = 3 \<and> (hidden, a) \<in> acct_set log_lmdb s'"
proof -
  have A: "acct_set log_lmdb demo = {(active, demo_account), (inactive, demo_account2)}"
    by (auto simp: demo_accounts split: account_status.splits)
  have t: "get_account_time 1700000000 = Inr 1700000000" by (simp add: get_account_time_def)
  have b: "blocks_rows log_lmdb demo \<noteq> []" "bi_id (last (blocks_rows log_lmdb demo)) = 3"
    by (simp_all add: demo_blocks demo_block_def)
  have l: "find_last_id log_lmdb demo \<noteq> -1"
    by (simp add: find_last_id_def log_lmdb_def log_mdb_def demo_def demo_account_def demo_account2_def
        less_account_status_def max_def)
  have v: "\<not> has_view log_lmdb demo \<lparr>view_public = 31, spend_public = 32\<rparr>"
    by (simp add: has_view_def A demo_account_def demo_account2_def)
  show ?thesis
    using add_account_correct[OF log.lmdb_store_axioms demo_accounts_inv t b(1) l,
        of "\<lambda>k. Some (k + 1)" 30 "\<lparr>view_public = 31, spend_public = 32\<rparr>" admin_account] v b(2)
    by (auto simp: initial_status_def simp del: acct_set_iff)
qed

text \<open>
  Looking up an account by its address finds it exactly when an account with both keys of
  the address exists, with its status, although the index is sorted by the view key only.
\<close>

theorem get_account_by_address_finds:
  assumes "lmdb_store L" and "accounts_inv L s"
  shows "get_account_by_address L address s = Inr (st, a) \<longleftrightarrow>
    a \<in> set (accounts_rows L s st) \<and> a_address a = address"
  by (rule lmdb_store.get_account_by_address_iff[OF assms])

theorem get_account_by_address_finds_witness:
  "get_account_by_address log_lmdb \<lparr>view_public = 11, spend_public = 12\<rparr> demo = Inr (active, demo_account) \<and>
   get_account_by_address log_lmdb \<lparr>view_public = 11, spend_public = 13\<rparr> demo \<noteq> Inr (active, demo_account)"
  unfolding get_account_by_address_finds[OF log.lmdb_store_axioms demo_accounts_inv]
  by (simp add: demo_accounts demo_account_def)

text \<open>
  A request for an account is only queued when no account has the view key and no request
  has the spend key, the queue never grows beyond its limit, and the queued request holds the
  address, the key and the height of the last block.
\<close>

theorem creation_request_queues:
  assumes "lmdb_store L" and "accounts_inv L s"
    and "creation_request L queue_max now address key flags lookahead s = Inr (hooks, s')"
  shows "\<not> has_view L s address \<and> length (requests_rows L s' create) \<le> queue_max \<and>
    (\<exists>info t. s' = s\<lparr>requests_t := t\<rparr> \<and> r_address info = address \<and> r_key info = key \<and>
       r_start_height info = bi_id (last (blocks_rows L s)) \<and>
       \<not> has_row r_spend (spend_public address) (requests_rows L s create) \<and>
       requests_rows L s' = (requests_rows L s)(create := ins_row r_spend info (requests_rows L s create)))"
  by (rule lmdb_store.creation_request_eq[OF assms])

theorem creation_request_queues_witness:
  "\<exists>s'. creation_request log_lmdb 5 1700000000 \<lparr>view_public = 31, spend_public = 32\<rparr> 30 0 (Address_index 0 0) demo = Inr ([], s') \<and>
     length (requests_rows log_lmdb s' create) \<le> 5"
proof -
  let ?a = "\<lparr>view_public = 31, spend_public = 32\<rparr> :: account_address"
  have g: "get_both (accounts_ba_m log_lmdb) ba_view (accounts_ba_t demo) by_address_version (view_public ?a) = Inl MDB_NOTFOUND"
    by (simp add: log.accounts_ba.get_both_Inl_iff demo_by_address has_row_def ba_view_def demo_account_def demo_account2_def)
  have r: "requests_rows log_lmdb demo create = []" by (simp add: log_simps demo_def empty_tables_def)
  have w: "webhooks_rows log_lmdb demo k = []" for k by (simp add: log_simps demo_def empty_tables_def)
  obtain s' where s': "creation_request log_lmdb 5 1700000000 ?a 30 0 (Address_index 0 0) demo = Inr ([], s')"
    using g by (auto simp: creation_request_def get_account_time_def r w get_last_dup_def demo_blocks Let_def has_row_def)
  show ?thesis
    using creation_request_queues[OF log.lmdb_store_axioms demo_accounts_inv s'] s' by blast
qed

end
