(* ===== verification/Subaddress.thy ===== *)
theory Subaddress
  imports Accounts "HOL-Library.List_Lexorder"
begin

text \<open>
  Subaddresses of \<open>src/src/db/storage.cpp\<close> and \<open>src/src/db/data.cpp\<close>: the public keys of
  subaddresses and the merge of new ranges of subaddresses into the stored ones
  (\<open>do_upsert\<close>), with its callers and the lookups. The operations of the curve are a parameter.

  Callers go on after the error that the limit of subaddresses is exceeded and commit what was
  written before it, so these operations give the state also when they fail.
\<close>

section \<open>Public keys of subaddresses\<close>

record crypto =
  hash_key_subaddress :: span
  hash_to_scalar :: "span \<Rightarrow> secret_key"
  valid_secret :: "secret_key \<Rightarrow> bool"
  public_of :: "secret_key \<Rightarrow> public_key"
  add_keys :: "public_key \<Rightarrow> public_key \<Rightarrow> public_key"

definition secret_key_to_public_key :: "crypto \<Rightarrow> secret_key \<Rightarrow> public_key option" where
  "secret_key_to_public_key C k = (if valid_secret C k then Some (public_of C k) else None)"

definition get_subaddress_secret_key :: "crypto \<Rightarrow> secret_key \<Rightarrow> u32 \<Rightarrow> u32 \<Rightarrow> secret_key" where
  "get_subaddress_secret_key C a major minor =
     hash_to_scalar C (hash_key_subaddress C @ bytes_hash a @ bytes_u32 major @ bytes_u32 minor)"

definition get_spend_public :: "crypto \<Rightarrow> address_index \<Rightarrow> account_address \<Rightarrow> secret_key \<Rightarrow> public_key" where
  "get_spend_public C i base view =
     (if is_zero i then spend_public base
      else add_keys C (spend_public base) (public_of C (get_subaddress_secret_key C view (maj_i i) (min_i i))))"

section \<open>Counting\<close>

definition add_and_clamp :: "u32 \<Rightarrow> u32 \<Rightarrow> u32" where
  "add_and_clamp start count = (if -1 - count < start then -1 else start + count)"

text \<open>
  \<open>check_max_range\<close>: the number of subaddresses so far is a 64 bit integer, and the limit is
  converted to it.
\<close>

definition check_max_range :: "u32 \<Rightarrow> u64 \<Rightarrow> index_range \<Rightarrow> u64 option" where
  "check_max_range max_subaddr subaddr_count rng =
     (let more = snd rng - fst rng in
      if ucast max_subaddr - subaddr_count \<le> ucast more then None
      else Some (subaddr_count + ucast (more + 1)))"

fun check_max_ranges :: "u32 \<Rightarrow> u64 \<Rightarrow> index_ranges \<Rightarrow> u64 option" where
  "check_max_ranges max_subaddr subaddr_count [] = Some subaddr_count"
| "check_max_ranges max_subaddr subaddr_count (rng # rngs) =
     (case check_max_range max_subaddr subaddr_count rng of
        None \<Rightarrow> None
      | Some subaddr_count \<Rightarrow> check_max_ranges max_subaddr subaddr_count rngs)"

definition add_out :: "subaddress_dict list \<Rightarrow> major_index \<Rightarrow> index_range \<Rightarrow> subaddress_dict list" where
  "add_out out major minor =
     (if out = [] \<or> fst (last out) \<noteq> major then out @ [(major, [minor])]
      else butlast out @ [(major, snd (last out) @ [minor])])"

section \<open>Merging ranges\<close>

text \<open>
  The two loops that merge the new ranges of a major index with the stored ones. They give the
  merged ranges, the ranges that were added, and the new count; or nothing when the limit is
  exceeded. An old range that a new one overlaps is extended in place and stays the next to be
  looked at.
\<close>

type_synonym merge_state = "index_ranges \<times> subaddress_dict list \<times> u64"

fun merge_rest :: "u32 \<Rightarrow> major_index \<Rightarrow> index_ranges \<Rightarrow> merge_state \<Rightarrow> merge_state option" where
  "merge_rest max_subaddr major [] st = Some st"
| "merge_rest max_subaddr major (new_loc # new_range) (new_dict, out, subaddr_count) =
     (case check_max_range max_subaddr subaddr_count new_loc of
        None \<Rightarrow> None
      | Some subaddr_count \<Rightarrow>
          merge_rest max_subaddr major new_range (new_dict @ [new_loc], add_out out major new_loc, subaddr_count))"

text \<open>A new range that overlaps: the part before the old range, then the part after it.\<close>

definition extend_begin :: "u32 \<Rightarrow> major_index \<Rightarrow> index_range \<Rightarrow> index_range \<Rightarrow> subaddress_dict list \<times> u64 \<Rightarrow>
    (index_range \<times> subaddress_dict list \<times> u64) option" where
  "extend_begin max_subaddr major old_loc new_loc st =
     (if fst new_loc < fst old_loc then
        let new_range = (fst new_loc, fst old_loc - 1) in
        (case check_max_range max_subaddr (snd st) new_range of
           None \<Rightarrow> None
         | Some subaddr_count \<Rightarrow> Some ((fst new_loc, snd old_loc), add_out (fst st) major new_range, subaddr_count))
      else Some (old_loc, st))"

definition extend_end :: "u32 \<Rightarrow> major_index \<Rightarrow> index_range \<Rightarrow> index_range \<Rightarrow> subaddress_dict list \<times> u64 \<Rightarrow>
    (index_range \<times> subaddress_dict list \<times> u64) option" where
  "extend_end max_subaddr major old_loc new_loc st =
     (if snd old_loc < snd new_loc then
        let new_range = (snd old_loc + 1, snd new_loc) in
        (case check_max_range max_subaddr (snd st) new_range of
           None \<Rightarrow> None
         | Some subaddr_count \<Rightarrow> Some ((fst old_loc, snd new_loc), add_out (fst st) major new_range, subaddr_count))
      else Some (old_loc, st))"

function merge_ranges :: "u32 \<Rightarrow> major_index \<Rightarrow> index_ranges \<Rightarrow> index_ranges \<Rightarrow> merge_state \<Rightarrow> merge_state option" where
  "merge_ranges max_subaddr major [] new_range st = merge_rest max_subaddr major new_range st"
| "merge_ranges max_subaddr major (o1 # old_range) [] (new_dict, out, subaddr_count) =
     Some (new_dict @ o1 # old_range, out, subaddr_count)"
| "merge_ranges max_subaddr major (old_loc # old_range) (new_loc # new_range) (new_dict, out, subaddr_count) =
     (if unat (snd new_loc) + 1 < unat (fst old_loc) then
        (case check_max_range max_subaddr subaddr_count new_loc of
           None \<Rightarrow> None
         | Some subaddr_count \<Rightarrow>
             merge_ranges max_subaddr major (old_loc # old_range) new_range
               (new_dict @ [new_loc], add_out out major new_loc, subaddr_count))
      else if unat (snd old_loc) + 1 < unat (fst new_loc) then
        merge_ranges max_subaddr major old_range (new_loc # new_range) (new_dict @ [old_loc], out, subaddr_count)
      else if fst old_loc \<le> fst new_loc \<and> snd new_loc \<le> snd old_loc then
        merge_ranges max_subaddr major (old_loc # old_range) new_range (new_dict, out, subaddr_count)
      else
        (case extend_begin max_subaddr major old_loc new_loc (out, subaddr_count) of
           None \<Rightarrow> None
         | Some (old_loc, st) \<Rightarrow>
             (case extend_end max_subaddr major old_loc new_loc st of
                None \<Rightarrow> None
              | Some (old_loc, out, subaddr_count) \<Rightarrow>
                  merge_ranges max_subaddr major (old_loc # old_range) new_range (new_dict, out, subaddr_count))))"
  by pat_completeness auto
termination
  by (relation "measure (\<lambda>(m, j, old, new, st). length old + length new)") auto

section \<open>Upserts\<close>

text \<open>
  The step of \<open>do_upsert\<close> that finds the merged ranges of a major index. The stored row is
  deleted before the merge; it is written back at the end of the iteration.
\<close>

definition upsert_merge :: "'t lmdb \<Rightarrow> account_id \<Rightarrow> u32 \<Rightarrow> subaddress_dict \<Rightarrow> subaddress_dict list \<Rightarrow> u64 \<Rightarrow>
    't tables \<Rightarrow> 't tables \<times> (error + merge_state)" where
  "upsert_merge L i max_subaddr major_entry out subaddr_count s =
     (case get_both (subaddress_ranges_m L) fst (subaddress_ranges_t s) i (fst major_entry) of
        Inl e \<Rightarrow>
          if e \<noteq> MDB_NOTFOUND then (s, Inl (Mdb e))
          else
            (case check_max_ranges max_subaddr subaddr_count (snd major_entry) of
               None \<Rightarrow> (s, Inl (Lws max_subaddresses))
             | Some subaddr_count \<Rightarrow> (s, Inr (snd major_entry, out @ [major_entry], subaddr_count)))
      | Inr old_dict \<Rightarrow>
          (case m_del (subaddress_ranges_m L) i old_dict (subaddress_ranges_t s) of
             Inl e \<Rightarrow> (s, Inl (Mdb e))
           | Inr t \<Rightarrow>
               (s\<lparr>subaddress_ranges_t := t\<rparr>,
                case merge_ranges max_subaddr (fst major_entry) (snd old_dict) (snd major_entry) ([], out, subaddr_count) of
                  None \<Rightarrow> Inl (Lws max_subaddresses)
                | Some st \<Rightarrow> Inr st)))"

definition index_maps :: "crypto \<Rightarrow> account_address \<Rightarrow> secret_key \<Rightarrow> major_index \<Rightarrow> index_ranges \<Rightarrow> subaddress_map list" where
  "index_maps C address view_key major rngs =
     concat (map (\<lambda>rng. map (\<lambda>minor. let index = Address_index major (of_nat minor) in
         \<lparr>sub_subaddress = get_spend_public C index address view_key, sub_index = index\<rparr>)
       [unat (fst rng)..<unat (snd rng) + 1]) rngs)"

text \<open>Indexes that are present already are kept, as in \<open>bulk_insert\<close>.\<close>

fun upsert_loop :: "'t lmdb \<Rightarrow> crypto \<Rightarrow> account_id \<Rightarrow> account_address \<Rightarrow> secret_key \<Rightarrow> u32 \<Rightarrow>
    subaddress_dict list \<Rightarrow> subaddress_dict list \<Rightarrow> u64 \<Rightarrow> 't tables \<Rightarrow> 't tables \<times> (error + subaddress_dict list)" where
  "upsert_loop L C i address view_key max_subaddr [] out subaddr_count s = (s, Inr out)"
| "upsert_loop L C i address view_key max_subaddr (major_entry # subaddrs) out subaddr_count s =
     (if \<not> check_subaddress_dict major_entry then (s, Inl Schema_array)
      else case upsert_merge L i max_subaddr major_entry out subaddr_count s of
        (s, Inl e) \<Rightarrow> (s, Inl e)
      | (s, Inr (new_dict, out, subaddr_count)) \<Rightarrow>
          (case bulk_insert (subaddress_indexes_m L) MDB_NODUPDATA i
              (index_maps C address view_key (fst major_entry) new_dict) (subaddress_indexes_t s) of
             Inl e \<Rightarrow> (s, Inl e)
           | Inr t \<Rightarrow>
               let s = s\<lparr>subaddress_indexes_t := t\<rparr> in
               (case m_put (subaddress_ranges_m L) MDB_NODUPDATA i (fst major_entry, new_dict) (subaddress_ranges_t s) of
                  Inl e \<Rightarrow> (s, Inl (Mdb e))
                | Inr t \<Rightarrow>
                    upsert_loop L C i address view_key max_subaddr subaddrs out subaddr_count
                      (s\<lparr>subaddress_ranges_t := t\<rparr>))))"

definition do_upsert :: "'t lmdb \<Rightarrow> crypto \<Rightarrow> account_id \<Rightarrow> account_address \<Rightarrow> secret_key \<Rightarrow> subaddress_dict list \<Rightarrow>
    u32 \<Rightarrow> 't tables \<Rightarrow> 't tables \<times> (error + subaddress_dict list)" where
  "do_upsert L C i address view_key subaddrs max_subaddr s =
     (let subaddr_count = (of_nat (length (m_dups (subaddress_indexes_m L) (subaddress_indexes_t s) i)) :: u64) in
      if ucast max_subaddr < subaddr_count then (s, Inl (Lws max_subaddresses))
      else upsert_loop L C i address view_key max_subaddr subaddrs [] subaddr_count s)"

definition upsert_subaddresses :: "'t lmdb \<Rightarrow> crypto \<Rightarrow> account_id \<Rightarrow> account_address \<Rightarrow> secret_key \<Rightarrow>
    subaddress_dict list \<Rightarrow> u32 \<Rightarrow> 't tables \<Rightarrow> error + subaddress_dict list \<times> 't tables" where
  "upsert_subaddresses L C i address view_key subaddrs max_subaddr s =
     (case do_upsert L C i address view_key (sort subaddrs) max_subaddr s of
        (s, Inl e) \<Rightarrow> Inl e
      | (s, Inr out) \<Rightarrow> Inr (out, s))"

definition find_subaddress :: "'t lmdb \<Rightarrow> account_id \<Rightarrow> public_key \<Rightarrow> 't tables \<Rightarrow> error + address_index" where
  "find_subaddress L i address s =
     lmdb_check (get_both (subaddress_indexes_m L) sub_subaddress (subaddress_indexes_t s) i address) (\<lambda>m. Inr (sub_index m))"

definition get_subaddresses :: "'t lmdb \<Rightarrow> account_id \<Rightarrow> 't tables \<Rightarrow> error + subaddress_dict list" where
  "get_subaddresses L i s = Inr (m_dups (subaddress_ranges_m L) (subaddress_ranges_t s) i)"

section \<open>Merged ranges\<close>

definition valid_ranges :: "index_ranges \<Rightarrow> bool" where
  "valid_ranges rs \<longleftrightarrow> (\<forall>r \<in> set rs. fst r \<le> snd r)"

lemma valid_ranges_simps [simp]:
  "valid_ranges []" "valid_ranges (r # rs) \<longleftrightarrow> fst r \<le> snd r \<and> valid_ranges rs"
  "valid_ranges (xs @ ys) \<longleftrightarrow> valid_ranges xs \<and> valid_ranges ys"
  by (auto simp: valid_ranges_def)

lemma ranges_ok_valid: "ranges_ok rs \<Longrightarrow> valid_ranges rs"
  by (simp add: ranges_ok_def valid_ranges_def)

text \<open>Two ranges that overlap or touch, as one.\<close>

lemma interval_join:
  fixes a b c d :: u32
  assumes "a \<le> b" "c \<le> d" "\<not> unat d + 1 < unat a" "\<not> unat b + 1 < unat c"
  shows "{min a c..max b d} = {a..b} \<union> {c..d}"
  using assms by (auto simp: word_le_nat_alt min_def max_def)

lemma card_interval: "a \<le> b \<Longrightarrow> card {a..b} = unat b - unat a + 1" for a b :: u32
proof -
  assume "a \<le> b"
  have "unat ` {a..b} = {unat a..unat b}"
  proof (intro set_eqI iffI)
    fix n assume n: "n \<in> {unat a..unat b}"
    then have "n < 2 ^ 32" using unsigned_less[of b, where ?'a = nat] by simp
    then have u: "unat (of_nat n :: u32) = n" by (simp add: unat_of_nat)
    with n show "n \<in> unat ` {a..b}"
      by (intro image_eqI[of _ _ "of_nat n"]) (simp_all add: word_le_nat_alt u)
  qed (auto simp: word_le_nat_alt)
  moreover have "inj_on unat {a..b}" by (rule inj_onI) (simp add: word_unat_eq_iff)
  ultimately have "card {a..b} = card {unat a..unat b}" by (metis card_image)
  then show ?thesis using \<open>a \<le> b\<close> by (simp add: word_le_nat_alt)
qed

lemma unat_up: "unat (ucast x :: u64) = unat x" for x :: u32
  using unsigned_less[of x, where ?'a = nat]
  by (simp add: unsigned_ucast_eq unsigned_take_bit_eq take_bit_nat_eq_self)

lemma check_max_range_Some:
  assumes "check_max_range max_subaddr c r = Some c'" "fst r \<le> snd r" "unat c \<le> unat max_subaddr"
  shows "unat c' = unat c + card {fst r..snd r}" "unat c' \<le> unat max_subaddr"
proof -
  let ?m = "ucast max_subaddr :: u64" and ?more = "snd r - fst r"
  have um: "unat ?m = unat max_subaddr" by (simp add: unat_up)
  have more: "unat ?more = unat (snd r) - unat (fst r)" using assms(2) by (simp add: unat_sub word_le_nat_alt)
  have d: "unat (?m - c) = unat max_subaddr - unat c"
    using assms(3) um by (simp add: unat_sub word_le_nat_alt)
  from assms(1) have lt: "unat ?more < unat max_subaddr - unat c" and c': "c' = c + ucast (?more + 1)"
    by (auto simp: check_max_range_def Let_def word_le_nat_alt d unat_up split: if_splits)
  have b: "unat max_subaddr < 2 ^ 32" using unsigned_less[of max_subaddr, where ?'a = nat] by simp
  have m1: "unat (?more + 1) = unat ?more + 1"
    using lt b by (subst unat_add_lem[THEN iffD1]) auto
  have u: "unat (ucast (?more + 1) :: u64) = unat ?more + 1"
    using m1 by (simp add: unat_up)
  have "unat c' = unat c + (unat ?more + 1)"
    unfolding c' using lt b u by (subst unat_add_lem[THEN iffD1]) auto
  then show "unat c' = unat c + card {fst r..snd r}" "unat c' \<le> unat max_subaddr"
    using lt more card_interval[OF assms(2)] by auto
qed

lemma finite_range_members [simp]: "finite (range_members rs)"
  by (simp add: range_members_def)

text \<open>The subaddresses that a list of ranges by major index stands for.\<close>

definition dict_members :: "subaddress_dict list \<Rightarrow> address_index set" where
  "dict_members ds = (\<Union>d \<in> set ds. Address_index (fst d) ` range_members (snd d))"

lemma dict_members_simps [simp]:
  "dict_members [] = {}"
  "dict_members (d # ds) = Address_index (fst d) ` range_members (snd d) \<union> dict_members ds"
  "dict_members (ds @ es) = dict_members ds \<union> dict_members es"
  by (auto simp: dict_members_def)

lemma finite_address_index [simp]: "finite (A :: address_index set)"
proof -
  have "A \<subseteq> (\<lambda>(x, y). Address_index x y) ` UNIV"
    by (auto intro: image_eqI[of _ _ "(maj_i x, min_i x)" for x])
  then show ?thesis by (rule finite_subset) simp
qed

lemma dict_members_add_out: "dict_members (add_out out major r) = dict_members out \<union> Address_index major ` {fst r..snd r}"
proof (cases "out = [] \<or> fst (last out) \<noteq> major")
  case False
  then have out: "out = butlast out @ [last out]" "fst (last out) = major" by auto
  have "dict_members out = dict_members (butlast out) \<union> Address_index major ` range_members (snd (last out))"
    using out(2) by (subst out(1)) simp
  with False show ?thesis by (simp add: add_out_def image_Un Un_assoc)
qed (simp add: add_out_def)

text \<open>What a merge gives: the union of all ranges, the new ones reported, and the count.\<close>

definition merged :: "u32 \<Rightarrow> major_index \<Rightarrow> minor_index set \<Rightarrow> index_ranges \<Rightarrow> subaddress_dict list \<Rightarrow> u64 \<Rightarrow>
    merge_state \<Rightarrow> bool" where
  "merged max_subaddr major cover new out c st \<longleftrightarrow>
     (case st of (nd', out', c') \<Rightarrow>
        range_members nd' = cover \<union> range_members new \<and> valid_ranges nd' \<and>
        Address_index major ` (range_members new - cover) \<union> dict_members out \<subseteq> dict_members out' \<and>
        dict_members out' \<subseteq> dict_members out \<union> Address_index major ` range_members new \<and>
        card (cover \<union> range_members new) + unat c \<le> card cover + unat c' \<and>
        unat c' \<le> unat max_subaddr)"

text \<open>Going from one step of the merge to the next: a range is added to what is covered.\<close>

lemma merged_step:
  assumes m: "merged max_subaddr major (cover \<union> R) new out1 c1 st"
    and out1: "dict_members out1 = dict_members out \<union> Address_index major ` R"
    and c1: "unat c1 = unat c + card R"
    and new: "R \<subseteq> range_members new'" "range_members new \<subseteq> range_members new'"
      "range_members new' \<subseteq> cover \<union> R \<union> range_members new"
  shows "merged max_subaddr major cover new' out c st"
proof -
  obtain nd' out' c' where st: "st = (nd', out', c')" by (cases st) auto
  note m' = m[unfolded merged_def st prod.case]
  have un: "cover \<union> range_members new' = cover \<union> R \<union> range_members new" using new by auto
  have "card (cover \<union> R) \<le> card cover + card R" by (rule card_Un_le)
  then have "card (cover \<union> range_members new') + unat c \<le> card cover + unat c'"
    using m' c1 un by simp
  moreover have "x \<in> dict_members out'"
    if "x \<in> Address_index major ` (range_members new' - cover) \<union> dict_members out" for x
  proof (cases "x \<in> dict_members out1")
    case False
    with that out1 obtain y where y: "x = Address_index major y" "y \<in> range_members new'" "y \<notin> cover"
      "y \<notin> R" by blast
    then have "y \<in> range_members new - (cover \<union> R)" using new(3) by blast
    with m' y(1) show ?thesis by blast
  qed (use m' in blast)
  moreover have "x \<in> dict_members out \<union> Address_index major ` range_members new'" if "x \<in> dict_members out'" for x
  proof -
    have "x \<in> dict_members out1 \<union> Address_index major ` range_members new" using m' that by blast
    then show ?thesis using out1 new(1,2) by blast
  qed
  ultimately show ?thesis using m' un unfolding merged_def st prod.case by (intro conjI subsetI) simp_all
qed

lemma merge_rest_merged:
  assumes "merge_rest max_subaddr major new (nd, out, c) = Some st" "valid_ranges nd" "valid_ranges new"
    "unat c \<le> unat max_subaddr"
  shows "merged max_subaddr major (range_members nd) new out c st"
  using assms
proof (induction new arbitrary: nd out c)
  case Nil
  then show ?case by (auto simp: merged_def)
next
  case (Cons r new)
  from Cons.prems(1) obtain c1 where c1: "check_max_range max_subaddr c r = Some c1"
    "merge_rest max_subaddr major new (nd @ [r], add_out out major r, c1) = Some st"
    by (auto split: option.splits)
  have r: "fst r \<le> snd r" using Cons.prems(3) by simp
  note cr = check_max_range_Some[OF c1(1) r Cons.prems(4)]
  have "merged max_subaddr major (range_members (nd @ [r])) new (add_out out major r) c1 st"
    using Cons.IH[OF c1(2)] Cons.prems r cr by simp
  then show ?case
    by (intro merged_step[where R = "{fst r..snd r}" and new = new, OF _ dict_members_add_out cr(1)]) auto
qed

text \<open>The two halves of an overlap.\<close>

lemma pred_interval:
  fixes a b d :: u32
  assumes "a < b" "\<not> unat d + 1 < unat b" "b \<le> e"
  shows "a \<le> b - 1" "{a..b - 1} \<subseteq> {a..d}" "{a..e} = {b..e} \<union> {a..b - 1}"
proof -
  have u: "unat (b - 1) = unat b - 1" using assms(1) by (subst unat_minus_one) auto
  show "a \<le> b - 1" "{a..b - 1} \<subseteq> {a..d}" "{a..e} = {b..e} \<union> {a..b - 1}"
    using assms u by (auto simp: word_le_nat_alt word_less_nat_alt)
qed

lemma succ_interval:
  fixes a b d :: u32
  assumes "b < d" "\<not> unat b + 1 < unat c" "a \<le> b"
  shows "b + 1 \<le> d" "{b + 1..d} \<subseteq> {c..d}" "{a..d} = {a..b} \<union> {b + 1..d}"
proof -
  have "unat b + 1 < 2 ^ 32" using assms(1) unsigned_less[of d, where ?'a = nat] by (simp add: word_less_nat_alt)
  then have u: "unat (b + 1) = unat b + 1" by (subst unat_add_lem[THEN iffD1]) auto
  show "b + 1 \<le> d" "{b + 1..d} \<subseteq> {c..d}" "{a..d} = {a..b} \<union> {b + 1..d}"
    using assms u by (auto simp: word_le_nat_alt word_less_nat_alt)
qed

lemma extend_begin_Some:
  assumes "extend_begin max_subaddr major o1 n1 (out, c) = Some (o2, out1, c1)" "fst o1 \<le> snd o1"
    "\<not> unat (snd n1) + 1 < unat (fst o1)" "unat c \<le> unat max_subaddr"
  obtains R where "R \<subseteq> {fst n1..snd n1}" "dict_members out1 = dict_members out \<union> Address_index major ` R"
    "unat c1 = unat c + card R" "unat c1 \<le> unat max_subaddr" "{fst o2..snd o2} = {fst o1..snd o1} \<union> R"
    "fst o2 = min (fst n1) (fst o1)" "snd o2 = snd o1"
proof (cases "fst n1 < fst o1")
  case True
  note iv = pred_interval[OF True assms(3,2)]
  from True assms(1) have c: "check_max_range max_subaddr c (fst n1, fst o1 - 1) = Some c1"
    "o2 = (fst n1, snd o1)" "out1 = add_out out major (fst n1, fst o1 - 1)"
    by (auto simp: extend_begin_def Let_def split: option.splits)
  show ?thesis
    using that[OF iv(2)] check_max_range_Some[OF c(1) _ assms(4)] iv(1,3) True
    by (simp add: c(2,3) dict_members_add_out)
next
  case False
  with assms(1) have "o2 = o1" "out1 = out" "c1 = c" by (auto simp: extend_begin_def)
  with that[of "{}"] False assms(4) show ?thesis by (simp add: min_def)
qed

lemma extend_end_Some:
  assumes "extend_end max_subaddr major o1 n1 (out, c) = Some (o2, out1, c1)" "fst o1 \<le> snd o1"
    "\<not> unat (snd o1) + 1 < unat (fst n1)" "unat c \<le> unat max_subaddr"
  obtains R where "R \<subseteq> {fst n1..snd n1}" "dict_members out1 = dict_members out \<union> Address_index major ` R"
    "unat c1 = unat c + card R" "unat c1 \<le> unat max_subaddr" "{fst o2..snd o2} = {fst o1..snd o1} \<union> R"
    "fst o2 = fst o1" "snd o2 = max (snd o1) (snd n1)"
proof (cases "snd o1 < snd n1")
  case True
  note iv = succ_interval[OF True assms(3,2)]
  from True assms(1) have c: "check_max_range max_subaddr c (snd o1 + 1, snd n1) = Some c1"
    "o2 = (fst o1, snd n1)" "out1 = add_out out major (snd o1 + 1, snd n1)"
    by (auto simp: extend_end_def Let_def split: option.splits)
  show ?thesis
    using that[OF iv(2)] check_max_range_Some[OF c(1) _ assms(4)] iv(1,3) True
    by (simp add: c(2,3) dict_members_add_out)
next
  case False
  with assms(1) have "o2 = o1" "out1 = out" "c1 = c" by (auto simp: extend_end_def)
  with that[of "{}"] False assms(4) show ?thesis by (simp add: max_def)
qed

lemma merge_ranges_merged:
  assumes "merge_ranges max_subaddr major old new (nd, out, c) = Some st" "valid_ranges nd" "valid_ranges old"
    "valid_ranges new" "unat c \<le> unat max_subaddr"
  shows "merged max_subaddr major (range_members nd \<union> range_members old) new out c st"
  using assms
proof (induction "length old + length new" arbitrary: old new nd out c rule: less_induct)
  case less
  show ?case
  proof (cases old)
    case Nil
    with less.prems merge_rest_merged show ?thesis by simp
  next
    case o: (Cons o1 os)
    show ?thesis
    proof (cases new)
      case Nil
      with less.prems o show ?thesis by (auto simp: merged_def)
    next
      case n: (Cons n1 ns)
      have ov: "fst o1 \<le> snd o1" "valid_ranges os" and nv: "fst n1 \<le> snd n1" "valid_ranges ns"
        using less.prems(3,4) o n by simp_all
      note prems = less.prems(1)[unfolded o n merge_ranges.simps]
      consider (before) "unat (snd n1) + 1 < unat (fst o1)"
        | (after) "\<not> unat (snd n1) + 1 < unat (fst o1)" "unat (snd o1) + 1 < unat (fst n1)"
        | (within) "\<not> unat (snd n1) + 1 < unat (fst o1)" "\<not> unat (snd o1) + 1 < unat (fst n1)" "fst o1 \<le> fst n1 \<and> snd n1 \<le> snd o1"
        | (overlap) "\<not> unat (snd n1) + 1 < unat (fst o1)" "\<not> unat (snd o1) + 1 < unat (fst n1)" "\<not> (fst o1 \<le> fst n1 \<and> snd n1 \<le> snd o1)"
        by blast
      then show ?thesis
      proof cases
        case before
        with prems obtain c1 where c1: "check_max_range max_subaddr c n1 = Some c1"
          "merge_ranges max_subaddr major (o1 # os) ns (nd @ [n1], add_out out major n1, c1) = Some st"
          by (auto split: option.splits)
        note cr = check_max_range_Some[OF c1(1) nv(1) less.prems(5)]
        have "merged max_subaddr major (range_members (nd @ [n1]) \<union> range_members old) ns (add_out out major n1) c1 st"
          using less.hyps[of "o1 # os" ns, OF _ c1(2)] less.prems nv cr o n by simp
        then have "merged max_subaddr major ((range_members nd \<union> range_members old) \<union> {fst n1..snd n1}) ns (add_out out major n1) c1 st"
          by (simp add: Un_ac)
        then show ?thesis
          unfolding n by (rule merged_step[OF _ dict_members_add_out cr(1)]) auto
      next
        case after
        with prems have "merge_ranges max_subaddr major os (n1 # ns) (nd @ [o1], out, c) = Some st" by simp
        then have "merged max_subaddr major (range_members (nd @ [o1]) \<union> range_members os) new out c st"
          using less.hyps[of os "n1 # ns" "nd @ [o1]" out c] less.prems ov n o by simp
        then show ?thesis by (simp add: o Un_ac)
      next
        case within
        with prems have "merge_ranges max_subaddr major (o1 # os) ns (nd, out, c) = Some st" by simp
        then have m: "merged max_subaddr major (range_members nd \<union> range_members old) ns out c st"
          using less.hyps[of "o1 # os" ns nd out c] less.prems nv o n by simp
        have n1: "{fst n1..snd n1} \<subseteq> range_members old" using within(3) o by auto
        have m0: "merged max_subaddr major (range_members nd \<union> range_members old \<union> {}) ns out c st" using m by simp
        show ?thesis
          unfolding n by (rule merged_step[OF m0]) (use n1 in auto)
      next
        case overlap
        with prems obtain o2 out1 c1 o3 out2 c2 where
          e1: "extend_begin max_subaddr major o1 n1 (out, c) = Some (o2, out1, c1)" and
          e2: "extend_end max_subaddr major o2 n1 (out1, c1) = Some (o3, out2, c2)" and
          rest: "merge_ranges max_subaddr major (o3 # os) ns (nd, out2, c2) = Some st"
          by (auto split: option.splits)
        obtain R where R: "R \<subseteq> {fst n1..snd n1}" "dict_members out1 = dict_members out \<union> Address_index major ` R"
          "unat c1 = unat c + card R" "unat c1 \<le> unat max_subaddr" "{fst o2..snd o2} = {fst o1..snd o1} \<union> R"
          "fst o2 = min (fst n1) (fst o1)" "snd o2 = snd o1"
          by (rule extend_begin_Some[OF e1 ov(1) overlap(1) less.prems(5)])
        have o2v: "fst o2 \<le> snd o2" using R(6,7) ov(1) by (simp add: min.coboundedI2)
        have "\<not> unat (snd o2) + 1 < unat (fst n1)" using R(7) overlap(2) by simp
        then obtain Q where Q: "Q \<subseteq> {fst n1..snd n1}" "dict_members out2 = dict_members out1 \<union> Address_index major ` Q"
          "unat c2 = unat c1 + card Q" "unat c2 \<le> unat max_subaddr" "{fst o3..snd o3} = {fst o2..snd o2} \<union> Q"
          "fst o3 = fst o2" "snd o3 = max (snd o2) (snd n1)"
          using extend_end_Some[OF e2 o2v _ R(4)] by blast
        have o3v: "fst o3 \<le> snd o3" using Q(6,7) o2v by (simp add: le_max_iff_disj)
        have n1: "{fst n1..snd n1} \<subseteq> {fst o3..snd o3}" using Q(6,7) R(6) by (auto simp: le_max_iff_disj min_le_iff_disj)
        have "merged max_subaddr major (range_members nd \<union> range_members (o3 # os)) ns out2 c2 st"
          using less.hyps[of "o3 # os" ns nd out2 c2, OF _ rest] less.prems nv ov o3v o n Q(4) by simp
        then have m2: "merged max_subaddr major (range_members nd \<union> range_members old \<union> R \<union> Q) ns out2 c2 st"
          using Q(5) R(5) by (simp add: o Un_ac)
        have n1': "{fst n1..snd n1} \<subseteq> range_members old \<union> R \<union> Q" using n1 Q(5) R(5) by (auto simp: o)
        have m1: "merged max_subaddr major (range_members nd \<union> range_members old \<union> R) (n1 # ns) out1 c1 st"
          by (rule merged_step[OF m2 Q(2,3)]) (use Q(1) n1' in auto)
        show ?thesis
          unfolding n by (rule merged_step[OF m1 R(2,3)]) (use R(1) in auto)
      qed
    qed
  qed
qed

lemma check_max_ranges_Some:
  assumes "check_max_ranges max_subaddr c rs = Some c'" "valid_ranges rs" "unat c \<le> unat max_subaddr"
  shows "unat c + card (range_members rs) \<le> unat c'" "unat c' \<le> unat max_subaddr"
proof -
  have "unat c + card (range_members rs) \<le> unat c' \<and> unat c' \<le> unat max_subaddr"
    using assms
  proof (induction rs arbitrary: c)
    case (Cons r rs)
    then obtain c1 where c1: "check_max_range max_subaddr c r = Some c1" "check_max_ranges max_subaddr c1 rs = Some c'"
      by (auto split: option.splits)
    have r: "fst r \<le> snd r" "valid_ranges rs" using Cons.prems(2) by simp_all
    note cr = check_max_range_Some[OF c1(1) r(1) Cons.prems(3)]
    have "card (range_members (r # rs)) \<le> card {fst r..snd r} + card (range_members rs)"
      by (simp add: card_Un_le)
    with Cons.IH[OF c1(2) r(2) cr(2)] cr show ?case by simp
  qed simp
  then show "unat c + card (range_members rs) \<le> unat c'" "unat c' \<le> unat max_subaddr" by auto
qed

section \<open>What an upsert does\<close>

definition sub_key :: "crypto \<Rightarrow> account_address \<Rightarrow> secret_key \<Rightarrow> address_index \<Rightarrow> subaddress_map" where
  "sub_key C address view_key index =
     \<lparr>sub_subaddress = get_spend_public C index address view_key, sub_index = index\<rparr>"

text \<open>The table of public keys holds exactly the subaddresses of the ranges.\<close>

definition sub_inv :: "'t lmdb \<Rightarrow> crypto \<Rightarrow> account_id \<Rightarrow> account_address \<Rightarrow> secret_key \<Rightarrow> 't tables \<Rightarrow> bool" where
  "sub_inv L C i address view_key s \<longleftrightarrow>
     set (indexes_rows L s i) = sub_key C address view_key ` dict_members (ranges_rows L s i) \<and>
     (\<forall>d \<in> set (ranges_rows L s i). valid_ranges (snd d))"

lemma inj_sub_key: "inj_on (sub_key C a vk) A"
  by (rule inj_onI) (simp add: sub_key_def)

lemma set_index_maps:
  "set (index_maps C a vk major rngs) = sub_key C a vk ` Address_index major ` range_members rngs"
proof -
  have "(of_nat :: nat \<Rightarrow> u32) ` {unat x..<unat y + 1} = {x..y}" for x y :: u32
  proof (intro set_eqI iffI)
    fix z :: u32 assume "z \<in> of_nat ` {unat x..<unat y + 1}"
    then obtain n where n: "z = of_nat n" "unat x \<le> n" "n \<le> unat y" by auto
    then have "n < 2 ^ 32" using unsigned_less[of y, where ?'a = nat] by simp
    then have "unat z = n" using n(1) by (simp add: unat_of_nat)
    with n show "z \<in> {x..y}" by (simp add: word_le_nat_alt)
  next
    fix z :: u32 assume "z \<in> {x..y}"
    then show "z \<in> of_nat ` {unat x..<unat y + 1}"
      by (intro image_eqI[of _ _ "unat z"]) (simp_all add: word_le_nat_alt)
  qed
  then have e: "sub_key C a vk ` Address_index major ` {fst r..snd r} =
      (\<lambda>m. sub_key C a vk (Address_index major (of_nat m))) ` {unat (fst r)..<unat (snd r) + 1}" for r :: index_range
    by (metis (no_types, lifting) image_cong image_image)
  show ?thesis
    unfolding index_maps_def range_members_def image_UN e Let_def sub_key_def[symmetric]
    by (simp only: set_concat set_map set_upt image_image)
qed

definition old_ranges :: "subaddress_dict list \<Rightarrow> major_index \<Rightarrow> index_ranges" where
  "old_ranges rows major = (case find_row fst major rows of None \<Rightarrow> [] | Some d \<Rightarrow> snd d)"

lemma del_row_absent: "\<not> has_row sk f xs \<Longrightarrow> del_row sk f xs = xs"
  by (induction xs) (auto simp: has_row_def del_row_def)

lemma dict_members_split:
  assumes "sorted_rows fst rows"
  shows "dict_members rows = Address_index major ` range_members (old_ranges rows major) \<union> dict_members (del_row fst major rows)"
proof (cases "find_row fst major rows")
  case None
  then have "del_row fst major rows = rows" by (intro del_row_absent) (simp add: find_row_None_iff)
  with None show ?thesis by (simp add: old_ranges_def)
next
  case (Some d)
  then have d: "d \<in> set rows" "fst d = major" using find_row_Some[OF Some] by auto
  have "e = d" if "e \<in> set rows" "fst e = major" for e
    using sorted_rows_inj[OF assms that(1) d(1)] that(2) d(2) by simp
  then have "set rows = insert d (set rows \<inter> {e. fst e \<noteq> major})" using d(1) by blast
  then have "set rows = insert d (set (del_row fst major rows))" by (simp only: del_row_def set_filter) blast
  then have "dict_members rows = Address_index (fst d) ` range_members (snd d) \<union> dict_members (del_row fst major rows)"
    by (simp add: dict_members_def)
  with Some d(2) show ?thesis by (simp only: old_ranges_def option.case)
qed

lemma dict_members_ins:
  assumes "sorted_rows fst rows" "\<not> has_row fst major rows"
  shows "dict_members (ins_row fst (major, rs) rows) = Address_index major ` range_members rs \<union> dict_members rows"
proof -
  have "set (ins_row fst (major, rs) rows) = insert (major, rs) (set rows)"
    using assms by (auto simp: set_ins_row has_row_def image_iff)
  then show ?thesis by (simp add: dict_members_def)
qed

text \<open>
  What one entry, and then a list of entries, does to the stored subaddresses \<open>D\<close>, the
  report and the count; \<open>N\<close> is what is asked for.
\<close>

definition upserted :: "u32 \<Rightarrow> address_index set \<Rightarrow> address_index set \<Rightarrow> subaddress_dict list \<Rightarrow> u64 \<Rightarrow>
    address_index set \<Rightarrow> subaddress_dict list \<Rightarrow> u64 \<Rightarrow> bool" where
  "upserted max_subaddr D N out c D' out' c' \<longleftrightarrow>
     D' = D \<union> N \<and> (N - D) \<union> dict_members out \<subseteq> dict_members out' \<and>
     dict_members out' \<subseteq> dict_members out \<union> N \<and>
     card D' + unat c \<le> card D + unat c' \<and> unat c' \<le> unat max_subaddr"

lemma upserted_trans:
  assumes "upserted m D N out c D1 out1 c1" "upserted m D1 M out1 c1 D2 out2 c2"
  shows "upserted m D (N \<union> M) out c D2 out2 c2"
  using assms unfolding upserted_def by auto

lemma merged_upserted:
  assumes m: "merged max_subaddr major (range_members old) new out c (nd, out', c')"
    and rest: "\<And>x. x \<in> rest \<Longrightarrow> maj_i x \<noteq> major"
  shows "upserted max_subaddr (Address_index major ` range_members old \<union> rest)
    (Address_index major ` range_members new) out c
    (Address_index major ` range_members nd \<union> rest) out' c'"
proof -
  have disj: "Address_index major ` X \<inter> rest = {}" for X using rest by fastforce
  have cd: "card (Address_index major ` X \<union> rest) = card X + card rest" if "finite X" for X
    using that disj[of X] by (subst card_Un_disjoint) (auto simp: card_image inj_on_def)
  have "Address_index major ` range_members new - (Address_index major ` range_members old \<union> rest) \<subseteq>
      Address_index major ` (range_members new - range_members old)" by auto
  also have "\<dots> \<subseteq> dict_members out'" using m by (simp add: merged_def)
  finally have "Address_index major ` range_members new - (Address_index major ` range_members old \<union> rest) \<subseteq> dict_members out'" .
  moreover have "card (Address_index major ` (range_members old \<union> range_members new) \<union> rest) + unat c \<le>
      card (Address_index major ` range_members old \<union> rest) + unat c'"
    using m by (simp add: cd merged_def)
  ultimately show ?thesis
    using m unfolding upserted_def merged_def by (simp add: image_Un Un_ac)
qed

lemma merged_fresh:
  assumes "check_max_ranges max_subaddr c new = Some c'" "valid_ranges new" "unat c \<le> unat max_subaddr"
  shows "merged max_subaddr major {} new out c (new, out @ [(major, new)], c')"
  using check_max_ranges_Some[OF assms] assms(2) by (auto simp: merged_def)

context lmdb_store begin

lemma upsert_merge_Some:
  assumes u: "upsert_merge L i max_subaddr e out c s = (s1, Inr (nd, out', c'))"
    and ok: "valid_ranges (snd e)" "\<And>d. d \<in> set (ranges_rows L s i) \<Longrightarrow> valid_ranges (snd d)"
    and c: "unat c \<le> unat max_subaddr"
  shows "merged max_subaddr (fst e) (range_members (old_ranges (ranges_rows L s i) (fst e))) (snd e) out c (nd, out', c')"
    and "\<exists>t. s1 = s\<lparr>subaddress_ranges_t := t\<rparr> \<and>
      ranges_rows L s1 = (ranges_rows L s)(i := del_row fst (fst e) (ranges_rows L s i))"
proof -
  have "merged max_subaddr (fst e) (range_members (old_ranges (ranges_rows L s i) (fst e))) (snd e) out c (nd, out', c') \<and>
    (\<exists>t. s1 = s\<lparr>subaddress_ranges_t := t\<rparr> \<and>
      ranges_rows L s1 = (ranges_rows L s)(i := del_row fst (fst e) (ranges_rows L s i)))"
  proof (cases "find_row fst (fst e) (ranges_rows L s i)")
    case None
    then have nr: "del_row fst (fst e) (ranges_rows L s i) = ranges_rows L s i"
      by (intro del_row_absent) (simp add: find_row_None_iff)
    from None u have 1: "check_max_ranges max_subaddr c (snd e) = Some c'" "s1 = s" "nd = snd e" "out' = out @ [e]"
      by (auto simp: upsert_merge_def get_both_def split: option.splits)
    have "\<exists>t. s1 = s\<lparr>subaddress_ranges_t := t\<rparr> \<and>
      ranges_rows L s1 = (ranges_rows L s)(i := del_row fst (fst e) (ranges_rows L s i))"
      by (rule exI[of _ "subaddress_ranges_t s"]) (simp add: 1(2) nr)
    with merged_fresh[OF 1(1) ok(1) c, of "fst e" out] 1(3,4) None show ?thesis
      by (simp add: old_ranges_def)
  next
    case (Some d)
    then have d: "d \<in> set (ranges_rows L s i)" "fst d = fst e" using find_row_Some[OF Some] by auto
    have g: "get_both (subaddress_ranges_m L) fst (subaddress_ranges_t s) i (fst e) = Inr d"
      using Some by (simp add: get_both_def)
    let ?t = "tdel (subaddress_ranges_m L) i d (subaddress_ranges_t s)"
    have 1: "s1 = s\<lparr>subaddress_ranges_t := ?t\<rparr>"
      "merge_ranges max_subaddr (fst e) (snd d) (snd e) ([], out, c) = Some (nd, out', c')"
      using u d(1) by (auto simp: upsert_merge_def g simp del: subaddress_ranges.get_both_Inr_iff split: option.splits)
    have "merged max_subaddr (fst e) (range_members (snd d)) (snd e) out c (nd, out', c')"
      using merge_ranges_merged[OF 1(2) _ ok(2)[OF d(1)] ok(1) c] by simp
    moreover have "ranges_rows L s1 = (ranges_rows L s)(i := del_row fst (fst e) (ranges_rows L s i))"
      using subaddress_ranges.dups_tdel[OF d(1)] by (simp add: 1(1) d(2))
    ultimately show ?thesis using 1(1) Some by (auto simp: old_ranges_def)
  qed
  then show "merged max_subaddr (fst e) (range_members (old_ranges (ranges_rows L s i) (fst e))) (snd e) out c (nd, out', c')"
    "\<exists>t. s1 = s\<lparr>subaddress_ranges_t := t\<rparr> \<and>
      ranges_rows L s1 = (ranges_rows L s)(i := del_row fst (fst e) (ranges_rows L s i))" by blast+
qed

lemma upsert_step:
  assumes u: "upsert_loop L C i a vk max_subaddr (e # es) out c s = (s', Inr r)"
    and inv: "sub_inv L C i a vk s"
    and inj: "inj_on (\<lambda>x. get_spend_public C x a vk) (dict_members (ranges_rows L s i) \<union> dict_members [e])"
    and c: "unat c \<le> unat max_subaddr"
  obtains tr ti out1 c1 where
    "upsert_loop L C i a vk max_subaddr es out1 c1 (s\<lparr>subaddress_ranges_t := tr, subaddress_indexes_t := ti\<rparr>) = (s', Inr r)"
    "sub_inv L C i a vk (s\<lparr>subaddress_ranges_t := tr, subaddress_indexes_t := ti\<rparr>)"
    "upserted max_subaddr (dict_members (ranges_rows L s i)) (dict_members [e]) out c
       (dict_members (m_dups (subaddress_ranges_m L) tr i)) out1 c1"
    "\<And>j. j \<noteq> i \<Longrightarrow> m_dups (subaddress_ranges_m L) tr j = ranges_rows L s j \<and>
       m_dups (subaddress_indexes_m L) ti j = indexes_rows L s j"
proof -
  let ?D = "dict_members (ranges_rows L s i)" and ?rows = "del_row fst (fst e) (ranges_rows L s i)"
  have vi: "set (indexes_rows L s i) = sub_key C a vk ` ?D"
    and vr: "\<And>d. d \<in> set (ranges_rows L s i) \<Longrightarrow> valid_ranges (snd d)"
    using inv by (auto simp: sub_inv_def)
  from u have ok: "check_subaddress_dict e" by (simp split: if_splits)
  then have ve: "valid_ranges (snd e)" by (simp add: check_subaddress_dict_iff ranges_ok_valid)
  obtain s1 nd out1 c1 where m: "upsert_merge L i max_subaddr e out c s = (s1, Inr (nd, out1, c1))"
    using u ok by (auto split: prod.splits sum.splits)
  note mm = upsert_merge_Some(1)[OF m ve vr c]
  obtain t where s1: "s1 = s\<lparr>subaddress_ranges_t := t\<rparr>" and t: "ranges_rows L s1 = (ranges_rows L s)(i := ?rows)"
    using upsert_merge_Some(2)[OF m ve vr c] by blast
  let ?maps = "index_maps C a vk (fst e) nd"
  obtain ti where ti: "bulk_insert (subaddress_indexes_m L) MDB_NODUPDATA i ?maps (subaddress_indexes_t s1) = Inr ti"
    and dti: "m_dups (subaddress_indexes_m L) ti = (indexes_rows L s)(i := fold (ins_new sub_subaddress) ?maps (indexes_rows L s i))"
    using subaddress_indexes.bulk_insert_nodup[of i ?maps "subaddress_indexes_t s1"] by (auto simp: s1)
  have srt: "sorted_rows fst (ranges_rows L s i)" by simp
  have nr: "\<not> has_row fst (fst e) ?rows" by (auto simp: has_row_def set_del_row)
  let ?tr = "tput (subaddress_ranges_m L) i (fst e, nd) t"
  have trr: "m_dups (subaddress_ranges_m L) t = (ranges_rows L s)(i := ?rows)" using t by (simp add: s1)
  have dtr: "m_dups (subaddress_ranges_m L) ?tr = (ranges_rows L s)(i := ins_row fst (fst e, nd) ?rows)"
    by (simp add: trr fun_eq_iff)
  let ?s = "s\<lparr>subaddress_ranges_t := ?tr, subaddress_indexes_t := ti\<rparr>"
  have comm: "s\<lparr>subaddress_indexes_t := ti, subaddress_ranges_t := x\<rparr> = s\<lparr>subaddress_ranges_t := x, subaddress_indexes_t := ti\<rparr>" for x
    by simp
  have 1: "upsert_loop L C i a vk max_subaddr es out1 c1 ?s = (s', Inr r)"
    using u ok nr ti by (simp add: m Let_def s1 trr comm)
  have D': "dict_members (m_dups (subaddress_ranges_m L) ?tr i) = Address_index (fst e) ` range_members nd \<union> dict_members ?rows"
    using dict_members_ins[OF _ nr, of nd] srt by (simp add: trr sorted_del_row)
  have rest: "maj_i x \<noteq> fst e" if "x \<in> dict_members ?rows" for x
    using that by (auto simp: dict_members_def set_del_row)
  have ups: "upserted max_subaddr ?D (dict_members [e]) out c (dict_members (m_dups (subaddress_ranges_m L) ?tr i)) out1 c1"
    using merged_upserted[OF mm rest] unfolding D' dict_members_split[OF srt, of "fst e"] by simp
  have D'': "dict_members (m_dups (subaddress_ranges_m L) ?tr i) = ?D \<union> dict_members [e]"
    using ups by (simp add: upserted_def)
  have sub: "set (indexes_rows L s i) \<union> set ?maps = sub_key C a vk ` (?D \<union> Address_index (fst e) ` range_members nd)"
    unfolding vi set_index_maps by (rule image_Un[symmetric])
  have sub': "?D \<union> Address_index (fst e) ` range_members nd = ?D \<union> dict_members [e]"
    using D' D'' mm dict_members_split[OF srt, of "fst e"] by (auto simp: merged_def)
  have injm: "inj_on sub_subaddress (set (indexes_rows L s i) \<union> set ?maps)"
    unfolding sub sub' using inj by (auto simp: inj_on_def sub_key_def)
  have idx: "set (m_dups (subaddress_indexes_m L) ti i) = sub_key C a vk ` dict_members (m_dups (subaddress_ranges_m L) ?tr i)"
    using ins_new_inj[OF _ injm] sub unfolding D'' sub' by (simp add: dti)
  have vnd: "valid_ranges nd" using mm by (simp add: merged_def)
  have "set (m_dups (subaddress_ranges_m L) ?tr i) \<subseteq> insert (fst e, nd) (set (ranges_rows L s i))"
    using srt by (auto simp only: dtr fun_upd_same set_ins_row sorted_del_row set_del_row)
  then have "valid_ranges (snd d)" if "d \<in> set (m_dups (subaddress_ranges_m L) ?tr i)" for d
    using that vr[of d] vnd by auto
  then have "sub_inv L C i a vk ?s" using idx by (simp add: sub_inv_def)
  from that[OF 1 this ups] show ?thesis by (simp add: trr dti)
qed

lemma upsert_loop_ok:
  assumes "upsert_loop L C i a vk max_subaddr es out c s = (s', Inr r)" "sub_inv L C i a vk s"
    "inj_on (\<lambda>x. get_spend_public C x a vk) (dict_members (ranges_rows L s i) \<union> dict_members es)"
    "unat c \<le> unat max_subaddr"
  shows "\<exists>tr ti c'. s' = s\<lparr>subaddress_ranges_t := tr, subaddress_indexes_t := ti\<rparr> \<and> sub_inv L C i a vk s' \<and>
    upserted max_subaddr (dict_members (ranges_rows L s i)) (dict_members es) out c (dict_members (ranges_rows L s' i)) r c' \<and>
    (\<forall>j. j \<noteq> i \<longrightarrow> ranges_rows L s' j = ranges_rows L s j \<and> indexes_rows L s' j = indexes_rows L s j)"
  using assms
proof (induction es arbitrary: out c s)
  case Nil
  then have "s' = s" "r = out" by auto
  with Nil(2,4) show ?case
    by (intro exI[of _ "subaddress_ranges_t s"] exI[of _ "subaddress_indexes_t s"]) (auto simp: upserted_def)
next
  case (Cons e es)
  have "inj_on (\<lambda>x. get_spend_public C x a vk) (dict_members (ranges_rows L s i) \<union> dict_members [e])"
    using Cons.prems(3) by (rule inj_on_subset) auto
  then obtain tr ti out1 c1 where st: "upsert_loop L C i a vk max_subaddr es out1 c1 (s\<lparr>subaddress_ranges_t := tr, subaddress_indexes_t := ti\<rparr>) = (s', Inr r)"
    "sub_inv L C i a vk (s\<lparr>subaddress_ranges_t := tr, subaddress_indexes_t := ti\<rparr>)"
    "upserted max_subaddr (dict_members (ranges_rows L s i)) (dict_members [e]) out c
       (dict_members (m_dups (subaddress_ranges_m L) tr i)) out1 c1"
    and fr: "\<And>j. j \<noteq> i \<Longrightarrow> m_dups (subaddress_ranges_m L) tr j = ranges_rows L s j \<and>
       m_dups (subaddress_indexes_m L) ti j = indexes_rows L s j"
    using upsert_step[OF Cons.prems(1,2) _ Cons.prems(4)] by metis
  let ?s = "s\<lparr>subaddress_ranges_t := tr, subaddress_indexes_t := ti\<rparr>"
  have "dict_members (ranges_rows L ?s i) = dict_members (ranges_rows L s i) \<union> dict_members [e]" "unat c1 \<le> unat max_subaddr"
    using st(3) by (simp_all add: upserted_def)
  moreover from this(1) have "inj_on (\<lambda>x. get_spend_public C x a vk) (dict_members (ranges_rows L ?s i) \<union> dict_members es)"
    using Cons.prems(3) by (simp add: Un_ac)
  ultimately obtain tr' ti' c' where 2: "s' = ?s\<lparr>subaddress_ranges_t := tr', subaddress_indexes_t := ti'\<rparr>" "sub_inv L C i a vk s'"
    "upserted max_subaddr (dict_members (ranges_rows L ?s i)) (dict_members es) out1 c1 (dict_members (ranges_rows L s' i)) r c'"
    "\<forall>j. j \<noteq> i \<longrightarrow> ranges_rows L s' j = ranges_rows L ?s j \<and> indexes_rows L s' j = indexes_rows L ?s j"
    using Cons.IH[OF st(1,2)] by blast
  have "dict_members (e # es) = dict_members [e] \<union> dict_members es" by simp
  then have "upserted max_subaddr (dict_members (ranges_rows L s i)) (dict_members (e # es)) out c (dict_members (ranges_rows L s' i)) r c'"
    using upserted_trans[OF st(3), of "dict_members es" "dict_members (ranges_rows L s' i)" r c'] 2(3) by simp
  with 2 fr show ?case by auto
qed

lemma count_indexes:
  assumes "sub_inv L C i a vk s"
  shows "length (indexes_rows L s i) = card (dict_members (ranges_rows L s i))"
proof -
  have "distinct (indexes_rows L s i)"
    using sorted_rows_distinct[OF subaddress_indexes.dups_sorted] by (simp add: distinct_map)
  then have "length (indexes_rows L s i) = card (set (indexes_rows L s i))" by (rule distinct_card[symmetric])
  also have "\<dots> = card (dict_members (ranges_rows L s i))"
    using assms by (simp add: sub_inv_def card_image inj_sub_key)
  finally show ?thesis .
qed

lemma find_subaddress_iff:
  assumes "sub_inv L C i a vk s" "inj_on (\<lambda>x. get_spend_public C x a vk) (insert x (dict_members (ranges_rows L s i)))"
  shows "find_subaddress L i (get_spend_public C x a vk) s = Inr x \<longleftrightarrow> x \<in> dict_members (ranges_rows L s i)"
proof -
  have "find_subaddress L i (get_spend_public C x a vk) s = Inr x \<longleftrightarrow>
      (\<exists>m \<in> set (indexes_rows L s i). sub_subaddress m = get_spend_public C x a vk \<and> sub_index m = x)"
    unfolding find_subaddress_def lmdb_check_Inr_iff subaddress_indexes.get_both_Inr_iff by auto
  also have "\<dots> \<longleftrightarrow> x \<in> dict_members (ranges_rows L s i)"
    using assms by (auto simp: sub_inv_def sub_key_def)
  finally show ?thesis .
qed

end

section \<open>A group for the examples\<close>

text \<open>Keys are numbers, and the hash of an index is the index as a number.\<close>

definition demo_crypto :: crypto where
  "demo_crypto = \<lparr>hash_key_subaddress = [], hash_to_scalar = (\<lambda>bs. of_nat (le_nat (drop 32 bs))),
     valid_secret = (\<lambda>k. True), public_of = (\<lambda>k. k), add_keys = (+)\<rparr>"

lemma le_nat_append: "le_nat (xs @ ys) = le_nat xs + 256 ^ length xs * le_nat ys"
  by (induction xs) (simp_all add: algebra_simps)

lemma demo_crypto_inj: "inj (\<lambda>x. get_spend_public demo_crypto x a vk)"
proof -
  let ?n = "\<lambda>x. unat (maj_i x) + 2 ^ 32 * unat (min_i x)"
  have b: "unat (y :: u32) < 2 ^ 32" for y using unsigned_less[of y, where ?'a = nat] by simp
  have n: "?n x < 2 ^ 64" for x using b[of "maj_i x"] b[of "min_i x"] by simp
  have key: "get_spend_public demo_crypto x a vk = spend_public a + of_nat (?n x)" for x
  proof -
    have "le_nat (nat_le 4 (unat (maj_i x)) @ nat_le 4 (unat (min_i x))) = ?n x"
      using b[of "maj_i x"] b[of "min_i x"] by (simp add: le_nat_append le_nat_nat_le)
    then show ?thesis
      by (simp add: get_spend_public_def demo_crypto_def get_subaddress_secret_key_def bytes_hash_def bytes_u32_def is_zero_def)
  qed
  have inj256: "m = n" if "(of_nat m :: 256 word) = of_nat n" "m < 2 ^ 64" "n < 2 ^ 64" for m n
    using that by (simp add: word_of_nat_eq_iff take_bit_nat_eq_self)
  show ?thesis
  proof (rule injI)
    fix x y assume "get_spend_public demo_crypto x a vk = get_spend_public demo_crypto y a vk"
    then have "(of_nat (?n x) :: 256 word) = of_nat (?n y)" by (simp only: key add_left_cancel)
    then have "?n x = ?n y" by (rule inj256[OF _ n n])
    then have "?n x mod 2 ^ 32 = ?n y mod 2 ^ 32" "?n x div 2 ^ 32 = ?n y div 2 ^ 32" by simp_all
    then have "maj_i x = maj_i y" "min_i x = min_i y"
      using b[of "maj_i x"] b[of "maj_i y"] by (simp_all add: word_unat_eq_iff)
    then show "x = y" by (cases x; cases y) simp
  qed
qed

lemma do_upsert_facts:
  assumes "lmdb_store L" and "sub_inv L C i a vk s"
    and "inj_on (\<lambda>x. get_spend_public C x a vk) (dict_members (ranges_rows L s i) \<union> dict_members subaddrs)"
    and "length (indexes_rows L s i) < 2 ^ 64"
    and "do_upsert L C i a vk subaddrs max_subaddr s = (s', Inr out)"
  shows "sub_inv L C i a vk s' \<and>
    dict_members (ranges_rows L s' i) = dict_members (ranges_rows L s i) \<union> dict_members subaddrs \<and>
    dict_members subaddrs - dict_members (ranges_rows L s i) \<subseteq> dict_members out \<and>
    dict_members out \<subseteq> dict_members subaddrs \<and>
    length (indexes_rows L s' i) \<le> unat max_subaddr \<and>
    (\<exists>tr ti. s' = s\<lparr>subaddress_ranges_t := tr, subaddress_indexes_t := ti\<rparr>) \<and>
    (\<forall>j. j \<noteq> i \<longrightarrow> ranges_rows L s' j = ranges_rows L s j \<and> indexes_rows L s' j = indexes_rows L s j)"
proof -
  let ?c = "of_nat (length (indexes_rows L s i)) :: u64"
  have c: "unat ?c = length (indexes_rows L s i)" using assms(4) by (simp add: unat_of_nat)
  from assms(5) have run: "upsert_loop L C i a vk max_subaddr subaddrs [] ?c s = (s', Inr out)"
    and le: "unat ?c \<le> unat max_subaddr"
    by (auto simp: do_upsert_def Let_def word_less_nat_alt unat_up split: if_splits)
  obtain tr ti c' where s': "s' = s\<lparr>subaddress_ranges_t := tr, subaddress_indexes_t := ti\<rparr>" "sub_inv L C i a vk s'"
    and ups: "upserted max_subaddr (dict_members (ranges_rows L s i)) (dict_members subaddrs) [] ?c (dict_members (ranges_rows L s' i)) out c'"
    and fr: "\<forall>j. j \<noteq> i \<longrightarrow> ranges_rows L s' j = ranges_rows L s j \<and> indexes_rows L s' j = indexes_rows L s j"
    using lmdb_store.upsert_loop_ok[OF assms(1) run assms(2,3) le] by blast
  have "length (indexes_rows L s' i) \<le> unat max_subaddr"
    using ups c lmdb_store.count_indexes[OF assms(1,2)] lmdb_store.count_indexes[OF assms(1) s'(2)]
    unfolding upserted_def by linarith
  with s' ups fr show ?thesis by (auto simp: upserted_def)
qed

section \<open>Properties\<close>



end
