(* ===== verification/Lookahead.thy ===== *)
theory Lookahead
  imports Subaddress
begin

text \<open>
  The lookahead of \<open>src/src/db/storage.cpp\<close> that provisions subaddresses in advance:
  \<open>do_lookahead\<close> for a new lookahead of an account, and \<open>update_lookahead\<close> when an output
  to a subaddress was found. The main lemma is that the scan of the outputs and the fill cover what
  the lookahead promises.
\<close>

section \<open>Lookahead\<close>

text \<open>
  The walk over the outputs. The cursor is moved on only for an output to a subaddress: for an
  output to the primary address the loop starts again on the same row, and never ends (\<open>None\<close>).
\<close>

partial_function (option) lookahead_scan :: "u32 \<Rightarrow> u32 \<Rightarrow> u32 \<Rightarrow> db_output list \<Rightarrow> index_ranges list \<Rightarrow>
    (error + index_ranges list) option" where
  "lookahead_scan major minor max_subs outs initial =
     (case outs of
        [] \<Rightarrow> Some (Inr initial)
      | out # rest \<Rightarrow>
          if is_zero (o_recipient out) then lookahead_scan major minor max_subs outs initial
          else
            let index = maj_i (o_recipient out);
                needed = add_and_clamp index major;
                this_minor = add_and_clamp (minor - 1) (min_i (o_recipient out)) in
            if minor \<noteq> 0 \<and> (-1 :: u32) < needed div minor then Some (Inl (Lws max_subaddresses))
            else if max_subs < needed * minor then Some (Inl (Lws max_subaddresses))
            else
              let initial = initial @ replicate (unat needed - length initial) [] in
              if length initial \<le> unat index then Some (Inl Out_of_range)
              else
                lookahead_scan major minor max_subs rest (initial[unat index :=
                  (case initial ! unat index of
                     [] \<Rightarrow> [(0, this_minor)]
                   | (first, current) # rngs \<Rightarrow> (first, max current this_minor) # rngs)]))"

fun lookahead_fill :: "u32 \<Rightarrow> u32 \<Rightarrow> u32 \<Rightarrow> u32 \<Rightarrow> index_ranges list \<Rightarrow> error + subaddress_dict list" where
  "lookahead_fill minor max_subs i total_subs [] = Inr []"
| "lookahead_fill minor max_subs i total_subs (elem # initial) =
     (let rngs = (if elem = [] then [(0, minor - 1)] else elem);
          this_minor = (if elem = [] then minor else snd (hd elem)) in
      if max_subs - total_subs < this_minor then Inl (Lws max_subaddresses)
      else check (lookahead_fill minor max_subs (i + 1) (total_subs + this_minor) initial) (\<lambda>rest.
        Inr ((i, rngs) # rest)))"

definition do_lookahead :: "'t lmdb \<Rightarrow> crypto \<Rightarrow> account_id \<Rightarrow> account_address \<Rightarrow> secret_key \<Rightarrow> address_index \<Rightarrow>
    u32 \<Rightarrow> 't tables \<Rightarrow> ('t tables \<times> (error + unit)) option" where
  "do_lookahead L C i address view_key lookahead max_subs s =
     (let major = maj_i lookahead; minor = min_i lookahead in
      if major = 0 \<or> minor = 0 then Some (s, Inr ())
      else if (-1 :: u32) < major div minor then Some (s, Inl (Lws max_subaddresses))
      else if max_subs < major * minor then Some (s, Inl (Lws max_subaddresses))
      else
        (case lookahead_scan major minor max_subs (m_dups (outputs_m L) (outputs_t s) i) (replicate (unat major) []) of
           None \<Rightarrow> None
         | Some (Inl e) \<Rightarrow> Some (s, Inl e)
         | Some (Inr initial) \<Rightarrow>
             (case lookahead_fill minor max_subs 0 0 initial of
                Inl e \<Rightarrow> Some (s, Inl e)
              | Inr initial \<Rightarrow>
                  (case do_upsert L C i address view_key initial max_subs s of
                     (s, Inl e) \<Rightarrow> Some (s, Inl e)
                   | (s, Inr out) \<Rightarrow> Some (s, Inr ())))))"

text \<open>
  The caller's part: exceeding the limit is noted in the account and counts as success, so what
  was written until then is kept.
\<close>

definition user_lookahead :: "'t lmdb \<Rightarrow> crypto \<Rightarrow> account \<Rightarrow> address_index \<Rightarrow> u32 \<Rightarrow> 't tables \<Rightarrow>
    (error + account \<times> 't tables) option" where
  "user_lookahead L C user lookahead max_subs s =
     (case do_lookahead L C (a_id user) (a_address user) (a_key user) lookahead max_subs s of
        None \<Rightarrow> None
      | Some (s, Inl e) \<Rightarrow>
          if e = Lws max_subaddresses
          then Some (Inr (user\<lparr>a_lookahead := lookahead, a_lookahead_fail := max 1 (a_start_height user)\<rparr>, s))
          else Some (Inl e)
      | Some (s, Inr _) \<Rightarrow> Some (Inr (user\<lparr>a_lookahead := lookahead\<rparr>, s)))"

definition lookahead_upsertions :: "u32 \<Rightarrow> u32 \<Rightarrow> address_index \<Rightarrow> subaddress_dict list" where
  "lookahead_upsertions major minor match =
     map (\<lambda>i. (of_nat i,
         [(0, if i = unat (maj_i match) then add_and_clamp (min_i match) (minor - 1) else minor - 1)]))
       [0..<unat (add_and_clamp (maj_i match) major)]"

definition update_lookahead :: "'t lmdb \<Rightarrow> crypto \<Rightarrow> account_address \<Rightarrow> block_id \<Rightarrow> address_index \<Rightarrow> u32 \<Rightarrow>
    't tables \<Rightarrow> error + int \<times> 't tables" where
  "update_lookahead L C address height match max_subs s =
     check (find_lookup L address s) (\<lambda>value.
     (let lookup = ba_lookup value in
     lmdb_check (get_both (accounts_m L) a_id (accounts_t s) (al_status lookup) (al_id lookup)) (\<lambda>user.
     (let major = maj_i (a_lookahead user); minor = min_i (a_lookahead user) in
      if major = 0 \<or> minor = 0 then Inr (0, s)
      else
        (case (if major div minor \<le> -1 \<and> major * minor \<le> max_subs
               then do_upsert L C (a_id user) address (a_key user) (lookahead_upsertions major minor match) max_subs s
               else (s, Inl (Lws max_subaddresses))) of
           (s, Inl e) \<Rightarrow>
             if e \<noteq> Lws max_subaddresses then Inl e
             else
               let fail = (if a_lookahead_fail user = 0 then max 1 height else max 1 (min (a_lookahead_fail user) height)) in
               lmdb_check (m_put (accounts_m L) MDB_CURRENT (al_status lookup) (user\<lparr>a_lookahead_fail := fail\<rparr>) (accounts_t s)) (\<lambda>t.
                 Inr (-1, s\<lparr>accounts_t := t\<rparr>))
         | (s, Inr upsertions) \<Rightarrow> Inr (int (min (2 ^ 32 - 1) (length upsertions)), s))))))"

section \<open>What the lookahead provisions\<close>

lemma scan_not_zero:
  assumes "lookahead_scan major minor max_subs outs initial = Some y"
  shows "outs \<noteq> [] \<longrightarrow> \<not> is_zero (o_recipient (hd outs))"
proof (rule lookahead_scan.raw_induct[where P = "\<lambda>_ _ _ outs _ _. outs \<noteq> [] \<longrightarrow> \<not> is_zero (o_recipient (hd outs))",
      OF _ assms], goal_cases)
  case (1 scan major minor max_subs outs initial y)
  show ?case
  proof (intro impI notI)
    assume "outs \<noteq> []" and z: "is_zero (o_recipient (hd outs))"
    then obtain out rest where outs: "outs = out # rest" by (cases outs) auto
    with z 1(2) have r: "scan major minor max_subs (out # rest) initial = Some y" by simp
    show False using 1(1)[OF r] z outs by simp
  qed
qed

lemma scan_zero: "is_zero (o_recipient out) \<Longrightarrow> lookahead_scan major minor max_subs (out # rest) initial = None"
  using scan_not_zero[of major minor max_subs "out # rest" initial]
  by (cases "lookahead_scan major minor max_subs (out # rest) initial") auto

lemma scan_Cons:
  "\<not> is_zero (o_recipient out) \<Longrightarrow> lookahead_scan major minor max_subs (out # rest) initial =
     (let index = maj_i (o_recipient out);
          needed = add_and_clamp index major;
          this_minor = add_and_clamp (minor - 1) (min_i (o_recipient out)) in
      if minor \<noteq> 0 \<and> (-1 :: u32) < needed div minor then Some (Inl (Lws max_subaddresses))
      else if max_subs < needed * minor then Some (Inl (Lws max_subaddresses))
      else
        let initial = initial @ replicate (unat needed - length initial) [] in
        if length initial \<le> unat index then Some (Inl Out_of_range)
        else
          lookahead_scan major minor max_subs rest (initial[unat index :=
            (case initial ! unat index of
               [] \<Rightarrow> [(0, this_minor)]
             | (first, current) # rngs \<Rightarrow> (first, max current this_minor) # rngs)]))"
  by (subst lookahead_scan.simps) simp

lemma scan_ends:
  "\<forall>out \<in> set outs. \<not> is_zero (o_recipient out) \<Longrightarrow> \<exists>y. lookahead_scan major minor max_subs outs initial = Some y"
proof (induction outs arbitrary: initial)
  case (Cons out outs)
  then show ?case by (subst lookahead_scan.simps) (simp add: Let_def)
qed (simp add: lookahead_scan.simps)

lemma unat_add_and_clamp: "unat (add_and_clamp a b) = min (2 ^ 32 - 1) (unat a + unat b)"
proof -
  have m: "unat (-1 :: u32) = 2 ^ 32 - 1" by (simp add: unsigned_minus_1_eq_mask mask_eq_exp_minus_1)
  have n1: "b \<le> -1" by (rule word_n1_ge)
  then have b: "unat b \<le> 2 ^ 32 - 1" by (simp only: word_le_nat_alt m)
  then have d: "unat (-1 - b) = 2 ^ 32 - 1 - unat b" using n1 by (simp add: unat_sub m)
  show ?thesis
  proof (cases "-1 - b < a")
    case True
    then show ?thesis using m b by (simp add: add_and_clamp_def word_less_nat_alt d)
  next
    case False
    then have "unat a + unat b < 2 ^ 32" using b by (simp add: word_less_nat_alt d)
    with False show ?thesis by (simp add: add_and_clamp_def unat_add_lem[THEN iffD1])
  qed
qed

text \<open>The ranges per major index that the scan builds, and the indexes they provide.\<close>

definition slot_ok :: "u32 \<Rightarrow> index_ranges \<Rightarrow> bool" where
  "slot_ok minor elem \<longleftrightarrow> elem = [] \<or> (\<exists>b. elem = [(0, b)] \<and> minor - 1 \<le> b)"

definition provides :: "index_ranges list \<Rightarrow> address_index \<Rightarrow> bool" where
  "provides initial x \<longleftrightarrow>
     (\<exists>b. unat (maj_i x) < length initial \<and> initial ! unat (maj_i x) = [(0, b)] \<and> min_i x \<le> b)"

definition slots_scanned :: "u32 \<Rightarrow> u32 \<Rightarrow> index_ranges list \<Rightarrow> db_output list \<Rightarrow> index_ranges list \<Rightarrow> bool" where
  "slots_scanned major minor initial outs initial' \<longleftrightarrow>
     (\<forall>elem \<in> set initial'. slot_ok minor elem) \<and> length initial \<le> length initial' \<and> length initial' < 2 ^ 32 \<and>
     (\<forall>x. provides initial x \<longrightarrow> provides initial' x) \<and>
     (\<forall>out \<in> set outs. \<not> is_zero (o_recipient out) \<and> provides initial' (o_recipient out) \<and>
        min (2 ^ 32 - 1) (unat (maj_i (o_recipient out)) + unat major) \<le> length initial')"

lemma add_and_clamp_ge: "b \<le> add_and_clamp a b" "a \<le> add_and_clamp a b"
  using unsigned_less[of b, where ?'a = nat] unsigned_less[of a, where ?'a = nat]
  by (simp_all add: word_le_nat_alt unat_add_and_clamp)

lemma scan_slot:
  fixes this_minor :: u32
  assumes "slot_ok minor elem" "minor - 1 \<le> this_minor"
  obtains b where "(case elem of [] \<Rightarrow> [(0, this_minor)] | (first, current) # rngs \<Rightarrow> (first, max current this_minor) # rngs) = [(0, b)]"
    "this_minor \<le> b" "minor - 1 \<le> b" "\<And>c. elem = [(0, c)] \<Longrightarrow> c \<le> b"
proof (cases elem)
  case Nil
  show ?thesis by (rule that[of this_minor]) (use Nil assms in auto)
next
  case (Cons r rs)
  with assms(1) obtain c where c: "elem = [(0, c)]" "minor - 1 \<le> c" by (auto simp: slot_ok_def)
  show ?thesis by (rule that[of "max c this_minor"]) (use c assms in \<open>auto simp: le_max_iff_disj\<close>)
qed

lemma slots_scanned_Cons:
  assumes "slots_scanned major minor nxt outs initial'" "length initial \<le> length nxt"
    "\<And>x. provides initial x \<Longrightarrow> provides nxt x" "provides nxt (o_recipient out)" "\<not> is_zero (o_recipient out)"
    "min (2 ^ 32 - 1) (unat (maj_i (o_recipient out)) + unat major) \<le> length nxt"
  shows "slots_scanned major minor initial (out # outs) initial'"
proof -
  have "min (2 ^ 32 - 1) (unat (maj_i (o_recipient out)) + unat major) \<le> length initial'"
    using assms(1,6) unfolding slots_scanned_def by linarith
  moreover have "length initial \<le> length initial'" using assms(1,2) unfolding slots_scanned_def by linarith
  ultimately show ?thesis using assms unfolding slots_scanned_def by simp
qed

lemma scan_slots:
  "lookahead_scan major minor max_subs outs initial = Some (Inr initial') \<Longrightarrow>
     \<forall>elem \<in> set initial. slot_ok minor elem \<Longrightarrow> length initial < 2 ^ 32 \<Longrightarrow>
     slots_scanned major minor initial outs initial'"
proof (induction outs arbitrary: initial)
  case Nil
  then show ?case by (simp add: lookahead_scan.simps slots_scanned_def)
next
  case (Cons out outs)
  let ?o = "o_recipient out"
  let ?needed = "add_and_clamp (maj_i ?o) major" and ?minor = "add_and_clamp (minor - 1) (min_i ?o)"
  let ?init = "initial @ replicate (unat ?needed - length initial) []"
  let ?elem = "case ?init ! unat (maj_i ?o) of [] \<Rightarrow> [(0, ?minor)] | (first, current) # rngs \<Rightarrow> (first, max current ?minor) # rngs"
  let ?next = "?init[unat (maj_i ?o) := ?elem]"
  have nz: "\<not> is_zero ?o" using scan_not_zero[OF Cons.prems(1)] by simp
  with Cons.prems(1) have run: "lookahead_scan major minor max_subs outs ?next = Some (Inr initial')"
    and len: "unat (maj_i ?o) < length ?init"
    by (simp_all add: scan_Cons Let_def split: if_splits)
  have ok: "\<forall>elem \<in> set ?init. slot_ok minor elem" using Cons.prems(2) by (auto simp: slot_ok_def)
  then have "slot_ok minor (?init ! unat (maj_i ?o))" using len by (meson nth_mem)
  then obtain b where b: "?elem = [(0, b)]" "?minor \<le> b" "minor - 1 \<le> b"
    "\<And>c. ?init ! unat (maj_i ?o) = [(0, c)] \<Longrightarrow> c \<le> b"
    by (rule scan_slot[OF _ add_and_clamp_ge(2)]) blast
  have ok': "\<forall>elem \<in> set ?next. slot_ok minor elem"
    using ok b(1,3) set_update_subset_insert[of ?init "unat (maj_i ?o)" ?elem] by (auto simp: slot_ok_def)
  have len': "length ?next = max (length initial) (unat ?needed)" by (simp add: max_def)
  then have "length ?next < 2 ^ 32" using Cons.prems(3) by (simp add: unat_add_and_clamp)
  from Cons.IH[OF run ok' this] have sc: "slots_scanned major minor ?next outs initial'" .
  have "min_i ?o \<le> b" using b(2) add_and_clamp_ge(1)[where b = "min_i ?o" and a = "minor - 1"] by (rule order_trans[rotated])
  then have p: "provides ?next ?o" using len by (auto simp: provides_def b(1))
  have q: "provides ?next x" if "provides initial x" for x
  proof -
    from that obtain c where c: "unat (maj_i x) < length initial" "initial ! unat (maj_i x) = [(0, c)]" "min_i x \<le> c"
      by (auto simp: provides_def)
    then have "?init ! unat (maj_i x) = [(0, c)]" by (simp add: nth_append)
    with c b(1,4) show ?thesis
      by (cases "maj_i x = maj_i ?o") (auto simp: provides_def nth_list_update word_unat_eq_iff intro: order_trans)
  qed
  have "min (2 ^ 32 - 1) (unat (maj_i ?o) + unat major) \<le> length ?next" "length initial \<le> length ?next"
    unfolding len' by (simp_all add: unat_add_and_clamp)
  from slots_scanned_Cons[OF sc this(2) q p nz this(1)] show ?case .
qed

lemma fill_members:
  assumes "lookahead_fill minor max_subs i subs initial = Inr ds" "unat i + length initial < 2 ^ 32"
  shows "dict_members ds = {x. unat i \<le> unat (maj_i x) \<and> unat (maj_i x) < unat i + length initial \<and>
    (\<exists>r \<in> set (if initial ! (unat (maj_i x) - unat i) = [] then [(0, minor - 1)] else initial ! (unat (maj_i x) - unat i)).
       fst r \<le> min_i x \<and> min_i x \<le> snd r)}"
  using assms
proof (induction initial arbitrary: i subs ds)
  case (Cons elem initial)
  obtain subs' rest where r: "lookahead_fill minor max_subs (i + 1) subs' initial = Inr rest"
    and ds: "ds = (i, if elem = [] then [(0, minor - 1)] else elem) # rest"
    using Cons.prems(1) by (auto simp: Let_def check_Inr_iff split: if_splits)
  have i: "unat (i + 1) = unat i + 1"
    using Cons.prems(2) by (subst unat_add_lem[THEN iffD1]) simp_all
  have IH: "dict_members rest = {x. unat i + 1 \<le> unat (maj_i x) \<and> unat (maj_i x) < unat i + 1 + length initial \<and>
    (\<exists>r \<in> set (if initial ! (unat (maj_i x) - (unat i + 1)) = [] then [(0, minor - 1)] else initial ! (unat (maj_i x) - (unat i + 1))).
       fst r \<le> min_i x \<and> min_i x \<le> snd r)}"
    using Cons.IH[OF r] Cons.prems(2) by (simp add: i)
  show ?case
  proof (rule set_eqI)
    fix x
    show "x \<in> dict_members ds \<longleftrightarrow> x \<in> {x. unat i \<le> unat (maj_i x) \<and> unat (maj_i x) < unat i + length (elem # initial) \<and>
      (\<exists>r \<in> set (if (elem # initial) ! (unat (maj_i x) - unat i) = [] then [(0, minor - 1)] else (elem # initial) ! (unat (maj_i x) - unat i)).
         fst r \<le> min_i x \<and> min_i x \<le> snd r)}"
    proof (cases "unat (maj_i x) = unat i")
      case True
      then have "maj_i x = i" by (simp add: word_unat_eq_iff)
      then show ?thesis using True unfolding ds dict_members_simps IH
        by (cases x) (auto simp: range_members_def image_iff)
    next
      case False
      then have "x \<notin> Address_index i ` A" for A by auto
      moreover have "(elem # initial) ! (unat (maj_i x) - unat i) = initial ! (unat (maj_i x) - (unat i + 1))"
        if "unat i \<le> unat (maj_i x)" using False that by (simp add: nth_Cons' Suc_diff_Suc)
      ultimately show ?thesis using False unfolding ds dict_members_simps IH by auto
    qed
  qed
qed simp

lemma fill_provides:
  assumes "lookahead_fill minor max_subs 0 0 initial = Inr ds" "length initial < 2 ^ 32"
    "\<forall>elem \<in> set initial. slot_ok minor elem"
  shows "provides initial x \<Longrightarrow> x \<in> dict_members ds"
    and "unat (maj_i x) < length initial \<Longrightarrow> min_i x \<le> minor - 1 \<Longrightarrow> x \<in> dict_members ds"
proof -
  note m = fill_members[OF assms(1)]
  show "x \<in> dict_members ds" if "provides initial x"
    using that assms(2) unfolding provides_def by (subst m) auto
  show "x \<in> dict_members ds" if "unat (maj_i x) < length initial" "min_i x \<le> minor - 1"
  proof -
    have "slot_ok minor (initial ! unat (maj_i x))" using assms(3) that(1) by simp
    then show ?thesis using that assms(2) by (subst m) (auto simp: slot_ok_def intro: order_trans)
  qed
qed

lemma word_less_sub_one: "x < m \<Longrightarrow> x \<le> m - 1" for x m :: u32
  by (cases "m = 0") (simp_all add: word_le_nat_alt word_less_nat_alt unat_minus_one)

lemma do_lookahead_run:
  assumes "do_lookahead L C i a vk lookahead max_subs s = Some (s', Inr ())" "maj_i lookahead \<noteq> 0" "min_i lookahead \<noteq> 0"
  obtains initial ds out where
    "lookahead_scan (maj_i lookahead) (min_i lookahead) max_subs (outputs_rows L s i) (replicate (unat (maj_i lookahead)) []) = Some (Inr initial)"
    "lookahead_fill (min_i lookahead) max_subs 0 0 initial = Inr ds"
    "do_upsert L C i a vk ds max_subs s = (s', Inr out)"
  using assms by (auto simp: do_lookahead_def Let_def split: if_splits option.splits sum.splits prod.splits)

text \<open>The example database with an output to a subaddress.\<close>

definition demo_sub :: "cell list tables" where
  "demo_sub = demo\<lparr>outputs_t := [Cell_outputs 2 ((demo_output 2 1)\<lparr>o_recipient := Address_index 0 1\<rparr>)]\<rparr>"

lemma demo_sub_rows:
  "ranges_rows log_lmdb demo_sub = (\<lambda>i. [])" "indexes_rows log_lmdb demo_sub = (\<lambda>i. [])"
  "outputs_rows log_lmdb demo_sub i = (if i = 2 then [(demo_output 2 1)\<lparr>o_recipient := Address_index 0 1\<rparr>] else [])"
  by (simp_all add: log_simps demo_sub_def demo_def empty_tables_def fun_eq_iff)

lemma demo_sub_upsert:
  "\<exists>s' out. do_upsert log_lmdb demo_crypto 2 (a_address demo_account2) 23 [(0, [(0, 2)])] 10 demo_sub = (s', Inr out)"
proof -
  obtain ti where ti: "bulk_insert (subaddress_indexes_m log_lmdb) MDB_NODUPDATA 2
      (index_maps demo_crypto (a_address demo_account2) 23 0 [(0, 2)]) (subaddress_indexes_t demo_sub) = Inr ti"
    using log.subaddress_indexes.bulk_insert_nodup by blast
  show ?thesis
    by (simp add: do_upsert_def demo_sub_rows check_subaddress_dict_def upsert_merge_def get_both_def find_row_def ti
        check_max_range_def has_row_def word_le_nat_alt)
qed



text \<open>
  C39: The walk of \<open>do_lookahead\<close> over the outputs ends when all outputs are to subaddresses. When
  the first output is to the primary address it does not: the cursor is not moved on.
\<close>

theorem do_lookahead_ends:
  assumes "maj_i lookahead \<noteq> 0" and "min_i lookahead \<noteq> 0"
    and "maj_i lookahead * min_i lookahead \<le> max_subs"
  shows "((\<forall>out \<in> set (outputs_rows L s i). \<not> is_zero (o_recipient out)) \<longrightarrow>
      do_lookahead L C i a vk lookahead max_subs s \<noteq> None) \<and>
    (\<forall>out outs. outputs_rows L s i = out # outs \<longrightarrow> is_zero (o_recipient out) \<longrightarrow>
      do_lookahead L C i a vk lookahead max_subs s = None)"
proof (intro conjI allI impI)
  assume "\<forall>out \<in> set (outputs_rows L s i). \<not> is_zero (o_recipient out)"
  then obtain y where "lookahead_scan (maj_i lookahead) (min_i lookahead) max_subs (outputs_rows L s i)
      (replicate (unat (maj_i lookahead)) []) = Some y" using scan_ends by blast
  then show "do_lookahead L C i a vk lookahead max_subs s \<noteq> None"
    by (auto simp: do_lookahead_def Let_def split: option.splits sum.splits prod.splits)
next
  fix out outs assume "outputs_rows L s i = out # outs" "is_zero (o_recipient out)"
  moreover have "\<not> -1 < maj_i lookahead div min_i lookahead" by (simp add: not_less)
  ultimately show "do_lookahead L C i a vk lookahead max_subs s = None"
    using assms by (simp add: do_lookahead_def Let_def scan_zero)
qed

theorem do_lookahead_ends_witness:
  "do_lookahead log_lmdb demo_crypto 2 (a_address demo_account2) 23 (Address_index 1 2) 10 demo_sub \<noteq> None \<and>
   do_lookahead log_lmdb demo_crypto 1 (a_address demo_account) 13 (Address_index 1 2) 10 demo = None"
proof
  have p: "maj_i (Address_index 1 2) * min_i (Address_index 1 2) \<le> (10 :: u32)"
    "maj_i (Address_index 1 2) \<noteq> 0" "min_i (Address_index 1 2) \<noteq> 0" by (simp_all add: word_le_nat_alt)
  show "do_lookahead log_lmdb demo_crypto 2 (a_address demo_account2) 23 (Address_index 1 2) 10 demo_sub \<noteq> None"
    by (rule do_lookahead_ends[OF p(2,3,1), THEN conjunct1, rule_format]) (auto simp: demo_sub_rows is_zero_def)
  have "outputs_rows log_lmdb demo 1 = [demo_output 2 1, demo_output 3 2]"
    by (simp add: log_simps demo_def output_key_def demo_output_def)
  then show "do_lookahead log_lmdb demo_crypto 1 (a_address demo_account) 13 (Address_index 1 2) 10 demo = None"
    by (rule do_lookahead_ends[OF p(2,3,1), THEN conjunct2, rule_format]) (simp add: is_zero_def demo_output_def)
qed

text \<open>
  C21: After \<open>upsert_subaddresses\<close>, an index is found by the public key of its subaddress exactly
  when it was stored before or is in the ranges asked for, in whatever order these were given.
\<close>

theorem upsert_subaddresses_finds:
  assumes "lmdb_store L" and "sub_inv L C i a vk s" and "inj (\<lambda>x. get_spend_public C x a vk)"
    and "length (indexes_rows L s i) < 2 ^ 64"
    and "upsert_subaddresses L C i a vk subaddrs max_subaddr s = Inr (out, s')"
  shows "find_subaddress L i (get_spend_public C x a vk) s' = Inr x \<longleftrightarrow>
    find_subaddress L i (get_spend_public C x a vk) s = Inr x \<or> x \<in> dict_members subaddrs"
proof -
  have inj: "inj_on (\<lambda>x. get_spend_public C x a vk) A" for A using assms(3) by (rule inj_on_subset) simp
  have m: "dict_members (sort subaddrs) = dict_members subaddrs" by (simp add: dict_members_def)
  from assms(5) have "do_upsert L C i a vk (sort subaddrs) max_subaddr s = (s', Inr out)"
    by (auto simp: upsert_subaddresses_def split: prod.splits sum.splits)
  from do_upsert_facts[OF assms(1,2) inj assms(4) this] show ?thesis
    using lmdb_store.find_subaddress_iff[OF assms(1,2) inj] lmdb_store.find_subaddress_iff[OF assms(1) _ inj] by (auto simp: m)
qed

theorem upsert_subaddresses_finds_witness:
  "\<exists>s' out. upsert_subaddresses log_lmdb demo_crypto 2 (a_address demo_account2) 23 [(0, [(0, 2)])] 10 demo_sub = Inr (out, s') \<and>
     find_subaddress log_lmdb 2 (get_spend_public demo_crypto (Address_index 0 1) (a_address demo_account2) 23) s' = Inr (Address_index 0 1)"
proof -
  have inv: "sub_inv log_lmdb demo_crypto 2 (a_address demo_account2) 23 demo_sub" by (simp add: sub_inv_def demo_sub_rows)
  obtain s' out where "do_upsert log_lmdb demo_crypto 2 (a_address demo_account2) 23 [(0, [(0, 2)])] 10 demo_sub = (s', Inr out)"
    using demo_sub_upsert by blast
  then have u: "upsert_subaddresses log_lmdb demo_crypto 2 (a_address demo_account2) 23 [(0, [(0, 2)])] 10 demo_sub = Inr (out, s')"
    by (simp add: upsert_subaddresses_def)
  have "Address_index 0 1 \<in> dict_members [(0, [(0, 2)])]"
    by (simp add: word_le_nat_alt image_iff)
  with upsert_subaddresses_finds[OF log.lmdb_store_axioms inv demo_crypto_inj _ u, of "Address_index 0 1"] u
  show ?thesis by (auto simp: demo_sub_rows)
qed

end
