(* ===== verification/KeyImages.thy ===== *)
theory KeyImages
  imports Demo
begin

text \<open>
  Key images that a wallet imports to confirm its spends, \<open>import_key_images\<close> of
  \<open>src/src/db/storage.cpp\<close>, and the markers of spends that are not in a block yet,
  \<open>record_pending_spends\<close>. A scanned spend is only a guess, since the server has no spend key;
  the wallet confirms it by its key image, and may name the output that is spent.

  The counters per key image that are only written to the log are left out. The four reserved
  bytes of a stored source are zero, as the callers make them.
\<close>

section \<open>Importing key images\<close>

record import_key_images_result =
  imported :: u64
  confirmed_spends :: u64
  unconfirmed :: u64
  unique_inputs :: u64
  known_spend_inputs :: u64
  already_confirmed :: u64
  exact_source_candidates :: u64
  exact_source_known_spend :: u64
  exact_source_unknown_spend :: u64
  exact_source_matched_output :: u64
  exact_source_missing_output :: u64
  exact_source_inserted :: u64
  exact_source_already_present :: u64
  exact_source_replaced :: u64

definition no_import :: import_key_images_result where
  "no_import = \<lparr>imported = 0, confirmed_spends = 0, unconfirmed = 0, unique_inputs = 0, known_spend_inputs = 0,
     already_confirmed = 0, exact_source_candidates = 0, exact_source_known_spend = 0, exact_source_unknown_spend = 0,
     exact_source_matched_output = 0, exact_source_missing_output = 0, exact_source_inserted = 0,
     exact_source_already_present = 0, exact_source_replaced = 0\<rparr>"

text \<open>Each image of the sorted set of images is confirmed when the account has a spend of it.\<close>

fun import_images :: "'t lmdb \<Rightarrow> account_id \<Rightarrow> hash list \<Rightarrow> hash list \<Rightarrow> import_key_images_result \<Rightarrow> 't \<Rightarrow>
    error + import_key_images_result \<times> 't" where
  "import_images L i known [] out t = Inr (out, t)"
| "import_images L i known (img # images) out t =
     (if img \<notin> set known then import_images L i known images (out\<lparr>unconfirmed := unconfirmed out + 1\<rparr>) t
      else
        let out = out\<lparr>known_spend_inputs := known_spend_inputs out + 1, confirmed_spends := confirmed_spends out + 1\<rparr> in
        case m_put (confirmed_spends_m L) MDB_NODUPDATA i img t of
          Inr t \<Rightarrow> import_images L i known images (out\<lparr>imported := imported out + 1\<rparr>) t
        | Inl e \<Rightarrow>
            if e \<noteq> MDB_KEYEXIST then Inl (Mdb e)
            else import_images L i known images (out\<lparr>already_confirmed := already_confirmed out + 1\<rparr>) t)"

section \<open>Importing the outputs that are spent\<close>

definition same_output :: "key_image_source \<Rightarrow> db_output \<Rightarrow> bool" where
  "same_output source row \<longleftrightarrow>
     oid_low (sm_id (o_spend_meta row)) = oid_low (kis_source source) \<and>
     sm_index (o_spend_meta row) = kis_out_index source \<and>
     tl_tx_hash (o_link row) = kis_tx_hash source \<and>
     o_pub row = kis_pub source"

fun erase_sources :: "'t lmdb \<Rightarrow> account_id \<Rightarrow> key_image_source list \<Rightarrow> import_key_images_result \<Rightarrow> 't \<Rightarrow>
    error + import_key_images_result \<times> 't" where
  "erase_sources L i [] out t = Inr (out, t)"
| "erase_sources L i (existing # rest) out t =
     (case get_both (imported_spend_sources_m L) source_key t i (source_key existing) of
        Inl e \<Rightarrow> if e = MDB_NOTFOUND then erase_sources L i rest out t else Inl (Mdb e)
      | Inr row \<Rightarrow>
          lmdb_check (m_del (imported_spend_sources_m L) i row t) (\<lambda>t.
            erase_sources L i rest (out\<lparr>exact_source_replaced := exact_source_replaced out + 1\<rparr>) t))"

text \<open>The first output that matches takes part; the sources of the image it replaces are erased.\<close>

definition store_source :: "'t lmdb \<Rightarrow> account_id \<Rightarrow> key_image_source \<Rightarrow> import_key_images_result \<Rightarrow> 't \<Rightarrow>
    error + import_key_images_result \<times> 't" where
  "store_source L i resolved out t =
     (let existing_sources = filter (\<lambda>existing. kis_image existing = kis_image resolved)
            (m_dups (imported_spend_sources_m L) t i) in
      if resolved \<in> set existing_sources
      then Inr (out\<lparr>exact_source_already_present := exact_source_already_present out + 1\<rparr>, t)
      else check (erase_sources L i existing_sources out t) (\<lambda>(out, t).
        case m_put (imported_spend_sources_m L) MDB_NODUPDATA i resolved t of
          Inr t \<Rightarrow> Inr (out\<lparr>exact_source_inserted := exact_source_inserted out + 1\<rparr>, t)
        | Inl e \<Rightarrow>
            if e \<noteq> MDB_KEYEXIST then Inl (Mdb e)
            else Inr (out\<lparr>exact_source_already_present := exact_source_already_present out + 1\<rparr>, t)))"

definition import_source :: "'t lmdb \<Rightarrow> account_id \<Rightarrow> hash list \<Rightarrow> db_output list \<Rightarrow> key_image_source \<Rightarrow>
    import_key_images_result \<Rightarrow> 't \<Rightarrow> error + import_key_images_result \<times> 't" where
  "import_source L i known output_rows source out t =
     (let out = out\<lparr>exact_source_candidates := exact_source_candidates out + 1\<rparr> in
      if kis_image source \<notin> set known
      then Inr (out\<lparr>exact_source_unknown_spend := exact_source_unknown_spend out + 1\<rparr>, t)
      else
        let out = out\<lparr>exact_source_known_spend := exact_source_known_spend out + 1\<rparr> in
        case find (same_output source) output_rows of
          None \<Rightarrow> Inr (out\<lparr>exact_source_missing_output := exact_source_missing_output out + 1\<rparr>, t)
        | Some row \<Rightarrow>
            store_source L i (source\<lparr>kis_source := sm_id (o_spend_meta row)\<rparr>)
              (out\<lparr>exact_source_matched_output := exact_source_matched_output out + 1\<rparr>) t)"

fun import_sources :: "'t lmdb \<Rightarrow> account_id \<Rightarrow> hash list \<Rightarrow> db_output list \<Rightarrow> key_image_source list \<Rightarrow>
    import_key_images_result \<Rightarrow> 't \<Rightarrow> error + import_key_images_result \<times> 't" where
  "import_sources L i known output_rows [] out t = Inr (out, t)"
| "import_sources L i known output_rows (source # sources) out t =
     check (import_source L i known output_rows source out t) (\<lambda>(out, t).
       import_sources L i known output_rows sources out t)"

definition import_key_images :: "'t lmdb \<Rightarrow> account_id \<Rightarrow> hash list \<Rightarrow> key_image_source list \<Rightarrow> 't tables \<Rightarrow>
    error + import_key_images_result \<times> 't tables" where
  "import_key_images L i images sources s =
     (let known_spends = map s_image (m_dups (spends_m L) (spends_t s) i);
          unique_input = sort (remdups images);
          out = no_import\<lparr>unique_inputs := of_nat (length unique_input)\<rparr> in
      check (import_images L i known_spends unique_input out (confirmed_spends_t s)) (\<lambda>(out, tc).
      check (if sources = [] then Inr (out, imported_spend_sources_t s)
             else import_sources L i known_spends (m_dups (outputs_m L) (outputs_t s) i) sources out (imported_spend_sources_t s))
        (\<lambda>(out, ti). Inr (out, s\<lparr>confirmed_spends_t := tc, imported_spend_sources_t := ti\<rparr>))))"

fun record_pending_spends :: "'t lmdb \<Rightarrow> account_id \<Rightarrow> pending_spend list \<Rightarrow> 't tables \<Rightarrow> error + 't tables" where
  "record_pending_spends L i [] s = Inr s"
| "record_pending_spends L i (sp # spends) s =
     (case m_put (pending_spends_m L) MDB_NODUPDATA i sp (pending_spends_t s) of
        Inr t \<Rightarrow> record_pending_spends L i spends (s\<lparr>pending_spends_t := t\<rparr>)
      | Inl e \<Rightarrow> if e \<noteq> MDB_KEYEXIST then Inl (Mdb e) else record_pending_spends L i spends s)"

section \<open>What importing does\<close>

text \<open>
  The promise: an account has a map from key images to the outputs they spend, and an import
  updates it with every source whose spend and output are known.
\<close>

definition source_map :: "key_image_source list \<Rightarrow> hash \<rightharpoonup> key_image_source" where
  "source_map rows img = find (\<lambda>row. kis_image row = img) rows"

definition resolve_source :: "hash list \<Rightarrow> db_output list \<Rightarrow> key_image_source \<Rightarrow> key_image_source option" where
  "resolve_source known output_rows source =
     (if kis_image source \<notin> set known then None
      else map_option (\<lambda>row. source\<lparr>kis_source := sm_id (o_spend_meta row)\<rparr>) (find (same_output source) output_rows))"

definition resolve_onto :: "hash list \<Rightarrow> db_output list \<Rightarrow> key_image_source \<Rightarrow> (hash \<rightharpoonup> key_image_source) \<Rightarrow>
    (hash \<rightharpoonup> key_image_source)" where
  "resolve_onto known output_rows source m =
     (case resolve_source known output_rows source of None \<Rightarrow> m | Some r \<Rightarrow> m(kis_image r \<mapsto> r))"

definition one_source :: "key_image_source list \<Rightarrow> bool" where
  "one_source rows \<longleftrightarrow> inj_on kis_image (set rows)"

lemma source_map_None: "source_map rows img = None \<longleftrightarrow> (\<forall>r \<in> set rows. kis_image r \<noteq> img)"
  by (auto simp: source_map_def find_None_iff)

lemma source_map_SomeD: "source_map rows img = Some r \<Longrightarrow> r \<in> set rows \<and> kis_image r = img"
  by (auto simp: source_map_def find_Some_iff)

lemma source_map_Some:
  assumes "one_source rows"
  shows "source_map rows img = Some r \<longleftrightarrow> r \<in> set rows \<and> kis_image r = img"
proof (cases "source_map rows img")
  case None
  then have "\<forall>r \<in> set rows. kis_image r \<noteq> img" by (simp only: source_map_None)
  with None show ?thesis by auto
next
  case (Some q)
  with source_map_SomeD[OF this] assms show ?thesis by (auto simp: one_source_def inj_on_def)
qed

lemma source_map_insert:
  assumes "one_source rows" "set rows' = insert r {e \<in> set rows. kis_image e \<noteq> kis_image r}"
  shows "one_source rows' \<and> source_map rows' = (source_map rows)(kis_image r \<mapsto> r)"
proof
  show o: "one_source rows'" using assms by (auto simp: one_source_def inj_on_def)
  have "source_map rows' img = Some x \<longleftrightarrow> ((source_map rows)(kis_image r \<mapsto> r)) img = Some x" for img x
    by (auto simp: source_map_Some[OF o] source_map_Some[OF assms(1)] assms(2))
  then show "source_map rows' = (source_map rows)(kis_image r \<mapsto> r)" by (metis ext option.exhaust)
qed

context lmdb_store begin

abbreviation sources_of :: "'t \<Rightarrow> account_id \<Rightarrow> key_image_source list" where
  "sources_of t \<equiv> m_dups (imported_spend_sources_m L) t"

abbreviation confirmed_of :: "'t \<Rightarrow> account_id \<Rightarrow> hash list" where
  "confirmed_of t \<equiv> m_dups (confirmed_spends_m L) t"

lemma erase_sources_ok:
  "distinct es \<Longrightarrow> set es \<subseteq> set (sources_of t i) \<Longrightarrow>
     \<exists>out' t'. erase_sources L i es out t = Inr (out', t') \<and>
       set (sources_of t' i) = set (sources_of t i) - set es \<and> (\<forall>j. j \<noteq> i \<longrightarrow> sources_of t' j = sources_of t j)"
proof (induction es arbitrary: out t)
  case (Cons e es)
  then have e: "e \<in> set (sources_of t i)" by simp
  let ?t = "tdel (imported_spend_sources_m L) i e t"
  have s: "set (sources_of ?t i) = set (sources_of t i) - {e}" by (rule imported_spend_sources.set_del[OF e])
  have "get_both (imported_spend_sources_m L) source_key t i (source_key e) = Inr e" using e by simp
  then have step: "erase_sources L i (e # es) out t =
      erase_sources L i es (out\<lparr>exact_source_replaced := exact_source_replaced out + 1\<rparr>) ?t"
    using e by (simp del: imported_spend_sources.get_both_Inr_iff)
  have sub: "set es \<subseteq> set (sources_of ?t i)" using Cons.prems by (auto simp del: imported_spend_sources.dups_tdel simp: s)
  have oth: "j \<noteq> i \<Longrightarrow> sources_of ?t j = sources_of t j" for j using e by simp
  obtain out' t' where "erase_sources L i es (out\<lparr>exact_source_replaced := exact_source_replaced out + 1\<rparr>) ?t = Inr (out', t')"
    "set (sources_of t' i) = set (sources_of ?t i) - set es" "\<forall>j. j \<noteq> i \<longrightarrow> sources_of t' j = sources_of ?t j"
    using Cons.IH[OF _ sub] Cons.prems(1) by fastforce
  then show ?case unfolding step s using oth by (intro exI[of _ out'] exI[of _ t']) auto
qed simp

lemma store_source_ok:
  assumes one: "one_source (sources_of t i)"
  shows "\<exists>out' t'. store_source L i r out t = Inr (out', t') \<and>
     set (sources_of t' i) = insert r {e \<in> set (sources_of t i). kis_image e \<noteq> kis_image r} \<and>
     (\<forall>j. j \<noteq> i \<longrightarrow> sources_of t' j = sources_of t j)"
proof -
  let ?es = "filter (\<lambda>e. kis_image e = kis_image r) (sources_of t i)"
  show ?thesis
  proof (cases "r \<in> set ?es")
    case True
    then have "set (sources_of t i) = insert r {e \<in> set (sources_of t i). kis_image e \<noteq> kis_image r}"
      using one by (auto simp: one_source_def inj_on_def)
    with True show ?thesis by (auto simp: store_source_def Let_def)
  next
    case False
    have "distinct (sources_of t i)" using sorted_rows_distinct[OF imported_spend_sources.dups_sorted] distinct_map by blast
    then have "distinct ?es" by simp
    from erase_sources_ok[OF this] obtain out1 t1 where e: "erase_sources L i ?es out t = Inr (out1, t1)"
      "set (sources_of t1 i) = set (sources_of t i) - set ?es" "\<forall>j. j \<noteq> i \<longrightarrow> sources_of t1 j = sources_of t j"
      by (metis filter_is_subset)
    have n: "\<not> has_row source_key (source_key r) (sources_of t1 i)"
      unfolding has_row_def e(2) by (auto simp: source_key_def)
    let ?t = "tput (imported_spend_sources_m L) i r t1"
    have "set (sources_of ?t i) = insert r {e \<in> set (sources_of t i). kis_image e \<noteq> kis_image r}"
      using imported_spend_sources.set_put_new[OF n] by (auto simp: e(2))
    then show ?thesis using False e(1,3) n by (auto simp: store_source_def Let_def)
  qed
qed

lemma import_source_ok:
  assumes one: "one_source (sources_of t i)"
  shows "\<exists>out' t'. import_source L i known output_rows source out t = Inr (out', t') \<and> one_source (sources_of t' i) \<and>
     source_map (sources_of t' i) = resolve_onto known output_rows source (source_map (sources_of t i)) \<and>
     (\<forall>j. j \<noteq> i \<longrightarrow> sources_of t' j = sources_of t j)"
proof (cases "resolve_source known output_rows source")
  case None
  then show ?thesis using one
    by (auto simp: import_source_def resolve_onto_def resolve_source_def Let_def split: if_splits)
next
  case (Some r)
  then obtain row where row: "kis_image source \<in> set known" "find (same_output source) output_rows = Some row"
    "r = source\<lparr>kis_source := sm_id (o_spend_meta row)\<rparr>"
    by (auto simp: resolve_source_def split: if_splits)
  then obtain out0 where st: "import_source L i known output_rows source out t = store_source L i r out0 t"
    by (auto simp: import_source_def Let_def)
  from store_source_ok[OF one, of r out0] obtain out' t' where r: "store_source L i r out0 t = Inr (out', t')"
    "set (sources_of t' i) = insert r {e \<in> set (sources_of t i). kis_image e \<noteq> kis_image r}"
    "\<forall>j. j \<noteq> i \<longrightarrow> sources_of t' j = sources_of t j" by blast
  from source_map_insert[OF one r(2)] r(1,3) st Some show ?thesis by (simp add: resolve_onto_def)
qed

lemma import_sources_ok:
  "one_source (sources_of t i) \<Longrightarrow>
   \<exists>out' t'. import_sources L i known output_rows sources out t = Inr (out', t') \<and> one_source (sources_of t' i) \<and>
     source_map (sources_of t' i) = fold (resolve_onto known output_rows) sources (source_map (sources_of t i)) \<and>
     (\<forall>j. j \<noteq> i \<longrightarrow> sources_of t' j = sources_of t j)"
proof (induction sources arbitrary: out t)
  case (Cons source sources)
  from import_source_ok[OF Cons.prems] obtain out1 t1 where r: "import_source L i known output_rows source out t = Inr (out1, t1)"
    "one_source (sources_of t1 i)"
    "source_map (sources_of t1 i) = resolve_onto known output_rows source (source_map (sources_of t i))"
    "\<forall>j. j \<noteq> i \<longrightarrow> sources_of t1 j = sources_of t j" by blast
  from Cons.IH[OF r(2), of out1] r show ?case by auto
qed simp

text \<open>The counters of the images.\<close>

lemma import_images_ok:
  "distinct images \<Longrightarrow> \<exists>out' t'. import_images L i known images out t = Inr (out', t') \<and>
     set (confirmed_of t' i) = set (confirmed_of t i) \<union> (set images \<inter> set known) \<and>
     (\<forall>j. j \<noteq> i \<longrightarrow> confirmed_of t' j = confirmed_of t j) \<and>
     unique_inputs out' = unique_inputs out \<and>
     imported out' = imported out + of_nat (length (filter (\<lambda>k. k \<in> set known \<and> k \<notin> set (confirmed_of t i)) images)) \<and>
     already_confirmed out' = already_confirmed out + of_nat (length (filter (\<lambda>k. k \<in> set known \<and> k \<in> set (confirmed_of t i)) images)) \<and>
     unconfirmed out' = unconfirmed out + of_nat (length (filter (\<lambda>k. k \<notin> set known) images))"
proof (induction images arbitrary: out t)
  case (Cons k images)
  then have d: "distinct images" and k: "k \<notin> set images" by simp_all
  consider (unknown) "k \<notin> set known" | (old) "k \<in> set known" "k \<in> set (confirmed_of t i)"
    | (new) "k \<in> set known" "k \<notin> set (confirmed_of t i)" by blast
  then show ?case
  proof cases
    case unknown
    with Cons.IH[OF d, of "out\<lparr>unconfirmed := unconfirmed out + 1\<rparr>" t] show ?thesis by (auto simp: Let_def)
  next
    case old
    then have "has_row ks_self (ks_self k) (confirmed_of t i)" by (auto simp: has_row_def)
    with old Cons.IH[OF d, of "out\<lparr>known_spend_inputs := known_spend_inputs out + 1, confirmed_spends := confirmed_spends out + 1,
        already_confirmed := already_confirmed out + 1\<rparr>" t]
    show ?thesis by (auto simp: Let_def)
  next
    case new
    then have n: "\<not> has_row ks_self (ks_self k) (confirmed_of t i)" by (auto simp: has_row_def ks_self_def)
    let ?t = "tput (confirmed_spends_m L) i k t"
    have s: "set (confirmed_of ?t i) = insert k (set (confirmed_of t i))" by (rule confirmed_spends.set_put_new[OF n])
    have f: "filter (\<lambda>x. x \<in> set known \<and> (x = k \<or> x \<in> set (confirmed_of t i))) images
        = filter (\<lambda>x. x \<in> set known \<and> x \<in> set (confirmed_of t i)) images"
      "filter (\<lambda>x. x \<in> set known \<and> x \<noteq> k \<and> x \<notin> set (confirmed_of t i)) images
        = filter (\<lambda>x. x \<in> set known \<and> x \<notin> set (confirmed_of t i)) images"
      using k by (auto intro: filter_cong)
    from new n Cons.IH[OF d, of "out\<lparr>known_spend_inputs := known_spend_inputs out + 1, confirmed_spends := confirmed_spends out + 1,
        imported := imported out + 1\<rparr>" ?t]
    show ?thesis by (auto simp: Let_def s f simp del: confirmed_spends.dups_tput) (simp_all add: n)
  qed
qed simp

end

text \<open>The import of sources leaves the counters of the images alone.\<close>

definition image_counts :: "import_key_images_result \<Rightarrow> u64 \<times> u64 \<times> u64 \<times> u64" where
  "image_counts out = (imported out, already_confirmed out, unconfirmed out, unique_inputs out)"

lemma erase_sources_counts:
  "erase_sources L i es out t = Inr (out', t') \<Longrightarrow> image_counts out' = image_counts out"
proof (induction es arbitrary: out t)
  case (Cons e es)
  then show ?case by (auto simp: lmdb_check_Inr_iff image_counts_def split: sum.splits if_splits)
qed simp

lemma store_source_counts:
  assumes "store_source L i r o1 t = Inr (o2, t2)"
  shows "image_counts o2 = image_counts o1"
proof (cases "r \<in> set (m_dups (imported_spend_sources_m L) t i)")
  case True
  with assms show ?thesis by (auto simp: store_source_def Let_def image_counts_def)
next
  case False
  then obtain a b where e: "erase_sources L i (filter (\<lambda>existing. kis_image existing = kis_image r)
      (m_dups (imported_spend_sources_m L) t i)) o1 t = Inr (a, b)"
    using assms by (auto simp: store_source_def Let_def check_Inr_iff)
  have "image_counts o2 = image_counts a"
    using assms False e
    by (cases "m_put (imported_spend_sources_m L) MDB_NODUPDATA i r b")
       (auto simp: store_source_def Let_def image_counts_def split: if_splits)
  with erase_sources_counts[OF e] show ?thesis by simp
qed

lemma import_source_counts:
  assumes "import_source L i known rows source out t = Inr (out', t')"
  shows "image_counts out' = image_counts out"
proof (cases "kis_image source \<in> set known \<and> find (same_output source) rows \<noteq> None")
  case True
  then obtain r o1 where "store_source L i r o1 t = Inr (out', t')" "image_counts o1 = image_counts out"
    using assms by (auto simp: import_source_def Let_def image_counts_def)
  with store_source_counts show ?thesis by metis
next
  case False
  with assms show ?thesis by (auto simp: import_source_def Let_def image_counts_def split: if_splits)
qed

lemma import_sources_counts:
  "import_sources L i known rows sources out t = Inr (out', t') \<Longrightarrow> image_counts out' = image_counts out"
proof (induction sources arbitrary: out t)
  case (Cons source sources)
  then obtain o1 t1 where "import_source L i known rows source out t = Inr (o1, t1)"
    "import_sources L i known rows sources o1 t1 = Inr (out', t')" by (auto simp: check_Inr_iff)
  then show ?case using Cons.IH import_source_counts by metis
qed simp

text \<open>Recording pending spends is a bulk insertion.\<close>

lemma record_pending_spends_bulk:
  "record_pending_spends L i spends s =
     check (bulk_insert (pending_spends_m L) MDB_NODUPDATA i spends (pending_spends_t s))
       (\<lambda>t. Inr (s\<lparr>pending_spends_t := t\<rparr>))"
  by (induction spends arbitrary: s) (auto split: sum.splits)

lemma import_key_images_ran:
  assumes "lmdb_store L" and one: "one_source (m_dups (imported_spend_sources_m L) (imported_spend_sources_t s) i)"
  obtains out0 out tc ti where
    "import_images L i (map s_image (spends_rows L s i)) (sort (remdups images))
       (no_import\<lparr>unique_inputs := of_nat (card (set images))\<rparr>) (confirmed_spends_t s) = Inr (out0, tc)"
    "import_key_images L i images sources s = Inr (out, s\<lparr>confirmed_spends_t := tc, imported_spend_sources_t := ti\<rparr>)"
    "image_counts out = image_counts out0"
    "one_source (m_dups (imported_spend_sources_m L) ti i)"
    "source_map (m_dups (imported_spend_sources_m L) ti i) =
       fold (resolve_onto (map s_image (spends_rows L s i)) (outputs_rows L s i)) sources
         (source_map (m_dups (imported_spend_sources_m L) (imported_spend_sources_t s) i))"
    "\<And>j. j \<noteq> i \<Longrightarrow> m_dups (imported_spend_sources_m L) ti j = m_dups (imported_spend_sources_m L) (imported_spend_sources_t s) j"
proof -
  let ?known = "map s_image (spends_rows L s i)"
  have card: "length (sort (remdups images)) = card (set images)" by (simp add: length_remdups_card_conv)
  obtain out0 tc where im: "import_images L i ?known (sort (remdups images))
      (no_import\<lparr>unique_inputs := of_nat (card (set images))\<rparr>) (confirmed_spends_t s) = Inr (out0, tc)"
    using lmdb_store.import_images_ok[OF assms(1), of "sort (remdups images)"] by fastforce
  obtain out ti where so: "import_sources L i ?known (outputs_rows L s i) sources out0 (imported_spend_sources_t s) = Inr (out, ti)"
    "one_source (m_dups (imported_spend_sources_m L) ti i)"
    "source_map (m_dups (imported_spend_sources_m L) ti i) =
       fold (resolve_onto ?known (outputs_rows L s i)) sources
         (source_map (m_dups (imported_spend_sources_m L) (imported_spend_sources_t s) i))"
    "\<And>j. j \<noteq> i \<Longrightarrow> m_dups (imported_spend_sources_m L) ti j = m_dups (imported_spend_sources_m L) (imported_spend_sources_t s) j"
    using lmdb_store.import_sources_ok[OF assms(1) one] by blast
  have "(if sources = [] then Inr (out0, imported_spend_sources_t s)
         else import_sources L i ?known (outputs_rows L s i) sources out0 (imported_spend_sources_t s)) = Inr (out, ti)"
    using so(1) by (cases sources) auto
  then have "import_key_images L i images sources s = Inr (out, s\<lparr>confirmed_spends_t := tc, imported_spend_sources_t := ti\<rparr>)"
    unfolding import_key_images_def Let_def card im by simp
  from that[OF im this import_sources_counts[OF so(1)] so(2,3,4)] show ?thesis .
qed

section \<open>Properties\<close>

text \<open>
  An import never fails, and confirms exactly the spends of the account whose key images were
  given; the counters say how many were confirmed now, were confirmed before, and are of no spend
  that is known, and add up to the number of images.
\<close>

theorem import_confirms_spends:
  assumes "lmdb_store L" and "one_source (m_dups (imported_spend_sources_m L) (imported_spend_sources_t s) i)"
  shows "\<exists>out s'. import_key_images L i images sources s = Inr (out, s') \<and>
    set (m_dups (confirmed_spends_m L) (confirmed_spends_t s') i) =
      set (m_dups (confirmed_spends_m L) (confirmed_spends_t s) i) \<union> (set images \<inter> s_image ` set (spends_rows L s i)) \<and>
    (\<forall>j. j \<noteq> i \<longrightarrow> m_dups (confirmed_spends_m L) (confirmed_spends_t s') j = m_dups (confirmed_spends_m L) (confirmed_spends_t s) j) \<and>
    imported out = of_nat (card (set images \<inter> s_image ` set (spends_rows L s i) -
      set (m_dups (confirmed_spends_m L) (confirmed_spends_t s) i))) \<and>
    imported out + already_confirmed out + unconfirmed out = unique_inputs out \<and>
    unique_inputs out = of_nat (card (set images))"
proof -
  let ?known = "s_image ` set (spends_rows L s i)"
  let ?old = "set (m_dups (confirmed_spends_m L) (confirmed_spends_t s) i)"
  let ?imgs = "sort (remdups images)"
  obtain out0 out tc ti where r: "import_images L i (map s_image (spends_rows L s i)) ?imgs
       (no_import\<lparr>unique_inputs := of_nat (card (set images))\<rparr>) (confirmed_spends_t s) = Inr (out0, tc)"
    "import_key_images L i images sources s = Inr (out, s\<lparr>confirmed_spends_t := tc, imported_spend_sources_t := ti\<rparr>)"
    "image_counts out = image_counts out0"
    using import_key_images_ran[OF assms, of images sources] by metis
  have d: "distinct ?imgs" by simp
  from lmdb_store.import_images_ok[OF assms(1) d, of i "map s_image (spends_rows L s i)"
      "no_import\<lparr>unique_inputs := of_nat (card (set images))\<rparr>" "confirmed_spends_t s"] r(1)
  have k: "set (m_dups (confirmed_spends_m L) tc i) = ?old \<union> (set images \<inter> ?known)"
    "\<forall>j. j \<noteq> i \<longrightarrow> m_dups (confirmed_spends_m L) tc j = m_dups (confirmed_spends_m L) (confirmed_spends_t s) j"
    "unique_inputs out0 = of_nat (card (set images))"
    "imported out0 = of_nat (length (filter (\<lambda>k. k \<in> ?known \<and> k \<notin> ?old) ?imgs))"
    "already_confirmed out0 = of_nat (length (filter (\<lambda>k. k \<in> ?known \<and> k \<in> ?old) ?imgs))"
    "unconfirmed out0 = of_nat (length (filter (\<lambda>k. k \<notin> ?known) ?imgs))"
    by (auto simp: no_import_def)
  have len: "length (filter P ?imgs) = card {k \<in> set images. P k}" for P
    using distinct_card[of "filter P ?imgs"] d by simp
  have "length (filter (\<lambda>k. k \<in> A \<and> k \<notin> B) xs) + length (filter (\<lambda>k. k \<in> A \<and> k \<in> B) xs) + length (filter (\<lambda>k. k \<notin> A) xs)
      = length xs" for xs :: "hash list" and A B by (induction xs) auto
  from this[of ?known ?old ?imgs] have sum: "imported out0 + already_confirmed out0 + unconfirmed out0 = of_nat (card (set images))"
    unfolding k(4-6) by (simp add: length_remdups_card_conv flip: of_nat_add)
  have "{k \<in> set images. k \<in> ?known \<and> k \<notin> ?old} = set images \<inter> ?known - ?old" by auto
  then show ?thesis using r(2,3) k(1-4) sum unfolding len by (auto simp: image_counts_def)
qed

lemma demo_no_sources: "one_source (m_dups (imported_spend_sources_m log_lmdb) (imported_spend_sources_t demo) i)"
  "source_map (m_dups (imported_spend_sources_m log_lmdb) (imported_spend_sources_t demo) i) = Map.empty"
  "m_dups (confirmed_spends_m log_lmdb) (confirmed_spends_t demo) i = []"
  by (auto simp: one_source_def source_map_def log_simps demo_def empty_tables_def)

theorem import_confirms_spends_witness:
  "\<exists>out s'. import_key_images log_lmdb 1 [41, 99, 41] [] demo = Inr (out, s') \<and>
     set (m_dups (confirmed_spends_m log_lmdb) (confirmed_spends_t s') 1) = {41} \<and> imported out = 1 \<and> unique_inputs out = 2"
proof -
  have "{41, 99, 41} \<inter> s_image ` set (spends_rows log_lmdb demo 1) = {41 :: hash}" by (simp add: demo_spends demo_spend_def)
  moreover have "card {41, 99, 41 :: hash} = 2" by (simp add: insert_commute)
  ultimately show ?thesis
    using import_confirms_spends[OF log.lmdb_store_axioms demo_no_sources(1)[of 1], of "[41, 99, 41]" "[]"]
    by (auto simp: demo_no_sources)
qed

text \<open>
  C11: An import refines the update of a map from key images to the outputs they spend: every
  source whose spend is known and whose output the account has replaces what the map had for its
  image, the others change nothing, and an image never gets two outputs.
\<close>

theorem import_refines_source_map:
  assumes "lmdb_store L" and "one_source (m_dups (imported_spend_sources_m L) (imported_spend_sources_t s) i)"
  shows "\<exists>out s'. import_key_images L i images sources s = Inr (out, s') \<and>
    one_source (m_dups (imported_spend_sources_m L) (imported_spend_sources_t s') i) \<and>
    source_map (m_dups (imported_spend_sources_m L) (imported_spend_sources_t s') i) =
      fold (resolve_onto (map s_image (spends_rows L s i)) (outputs_rows L s i)) sources
        (source_map (m_dups (imported_spend_sources_m L) (imported_spend_sources_t s) i)) \<and>
    (\<forall>j. j \<noteq> i \<longrightarrow> m_dups (imported_spend_sources_m L) (imported_spend_sources_t s') j =
      m_dups (imported_spend_sources_m L) (imported_spend_sources_t s) j)"
proof (rule import_key_images_ran[OF assms, of images sources], goal_cases)
  case (1 out0 out tc ti)
  then show ?case by (intro exI[of _ out] exI[of _ "s\<lparr>confirmed_spends_t := tc, imported_spend_sources_t := ti\<rparr>"]) simp
qed

definition demo_source :: key_image_source where
  "demo_source = \<lparr>kis_image = 41, kis_source = Output_id 7 1, kis_tx_hash = 101, kis_pub = 33, kis_out_index = 0\<rparr>"

theorem import_refines_source_map_witness:
  "\<exists>out s'. import_key_images log_lmdb 1 [41] [demo_source] demo = Inr (out, s') \<and>
     source_map (m_dups (imported_spend_sources_m log_lmdb) (imported_spend_sources_t s') 1) =
       [41 \<mapsto> demo_source\<lparr>kis_source := Output_id 0 1\<rparr>]"
proof -
  have o: "outputs_rows log_lmdb demo 1 = [demo_output 2 1, demo_output 3 2]"
    by (simp add: log_simps demo_def demo_output_def output_key_def less_prod_def)
  have "resolve_source (map s_image (spends_rows log_lmdb demo 1)) (outputs_rows log_lmdb demo 1) demo_source =
      Some (demo_source\<lparr>kis_source := Output_id 0 1\<rparr>)"
    by (simp add: resolve_source_def demo_spends o demo_spend_def demo_source_def same_output_def demo_output_def)
  then have "resolve_onto (map s_image (spends_rows log_lmdb demo 1)) (outputs_rows log_lmdb demo 1) demo_source Map.empty =
      [41 \<mapsto> demo_source\<lparr>kis_source := Output_id 0 1\<rparr>]" by (simp add: resolve_onto_def demo_source_def)
  with import_refines_source_map[OF log.lmdb_store_axioms demo_no_sources(1)[of 1], of "[41]" "[demo_source]"]
  show ?thesis by (auto simp: demo_no_sources)
qed

end
