(* ===== verification/LwsAccount.thy ===== *)
theory LwsAccount
  imports Demo "HOL-Library.Product_Lexorder"
begin

text \<open>
  The account object of the scanner, \<open>src/src/db/account.cpp\<close>: the outputs of an account that
  can be spent, the one-time public keys it has seen, and what a scan has found. The base58
  address is made outside of the repository.

  The object without its shared immutable part is a moved-from one; using it is an error.
\<close>

section \<open>The object\<close>

record immutable =
  im_address :: string
  im_id :: account_id
  im_pubs :: account_address
  im_view_key :: secret_key

record lws_account =
  la_immutable :: "immutable option"
  la_spendable :: "(output_id \<times> address_index) list"
  la_pubs :: "public_key list"
  la_spends :: "spend list"
  la_outputs :: "db_output list"
  la_height :: block_id

definition account_internal :: "(account_address \<Rightarrow> string) \<Rightarrow> account \<Rightarrow> immutable" where
  "account_internal address_string source =
     \<lparr>im_address = address_string (a_address source), im_id = a_id source,
      im_pubs = a_address source, im_view_key = a_key source\<rparr>"

text \<open>\<open>sort_pubs\<close> compares bytes, which is the order of the numbers they are in the model.\<close>

definition make_account :: "(account_address \<Rightarrow> string) \<Rightarrow> account \<Rightarrow> (output_id \<times> address_index) list \<Rightarrow>
    public_key list \<Rightarrow> lws_account" where
  "make_account address_string source spendable pubs =
     \<lparr>la_immutable = Some (account_internal address_string source), la_spendable = sort spendable,
      la_pubs = sort pubs, la_spends = [], la_outputs = [], la_height = a_scan_height source\<rparr>"

definition empty_account :: lws_account where
  "empty_account = \<lparr>la_immutable = None, la_spendable = [], la_pubs = [], la_spends = [], la_outputs = [], la_height = 0\<rparr>"

definition null_check :: "lws_account \<Rightarrow> error + immutable" where
  "null_check self = (case la_immutable self of None \<Rightarrow> Inl Invalid_argument | Some i \<Rightarrow> Inr i)"

definition lws_account_id :: "lws_account \<Rightarrow> account_id" where
  "lws_account_id self = (case la_immutable self of None \<Rightarrow> account_id_invalid | Some i \<Rightarrow> im_id i)"

definition db_address :: "lws_account \<Rightarrow> error + account_address" where
  "db_address self = check (null_check self) (\<lambda>i. Inr (im_pubs i))"

definition account_view_key :: "lws_account \<Rightarrow> error + secret_key" where
  "account_view_key self = check (null_check self) (\<lambda>i. Inr (im_view_key i))"

text \<open>A copy of the object has everything but the memory.\<close>

definition clone :: "lws_account \<Rightarrow> lws_account" where
  "clone self = \<lparr>la_immutable = la_immutable self, la_spendable = la_spendable self, la_pubs = la_pubs self,
     la_spends = la_spends self, la_outputs = la_outputs self, la_height = la_height self\<rparr>"

definition updated_to :: "lws_account \<Rightarrow> block_id \<Rightarrow> lws_account" where
  "updated_to self new_height =
     self\<lparr>la_height := max (la_height self) new_height, la_spends := [], la_outputs := []\<rparr>"

text \<open>The object of a stored account, \<open>storage_reader::get_full_account\<close>.\<close>

definition get_full_account :: "'t lmdb \<Rightarrow> (account_address \<Rightarrow> string) \<Rightarrow> account \<Rightarrow> 't tables \<Rightarrow> lws_account" where
  "get_full_account L address_string user s =
     (let receive_list = m_dups (outputs_m L) (outputs_t s) (a_id user) in
      make_account address_string user
        (map (\<lambda>out. (sm_id (o_spend_meta out), o_recipient out)) receive_list) (map o_pub receive_list))"

section \<open>Searching and inserting in sorted lists\<close>

text \<open>\<open>std::lower_bound\<close>, as what is from the position on and what is before it.\<close>

definition from_bound :: "'a::linorder \<Rightarrow> 'a list \<Rightarrow> 'a list" where
  "from_bound x xs = dropWhile (\<lambda>y. y < x) xs"

definition insert_bound :: "'a::linorder \<Rightarrow> 'a list \<Rightarrow> 'a list" where
  "insert_bound x xs = takeWhile (\<lambda>y. y < x) xs @ x # dropWhile (\<lambda>y. y < x) xs"

definition get_spendable :: "lws_account \<Rightarrow> output_id \<Rightarrow> address_index option" where
  "get_spendable self out =
     (case from_bound (out, Address_index 0 0) (la_spendable self) of
        [] \<Rightarrow> None
      | found # _ \<Rightarrow> if fst found \<noteq> out then None else Some (snd found))"

definition add_account_out :: "lws_account \<Rightarrow> db_output \<Rightarrow> bool \<times> lws_account" where
  "add_account_out self out =
     (case from_bound (o_pub out) (la_pubs self) of
        existing # _ \<Rightarrow>
          if existing = o_pub out then (False, self)
          else (True, self\<lparr>la_pubs := insert_bound (o_pub out) (la_pubs self),
                 la_spendable := insert_bound (sm_id (o_spend_meta out), o_recipient out) (la_spendable self),
                 la_outputs := la_outputs self @ [out]\<rparr>)
      | [] \<Rightarrow> (True, self\<lparr>la_pubs := insert_bound (o_pub out) (la_pubs self),
                 la_spendable := insert_bound (sm_id (o_spend_meta out), o_recipient out) (la_spendable self),
                 la_outputs := la_outputs self @ [out]\<rparr>))"

definition add_account_spend :: "lws_account \<Rightarrow> spend \<Rightarrow> lws_account" where
  "add_account_spend self sp = self\<lparr>la_spends := la_spends self @ [sp]\<rparr>"

section \<open>Lemmas\<close>

lemma insert_bound_sorted: "sorted xs \<Longrightarrow> insert_bound x xs = insort x xs"
proof (induction xs)
  case (Cons y ys)
  then show ?case by (cases "y < x") (auto simp: insert_bound_def not_less)
qed (simp add: insert_bound_def)

lemma sorted_insert_bound: "sorted xs \<Longrightarrow> sorted (insert_bound x xs)"
  by (simp add: insert_bound_sorted sorted_insort)

lemma set_insert_bound [simp]: "set (insert_bound x xs) = insert x (set xs)"
proof -
  have "set (takeWhile P xs) \<union> set (dropWhile P xs) = set xs" for P
    by (metis set_append takeWhile_dropWhile_id)
  then show ?thesis unfolding insert_bound_def by auto
qed

lemma from_bound_first:
  assumes "sorted xs" "from_bound x xs = y # ys"
  shows "y \<in> set xs" "x \<le> y" "\<And>z. z \<in> set xs \<Longrightarrow> x \<le> z \<Longrightarrow> y \<le> z"
proof -
  have s: "sorted (y # ys)" using assms sorted_wrt_dropWhile unfolding from_bound_def by metis
  have xs: "xs = takeWhile (\<lambda>y. y < x) xs @ y # ys"
    using assms(2) by (simp add: from_bound_def) (metis takeWhile_dropWhile_id)
  show "y \<in> set xs" by (subst xs) simp
  show "x \<le> y" using assms(2) hd_dropWhile[of "\<lambda>y. y < x" xs] by (simp add: from_bound_def)
  fix z assume z: "z \<in> set xs" "x \<le> z"
  have "z \<in> set (takeWhile (\<lambda>y. y < x) xs) \<or> z \<in> set (y # ys)" using z(1) by (subst (asm) xs) auto
  then show "y \<le> z" using s z(2) by (auto dest: set_takeWhileD)
qed

lemma from_bound_Nil: "from_bound x xs = [] \<Longrightarrow> z \<in> set xs \<Longrightarrow> z < x"
  by (auto simp: from_bound_def dropWhile_eq_Nil_conv)

lemma first_address_index: "Address_index 0 0 \<le> i"
  by (cases i) (auto simp: less_eq_address_index_def less_address_index_def word_neq_0_conv)

text \<open>What the object keeps true: both lists are sorted, and a key is seen once.\<close>

definition account_ok :: "lws_account \<Rightarrow> bool" where
  "account_ok self \<longleftrightarrow> sorted (la_spendable self) \<and> sorted (la_pubs self)"

lemma make_account_ok: "account_ok (make_account address_string source spendable pubs)"
  by (simp add: account_ok_def make_account_def)

lemma account_ok_updated: "account_ok self \<Longrightarrow> account_ok (updated_to self h)"
  by (simp add: account_ok_def updated_to_def)

lemma pub_found:
  assumes "sorted pubs"
  shows "(\<exists>rest. from_bound p pubs = p # rest) \<longleftrightarrow> p \<in> set pubs"
proof
  assume "\<exists>rest. from_bound p pubs = p # rest"
  then show "p \<in> set pubs" using from_bound_first(1)[OF assms] by blast
next
  assume p: "p \<in> set pubs"
  then obtain y ys where y: "from_bound p pubs = y # ys"
    using from_bound_Nil[of p pubs p] by (cases "from_bound p pubs") auto
  with from_bound_first[OF assms y] p have "y = p" by (simp add: antisym)
  with y show "\<exists>rest. from_bound p pubs = p # rest" by blast
qed

lemma add_account_out_eq:
  assumes "account_ok self"
  shows "add_account_out self out =
    (if o_pub out \<in> set (la_pubs self) then (False, self)
     else (True, self\<lparr>la_pubs := insert_bound (o_pub out) (la_pubs self),
             la_spendable := insert_bound (sm_id (o_spend_meta out), o_recipient out) (la_spendable self),
             la_outputs := la_outputs self @ [out]\<rparr>))"
  using pub_found[of "la_pubs self" "o_pub out"] assms
  by (auto simp: add_account_out_def account_ok_def split: list.splits)

lemma get_spendable_Some:
  assumes "account_ok self"
  shows "get_spendable self out = Some i \<longleftrightarrow>
    (out, i) \<in> set (la_spendable self) \<and> (\<forall>j. (out, j) \<in> set (la_spendable self) \<longrightarrow> i \<le> j)"
proof -
  let ?x = "(out, Address_index 0 0)" and ?xs = "la_spendable self"
  have s: "sorted ?xs" using assms by (simp add: account_ok_def)
  have low: "?x \<le> (out, j)" for j by (simp add: less_eq_prod_def first_address_index)
  show ?thesis
  proof (cases "from_bound ?x ?xs")
    case Nil
    have "(out, j) \<notin> set ?xs" for j using from_bound_Nil[OF Nil, of "(out, j)"] low[of j] by auto
    with Nil show ?thesis by (simp add: get_spendable_def)
  next
    case (Cons y ys)
    note f = from_bound_first[OF s Cons]
    have least: "y \<le> (out, j)" if "(out, j) \<in> set ?xs" for j using f(3)[OF that low] .
    show ?thesis
    proof (cases "fst y = out")
      case True
      then obtain k where y: "y = (out, k)" by (cases y) auto
      have "k \<le> j" if "(out, j) \<in> set ?xs" for j using least[OF that] by (simp add: y less_eq_prod_def)
      with f(1) Cons show ?thesis by (auto simp: get_spendable_def y intro: antisym)
    next
      case False
      with f(2) have "out < fst y" by (cases y) (auto simp: less_eq_prod_def)
      then have "(out, j) \<notin> set ?xs" for j using least[of j] by (cases y) (auto simp: less_eq_prod_def)
      with Cons False show ?thesis by (simp add: get_spendable_def)
    qed
  qed
qed

lemma get_spendable_None:
  assumes "account_ok self"
  shows "get_spendable self out = None \<longleftrightarrow> (\<forall>j. (out, j) \<notin> set (la_spendable self))"
proof
  show "\<forall>j. (out, j) \<notin> set (la_spendable self) \<Longrightarrow> get_spendable self out = None"
    using get_spendable_Some[OF assms] by (cases "get_spendable self out") auto
next
  assume none: "get_spendable self out = None"
  show "\<forall>j. (out, j) \<notin> set (la_spendable self)"
  proof (rule ccontr)
    assume "\<not> ?thesis"
    then obtain j where j: "j \<in> {j. (out, j) \<in> set (la_spendable self)}" by blast
    have "finite {j. (out, j) \<in> set (la_spendable self)}"
      by (rule finite_subset[of _ "snd ` set (la_spendable self)"]) (force, simp)
    with j have "get_spendable self out = Some (Min {j. (out, j) \<in> set (la_spendable self)})"
      unfolding get_spendable_Some[OF assms] using Min_in by auto
    with none show False by simp
  qed
qed

section \<open>Properties\<close>

text \<open>
  An output is taken by an account exactly when its one-time public key was not seen before,
  so an attacker who sends twice to one key (of which only one can be spent) is credited once.
  The output is then found as spendable, what was spendable stays so, and the lists stay sorted.
\<close>

theorem account_takes_key_once:
  assumes "account_ok self" and "add_account_out self out = (added, self')"
  shows "account_ok self' \<and> (added \<longleftrightarrow> o_pub out \<notin> set (la_pubs self)) \<and>
    (\<not> added \<longrightarrow> self' = self) \<and>
    (added \<longrightarrow> la_outputs self' = la_outputs self @ [out] \<and> get_spendable self' (sm_id (o_spend_meta out)) \<noteq> None) \<and>
    (\<forall>i. get_spendable self i \<noteq> None \<longrightarrow> get_spendable self' i \<noteq> None) \<and>
    (\<forall>out'. o_pub out' = o_pub out \<longrightarrow> add_account_out self' out' = (False, self'))"
proof -
  have ok: "account_ok self'"
    using assms(1,2) add_account_out_eq[OF assms(1), of out]
    by (auto simp: account_ok_def sorted_insert_bound split: if_splits)
  show ?thesis
    using assms(2) ok add_account_out_eq[OF assms(1), of out] add_account_out_eq[OF ok]
      get_spendable_None[OF ok] get_spendable_None[OF assms(1)]
    by (auto split: if_splits)
qed

theorem account_takes_key_once_witness:
  "\<exists>self'. add_account_out empty_account (demo_output 2 1) = (True, self') \<and>
     add_account_out self' (demo_output 2 1) = (False, self')"
proof -
  let ?out = "demo_output 2 1"
  have ok: "account_ok empty_account" by (simp add: account_ok_def empty_account_def)
  obtain added self' where r: "add_account_out empty_account ?out = (added, self')" by fastforce
  have "o_pub ?out \<notin> set (la_pubs empty_account)" by (simp add: empty_account_def)
  with account_takes_key_once[OF ok r] r show ?thesis by auto
qed

text \<open>
  The search for a spendable output finds an output exactly when the account has it, with the
  first of the subaddresses it is recorded for.
\<close>

theorem get_spendable_finds:
  assumes "account_ok self"
  shows "(get_spendable self out = Some i \<longleftrightarrow>
      (out, i) \<in> set (la_spendable self) \<and> (\<forall>j. (out, j) \<in> set (la_spendable self) \<longrightarrow> i \<le> j)) \<and>
    (get_spendable self out = None \<longleftrightarrow> (\<forall>j. (out, j) \<notin> set (la_spendable self)))"
  using get_spendable_Some[OF assms] get_spendable_None[OF assms] by blast

theorem get_spendable_finds_witness:
  "get_spendable (make_account (\<lambda>a. []) demo_account [(Output_id 0 2, Address_index 0 1), (Output_id 0 1, Address_index 0 0)] [])
     (Output_id 0 2) = Some (Address_index 0 1)"
  unfolding get_spendable_finds[OF make_account_ok, THEN conjunct1] by (auto simp: make_account_def)

text \<open>
  The object made of a stored account can spend exactly the stored outputs, and a scan does
  not accept an output again whose one-time public key is stored.
\<close>

theorem full_account_knows_outputs:
  "(get_spendable (get_full_account L address_string user s) out_id \<noteq> None \<longleftrightarrow>
      (\<exists>out \<in> set (m_dups (outputs_m L) (outputs_t s) (a_id user)). sm_id (o_spend_meta out) = out_id)) \<and>
   (fst (add_account_out (get_full_account L address_string user s) new) \<longleftrightarrow>
      o_pub new \<notin> o_pub ` set (m_dups (outputs_m L) (outputs_t s) (a_id user)))"
proof -
  let ?self = "get_full_account L address_string user s"
  have ok: "account_ok ?self" by (simp add: get_full_account_def Let_def make_account_ok)
  show ?thesis
    using get_spendable_None[OF ok, of out_id] add_account_out_eq[OF ok, of new]
    by (auto simp: get_full_account_def Let_def make_account_def)
qed

end
