(* ===== verification/Threads.thy ===== *)
theory Threads
  imports LwsAccount "HOL-Library.Multiset"
begin

text \<open>
  How the scanner divides the accounts among its threads, \<open>check_loop\<close> of
  \<open>src/src/scanner.cpp\<close>: by the number of blocks every account is behind, with some threads kept
  for accounts that are nearly synced, or evenly by count.

  The number of threads for synced accounts is rounded from a floating point ratio and is an
  argument here. \<open>None\<close> is a write behind the end of the vector of threads, which is undefined.
  \<open>std::sort\<close> leaves equal elements in any order; here they keep theirs. The minima and maxima of
  the depths of a thread are only logged.
\<close>

section \<open>By depth\<close>

record account_depth =
  ad_index :: nat
  ad_blockdepth :: u64
  ad_raw_blockdepth :: u64

definition depth_of :: "block_id \<Rightarrow> u64 \<Rightarrow> lws_account list \<Rightarrow> nat \<Rightarrow> account_depth" where
  "depth_of current_height min_block_depth users i =
     (let raw_blockdepth = current_height - la_height (users ! i) in
      \<lparr>ad_index = i, ad_blockdepth = max raw_blockdepth min_block_depth, ad_raw_blockdepth = raw_blockdepth\<rparr>)"

definition account_depths :: "block_id \<Rightarrow> u64 \<Rightarrow> lws_account list \<Rightarrow> account_depth list" where
  "account_depths current_height min_block_depth users =
     sort_key ad_raw_blockdepth (map (depth_of current_height min_block_depth users) [0..<length users])"

definition push_to :: "nat \<Rightarrow> 'a \<Rightarrow> 'a list list \<Rightarrow> 'a list list option" where
  "push_to i x threads = (if i < length threads then Some (threads[i := threads ! i @ [x]]) else None)"

text \<open>Synced accounts go round the threads for them; \<open>i\<close> counts the accounts.\<close>

fun assign_synced :: "lws_account list \<Rightarrow> nat \<Rightarrow> nat \<Rightarrow> account_depth list \<Rightarrow> lws_account list list \<Rightarrow>
    lws_account list list option" where
  "assign_synced users n i [] threads = Some threads"
| "assign_synced users n i (ad # ads) threads =
     Option.bind (push_to (i mod n) (users ! ad_index ad) threads) (assign_synced users n (Suc i) ads)"

text \<open>
  The others fill one thread after the other: threads with an even number take one account more
  than their share, the ones with an odd number one less.
\<close>

fun assign_by_depth :: "lws_account list \<Rightarrow> nat \<Rightarrow> nat \<Rightarrow> u64 \<Rightarrow> nat \<Rightarrow> u64 \<Rightarrow> account_depth list \<Rightarrow>
    lws_account list list \<Rightarrow> lws_account list list option" where
  "assign_by_depth users start_thread last_thread per_thread current depth [] threads = Some threads"
| "assign_by_depth users start_thread last_thread per_thread current depth (ad # ads) threads =
     (let move_on = (current < last_thread \<and>
            (if (current - start_thread) mod 2 = 0 then per_thread \<le> depth
             else per_thread < depth + ad_blockdepth ad));
          (current, depth) = (if move_on then (Suc current, 0) else (current, depth)) in
      Option.bind (push_to current (users ! ad_index ad) threads)
        (assign_by_depth users start_thread last_thread per_thread current (depth + ad_blockdepth ad) ads))"

definition assign_rest :: "lws_account list \<Rightarrow> nat \<Rightarrow> nat \<Rightarrow> account_depth list \<Rightarrow> lws_account list list \<Rightarrow>
    lws_account list list option" where
  "assign_rest users start_thread num_threads ads threads =
     (if ads \<noteq> [] \<and> 0 < num_threads
      then assign_by_depth users start_thread (start_thread + num_threads - 1)
        (sum_list (map ad_blockdepth ads) div of_nat num_threads) start_thread 0 ads threads
      else Some threads)"

definition assign_threads :: "nat \<Rightarrow> u64 \<Rightarrow> (nat \<times> u64) option \<Rightarrow> block_id \<Rightarrow> lws_account list \<Rightarrow>
    lws_account list list option" where
  "assign_threads thread_count min_block_depth split current_height users =
     (let depths = account_depths current_height min_block_depth users;
          threads = replicate thread_count [] in
      case split of
        None \<Rightarrow> assign_rest users 0 thread_count depths threads
      | Some (num_synced_threads, split_sync_depth) \<Rightarrow>
          let synced = filter (\<lambda>ad. ad_raw_blockdepth ad \<le> split_sync_depth) depths;
              unsynced = filter (\<lambda>ad. \<not> ad_raw_blockdepth ad \<le> split_sync_depth) depths in
          if synced = [] then assign_rest users 0 thread_count unsynced threads
          else
            Option.bind (assign_synced users (min num_synced_threads (length synced)) 0 synced threads)
              (assign_rest users num_synced_threads (thread_count - num_synced_threads) unsynced))"

section \<open>By count\<close>

text \<open>The users are sorted by height; each thread takes its share of the rest from the back.\<close>

fun divide_evenly :: "nat \<Rightarrow> 'a list \<Rightarrow> 'a list list" where
  "divide_evenly 0 users = []"
| "divide_evenly (Suc threads) users =
     (let count = length users div Suc threads;
          keep = length users - count in
      drop keep users # divide_evenly threads (take keep users))"

definition assign_evenly :: "nat \<Rightarrow> lws_account list \<Rightarrow> lws_account list list" where
  "assign_evenly thread_count users = divide_evenly thread_count (sort_key la_height users)"

section \<open>Nothing is lost\<close>

definition given :: "lws_account list list \<Rightarrow> lws_account multiset" where
  "given threads = mset (concat threads)"

lemma push_to_ok:
  assumes "i < length threads"
  shows "\<exists>threads'. push_to i x threads = Some threads' \<and> length threads' = length threads \<and>
    given threads' = add_mset x (given threads)"
proof -
  have "mset (concat (threads[i := threads ! i @ [x]])) = add_mset x (mset (concat threads))" using assms
  proof (induction threads arbitrary: i)
    case (Cons t threads)
    then show ?case by (cases i) auto
  qed simp
  with assms show ?thesis by (simp add: push_to_def given_def)
qed

definition users_of :: "lws_account list \<Rightarrow> account_depth list \<Rightarrow> lws_account multiset" where
  "users_of users ads = image_mset (\<lambda>ad. users ! ad_index ad) (mset ads)"

lemma users_of_simps [simp]:
  "users_of users [] = {#}" "users_of users (ad # ads) = add_mset (users ! ad_index ad) (users_of users ads)"
  by (simp_all add: users_of_def)

lemma assign_synced_ok:
  "0 < n \<Longrightarrow> n \<le> length threads \<Longrightarrow> \<exists>threads'. assign_synced users n i ads threads = Some threads' \<and>
     length threads' = length threads \<and> given threads' = given threads + users_of users ads"
proof (induction ads arbitrary: i threads)
  case (Cons ad ads)
  have "i mod n < length threads" using Cons.prems by (meson less_le_trans mod_less_divisor)
  from push_to_ok[OF this] obtain t1 where t1: "push_to (i mod n) (users ! ad_index ad) threads = Some t1"
    "length t1 = length threads" "given t1 = add_mset (users ! ad_index ad) (given threads)" by blast
  with Cons.IH[of t1 "Suc i"] Cons.prems show ?case by auto
qed simp

lemma assign_by_depth_ok:
  "current \<le> lst \<Longrightarrow> lst < length threads \<Longrightarrow> \<exists>threads'. assign_by_depth users st lst per current depth ads threads = Some threads' \<and>
     length threads' = length threads \<and> given threads' = given threads + users_of users ads"
proof (induction ads arbitrary: current depth threads)
  case (Cons ad ads)
  define move_on where "move_on \<longleftrightarrow> current < lst \<and>
    (if (current - st) mod 2 = 0 then per \<le> depth else per < depth + ad_blockdepth ad)"
  define c d where "c = (if move_on then Suc current else current)" and "d = (if move_on then 0 else depth)"
  have c: "c \<le> lst" using Cons.prems by (auto simp: c_def move_on_def)
  then have "c < length threads" using Cons.prems by simp
  from push_to_ok[OF this] obtain t1 where t1: "push_to c (users ! ad_index ad) threads = Some t1"
    "length t1 = length threads" "given t1 = add_mset (users ! ad_index ad) (given threads)" by blast
  have "assign_by_depth users st lst per current depth (ad # ads) threads =
      assign_by_depth users st lst per c (d + ad_blockdepth ad) ads t1"
    using t1(1) by (cases move_on) (simp_all add: Let_def move_on_def[symmetric] c_def d_def)
  with Cons.IH[of c t1 "d + ad_blockdepth ad"] c t1 Cons.prems show ?case by auto
qed simp

lemma assign_rest_ok:
  assumes "st + n = length threads"
  shows "\<exists>threads'. assign_rest users st n ads threads = Some threads' \<and> length threads' = length threads \<and>
    given threads' = given threads + (if n = 0 then {#} else users_of users ads)"
  using assign_by_depth_ok[of st "st + n - 1" threads users st _ 0 ads] assms
  by (cases "n = 0"; cases "ads = []") (auto simp: assign_rest_def)

lemma users_of_depths: "users_of users (account_depths h m users) = mset users"
proof -
  have "mset (account_depths h m users) = mset (map (depth_of h m users) [0..<length users])"
    by (simp add: account_depths_def)
  then have "users_of users (account_depths h m users) = image_mset (\<lambda>i. users ! i) (mset [0..<length users])"
    by (simp add: users_of_def image_mset.compositionality o_def depth_of_def Let_def)
  also have "\<dots> = mset (map (\<lambda>i. users ! i) [0..<length users])" by simp
  finally show ?thesis by (simp add: map_nth)
qed

lemma users_of_split:
  "users_of users (filter P ads) + users_of users (filter (\<lambda>ad. \<not> P ad) ads) = users_of users ads"
  by (simp add: users_of_def flip: image_mset_union)

lemma users_of_filter:
  "users_of users (filter (\<lambda>ad. ad_raw_blockdepth ad \<le> d) (account_depths h m users)) =
     filter_mset (\<lambda>u. h - la_height u \<le> d) (mset users)"
proof -
  have i: "ad_raw_blockdepth ad = h - la_height (users ! ad_index ad)" if "ad \<in> set (account_depths h m users)" for ad
    using that by (auto simp: account_depths_def depth_of_def Let_def)
  have "users_of users (filter (\<lambda>ad. ad_raw_blockdepth ad \<le> d) (account_depths h m users)) =
      image_mset (\<lambda>ad. users ! ad_index ad) (filter_mset (\<lambda>ad. h - la_height (users ! ad_index ad) \<le> d) (mset (account_depths h m users)))"
    unfolding users_of_def mset_filter by (rule arg_cong[OF filter_mset_cong]) (simp_all add: i)
  also have "\<dots> = filter_mset (\<lambda>u. h - la_height u \<le> d) (users_of users (account_depths h m users))"
    by (simp add: users_of_def filter_mset_image_mset)
  finally show ?thesis by (simp add: users_of_depths)
qed

lemma divide_evenly_sizes:
  "q * n \<le> length xs \<Longrightarrow> length xs \<le> Suc q * n \<Longrightarrow> t \<in> set (divide_evenly n xs) \<Longrightarrow> length t = q \<or> length t = Suc q"
proof (induction n arbitrary: xs)
  case (Suc n)
  let ?c = "length xs div Suc n"
  let ?rest = "take (length xs - ?c) xs"
  have len: "length ?rest = length xs - ?c" "length (drop (length xs - ?c) xs) = ?c"
    by (simp_all add: div_le_dividend)
  have lo: "q \<le> ?c" using Suc.prems(1) by (metis div_le_mono nonzero_mult_div_cancel_right nat.distinct(1))
  have hi: "?c \<le> Suc q" using Suc.prems(2) by (metis div_le_mono nonzero_mult_div_cancel_right nat.distinct(1))
  show ?case
  proof (cases "t = drop (length xs - ?c) xs")
    case True
    with lo hi len show ?thesis by auto
  next
    case False
    then have t: "t \<in> set (divide_evenly n ?rest)" using Suc.prems(3) by (simp add: Let_def)
    have "q * n \<le> length ?rest \<and> length ?rest \<le> Suc q * n"
    proof (cases "?c = q")
      case True
      then have "length xs < Suc q * Suc n" by (metis lessI mult.commute dividend_less_div_times zero_less_Suc Suc_eq_plus1 add.commute mult_Suc)
      with True Suc.prems(1) show ?thesis unfolding len by simp linarith
    next
      case False
      with lo hi have c: "?c = Suc q" by simp
      then have "Suc q * Suc n \<le> length xs" by (metis div_times_less_eq_dividend)
      with c Suc.prems(2) show ?thesis unfolding len by simp linarith
    qed
    with Suc.IH[OF _ _ t] show ?thesis by blast
  qed
qed simp

lemma divide_evenly_length: "length (divide_evenly n xs) = n"
  by (induction n arbitrary: xs) (simp_all add: Let_def)

lemma divide_evenly_all: "0 < n \<Longrightarrow> mset (concat (divide_evenly n xs)) = mset xs"
proof (induction n arbitrary: xs)
  case (Suc n)
  let ?keep = "length xs - length xs div Suc n"
  show ?case
  proof (cases "0 < n")
    case False
    then show ?thesis by simp
  next
    case True
    from Suc.IH[OF this] have "mset (concat (divide_evenly (Suc n) xs)) = mset (drop ?keep xs) + mset (take ?keep xs)" by (simp add: Let_def)
    also have "\<dots> = mset xs" by (metis append_take_drop_id mset_append add.commute)
    finally show ?thesis .
  qed
qed simp

section \<open>Properties\<close>

text \<open>
  Dividing by depth never writes behind the threads, and gives every account to one thread,
  except when all threads are taken for the synced accounts: then those that are not synced go to
  no thread at all.
\<close>

theorem assign_threads_gives:
  assumes "0 < thread_count"
    and "\<And>n d. split = Some (n, d) \<Longrightarrow> 0 < n \<and> n \<le> thread_count"
  shows "\<exists>threads. assign_threads thread_count min_block_depth split current_height users = Some threads \<and>
    length threads = thread_count \<and>
    mset (concat threads) =
      (case split of
         None \<Rightarrow> mset users
       | Some (n, d) \<Rightarrow>
           let synced = filter_mset (\<lambda>u. current_height - la_height u \<le> d) (mset users) in
           if n = thread_count \<and> synced \<noteq> {#} then synced else mset users)"
proof (cases split)
  case None
  from assign_rest_ok[of 0 thread_count "replicate thread_count []" users "account_depths current_height min_block_depth users"] assms(1)
  show ?thesis by (auto simp: assign_threads_def None users_of_depths given_def)
next
  case (Some nd)
  obtain n d where nd: "split = Some (n, d)" using Some by (cases nd) auto
  then have n: "0 < n" "n \<le> thread_count" using assms(2) by blast+
  let ?ads = "account_depths current_height min_block_depth users"
  let ?synced = "filter (\<lambda>ad. ad_raw_blockdepth ad \<le> d) ?ads"
  let ?unsynced = "filter (\<lambda>ad. \<not> ad_raw_blockdepth ad \<le> d) ?ads"
  have sy: "users_of users ?synced = filter_mset (\<lambda>u. current_height - la_height u \<le> d) (mset users)"
    by (rule users_of_filter)
  have both: "users_of users ?synced + users_of users ?unsynced = mset users"
    by (simp only: users_of_split users_of_depths)
  have e: "?synced = [] \<longleftrightarrow> filter_mset (\<lambda>u. current_height - la_height u \<le> d) (mset users) = {#}"
    unfolding sy[symmetric] users_of_def by (auto simp: filter_empty_conv)
  show ?thesis
  proof (cases "?synced = []")
    case True
    have "users_of users ?unsynced = mset users" using both unfolding True by simp
    with assign_rest_ok[of 0 thread_count "replicate thread_count []" users ?unsynced] assms(1)
    show ?thesis using True e by (auto simp: assign_threads_def nd Let_def given_def)
  next
    case False
    then have m: "0 < min n (length ?synced)" using n by simp
    have ml: "min n (length ?synced) \<le> length (replicate thread_count [])" using n by simp
    obtain t1 where t1: "assign_synced users (min n (length ?synced)) 0 ?synced (replicate thread_count []) = Some t1"
      "length t1 = thread_count" "given t1 = users_of users ?synced"
      using assign_synced_ok[OF m ml, of users 0 ?synced] by (auto simp: given_def)
    have "n + (thread_count - n) = length t1" using n t1(2) by simp
    from assign_rest_ok[OF this, of users ?unsynced] obtain t2 where
      t2: "assign_rest users n (thread_count - n) ?unsynced t1 = Some t2" "length t2 = thread_count"
      "given t2 = users_of users ?synced + (if thread_count - n = 0 then {#} else users_of users ?unsynced)"
      using t1(2,3) by metis
    have "assign_threads thread_count min_block_depth split current_height users = Some t2"
      using False t1(1) t2(1) by (simp add: assign_threads_def nd Let_def)
    moreover have "mset (concat t2) = (if n = thread_count then users_of users ?synced else mset users)"
      using t2(3) n both by (simp add: given_def)
    ultimately show ?thesis using t2(2) False e sy by (simp add: nd Let_def)
  qed
qed

theorem assign_threads_gives_witness:
  "\<exists>threads. assign_threads 2 16 (Some (1, 10)) 100
       [make_account (\<lambda>a. []) (demo_account\<lparr>a_scan_height := 95\<rparr>) [] [], make_account (\<lambda>a. []) demo_account2 [] []] = Some threads \<and>
     mset (concat threads) = {#make_account (\<lambda>a. []) (demo_account\<lparr>a_scan_height := 95\<rparr>) [] [], make_account (\<lambda>a. []) demo_account2 [] []#}"
  using assign_threads_gives[of 2 "Some (1, 10)" 16 100
    "[make_account (\<lambda>a. []) (demo_account\<lparr>a_scan_height := 95\<rparr>) [] [], make_account (\<lambda>a. []) demo_account2 [] []]"]
  by auto

text \<open>
  Dividing by count gives every account to one thread, and no thread two accounts more than
  another.
\<close>

theorem assign_evenly_balances:
  assumes "0 < thread_count"
  shows "length (assign_evenly thread_count users) = thread_count \<and>
    mset (concat (assign_evenly thread_count users)) = mset users \<and>
    (\<forall>t \<in> set (assign_evenly thread_count users).
       length t = length users div thread_count \<or> length t = Suc (length users div thread_count))"
proof -
  let ?xs = "sort_key la_height users" and ?q = "length users div thread_count"
  have b: "?q * thread_count \<le> length ?xs" "length ?xs \<le> Suc ?q * thread_count"
    using assms by (simp_all add: dividend_less_div_times less_imp_le_nat)
  show ?thesis
    unfolding assign_evenly_def using divide_evenly_sizes[OF b] divide_evenly_all[OF assms, of ?xs]
    by (auto simp: divide_evenly_length)
qed

theorem assign_evenly_balances_witness:
  "length (assign_evenly 2 (replicate 5 empty_account)) = 2 \<and>
     mset (concat (assign_evenly 2 (replicate 5 empty_account))) = replicate_mset 5 empty_account"
  using assign_evenly_balances[of 2 "replicate 5 empty_account"] by simp

end
