(* ===== verification/Requests.thy ===== *)
theory Requests
  imports Lookahead Rollback
begin

text \<open>
  Setting accounts back to a height and the requests of \<open>src/src/db/storage.cpp\<close> that an
  administrator accepts: \<open>change_height\<close>, \<open>rescan\<close>, \<open>create_accounts\<close>, \<open>import_accounts\<close> and
  \<open>accept_requests\<close>. They run \<open>do_lookahead\<close>, which may not end; then they give \<open>None\<close>.

  \<open>import_accounts\<close> reads the lookahead of a request through a pointer to the row after the row
  was deleted; what is found there is an argument of the model.
\<close>

section \<open>Setting an account back\<close>

text \<open>The account as the caller changed it is stored, and its row by height moved.\<close>

definition move_height :: "'t lmdb \<Rightarrow> account_lookup \<Rightarrow> account \<Rightarrow> block_id \<Rightarrow> block_id \<Rightarrow> 't tables \<Rightarrow>
    error + 't tables" where
  "move_height L lookup user current_height height s =
     lmdb_check (m_put (accounts_m L) MDB_CURRENT (al_status lookup) user (accounts_t s)) (\<lambda>ta.
     lmdb_check (get_both (accounts_bh_m L) al_id (accounts_bh_t s) current_height (a_id user)) (\<lambda>old.
     lmdb_check (m_del (accounts_bh_m L) current_height old (accounts_bh_t s)) (\<lambda>tbh.
     lmdb_check (m_put (accounts_bh_m L) MDB_NODUPDATA height lookup tbh) (\<lambda>tbh.
       Inr (s\<lparr>accounts_t := ta, accounts_bh_t := tbh\<rparr>)))))"

definition lowered :: "block_id \<Rightarrow> account \<Rightarrow> account" where
  "lowered height user = user\<lparr>a_scan_height := min height (a_scan_height user),
     a_start_height := min height (a_start_height user),
     a_lookahead_fail := (if height \<le> a_lookahead_fail user then 0 else a_lookahead_fail user)\<rparr>"

text \<open>\<open>cursors\<close> says whether the caller passed the cursors of the subaddress tables.\<close>

definition change_height :: "'t lmdb \<Rightarrow> crypto \<Rightarrow> bool \<Rightarrow> block_id \<Rightarrow> account_address \<Rightarrow> address_index \<Rightarrow> u32 \<Rightarrow>
    't tables \<Rightarrow> (error + 't tables) option" where
  "change_height L C cursors height address lookahead max_subs s =
     (case find_lookup L address s of
        Inl e \<Rightarrow> Some (Inl e)
      | Inr value \<Rightarrow>
     let lookup = ba_lookup value in
     (case get_both (accounts_m L) a_id (accounts_t s) (al_status lookup) (al_id lookup) of
        Inl e \<Rightarrow> Some (Inl (Mdb e))
      | Inr user \<Rightarrow>
     let current_height = a_scan_height user;
         user = lowered height user in
     (case check (rollback_outputs L (a_id user) height s) (rollback_spends L (a_id user) height) of
        Inl e \<Rightarrow> Some (Inl e)
      | Inr s \<Rightarrow>
     (case (if \<not> is_zero lookahead \<and> cursors then user_lookahead L C user lookahead max_subs s
            else Some (Inr (user, s))) of
        None \<Rightarrow> None
      | Some (Inl e) \<Rightarrow> Some (Inl e)
      | Some (Inr (user, s)) \<Rightarrow> Some (move_height L lookup user current_height height s)))))"

fun rescan_loop :: "'t lmdb \<Rightarrow> crypto \<Rightarrow> block_id \<Rightarrow> account_address list \<Rightarrow> account_address list \<Rightarrow> 't tables \<Rightarrow>
    (error + account_address list \<times> 't tables) option" where
  "rescan_loop L C height [] updated s = Some (Inr (updated, s))"
| "rescan_loop L C height (address # addresses) updated s =
     (case change_height L C False height address (Address_index 0 0) 0 s of
        None \<Rightarrow> None
      | Some (Inr s) \<Rightarrow> rescan_loop L C height addresses (updated @ [address]) s
      | Some (Inl e) \<Rightarrow>
          if e \<noteq> Lws account_not_found then Some (Inl e) else rescan_loop L C height addresses updated s)"

definition rescan :: "'t lmdb \<Rightarrow> crypto \<Rightarrow> block_id \<Rightarrow> account_address list \<Rightarrow> 't tables \<Rightarrow>
    (error + account_address list \<times> 't tables) option" where
  "rescan L C height addresses s =
     (case get_last_dup (blocks_m L) (blocks_t s) blocks_version of
        Inl e \<Rightarrow> Some (Inl (Mdb e))
      | Inr block \<Rightarrow>
          if bi_id block < height then Some (Inl (Lws bad_height))
          else rescan_loop L C height addresses [] s)"

section \<open>Accepting requests\<close>

text \<open>
  A request whose account cannot be added because its keys are taken or do not match is dropped,
  and the loop goes on with what the lookahead of that account has written.
\<close>

definition requested_account :: "account_id \<Rightarrow> account_time \<Rightarrow> request_info \<Rightarrow> account_address \<Rightarrow> account" where
  "requested_account next_id current_time info address =
     \<lparr>a_id = next_id, a_access = current_time, a_address = address, a_key = r_key info,
      a_scan_height = r_start_height info, a_start_height = r_start_height info,
      a_creation = r_creation info, a_flags = r_creation_flags info,
      a_lookahead = Address_index 0 0, a_lookahead_fail = 0\<rparr>"

fun create_loop :: "'t lmdb \<Rightarrow> crypto \<Rightarrow> u32 \<Rightarrow> account_time \<Rightarrow> account_address list \<Rightarrow> account_id \<Rightarrow> account_address list \<Rightarrow>
    't tables \<Rightarrow> (error + account_address list \<times> 't tables) option" where
  "create_loop L C max_subs current_time [] last_id stored s = Some (Inr (stored, s))"
| "create_loop L C max_subs current_time (address # addresses) last_id stored s =
     (case get_both (requests_m L) r_spend (requests_t s) create (spend_public address) of
        Inl e \<Rightarrow>
          if e = MDB_NOTFOUND then create_loop L C max_subs current_time addresses last_id stored s
          else Some (Inl (Mdb e))
      | Inr info \<Rightarrow>
     (case m_del (requests_m L) create info (requests_t s) of
        Inl e \<Rightarrow> Some (Inl (Mdb e))
      | Inr tr \<Rightarrow>
     let s = s\<lparr>requests_t := tr\<rparr>;
         next_id = last_id + 1 in
     if next_id = account_id_invalid then Some (Inl (Lws account_max))
     else
     let user = requested_account next_id current_time info address in
     (case (if \<not> is_zero (r_lookahead info) then user_lookahead L C user (r_lookahead info) max_subs s
            else Some (Inr (user, s))) of
        None \<Rightarrow> None
      | Some (Inl e) \<Rightarrow> Some (Inl e)
      | Some (Inr (user, s)) \<Rightarrow>
          (case do_add_account L (secret_key_to_public_key C) user s of
             Inl e \<Rightarrow>
               if e = Lws account_exists \<or> e = Lws bad_view_key
               then create_loop L C max_subs current_time addresses last_id stored s
               else Some (Inl e)
           | Inr s \<Rightarrow> create_loop L C max_subs current_time addresses next_id (stored @ [address]) s))))"

definition create_accounts :: "'t lmdb \<Rightarrow> crypto \<Rightarrow> int \<Rightarrow> account_address list \<Rightarrow> u32 \<Rightarrow> 't tables \<Rightarrow>
    (error + account_address list \<times> 't tables) option" where
  "create_accounts L C now addresses max_subs s =
     (case get_account_time now of
        Inl e \<Rightarrow> Some (Inl e)
      | Inr current_time \<Rightarrow> create_loop L C max_subs current_time addresses (find_last_id L s) [] s)"

fun import_loop :: "'t lmdb \<Rightarrow> crypto \<Rightarrow> (request_info \<Rightarrow> 't \<Rightarrow> address_index) \<Rightarrow> u32 \<Rightarrow> account_address list \<Rightarrow>
    account_address list \<Rightarrow> 't tables \<Rightarrow> (error + account_address list \<times> 't tables) option" where
  "import_loop L C after_del max_subs [] updated s = Some (Inr (updated, s))"
| "import_loop L C after_del max_subs (address # addresses) updated s =
     (case get_both (requests_m L) r_spend (requests_t s) import_scan (spend_public address) of
        Inl e \<Rightarrow>
          if e = MDB_NOTFOUND then import_loop L C after_del max_subs addresses updated s
          else Some (Inl (Mdb e))
      | Inr info \<Rightarrow>
     let new_height = r_start_height info in
     (case m_del (requests_m L) import_scan info (requests_t s) of
        Inl e \<Rightarrow> Some (Inl (Mdb e))
      | Inr tr \<Rightarrow>
     let lookahead = after_del info tr in
     (case change_height L C True new_height address lookahead max_subs (s\<lparr>requests_t := tr\<rparr>) of
        None \<Rightarrow> None
      | Some (Inr s) \<Rightarrow> import_loop L C after_del max_subs addresses (updated @ [address]) s
      | Some (Inl e) \<Rightarrow>
          if e \<noteq> Lws account_not_found then Some (Inl e)
          else import_loop L C after_del max_subs addresses updated (s\<lparr>requests_t := tr\<rparr>))))"

definition import_accounts :: "'t lmdb \<Rightarrow> crypto \<Rightarrow> (request_info \<Rightarrow> 't \<Rightarrow> address_index) \<Rightarrow> account_address list \<Rightarrow> u32 \<Rightarrow>
    't tables \<Rightarrow> (error + account_address list \<times> 't tables) option" where
  "import_accounts L C after_del addresses max_subs s =
     import_loop L C after_del max_subs addresses [] s"

definition accept_requests :: "'t lmdb \<Rightarrow> crypto \<Rightarrow> int \<Rightarrow> (request_info \<Rightarrow> 't \<Rightarrow> address_index) \<Rightarrow> request \<Rightarrow>
    account_address list \<Rightarrow> u32 \<Rightarrow> 't tables \<Rightarrow> (error + account_address list \<times> 't tables) option" where
  "accept_requests L C now after_del req addresses max_subs s =
     (if addresses = [] then Some (Inr ([], s))
      else case req of
        create \<Rightarrow> create_accounts L C now addresses max_subs s
      | import_scan \<Rightarrow> import_accounts L C after_del addresses max_subs s)"

section \<open>What setting back does\<close>

lemma lowered_sel [simp]:
  "a_id (lowered h a) = a_id a" "a_address (lowered h a) = a_address a"
  "a_scan_height (lowered h a) = min h (a_scan_height a)"
  by (simp_all add: lowered_def)

lemma lowered_lowered [simp]: "lowered h (lowered h a) = lowered h a"
  by (simp add: lowered_def)

lemma lookup_of_lowered [simp]: "lookup_of st (lowered h a) = lookup_of st a"
  by (simp add: lookup_of_def)

definition relower :: "block_id \<Rightarrow> account_address list \<Rightarrow> account_status \<times> account \<Rightarrow> account_status \<times> account" where
  "relower h addresses p =
     (if view_public (a_address (snd p)) \<in> view_public ` set addresses then (fst p, lowered h (snd p)) else p)"

lemma relower_Cons: "relower h as (relower h [a] p) = relower h (a # as) p"
  by (simp add: relower_def)

lemma relower_sel [simp]: "a_id (snd (relower h as p)) = a_id (snd p)" "a_address (snd (relower h as p)) = a_address (snd p)"
  by (simp_all add: relower_def)

definition view_ids :: "'t lmdb \<Rightarrow> 't tables \<Rightarrow> account_address list \<Rightarrow> account_id set" where
  "view_ids L s addresses =
     (\<lambda>p. a_id (snd p)) ` {p \<in> acct_set L s. view_public (a_address (snd p)) \<in> view_public ` set addresses}"

context lmdb_store begin

lemma move_height_eq:
  assumes inv: "accounts_inv L s" and a: "a \<in> set (accounts_rows L s st)" and u: "a_id u = a_id a"
  shows "\<exists>ta tbh. move_height L (lookup_of st a) u (a_scan_height a) h s = Inr (s\<lparr>accounts_t := ta, accounts_bh_t := tbh\<rparr>) \<and>
    acct_set L (s\<lparr>accounts_t := ta, accounts_bh_t := tbh\<rparr>) = insert (st, u) (acct_set L s - {(st, a)}) \<and>
    height_set L (s\<lparr>accounts_t := ta, accounts_bh_t := tbh\<rparr>) =
      insert (h, lookup_of st a) (height_set L s - {(a_scan_height a, lookup_of st a)})"
proof -
  let ?ta = "tput (accounts_m L) st u (accounts_t s)"
  let ?lk = "lookup_of st a"
  let ?t1 = "tdel (accounts_bh_m L) (a_scan_height a) ?lk (accounts_bh_t s)"
  let ?tbh = "tput (accounts_bh_m L) h ?lk ?t1"
  have lk: "?lk \<in> set (by_height_rows L s (a_scan_height a))" by (rule accounts_invD(2)[OF inv a])
  have p1: "m_put (accounts_m L) MDB_CURRENT st u (accounts_t s) = Inr ?ta"
    using a u by (intro accounts.put_current_eq) (auto simp: has_row_def intro: image_eqI[of _ _ a])
  have gh: "get_both (accounts_bh_m L) al_id (accounts_bh_t s) (a_scan_height a) (a_id u) = Inr ?lk"
    using lk u by simp
  have d1: "m_del (accounts_bh_m L) (a_scan_height a) ?lk (accounts_bh_t s) = Inr ?t1" using lk by simp
  have other: "al_id lk' \<noteq> a_id a" if "lk' \<in> set (by_height_rows L s k)" "k \<noteq> a_scan_height a" for lk' k
    using by_height_unique[OF inv that(1) lk] that(2) by auto
  have nr: "\<not> has_row al_id (al_id ?lk) (m_dups (accounts_bh_m L) ?t1 h)"
  proof
    assume "has_row al_id (al_id ?lk) (m_dups (accounts_bh_m L) ?t1 h)"
    then obtain lk' where "lk' \<in> set (m_dups (accounts_bh_m L) ?t1 h)" "al_id lk' = a_id a" by (auto simp: has_row_def)
    then show False using other[of lk' h] lk by (auto simp: set_del_row split: if_splits)
  qed
  have run: "move_height L ?lk u (a_scan_height a) h s = Inr (s\<lparr>accounts_t := ?ta, accounts_bh_t := ?tbh\<rparr>)"
    using nr by (simp add: move_height_def p1 gh d1)
  moreover have "rows_set (accounts_m L) ?ta = insert (st, u) (acct_set L s - {(st, a)})"
    using accounts.rows_put_over[of st a "accounts_t s" u] a u by (simp add: acct_set_def rows_set_def)
  moreover have "rows_set (accounts_bh_m L) ?tbh = insert (h, ?lk) (height_set L s - {(a_scan_height a, ?lk)})"
  proof -
    have "rows_set (accounts_bh_m L) ?t1 = height_set L s - {(a_scan_height a, ?lk)}"
      unfolding height_set_def by (rule accounts_bh.rows_del) (use lk in \<open>simp add: rows_set_def\<close>)
    then show ?thesis using accounts_bh.rows_put_new[OF nr] by simp
  qed
  ultimately show ?thesis by (auto simp: acct_set_def height_set_def)
qed

lemma change_height_none:
  assumes "accounts_inv L s" "\<not> has_view L s address"
  shows "change_height L C cursors h address l m s = Some (Inl (Lws account_not_found))"
proof -
  have "get_both (accounts_ba_m L) ba_view (accounts_ba_t s) by_address_version (view_public address) = Inl MDB_NOTFOUND"
    using assms has_view_row[OF assms(1)] by (simp add: accounts_ba.get_both_Inl_iff)
  then show ?thesis by (simp add: change_height_def find_lookup_def)
qed

text \<open>Without a lookahead, whatever the height.\<close>

lemma change_height_run:
  assumes inv: "accounts_inv L s" "images_inv L s" and a: "a \<in> set (accounts_rows L s st)"
    and v: "view_public (a_address a) = view_public address"
  shows "\<exists>s'. change_height L C False h address l m s = Some (Inr s') \<and> images_inv L s' \<and>
    outputs_rows L s' = cut output_height h {a_id a} (outputs_rows L s) \<and>
    spends_rows L s' = cut spend_height h {a_id a} (spends_rows L s) \<and>
    acct_set L s' = insert (st, lowered h a) (acct_set L s - {(st, a)}) \<and>
    height_set L s' = insert (h, lookup_of st a) (height_set L s - {(a_scan_height a, lookup_of st a)}) \<and>
    by_address_rows L s' = by_address_rows L s \<and> blocks_rows L s' = blocks_rows L s"
proof -
  let ?e = "address_entry (st, a)"
  have e: "?e \<in> set (by_address_rows L s)" using accounts_invD(5)[OF inv(1) a] by (simp add: address_entry_def)
  have fl: "find_lookup L address s = Inr ?e" using e v by (simp add: find_lookup_Inr address_entry_def)
  have ga: "get_both (accounts_m L) a_id (accounts_t s) st (a_id a) = Inr a" using a by simp
  obtain to where o1: "rollback_outputs L (a_id a) h s = Inr (s\<lparr>outputs_t := to\<rparr>)"
    "m_dups (outputs_m L) to = (outputs_rows L s)(a_id a := filter (\<lambda>out. output_height out < h) (outputs_rows L s (a_id a)))"
    using rollback_outputs_eq by blast
  let ?s1 = "s\<lparr>outputs_t := to\<rparr>"
  have "images_inv L ?s1" using inv(2) by (simp add: images_inv_def)
  then obtain ti ts where sp: "rollback_spends L (a_id a) h ?s1 = Inr (?s1\<lparr>images_t := ti, spends_t := ts\<rparr>)"
    "m_dups (spends_m L) ts = (spends_rows L ?s1)(a_id a := filter (\<lambda>sp. spend_height sp < h) (spends_rows L ?s1 (a_id a)))"
    "images_inv L (?s1\<lparr>images_t := ti, spends_t := ts\<rparr>)"
    using rollback_spends_eq by blast
  let ?s2 = "?s1\<lparr>images_t := ti, spends_t := ts\<rparr>"
  have inv2: "accounts_inv L ?s2" using inv(1) by (simp add: accounts_inv_def)
  have a2: "a \<in> set (accounts_rows L ?s2 st)" using a by simp
  obtain ta tbh where m: "move_height L (lookup_of st a) (lowered h a) (a_scan_height a) h ?s2 = Inr (?s2\<lparr>accounts_t := ta, accounts_bh_t := tbh\<rparr>)"
    "acct_set L (?s2\<lparr>accounts_t := ta, accounts_bh_t := tbh\<rparr>) = insert (st, lowered h a) (acct_set L ?s2 - {(st, a)})"
    "height_set L (?s2\<lparr>accounts_t := ta, accounts_bh_t := tbh\<rparr>) =
      insert (h, lookup_of st a) (height_set L ?s2 - {(a_scan_height a, lookup_of st a)})"
    using move_height_eq[OF inv2 a2, of "lowered h a" h] by auto
  let ?s3 = "?s2\<lparr>accounts_t := ta, accounts_bh_t := tbh\<rparr>"
  have "change_height L C False h address l m s = Some (Inr ?s3)"
    using ga by (simp add: change_height_def fl address_entry_def Let_def o1(1) sp(1) m(1) del: accounts.get_both_Inr_iff)
  moreover have "images_inv L ?s3" using sp(3) by (simp add: images_inv_def)
  moreover have "outputs_rows L ?s3 = cut output_height h {a_id a} (outputs_rows L s)"
    "spends_rows L ?s3 = cut spend_height h {a_id a} (spends_rows L s)"
    by (auto simp: o1(2) sp(2) cut_def fun_eq_iff)
  moreover have "acct_set L ?s2 = acct_set L s" "height_set L ?s2 = height_set L s"
    by (simp_all add: acct_set_def height_set_def)
  ultimately show ?thesis using m(2,3) by (intro exI[of _ ?s3]) simp
qed

lemma change_height_eq:
  assumes inv: "accounts_inv L s" "images_inv L s" and a: "a \<in> set (accounts_rows L s st)"
    and v: "view_public (a_address a) = view_public address" and h: "h \<le> a_scan_height a"
  shows "\<exists>s'. change_height L C False h address l m s = Some (Inr s') \<and> images_inv L s' \<and> accounts_inv L s' \<and>
    outputs_rows L s' = cut output_height h {a_id a} (outputs_rows L s) \<and>
    spends_rows L s' = cut spend_height h {a_id a} (spends_rows L s) \<and>
    acct_set L s' = relower h [address] ` acct_set L s \<and> blocks_rows L s' = blocks_rows L s"
proof -
  obtain s' where s': "change_height L C False h address l m s = Some (Inr s')" "images_inv L s'"
    "outputs_rows L s' = cut output_height h {a_id a} (outputs_rows L s)"
    "spends_rows L s' = cut spend_height h {a_id a} (spends_rows L s)"
    and A: "acct_set L s' = insert (st, lowered h a) (acct_set L s - {(st, a)})"
    and H: "height_set L s' = insert (h, lookup_of st a) (height_set L s - {(a_scan_height a, lookup_of st a)})"
    and B: "by_address_rows L s' = by_address_rows L s" and bl: "blocks_rows L s' = blocks_rows L s"
    using change_height_run[OF inv a v] by blast
  have p: "(st, a) \<in> acct_set L s" using a by simp
  have ae: "address_entry (st, lowered h a) = address_entry (st, a)" "address_entry (st, a) \<in> set (by_address_rows L s)"
    using accounts_invD(5)[OF inv(1) a] by (simp_all add: address_entry_def)
  have "accounts_inv L s'"
  proof (rule accounts_inv_replace[OF inv(1) p _ A])
    show "height_set L s' = insert (height_entry (st, lowered h a)) (height_set L s - {height_entry (st, a)})"
      using h by (simp add: H height_entry_def min_absorb1)
    show "set (by_address_rows L s') = insert (address_entry (st, lowered h a)) (set (by_address_rows L s) - {address_entry (st, a)})"
      using ae(2) unfolding B ae(1) by (simp add: insert_absorb)
  qed simp
  moreover have "acct_set L s' = relower h [address] ` acct_set L s"
  proof -
    have "relower h [address] ` acct_set L s = (\<lambda>x. if x = (st, a) then (st, lowered h a) else x) ` acct_set L s"
    proof (rule image_cong[OF refl])
      fix x assume x: "x \<in> acct_set L s"
      have "x = (st, a)" if "view_public (a_address (snd x)) = view_public address"
        using view_unique[OF inv(1) _ a, of "snd x" "fst x"] x that v by (cases x) simp
      then show "relower h [address] x = (if x = (st, a) then (st, lowered h a) else x)"
        using v by (cases "x = (st, a)") (auto simp: relower_def)
    qed
    also have "\<dots> = insert (st, lowered h a) (acct_set L s - {(st, a)})" by (rule image_swap[OF p])
    finally show ?thesis using A by simp
  qed
  ultimately show ?thesis using s' bl by (intro exI[of _ s']) simp
qed

lemma rescan_loop_eq:
  assumes "accounts_inv L s" "images_inv L s"
    "\<And>p. p \<in> acct_set L s \<Longrightarrow> view_public (a_address (snd p)) \<in> view_public ` set addresses \<Longrightarrow> h \<le> a_scan_height (snd p)"
  shows "\<exists>s'. rescan_loop L C h addresses updated s = Some (Inr (updated @ filter (has_view L s) addresses, s')) \<and>
    accounts_inv L s' \<and> images_inv L s' \<and> acct_set L s' = relower h addresses ` acct_set L s \<and>
    outputs_rows L s' = cut output_height h (view_ids L s addresses) (outputs_rows L s) \<and>
    spends_rows L s' = cut spend_height h (view_ids L s addresses) (spends_rows L s)"
  using assms
proof (induction addresses arbitrary: updated s)
  case Nil
  then show ?case by (simp add: relower_def view_ids_def cut_def fun_eq_iff)
next
  case (Cons ad as)
  show ?case
  proof (cases "has_view L s ad")
    case False
    have none: "view_public (a_address (snd p)) \<noteq> view_public ad" if "p \<in> acct_set L s" for p
      using False that by (auto simp: has_view_def)
    have "relower h (ad # as) ` acct_set L s = relower h as ` acct_set L s"
      by (rule image_cong) (auto simp: relower_def dest: none)
    moreover have "view_ids L s (ad # as) = view_ids L s as" using none by (auto simp: view_ids_def)
    moreover have "rescan_loop L C h (ad # as) updated s = rescan_loop L C h as updated s"
      using change_height_none[OF Cons.prems(1) False] by simp
    ultimately show ?thesis using Cons.IH[OF Cons.prems(1,2), of updated] Cons.prems(3) False by simp
  next
    case True
    then obtain st b where b: "b \<in> set (accounts_rows L s st)" "view_public (a_address b) = view_public ad"
      by (auto simp: has_view_def)
    then have "h \<le> a_scan_height b" using Cons.prems(3)[of "(st, b)"] by simp
    from change_height_eq[OF Cons.prems(1,2) b this, of C "Address_index 0 0" 0] obtain s1 where
      s1: "change_height L C False h ad (Address_index 0 0) 0 s = Some (Inr s1)" "images_inv L s1" "accounts_inv L s1"
      "outputs_rows L s1 = cut output_height h {a_id b} (outputs_rows L s)"
      "spends_rows L s1 = cut spend_height h {a_id b} (spends_rows L s)"
      and A: "acct_set L s1 = relower h [ad] ` acct_set L s" by blast
    have ids: "view_ids L s1 xs = view_ids L s xs" for xs
      unfolding view_ids_def A Compr_image_eq image_image by (simp del: acct_set_iff)
    have one: "view_ids L s (ad # as) = insert (a_id b) (view_ids L s as)"
    proof -
      have u: "p = (st, b)" if "p \<in> acct_set L s" "view_public (a_address (snd p)) = view_public ad" for p
        using view_unique[OF Cons.prems(1) _ b(1), of "snd p" "fst p"] that b(2) by (cases p) simp
      have i: "(st, b) \<in> acct_set L s" "view_public (a_address (snd (st, b))) = view_public ad" using b by simp_all
      have V: "view_public (a_address (snd p)) \<in> view_public ` set (ad # as) \<longleftrightarrow>
          view_public (a_address (snd p)) = view_public ad \<or> view_public (a_address (snd p)) \<in> view_public ` set as" for p
        by simp
      have "{p \<in> acct_set L s. view_public (a_address (snd p)) \<in> view_public ` set (ad # as)} =
          insert (st, b) {p \<in> acct_set L s. view_public (a_address (snd p)) \<in> view_public ` set as}"
        unfolding V using u i by blast
      then show ?thesis by (simp add: view_ids_def del: acct_set_iff)
    qed
    have cc: "cut ht h X (cut ht h {i} rows) = cut ht h (insert i X) rows" for ht X i and rows :: "account_id \<Rightarrow> 'v list"
      by (auto simp: cut_def fun_eq_iff)
    have hv: "has_view L s1 = has_view L s" by (auto simp: has_view_def A fun_eq_iff simp del: acct_set_iff)
    have low: "h \<le> a_scan_height (snd p)"
      if "p \<in> acct_set L s1" "view_public (a_address (snd p)) \<in> view_public ` set as" for p
    proof -
      from that(1) obtain q where q: "q \<in> acct_set L s" "p = relower h [ad] q" unfolding A by blast
      then have "h \<le> a_scan_height (snd q)" if "view_public (a_address (snd q)) \<in> view_public ` set (ad # as)"
        using Cons.prems(3) that by blast
      with that q(2) show ?thesis by (auto simp: relower_def)
    qed
    obtain s' where "rescan_loop L C h as (updated @ [ad]) s1 = Some (Inr ((updated @ [ad]) @ filter (has_view L s1) as, s'))"
      "accounts_inv L s'" "images_inv L s'" "acct_set L s' = relower h as ` acct_set L s1"
      "outputs_rows L s' = cut output_height h (view_ids L s1 as) (outputs_rows L s1)"
      "spends_rows L s' = cut spend_height h (view_ids L s1 as) (spends_rows L s1)"
      using Cons.IH[OF s1(3,2) low, of "updated @ [ad]"] by blast
    moreover have "relower h as ` acct_set L s1 = relower h (ad # as) ` acct_set L s"
      unfolding A image_image relower_Cons ..
    ultimately show ?thesis using True
      by (intro exI[of _ s']) (simp add: s1(1) hv ids one s1(4,5) cc)
  qed
qed

end

section \<open>What accepting requests does\<close>

text \<open>The lookahead writes to the tables of subaddresses only, also when it fails.\<close>

definition sub_frame :: "'t tables \<Rightarrow> 't tables \<Rightarrow> bool" where
  "sub_frame s s' \<longleftrightarrow>
     s'\<lparr>subaddress_ranges_t := subaddress_ranges_t s, subaddress_indexes_t := subaddress_indexes_t s\<rparr> = s"

lemma sub_frame_refl [simp]: "sub_frame s s"
  by (simp add: sub_frame_def)

lemma sub_frame_trans: "sub_frame s s' \<Longrightarrow> sub_frame s' s'' \<Longrightarrow> sub_frame s s''"
  unfolding sub_frame_def by (cases s; cases s'; cases s'') simp

lemma sub_frame_ranges: "sub_frame s s' \<Longrightarrow> sub_frame s (s'\<lparr>subaddress_ranges_t := t\<rparr>)"
  unfolding sub_frame_def by (cases s; cases s') simp

lemma sub_frame_indexes: "sub_frame s s' \<Longrightarrow> sub_frame s (s'\<lparr>subaddress_indexes_t := t\<rparr>)"
  unfolding sub_frame_def by (cases s; cases s') simp

lemma upsert_merge_frame: "upsert_merge L i m e out c s = (s', r) \<Longrightarrow> sub_frame s s'"
  by (auto simp: upsert_merge_def sub_frame_ranges split: sum.splits if_splits option.splits)

lemma upsert_loop_frame: "upsert_loop L C i a vk m es out c s = (s', r) \<Longrightarrow> sub_frame s s'"
proof (induction es arbitrary: out c s)
  case (Cons e es)
  obtain s1 r1 where u: "upsert_merge L i m e out c s = (s1, r1)" by (cases "upsert_merge L i m e out c s")
  note f = upsert_merge_frame[OF u]
  show ?case
  proof (cases "\<not> check_subaddress_dict e \<or> (\<exists>x. r1 = Inl x)")
    case True
    with Cons.prems u f show ?thesis by (auto split: if_splits)
  next
    case False
    then obtain nd out' c' where r1: "r1 = Inr (nd, out', c')" by (cases r1) auto
    have loop: "sub_frame s s'" if "upsert_loop L C i a vk m es out' c' (s1\<lparr>subaddress_indexes_t := ti, subaddress_ranges_t := tr\<rparr>) = (s', r)" for ti tr
      by (rule sub_frame_trans[OF sub_frame_ranges[OF sub_frame_indexes[OF f]] Cons.IH[OF that]])
    show ?thesis
    proof (cases "bulk_insert (subaddress_indexes_m L) MDB_NODUPDATA i (index_maps C a vk (fst e) nd) (subaddress_indexes_t s1)")
      case (Inl x)
      with Cons.prems False u r1 f show ?thesis by simp
    next
      case (Inr ti)
      show ?thesis
      proof (cases "m_put (subaddress_ranges_m L) MDB_NODUPDATA i (fst e, nd) (subaddress_ranges_t s1)")
        case (Inl x)
        with Cons.prems False u r1 Inr have "s1\<lparr>subaddress_indexes_t := ti\<rparr> = s'" by simp
        then show ?thesis using sub_frame_indexes[OF f, of ti] by simp
      next
        case (Inr tr)
        with Cons.prems False u r1 \<open>_ = Inr ti\<close> show ?thesis by (intro loop[of tr ti]) (simp add: Let_def)
      qed
    qed
  qed
qed simp

lemma do_lookahead_frame: "do_lookahead L C i a vk l m s = Some (s', r) \<Longrightarrow> sub_frame s s'"
  by (auto simp: do_lookahead_def do_upsert_def Let_def dest: upsert_loop_frame
      split: if_splits option.splits sum.splits prod.splits)

definition subs_changed :: "account \<Rightarrow> account \<Rightarrow> bool" where
  "subs_changed u u' \<longleftrightarrow> (\<exists>l f. u' = u\<lparr>a_lookahead := l, a_lookahead_fail := f\<rparr>)"

lemma subs_changed_refl [simp]: "subs_changed u u"
  unfolding subs_changed_def by (intro exI[of _ "a_lookahead u"] exI[of _ "a_lookahead_fail u"]) simp

lemma user_lookahead_frame:
  assumes "user_lookahead L C u l m s = Some (Inr (u', s'))"
  shows "sub_frame s s' \<and> subs_changed u u'"
proof -
  have "subs_changed u (u\<lparr>a_lookahead := l\<rparr>)"
    unfolding subs_changed_def by (intro exI[of _ l] exI[of _ "a_lookahead_fail u"]) simp
  moreover have "subs_changed u (u\<lparr>a_lookahead := l, a_lookahead_fail := f\<rparr>)" for f
    unfolding subs_changed_def by blast
  ultimately show ?thesis
    using assms by (auto simp: user_lookahead_def dest: do_lookahead_frame split: option.splits sum.splits if_splits prod.splits)
qed

lemma sub_frame_accounts:
  assumes "sub_frame s s'"
  shows "accounts_t s' = accounts_t s" "accounts_ba_t s' = accounts_ba_t s" "accounts_bh_t s' = accounts_bh_t s"
  using assms unfolding sub_frame_def by (cases s; cases s'; simp)+

lemma accounts_same:
  assumes "accounts_t s' = accounts_t s" "accounts_ba_t s' = accounts_ba_t s" "accounts_bh_t s' = accounts_bh_t s"
  shows "accounts_inv L s' \<longleftrightarrow> accounts_inv L s" "acct_set L s' = acct_set L s"
  using assms by (simp_all add: accounts_inv_def acct_set_def)

context lmdb_store begin

text \<open>One request: the account is added, or the request dropped.\<close>

lemma create_loop_step:
  assumes inv: "accounts_inv L s" and bound: "\<forall>p \<in> acct_set L s. a_id (snd p) \<le> k" and k: "k \<noteq> -1"
    and run: "create_loop L C m t (ad # as) k stored s = Some (Inr (stored', s'))"
  obtains "\<exists>s1. create_loop L C m t as k stored s1 = Some (Inr (stored', s')) \<and> accounts_inv L s1 \<and> acct_set L s1 = acct_set L s"
  | s1 p where "create_loop L C m t as (k + 1) (stored @ [ad]) s1 = Some (Inr (stored', s'))" "accounts_inv L s1"
      "acct_set L s1 = insert p (acct_set L s)" "a_address (snd p) = ad" "a_id (snd p) = k + 1" "k + 1 \<noteq> -1"
      "secret_key_to_public_key C (a_key (snd p)) = Some (view_public ad)"
proof (cases "get_both (requests_m L) r_spend (requests_t s) create (spend_public ad)")
  case (Inl e)
  with run have "create_loop L C m t as k stored s = Some (Inr (stored', s'))" by (simp split: if_splits)
  with inv that(1) show ?thesis by blast
next
  case (Inr info)
  then have info: "info \<in> set (requests_rows L s create)" by simp
  let ?s1 = "s\<lparr>requests_t := tdel (requests_m L) create info (requests_t s)\<rparr>"
  let ?u = "requested_account (k + 1) t info ad"
  have next_id: "k + 1 \<noteq> -1" using run Inr info by (auto simp: account_id_invalid_def Let_def simp del: requests.get_both_Inr_iff)
  obtain u s2 where step: "sub_frame ?s1 s2" "subs_changed ?u u"
    and rest: "(case do_add_account L (secret_key_to_public_key C) u s2 of
             Inl e \<Rightarrow>
               if e = Lws account_exists \<or> e = Lws bad_view_key then create_loop L C m t as k stored s2 else Some (Inl e)
           | Inr s \<Rightarrow> create_loop L C m t as (k + 1) (stored @ [ad]) s) = Some (Inr (stored', s'))"
  proof (cases "is_zero (r_lookahead info)")
    case True
    show ?thesis
      by (rule that[of ?s1 ?u]) (use run Inr info next_id True in \<open>auto simp: account_id_invalid_def Let_def simp del: requests.get_both_Inr_iff\<close>)
  next
    case False
    then obtain u s2 where "user_lookahead L C ?u (r_lookahead info) m ?s1 = Some (Inr (u, s2))"
      "(case do_add_account L (secret_key_to_public_key C) u s2 of
             Inl e \<Rightarrow>
               if e = Lws account_exists \<or> e = Lws bad_view_key then create_loop L C m t as k stored s2 else Some (Inl e)
           | Inr s \<Rightarrow> create_loop L C m t as (k + 1) (stored @ [ad]) s) = Some (Inr (stored', s'))"
      using run Inr info next_id
      by (auto simp: account_id_invalid_def Let_def simp del: requests.get_both_Inr_iff split: option.splits sum.splits)
    with that user_lookahead_frame show ?thesis by blast
  qed
  have u: "a_id u = k + 1" "a_address u = ad" using step(2) by (auto simp: subs_changed_def requested_account_def)
  have same: "accounts_inv L s2" "acct_set L s2 = acct_set L s"
    using accounts_same[OF sub_frame_accounts[OF step(1)]] accounts_same[of ?s1 s] inv by simp_all
  have "k < k + 1"
  proof -
    have "1 + k \<noteq> 0" using k by (metis add.inverse_unique)
    then show ?thesis by (simp add: word_less_nat_alt unatSuc add.commute)
  qed
  then have fresh: "fresh_id L s2 (a_id u)"
    using bound unfolding fresh_id_def same(2) u(1) by (metis linorder_not_le)
  note add = do_add_account_eq[OF same(1) fresh, of "secret_key_to_public_key C", unfolded u same(2)]
  show ?thesis
  proof (cases "secret_key_to_public_key C (a_key u) = Some (view_public ad) \<and> \<not> has_view L s2 ad")
    case True
    with add obtain s3 where "do_add_account L (secret_key_to_public_key C) u s2 = Inr s3" "accounts_inv L s3"
      "acct_set L s3 = insert (initial_status (a_flags u), u) (acct_set L s)" by (auto simp: Let_def)
    with rest True u next_id show ?thesis by (intro that(2)[of s3 "(initial_status (a_flags u), u)"]) simp_all
  next
    case False
    with add rest same have "create_loop L C m t as k stored s2 = Some (Inr (stored', s'))" by (auto split: if_splits)
    with same that(1) show ?thesis by blast
  qed
qed

lemma create_loop_ok:
  assumes "accounts_inv L s" "\<forall>p \<in> acct_set L s. a_id (snd p) \<le> k" "k \<noteq> -1"
    "create_loop L C m t as k stored s = Some (Inr (stored', s'))"
  shows "accounts_inv L s' \<and> (\<exists>added N. stored' = stored @ added \<and> acct_set L s' = acct_set L s \<union> N \<and>
    set added = (\<lambda>p. a_address (snd p)) ` N \<and>
    (\<forall>p \<in> N. k < a_id (snd p) \<and> secret_key_to_public_key C (a_key (snd p)) = Some (view_public (a_address (snd p)))))"
  using assms
proof (induction as arbitrary: k stored s)
  case Nil
  then have "s' = s" "stored' = stored" by simp_all
  with Nil show ?case by (intro conjI exI[of _ "[]"] exI[of _ "{}"]) simp_all
next
  case (Cons ad as)
  from Cons.prems show ?case
  proof (cases rule: create_loop_step[consumes 4])
    case 1
    then obtain s1 where s1: "create_loop L C m t as k stored s1 = Some (Inr (stored', s'))" "accounts_inv L s1" "acct_set L s1 = acct_set L s"
      by blast
    show ?thesis using Cons.IH[OF s1(2) _ Cons.prems(3) s1(1)] Cons.prems(2) unfolding s1(3) by blast
  next
    case (2 s1 p)
    have lt: "k < k + 1"
    proof -
      have "1 + k \<noteq> 0" using Cons.prems(3) by (metis add.inverse_unique)
      then show ?thesis by (simp add: word_less_nat_alt unatSuc add.commute)
    qed
    have b: "\<forall>q \<in> acct_set L s1. a_id (snd q) \<le> k + 1"
    proof
      fix q assume "q \<in> acct_set L s1"
      then have "q = p \<or> a_id (snd q) \<le> k" using Cons.prems(2) unfolding 2(3) by blast
      then show "a_id (snd q) \<le> k + 1" using lt 2(5) by auto
    qed
    obtain added N where IH: "accounts_inv L s'" "stored' = (stored @ [ad]) @ added" "acct_set L s' = acct_set L s1 \<union> N"
      "set added = (\<lambda>p. a_address (snd p)) ` N"
      "\<forall>p \<in> N. k + 1 < a_id (snd p) \<and> secret_key_to_public_key C (a_key (snd p)) = Some (view_public (a_address (snd p)))"
      using Cons.IH[OF 2(2) b 2(6,1)] by blast
    have "\<forall>q \<in> insert p N. k < a_id (snd q) \<and> secret_key_to_public_key C (a_key (snd q)) = Some (view_public (a_address (snd q)))"
      using IH(5) lt 2(4,5,7) by (auto intro: less_trans)
    moreover have "set (ad # added) = (\<lambda>p. a_address (snd p)) ` insert p N" using IH(4) 2(4) by simp
    moreover have "acct_set L s' = acct_set L s \<union> insert p N" using IH(3) 2(3) by auto
    moreover have "stored' = stored @ ad # added" using IH(2) by simp
    ultimately show ?thesis using IH(1) by blast
  qed
qed

end

section \<open>Properties\<close>

text \<open>
  C36: A rescan from a height that all given accounts were already scanned to sets exactly these
  accounts back to it: their outputs and spends of that block and above are removed with the key
  images, other accounts keep theirs, and the account index and the key images stay consistent.
\<close>

theorem rescan_sets_back:
  assumes "lmdb_store L" and "accounts_inv L s" and "images_inv L s" and "blocks_rows L s \<noteq> []"
    and "height \<le> bi_id (last (blocks_rows L s))"
    and "\<And>st a. a \<in> set (accounts_rows L s st) \<Longrightarrow>
      view_public (a_address a) \<in> view_public ` set addresses \<Longrightarrow> height \<le> a_scan_height a"
  shows "\<exists>s'. rescan L C height addresses s = Some (Inr (filter (has_view L s) addresses, s')) \<and>
    accounts_inv L s' \<and> images_inv L s' \<and> acct_set L s' = relower height addresses ` acct_set L s \<and>
    outputs_rows L s' = cut output_height height (view_ids L s addresses) (outputs_rows L s) \<and>
    spends_rows L s' = cut spend_height height (view_ids L s addresses) (spends_rows L s)"
proof -
  have "height \<le> a_scan_height (snd p)"
    if "p \<in> acct_set L s" "view_public (a_address (snd p)) \<in> view_public ` set addresses" for p
    using assms(6)[of "snd p" "fst p"] that by (cases p) simp
  from lmdb_store.rescan_loop_eq[OF assms(1-3) this, where C = C and updated = "[]"]
  show ?thesis using assms(4,5) by (simp add: rescan_def get_last_dup_def not_less)
qed

theorem rescan_sets_back_witness:
  "\<exists>s'. rescan log_lmdb demo_crypto 3 [a_address demo_account] demo = Some (Inr ([a_address demo_account], s')) \<and>
     accounts_inv log_lmdb s' \<and> outputs_rows log_lmdb s' 1 = [demo_output 2 1] \<and> spends_rows log_lmdb s' 1 = []"
proof -
  have A: "acct_set log_lmdb demo = {(active, demo_account), (inactive, demo_account2)}"
    by (auto simp: demo_accounts split: account_status.splits)
  have b: "blocks_rows log_lmdb demo \<noteq> []" "3 \<le> bi_id (last (blocks_rows log_lmdb demo))"
    by (simp_all add: demo_blocks demo_block_def)
  have h: "3 \<le> a_scan_height a" if "a \<in> set (accounts_rows log_lmdb demo st)"
    "view_public (a_address a) \<in> view_public ` set [a_address demo_account]" for st a
    using that by (cases st) (auto simp: demo_accounts demo_account_def demo_account2_def)
  have "has_view log_lmdb demo (a_address demo_account)" unfolding has_view_def A by simp
  moreover have "1 \<in> view_ids log_lmdb demo [a_address demo_account]"
    unfolding view_ids_def A by (force simp: demo_account_def)
  moreover have "outputs_rows log_lmdb demo 1 = [demo_output 2 1, demo_output 3 2]"
    by (simp add: log_simps demo_def output_key_def demo_output_def)
  moreover obtain s' where
    "rescan log_lmdb demo_crypto 3 [a_address demo_account] demo =
       Some (Inr (filter (has_view log_lmdb demo) [a_address demo_account], s'))" "accounts_inv log_lmdb s'"
    "outputs_rows log_lmdb s' = cut output_height 3 (view_ids log_lmdb demo [a_address demo_account]) (outputs_rows log_lmdb demo)"
    "spends_rows log_lmdb s' = cut spend_height 3 (view_ids log_lmdb demo [a_address demo_account]) (spends_rows log_lmdb demo)"
    using rescan_sets_back[OF log.lmdb_store_axioms demo_accounts_inv demo_images_inv b, of "[a_address demo_account]" demo_crypto] h
    by blast
  ultimately show ?thesis
    by (intro exI[of _ s']) (simp add: cut_def demo_spends output_height_def spend_height_def demo_output_def demo_spend_def)
qed

text \<open>
  C36: A rescan from a height above what the account was scanned to, which the code allows up to
  the last block, leaves the account where it was but files it in \<open>accounts_by_height\<close> under
  the height asked for: the account index is inconsistent afterwards.
\<close>

theorem rescan_above_breaks_index:
  assumes "lmdb_store L" and "accounts_inv L s" and "images_inv L s" and "blocks_rows L s \<noteq> []"
    and "height \<le> bi_id (last (blocks_rows L s))"
    and "a \<in> set (accounts_rows L s st)" and "a_scan_height a < height"
  shows "\<exists>s'. rescan L C height [a_address a] s = Some (Inr ([a_address a], s')) \<and> \<not> accounts_inv L s' \<and>
    lowered height a \<in> set (accounts_rows L s' st) \<and> a_scan_height (lowered height a) = a_scan_height a \<and>
    lookup_of st a \<notin> set (by_height_rows L s' (a_scan_height a)) \<and> lookup_of st a \<in> set (by_height_rows L s' height)"
proof -
  obtain s' where s': "change_height L C False height (a_address a) (Address_index 0 0) 0 s = Some (Inr s')"
    "acct_set L s' = insert (st, lowered height a) (acct_set L s - {(st, a)})"
    "height_set L s' = insert (height, lookup_of st a) (height_set L s - {(a_scan_height a, lookup_of st a)})"
    using lmdb_store.change_height_run[OF assms(1-3,6) refl, of C height "Address_index 0 0" 0] by blast
  have a': "lowered height a \<in> set (accounts_rows L s' st)" using s'(2) acct_set_iff[of st "lowered height a" L s'] by blast
  have out: "lookup_of st a \<notin> set (by_height_rows L s' (a_scan_height a))"
    using s'(3) assms(7) by (simp flip: height_set_iff)
  have in_h: "lookup_of st a \<in> set (by_height_rows L s' height)" using s'(3) by (simp flip: height_set_iff)
  have sh: "a_scan_height (lowered height a) = a_scan_height a" using assms(7) by (simp add: min_absorb2)
  have "\<not> accounts_inv L s'"
  proof
    assume "accounts_inv L s'"
    from accounts_invD(2)[OF this a'] sh out show False by simp
  qed
  moreover have "rescan L C height [a_address a] s = Some (Inr ([a_address a], s'))"
    using assms(4,5) by (simp add: rescan_def get_last_dup_def not_less s'(1))
  ultimately show ?thesis using a' out in_h sh by blast
qed

theorem rescan_above_breaks_index_witness:
  "\<exists>s'. rescan log_lmdb demo_crypto 2 [a_address demo_account2] demo = Some (Inr ([a_address demo_account2], s')) \<and>
     \<not> accounts_inv log_lmdb s'"
proof -
  have b: "blocks_rows log_lmdb demo \<noteq> []" "2 \<le> bi_id (last (blocks_rows log_lmdb demo))"
    by (simp_all add: demo_blocks demo_block_def)
  have a: "demo_account2 \<in> set (accounts_rows log_lmdb demo inactive)" "a_scan_height demo_account2 < 2"
    by (simp_all add: demo_accounts demo_account2_def)
  show ?thesis
    using rescan_above_breaks_index[OF log.lmdb_store_axioms demo_accounts_inv demo_images_inv b a] by blast
qed

text \<open>
  Accepting creation requests keeps the account index consistent and all accounts, and adds
  accounts exactly for the addresses reported; each has an id above all old ones and a view key
  that fits its address.
\<close>

theorem create_accounts_correct:
  assumes "lmdb_store L" and "accounts_inv L s" and "find_last_id L s \<noteq> -1"
    and "create_accounts L C now addresses max_subs s = Some (Inr (stored, s'))"
  shows "accounts_inv L s' \<and> (\<exists>N. acct_set L s' = acct_set L s \<union> N \<and>
    set stored = (\<lambda>p. a_address (snd p)) ` N \<and>
    (\<forall>p \<in> N. find_last_id L s < a_id (snd p) \<and>
       secret_key_to_public_key C (a_key (snd p)) = Some (view_public (a_address (snd p)))))"
proof -
  from assms(4) obtain t where run: "create_loop L C max_subs t addresses (find_last_id L s) [] s = Some (Inr (stored, s'))"
    by (auto simp: create_accounts_def split: sum.splits)
  have b: "\<forall>p \<in> acct_set L s. a_id (snd p) \<le> find_last_id L s"
    using lmdb_store.find_last_id_ge[OF assms(1)] by auto
  from lmdb_store.create_loop_ok[OF assms(1,2) b assms(3) run] show ?thesis by auto
qed

definition demo_request :: request_info where
  "demo_request = \<lparr>r_address = \<lparr>view_public = 31, spend_public = 32\<rparr>, r_key = 31, r_start_height = 2,
     r_creation = 5, r_creation_flags = 0, r_lookahead = Address_index 0 0\<rparr>"

theorem create_accounts_correct_witness:
  "\<exists>s' a. create_accounts log_lmdb demo_crypto 1700000000 [r_address demo_request] 10
       (demo\<lparr>requests_t := [Cell_requests create demo_request]\<rparr>) = Some (Inr ([r_address demo_request], s')) \<and>
     accounts_inv log_lmdb s' \<and> a \<in> acct_set log_lmdb s' \<and> a_address (snd a) = r_address demo_request"
proof -
  let ?s = "demo\<lparr>requests_t := [Cell_requests create demo_request]\<rparr>"
  let ?s1 = "?s\<lparr>requests_t := tdel (requests_m log_lmdb) create demo_request (requests_t ?s)\<rparr>"
  let ?u = "requested_account (find_last_id log_lmdb ?s + 1) 1700000000 demo_request (r_address demo_request)"
  have inv_r: "accounts_inv log_lmdb (demo\<lparr>requests_t := t\<rparr>)" for t
    by (rule accounts_same(1)[THEN iffD2, OF _ _ _ demo_accounts_inv]) simp_all
  have set_r: "acct_set log_lmdb (demo\<lparr>requests_t := t\<rparr>) = {(active, demo_account), (inactive, demo_account2)}" for t
  proof -
    have "acct_set log_lmdb (demo\<lparr>requests_t := t\<rparr>) = acct_set log_lmdb demo" by (rule accounts_same(2)) simp_all
    also have "\<dots> = {(active, demo_account), (inactive, demo_account2)}" by (auto simp: demo_accounts split: account_status.splits)
    finally show ?thesis .
  qed
  have s1: "?s1 = demo\<lparr>requests_t := requests_t ?s1\<rparr>" by simp
  have A: "acct_set log_lmdb ?s1 = {(active, demo_account), (inactive, demo_account2)}"
    by (subst s1) (rule set_r)
  have inv: "accounts_inv log_lmdb ?s" "accounts_inv log_lmdb ?s1"
    by (rule inv_r, subst s1, rule inv_r)
  have l: "find_last_id log_lmdb ?s = 2"
    by (simp add: find_last_id_def log_lmdb_def log_mdb_def demo_def demo_account_def demo_account2_def
        less_account_status_def max_def)
  have g: "get_both (requests_m log_lmdb) r_spend [Cell_requests create demo_request] create (spend_public (r_address demo_request)) = Inr demo_request"
    by (simp add: log_simps r_spend_def get_both_def find_row_def)
  then have d: "m_del (requests_m log_lmdb) create demo_request [Cell_requests create demo_request] = Inr (requests_t ?s1)" by simp
  have fresh: "fresh_id log_lmdb ?s1 (a_id ?u)"
    unfolding fresh_id_def A by (simp add: l requested_account_def demo_account_def demo_account2_def)
  have nv: "\<not> has_view log_lmdb ?s1 (a_address ?u)"
    unfolding has_view_def A by (simp add: requested_account_def demo_request_def demo_account_def demo_account2_def)
  have k: "secret_key_to_public_key demo_crypto (a_key ?u) = Some (view_public (a_address ?u))"
    by (simp add: secret_key_to_public_key_def demo_crypto_def requested_account_def demo_request_def)
  obtain s' where s': "do_add_account log_lmdb (secret_key_to_public_key demo_crypto) ?u ?s1 = Inr s'"
    using log.do_add_account_eq[OF inv(2) fresh, of "secret_key_to_public_key demo_crypto"] k nv by (auto simp: Let_def)
  have z: "is_zero (r_lookahead demo_request)" by (simp add: demo_request_def is_zero_def)
  have run: "create_accounts log_lmdb demo_crypto 1700000000 [r_address demo_request] 10 ?s = Some (Inr ([r_address demo_request], s'))"
    using s' by (simp add: create_accounts_def Let_def get_account_time_def g d l account_id_invalid_def z del: log.requests.get_both_Inr_iff)
  have last: "find_last_id log_lmdb ?s \<noteq> -1" by (simp add: l)
  from create_accounts_correct[OF log.lmdb_store_axioms inv(1) last run]
  obtain N where N: "accounts_inv log_lmdb s'" "acct_set log_lmdb s' = acct_set log_lmdb ?s \<union> N"
    "set [r_address demo_request] = (\<lambda>p. a_address (snd p)) ` N" by blast
  from N(3) have "r_address demo_request \<in> (\<lambda>p. a_address (snd p)) ` N" by (metis list.set_intros(1))
  then obtain a where "a \<in> N" "a_address (snd a) = r_address demo_request" by (metis imageE)
  with run N(1,2) show ?thesis by blast
qed

end
