(* ===== verification/RestAccount.thy ===== *)
theory RestAccount
  imports Requests
begin

text \<open>
  What the handlers of the REST server (\<open>src/src/rest_server.cpp\<close>) share: opening an account with
  its view key, the limit on lookaheads, the locking of outputs, and the rescan after an import of
  key images. The constants of the currency and the clock (seconds since the epoch) are arguments.
\<close>

section \<open>Opening an account\<close>

record account_credentials =
  cr_address :: account_address
  cr_key :: secret_key

definition key_check :: "crypto \<Rightarrow> account_credentials \<Rightarrow> bool" where
  "key_check C creds =
     (case secret_key_to_public_key C (cr_key creds) of None \<Rightarrow> False | Some verify \<Rightarrow> verify = view_public (cr_address creds))"

definition is_hidden :: "account_status \<Rightarrow> bool" where
  "is_hidden status = (case status of active \<Rightarrow> False | inactive \<Rightarrow> False | hidden \<Rightarrow> True)"

definition open_account :: "'t lmdb \<Rightarrow> crypto \<Rightarrow> account_credentials \<Rightarrow> 't tables \<Rightarrow> error + account" where
  "open_account L C creds s =
     (if \<not> key_check C creds then Inl (Lws bad_view_key)
      else check (get_account_by_address L (cr_address creds) s) (\<lambda>(status, user).
        if is_hidden status then Inl (Lws account_not_found) else Inr user))"

section \<open>The limit on lookaheads\<close>

text \<open>The product is computed with 32 bits; the test before it never holds.\<close>

definition check_lookahead :: "u32 \<Rightarrow> address_index \<Rightarrow> bool" where
  "check_lookahead max_subs lookahead =
     (let minor = min_i lookahead in
      if minor \<noteq> 0 then
        let major = maj_i lookahead in
        if -1 < major div minor then False else major * minor \<le> max_subs
      else True)"

section \<open>Locked outputs\<close>

record currency =
  max_block_number :: u64
  allowed_delta_seconds :: int
  allowed_delta_blocks :: u64
  spendable_age :: u64
  difficulty_target :: int

text \<open>Times are signed numbers of seconds, so the upper half of the unlock times is negative.\<close>

definition blocks_until_unlocked :: "currency \<Rightarrow> int \<Rightarrow> u64 \<Rightarrow> block_id \<Rightarrow> block_id \<Rightarrow> u64" where
  "blocks_until_unlocked Y now unlock_time last_id tx_height =
     (if max_block_number Y < unlock_time then
        let allowed = now + allowed_delta_seconds Y; unlock_seconds = sint unlock_time in
        if unlock_seconds \<le> allowed then 0
        else max 1 (of_int ((unlock_seconds - allowed + difficulty_target Y - 1) div difficulty_target Y))
      else
        let allowed_height = (if last_id = 0 then 0 else last_id - 1 + allowed_delta_blocks Y) in
        if allowed_height < unlock_time then unlock_time - allowed_height
        else
          let spendable_height = tx_height + spendable_age Y in
          if spendable_height \<le> last_id then 0 else spendable_height - last_id)"

definition is_locked :: "currency \<Rightarrow> int \<Rightarrow> u64 \<Rightarrow> block_id \<Rightarrow> block_id \<Rightarrow> bool" where
  "is_locked Y now unlock_time last_id tx_height \<longleftrightarrow> blocks_until_unlocked Y now unlock_time last_id tx_height \<noteq> 0"

section \<open>Rescanning after an import of key images\<close>

record rescan_options =
  auto_rescan :: bool
  auto_rescan_depth :: u64
  auto_rescan_min_confirmed_spends :: u64

definition select_auto_rescan_height :: "account \<Rightarrow> u64 \<Rightarrow> block_id" where
  "select_auto_rescan_height account depth =
     (if depth = 0 then a_start_height account
      else
        let scan_height = a_scan_height account;
            target = (if scan_height \<le> depth then 0 else scan_height - depth) in
        max target (a_start_height account))"

text \<open>A rescan that fails is only logged.\<close>

definition maybe_auto_rescan :: "'t lmdb \<Rightarrow> crypto \<Rightarrow> rescan_options \<Rightarrow> account \<Rightarrow> u64 \<Rightarrow> 't tables \<Rightarrow> 't tables option" where
  "maybe_auto_rescan L C options account imported s =
     (if \<not> auto_rescan options then Some s
      else if imported < auto_rescan_min_confirmed_spends options then Some s
      else
        let target = select_auto_rescan_height account (auto_rescan_depth options) in
        if a_scan_height account \<le> target then Some s
        else case rescan L C target [a_address account] s of
          None \<Rightarrow> None
        | Some (Inl e) \<Rightarrow> Some s
        | Some (Inr (updated, s)) \<Rightarrow> Some s)"

section \<open>Lemmas\<close>

lemma is_hidden_iff: "is_hidden status \<longleftrightarrow> status = hidden"
  by (cases status) (simp_all add: is_hidden_def)

context lmdb_store begin

text \<open>Only who knows the view key of an account that is not hidden gets it.\<close>

lemma open_account_iff:
  assumes "accounts_inv L s"
  shows "open_account L C creds s = Inr user \<longleftrightarrow>
    key_check C creds \<and> a_address user = cr_address creds \<and>
    (user \<in> set (accounts_rows L s active) \<or> user \<in> set (accounts_rows L s inactive))"
proof -
  have "check (get_account_by_address L (cr_address creds) s) (\<lambda>(status, user). if is_hidden status then Inl (Lws account_not_found) else Inr user) = Inr user \<longleftrightarrow>
      (\<exists>status. get_account_by_address L (cr_address creds) s = Inr (status, user) \<and> status \<noteq> hidden)"
    by (auto simp: check_Inr_iff is_hidden_iff split: if_splits)
  also have "\<dots> \<longleftrightarrow> (\<exists>status. user \<in> set (accounts_rows L s status) \<and> a_address user = cr_address creds \<and> status \<noteq> hidden)"
    by (simp only: get_account_by_address_iff[OF assms] conj_assoc)
  also have "\<dots> \<longleftrightarrow> a_address user = cr_address creds \<and> (user \<in> set (accounts_rows L s active) \<or> user \<in> set (accounts_rows L s inactive))"
    by (metis account_status.exhaust account_status.distinct(3) account_status.distinct(5))
  finally show ?thesis by (auto simp: open_account_def)
qed

end

lemma lookahead_unchecked: "\<not> -1 < (x :: u32)"
  by (simp add: not_less)

lemma locked_forever_is_unlocked:
  assumes "max_block_number Y < unlock_time" "2 ^ 63 \<le> unlock_time" "0 \<le> now" "0 \<le> allowed_delta_seconds Y"
  shows "\<not> is_locked Y now unlock_time last_id tx_height"
proof -
  have "drop_bit 63 unlock_time \<noteq> 0"
  proof
    assume "drop_bit 63 unlock_time = 0"
    then have "unat unlock_time div 2 ^ 63 = 0" by (metis unat_drop_bit_eq drop_bit_eq_div unsigned_0)
    with assms(2) show False by (simp add: word_le_nat_alt)
  qed
  then have "sint unlock_time < 0"
    using drop_bit_eq_zero_iff_not_bit_last[of unlock_time] bit_last_iff[of unlock_time] by simp
  then show ?thesis using assms(1,3,4) by (simp add: is_locked_def blocks_until_unlocked_def Let_def)
qed

end
