(* ===== verification/ScanTx.thy ===== *)
theory ScanTx
  imports Lookahead LwsAccount
begin

text \<open>
  Scanning a transaction for the outputs and spends of accounts, \<open>scan_transaction_base\<close> of
  \<open>src/src/scanner.cpp\<close> with \<open>src/src/util/transactions.cpp\<close>.

  The transaction with its parser and the curve operations come from the Monero libraries: what
  the code reads of a transaction is a record, the rest is the parameter \<open>scan_crypto\<close>. The read
  transaction of the scanner is a snapshot of the tables; beginning one never fails here.
\<close>

section \<open>Transactions\<close>

datatype tx_in = Txin_to_key (in_amount: u64) (in_key_offsets: "u64 list") (in_k_image: hash) | Txin_gen | Txin_other

record tx_out =
  out_amount :: u64
  out_key :: "public_key option"
  out_view_tag :: "u8 option"

record transaction =
  tx_version :: nat
  tx_unlock_time :: u64
  tx_vin :: "tx_in list"
  tx_vout :: "tx_out list"
  tx_extra :: span
  tx_rct_type :: u8
  tx_out_pk :: "hash list"
  tx_ecdh_info :: "(hash \<times> hash) list"

record scan_crypto =
  find_pub_key :: "span \<Rightarrow> public_key option"
  find_nonce :: "span \<Rightarrow> span option"
  find_additional :: "span \<Rightarrow> public_key list"
  nonce_payment_id :: "span \<Rightarrow> span option"
  nonce_encrypted_id :: "span \<Rightarrow> span option"
  key_derivation :: "public_key \<Rightarrow> secret_key \<Rightarrow> hash option"
  derive_subaddress :: "public_key \<Rightarrow> hash \<Rightarrow> nat \<Rightarrow> public_key option"
  tag_matches :: "u8 option \<Rightarrow> hash \<Rightarrow> nat \<Rightarrow> bool"
  derivation_to_scalar :: "hash \<Rightarrow> nat \<Rightarrow> secret_key"
  ecdh_decode :: "hash \<times> hash \<Rightarrow> secret_key \<Rightarrow> bool \<Rightarrow> hash \<times> hash"
  add_keys2 :: "hash \<Rightarrow> hash \<Rightarrow> hash"
  h2d :: "hash \<Rightarrow> u64"
  rct_identity :: hash
  rct_bulletproof2 :: u8
  cn_fast_hash :: "span \<Rightarrow> span"
  key_encrypted_payment_id :: u8
  tx_prefix_hash :: "transaction \<Rightarrow> hash"
  tx_fee :: "transaction \<Rightarrow> u64"

definition decode_amount :: "scan_crypto \<Rightarrow> hash \<Rightarrow> hash \<times> hash \<Rightarrow> hash \<Rightarrow> nat \<Rightarrow> bool \<Rightarrow> (u64 \<times> hash) option" where
  "decode_amount X commitment info sk index bulletproof2 =
     (let (blind, amount) = ecdh_decode X info (derivation_to_scalar X sk index) bulletproof2 in
      if commitment = add_keys2 X blind amount then Some (h2d X amount, blind) else None)"

definition decrypt_payment_id :: "scan_crypto \<Rightarrow> span \<Rightarrow> hash \<Rightarrow> span" where
  "decrypt_payment_id X out key =
     map2 (\<lambda>b h. xor b h) (take 8 out) (take 8 (cn_fast_hash X (bytes_hash key @ [key_encrypted_payment_id X])))"

section \<open>The reader of subaddresses\<close>

record 't subaddress_reader =
  sr_reader :: "'t tables option"
  sr_disk :: "'t tables option"
  sr_max :: u32

definition update_reader :: "'t subaddress_reader \<Rightarrow> 't subaddress_reader" where
  "update_reader sr = (case sr_disk sr of None \<Rightarrow> sr | Some disk \<Rightarrow> sr\<lparr>sr_reader := Some disk\<rparr>)"

definition subaddress_reader_of :: "'t tables option \<Rightarrow> u32 \<Rightarrow> 't subaddress_reader" where
  "subaddress_reader_of disk max_subs =
     (let sr = \<lparr>sr_reader = None, sr_disk = disk, sr_max = max_subs\<rparr> in
      if max_subs \<noteq> 0 then update_reader sr else sr)"

text \<open>A failing lookahead is only logged.\<close>

definition scan_lookahead :: "'t lmdb \<Rightarrow> crypto \<Rightarrow> lws_account \<Rightarrow> address_index \<Rightarrow> block_id \<Rightarrow> 't subaddress_reader \<Rightarrow>
    error + 't subaddress_reader" where
  "scan_lookahead L C user match height sr =
     (if is_zero match then Inr sr
      else case sr_disk sr of
        None \<Rightarrow> Inl Runtime_error
      | Some disk \<Rightarrow>
          check (db_address user) (\<lambda>address.
            (case update_lookahead L C address height match (sr_max sr) disk of
               Inl e \<Rightarrow> Inr sr
             | Inr (count, disk) \<Rightarrow>
                 let sr = sr\<lparr>sr_disk := Some disk\<rparr> in
                 Inr (if 0 < count then update_reader sr else sr))))"

section \<open>Inputs\<close>

definition numeric_cast32 :: "nat \<Rightarrow> error + u32" where
  "numeric_cast32 n = (if n < 2 ^ 32 then Inr (of_nat n) else Inl Out_of_range)"

definition at_index :: "'a list \<Rightarrow> nat \<Rightarrow> error + 'a" where
  "at_index xs i = (if i < length xs then Inr (xs ! i) else Inl Out_of_range)"

definition read_hash :: "span \<Rightarrow> hash" where
  "read_hash bs = of_nat (le_nat (rev (take 32 bs)))"

text \<open>What all accounts see of the transaction.\<close>

record scan_tx =
  sx_height :: block_id
  sx_timestamp :: u64
  sx_hash :: hash
  sx_tx :: transaction
  sx_out_ids :: "u64 list"
  sx_key :: public_key
  sx_nonce :: "span option"
  sx_additional :: "public_key list"

type_synonym payment = "u8 \<times> span"

fun scan_ring :: "scan_tx \<Rightarrow> (lws_account \<Rightarrow> spend \<Rightarrow> lws_account) \<Rightarrow> payment \<Rightarrow> u64 \<Rightarrow> hash \<Rightarrow> u32 \<Rightarrow> u64 \<Rightarrow> u64 list \<Rightarrow>
    lws_account \<Rightarrow> lws_account" where
  "scan_ring T spend_action pid amount k_image mixin goffset [] user = user"
| "scan_ring T spend_action pid amount k_image mixin goffset (offset # offsets) user =
     (let goffset = goffset + offset in
      case get_spendable user (Output_id amount goffset) of
        None \<Rightarrow> scan_ring T spend_action pid amount k_image mixin goffset offsets user
      | Some subaccount \<Rightarrow>
          scan_ring T spend_action pid amount k_image mixin goffset offsets
            (spend_action user
               \<lparr>s_link = Transaction_link (sx_height T) (sx_hash T), s_image = k_image,
                s_source = Output_id amount goffset, s_timestamp = sx_timestamp T,
                s_unlock_time = tx_unlock_time (sx_tx T), s_mixin_count = mixin, s_length = fst pid,
                s_payment_id = read_hash (snd pid), s_sender = subaccount\<rparr>))"

fun scan_inputs :: "scan_tx \<Rightarrow> (lws_account \<Rightarrow> spend \<Rightarrow> lws_account) \<Rightarrow> payment \<Rightarrow> tx_in list \<Rightarrow> u8 \<Rightarrow> u32 \<Rightarrow>
    lws_account \<Rightarrow> error + u8 \<times> u32 \<times> lws_account" where
  "scan_inputs T spend_action pid [] ext mixin user = Inr (ext, mixin, user)"
| "scan_inputs T spend_action pid (Txin_to_key amount offsets k_image # vin) ext mixin user =
     check (numeric_cast32 (max 1 (length offsets) - 1)) (\<lambda>mixin.
       scan_inputs T spend_action pid vin ext mixin
         (scan_ring T spend_action pid amount k_image mixin 0 offsets user))"
| "scan_inputs T spend_action pid (Txin_gen # vin) ext mixin user =
     scan_inputs T spend_action pid vin (ext OR coinbase_output) mixin user"
| "scan_inputs T spend_action pid (Txin_other # vin) ext mixin user =
     scan_inputs T spend_action pid vin ext mixin user"

section \<open>Outputs\<close>

text \<open>
  One attempt to match an output: the address it is to, when it is to the account. The second
  attempt uses the additional key of the output.
\<close>

definition match_attempt :: "'t lmdb \<Rightarrow> crypto \<Rightarrow> scan_crypto \<Rightarrow> block_id \<Rightarrow> lws_account \<Rightarrow> public_key \<Rightarrow> nat \<Rightarrow> hash \<Rightarrow>
    't subaddress_reader \<Rightarrow> error + address_index option \<times> 't subaddress_reader" where
  "match_attempt L C X height user out_pub_key index active_derived sr =
     (case derive_subaddress X out_pub_key active_derived index of
        None \<Rightarrow> Inr (None, sr)
      | Some derived_pub \<Rightarrow>
          check (db_address user) (\<lambda>address.
            if spend_public address \<noteq> derived_pub then
              (case sr_reader sr of
                 None \<Rightarrow> Inr (None, sr)
               | Some reader \<Rightarrow>
                   (case find_subaddress L (lws_account_id user) derived_pub reader of
                      Inl e \<Rightarrow> Inr (None, sr)
                    | Inr match \<Rightarrow> check (scan_lookahead L C user match height sr) (\<lambda>sr. Inr (Some match, sr))))
            else Inr (Some (Address_index 0 0), sr)))"

definition match_output :: "'t lmdb \<Rightarrow> crypto \<Rightarrow> scan_crypto \<Rightarrow> scan_tx \<Rightarrow> lws_account \<Rightarrow> public_key \<Rightarrow> nat \<Rightarrow> hash \<Rightarrow>
    hash list \<Rightarrow> 't subaddress_reader \<Rightarrow> error + (address_index \<times> hash \<times> public_key) option \<times> 't subaddress_reader" where
  "match_output L C X T user out_pub_key index derived additional sr =
     check (match_attempt L C X (sx_height T) user out_pub_key index derived sr) (\<lambda>(match, sr).
       case match of
         Some account_index \<Rightarrow> Inr (Some (account_index, derived, sx_key T), sr)
       | None \<Rightarrow>
           if additional = [] then Inr (None, sr)
           else
             check (at_index additional index) (\<lambda>active_derived.
             check (at_index (sx_additional T) index) (\<lambda>active_pub.
             check (match_attempt L C X (sx_height T) user out_pub_key index active_derived sr) (\<lambda>(match, sr).
               Inr (map_option (\<lambda>account_index. (account_index, active_derived, active_pub)) match, sr)))))"

text \<open>The amount, mask and flags; \<open>None\<close> when the amount cannot be decrypted.\<close>

definition output_amount :: "scan_crypto \<Rightarrow> scan_tx \<Rightarrow> tx_out \<Rightarrow> nat \<Rightarrow> hash \<Rightarrow> u8 \<Rightarrow> error + (u64 \<times> hash \<times> u8) option" where
  "output_amount X T out index active_derived ext =
     (let tx = sx_tx T in
      if out_amount out = 0 \<and> ext AND coinbase_output = 0 \<and> 1 < tx_version tx then
        check (at_index (tx_out_pk tx) index) (\<lambda>commitment.
        check (at_index (tx_ecdh_info tx) index) (\<lambda>info.
          case decode_amount X commitment info active_derived index (rct_bulletproof2 X \<le> tx_rct_type tx) of
            None \<Rightarrow> Inr None
          | Some (amount, blind) \<Rightarrow> Inr (Some (amount, blind, ext OR ringct_output))))
      else Inr (Some (out_amount out, rct_identity X, if 1 < tx_version tx then ext OR ringct_output else ext)))"

definition output_payment :: "scan_crypto \<Rightarrow> scan_tx \<Rightarrow> hash \<Rightarrow> payment \<Rightarrow> payment" where
  "output_payment X T active_derived pid =
     (case sx_nonce T of
        None \<Rightarrow> pid
      | Some nonce \<Rightarrow>
          if fst pid \<noteq> 0 then pid
          else case nonce_encrypted_id X nonce of
            None \<Rightarrow> pid
          | Some short \<Rightarrow> (8, decrypt_payment_id X short active_derived @ drop 8 (snd pid)))"

definition found_output :: "scan_crypto \<Rightarrow> scan_tx \<Rightarrow> tx_out \<Rightarrow> public_key \<Rightarrow> u64 \<Rightarrow> u32 \<Rightarrow> u32 \<Rightarrow> public_key \<Rightarrow> u64 \<Rightarrow> hash \<Rightarrow> u8 \<Rightarrow>
    payment \<Rightarrow> address_index \<Rightarrow> db_output" where
  "found_output X T out out_pub_key out_id mixin index active_pub amount blind ext pid account_index =
     \<lparr>o_link = Transaction_link (sx_height T) (sx_hash T),
      o_spend_meta =
        \<lparr>sm_id = Output_id (if tx_version (sx_tx T) < 2 then out_amount out else 0) out_id, sm_amount = amount,
         sm_mixin_count = mixin, sm_index = index, sm_tx_public = active_pub\<rparr>,
      o_timestamp = sx_timestamp T, o_unlock_time = tx_unlock_time (sx_tx T),
      o_tx_prefix_hash = tx_prefix_hash X (sx_tx T), o_pub = out_pub_key, o_ringct_mask = blind,
      o_extra = pack ext (fst pid), o_payment_id = snd pid, o_fee = tx_fee X (sx_tx T), o_recipient = account_index\<rparr>"

text \<open>
  \<open>output_action\<close> may use the reader. The loop carries the flags, the payment id, the account and
  the reader.
\<close>

fun scan_outputs :: "'t lmdb \<Rightarrow> crypto \<Rightarrow> scan_crypto \<Rightarrow> scan_tx \<Rightarrow> ('t subaddress_reader \<Rightarrow> lws_account \<Rightarrow> db_output \<Rightarrow> bool \<times> lws_account) \<Rightarrow>
    hash \<Rightarrow> hash list \<Rightarrow> u32 \<Rightarrow> nat \<Rightarrow> tx_out list \<Rightarrow> u8 \<Rightarrow> payment \<Rightarrow> lws_account \<Rightarrow> 't subaddress_reader \<Rightarrow>
    error + payment \<times> lws_account \<times> 't subaddress_reader" where
  "scan_outputs L C X T output_action derived additional mixin index [] ext pid user sr = Inr (pid, user, sr)"
| "scan_outputs L C X T output_action derived additional mixin index (out # vout) ext pid user sr =
     (case out_key out of
        None \<Rightarrow> scan_outputs L C X T output_action derived additional mixin (Suc index) vout ext pid user sr
      | Some out_pub_key \<Rightarrow>
     check (if additional = [] then Inr False
            else check (at_index additional index) (\<lambda>a. Inr (tag_matches X (out_view_tag out) a index))) (\<lambda>additional_tag.
     if \<not> (additional_tag \<or> tag_matches X (out_view_tag out) derived index)
     then scan_outputs L C X T output_action derived additional mixin (Suc index) vout ext pid user sr
     else
     check (match_output L C X T user out_pub_key index derived additional sr) (\<lambda>(found, sr).
     case found of
       None \<Rightarrow> scan_outputs L C X T output_action derived additional mixin (Suc index) vout ext pid user sr
     | Some (account_index, active_derived, active_pub) \<Rightarrow>
     check (output_amount X T out index active_derived ext) (\<lambda>decrypted.
     case decrypted of
       None \<Rightarrow> scan_outputs L C X T output_action derived additional mixin (Suc index) vout ext pid user sr
     | Some (amount, blind, ext) \<Rightarrow>
     let pid = output_payment X T active_derived pid in
     check (at_index (sx_out_ids T) index) (\<lambda>out_id.
     check (numeric_cast32 index) (\<lambda>index32.
       scan_outputs L C X T output_action derived additional mixin (Suc index) vout ext pid
         (snd (output_action sr user
           (found_output X T out out_pub_key out_id mixin index32 active_pub amount blind ext pid account_index))) sr))))))"

section \<open>Accounts\<close>

text \<open>
  The derivations of the additional keys: kept from the account before when the reader is gone,
  and empty when one of them fails.
\<close>

definition additional_derivations :: "scan_crypto \<Rightarrow> scan_tx \<Rightarrow> secret_key \<Rightarrow> 't subaddress_reader \<Rightarrow> hash list \<Rightarrow> hash list" where
  "additional_derivations X T view_key sr previous =
     (if sr_reader sr \<noteq> None \<and> length (sx_additional T) = length (tx_vout (sx_tx T))
      then case those (map (\<lambda>key. key_derivation X key view_key) (sx_additional T)) of None \<Rightarrow> [] | Some ds \<Rightarrow> ds
      else previous)"

fun scan_users :: "'t lmdb \<Rightarrow> crypto \<Rightarrow> scan_crypto \<Rightarrow> scan_tx \<Rightarrow> (lws_account \<Rightarrow> spend \<Rightarrow> lws_account) \<Rightarrow>
    ('t subaddress_reader \<Rightarrow> lws_account \<Rightarrow> db_output \<Rightarrow> bool \<times> lws_account) \<Rightarrow> lws_account list \<Rightarrow> hash list \<Rightarrow> payment \<Rightarrow>
    't subaddress_reader \<Rightarrow> error + lws_account list \<times> 't subaddress_reader" where
  "scan_users L C X T spend_action output_action [] additional pid sr = Inr ([], sr)"
| "scan_users L C X T spend_action output_action (user # users) additional pid sr =
     (if sx_height T \<le> la_height user
      then check (scan_users L C X T spend_action output_action users additional pid sr) (\<lambda>(users, sr). Inr (user # users, sr))
      else
        check (account_view_key user) (\<lambda>view_key.
        case key_derivation X (sx_key T) view_key of
          None \<Rightarrow> check (scan_users L C X T spend_action output_action users additional pid sr) (\<lambda>(users, sr). Inr (user # users, sr))
        | Some derived \<Rightarrow>
            let additional = additional_derivations X T view_key sr additional in
            check (scan_inputs T spend_action pid (tx_vin (sx_tx T)) 0 0 user) (\<lambda>(ext, mixin, user).
            check (scan_outputs L C X T output_action derived additional mixin 0 (tx_vout (sx_tx T)) ext pid user sr) (\<lambda>(pid, user, sr).
            check (scan_users L C X T spend_action output_action users additional pid sr) (\<lambda>(users, sr). Inr (user # users, sr))))))"

definition first_payment_id :: "scan_crypto \<Rightarrow> span option \<Rightarrow> payment" where
  "first_payment_id X nonce =
     (case Option.bind nonce (nonce_payment_id X) of None \<Rightarrow> (0, replicate 32 0) | Some long \<Rightarrow> (32, long))"

definition seen_tx :: "scan_crypto \<Rightarrow> block_id \<Rightarrow> u64 \<Rightarrow> hash \<Rightarrow> transaction \<Rightarrow> u64 list \<Rightarrow> public_key \<Rightarrow>
    't subaddress_reader \<Rightarrow> scan_tx" where
  "seen_tx X height timestamp tx_hash tx out_ids key sr =
     \<lparr>sx_height = height, sx_timestamp = timestamp, sx_hash = tx_hash, sx_tx = tx, sx_out_ids = out_ids,
      sx_key = key, sx_nonce = find_nonce X (tx_extra tx),
      sx_additional = (if sr_reader sr \<noteq> None then find_additional X (tx_extra tx) else [])\<rparr>"

definition scan_transaction_base :: "'t lmdb \<Rightarrow> crypto \<Rightarrow> scan_crypto \<Rightarrow> lws_account list \<Rightarrow> block_id \<Rightarrow> u64 \<Rightarrow> hash \<Rightarrow> transaction \<Rightarrow>
    u64 list \<Rightarrow> 't subaddress_reader \<Rightarrow> (lws_account \<Rightarrow> spend \<Rightarrow> lws_account) \<Rightarrow>
    ('t subaddress_reader \<Rightarrow> lws_account \<Rightarrow> db_output \<Rightarrow> bool \<times> lws_account) \<Rightarrow> error + lws_account list \<times> 't subaddress_reader" where
  "scan_transaction_base L C X users height timestamp tx_hash tx out_ids sr spend_action output_action =
     (if 2 < tx_version tx then Inl Runtime_error
      else case find_pub_key X (tx_extra tx) of
        None \<Rightarrow> Inr (users, sr)
      | Some key \<Rightarrow>
          scan_users L C X (seen_tx X height timestamp tx_hash tx out_ids key sr) spend_action output_action users []
            (first_payment_id X (find_nonce X (tx_extra tx))) sr)"

definition scan_transaction :: "'t lmdb \<Rightarrow> crypto \<Rightarrow> scan_crypto \<Rightarrow> lws_account list \<Rightarrow> block_id \<Rightarrow> u64 \<Rightarrow> hash \<Rightarrow> transaction \<Rightarrow>
    u64 list \<Rightarrow> 't subaddress_reader \<Rightarrow> error + lws_account list \<times> 't subaddress_reader" where
  "scan_transaction L C X users height timestamp tx_hash tx out_ids sr =
     scan_transaction_base L C X users height timestamp tx_hash tx out_ids sr add_account_spend (\<lambda>sr. add_account_out)"

section \<open>Webhooks for the transaction pool\<close>

text \<open>
  An output in the pool: the webhooks found for it, with the hash of the transaction looked up by
  its prefix hash; without it nothing is sent.
\<close>

definition pool_events :: "webhook_key \<Rightarrow> webhook_value list \<Rightarrow> (hash \<rightharpoonup> hash) \<Rightarrow> db_output \<Rightarrow> webhook_tx_confirmation list" where
  "pool_events key hooks txpool out =
     (case txpool (o_tx_prefix_hash out) of
        None \<Rightarrow> []
      | Some tx_hash \<Rightarrow>
          map (\<lambda>hook. \<lparr>wc_key = key, wc_value = (fst hook, (snd hook)\<lparr>wh_confirmations := 0\<rparr>),
            wc_tx_info = out\<lparr>o_link := Transaction_link (tl_height (o_link out)) tx_hash\<rparr>\<rparr>) hooks)"

section \<open>Spends\<close>

text \<open>The members of a ring are given by the distances between them.\<close>

definition ring_members :: "u64 list \<Rightarrow> u64 list" where
  "ring_members offsets = map (\<lambda>n. sum_list (take (Suc n) offsets)) [0..<length offsets]"

definition member_spends :: "scan_tx \<Rightarrow> payment \<Rightarrow> lws_account \<Rightarrow> u64 \<Rightarrow> hash \<Rightarrow> u32 \<Rightarrow> u64 \<Rightarrow> spend list" where
  "member_spends T pid user amount k_image mixin member =
     (case get_spendable user (Output_id amount member) of
        None \<Rightarrow> []
      | Some subaccount \<Rightarrow>
          [\<lparr>s_link = Transaction_link (sx_height T) (sx_hash T), s_image = k_image,
            s_source = Output_id amount member, s_timestamp = sx_timestamp T,
            s_unlock_time = tx_unlock_time (sx_tx T), s_mixin_count = mixin, s_length = fst pid,
            s_payment_id = read_hash (snd pid), s_sender = subaccount\<rparr>])"

definition input_spends :: "scan_tx \<Rightarrow> payment \<Rightarrow> lws_account \<Rightarrow> tx_in \<Rightarrow> spend list" where
  "input_spends T pid user input =
     (case input of
        Txin_to_key amount offsets k_image \<Rightarrow>
          concat (map (member_spends T pid user amount k_image (of_nat (max 1 (length offsets) - 1))) (ring_members offsets))
      | _ \<Rightarrow> [])"

lemma ring_members_Cons: "ring_members (x # xs) = x # map ((+) x) (ring_members xs)"
  by (simp add: ring_members_def upt_conv_Cons map_Suc_upt[symmetric] del: upt_Suc)

lemma get_spendable_spend [simp]: "get_spendable (user\<lparr>la_spends := x\<rparr>) out = get_spendable user out"
  by (simp add: get_spendable_def)

lemma member_spends_spend [simp]: "member_spends T pid (user\<lparr>la_spends := x\<rparr>) = member_spends T pid user"
  by (auto simp: member_spends_def fun_eq_iff split: option.splits)

lemma input_spends_spend [simp]: "input_spends T pid (user\<lparr>la_spends := x\<rparr>) = input_spends T pid user"
  by (simp add: input_spends_def fun_eq_iff split: tx_in.splits)

lemma scan_ring_spends:
  "scan_ring T add_account_spend pid amount k_image mixin goffset offsets user =
     user\<lparr>la_spends := la_spends user @
       concat (map (member_spends T pid user amount k_image mixin) (map ((+) goffset) (ring_members offsets)))\<rparr>"
proof (induction offsets arbitrary: goffset user)
  case Nil
  show ?case by (simp add: ring_members_def)
next
  case (Cons offset offsets)
  let ?m = "goffset + offset"
  have assoc: "(+) goffset \<circ> (+) offset = (+) ?m" by (simp add: fun_eq_iff add.assoc)
  show ?case
  proof (cases "get_spendable user (Output_id amount ?m)")
    case None
    then show ?thesis using Cons.IH[of ?m user]
      by (simp add: ring_members_Cons assoc member_spends_def[of T pid user amount k_image mixin ?m])
  next
    case (Some subaccount)
    then obtain sp where sp: "member_spends T pid user amount k_image mixin ?m = [sp]"
      "scan_ring T add_account_spend pid amount k_image mixin goffset (offset # offsets) user =
         scan_ring T add_account_spend pid amount k_image mixin ?m offsets (add_account_spend user sp)"
      by (simp add: member_spends_def Let_def)
    show ?thesis unfolding sp(2) Cons.IH by (simp add: sp(1) ring_members_Cons assoc add_account_spend_def)
  qed
qed

lemma scan_inputs_spends:
  "scan_inputs T add_account_spend pid vin ext mixin user = Inr (ext', mixin', user') \<Longrightarrow>
     user' = user\<lparr>la_spends := la_spends user @ concat (map (input_spends T pid user) vin)\<rparr> \<and>
     ext' = (if Txin_gen \<in> set vin then ext OR coinbase_output else ext)"
proof (induction vin arbitrary: ext mixin user)
  case (Cons i vin)
  show ?case
  proof (cases i)
    case (Txin_to_key amount offsets k_image)
    with Cons.prems obtain m where m: "numeric_cast32 (max 1 (length offsets) - 1) = Inr m"
      "scan_inputs T add_account_spend pid vin ext m (scan_ring T add_account_spend pid amount k_image m 0 offsets user) = Inr (ext', mixin', user')"
      by (auto simp: check_Inr_iff)
    have "(+) (0 :: u64) = id" by (simp add: fun_eq_iff)
    moreover have "m = of_nat (max 1 (length offsets) - 1)" using m(1) by (simp add: numeric_cast32_def split: if_splits)
    ultimately show ?thesis using Cons.IH[OF m(2)]
      by (simp add: scan_ring_spends Txin_to_key input_spends_def[of T pid user "Txin_to_key amount offsets k_image"])
  next
    case Txin_gen
    with Cons.prems have "scan_inputs T add_account_spend pid vin (ext OR coinbase_output) mixin user = Inr (ext', mixin', user')" by simp
    from Cons.IH[OF this] show ?thesis by (simp add: Txin_gen input_spends_def[of T pid user Txin_gen] or.assoc)
  next
    case Txin_other
    with Cons.prems have "scan_inputs T add_account_spend pid vin ext mixin user = Inr (ext', mixin', user')" by simp
    from Cons.IH[OF this] show ?thesis by (simp add: Txin_other input_spends_def[of T pid user Txin_other])
  qed
qed simp

section \<open>Outputs of an account\<close>

text \<open>One output either leaves the account as it is, or is handed to it.\<close>

definition hands_over :: "'t lmdb \<Rightarrow> crypto \<Rightarrow> scan_crypto \<Rightarrow> scan_tx \<Rightarrow> hash \<Rightarrow> hash list \<Rightarrow> u32 \<Rightarrow> nat \<Rightarrow> tx_out \<Rightarrow> u8 \<Rightarrow> payment \<Rightarrow>
    lws_account \<Rightarrow> 't subaddress_reader \<Rightarrow> u8 \<Rightarrow> payment \<Rightarrow> db_output \<Rightarrow> 't subaddress_reader \<Rightarrow> bool" where
  "hands_over L C X T derived additional mixin index out ext pid user sr ext' pid' found sr' \<longleftrightarrow>
     (\<exists>p account_index active_derived active_pub amount blind.
        out_key out = Some p \<and>
        (tag_matches X (out_view_tag out) derived index \<or> additional \<noteq> [] \<and> tag_matches X (out_view_tag out) (additional ! index) index) \<and>
        match_output L C X T user p index derived additional sr = Inr (Some (account_index, active_derived, active_pub), sr') \<and>
        output_amount X T out index active_derived ext = Inr (Some (amount, blind, ext')) \<and>
        pid' = output_payment X T active_derived pid \<and> index < length (sx_out_ids T) \<and> index < 2 ^ 32 \<and>
        found = found_output X T out p (sx_out_ids T ! index) mixin (of_nat index) active_pub amount blind ext' pid' account_index)"

definition passes_over :: "'t lmdb \<Rightarrow> crypto \<Rightarrow> scan_crypto \<Rightarrow> scan_tx \<Rightarrow> hash \<Rightarrow> hash list \<Rightarrow> nat \<Rightarrow> tx_out \<Rightarrow> u8 \<Rightarrow>
    lws_account \<Rightarrow> 't subaddress_reader \<Rightarrow> 't subaddress_reader \<Rightarrow> bool" where
  "passes_over L C X T derived additional index out ext user sr sr' \<longleftrightarrow>
     out_key out = None \<and> sr' = sr \<or>
     \<not> tag_matches X (out_view_tag out) derived index \<and> sr' = sr \<or>
     (\<exists>p. out_key out = Some p \<and> match_output L C X T user p index derived additional sr = Inr (None, sr')) \<or>
     (\<exists>p account_index active_derived active_pub.
        out_key out = Some p \<and>
        match_output L C X T user p index derived additional sr = Inr (Some (account_index, active_derived, active_pub), sr') \<and>
        output_amount X T out index active_derived ext = Inr None)"

lemma scan_outputs_step:
  assumes "scan_outputs L C X T output_action derived additional mixin index (out # vout) ext pid user sr = Inr r"
  shows "(\<exists>sr'. passes_over L C X T derived additional index out ext user sr sr' \<and>
      scan_outputs L C X T output_action derived additional mixin (Suc index) vout ext pid user sr' = Inr r) \<or>
    (\<exists>ext' pid' found sr'. hands_over L C X T derived additional mixin index out ext pid user sr ext' pid' found sr' \<and>
      scan_outputs L C X T output_action derived additional mixin (Suc index) vout ext' pid' (snd (output_action sr' user found)) sr' = Inr r)"
proof (cases "out_key out")
  case None
  with assms show ?thesis by (auto simp: passes_over_def)
next
  case (Some p)
  from assms Some obtain b where b: "additional \<noteq> [] \<longrightarrow> b = tag_matches X (out_view_tag out) (additional ! index) index"
    "additional = [] \<longrightarrow> \<not> b"
    and run: "(if \<not> (b \<or> tag_matches X (out_view_tag out) derived index)
     then scan_outputs L C X T output_action derived additional mixin (Suc index) vout ext pid user sr
     else
     check (match_output L C X T user p index derived additional sr) (\<lambda>(found, sr).
     case found of
       None \<Rightarrow> scan_outputs L C X T output_action derived additional mixin (Suc index) vout ext pid user sr
     | Some (account_index, active_derived, active_pub) \<Rightarrow>
     check (output_amount X T out index active_derived ext) (\<lambda>decrypted.
     case decrypted of
       None \<Rightarrow> scan_outputs L C X T output_action derived additional mixin (Suc index) vout ext pid user sr
     | Some (amount, blind, ext) \<Rightarrow>
     let pid = output_payment X T active_derived pid in
     check (at_index (sx_out_ids T) index) (\<lambda>out_id.
     check (numeric_cast32 index) (\<lambda>index32.
       scan_outputs L C X T output_action derived additional mixin (Suc index) vout ext pid
         (snd (output_action sr user
           (found_output X T out p out_id mixin index32 active_pub amount blind ext pid account_index))) sr))))) = Inr r"
    by (cases "additional = []") (auto simp: check_Inr_iff at_index_def split: if_splits)
  show ?thesis
  proof (cases "b \<or> tag_matches X (out_view_tag out) derived index")
    case False
    with run show ?thesis by (auto simp: passes_over_def)
  next
    case True
    with run obtain found sr' where m: "match_output L C X T user p index derived additional sr = Inr (found, sr')"
      by (auto simp: check_Inr_iff)
    show ?thesis
    proof (cases found)
      case None
      with run True m Some show ?thesis by (auto simp: passes_over_def)
    next
      case (Some f)
      obtain account_index active_derived active_pub where f: "f = (account_index, active_derived, active_pub)" by (cases f)
      with run True m Some obtain d where d: "output_amount X T out index active_derived ext = Inr d"
        by (auto simp: check_Inr_iff)
      show ?thesis
      proof (cases d)
        case None
        with run True m Some f d \<open>out_key out = Some p\<close> show ?thesis by (auto simp: passes_over_def)
      next
        case (Some a)
        obtain amount blind ext' where a: "a = (amount, blind, ext')" by (cases a)
        have ix: "index < length (sx_out_ids T)" "index < 2 ^ 32"
          using run True m \<open>found = Some f\<close> f d Some a
          by (simp_all add: Let_def at_index_def numeric_cast32_def split: if_splits)
        have "hands_over L C X T derived additional mixin index out ext pid user sr ext' (output_payment X T active_derived pid)
            (found_output X T out p (sx_out_ids T ! index) mixin (of_nat index) active_pub amount blind ext'
              (output_payment X T active_derived pid) account_index) sr'"
          using m d Some a f \<open>found = Some f\<close> \<open>out_key out = Some p\<close> True b ix unfolding hands_over_def by blast
        moreover have "scan_outputs L C X T output_action derived additional mixin (Suc index) vout ext' (output_payment X T active_derived pid)
            (snd (output_action sr' user (found_output X T out p (sx_out_ids T ! index) mixin (of_nat index) active_pub amount blind ext'
              (output_payment X T active_derived pid) account_index))) sr' = Inr r"
          using run True m \<open>found = Some f\<close> f d Some a ix
          by (simp add: Let_def at_index_def numeric_cast32_def)
        ultimately show ?thesis by blast
      qed
    qed
  qed
qed

text \<open>What every scan of the outputs keeps; the payment id is set once.\<close>

definition grows :: "lws_account \<Rightarrow> lws_account \<Rightarrow> db_output list \<Rightarrow> bool" where
  "grows user user' new \<longleftrightarrow> account_ok user' \<and> la_immutable user' = la_immutable user \<and> la_height user' = la_height user \<and>
     la_spends user' = la_spends user \<and> la_outputs user' = la_outputs user @ new \<and> distinct (map o_pub new) \<and>
     set (la_pubs user') = set (la_pubs user) \<union> o_pub ` set new \<and> set (la_pubs user) \<inter> o_pub ` set new = {} \<and>
     set (la_spendable user') = set (la_spendable user) \<union> (\<lambda>out. (sm_id (o_spend_meta out), o_recipient out)) ` set new"

lemma grows_refl: "account_ok user \<Longrightarrow> grows user user []"
  by (simp add: grows_def)

lemma grows_trans: "grows user user1 new1 \<Longrightarrow> grows user1 user2 new2 \<Longrightarrow> grows user user2 (new1 @ new2)"
  by (auto simp: grows_def)

lemma grows_add:
  assumes "account_ok user"
  shows "grows user (snd (add_account_out user found)) (if o_pub found \<in> set (la_pubs user) then [] else [found])"
  using assms by (auto simp: grows_def add_account_out_eq account_ok_def sorted_insert_bound)

definition payment_kept :: "scan_crypto \<Rightarrow> scan_tx \<Rightarrow> payment \<Rightarrow> payment \<Rightarrow> bool" where
  "payment_kept X T pid pid' \<longleftrightarrow> pid' = pid \<or>
     fst pid = 0 \<and> (\<exists>nonce short derived. sx_nonce T = Some nonce \<and> nonce_encrypted_id X nonce = Some short \<and>
       pid' = (8, decrypt_payment_id X short derived @ drop 8 (snd pid)))"

lemma payment_kept_trans: "payment_kept X T a b \<Longrightarrow> payment_kept X T b c \<Longrightarrow> payment_kept X T a c"
  by (auto simp: payment_kept_def)

lemma payment_kept_output: "payment_kept X T pid (output_payment X T derived pid)"
  by (auto simp: payment_kept_def output_payment_def split: option.splits)

definition carries_encrypted :: "scan_crypto \<Rightarrow> scan_tx \<Rightarrow> bool" where
  "carries_encrypted X T \<longleftrightarrow> (\<exists>nonce short. sx_nonce T = Some nonce \<and> nonce_encrypted_id X nonce = Some short)"

lemma output_payment_set: "carries_encrypted X T \<Longrightarrow> fst (output_payment X T derived pid) \<noteq> 0"
  by (auto simp: carries_encrypted_def output_payment_def split: if_splits)

lemma scan_outputs_grows:
  "scan_outputs L C X T (\<lambda>sr. add_account_out) derived additional mixin index vout ext pid user sr = Inr (pid', user', sr') \<Longrightarrow>
     account_ok user \<Longrightarrow>
     payment_kept X T pid pid' \<and>
     (\<exists>new. grows user user' new \<and>
       (carries_encrypted X T \<longrightarrow> (\<forall>out \<in> set new. fst pid' \<noteq> 0 \<and> o_payment_id out = snd pid')))"
proof (induction vout arbitrary: index ext pid user sr)
  case Nil
  then have "user' = user" "pid' = pid" by simp_all
  then show ?case using grows_refl[OF Nil.prems(2)] by (intro conjI exI[of _ "[]"]) (simp_all add: payment_kept_def)
next
  case (Cons out vout)
  from scan_outputs_step[OF Cons.prems(1)] show ?case
  proof (elim disjE exE conjE)
    fix sr1
    assume "scan_outputs L C X T (\<lambda>sr. add_account_out) derived additional mixin (Suc index) vout ext pid user sr1 = Inr (pid', user', sr')"
    from Cons.IH[OF this Cons.prems(2)] show ?case .
  next
    fix ext1 pid1 found sr1
    assume h: "hands_over L C X T derived additional mixin index out ext pid user sr ext1 pid1 found sr1"
      and run: "scan_outputs L C X T (\<lambda>sr. add_account_out) derived additional mixin (Suc index) vout ext1 pid1
        (snd (add_account_out user found)) sr1 = Inr (pid', user', sr')"
    let ?new1 = "if o_pub found \<in> set (la_pubs user) then [] else [found]"
    have g: "grows user (snd (add_account_out user found)) ?new1" using grows_add[OF Cons.prems(2)] .
    then have ok: "account_ok (snd (add_account_out user found))" by (simp add: grows_def)
    from Cons.IH[OF run ok] obtain new where n: "payment_kept X T pid1 pid'" "grows (snd (add_account_out user found)) user' new"
      "carries_encrypted X T \<longrightarrow> (\<forall>out \<in> set new. fst pid' \<noteq> 0 \<and> o_payment_id out = snd pid')" by blast
    obtain d where p1: "pid1 = output_payment X T d pid" "o_payment_id found = snd pid1"
      using h by (auto simp: hands_over_def found_output_def)
    have "carries_encrypted X T \<longrightarrow> fst pid' \<noteq> 0 \<and> o_payment_id found = snd pid'"
      using n(1) output_payment_set[of X T d pid] p1 by (auto simp: payment_kept_def)
    then have "carries_encrypted X T \<longrightarrow> (\<forall>out \<in> set (?new1 @ new). fst pid' \<noteq> 0 \<and> o_payment_id out = snd pid')"
      using n(3) by auto
    moreover have "payment_kept X T pid pid'"
      using payment_kept_trans[OF _ n(1)] payment_kept_output p1(1) by simp
    ultimately show ?case using grows_trans[OF g n(2)] by blast
  qed
qed

text \<open>
  Without subaddresses: the outputs that pay to an account. The amount of an output is hidden when
  it is zero, the transaction is not a coinbase one and its version is 2.
\<close>

definition clear_amount :: "scan_crypto \<Rightarrow> transaction \<Rightarrow> tx_out \<Rightarrow> nat \<Rightarrow> hash \<Rightarrow> (u64 \<times> hash) option" where
  "clear_amount X tx out index derived =
     (if out_amount out = 0 \<and> Txin_gen \<notin> set (tx_vin tx) \<and> 1 < tx_version tx
      then decode_amount X (tx_out_pk tx ! index) (tx_ecdh_info tx ! index) derived index (rct_bulletproof2 X \<le> tx_rct_type tx)
      else Some (out_amount out, rct_identity X))"

definition pays :: "scan_crypto \<Rightarrow> transaction \<Rightarrow> hash \<Rightarrow> public_key \<Rightarrow> nat \<Rightarrow> public_key \<Rightarrow> u64 \<Rightarrow> hash \<Rightarrow> bool" where
  "pays X tx derived spend_pub index p amount blind \<longleftrightarrow>
     index < length (tx_vout tx) \<and> out_key (tx_vout tx ! index) = Some p \<and>
     tag_matches X (out_view_tag (tx_vout tx ! index)) derived index \<and>
     derive_subaddress X p derived index = Some spend_pub \<and>
     clear_amount X tx (tx_vout tx ! index) index derived = Some (amount, blind)"

lemma match_output_plain:
  assumes "sr_reader sr = None" "la_immutable user = Some im"
  shows "match_output L C X T user p index derived [] sr =
    Inr (if derive_subaddress X p derived index = Some (spend_public (im_pubs im))
         then Some (Address_index 0 0, derived, sx_key T) else None, sr)"
  using assms by (simp add: match_output_def match_attempt_def db_address_def null_check_def split: option.splits)

lemma match_attempt_reader:
  assumes "match_attempt L C X height user p index derived sr = Inr (m, sr')" "sr_reader sr = None"
  shows "sr' = sr"
  using assms by (auto simp: match_attempt_def check_Inr_iff split: option.splits if_splits)

lemma scan_outputs_reader:
  "scan_outputs L C X T output_action derived [] mixin index vout ext pid user sr = Inr (pid', user', sr') \<Longrightarrow>
     sr_reader sr = None \<Longrightarrow> sr' = sr"
proof (induction vout arbitrary: index ext pid user sr)
  case (Cons out vout)
  have m: "match_output L C X T user p index derived [] sr = Inr (m, sr1) \<Longrightarrow> sr1 = sr" for p m sr1
    using match_attempt_reader[OF _ Cons.prems(2)] by (auto simp: match_output_def check_Inr_iff split: option.splits)
  from scan_outputs_step[OF Cons.prems(1)] obtain sr1 ext1 pid1 user1 where
    "sr1 = sr" "scan_outputs L C X T output_action derived [] mixin (Suc index) vout ext1 pid1 user1 sr1 = Inr (pid', user', sr')"
    using m unfolding passes_over_def hands_over_def by blast
  then show ?case using Cons.IH[of "Suc index" ext1 pid1 user1 sr] Cons.prems(2) by blast
qed simp

lemma coinbase_ringct: "(ext OR ringct_output) AND coinbase_output = ext AND coinbase_output"
  by (simp add: ringct_output_def coinbase_output_def bit_eq_iff bit_simps) (auto simp: bit_1_iff bit_numeral_rec)

lemma output_amount_clear:
  assumes "output_amount X T out index derived ext = Inr r" "ext AND coinbase_output = 0 \<longleftrightarrow> Txin_gen \<notin> set (tx_vin (sx_tx T))"
  shows "map_option (\<lambda>(amount, blind, ext'). (amount, blind)) r = clear_amount X (sx_tx T) out index derived \<and>
    (\<forall>amount blind ext'. r = Some (amount, blind, ext') \<longrightarrow> ext' AND coinbase_output = ext AND coinbase_output)"
proof (cases "out_amount out = 0 \<and> Txin_gen \<notin> set (tx_vin (sx_tx T)) \<and> 1 < tx_version (sx_tx T)")
  case True
  with assms obtain d where "clear_amount X (sx_tx T) out index derived = d"
    "r = map_option (\<lambda>(amount, blind). (amount, blind, ext OR ringct_output)) d"
    by (cases "decode_amount X (tx_out_pk (sx_tx T) ! index) (tx_ecdh_info (sx_tx T) ! index) derived index
        (rct_bulletproof2 X \<le> tx_rct_type (sx_tx T))")
      (auto simp: output_amount_def clear_amount_def Let_def check_Inr_iff at_index_def split: if_splits)
  then show ?thesis by (cases d) (auto simp: coinbase_ringct)
next
  case False
  with assms show ?thesis by (auto simp: output_amount_def clear_amount_def Let_def coinbase_ringct split: if_splits)
qed

definition found_at :: "scan_crypto \<Rightarrow> scan_tx \<Rightarrow> hash \<Rightarrow> public_key \<Rightarrow> nat \<Rightarrow> db_output \<Rightarrow> bool" where
  "found_at X T derived spend_pub index out \<longleftrightarrow>
     pays X (sx_tx T) derived spend_pub index (o_pub out) (sm_amount (o_spend_meta out)) (o_ringct_mask out) \<and>
     sm_id (o_spend_meta out) =
       Output_id (if tx_version (sx_tx T) < 2 then out_amount (tx_vout (sx_tx T) ! index) else 0) (sx_out_ids T ! index) \<and>
     sm_index (o_spend_meta out) = of_nat index \<and> sm_tx_public (o_spend_meta out) = sx_key T \<and>
     o_link out = Transaction_link (sx_height T) (sx_hash T) \<and> o_recipient out = Address_index 0 0"

lemma scan_outputs_plain:
  "scan_outputs L C X T (\<lambda>sr. add_account_out) derived [] mixin index vout ext pid user sr = Inr (pid', user', sr') \<Longrightarrow>
     account_ok user \<Longrightarrow> la_immutable user = Some im \<Longrightarrow> sr_reader sr = None \<Longrightarrow>
     (ext AND coinbase_output = 0 \<longleftrightarrow> Txin_gen \<notin> set (tx_vin (sx_tx T))) \<Longrightarrow>
     vout = drop index (tx_vout (sx_tx T)) \<Longrightarrow>
     sr' = sr \<and>
     (\<exists>new. grows user user' new \<and> (\<forall>out \<in> set new. \<exists>i. found_at X T derived (spend_public (im_pubs im)) i out)) \<and>
     (\<forall>i \<ge> index. \<forall>p amount blind. pays X (sx_tx T) derived (spend_public (im_pubs im)) i p amount blind \<longrightarrow> p \<in> set (la_pubs user'))"
proof (induction vout arbitrary: index ext pid user sr)
  case Nil
  then have "length (tx_vout (sx_tx T)) \<le> index" by simp
  with Nil show ?case using grows_refl[OF Nil.prems(2)] by (auto simp: pays_def)
next
  case (Cons out vout)
  let ?sk = "spend_public (im_pubs im)"
  note prems = Cons.prems
  have i: "index < length (tx_vout (sx_tx T))" using prems(6) by (metis drop_all list.distinct(1) not_less)
  have out: "tx_vout (sx_tx T) ! index = out" "vout = drop (Suc index) (tx_vout (sx_tx T))"
    using trans[OF prems(6) Cons_nth_drop_Suc[OF i, symmetric]] by simp_all
  have split: "(\<forall>i \<ge> index. Q i) \<longleftrightarrow> Q index \<and> (\<forall>i \<ge> Suc index. Q i)" for Q :: "nat \<Rightarrow> bool"
    by (metis Suc_le_eq le_eq_less_or_eq)
  note plain = match_output_plain[OF prems(4,3), of L C X T _ index derived]
  from scan_outputs_step[OF prems(1)] show ?case
  proof (elim disjE exE conjE)
    fix sr1
    assume h: "passes_over L C X T derived [] index out ext user sr sr1"
      and run: "scan_outputs L C X T (\<lambda>sr. add_account_out) derived [] mixin (Suc index) vout ext pid user sr1 = Inr (pid', user', sr')"
    have "sr1 = sr \<and> \<not> pays X (sx_tx T) derived ?sk index p amount blind" for p amount blind
      using h output_amount_clear[OF _ prems(5), of X out index derived None]
      by (auto simp: passes_over_def plain pays_def out split: if_splits)
    with Cons.IH[OF run prems(2,3) _ prems(5) out(2)] prems(4) show ?case unfolding split[of "\<lambda>i. \<forall>p amount blind. pays X (sx_tx T) derived ?sk i p amount blind \<longrightarrow> p \<in> set (la_pubs user')"] by auto
  next
    fix ext1 pid1 found sr1
    assume h: "hands_over L C X T derived [] mixin index out ext pid user sr ext1 pid1 found sr1"
      and run: "scan_outputs L C X T (\<lambda>sr. add_account_out) derived [] mixin (Suc index) vout ext1 pid1
        (snd (add_account_out user found)) sr1 = Inr (pid', user', sr')"
    let ?user = "snd (add_account_out user found)" and ?new1 = "if o_pub found \<in> set (la_pubs user) then [] else [found]"
    obtain p amount blind where f: "out_key out = Some p" "tag_matches X (out_view_tag out) derived index"
      "derive_subaddress X p derived index = Some ?sk" "sr1 = sr"
      "output_amount X T out index derived ext = Inr (Some (amount, blind, ext1))"
      "found = found_output X T out p (sx_out_ids T ! index) mixin (of_nat index) (sx_key T) amount blind ext1 pid1 (Address_index 0 0)"
      using h by (auto simp: hands_over_def plain split: if_splits)
    have a: "clear_amount X (sx_tx T) out index derived = Some (amount, blind)" "ext1 AND coinbase_output = ext AND coinbase_output"
      using output_amount_clear[OF f(5) prems(5)] by auto
    have at: "found_at X T derived ?sk index found"
      using f a i by (simp add: found_at_def pays_def out found_output_def)
    have g: "grows user ?user ?new1" using grows_add[OF prems(2)] .
    then have ok: "account_ok ?user" "la_immutable ?user = Some im" "o_pub found \<in> set (la_pubs ?user)"
      using prems(3) by (auto simp: grows_def split: if_splits)
    have IH: "sr' = sr" "\<forall>i \<ge> Suc index. \<forall>p amount blind. pays X (sx_tx T) derived ?sk i p amount blind \<longrightarrow> p \<in> set (la_pubs user')"
      "\<exists>new. grows ?user user' new \<and> (\<forall>out \<in> set new. \<exists>i. found_at X T derived ?sk i out)"
      using Cons.IH[OF run ok(1,2) _ _ out(2)] prems(4,5) a(2) f(4) by simp_all
    from IH(3) obtain new where n: "grows ?user user' new" "\<forall>out \<in> set new. \<exists>i. found_at X T derived ?sk i out" by blast
    have "p = o_pub found" using f(6) by (simp add: found_output_def)
    then have "q \<in> set (la_pubs user')" if "pays X (sx_tx T) derived ?sk index q amount' blind'" for q amount' blind'
      using that n(1) ok(3) f(1) by (auto simp: pays_def out grows_def)
    moreover have "\<forall>out \<in> set (?new1 @ new). \<exists>i. found_at X T derived ?sk i out" using n(2) at by auto
    ultimately show ?case using IH(1,2) grows_trans[OF g n(1)]
      unfolding split[of "\<lambda>i. \<forall>p amount blind. pays X (sx_tx T) derived ?sk i p amount blind \<longrightarrow> p \<in> set (la_pubs user')"] by blast
  qed
qed

section \<open>All accounts\<close>

lemma scan_users_Cons:
  assumes "scan_users L C X T spend_action output_action (user # users) additional pid sr = Inr (users', sr')"
  obtains (skip) us where
    "sx_height T \<le> la_height user \<or> (\<exists>view_key. account_view_key user = Inr view_key \<and> key_derivation X (sx_key T) view_key = None)"
    "scan_users L C X T spend_action output_action users additional pid sr = Inr (us, sr')" "users' = user # us"
  | (scan) view_key derived ext mixin user1 pid2 user2 sr2 us where
    "la_height user < sx_height T" "account_view_key user = Inr view_key"
    "key_derivation X (sx_key T) view_key = Some derived"
    "scan_inputs T spend_action pid (tx_vin (sx_tx T)) 0 0 user = Inr (ext, mixin, user1)"
    "scan_outputs L C X T output_action derived (additional_derivations X T view_key sr additional) mixin 0
      (tx_vout (sx_tx T)) ext pid user1 sr = Inr (pid2, user2, sr2)"
    "scan_users L C X T spend_action output_action users (additional_derivations X T view_key sr additional) pid2 sr2 = Inr (us, sr')"
    "users' = user2 # us"
proof (cases "sx_height T \<le> la_height user")
  case True
  with assms skip show thesis by (auto simp: check_Inr_iff)
next
  case False
  with assms obtain view_key where v: "account_view_key user = Inr view_key" by (auto simp: check_Inr_iff)
  show thesis
  proof (cases "key_derivation X (sx_key T) view_key")
    case None
    with assms False v skip show thesis by (auto simp: check_Inr_iff)
  next
    case (Some derived)
    with assms False v scan show thesis by (auto simp: check_Inr_iff Let_def not_le)
  qed
qed

lemma scan_users_run:
  assumes "scan_users L C X T spend_action output_action users additional pid sr = Inr (users', sr')"
    and "I additional pid sr"
    and step: "\<And>user view_key derived additional pid sr ext mixin user1 pid2 user2 sr2.
      I additional pid sr \<Longrightarrow> la_height user < sx_height T \<Longrightarrow> account_view_key user = Inr view_key \<Longrightarrow>
      key_derivation X (sx_key T) view_key = Some derived \<Longrightarrow>
      scan_inputs T spend_action pid (tx_vin (sx_tx T)) 0 0 user = Inr (ext, mixin, user1) \<Longrightarrow>
      scan_outputs L C X T output_action derived (additional_derivations X T view_key sr additional) mixin 0
        (tx_vout (sx_tx T)) ext pid user1 sr = Inr (pid2, user2, sr2) \<Longrightarrow>
      R user user2 \<and> I (additional_derivations X T view_key sr additional) pid2 sr2"
    and skip: "\<And>user. sx_height T \<le> la_height user \<or>
      (\<exists>view_key. account_view_key user = Inr view_key \<and> key_derivation X (sx_key T) view_key = None) \<Longrightarrow> R user user"
  shows "list_all2 R users users' \<and> (\<exists>additional pid. I additional pid sr')"
  using assms(1,2)
proof (induction users arbitrary: additional pid sr users')
  case (Cons user users)
  from Cons.prems(1) show ?case
  proof (cases rule: scan_users_Cons)
    case skip
    from Cons.IH[OF skip(2) Cons.prems(2)] assms(4)[OF skip(1)] skip(3) show ?thesis by simp
  next
    case scan
    from step[OF Cons.prems(2) scan(1-5)] Cons.IH[OF scan(6)] scan(7) show ?thesis by simp
  qed
qed auto

text \<open>The first payment id that is decrypted is the one of all accounts that follow.\<close>

definition same_payment :: "payment \<Rightarrow> lws_account \<Rightarrow> lws_account \<Rightarrow> bool" where
  "same_payment pid user user' \<longleftrightarrow> (account_ok user \<longrightarrow> (\<exists>new. la_outputs user' = la_outputs user @ new \<and>
     (\<forall>out \<in> set new. fst pid \<noteq> 0 \<and> o_payment_id out = snd pid)))"

lemma scan_users_payment:
  "scan_users L C X T add_account_spend (\<lambda>sr. add_account_out) users additional pid sr = Inr (users', sr') \<Longrightarrow>
     carries_encrypted X T \<Longrightarrow> list_all account_ok users \<Longrightarrow>
     \<exists>pid'. payment_kept X T pid pid' \<and> list_all2 (same_payment pid') users users'"
proof (induction users arbitrary: additional pid sr users')
  case Nil
  then show ?case by (intro exI[of _ pid]) (simp add: payment_kept_def)
next
  case (Cons user users)
  from Cons.prems(1) show ?case
  proof (cases rule: scan_users_Cons)
    case (skip us)
    with Cons.IH[OF skip(2) Cons.prems(2)] Cons.prems(3) show ?thesis by (auto simp: same_payment_def)
  next
    case (scan view_key derived ext mixin user1 pid2 user2 sr2 us)
    note ins = scan_inputs_spends[OF scan(4)]
    have ok: "account_ok user1" using Cons.prems(3) ins by (simp add: account_ok_def)
    from scan_outputs_grows[OF scan(5) ok] Cons.prems(2) obtain new where
      new: "payment_kept X T pid pid2" "grows user1 user2 new" "\<forall>out \<in> set new. fst pid2 \<noteq> 0 \<and> o_payment_id out = snd pid2" by blast
    from Cons.IH[OF scan(6) Cons.prems(2)] Cons.prems(3) obtain pid' where
      p: "payment_kept X T pid2 pid'" "list_all2 (same_payment pid') users us" by auto
    have "\<forall>out \<in> set new. fst pid' \<noteq> 0 \<and> o_payment_id out = snd pid'"
      using new(3) p(1) by (auto simp: payment_kept_def)
    then have "same_payment pid' user user2" using new(2) ins by (auto simp: same_payment_def grows_def)
    with p(2) scan(7) have "list_all2 (same_payment pid') (user # users) users'" by simp
    with payment_kept_trans[OF new(1) p(1)] show ?thesis by blast
  qed
qed

text \<open>The accounts a transaction is tried for, with the shared secret of each.\<close>

definition tried :: "scan_crypto \<Rightarrow> block_id \<Rightarrow> transaction \<Rightarrow> lws_account \<Rightarrow> hash option" where
  "tried X height tx user =
     (case (find_pub_key X (tx_extra tx), la_immutable user) of
        (Some key, Some im) \<Rightarrow> if la_height user < height then key_derivation X key (im_view_key im) else None
      | _ \<Rightarrow> None)"

lemma account_view_key_Inr: "account_view_key user = Inr v \<longleftrightarrow> (\<exists>im. la_immutable user = Some im \<and> v = im_view_key im)"
  by (auto simp: account_view_key_def null_check_def split: option.splits)

lemma scan_transaction_run:
  assumes "scan_transaction L C X users height timestamp tx_hash tx out_ids sr = Inr (users', sr')"
    and "I [] (first_payment_id X (find_nonce X (tx_extra tx))) sr"
    and "\<And>key user im derived additional pid sr1 ext mixin user1 pid2 user2 sr2.
      let T = seen_tx X height timestamp tx_hash tx out_ids key sr;
          additional1 = additional_derivations X T (im_view_key im) sr1 additional in
      find_pub_key X (tx_extra tx) = Some key \<longrightarrow>
      I additional pid sr1 \<longrightarrow> tried X height tx user = Some derived \<longrightarrow> la_immutable user = Some im \<longrightarrow>
      scan_inputs T add_account_spend pid (tx_vin tx) 0 0 user = Inr (ext, mixin, user1) \<longrightarrow>
      scan_outputs L C X T (\<lambda>sr. add_account_out) derived additional1 mixin 0
        (tx_vout tx) ext pid user1 sr1 = Inr (pid2, user2, sr2) \<longrightarrow>
      R user user2 \<and> I additional1 pid2 sr2"
    and "\<And>user. tried X height tx user = None \<Longrightarrow> R user user"
  shows "list_all2 R users users' \<and> (\<exists>additional pid. I additional pid sr')"
proof (cases "find_pub_key X (tx_extra tx)")
  case None
  with assms(1) have "users' = users" "sr' = sr" by (simp_all add: scan_transaction_def scan_transaction_base_def split: if_splits)
  moreover have "tried X height tx user = None" for user using None by (simp add: tried_def)
  ultimately show ?thesis using assms(2,4) by (intro conjI exI[of _ "[]"] exI[of _ "first_payment_id X (find_nonce X (tx_extra tx))"]) (simp_all add: list_all2_same)
next
  case (Some key)
  let ?T = "seen_tx X height timestamp tx_hash tx out_ids key sr"
  have T: "sx_height ?T = height" "sx_tx ?T = tx" "sx_key ?T = key" by (simp_all add: seen_tx_def)
  have run: "scan_users L C X ?T add_account_spend (\<lambda>sr. add_account_out) users []
      (first_payment_id X (find_nonce X (tx_extra tx))) sr = Inr (users', sr')"
    using assms(1) Some by (simp add: scan_transaction_def scan_transaction_base_def split: if_splits)
  show ?thesis
  proof (rule scan_users_run[where I = I, OF run assms(2)], unfold T)
    fix user view_key derived additional pid sr1 ext mixin user1 pid2 user2 sr2
    assume a: "I additional pid sr1" "la_height user < height" "account_view_key user = Inr view_key"
      "key_derivation X key view_key = Some derived"
      "scan_inputs ?T add_account_spend pid (tx_vin tx) 0 0 user = Inr (ext, mixin, user1)"
      "scan_outputs L C X ?T (\<lambda>sr. add_account_out) derived (additional_derivations X ?T view_key sr1 additional) mixin 0
        (tx_vout tx) ext pid user1 sr1 = Inr (pid2, user2, sr2)"
    from a(3) obtain im where im: "la_immutable user = Some im" "view_key = im_view_key im" by (auto simp: account_view_key_Inr)
    have "tried X height tx user = Some derived" using a(2,4) im Some by (simp add: tried_def)
    with assms(3)[of key im sr1 additional pid user derived ext mixin user1 pid2 user2 sr2] a Some im show "R user user2 \<and> I (additional_derivations X ?T view_key sr1 additional) pid2 sr2"
      by (simp add: Let_def)
  next
    fix user
    assume "height \<le> la_height user \<or>
      (\<exists>view_key. account_view_key user = Inr view_key \<and> key_derivation X key view_key = None)"
    then have "tried X height tx user = None"
      using Some by (auto simp: tried_def account_view_key_Inr split: option.splits)
    then show "R user user" by (rule assms(4))
  qed
qed

lemmas scan_transaction_all2 = scan_transaction_run[THEN conjunct1]

section \<open>Scanning succeeds\<close>

text \<open>
  What a parsed transaction is like: its version is known, hidden amounts and ids are there for
  every output, and nothing is too large to count.
\<close>

definition well_formed_tx :: "transaction \<Rightarrow> u64 list \<Rightarrow> bool" where
  "well_formed_tx tx out_ids \<longleftrightarrow> tx_version tx \<le> 2 \<and> length (tx_vout tx) \<le> length out_ids \<and> length (tx_vout tx) \<le> 2 ^ 32 \<and>
     (\<forall>amount offsets k_image. Txin_to_key amount offsets k_image \<in> set (tx_vin tx) \<longrightarrow> length offsets \<le> 2 ^ 32) \<and>
     (tx_version tx = 2 \<longrightarrow> length (tx_vout tx) \<le> length (tx_out_pk tx) \<and> length (tx_vout tx) \<le> length (tx_ecdh_info tx))"

definition has_disk :: "'t subaddress_reader \<Rightarrow> bool" where
  "has_disk sr \<longleftrightarrow> (sr_reader sr \<noteq> None \<longrightarrow> sr_disk sr \<noteq> None)"

lemma scan_lookahead_total:
  "la_immutable user \<noteq> None \<Longrightarrow> sr_disk sr \<noteq> None \<Longrightarrow> \<exists>sr'. scan_lookahead L C user match height sr = Inr sr' \<and> has_disk sr'"
  by (auto simp: scan_lookahead_def db_address_def null_check_def has_disk_def update_reader_def Let_def split: sum.splits)

lemma match_attempt_total:
  "la_immutable user \<noteq> None \<Longrightarrow> has_disk sr \<Longrightarrow> \<exists>m sr'. match_attempt L C X height user p index derived sr = Inr (m, sr') \<and> has_disk sr'"
  using scan_lookahead_total[of user sr L C _ height]
  by (auto simp: match_attempt_def db_address_def null_check_def has_disk_def split: option.splits sum.splits)
    (metis check_simps(2))+

lemma match_output_total:
  assumes "la_immutable user \<noteq> None" "has_disk sr" "additional \<noteq> [] \<longrightarrow> index < length additional \<and> index < length (sx_additional T)"
  shows "\<exists>m sr'. match_output L C X T user p index derived additional sr = Inr (m, sr') \<and> has_disk sr'"
proof -
  obtain m sr1 where m: "match_attempt L C X (sx_height T) user p index derived sr = Inr (m, sr1)" "has_disk sr1"
    using match_attempt_total[OF assms(1,2)] by blast
  show ?thesis
  proof (cases "m = None \<and> additional \<noteq> []")
    case True
    obtain m' sr' where "match_attempt L C X (sx_height T) user p index (additional ! index) sr1 = Inr (m', sr')" "has_disk sr'"
      using match_attempt_total[OF assms(1) m(2)] by blast
    with True m assms(3) show ?thesis by (simp add: match_output_def at_index_def)
  next
    case False
    with m show ?thesis by (auto simp: match_output_def split: option.splits)
  qed
qed

lemma output_amount_total:
  "(1 < tx_version (sx_tx T) \<Longrightarrow> index < length (tx_out_pk (sx_tx T)) \<and> index < length (tx_ecdh_info (sx_tx T))) \<Longrightarrow>
     \<exists>d. output_amount X T out index derived ext = Inr d"
  by (cases "decode_amount X (tx_out_pk (sx_tx T) ! index) (tx_ecdh_info (sx_tx T) ! index) derived index
        (rct_bulletproof2 X \<le> tx_rct_type (sx_tx T))")
    (auto simp: output_amount_def Let_def at_index_def)

lemma scan_outputs_total:
  "index + length vout \<le> length (tx_vout (sx_tx T)) \<Longrightarrow> well_formed_tx (sx_tx T) (sx_out_ids T) \<Longrightarrow>
     additional = [] \<or> length additional = length (tx_vout (sx_tx T)) \<and> length (sx_additional T) = length (tx_vout (sx_tx T)) \<Longrightarrow>
     la_immutable user \<noteq> None \<Longrightarrow> account_ok user \<Longrightarrow> has_disk sr \<Longrightarrow>
     \<exists>pid' user' sr'. scan_outputs L C X T (\<lambda>sr. add_account_out) derived additional mixin index vout ext pid user sr = Inr (pid', user', sr') \<and>
       has_disk sr'"
proof (induction vout arbitrary: index ext pid user sr)
  case (Cons out vout)
  note p = Cons.prems
  have i: "index < length (tx_vout (sx_tx T))" using p(1) by simp
  have IH: "\<exists>pid' user' sr'. scan_outputs L C X T (\<lambda>sr. add_account_out) derived additional mixin (Suc index) vout ext1 pid1 user1 sr1 = Inr (pid', user', sr') \<and>
       has_disk sr'" if "la_immutable user1 \<noteq> None" "account_ok user1" "has_disk sr1" for ext1 pid1 user1 sr1
    using Cons.IH[OF _ p(2,3) that] p(1) by simp
  show ?case
  proof (cases "out_key out")
    case None
    then show ?thesis using IH[OF p(4-6)] by simp
  next
    case (Some q)
    let ?tag = "additional \<noteq> [] \<and> tag_matches X (out_view_tag out) (additional ! index) index"
    have at: "(if additional = [] then Inr False else check (at_index additional index) (\<lambda>a. Inr (tag_matches X (out_view_tag out) a index))) = Inr ?tag"
      using p(3) i by (auto simp: at_index_def)
    obtain m sr1 where m: "match_output L C X T user q index derived additional sr = Inr (m, sr1)" "has_disk sr1"
      using match_output_total[OF p(4,6), of additional index T L C X q derived] p(3) i by auto
    show ?thesis
    proof (cases "?tag \<or> tag_matches X (out_view_tag out) derived index")
      case False
      then show ?thesis using IH[OF p(4-6)] Some at by simp
    next
      case tag: True
      show ?thesis
      proof (cases m)
        case None
        then show ?thesis using IH[OF p(4,5) m(2)] Some at tag m(1) by (simp del: de_Morgan_disj de_Morgan_conj)
      next
        case m': (Some f)
        obtain account_index active_derived active_pub where f: "f = (account_index, active_derived, active_pub)" by (cases f)
        have "index < length (tx_out_pk (sx_tx T)) \<and> index < length (tx_ecdh_info (sx_tx T))" if "1 < tx_version (sx_tx T)"
          using that p(2) i by (auto simp: well_formed_tx_def)
        then obtain d where d: "output_amount X T out index active_derived ext = Inr d"
          using output_amount_total by blast
        show ?thesis
        proof (cases d)
          case None
          then show ?thesis using IH[OF p(4,5) m(2)] Some at tag m(1) m' f d by (simp del: de_Morgan_disj de_Morgan_conj)
        next
          case d': (Some a)
          obtain amount blind ext' where a: "a = (amount, blind, ext')" by (cases a)
          let ?pid = "output_payment X T active_derived pid"
          let ?found = "found_output X T out q (sx_out_ids T ! index) mixin (of_nat index) active_pub amount blind ext' ?pid account_index"
          have ix: "at_index (sx_out_ids T) index = Inr (sx_out_ids T ! index)" "numeric_cast32 index = Inr (of_nat index)"
            using p(2) i by (auto simp: well_formed_tx_def at_index_def numeric_cast32_def)
          have "la_immutable (snd (add_account_out user ?found)) \<noteq> None" "account_ok (snd (add_account_out user ?found))"
            using grows_add[OF p(5), of ?found] p(4) by (simp_all add: grows_def)
          from IH[OF this m(2), of ext' ?pid] show ?thesis using Some at tag m(1) m' f d d' a ix
            by (simp add: Let_def del: de_Morgan_disj de_Morgan_conj)
        qed
      qed
    qed
  qed
qed simp

lemma scan_inputs_total:
  "\<forall>amount offsets k_image. Txin_to_key amount offsets k_image \<in> set vin \<longrightarrow> length offsets \<le> 2 ^ 32 \<Longrightarrow>
     \<exists>ext' mixin' user'. scan_inputs T spend_action pid vin ext mixin user = Inr (ext', mixin', user')"
proof (induction vin arbitrary: ext mixin user)
  case (Cons i vin)
  have rest: "\<forall>amount offsets k_image. Txin_to_key amount offsets k_image \<in> set vin \<longrightarrow> length offsets \<le> 2 ^ 32" using Cons.prems by simp
  show ?case
  proof (cases i)
    case (Txin_to_key amount offsets k_image)
    then have "length offsets \<le> 2 ^ 32" using Cons.prems by simp
    then have "max 1 (length offsets) - 1 < 2 ^ 32" by simp
    then show ?thesis using Cons.IH[OF rest] Txin_to_key by (simp add: numeric_cast32_def)
  qed (use Cons.IH[OF rest] in simp_all)
qed simp

lemma additional_derivations_length:
  "additional = [] \<or> length additional = length (tx_vout (sx_tx T)) \<and> length (sx_additional T) = length (tx_vout (sx_tx T)) \<Longrightarrow>
   let ds = additional_derivations X T view_key sr additional in
     ds = [] \<or> length ds = length (tx_vout (sx_tx T)) \<and> length (sx_additional T) = length (tx_vout (sx_tx T))"
proof -
  have "those xs = Some ys \<Longrightarrow> length ys = length xs" for xs :: "hash option list" and ys
    by (induction xs arbitrary: ys) (auto split: option.splits)
  then show "additional = [] \<or> length additional = length (tx_vout (sx_tx T)) \<and> length (sx_additional T) = length (tx_vout (sx_tx T)) \<Longrightarrow> ?thesis"
    by (auto simp: additional_derivations_def Let_def split: option.splits)
qed

lemma scan_users_total:
  "well_formed_tx (sx_tx T) (sx_out_ids T) \<Longrightarrow>
     additional = [] \<or> length additional = length (tx_vout (sx_tx T)) \<and> length (sx_additional T) = length (tx_vout (sx_tx T)) \<Longrightarrow>
     \<forall>user \<in> set users. la_immutable user \<noteq> None \<and> account_ok user \<Longrightarrow> has_disk sr \<Longrightarrow>
     \<exists>users' sr'. scan_users L C X T add_account_spend (\<lambda>sr. add_account_out) users additional pid sr = Inr (users', sr')"
proof (induction users arbitrary: additional pid sr)
  case (Cons user users)
  note p = Cons.prems
  have IH: "\<exists>users' sr'. scan_users L C X T add_account_spend (\<lambda>sr. add_account_out) users additional1 pid1 sr1 = Inr (users', sr')"
    if "has_disk sr1" "additional1 = [] \<or> length additional1 = length (tx_vout (sx_tx T)) \<and> length (sx_additional T) = length (tx_vout (sx_tx T))"
    for additional1 pid1 sr1
    using Cons.IH[OF p(1) that(2) _ that(1)] p(3) by simp
  obtain view_key where v: "account_view_key user = Inr view_key" using p(3) by (auto simp: account_view_key_def null_check_def)
  show ?case
  proof (cases "sx_height T \<le> la_height user")
    case True
    then show ?thesis using IH[OF p(4,2), of pid] by auto
  next
    case False
    show ?thesis
    proof (cases "key_derivation X (sx_key T) view_key")
      case None
      then show ?thesis using IH[OF p(4,2), of pid] False v by auto
    next
      case (Some derived)
      let ?ds = "additional_derivations X T view_key sr additional"
      note ds = additional_derivations_length[OF p(2), of X view_key sr, unfolded Let_def]
      obtain ext mixin user1 where ins: "scan_inputs T add_account_spend pid (tx_vin (sx_tx T)) 0 0 user = Inr (ext, mixin, user1)"
        using scan_inputs_total p(1) unfolding well_formed_tx_def by metis
      have "la_immutable user1 \<noteq> None" "account_ok user1" using scan_inputs_spends[OF ins] p(3) by (simp_all add: account_ok_def)
      from scan_outputs_total[OF _ p(1) ds this p(4), of 0 "tx_vout (sx_tx T)" L C X derived mixin ext pid]
      obtain pid' user' sr' where outs: "scan_outputs L C X T (\<lambda>sr. add_account_out) derived ?ds mixin 0 (tx_vout (sx_tx T)) ext pid user1 sr = Inr (pid', user', sr')"
        "has_disk sr'" by auto
      show ?thesis using IH[OF outs(2) ds, of pid'] False v Some ins outs(1) by (auto simp: Let_def)
    qed
  qed
qed simp

lemma scan_transaction_total:
  assumes "well_formed_tx tx out_ids" and "has_disk sr"
    and "\<forall>user \<in> set users. la_immutable user \<noteq> None \<and> account_ok user"
  shows "\<exists>users' sr'. scan_transaction L C X users height timestamp tx_hash tx out_ids sr = Inr (users', sr')"
proof (cases "find_pub_key X (tx_extra tx)")
  case None
  with assms(1) show ?thesis by (simp add: scan_transaction_def scan_transaction_base_def well_formed_tx_def)
next
  case (Some key)
  let ?T = "seen_tx X height timestamp tx_hash tx out_ids key sr"
  have "well_formed_tx (sx_tx ?T) (sx_out_ids ?T)" using assms(1) by (simp add: seen_tx_def)
  from scan_users_total[OF this _ assms(3,2)] Some assms(1) show ?thesis
    by (simp add: scan_transaction_def scan_transaction_base_def well_formed_tx_def)
qed

section \<open>A small transaction\<close>

text \<open>It spends an output of the first account and pays to both accounts.\<close>

definition demo_scan_crypto :: scan_crypto where
  "demo_scan_crypto =
     \<lparr>find_pub_key = (\<lambda>extra. Some 100), find_nonce = Some, find_additional = (\<lambda>extra. []),
      nonce_payment_id = (\<lambda>nonce. None), nonce_encrypted_id = (\<lambda>nonce. Some (take 8 nonce)),
      key_derivation = (\<lambda>key view_key. Some (key + view_key)),
      derive_subaddress = (\<lambda>p derived i. Some (p - derived - of_nat i)), tag_matches = (\<lambda>tag derived i. True),
      derivation_to_scalar = (\<lambda>derived i. derived + of_nat i), ecdh_decode = (\<lambda>info scalar bulletproof2. info),
      add_keys2 = (+), h2d = ucast, rct_identity = 1, rct_bulletproof2 = 4, cn_fast_hash = rev,
      key_encrypted_payment_id = 141, tx_prefix_hash = (\<lambda>tx. 77), tx_fee = (\<lambda>tx. 9)\<rparr>"

definition demo_tx :: transaction where
  "demo_tx =
     \<lparr>tx_version = 2, tx_unlock_time = 0, tx_vin = [Txin_to_key 0 [1, 1, 5] 55],
      tx_vout = [\<lparr>out_amount = 0, out_key = Some 125, out_view_tag = None\<rparr>, \<lparr>out_amount = 0, out_key = Some 146, out_view_tag = None\<rparr>],
      tx_extra = replicate 8 7, tx_rct_type = 6, tx_out_pk = [26, 28], tx_ecdh_info = [(21, 5), (22, 6)]\<rparr>"

definition demo_users :: "lws_account list" where
  "demo_users =
     [make_account (\<lambda>a. []) demo_account [(Output_id 0 2, Address_index 0 0)] [33], make_account (\<lambda>a. []) demo_account2 [] []]"

definition no_reader :: "cell list subaddress_reader" where
  "no_reader = subaddress_reader_of None 0"

definition demo_scan :: "error + lws_account list \<times> cell list subaddress_reader" where
  "demo_scan = scan_transaction log_lmdb demo_crypto demo_scan_crypto demo_users 4 1004 104 demo_tx [40, 41] no_reader"

lemma demo_ready:
  "well_formed_tx demo_tx [40, 41]" "has_disk no_reader" "\<forall>user \<in> set demo_users. la_immutable user \<noteq> None \<and> account_ok user"
  by (simp_all add: well_formed_tx_def demo_tx_def has_disk_def no_reader_def subaddress_reader_of_def demo_users_def make_account_ok)
    (simp add: make_account_def)

lemma demo_scan_Inr: "\<exists>users' sr'. demo_scan = Inr (users', sr')"
  unfolding demo_scan_def by (rule scan_transaction_total[OF demo_ready])

lemma demo_users_ok: "account_ok (demo_users ! 0)" "account_ok (demo_users ! Suc 0)" "length demo_users = 2"
  by (simp_all add: demo_users_def make_account_ok)

lemma demo_users_tried:
  "tried demo_scan_crypto 4 demo_tx (demo_users ! 0) = Some 113" "tried demo_scan_crypto 4 demo_tx (demo_users ! Suc 0) = Some 123"
  by (simp_all add: tried_def demo_scan_crypto_def demo_users_def make_account_def account_internal_def demo_account_def demo_account2_def)

lemma demo_pays: "pays demo_scan_crypto demo_tx 123 22 1 146 6 22"
  by (simp add: pays_def demo_scan_crypto_def demo_tx_def clear_amount_def decode_amount_def)

section \<open>Properties\<close>

lemma scan_inputs_ext:
  assumes "scan_inputs T add_account_spend pid (tx_vin tx) 0 0 user = Inr (ext, mixin, user1)"
  shows "ext AND coinbase_output = 0 \<longleftrightarrow> Txin_gen \<notin> set (tx_vin tx)"
  using scan_inputs_spends[OF assms] by (simp add: coinbase_output_def)

text \<open>
  C15: Scanning a well-formed transaction never fails for accounts that were not moved from,
  whatever keys it has and whatever the database answers to the lookahead.
\<close>

theorem scan_transaction_succeeds:
  assumes "well_formed_tx tx out_ids" and "has_disk sr"
    and "\<forall>user \<in> set users. la_immutable user \<noteq> None \<and> account_ok user"
  shows "\<exists>users' sr'. scan_transaction L C X users height timestamp tx_hash tx out_ids sr = Inr (users', sr')"
  by (rule scan_transaction_total[OF assms])

theorem scan_transaction_succeeds_witness: "\<exists>users' sr'. demo_scan = Inr (users', sr')"
  unfolding demo_scan_def by (rule scan_transaction_succeeds[OF demo_ready])

text \<open>
  C14: A scanned transaction leaves accounts alone that are at its height or above or that share no
  secret with it. Every other account gets exactly the spends of the ring members that it could
  spend before the transaction, in the order of the inputs, each with the subaccount it was
  received on.
\<close>

theorem scan_records_spends:
  assumes "scan_transaction L C X users height timestamp tx_hash tx out_ids sr = Inr (users', sr')"
    and "j < length users" and "account_ok (users ! j)"
  shows "length users' = length users \<and>
    (if tried X height tx (users ! j) = None then users' ! j = users ! j
     else \<exists>key pid. la_spends (users' ! j) = la_spends (users ! j) @
       concat (map (input_spends (seen_tx X height timestamp tx_hash tx out_ids key sr) pid (users ! j)) (tx_vin tx)))"
proof -
  let ?R = "\<lambda>user user'. account_ok user \<longrightarrow> (if tried X height tx user = None then user' = user
     else \<exists>key pid. la_spends user' = la_spends user @
       concat (map (input_spends (seen_tx X height timestamp tx_hash tx out_ids key sr) pid user) (tx_vin tx)))"
  have "list_all2 ?R users users'"
  proof (rule scan_transaction_all2[where I = "\<lambda>additional pid sr. True", OF assms(1)])
    fix key user im derived additional pid sr1 ext mixin user1 pid2 user2 sr2
    let ?T = "seen_tx X height timestamp tx_hash tx out_ids key sr"
    have "?R user user2"
      if t: "tried X height tx user = Some derived"
      and ins: "scan_inputs ?T add_account_spend pid (tx_vin tx) 0 0 user = Inr (ext, mixin, user1)"
      and outs: "scan_outputs L C X ?T (\<lambda>sr. add_account_out) derived additional1 mixin 0 (tx_vout tx) ext pid user1 sr1 = Inr (pid2, user2, sr2)"
      for additional1
    proof
      note i = scan_inputs_spends[OF ins]
      assume "account_ok user"
      then have "account_ok user1" using i by (simp add: account_ok_def)
      from scan_outputs_grows[OF outs this] have "la_spends user2 = la_spends user1" by (auto simp: grows_def)
      then have "la_spends user2 = la_spends user @ concat (map (input_spends ?T pid user) (tx_vin tx))" using i by simp
      then have "\<exists>key pid. la_spends user2 = la_spends user @
          concat (map (input_spends (seen_tx X height timestamp tx_hash tx out_ids key sr) pid user) (tx_vin tx))" by blast
      with t show "if tried X height tx user = None then user2 = user
        else \<exists>key pid. la_spends user2 = la_spends user @
          concat (map (input_spends (seen_tx X height timestamp tx_hash tx out_ids key sr) pid user) (tx_vin tx))" by simp
    qed
    then show "let T = ?T; additional1 = additional_derivations X T (im_view_key im) sr1 additional in
      find_pub_key X (tx_extra tx) = Some key \<longrightarrow> True \<longrightarrow> tried X height tx user = Some derived \<longrightarrow> la_immutable user = Some im \<longrightarrow>
      scan_inputs T add_account_spend pid (tx_vin tx) 0 0 user = Inr (ext, mixin, user1) \<longrightarrow>
      scan_outputs L C X T (\<lambda>sr. add_account_out) derived additional1 mixin 0 (tx_vout tx) ext pid user1 sr1 = Inr (pid2, user2, sr2) \<longrightarrow>
      ?R user user2 \<and> True"
      unfolding Let_def by blast
  qed simp_all
  from list_all2_lengthD[OF this] list_all2_nthD[OF this assms(2)] assms(3) show ?thesis by metis
qed

theorem scan_records_spends_witness:
  "\<exists>users' sr'. demo_scan = Inr (users', sr') \<and> length users' = 2 \<and> map s_source (la_spends (users' ! 0)) = [Output_id 0 2]"
proof -
  obtain users' sr' where r: "demo_scan = Inr (users', sr')" using demo_scan_Inr by blast
  have "length users' = 2" using scan_records_spends[OF r[unfolded demo_scan_def], of 0] demo_users_ok by simp
  moreover obtain key pid where "la_spends (users' ! 0) = la_spends (demo_users ! 0) @
      concat (map (input_spends (seen_tx demo_scan_crypto 4 1004 104 demo_tx [40, 41] key no_reader) pid (demo_users ! 0)) (tx_vin demo_tx))"
    using scan_records_spends[OF r[unfolded demo_scan_def], of 0] demo_users_ok demo_users_tried(1) by auto
  then have "map s_source (la_spends (users' ! 0)) = [Output_id 0 2]"
    by (simp add: demo_users_def demo_tx_def input_spends_def ring_members_def member_spends_def get_spendable_def from_bound_def
        make_account_def numeral_3_eq_3 upt_rec less_prod_def' less_output_id_def seen_tx_def)
  ultimately show ?thesis using r by (intro exI conjI)
qed

text \<open>What scanning without subaddresses does to an account.\<close>

definition plainly_scanned :: "scan_crypto \<Rightarrow> scan_tx \<Rightarrow> lws_account \<Rightarrow> lws_account \<Rightarrow> bool" where
  "plainly_scanned X T user user' \<longleftrightarrow>
     (case tried X (sx_height T) (sx_tx T) user of
        None \<Rightarrow> user' = user
      | Some derived \<Rightarrow> \<exists>im new spent. la_immutable user = Some im \<and> grows (user\<lparr>la_spends := spent\<rparr>) user' new \<and>
          (\<forall>out \<in> set new. \<exists>i. found_at X T derived (spend_public (im_pubs im)) i out) \<and>
          (\<forall>i p amount blind. pays X (sx_tx T) derived (spend_public (im_pubs im)) i p amount blind \<longrightarrow> p \<in> set (la_pubs user')))"

lemma seen_tx_sel [simp]:
  "sx_height (seen_tx X height timestamp tx_hash tx out_ids key sr) = height"
  "sx_tx (seen_tx X height timestamp tx_hash tx out_ids key sr) = tx"
  by (simp_all add: seen_tx_def)

lemma tried_key: "tried X height tx user = Some derived \<Longrightarrow> find_pub_key X (tx_extra tx) \<noteq> None"
  by (auto simp: tried_def split: option.splits)

lemma user_plainly_scanned:
  assumes ok: "account_ok user" and im: "la_immutable user = Some im" and t: "tried X (sx_height T) (sx_tx T) user = Some derived"
    and ins: "scan_inputs T add_account_spend pid (tx_vin (sx_tx T)) 0 0 user = Inr (ext, mixin, user1)"
    and outs: "scan_outputs L C X T (\<lambda>sr. add_account_out) derived [] mixin 0 (tx_vout (sx_tx T)) ext pid user1 sr1 = Inr (pid2, user2, sr2)"
    and sr1: "sr_reader sr1 = None"
  shows "plainly_scanned X T user user2"
proof -
  note i = scan_inputs_spends[OF ins]
  have u1: "account_ok user1" "la_immutable user1 = Some im" using ok im i by (simp_all add: account_ok_def)
  note plain = scan_outputs_plain[OF outs u1 sr1 scan_inputs_ext[OF ins], simplified]
  obtain new where g: "grows user1 user2 new"
    and new: "\<forall>out \<in> set new. \<exists>i. found_at X T derived (spend_public (im_pubs im)) i out" using plain by blast
  obtain spent where "user1 = user\<lparr>la_spends := spent\<rparr>" using i by blast
  then show ?thesis using t im g new plain by (auto simp: plainly_scanned_def)
qed

lemma scan_transaction_plain:
  assumes "scan_transaction L C X users height timestamp tx_hash tx out_ids sr = Inr (users', sr')" and "sr_reader sr = None"
  shows "sr' = sr \<and> (\<exists>key. (find_pub_key X (tx_extra tx) \<noteq> None \<longrightarrow> find_pub_key X (tx_extra tx) = Some key) \<and>
    list_all2 (\<lambda>user user'. account_ok user \<longrightarrow> plainly_scanned X (seen_tx X height timestamp tx_hash tx out_ids key sr) user user') users users')"
proof -
  define key where "key = the (find_pub_key X (tx_extra tx))"
  let ?T = "seen_tx X height timestamp tx_hash tx out_ids key sr"
  have "list_all2 (\<lambda>user user'. account_ok user \<longrightarrow> plainly_scanned X ?T user user') users users' \<and>
      (\<exists>additional (pid :: payment). additional = ([] :: hash list) \<and> sr' = sr)"
  proof (rule scan_transaction_run[where I = "\<lambda>additional pid sr1. additional = [] \<and> sr1 = sr", OF assms(1)])
    fix key' user im derived additional pid sr1 ext mixin user1 pid2 user2 sr2
    let ?T' = "seen_tx X height timestamp tx_hash tx out_ids key' sr"
    show "let T = ?T'; additional1 = additional_derivations X T (im_view_key im) sr1 additional in
      find_pub_key X (tx_extra tx) = Some key' \<longrightarrow>
      additional = [] \<and> sr1 = sr \<longrightarrow> tried X height tx user = Some derived \<longrightarrow> la_immutable user = Some im \<longrightarrow>
      scan_inputs T add_account_spend pid (tx_vin tx) 0 0 user = Inr (ext, mixin, user1) \<longrightarrow>
      scan_outputs L C X T (\<lambda>sr. add_account_out) derived additional1 mixin 0 (tx_vout tx) ext pid user1 sr1 = Inr (pid2, user2, sr2) \<longrightarrow>
      (account_ok user \<longrightarrow> plainly_scanned X ?T user user2) \<and> (additional1 = [] \<and> sr2 = sr)"
      unfolding Let_def
    proof (intro impI)
      assume k: "find_pub_key X (tx_extra tx) = Some key'" and sr1: "additional = [] \<and> sr1 = sr"
        and t: "tried X height tx user = Some derived" and im: "la_immutable user = Some im"
        and ins: "scan_inputs ?T' add_account_spend pid (tx_vin tx) 0 0 user = Inr (ext, mixin, user1)"
        and o: "scan_outputs L C X ?T' (\<lambda>sr. add_account_out) derived (additional_derivations X ?T' (im_view_key im) sr1 additional)
          mixin 0 (tx_vout tx) ext pid user1 sr1 = Inr (pid2, user2, sr2)"
      have d: "additional_derivations X ?T' (im_view_key im) sr1 additional = []" using sr1 assms(2) by (simp add: additional_derivations_def)
      have r: "sr_reader sr1 = None" and T: "?T' = ?T" using sr1 assms(2) k by (simp_all add: key_def)
      have "account_ok user \<longrightarrow> plainly_scanned X ?T user user2"
      proof
        assume ok: "account_ok user"
        show "plainly_scanned X ?T user user2"
          by (rule user_plainly_scanned[where T = ?T, OF ok im, unfolded seen_tx_sel, OF t ins[unfolded T] o[unfolded d, unfolded T] r])
      qed
      with d scan_outputs_reader[OF o[unfolded d] r] sr1
      show "(account_ok user \<longrightarrow> plainly_scanned X ?T user user2) \<and> (additional_derivations X ?T' (im_view_key im) sr1 additional = [] \<and> sr2 = sr)" by simp
    qed
  qed (simp_all add: plainly_scanned_def)
  then show ?thesis by (intro conjI exI[of _ key]) (auto simp: key_def)
qed

text \<open>
  C13: Without subaddresses, a scan finds the outputs of an account, all of them and no others: new
  outputs are ones that pay to the account, with their amount and place in the chain, once for
  each one-time public key that was not known; and the key of every output that pays to the
  account is known afterwards. The outputs then count as spendable.
\<close>

theorem scan_finds_outputs:
  assumes "scan_transaction L C X users height timestamp tx_hash tx out_ids sr = Inr (users', sr')"
    and "sr_reader sr = None" and "j < length users" and "account_ok (users ! j)"
    and "tried X height tx (users ! j) = Some derived" and "la_immutable (users ! j) = Some im"
  shows "\<exists>key new. find_pub_key X (tx_extra tx) = Some key \<and>
    la_outputs (users' ! j) = la_outputs (users ! j) @ new \<and> distinct (map o_pub new) \<and>
    (\<forall>out \<in> set new. o_pub out \<notin> set (la_pubs (users ! j)) \<and> get_spendable (users' ! j) (sm_id (o_spend_meta out)) \<noteq> None \<and>
      (\<exists>i. found_at X (seen_tx X height timestamp tx_hash tx out_ids key sr) derived (spend_public (im_pubs im)) i out)) \<and>
    (\<forall>i p amount blind. pays X tx derived (spend_public (im_pubs im)) i p amount blind \<longrightarrow>
      p \<in> set (la_pubs (users ! j)) \<union> o_pub ` set new)"
proof -
  from scan_transaction_plain[OF assms(1,2)] obtain key where key: "tried X height tx (users ! j) \<noteq> None \<Longrightarrow> find_pub_key X (tx_extra tx) = Some key"
    and "list_all2 (\<lambda>user user'. account_ok user \<longrightarrow> plainly_scanned X (seen_tx X height timestamp tx_hash tx out_ids key sr) user user') users users'"
    using tried_key by blast
  then have "plainly_scanned X (seen_tx X height timestamp tx_hash tx out_ids key sr) (users ! j) (users' ! j)"
    using assms(3,4) by (simp add: list_all2_conv_all_nth)
  then obtain new spent where g: "grows ((users ! j)\<lparr>la_spends := spent\<rparr>) (users' ! j) new"
    and new: "\<forall>out \<in> set new. \<exists>i. found_at X (seen_tx X height timestamp tx_hash tx out_ids key sr) derived (spend_public (im_pubs im)) i out"
    and all: "\<forall>i p amount blind. pays X tx derived (spend_public (im_pubs im)) i p amount blind \<longrightarrow> p \<in> set (la_pubs (users' ! j))"
    using assms(5,6) by (auto simp: plainly_scanned_def)
  have "get_spendable (users' ! j) (sm_id (o_spend_meta out)) \<noteq> None" if "out \<in> set new" for out
    using g that get_spendable_None[of "users' ! j"] by (auto simp: grows_def)
  with g new all key assms(5) show ?thesis by (intro exI[of _ key] exI[of _ new]) (auto simp: grows_def)
qed

theorem scan_finds_outputs_witness:
  "\<exists>users' sr' new. demo_scan = Inr (users', sr') \<and> la_outputs (users' ! 1) = new \<and> 146 \<in> o_pub ` set new"
proof -
  obtain users' sr' where r: "demo_scan = Inr (users', sr')" using demo_scan_Inr by blast
  have im: "la_immutable (demo_users ! 1) = Some (account_internal (\<lambda>a. []) demo_account2)" "la_outputs (demo_users ! 1) = []"
    "set (la_pubs (demo_users ! 1)) = {}" "spend_public (im_pubs (account_internal (\<lambda>a. []) demo_account2)) = 22"
    by (simp_all add: demo_users_def make_account_def account_internal_def demo_account2_def)
  have "146 \<in> o_pub ` set (la_outputs (users' ! 1))"
    using scan_finds_outputs[OF r[unfolded demo_scan_def] _ _ _ _ im(1), of 123] demo_users_ok demo_users_tried(2) demo_pays im
    by (simp add: no_reader_def subaddress_reader_of_def) blast
  with r show ?thesis by blast
qed



end
