(* ===== verification/Balance.thy ===== *)
theory Balance
  imports RestAccount ScanTx "HOL-Library.AList"
begin

text \<open>
  The balance of an account and its unspent outputs, as the REST server
  (\<open>src/src/rest_server.cpp\<close>) answers them: \<open>get_address_info\<close> with the outputs of the transaction
  pool, and \<open>get_unspent_outs\<close>.

  What the daemon answers (the pool, the fees, the transactions of outputs) is an argument. What is
  only logged is left out, but not where it makes a request fail. Ordered maps are lists.
\<close>

section \<open>Amounts\<close>

definition add_amount :: "u64 \<Rightarrow> u64 \<Rightarrow> error + u64" where
  "add_amount tot amount = (if -1 - tot < amount then Inl (Lws bad_daemon_response) else Inr (tot + amount))"

definition output_id_of :: "db_output \<Rightarrow> output_id" where
  "output_id_of out = sm_id (o_spend_meta out)"

definition amount_of :: "db_output \<Rightarrow> u64" where
  "amount_of out = sm_amount (o_spend_meta out)"

section \<open>Outputs in the pool\<close>

record pool_tx =
  pt_tx :: transaction
  pt_hash :: hash
  pt_receive_time :: u64

record overlay_match =
  om_output :: db_output
  om_tx_hash :: hash
  om_receive_time :: u64

definition overlay_derivations :: "scan_crypto \<Rightarrow> secret_key \<Rightarrow> public_key list \<Rightarrow> nat \<Rightarrow> hash list" where
  "overlay_derivations X view_key keys n =
     (if length keys = n
      then case those (map (\<lambda>key. key_derivation X key view_key) keys) of None \<Rightarrow> [] | Some ds \<Rightarrow> ds
      else [])"

fun overlay_inputs :: "tx_in list \<Rightarrow> u8 \<Rightarrow> u32 \<Rightarrow> error + u8 \<times> u32" where
  "overlay_inputs [] ext mixin = Inr (ext, mixin)"
| "overlay_inputs (Txin_to_key amount offsets k_image # vin) ext mixin =
     check (numeric_cast32 (max 1 (length offsets) - 1)) (overlay_inputs vin ext)"
| "overlay_inputs (Txin_gen # vin) ext mixin = overlay_inputs vin (ext OR coinbase_output) mixin"
| "overlay_inputs (Txin_other # vin) ext mixin = overlay_inputs vin ext mixin"

text \<open>The derivation and the key that an output is to the account with; no subaddresses are looked up.\<close>

definition overlay_key :: "scan_crypto \<Rightarrow> account \<Rightarrow> public_key \<Rightarrow> nat \<Rightarrow> hash \<Rightarrow> public_key \<Rightarrow> hash list \<Rightarrow> public_key list \<Rightarrow>
    (hash \<times> public_key) option" where
  "overlay_key X account p index derived key additional additional_keys =
     (if derive_subaddress X p derived index = Some (spend_public (a_address account)) then Some (derived, key)
      else if additional \<noteq> [] \<and>
        derive_subaddress X p (additional ! index) index = Some (spend_public (a_address account))
      then Some (additional ! index, additional_keys ! index)
      else None)"

definition overlay_amount :: "scan_crypto \<Rightarrow> transaction \<Rightarrow> tx_out \<Rightarrow> nat \<Rightarrow> hash \<Rightarrow> u8 \<Rightarrow> (u64 \<times> hash \<times> u8) option" where
  "overlay_amount X tx out index active_derived ext =
     (if out_amount out = 0 \<and> ext AND coinbase_output = 0 \<and> 1 < tx_version tx then
        if length (tx_out_pk tx) \<le> index \<or> length (tx_ecdh_info tx) \<le> index then None
        else case decode_amount X (tx_out_pk tx ! index) (tx_ecdh_info tx ! index) active_derived index
            (rct_bulletproof2 X \<le> tx_rct_type tx) of
          None \<Rightarrow> None
        | Some (amount, blind) \<Rightarrow> Some (amount, blind, ext OR ringct_output)
      else Some (out_amount out, rct_identity X, if 1 < tx_version tx then ext OR ringct_output else ext))"

definition overlay_payment :: "scan_crypto \<Rightarrow> span option \<Rightarrow> hash \<Rightarrow> payment" where
  "overlay_payment X nonce active_derived =
     (case nonce of
        None \<Rightarrow> (0, replicate 32 0)
      | Some nonce \<Rightarrow>
          if nonce = [] then (0, replicate 32 0)
          else case nonce_encrypted_id X nonce of
            None \<Rightarrow> (0, replicate 32 0)
          | Some short \<Rightarrow> (8, decrypt_payment_id X short active_derived @ replicate 24 0))"

fun overlay_outputs :: "scan_crypto \<Rightarrow> account \<Rightarrow> u64 \<Rightarrow> pool_tx \<Rightarrow> public_key \<Rightarrow> hash \<Rightarrow> hash list \<Rightarrow> u8 \<Rightarrow> u32 \<Rightarrow> nat \<Rightarrow> tx_out list \<Rightarrow>
    error + overlay_match list" where
  "overlay_outputs X account now entry key derived additional ext mixin index [] = Inr []"
| "overlay_outputs X account now entry key derived additional ext mixin index (out # vout) =
     (let tx = pt_tx entry; keys = find_additional X (tx_extra tx);
          rest = overlay_outputs X account now entry key derived additional ext mixin (Suc index) vout in
      case out_key out of
        None \<Rightarrow> rest
      | Some p \<Rightarrow>
          if \<not> (additional \<noteq> [] \<and> tag_matches X (out_view_tag out) (additional ! index) index \<or>
                tag_matches X (out_view_tag out) derived index) then rest
          else case overlay_key X account p index derived key additional keys of
            None \<Rightarrow> rest
          | Some (active_derived, active_pub) \<Rightarrow>
              case overlay_amount X tx out index active_derived ext of
                None \<Rightarrow> rest
              | Some (amount, blind, output_ext) \<Rightarrow>
                  check (numeric_cast32 index) (\<lambda>index32.
                  let pid = overlay_payment X (find_nonce X (tx_extra tx)) active_derived in
                  check rest (\<lambda>matches. Inr (
                    \<lparr>om_output =
                       \<lparr>o_link = Transaction_link block_id_txpool (pt_hash entry),
                        o_spend_meta = \<lparr>sm_id = output_id_txpool, sm_amount = amount, sm_mixin_count = mixin,
                          sm_index = index32, sm_tx_public = active_pub\<rparr>,
                        o_timestamp = (if pt_receive_time entry \<noteq> 0 then pt_receive_time entry else now),
                        o_unlock_time = tx_unlock_time tx, o_tx_prefix_hash = tx_prefix_hash X tx, o_pub = p,
                        o_ringct_mask = blind, o_extra = pack output_ext (fst pid), o_payment_id = snd pid,
                        o_fee = tx_fee X tx, o_recipient = Address_index 0 0\<rparr>,
                     om_tx_hash = pt_hash entry, om_receive_time = pt_receive_time entry\<rparr> # matches))))"

fun overlay_matches :: "scan_crypto \<Rightarrow> account \<Rightarrow> u64 \<Rightarrow> pool_tx list \<Rightarrow> error + overlay_match list" where
  "overlay_matches X account now [] = Inr []"
| "overlay_matches X account now (entry # pool) =
     (let tx = pt_tx entry; rest = overlay_matches X account now pool in
      if 2 < tx_version tx then rest
      else case find_pub_key X (tx_extra tx) of
        None \<Rightarrow> rest
      | Some key \<Rightarrow>
          (case key_derivation X key (a_key account) of
             None \<Rightarrow> rest
           | Some derived \<Rightarrow>
               let additional = overlay_derivations X (a_key account) (find_additional X (tx_extra tx)) (length (tx_vout tx)) in
               check (overlay_inputs (tx_vin tx) 0 0) (\<lambda>(ext, mixin).
               check (overlay_outputs X account now entry key derived additional ext mixin 0 (tx_vout tx)) (\<lambda>found.
               check rest (\<lambda>matches. Inr (found @ matches))))))"

section \<open>Spent outputs\<close>

definition pending_spend_matches_output :: "pending_spend \<Rightarrow> db_output \<Rightarrow> bool" where
  "pending_spend_matches_output pending out \<longleftrightarrow>
     ps_source pending = output_id_of out \<and> ps_out_index pending = sm_index (o_spend_meta out) \<and>
     ps_tx_hash pending = tl_tx_hash (o_link out) \<and> ps_pub pending = o_pub out"

record confirmed_spend_choice =
  cc_spend :: spend
  cc_meta :: spend_meta
  cc_source :: output_id
  cc_imported_source :: bool

definition should_replace_choice :: "confirmed_spend_choice \<Rightarrow> confirmed_spend_choice \<Rightarrow> bool" where
  "should_replace_choice current candidate =
     (if cc_imported_source current \<noteq> cc_imported_source candidate then cc_imported_source candidate
      else if sm_amount (cc_meta current) \<noteq> sm_amount (cc_meta candidate)
      then sm_amount (cc_meta current) < sm_amount (cc_meta candidate)
      else cc_source candidate < cc_source current)"

text \<open>Later sources of one image are not taken into the map.\<close>

definition find_source :: "key_image_source list \<Rightarrow> hash \<Rightarrow> key_image_source option" where
  "find_source sources img = List.find (\<lambda>source. kis_image source = img) sources"

definition output_is_source :: "key_image_source \<Rightarrow> db_output \<Rightarrow> bool" where
  "output_is_source source out \<longleftrightarrow>
     output_id_of out = kis_source source \<and> sm_index (o_spend_meta out) = kis_out_index source \<and>
     o_pub out = kis_pub source \<and> tl_tx_hash (o_link out) = kis_tx_hash source"

definition find_output_by_imported_source :: "db_output list \<Rightarrow> key_image_source list \<Rightarrow> hash \<Rightarrow> db_output option" where
  "find_output_by_imported_source outputs sources img =
     (case find_source sources img of
        None \<Rightarrow> None
      | Some source \<Rightarrow> List.find (output_is_source source) outputs)"

definition output_exists_in_rows :: "db_output list \<Rightarrow> overlay_match \<Rightarrow> bool" where
  "output_exists_in_rows rows m \<longleftrightarrow>
     (\<exists>out \<in> set rows. tl_tx_hash (o_link out) = tl_tx_hash (o_link (om_output m)) \<and>
        sm_index (o_spend_meta out) = sm_index (o_spend_meta (om_output m)))"

section \<open>get_address_info\<close>

record address_info =
  ai_locked_funds :: u64
  ai_total_received :: u64
  ai_total_sent :: u64
  ai_incomplete :: bool
  ai_confirmed_images :: nat
  ai_selected_spends :: nat
  ai_unconfirmed_spends :: nat
  ai_unconfirmed_sources :: nat
  ai_unconfirmed_source_amount :: u64
  ai_missing_sources :: nat
  ai_scanned_height :: block_id
  ai_start_height :: block_id
  ai_blockchain_height :: block_id
  ai_lookahead_fail :: block_id
  ai_lookahead :: address_index
  ai_spent_outputs :: "(spend_meta \<times> spend) list"

text \<open>The rows and sums of the stored outputs, and then of those of the pool.\<close>

fun received_outputs :: "currency \<Rightarrow> int \<Rightarrow> block_id \<Rightarrow> db_output list \<Rightarrow> u64 \<times> u64 \<Rightarrow> u64 \<times> u64" where
  "received_outputs Y now last_id [] acc = acc"
| "received_outputs Y now last_id (out # outs) (received, locked) =
     received_outputs Y now last_id outs
       (received + amount_of out,
        if is_locked Y now (o_unlock_time out) last_id (tl_height (o_link out)) then locked + amount_of out else locked)"

fun overlay_rows :: "overlay_match list \<Rightarrow> db_output list \<Rightarrow> u64 \<Rightarrow> u64 \<Rightarrow> u64 \<Rightarrow> error + db_output list \<times> u64 \<times> u64" where
  "overlay_rows [] rows received locked tot = Inr (rows, received, locked)"
| "overlay_rows (m # ms) rows received locked tot =
     (if output_exists_in_rows rows m then overlay_rows ms rows received locked tot
      else
        let out = om_output m in
        check (add_amount tot (amount_of out))
          (overlay_rows ms (rows @ [out]) (received + amount_of out) (locked + amount_of out)))"

record spend_state =
  ss_unconfirmed_count :: nat
  ss_unconfirmed_sources :: "output_id list"
  ss_unconfirmed_amount :: u64
  ss_missing :: nat
  ss_choices :: "(hash \<times> confirmed_spend_choice) list"

definition unconfirmed_spend :: "db_output list \<Rightarrow> spend \<Rightarrow> spend_state \<Rightarrow> error + spend_state" where
  "unconfirmed_spend rows sp ss =
     (let ss = ss\<lparr>ss_unconfirmed_count := Suc (ss_unconfirmed_count ss)\<rparr> in
      case List.find (\<lambda>out. output_id_of out = s_source sp) rows of
        None \<Rightarrow> Inr ss
      | Some out \<Rightarrow>
          if s_source sp \<in> set (ss_unconfirmed_sources ss) then Inr ss
          else check (add_amount (ss_unconfirmed_amount ss) (amount_of out)) (\<lambda>amount.
            Inr (ss\<lparr>ss_unconfirmed_sources := s_source sp # ss_unconfirmed_sources ss, ss_unconfirmed_amount := amount\<rparr>)))"

definition confirmed_spend :: "db_output list \<Rightarrow> key_image_source list \<Rightarrow> spend \<Rightarrow> spend_state \<Rightarrow> spend_state" where
  "confirmed_spend rows sources sp ss =
     (case find_output_by_imported_source rows sources (s_image sp) of
        None \<Rightarrow> ss\<lparr>ss_missing := Suc (ss_missing ss)\<rparr>
      | Some out \<Rightarrow>
          let choice = \<lparr>cc_spend = sp, cc_meta = o_spend_meta out, cc_source = output_id_of out, cc_imported_source = True\<rparr> in
          case map_of (ss_choices ss) (s_image sp) of
            None \<Rightarrow> ss\<lparr>ss_choices := AList.update (s_image sp) choice (ss_choices ss)\<rparr>
          | Some existing \<Rightarrow>
              if should_replace_choice existing choice
              then ss\<lparr>ss_choices := AList.update (s_image sp) choice (ss_choices ss)\<rparr> else ss)"

fun choose_spends :: "db_output list \<Rightarrow> hash list \<Rightarrow> key_image_source list \<Rightarrow> spend list \<Rightarrow> spend_state \<Rightarrow> error + spend_state" where
  "choose_spends rows confirmed sources [] ss = Inr ss"
| "choose_spends rows confirmed sources (sp # sps) ss =
     (if s_image sp \<notin> set confirmed
      then check (unconfirmed_spend rows sp ss) (choose_spends rows confirmed sources sps)
      else choose_spends rows confirmed sources sps (confirmed_spend rows sources sp ss))"

text \<open>Imported sources without a spend are only counted, but their sum must not overflow.\<close>

fun sources_without_spend :: "db_output list \<Rightarrow> key_image_source list \<Rightarrow> hash list \<Rightarrow> hash list \<Rightarrow> u64 \<Rightarrow> error + u64" where
  "sources_without_spend rows sources present [] tot = Inr tot"
| "sources_without_spend rows sources present (img # images) tot =
     (if img \<in> set present then sources_without_spend rows sources present images tot
      else case find_output_by_imported_source rows sources img of
        None \<Rightarrow> sources_without_spend rows sources present images tot
      | Some out \<Rightarrow> check (add_amount tot (amount_of out)) (sources_without_spend rows sources present images))"

text \<open>The choices in the order of their images; every source is counted once.\<close>

fun sum_sent :: "(hash \<times> confirmed_spend_choice) list \<Rightarrow> output_id list \<Rightarrow> u64 \<Rightarrow> (spend_meta \<times> spend) list \<Rightarrow>
    error + output_id list \<times> u64 \<times> (spend_meta \<times> spend) list" where
  "sum_sent [] counted tot spent = Inr (counted, tot, spent)"
| "sum_sent ((img, choice) # choices) counted tot spent =
     (if cc_source choice \<in> set counted then sum_sent choices counted tot spent
      else check (add_amount tot (sm_amount (cc_meta choice))) (\<lambda>tot.
        sum_sent choices (cc_source choice # counted) tot (spent @ [(cc_meta choice, cc_spend choice)])))"

definition address_info_of :: "currency \<Rightarrow> int \<Rightarrow> account \<Rightarrow> block_id \<Rightarrow> db_output list \<Rightarrow> overlay_match list \<Rightarrow> spend list \<Rightarrow> hash list \<Rightarrow>
    key_image_source list \<Rightarrow> error + address_info" where
  "address_info_of Y now user last_id outputs overlay spends confirmed sources =
     (let (received, locked) = received_outputs Y now last_id outputs (0, 0) in
      check (overlay_rows overlay outputs received locked 0) (\<lambda>(rows, received, locked).
      check (choose_spends rows confirmed sources spends
        \<lparr>ss_unconfirmed_count = 0, ss_unconfirmed_sources = [], ss_unconfirmed_amount = 0, ss_missing = 0, ss_choices = []\<rparr>) (\<lambda>ss.
      check (sources_without_spend rows sources (map s_image spends) (remdups (sort (map kis_image sources))) 0) (\<lambda>_.
      check (sum_sent (sort_key fst (ss_choices ss)) [] 0 []) (\<lambda>(counted, sent, spent).
        Inr \<lparr>ai_locked_funds = locked, ai_total_received = received, ai_total_sent = sent,
          ai_incomplete = (0 < ss_unconfirmed_count ss \<or> 0 < ss_missing ss),
          ai_confirmed_images = length (remdups confirmed), ai_selected_spends = length counted,
          ai_unconfirmed_spends = ss_unconfirmed_count ss, ai_unconfirmed_sources = length (ss_unconfirmed_sources ss),
          ai_unconfirmed_source_amount = ss_unconfirmed_amount ss, ai_missing_sources = ss_missing ss,
          ai_scanned_height = a_scan_height user, ai_start_height = a_start_height user, ai_blockchain_height = last_id,
          ai_lookahead_fail = a_lookahead_fail user, ai_lookahead = a_lookahead user, ai_spent_outputs = spent\<rparr>)))))"

text \<open>An overlay that is not available counts as empty.\<close>

definition get_address_info :: "'t lmdb \<Rightarrow> crypto \<Rightarrow> scan_crypto \<Rightarrow> currency \<Rightarrow> u64 \<Rightarrow> (error + pool_tx list) \<Rightarrow> account_credentials \<Rightarrow>
    't tables \<Rightarrow> error + address_info" where
  "get_address_info L C X Y now pool creds s =
     check (open_account L C creds s) (\<lambda>user.
     check (get_last_block L s) (\<lambda>last_block.
     check (case pool of Inl e \<Rightarrow> Inr [] | Inr txs \<Rightarrow> overlay_matches X user now txs) (\<lambda>overlay.
       address_info_of Y (uint now) user (bi_id last_block) (m_dups (outputs_m L) (outputs_t s) (a_id user)) overlay
         (m_dups (spends_m L) (spends_t s) (a_id user)) (m_dups (confirmed_spends_m L) (confirmed_spends_t s) (a_id user))
         (m_dups (imported_spend_sources_m L) (imported_spend_sources_t s) (a_id user)))))"

section \<open>get_unspent_outs\<close>

record unspent_request =
  ur_amount :: u64
  ur_mixin :: "u32 option"
  ur_use_dust :: "bool option"
  ur_dust_threshold :: "u64 option"

definition has_confirmed_image_without_source :: "hash list \<Rightarrow> hash list \<Rightarrow> key_image_source list \<Rightarrow> bool" where
  "has_confirmed_image_without_source images confirmed sources \<longleftrightarrow>
     (\<exists>img \<in> set images. img \<in> set confirmed \<and> img \<notin> kis_image ` set sources)"

definition confirmed_sources :: "hash list \<Rightarrow> key_image_source list \<Rightarrow> spend list \<Rightarrow> output_id list" where
  "confirmed_sources confirmed sources spends =
     map (\<lambda>sp. case find_source sources (s_image sp) of Some source \<Rightarrow> kis_source source | None \<Rightarrow> s_source sp)
       (filter (\<lambda>sp. s_image sp \<in> set confirmed) spends)"

definition pending_spend_ttl_seconds :: u64 where
  "pending_spend_ttl_seconds = 24 * 60 * 60"

definition active_pending :: "u64 \<Rightarrow> pending_spend list \<Rightarrow> pending_spend list" where
  "active_pending now pending =
     filter (\<lambda>p. let recorded = ucast (ps_recorded p) in recorded \<le> now \<and> now - recorded \<le> pending_spend_ttl_seconds) pending"

record unspent_state =
  us_received :: u64
  us_candidate_amount :: u64
  us_dust_amount :: u64
  us_source_amount :: u64
  us_image_amount :: u64
  us_pending_amount :: u64
  us_clean_amount :: u64
  us_unspent :: "db_output list"

definition unspent_step :: "u64 \<Rightarrow> u32 \<Rightarrow> (output_id \<Rightarrow> hash list) \<Rightarrow> hash list \<Rightarrow> key_image_source list \<Rightarrow> output_id list \<Rightarrow>
    pending_spend list \<Rightarrow> db_output \<Rightarrow> unspent_state \<Rightarrow> error + unspent_state" where
  "unspent_step dust mixin images confirmed sources spent_ids pending out us =
     (let amount = amount_of out in
      if amount < dust \<or> sm_mixin_count (o_spend_meta out) < mixin then
        check (add_amount (us_dust_amount us) amount) (\<lambda>n. Inr (us\<lparr>us_dust_amount := n\<rparr>))
      else
        let spend_images = images (output_id_of out) in
        check (if spend_images \<noteq> [] then add_amount (us_candidate_amount us) amount else Inr (us_candidate_amount us)) (\<lambda>n.
        let us = us\<lparr>us_candidate_amount := n\<rparr> in
        if has_confirmed_image_without_source spend_images confirmed sources then
          check (add_amount (us_image_amount us) amount) (\<lambda>n. Inr (us\<lparr>us_image_amount := n\<rparr>))
        else if output_id_of out \<in> set spent_ids then
          check (add_amount (us_source_amount us) amount) (\<lambda>n. Inr (us\<lparr>us_source_amount := n\<rparr>))
        else if \<exists>p \<in> set pending. pending_spend_matches_output p out then
          check (add_amount (us_pending_amount us) amount) (\<lambda>n. Inr (us\<lparr>us_pending_amount := n\<rparr>))
        else
          check (add_amount (us_clean_amount us) amount) (\<lambda>n.
            Inr (us\<lparr>us_received := us_received us + amount, us_unspent := us_unspent us @ [out], us_clean_amount := n\<rparr>))))"

fun unspent_loop :: "u64 \<Rightarrow> u32 \<Rightarrow> (output_id \<Rightarrow> hash list) \<Rightarrow> hash list \<Rightarrow> key_image_source list \<Rightarrow> output_id list \<Rightarrow>
    pending_spend list \<Rightarrow> db_output list \<Rightarrow> unspent_state \<Rightarrow> error + unspent_state" where
  "unspent_loop dust mixin images confirmed sources spent_ids pending [] us = Inr us"
| "unspent_loop dust mixin images confirmed sources spent_ids pending (out # outs) us =
     check (unspent_step dust mixin images confirmed sources spent_ids pending out us)
       (unspent_loop dust mixin images confirmed sources spent_ids pending outs)"

definition select_unspent :: "u64 \<Rightarrow> unspent_request \<Rightarrow> (output_id \<Rightarrow> hash list) \<Rightarrow> db_output list \<Rightarrow> spend list \<Rightarrow> hash list \<Rightarrow>
    key_image_source list \<Rightarrow> pending_spend list \<Rightarrow> error + unspent_state" where
  "select_unspent now req images outputs spends confirmed sources pending =
     (let dust = (if ur_use_dust req = Some True then 0 else case ur_dust_threshold req of None \<Rightarrow> 0 | Some d \<Rightarrow> d);
          mixin = (case ur_mixin req of None \<Rightarrow> 0 | Some m \<Rightarrow> m) in
      unspent_loop dust mixin images confirmed sources (confirmed_sources confirmed sources spends) (active_pending now pending) outputs
        \<lparr>us_received = 0, us_candidate_amount = 0, us_dust_amount = 0, us_source_amount = 0, us_image_amount = 0,
         us_pending_amount = 0, us_clean_amount = 0, us_unspent = []\<rparr>)"

record fee_estimate =
  fe_base_fee :: u64
  fe_fee_mask :: u64
  fe_size_scale :: u32

record unspent_response =
  uo_per_byte_fee :: u64
  uo_fee_mask :: u64
  uo_amount :: u64
  uo_lookahead_fail :: block_id
  uo_outputs :: "(db_output \<times> public_key list) list"

fun with_keys :: "(hash \<rightharpoonup> public_key list) \<Rightarrow> db_output list \<Rightarrow> error + (db_output \<times> public_key list) list" where
  "with_keys keys [] = Inr []"
| "with_keys keys (out # outs) =
     (case keys (tl_tx_hash (o_link out)) of
        None \<Rightarrow> Inl (Lws bad_daemon_response)
      | Some additional \<Rightarrow> check (with_keys keys outs) (\<lambda>rest. Inr ((out, additional) # rest)))"

definition get_unspent_outs :: "'t lmdb \<Rightarrow> crypto \<Rightarrow> u64 \<Rightarrow> (error + fee_estimate) \<Rightarrow> (hash list \<Rightarrow> error + (hash \<rightharpoonup> public_key list)) \<Rightarrow>
    account_credentials \<Rightarrow> unspent_request \<Rightarrow> 't tables \<Rightarrow> error + unspent_response" where
  "get_unspent_outs L C now fees fetch creds req s =
     check fees (\<lambda>rpc.
     check (open_account L C creds s) (\<lambda>user.
     check (select_unspent now req (\<lambda>i. map ki_value (m_dups (images_m L) (images_t s) i))
        (m_dups (outputs_m L) (outputs_t s) (a_id user)) (m_dups (spends_m L) (spends_t s) (a_id user))
        (m_dups (confirmed_spends_m L) (confirmed_spends_t s) (a_id user))
        (m_dups (imported_spend_sources_m L) (imported_spend_sources_t s) (a_id user))
        (m_dups (pending_spends_m L) (pending_spends_t s) (a_id user))) (\<lambda>us.
     check (fetch (remdups (sort (map (\<lambda>out. tl_tx_hash (o_link out)) (us_unspent us))))) (\<lambda>keys.
     check (with_keys keys (us_unspent us)) (\<lambda>outputs.
       if us_received us < ur_amount req then Inl (Lws not_enough_amount)
       else if fe_size_scale rpc = 0 \<or> 1024 < fe_size_scale rpc \<or> fe_fee_mask rpc = 0 then Inl (Lws bad_daemon_response)
       else Inr \<lparr>uo_per_byte_fee = fe_base_fee rpc div ucast (fe_size_scale rpc), uo_fee_mask = fe_fee_mask rpc,
         uo_amount = us_received us, uo_lookahead_fail = a_lookahead_fail user, uo_outputs = outputs\<rparr>)))))"

section \<open>What is spent\<close>

lemma add_amount_Inr: "add_amount tot amount = Inr n \<Longrightarrow> unat n = unat tot + unat amount"
  using unat_no_wrap[of tot amount] by (auto simp: add_amount_def split: if_splits)

lemma received_outputs_sum:
  "fst (received_outputs Y now last_id outs acc) = fst acc + (\<Sum>out \<leftarrow> outs. amount_of out)"
  by (induction outs arbitrary: acc) (auto simp: add.assoc)

lemma overlay_rows_sum:
  "overlay_rows ms rows received locked tot = Inr (rows', received', locked') \<Longrightarrow>
     \<exists>new. rows' = rows @ new \<and> set new \<subseteq> om_output ` set ms \<and> received' = received + (\<Sum>out \<leftarrow> new. amount_of out)"
proof (induction ms arbitrary: rows received locked tot)
  case (Cons m ms)
  show ?case
  proof (cases "output_exists_in_rows rows m")
    case True
    with Cons.prems have "overlay_rows ms rows received locked tot = Inr (rows', received', locked')" by simp
    from Cons.IH[OF this] show ?thesis by auto
  next
    case False
    with Cons.prems obtain n where
      "overlay_rows ms (rows @ [om_output m]) (received + amount_of (om_output m)) (locked + amount_of (om_output m)) n =
        Inr (rows', received', locked')"
      by (auto simp: check_Inr_iff Let_def)
    from Cons.IH[OF this] obtain new where "rows' = rows @ om_output m # new" "set new \<subseteq> om_output ` set ms"
      "received' = received + amount_of (om_output m) + (\<Sum>out \<leftarrow> new. amount_of out)" by auto
    then show ?thesis by (intro exI[of _ "om_output m # new"]) (auto simp: add.assoc)
  qed
qed simp

text \<open>The outputs that count as spent, and the choices made from a part of the spends.\<close>

definition spent_by :: "db_output list \<Rightarrow> hash list \<Rightarrow> key_image_source list \<Rightarrow> spend \<Rightarrow> db_output option" where
  "spent_by rows confirmed sources sp =
     (if s_image sp \<in> set confirmed then find_output_by_imported_source rows sources (s_image sp) else None)"

definition choices_ok :: "db_output list \<Rightarrow> hash list \<Rightarrow> key_image_source list \<Rightarrow> spend set \<Rightarrow> (hash \<times> confirmed_spend_choice) list \<Rightarrow> bool" where
  "choices_ok rows confirmed sources sps choices \<longleftrightarrow>
     (\<forall>(img, choice) \<in> set choices. \<exists>sp \<in> sps. \<exists>out. s_image sp = img \<and> spent_by rows confirmed sources sp = Some out \<and>
        cc_source choice = output_id_of out \<and> cc_meta choice = o_spend_meta out) \<and>
     (\<forall>sp \<in> sps. spent_by rows confirmed sources sp \<noteq> None \<longrightarrow> s_image sp \<in> fst ` set choices)"

lemma set_update_choices: "set (AList.update k v xs) \<subseteq> insert (k, v) (set xs)" "fst ` set (AList.update k v xs) = insert k (fst ` set xs)"
  by (induction xs) auto

lemma choices_ok_unspent:
  assumes "choices_ok rows confirmed sources sps choices" "spent_by rows confirmed sources sp = None"
  shows "choices_ok rows confirmed sources (insert sp sps) choices"
proof -
  have "\<exists>sp' \<in> insert sp sps. \<exists>out. s_image sp' = img \<and> spent_by rows confirmed sources sp' = Some out \<and>
      cc_source c = output_id_of out \<and> cc_meta c = o_spend_meta out" if "(img, c) \<in> set choices" for img c
    using assms(1) that unfolding choices_ok_def by blast
  then show ?thesis using assms unfolding choices_ok_def by auto
qed

lemma choices_ok_spent:
  assumes "choices_ok rows confirmed sources sps choices" "spent_by rows confirmed sources sp = Some out"
    and "choice = \<lparr>cc_spend = sp, cc_meta = o_spend_meta out, cc_source = output_id_of out, cc_imported_source = True\<rparr>"
  shows "choices_ok rows confirmed sources (insert sp sps) (AList.update (s_image sp) choice choices)"
    and "s_image sp \<in> fst ` set choices \<Longrightarrow> choices_ok rows confirmed sources (insert sp sps) choices"
proof -
  let ?new = "AList.update (s_image sp) choice choices"
  have "\<exists>sp' \<in> insert sp sps. \<exists>out. s_image sp' = img \<and> spent_by rows confirmed sources sp' = Some out \<and>
      cc_source c = output_id_of out \<and> cc_meta c = o_spend_meta out" if "(img, c) \<in> set ?new" for img c
  proof (cases "(img, c) = (s_image sp, choice)")
    case True
    with assms(2,3) show ?thesis by auto
  next
    case False
    with that set_update_choices(1)[of "s_image sp" choice choices] have "(img, c) \<in> set choices" by auto
    with assms(1) show ?thesis unfolding choices_ok_def by blast
  qed
  then show "choices_ok rows confirmed sources (insert sp sps) ?new"
    using assms(1) unfolding choices_ok_def set_update_choices(2) by blast
  show "choices_ok rows confirmed sources (insert sp sps) choices" if "s_image sp \<in> fst ` set choices"
    using assms(1) that unfolding choices_ok_def by blast
qed

lemma unconfirmed_spend_choices: "unconfirmed_spend rows sp ss = Inr ss' \<Longrightarrow> ss_choices ss' = ss_choices ss"
  by (auto simp: unconfirmed_spend_def Let_def check_Inr_iff split: option.splits if_splits)

lemma choose_spends_choices:
  "choose_spends rows confirmed sources sps ss = Inr ss' \<Longrightarrow> choices_ok rows confirmed sources past (ss_choices ss) \<Longrightarrow>
     choices_ok rows confirmed sources (past \<union> set sps) (ss_choices ss')"
proof (induction sps arbitrary: past ss)
  case (Cons sp sps)
  have un: "past \<union> set (sp # sps) = insert sp past \<union> set sps" by simp
  show ?case
  proof (cases "s_image sp \<in> set confirmed")
    case False
    with Cons.prems(1) obtain ss1 where s: "unconfirmed_spend rows sp ss = Inr ss1" "choose_spends rows confirmed sources sps ss1 = Inr ss'"
      by (auto simp: check_Inr_iff)
    have "choices_ok rows confirmed sources (insert sp past) (ss_choices ss1)"
      using choices_ok_unspent[OF Cons.prems(2)] False unconfirmed_spend_choices[OF s(1)] by (simp add: spent_by_def)
    from Cons.IH[OF s(2) this] show ?thesis unfolding un .
  next
    case True
    with Cons.prems(1) have run: "choose_spends rows confirmed sources sps (confirmed_spend rows sources sp ss) = Inr ss'" by simp
    have "choices_ok rows confirmed sources (insert sp past) (ss_choices (confirmed_spend rows sources sp ss))"
    proof (cases "find_output_by_imported_source rows sources (s_image sp)")
      case None
      with True choices_ok_unspent[OF Cons.prems(2), of sp] show ?thesis by (simp add: confirmed_spend_def spent_by_def)
    next
      case (Some out)
      with True have sp: "spent_by rows confirmed sources sp = Some out" by (simp add: spent_by_def)
      note new = choices_ok_spent[OF Cons.prems(2) sp refl]
      show ?thesis
      proof (cases "map_of (ss_choices ss) (s_image sp)")
        case None
        with new(1) Some show ?thesis by (simp add: confirmed_spend_def Let_def)
      next
        case old: (Some existing)
        then have "s_image sp \<in> fst ` set (ss_choices ss)" using map_of_SomeD[OF old] by force
        with new Some old show ?thesis by (simp add: confirmed_spend_def Let_def)
      qed
    qed
    from Cons.IH[OF run this] show ?thesis unfolding un .
  qed
qed simp

lemma sum_sent_facts:
  "sum_sent choices counted tot spent = Inr (counted', tot', spent') \<Longrightarrow>
     \<forall>(img, choice) \<in> set choices. sm_id (cc_meta choice) = cc_source choice \<Longrightarrow>
     \<exists>new. spent' = spent @ new \<and> distinct (map (\<lambda>p. sm_id (fst p)) new) \<and>
       (\<lambda>p. sm_id (fst p)) ` set new = (\<lambda>p. cc_source (snd p)) ` set choices - set counted \<and>
       fst ` set new \<subseteq> (\<lambda>p. cc_meta (snd p)) ` set choices \<and>
       unat tot' = unat tot + (\<Sum>p \<leftarrow> new. unat (sm_amount (fst p)))"
proof (induction choices arbitrary: counted tot spent)
  case (Cons p choices)
  obtain img choice where p: "p = (img, choice)" by (cases p)
  have id: "sm_id (cc_meta choice) = cc_source choice" using Cons.prems(2) by (simp add: p)
  show ?case
  proof (cases "cc_source choice \<in> set counted")
    case True
    with Cons.prems(1) have "sum_sent choices counted tot spent = Inr (counted', tot', spent')" by (simp add: p)
    from Cons.IH[OF this] Cons.prems(2) obtain new where "spent' = spent @ new" "distinct (map (\<lambda>p. sm_id (fst p)) new)"
       "(\<lambda>p. sm_id (fst p)) ` set new = (\<lambda>p. cc_source (snd p)) ` set choices - set counted"
       "fst ` set new \<subseteq> (\<lambda>p. cc_meta (snd p)) ` set choices" "unat tot' = unat tot + (\<Sum>p \<leftarrow> new. unat (sm_amount (fst p)))" by auto
    with True show ?thesis by (intro exI[of _ new]) (auto simp: p)
  next
    case False
    with Cons.prems(1) obtain n where n: "add_amount tot (sm_amount (cc_meta choice)) = Inr n"
      "sum_sent choices (cc_source choice # counted) n (spent @ [(cc_meta choice, cc_spend choice)]) = Inr (counted', tot', spent')"
      by (auto simp: p check_Inr_iff)
    from Cons.IH[OF n(2)] Cons.prems(2) obtain new where new: "spent' = (spent @ [(cc_meta choice, cc_spend choice)]) @ new"
       "distinct (map (\<lambda>p. sm_id (fst p)) new)"
       "(\<lambda>p. sm_id (fst p)) ` set new = (\<lambda>p. cc_source (snd p)) ` set choices - set (cc_source choice # counted)"
       "fst ` set new \<subseteq> (\<lambda>p. cc_meta (snd p)) ` set choices" "unat tot' = unat n + (\<Sum>p \<leftarrow> new. unat (sm_amount (fst p)))" by auto
    let ?new = "(cc_meta choice, cc_spend choice) # new"
    have "cc_source choice \<notin> (\<lambda>p. sm_id (fst p)) ` set new" unfolding new(3) by simp
    then have "distinct (map (\<lambda>p. sm_id (fst p)) ?new)" using new(2) id by simp
    moreover have "(\<lambda>p. sm_id (fst p)) ` set ?new = (\<lambda>p. cc_source (snd p)) ` set (p # choices) - set counted"
      using new(3) id False by (auto simp: p)
    moreover have "unat tot' = unat tot + (\<Sum>p \<leftarrow> ?new. unat (sm_amount (fst p)))"
      using new(5) add_amount_Inr[OF n(1)] by simp
    moreover have "fst ` set ?new \<subseteq> (\<lambda>p. cc_meta (snd p)) ` set (p # choices)" using new(4) by (auto simp: p)
    ultimately show ?thesis using new(1) by (intro exI[of _ ?new]) auto
  qed
qed simp

lemma find_output_in:
  "find_output_by_imported_source rows sources img = Some out \<Longrightarrow>
     out \<in> set rows \<and> (\<exists>source. find_source sources img = Some source \<and> output_id_of out = kis_source source)"
  by (auto simp: find_output_by_imported_source_def find_Some_iff output_is_source_def split: option.splits)

lemma spent_by_Some:
  "spent_by rows confirmed sources sp = Some out \<Longrightarrow> out \<in> set rows \<and> s_image sp \<in> set confirmed \<and>
     (\<exists>source. find_source sources (s_image sp) = Some source \<and> output_id_of out = kis_source source)"
  using find_output_in[of rows sources "s_image sp" out] by (auto simp: spent_by_def split: if_splits)

lemma distinct_sum_le:
  fixes f :: "'a \<Rightarrow> nat"
  assumes "distinct xs" "set xs \<subseteq> set ys"
  shows "(\<Sum>x \<leftarrow> xs. f x) \<le> (\<Sum>y \<leftarrow> ys. f y)"
proof -
  have "(\<Sum>x \<leftarrow> xs. f x) = sum f (set xs)" using assms(1) by (simp add: sum_list_distinct_conv_sum_set)
  also have "\<dots> \<le> sum f (set ys)" by (rule sum_mono2) (use assms(2) in auto)
  also have "\<dots> = (\<Sum>y \<leftarrow> remdups ys. f y)" by (simp add: sum_list_distinct_conv_sum_set[symmetric] sum.set_conv_list)
  also have "\<dots> \<le> (\<Sum>y \<leftarrow> ys. f y)" by (induction ys) auto
  finally show ?thesis .
qed

lemma address_info_facts:
  assumes "address_info_of Y now user last_id outputs overlay spends confirmed sources = Inr ai"
  shows "\<exists>new rows. rows = outputs @ new \<and> set new \<subseteq> om_output ` set overlay \<and>
    ai_total_received ai = (\<Sum>out \<leftarrow> rows. amount_of out) \<and>
    distinct (map (\<lambda>p. sm_id (fst p)) (ai_spent_outputs ai)) \<and>
    (\<lambda>p. sm_id (fst p)) ` set (ai_spent_outputs ai) =
      {output_id_of out | out sp. sp \<in> set spends \<and> spent_by rows confirmed sources sp = Some out} \<and>
    fst ` set (ai_spent_outputs ai) \<subseteq> o_spend_meta ` set rows \<and>
    unat (ai_total_sent ai) = (\<Sum>p \<leftarrow> ai_spent_outputs ai. unat (sm_amount (fst p)))"
proof -
  let ?ss0 = "\<lparr>ss_unconfirmed_count = 0, ss_unconfirmed_sources = [], ss_unconfirmed_amount = 0, ss_missing = 0, ss_choices = []\<rparr>"
  obtain received locked where r: "received_outputs Y now last_id outputs (0, 0) = (received, locked)" by fastforce
  obtain rows received' locked' ss n counted sent spent where
    rows: "overlay_rows overlay outputs received locked 0 = Inr (rows, received', locked')"
    and ss: "choose_spends rows confirmed sources spends ?ss0 = Inr ss"
    and sent: "sum_sent (sort_key fst (ss_choices ss)) [] 0 [] = Inr (counted, sent, spent)"
    and ai: "ai_total_received ai = received'" "ai_total_sent ai = sent" "ai_spent_outputs ai = spent"
    using assms by (auto simp: address_info_of_def r check_Inr_iff)
  obtain new where new: "rows = outputs @ new" "set new \<subseteq> om_output ` set overlay" "received' = received + (\<Sum>out \<leftarrow> new. amount_of out)"
    using overlay_rows_sum[OF rows] by blast
  have "received = (\<Sum>out \<leftarrow> outputs. amount_of out)" using received_outputs_sum[of Y now last_id outputs "(0, 0)"] by (simp add: r)
  then have total: "ai_total_received ai = (\<Sum>out \<leftarrow> rows. amount_of out)" by (simp add: ai new)
  have "choices_ok rows confirmed sources {} []" by (simp add: choices_ok_def)
  from choose_spends_choices[OF ss, of "{}"] this have ok: "choices_ok rows confirmed sources (set spends) (ss_choices ss)" by simp
  have choice: "\<exists>sp \<in> set spends. \<exists>out. s_image sp = img \<and> spent_by rows confirmed sources sp = Some out \<and>
        cc_source choice = output_id_of out \<and> cc_meta choice = o_spend_meta out" if "(img, choice) \<in> set (ss_choices ss)" for img choice
    using ok that unfolding choices_ok_def by blast
  have "\<forall>(img, choice) \<in> set (sort_key fst (ss_choices ss)). sm_id (cc_meta choice) = cc_source choice"
    using choice by (fastforce simp: output_id_of_def)
  from sum_sent_facts[OF sent this] have facts: "distinct (map (\<lambda>p. sm_id (fst p)) spent)"
    "(\<lambda>p. sm_id (fst p)) ` set spent = (\<lambda>p. cc_source (snd p)) ` set (ss_choices ss)"
    "fst ` set spent \<subseteq> (\<lambda>p. cc_meta (snd p)) ` set (ss_choices ss)"
    "unat sent = (\<Sum>p \<leftarrow> spent. unat (sm_amount (fst p)))" by simp_all
  have "(\<lambda>p. cc_source (snd p)) ` set (ss_choices ss) =
      {output_id_of out | out sp. sp \<in> set spends \<and> spent_by rows confirmed sources sp = Some out}" (is "?A = ?B")
  proof (intro set_eqI iffI)
    fix i assume "i \<in> ?A"
    then show "i \<in> ?B" using choice by fastforce
  next
    fix i assume "i \<in> ?B"
    then obtain out sp where sp: "sp \<in> set spends" "spent_by rows confirmed sources sp = Some out" "i = output_id_of out" by blast
    with ok have "s_image sp \<in> fst ` set (ss_choices ss)" unfolding choices_ok_def by blast
    then obtain c where c: "(s_image sp, c) \<in> set (ss_choices ss)" by auto
    from choice[OF c] obtain sp' out' where "s_image sp' = s_image sp" "spent_by rows confirmed sources sp' = Some out'" "cc_source c = output_id_of out'" by blast
    moreover from this sp(2) have "out' = out" by (simp add: spent_by_def split: if_splits)
    ultimately show "i \<in> ?A" using c sp(3) by force
  qed
  moreover have "fst ` set spent \<subseteq> o_spend_meta ` set rows"
  proof
    fix m assume "m \<in> fst ` set spent"
    with facts(3) obtain img c where c: "(img, c) \<in> set (ss_choices ss)" "m = cc_meta c" by auto
    from choice[OF c(1)] obtain sp out where "spent_by rows confirmed sources sp = Some out" "cc_meta c = o_spend_meta out" by blast
    with spent_by_Some[OF this(1)] c(2) show "m \<in> o_spend_meta ` set rows" by simp
  qed
  ultimately show ?thesis using facts total new(1,2) by (auto simp: ai intro!: exI[of _ new])
qed

section \<open>What is offered\<close>

definition offered :: "u64 \<Rightarrow> u32 \<Rightarrow> (output_id \<Rightarrow> hash list) \<Rightarrow> hash list \<Rightarrow> key_image_source list \<Rightarrow> output_id list \<Rightarrow>
    pending_spend list \<Rightarrow> db_output \<Rightarrow> bool" where
  "offered dust mixin images confirmed sources spent_ids pending out \<longleftrightarrow>
     dust \<le> amount_of out \<and> mixin \<le> sm_mixin_count (o_spend_meta out) \<and>
     \<not> has_confirmed_image_without_source (images (output_id_of out)) confirmed sources \<and>
     output_id_of out \<notin> set spent_ids \<and> \<not> (\<exists>p \<in> set pending. pending_spend_matches_output p out)"

lemma disjoint_images:
  "A \<subseteq> S \<Longrightarrow> (\<And>x. x \<in> fst ` X \<Longrightarrow> f x \<notin> S) \<Longrightarrow> A \<inter> (\<lambda>p. f (fst p)) ` X = {}"
  by auto

lemma offered_sources:
  "out \<in> set (filter (offered dust mixin images confirmed sources spent_ids pending) outs) \<Longrightarrow> output_id_of out \<notin> set spent_ids"
  by (simp add: offered_def)

lemma unspent_step_facts:
  assumes "unspent_step dust mixin images confirmed sources spent_ids pending out us = Inr us'"
  shows "if offered dust mixin images confirmed sources spent_ids pending out
    then us_unspent us' = us_unspent us @ [out] \<and> us_received us' = us_received us + amount_of out \<and>
      unat (us_clean_amount us') = unat (us_clean_amount us) + unat (amount_of out) \<and>
      us_clean_amount us' = us_clean_amount us + amount_of out
    else us_unspent us' = us_unspent us \<and> us_received us' = us_received us \<and> us_clean_amount us' = us_clean_amount us"
proof -
  have clean: "add_amount tot amount = Inr n \<Longrightarrow> n = tot + amount" for tot amount n
    by (simp add: add_amount_def split: if_splits)
  let ?images = "images (output_id_of out)"
  let ?few = "amount_of out < dust \<or> sm_mixin_count (o_spend_meta out) < mixin"
  let ?img = "has_confirmed_image_without_source ?images confirmed sources"
  let ?src = "output_id_of out \<in> set spent_ids"
  let ?pend = "\<exists>p \<in> set pending. pending_spend_matches_output p out"
  have off: "offered dust mixin images confirmed sources spent_ids pending out \<longleftrightarrow> \<not> ?few \<and> \<not> ?img \<and> \<not> ?src \<and> \<not> ?pend"
    by (auto simp: offered_def not_less)
  show ?thesis
  proof (cases ?few)
    case True
    with assms off show ?thesis by (auto simp: unspent_step_def Let_def check_Inr_iff)
  next
    case few: False
    then obtain n where run: "(let us = us\<lparr>us_candidate_amount := n\<rparr> in
        if ?img then check (add_amount (us_image_amount us) (amount_of out)) (\<lambda>n. Inr (us\<lparr>us_image_amount := n\<rparr>))
        else if ?src then check (add_amount (us_source_amount us) (amount_of out)) (\<lambda>n. Inr (us\<lparr>us_source_amount := n\<rparr>))
        else if ?pend then check (add_amount (us_pending_amount us) (amount_of out)) (\<lambda>n. Inr (us\<lparr>us_pending_amount := n\<rparr>))
        else check (add_amount (us_clean_amount us) (amount_of out)) (\<lambda>n.
          Inr (us\<lparr>us_received := us_received us + amount_of out, us_unspent := us_unspent us @ [out], us_clean_amount := n\<rparr>))) = Inr us'"
      using assms unfolding unspent_step_def Let_def if_not_P[OF few] check_Inr_iff by blast
    consider ?img | "\<not> ?img" ?src | "\<not> ?img" "\<not> ?src" ?pend | "\<not> ?img" "\<not> ?src" "\<not> ?pend" by blast
    then show ?thesis
    proof cases
      case 1
      with run off show ?thesis by (auto simp: Let_def check_Inr_iff)
    next
      case 2
      with run off show ?thesis by (auto simp: Let_def check_Inr_iff)
    next
      case 3
      with run off show ?thesis by (auto simp: Let_def check_Inr_iff)
    next
      case 4
      with run obtain m where m: "add_amount (us_clean_amount us) (amount_of out) = Inr m"
        "us' = us\<lparr>us_candidate_amount := n, us_received := us_received us + amount_of out, us_unspent := us_unspent us @ [out], us_clean_amount := m\<rparr>"
        by (auto simp: Let_def check_Inr_iff)
      have o: "offered dust mixin images confirmed sources spent_ids pending out" using off few 4 by blast
      show ?thesis unfolding if_P[OF o] using m(2) add_amount_Inr[OF m(1)] clean[OF m(1)] by simp
    qed
  qed
qed

lemma unspent_loop_facts:
  "unspent_loop dust mixin images confirmed sources spent_ids pending outs us = Inr us' \<Longrightarrow>
     us_received us = us_clean_amount us \<Longrightarrow>
     us_unspent us' = us_unspent us @ filter (offered dust mixin images confirmed sources spent_ids pending) outs \<and>
     us_received us' = us_clean_amount us' \<and>
     unat (us_clean_amount us') = unat (us_clean_amount us) +
       (\<Sum>out \<leftarrow> filter (offered dust mixin images confirmed sources spent_ids pending) outs. unat (amount_of out))"
proof (induction outs arbitrary: us)
  case (Cons out outs)
  then obtain us1 where s: "unspent_step dust mixin images confirmed sources spent_ids pending out us = Inr us1"
    "unspent_loop dust mixin images confirmed sources spent_ids pending outs us1 = Inr us'" by (auto simp: check_Inr_iff)
  note f = unspent_step_facts[OF s(1)]
  have "us_received us1 = us_clean_amount us1" using f Cons.prems(2) by (auto split: if_splits)
  from Cons.IH[OF s(2) this] f show ?case by (auto split: if_splits)
qed simp

definition dust_of :: "unspent_request \<Rightarrow> u64" where
  "dust_of req = (if ur_use_dust req = Some True then 0 else case ur_dust_threshold req of None \<Rightarrow> 0 | Some d \<Rightarrow> d)"

definition mixin_of :: "unspent_request \<Rightarrow> u32" where
  "mixin_of req = (case ur_mixin req of None \<Rightarrow> 0 | Some m \<Rightarrow> m)"

lemma select_unspent_facts:
  assumes "select_unspent now req images outputs spends confirmed sources pending = Inr us"
  shows "us_unspent us = filter (offered (dust_of req) (mixin_of req) images confirmed sources
      (confirmed_sources confirmed sources spends) (active_pending now pending)) outputs \<and>
    unat (us_received us) = (\<Sum>out \<leftarrow> us_unspent us. unat (amount_of out))"
  using unspent_loop_facts[OF assms[unfolded select_unspent_def Let_def]] by (simp add: dust_of_def mixin_of_def)

lemma with_keys_outputs: "with_keys keys outs = Inr res \<Longrightarrow> map fst res = outs"
  by (induction outs arbitrary: res) (auto simp: check_Inr_iff split: option.splits)

text \<open>The request of both handlers, with the rows they read.\<close>

lemma get_address_info_Inr:
  assumes "get_address_info L C X Y now pool creds s = Inr ai"
  obtains user last_id overlay where "open_account L C creds s = Inr user"
    "\<And>e. pool = Inl e \<Longrightarrow> overlay = []"
    "address_info_of Y (uint now) user last_id (m_dups (outputs_m L) (outputs_t s) (a_id user)) overlay
       (m_dups (spends_m L) (spends_t s) (a_id user)) (m_dups (confirmed_spends_m L) (confirmed_spends_t s) (a_id user))
       (m_dups (imported_spend_sources_m L) (imported_spend_sources_t s) (a_id user)) = Inr ai"
proof -
  obtain user and last_block :: block_info and overlay where "open_account L C creds s = Inr user"
    "(case pool of Inl e \<Rightarrow> Inr [] | Inr txs \<Rightarrow> overlay_matches X user now txs) = Inr overlay"
    "address_info_of Y (uint now) user (bi_id last_block) (m_dups (outputs_m L) (outputs_t s) (a_id user)) overlay
       (m_dups (spends_m L) (spends_t s) (a_id user)) (m_dups (confirmed_spends_m L) (confirmed_spends_t s) (a_id user))
       (m_dups (imported_spend_sources_m L) (imported_spend_sources_t s) (a_id user)) = Inr ai"
    using assms by (auto simp: get_address_info_def check_Inr_iff)
  then show thesis by (intro that) auto
qed

lemma get_unspent_outs_Inr:
  assumes "get_unspent_outs L C now fees fetch creds req s = Inr r"
  obtains user us where "open_account L C creds s = Inr user"
    "select_unspent now req (\<lambda>i. map ki_value (m_dups (images_m L) (images_t s) i))
       (m_dups (outputs_m L) (outputs_t s) (a_id user)) (m_dups (spends_m L) (spends_t s) (a_id user))
       (m_dups (confirmed_spends_m L) (confirmed_spends_t s) (a_id user))
       (m_dups (imported_spend_sources_m L) (imported_spend_sources_t s) (a_id user))
       (m_dups (pending_spends_m L) (pending_spends_t s) (a_id user)) = Inr us"
    "map fst (uo_outputs r) = us_unspent us" "uo_amount r = us_received us" "ur_amount req \<le> us_received us"
proof -
  obtain rpc :: fee_estimate and user us keys outputs where u: "open_account L C creds s = Inr user"
    "select_unspent now req (\<lambda>i. map ki_value (m_dups (images_m L) (images_t s) i))
       (m_dups (outputs_m L) (outputs_t s) (a_id user)) (m_dups (spends_m L) (spends_t s) (a_id user))
       (m_dups (confirmed_spends_m L) (confirmed_spends_t s) (a_id user))
       (m_dups (imported_spend_sources_m L) (imported_spend_sources_t s) (a_id user))
       (m_dups (pending_spends_m L) (pending_spends_t s) (a_id user)) = Inr us"
    "with_keys keys (us_unspent us) = Inr outputs"
    "(if us_received us < ur_amount req then Inl (Lws not_enough_amount)
       else if fe_size_scale rpc = 0 \<or> 1024 < fe_size_scale rpc \<or> fe_fee_mask rpc = 0 then Inl (Lws bad_daemon_response)
       else Inr \<lparr>uo_per_byte_fee = fe_base_fee rpc div ucast (fe_size_scale rpc), uo_fee_mask = fe_fee_mask rpc,
         uo_amount = us_received us, uo_lookahead_fail = a_lookahead_fail user, uo_outputs = outputs\<rparr>) = Inr r"
    using assms unfolding get_unspent_outs_def check_Inr_iff by blast
  from u(4) have r: "\<not> us_received us < ur_amount req" "uo_outputs r = outputs" "uo_amount r = us_received us"
    by (auto split: if_splits)
  with with_keys_outputs[OF u(3)] show thesis by (intro that[OF u(1,2)]) auto
qed

lemma spent_by_confirmed_source:
  assumes "sp \<in> set spends" "spent_by rows confirmed sources sp = Some out"
  shows "output_id_of out \<in> set (confirmed_sources confirmed sources spends)"
proof -
  obtain source where "s_image sp \<in> set confirmed" "find_source sources (s_image sp) = Some source" "output_id_of out = kis_source source"
    using spent_by_Some[OF assms(2)] by blast
  with assms(1) show ?thesis by (force simp: confirmed_sources_def)
qed

section \<open>A small account\<close>

definition demo_currency :: currency where
  "demo_currency = \<lparr>max_block_number = 500000000, allowed_delta_seconds = 240, allowed_delta_blocks = 1, spendable_age = 10,
     difficulty_target = 120\<rparr>"

definition demo_group :: crypto where
  "demo_group = demo_crypto\<lparr>public_of := (\<lambda>k. k - 2)\<rparr>"

definition demo_credentials :: account_credentials where
  "demo_credentials = \<lparr>cr_address = a_address demo_account, cr_key = 13\<rparr>"

text \<open>The first output of the account is known to be spent.\<close>

definition demo_spent :: "cell list tables" where
  "demo_spent = demo\<lparr>confirmed_spends_t := [Cell_confirmed_spends 1 41],
     imported_spend_sources_t := [Cell_imported_spend_sources 1
       \<lparr>kis_image = 41, kis_source = Output_id 0 1, kis_tx_hash = 101, kis_pub = 33, kis_out_index = 0\<rparr>]\<rparr>"

definition demo_info :: "error + address_info" where
  "demo_info = get_address_info log_lmdb demo_group demo_scan_crypto demo_currency 2000 (Inl Runtime_error) demo_credentials demo_spent"

definition demo_unspent :: "error + unspent_response" where
  "demo_unspent = get_unspent_outs log_lmdb demo_group 2000 (Inr \<lparr>fe_base_fee = 600, fe_fee_mask = 10000, fe_size_scale = 1\<rparr>)
     (\<lambda>hashes. Inr (\<lambda>h. Some [])) demo_credentials
     \<lparr>ur_amount = 50, ur_mixin = None, ur_use_dust = None, ur_dust_threshold = None\<rparr> demo_spent"

lemma demo_info_eval:
  "map_sum id (\<lambda>ai. (ai_total_received ai, ai_total_sent ai, length (ai_spent_outputs ai))) demo_info = Inr (100, 50, 1)"
  by code_simp

lemma demo_unspent_eval:
  "map_sum id (\<lambda>r. (uo_amount r, length (uo_outputs r))) demo_unspent = Inr (50, 1)"
  by code_simp

lemma demo_infoE:
  obtains ai where "demo_info = Inr ai" "ai_total_sent ai = 50" "ai_spent_outputs ai \<noteq> []"
proof (rule map_sum_InrE[OF demo_info_eval])
  fix ai assume ai: "demo_info = Inr ai" "(ai_total_received ai, ai_total_sent ai, length (ai_spent_outputs ai)) = (100, 50, 1)"
  from ai(2) have "ai_total_sent ai = 50" "ai_spent_outputs ai \<noteq> []" by auto
  with ai(1) show thesis by (rule that)
qed

lemma demo_unspentE:
  obtains r where "demo_unspent = Inr r" "uo_amount r = 50" "uo_outputs r \<noteq> []"
proof (rule map_sum_InrE[OF demo_unspent_eval])
  fix r assume r: "demo_unspent = Inr r" "(uo_amount r, length (uo_outputs r)) = (50, 1)"
  from r(2) have "uo_amount r = 50" "uo_outputs r \<noteq> []" by auto
  with r(1) show thesis by (rule that)
qed

section \<open>Properties\<close>



text \<open>
  C18: The outputs offered for spending are exactly the stored ones that are large enough, have
  enough decoys, and are neither known to be spent nor spent by a transaction of the last day; the
  amount is their sum, without wrap-around, and at least the requested one.
\<close>

theorem unspent_are_offered:
  assumes "get_unspent_outs L C now fees fetch creds req s = Inr r"
  shows "\<exists>user. open_account L C creds s = Inr user \<and>
    map fst (uo_outputs r) = filter (offered (dust_of req) (mixin_of req)
        (\<lambda>i. map ki_value (m_dups (images_m L) (images_t s) i))
        (m_dups (confirmed_spends_m L) (confirmed_spends_t s) (a_id user))
        (m_dups (imported_spend_sources_m L) (imported_spend_sources_t s) (a_id user))
        (confirmed_sources (m_dups (confirmed_spends_m L) (confirmed_spends_t s) (a_id user))
          (m_dups (imported_spend_sources_m L) (imported_spend_sources_t s) (a_id user)) (m_dups (spends_m L) (spends_t s) (a_id user)))
        (active_pending now (m_dups (pending_spends_m L) (pending_spends_t s) (a_id user))))
      (m_dups (outputs_m L) (outputs_t s) (a_id user)) \<and>
    unat (uo_amount r) = (\<Sum>p \<leftarrow> uo_outputs r. unat (amount_of (fst p))) \<and> ur_amount req \<le> uo_amount r"
proof -
  obtain user us where u: "open_account L C creds s = Inr user"
    "select_unspent now req (\<lambda>i. map ki_value (m_dups (images_m L) (images_t s) i))
       (m_dups (outputs_m L) (outputs_t s) (a_id user)) (m_dups (spends_m L) (spends_t s) (a_id user))
       (m_dups (confirmed_spends_m L) (confirmed_spends_t s) (a_id user))
       (m_dups (imported_spend_sources_m L) (imported_spend_sources_t s) (a_id user))
       (m_dups (pending_spends_m L) (pending_spends_t s) (a_id user)) = Inr us"
    and r: "map fst (uo_outputs r) = us_unspent us" "uo_amount r = us_received us" "ur_amount req \<le> us_received us"
    by (rule get_unspent_outs_Inr[OF assms])
  have "(\<Sum>p \<leftarrow> uo_outputs r. unat (amount_of (fst p))) = (\<Sum>out \<leftarrow> us_unspent us. unat (amount_of out))"
    unfolding r(1)[symmetric] by (simp add: o_def)
  with u(1) r select_unspent_facts[OF u(2)] show ?thesis by auto
qed

theorem unspent_are_offered_witness:
  "\<exists>r. demo_unspent = Inr r \<and> unat (uo_amount r) = (\<Sum>p \<leftarrow> uo_outputs r. unat (amount_of (fst p))) \<and> uo_amount r = 50"
proof -
  obtain r where r: "demo_unspent = Inr r" "uo_amount r = 50" by (rule demo_unspentE)
  have "unat (uo_amount r) = (\<Sum>p \<leftarrow> uo_outputs r. unat (amount_of (fst p)))"
    using unspent_are_offered[OF r(1)[unfolded demo_unspent_def]] by (elim exE conjE)
  with r show ?thesis by (intro exI[of _ r]) simp
qed

text \<open>
  C19: The two handlers agree: no output that the balance counts as sent is offered for spending.
\<close>

theorem spent_is_not_offered:
  assumes "get_address_info L C X Y now pool creds s = Inr ai" and "get_unspent_outs L C now' fees fetch creds req s = Inr r"
  shows "(\<lambda>p. sm_id (fst p)) ` set (ai_spent_outputs ai) \<inter> (\<lambda>p. output_id_of (fst p)) ` set (uo_outputs r) = {}"
proof -
  obtain user last_id overlay where u: "open_account L C creds s = Inr user"
    "address_info_of Y (uint now) user last_id (m_dups (outputs_m L) (outputs_t s) (a_id user)) overlay
       (m_dups (spends_m L) (spends_t s) (a_id user)) (m_dups (confirmed_spends_m L) (confirmed_spends_t s) (a_id user))
       (m_dups (imported_spend_sources_m L) (imported_spend_sources_t s) (a_id user)) = Inr ai"
    by (rule get_address_info_Inr[OF assms(1)]) (rule that)
  obtain user' us where v: "open_account L C creds s = Inr user'"
    "select_unspent now' req (\<lambda>i. map ki_value (m_dups (images_m L) (images_t s) i))
       (m_dups (outputs_m L) (outputs_t s) (a_id user')) (m_dups (spends_m L) (spends_t s) (a_id user'))
       (m_dups (confirmed_spends_m L) (confirmed_spends_t s) (a_id user'))
       (m_dups (imported_spend_sources_m L) (imported_spend_sources_t s) (a_id user'))
       (m_dups (pending_spends_m L) (pending_spends_t s) (a_id user')) = Inr us"
    "map fst (uo_outputs r) = us_unspent us"
    by (rule get_unspent_outs_Inr[OF assms(2)]) (rule that)
  have user: "user' = user" using u(1) v(1) by simp
  let ?ids = "confirmed_sources (m_dups (confirmed_spends_m L) (confirmed_spends_t s) (a_id user))
    (m_dups (imported_spend_sources_m L) (imported_spend_sources_t s) (a_id user)) (m_dups (spends_m L) (spends_t s) (a_id user))"
  have "(\<lambda>p. sm_id (fst p)) ` set (ai_spent_outputs ai) \<subseteq> set ?ids"
  proof -
    obtain rows where spent: "(\<lambda>p. sm_id (fst p)) ` set (ai_spent_outputs ai) =
      {output_id_of out | out sp. sp \<in> set (m_dups (spends_m L) (spends_t s) (a_id user)) \<and>
        spent_by rows (m_dups (confirmed_spends_m L) (confirmed_spends_t s) (a_id user))
          (m_dups (imported_spend_sources_m L) (imported_spend_sources_t s) (a_id user)) sp = Some out}"
      using address_info_facts[OF u(2)] by (elim exE conjE) (rule that)
    show ?thesis unfolding spent using spent_by_confirmed_source by blast
  qed
  moreover have "output_id_of out \<notin> set ?ids" if "out \<in> fst ` set (uo_outputs r)" for out
  proof -
    have "out \<in> set (us_unspent us)" using that unfolding v(3)[symmetric] by simp
    then show ?thesis
      unfolding select_unspent_facts[OF v(2)[unfolded user], THEN conjunct1] by (rule offered_sources)
  qed
  ultimately show ?thesis by (rule disjoint_images)
qed

theorem spent_is_not_offered_witness:
  "\<exists>ai r. demo_info = Inr ai \<and> demo_unspent = Inr r \<and> ai_spent_outputs ai \<noteq> [] \<and> uo_outputs r \<noteq> [] \<and>
     (\<lambda>p. sm_id (fst p)) ` set (ai_spent_outputs ai) \<inter> (\<lambda>p. output_id_of (fst p)) ` set (uo_outputs r) = {}"
proof -
  obtain ai where ai: "demo_info = Inr ai" "ai_spent_outputs ai \<noteq> []" by (rule demo_infoE)
  obtain r where r: "demo_unspent = Inr r" "uo_outputs r \<noteq> []" by (rule demo_unspentE)
  from spent_is_not_offered[OF ai(1)[unfolded demo_info_def] r(1)[unfolded demo_unspent_def]] ai r
  show ?thesis by (intro exI[of _ ai] exI[of _ r] conjI)
qed

end
