(* ===== verification/AddressTxs.thy ===== *)
theory AddressTxs
  imports Balance "HOL-Library.Multiset"
begin

text \<open>
  The transactions of an account, as \<open>get_address_txs\<close> of the REST server
  (\<open>src/src/rest_server.cpp\<close>) answers them, and that they agree with the balance that
  \<open>get_address_info\<close> answers from the same database and pool.

  An exception that leaves the handler is an error here. The order of transactions with the same
  link is the one of a stable sort; the code leaves it open.
\<close>

section \<open>Transactions with their outputs\<close>

record address_tx =
  at_info :: db_output
  at_spends :: "(spend_meta \<times> spend) list"
  at_spent :: u64

definition tx_of_output :: "db_output \<Rightarrow> address_tx" where
  "tx_of_output out = \<lparr>at_info = out, at_spends = [], at_spent = 0\<rparr>"

definition add_to_tx :: "u64 \<Rightarrow> address_tx \<Rightarrow> address_tx" where
  "add_to_tx amount tx =
     tx\<lparr>at_info := (at_info tx)\<lparr>o_spend_meta := (o_spend_meta (at_info tx))\<lparr>sm_amount := amount_of (at_info tx) + amount\<rparr>\<rparr>\<rparr>"

fun group_outputs :: "db_output list \<Rightarrow> address_tx list \<Rightarrow> u64 \<Rightarrow> error + address_tx list \<times> u64" where
  "group_outputs [] txs received = Inr (txs, received)"
| "group_outputs (out # outs) txs received =
     (if txs \<noteq> [] \<and> o_link out < o_link (at_info (last txs)) then Inl Runtime_error
      else if txs = [] \<or> tl_tx_hash (o_link (at_info (last txs))) \<noteq> tl_tx_hash (o_link out)
      then group_outputs outs (txs @ [tx_of_output out]) (received + amount_of out)
      else group_outputs outs (butlast txs @ [add_to_tx (amount_of out) (last txs)]) (received + amount_of out))"

fun overlay_txs :: "overlay_match list \<Rightarrow> db_output list \<Rightarrow> address_tx list \<Rightarrow> u64 \<Rightarrow> u64 \<Rightarrow>
    error + db_output list \<times> address_tx list \<times> u64" where
  "overlay_txs [] rows txs received tot = Inr (rows, txs, received)"
| "overlay_txs (m # ms) rows txs received tot =
     (if output_exists_in_rows rows m then overlay_txs ms rows txs received tot
      else
        let out = om_output m in
        check (add_amount tot (amount_of out))
          (overlay_txs ms (rows @ [out]) (txs @ [tx_of_output out]) (received + amount_of out)))"

section \<open>Spends\<close>

text \<open>The choice of spends is the one of \<open>get_address_info\<close>, without its sum over unconfirmed ones.\<close>

fun choose_tx_spends :: "db_output list \<Rightarrow> hash list \<Rightarrow> key_image_source list \<Rightarrow> spend list \<Rightarrow> spend_state \<Rightarrow> spend_state" where
  "choose_tx_spends rows confirmed sources [] ss = ss"
| "choose_tx_spends rows confirmed sources (sp # sps) ss =
     (if s_image sp \<notin> set confirmed
      then choose_tx_spends rows confirmed sources sps (ss\<lparr>ss_unconfirmed_count := Suc (ss_unconfirmed_count ss)\<rparr>)
      else choose_tx_spends rows confirmed sources sps (confirmed_spend rows sources sp ss))"

fun find_tx_index :: "hash \<Rightarrow> nat \<Rightarrow> address_tx list \<Rightarrow> nat option" where
  "find_tx_index h i [] = None"
| "find_tx_index h i (tx # txs) =
     (if tl_tx_hash (o_link (at_info tx)) = h then Some i else find_tx_index h (Suc i) txs)"

definition outgoing_tx :: "confirmed_spend_choice \<Rightarrow> address_tx" where
  "outgoing_tx choice =
     (let sp = cc_spend choice in
      tx_of_output
        \<lparr>o_link = s_link sp,
         o_spend_meta = (cc_meta choice)\<lparr>sm_amount := 0, sm_mixin_count := s_mixin_count sp\<rparr>,
         o_timestamp = s_timestamp sp, o_unlock_time = s_unlock_time sp, o_tx_prefix_hash = 0, o_pub = 0, o_ringct_mask = 0,
         o_extra = pack 0 (s_length sp), o_payment_id = bytes_hash (s_payment_id sp), o_fee = 0, o_recipient = s_sender sp\<rparr>)"

definition spend_in_tx :: "confirmed_spend_choice \<Rightarrow> u64 \<Rightarrow> address_tx \<Rightarrow> address_tx" where
  "spend_in_tx choice spent tx = tx\<lparr>at_spent := spent, at_spends := at_spends tx @ [(cc_meta choice, cc_spend choice)]\<rparr>"

fun file_spends :: "(hash \<times> confirmed_spend_choice) list \<Rightarrow> output_id list \<Rightarrow> u64 \<Rightarrow> address_tx list \<Rightarrow> error + u64 \<times> address_tx list" where
  "file_spends [] counted tot txs = Inr (tot, txs)"
| "file_spends ((img, choice) # choices) counted tot txs =
     (if cc_source choice \<in> set counted then file_spends choices counted tot txs
      else
        let (txs, i) = (case find_tx_index (tl_tx_hash (s_link (cc_spend choice))) 0 txs of
              None \<Rightarrow> (txs @ [outgoing_tx choice], length txs)
            | Some i \<Rightarrow> (txs, i)) in
        check (add_amount (at_spent (txs ! i)) (sm_amount (cc_meta choice))) (\<lambda>spent.
        check (add_amount tot (sm_amount (cc_meta choice))) (\<lambda>tot.
          file_spends choices (cc_source choice # counted) tot (txs[i := spend_in_tx choice spent (txs ! i)]))))"

section \<open>The answer\<close>

record address_txs =
  ax_total_received :: u64
  ax_scanned_height :: block_id
  ax_start_height :: block_id
  ax_blockchain_height :: block_id
  ax_lookahead_fail :: block_id
  ax_lookahead :: address_index
  ax_transactions :: "address_tx list"

definition address_txs_of :: "account \<Rightarrow> block_id \<Rightarrow> db_output list \<Rightarrow> overlay_match list \<Rightarrow> spend list \<Rightarrow> hash list \<Rightarrow>
    key_image_source list \<Rightarrow> error + address_txs" where
  "address_txs_of user last_id outputs overlay spends confirmed sources =
     check (group_outputs outputs [] 0) (\<lambda>(txs, received).
     check (overlay_txs overlay outputs txs received 0) (\<lambda>(rows, txs, received).
     let ss = choose_tx_spends rows confirmed sources spends
        \<lparr>ss_unconfirmed_count = 0, ss_unconfirmed_sources = [], ss_unconfirmed_amount = 0, ss_missing = 0, ss_choices = []\<rparr> in
     check (file_spends (sort_key fst (ss_choices ss)) [] 0 txs) (\<lambda>(sent, txs).
       Inr \<lparr>ax_total_received = received, ax_scanned_height = a_scan_height user, ax_start_height = a_start_height user,
         ax_blockchain_height = last_id, ax_lookahead_fail = a_lookahead_fail user, ax_lookahead = a_lookahead user,
         ax_transactions = sort_key (\<lambda>tx. o_link (at_info tx)) txs\<rparr>)))"

definition get_address_txs :: "'t lmdb \<Rightarrow> crypto \<Rightarrow> scan_crypto \<Rightarrow> u64 \<Rightarrow> (error + pool_tx list) \<Rightarrow> account_credentials \<Rightarrow>
    't tables \<Rightarrow> error + address_txs" where
  "get_address_txs L C X now pool creds s =
     check (open_account L C creds s) (\<lambda>user.
     check (get_last_block L s) (\<lambda>last_block.
     check (case pool of Inl e \<Rightarrow> Inr [] | Inr txs \<Rightarrow> overlay_matches X user now txs) (\<lambda>overlay.
       address_txs_of user (bi_id last_block) (m_dups (outputs_m L) (outputs_t s) (a_id user)) overlay
         (m_dups (spends_m L) (spends_t s) (a_id user)) (m_dups (confirmed_spends_m L) (confirmed_spends_t s) (a_id user))
         (m_dups (imported_spend_sources_m L) (imported_spend_sources_t s) (a_id user)))))"

section \<open>Every spend is filed once\<close>

definition filed :: "address_tx list \<Rightarrow> (spend_meta \<times> spend) multiset" where
  "filed txs = (\<Sum>tx \<leftarrow> txs. mset (at_spends tx))"

definition tx_ok :: "address_tx \<Rightarrow> bool" where
  "tx_ok tx \<longleftrightarrow> (\<forall>p \<in> set (at_spends tx). tl_tx_hash (s_link (snd p)) = tl_tx_hash (o_link (at_info tx))) \<and>
     unat (at_spent tx) = (\<Sum>p \<leftarrow> at_spends tx. unat (sm_amount (fst p)))"

lemma filed_simps [simp]:
  "filed [] = {#}" "filed (tx # txs) = mset (at_spends tx) + filed txs" "filed (xs @ ys) = filed xs + filed ys"
  by (simp_all add: filed_def)

lemma filed_update:
  "i < length txs \<Longrightarrow> filed (txs[i := spend_in_tx choice spent (txs ! i)]) = add_mset (cc_meta choice, cc_spend choice) (filed txs)"
  by (induction txs arbitrary: i) (auto simp: spend_in_tx_def split: nat.splits)

lemma filed_sort: "filed (sort_key f txs) = filed txs"
proof -
  have "filed txs = (\<Sum>tx \<in># mset txs. mset (at_spends tx))" for txs by (simp add: filed_def sum_mset_sum_list mset_map[symmetric] del: mset_map)
  then show ?thesis by (metis mset_sort)
qed

lemma find_tx_index_Some:
  "find_tx_index h i txs = Some j \<Longrightarrow> i \<le> j \<and> j - i < length txs \<and> tl_tx_hash (o_link (at_info (txs ! (j - i)))) = h"
proof (induction txs arbitrary: i)
  case (Cons tx txs)
  show ?case
  proof (cases "tl_tx_hash (o_link (at_info tx)) = h")
    case True
    with Cons.prems show ?thesis by auto
  next
    case False
    with Cons.prems have "find_tx_index h (Suc i) txs = Some j" by simp
    from Cons.IH[OF this] have "Suc i \<le> j" "j - Suc i < length txs" "tl_tx_hash (o_link (at_info (txs ! (j - Suc i)))) = h" by auto
    moreover from this(1) have "j - i = Suc (j - Suc i)" by simp
    ultimately show ?thesis by simp
  qed
qed simp

lemma add_amount_eq: "add_amount tot amount = Inr n \<Longrightarrow> n = tot + amount"
  by (simp add: add_amount_def split: if_splits)

lemma tx_ok_spend:
  assumes "tx_ok tx" "tl_tx_hash (s_link (cc_spend choice)) = tl_tx_hash (o_link (at_info tx))"
    and "add_amount (at_spent tx) (sm_amount (cc_meta choice)) = Inr spent"
  shows "tx_ok (spend_in_tx choice spent tx)"
  using assms add_amount_Inr[OF assms(3)] by (auto simp: tx_ok_def spend_in_tx_def)

lemma tx_ok_new [simp]: "tx_ok (tx_of_output out)" "tx_ok (outgoing_tx choice)"
  by (simp_all add: tx_ok_def tx_of_output_def outgoing_tx_def Let_def)

lemma filed_new [simp]: "at_spends (tx_of_output out) = []" "at_spends (outgoing_tx choice) = []"
  by (simp_all add: tx_of_output_def outgoing_tx_def Let_def)

lemma file_spends_step:
  assumes "file_spends ((img, choice) # choices) counted tot txs = Inr (tot', txs')" "cc_source choice \<notin> set counted"
    and ok: "\<forall>tx \<in> set txs. tx_ok tx"
  obtains n txs1 where "add_amount tot (sm_amount (cc_meta choice)) = Inr n"
    "file_spends choices (cc_source choice # counted) n txs1 = Inr (tot', txs')"
    "filed txs1 = add_mset (cc_meta choice, cc_spend choice) (filed txs)" "\<forall>tx \<in> set txs1. tx_ok tx"
proof -
  let ?h = "tl_tx_hash (s_link (cc_spend choice))"
  obtain txs0 i where place: "(case find_tx_index ?h 0 txs of None \<Rightarrow> (txs @ [outgoing_tx choice], length txs) | Some i \<Rightarrow> (txs, i)) = (txs0, i)"
    by fastforce
  have i: "i < length txs0" "tl_tx_hash (o_link (at_info (txs0 ! i))) = ?h" "filed txs0 = filed txs" "\<forall>tx \<in> set txs0. tx_ok tx"
  proof -
    have out: "tl_tx_hash (o_link (at_info (outgoing_tx choice))) = ?h" by (simp add: outgoing_tx_def tx_of_output_def Let_def)
    show "i < length txs0" "tl_tx_hash (o_link (at_info (txs0 ! i))) = ?h" "filed txs0 = filed txs" "\<forall>tx \<in> set txs0. tx_ok tx"
      using place out ok find_tx_index_Some[of ?h 0 txs i] by (auto split: option.splits)
  qed
  obtain spent n where s: "add_amount (at_spent (txs0 ! i)) (sm_amount (cc_meta choice)) = Inr spent"
    "add_amount tot (sm_amount (cc_meta choice)) = Inr n"
    "file_spends choices (cc_source choice # counted) n (txs0[i := spend_in_tx choice spent (txs0 ! i)]) = Inr (tot', txs')"
    using assms(1,2) place by (auto simp: check_Inr_iff)
  show thesis
  proof (rule that[OF s(2,3)])
    show "filed (txs0[i := spend_in_tx choice spent (txs0 ! i)]) = add_mset (cc_meta choice, cc_spend choice) (filed txs)"
      using filed_update[OF i(1)] i(3) by simp
    show "\<forall>tx \<in> set (txs0[i := spend_in_tx choice spent (txs0 ! i)]). tx_ok tx"
      using tx_ok_spend[OF _ i(2)[symmetric] s(1)] i(1,4) set_update_subset_insert[of txs0 i "spend_in_tx choice spent (txs0 ! i)"]
      by (metis insert_iff nth_mem subsetD)
  qed
qed

text \<open>The two sums over the chosen spends go in step.\<close>

lemma file_spends_sum:
  "file_spends choices counted tot txs = Inr (tot', txs') \<Longrightarrow> \<forall>tx \<in> set txs. tx_ok tx \<Longrightarrow>
     \<exists>counted' new. sum_sent choices counted tot spent = Inr (counted', tot', spent @ new) \<and> filed txs' = filed txs + mset new \<and>
       (\<forall>tx \<in> set txs'. tx_ok tx)"
proof (induction choices arbitrary: counted tot txs spent)
  case (Cons p choices)
  obtain img choice where p: "p = (img, choice)" by (cases p)
  show ?case
  proof (cases "cc_source choice \<in> set counted")
    case True
    with Cons.prems(1) have "file_spends choices counted tot txs = Inr (tot', txs')" by (simp add: p)
    from Cons.IH[OF this Cons.prems(2)] True show ?thesis by (simp add: p)
  next
    case False
    obtain n txs1 where s: "add_amount tot (sm_amount (cc_meta choice)) = Inr n"
      "file_spends choices (cc_source choice # counted) n txs1 = Inr (tot', txs')"
      "filed txs1 = add_mset (cc_meta choice, cc_spend choice) (filed txs)" "\<forall>tx \<in> set txs1. tx_ok tx"
      by (rule file_spends_step[OF Cons.prems(1)[unfolded p] False Cons.prems(2)])
    from Cons.IH[OF s(2,4), of "spent @ [(cc_meta choice, cc_spend choice)]"] obtain counted' new where
      "sum_sent choices (cc_source choice # counted) n (spent @ [(cc_meta choice, cc_spend choice)]) =
        Inr (counted', tot', (spent @ [(cc_meta choice, cc_spend choice)]) @ new)"
      "filed txs' = filed txs1 + mset new" "\<forall>tx \<in> set txs'. tx_ok tx" by blast
    with False s(1,3) show ?thesis
      by (intro exI[of _ counted'] exI[of _ "(cc_meta choice, cc_spend choice) # new"]) (simp add: p)
  qed
qed simp

section \<open>The same rows and choices as the balance\<close>

lemma tx_ok_add [simp]: "tx_ok (add_to_tx amount tx) = tx_ok tx" "at_spends (add_to_tx amount tx) = at_spends tx"
  by (simp_all add: tx_ok_def add_to_tx_def)

lemma group_outputs_facts:
  "group_outputs outs txs received = Inr (txs', received') \<Longrightarrow> \<forall>tx \<in> set txs. tx_ok tx \<Longrightarrow>
     received' = received + (\<Sum>out \<leftarrow> outs. amount_of out) \<and> filed txs' = filed txs \<and> (\<forall>tx \<in> set txs'. tx_ok tx)"
proof (induction outs arbitrary: txs received)
  case (Cons out outs)
  show ?case
  proof (cases "txs = [] \<or> tl_tx_hash (o_link (at_info (last txs))) \<noteq> tl_tx_hash (o_link out)")
    case True
    with Cons.prems(1) have "group_outputs outs (txs @ [tx_of_output out]) (received + amount_of out) = Inr (txs', received')"
      by (auto split: if_splits)
    from Cons.IH[OF this] Cons.prems(2) show ?thesis by (auto simp: add.assoc)
  next
    case False
    then have "txs = butlast txs @ [last txs]" by simp
    then obtain front tx where txs: "txs = front @ [tx]" by blast
    from False Cons.prems(1) have "group_outputs outs (front @ [add_to_tx (amount_of out) tx]) (received + amount_of out) = Inr (txs', received')"
      by (auto simp: txs split: if_splits)
    from Cons.IH[OF this] Cons.prems(2) show ?thesis by (auto simp: txs add.assoc)
  qed
qed simp

lemma overlay_txs_facts:
  "overlay_txs ms rows txs received tot = Inr (rows', txs', received') \<Longrightarrow> \<forall>tx \<in> set txs. tx_ok tx \<Longrightarrow>
     filed txs' = filed txs \<and> (\<forall>tx \<in> set txs'. tx_ok tx) \<and> (\<exists>locked'. overlay_rows ms rows received locked tot = Inr (rows', received', locked'))"
proof (induction ms arbitrary: rows txs received locked tot)
  case (Cons m ms)
  show ?case
  proof (cases "output_exists_in_rows rows m")
    case True
    with Cons.prems(1) have "overlay_txs ms rows txs received tot = Inr (rows', txs', received')" by simp
    from Cons.IH[OF this Cons.prems(2), of locked] True show ?thesis by simp
  next
    case False
    let ?out = "om_output m"
    obtain n where n: "add_amount tot (amount_of ?out) = Inr n"
      "overlay_txs ms (rows @ [?out]) (txs @ [tx_of_output ?out]) (received + amount_of ?out) n = Inr (rows', txs', received')"
      using Cons.prems(1) False by (auto simp: Let_def check_Inr_iff)
    from Cons.IH[OF n(2), of "locked + amount_of ?out"] Cons.prems(2) False n(1) show ?thesis by (simp add: Let_def)
  qed
qed simp

lemma choose_tx_spends_choices:
  "choose_spends rows confirmed sources sps ss = Inr ss' \<Longrightarrow> ss_choices ss2 = ss_choices ss \<Longrightarrow>
     ss_choices (choose_tx_spends rows confirmed sources sps ss2) = ss_choices ss'"
proof (induction sps arbitrary: ss ss2)
  case (Cons sp sps)
  show ?case
  proof (cases "s_image sp \<in> set confirmed")
    case True
    have "ss_choices (confirmed_spend rows sources sp ss2) = ss_choices (confirmed_spend rows sources sp ss)"
      using Cons.prems(2) by (simp add: confirmed_spend_def Let_def split: option.split)
    with Cons.IH[of "confirmed_spend rows sources sp ss" "confirmed_spend rows sources sp ss2"] Cons.prems(1) True
    show ?thesis by simp
  next
    case False
    with Cons.prems(1) obtain ss1 where s: "unconfirmed_spend rows sp ss = Inr ss1" "choose_spends rows confirmed sources sps ss1 = Inr ss'"
      by (auto simp: check_Inr_iff)
    from Cons.IH[OF s(2), of "ss2\<lparr>ss_unconfirmed_count := Suc (ss_unconfirmed_count ss2)\<rparr>"] unconfirmed_spend_choices[OF s(1)] Cons.prems(2) False
    show ?thesis by simp
  qed
qed simp

definition no_spends :: spend_state where
  "no_spends = \<lparr>ss_unconfirmed_count = 0, ss_unconfirmed_sources = [], ss_unconfirmed_amount = 0, ss_missing = 0, ss_choices = []\<rparr>"

lemma address_txs_agree:
  assumes info: "address_info_of Y now user last_id outputs overlay spends confirmed sources = Inr ai"
    and txs: "address_txs_of user last_id outputs overlay spends confirmed sources = Inr ax"
  shows "ax_total_received ax = ai_total_received ai" "filed (ax_transactions ax) = mset (ai_spent_outputs ai)"
    "\<forall>tx \<in> set (ax_transactions ax). tx_ok tx" "sorted (map (\<lambda>tx. o_link (at_info tx)) (ax_transactions ax))"
proof -
  obtain txs1 received1 rows txs2 received sent txs3 where
    g: "group_outputs outputs [] 0 = Inr (txs1, received1)"
    and o: "overlay_txs overlay outputs txs1 received1 0 = Inr (rows, txs2, received)"
    and f: "file_spends (sort_key fst (ss_choices (choose_tx_spends rows confirmed sources spends no_spends))) [] 0 txs2 = Inr (sent, txs3)"
    and ax: "ax_total_received ax = received" "ax_transactions ax = sort_key (\<lambda>tx. o_link (at_info tx)) txs3"
    using txs by (auto simp: address_txs_of_def check_Inr_iff Let_def no_spends_def)
  obtain received0 locked0 where r: "received_outputs Y now last_id outputs (0, 0) = (received0, locked0)" by fastforce
  obtain rows' received' locked' ss n counted sent' spent where
    rows': "overlay_rows overlay outputs received0 locked0 0 = Inr (rows', received', locked')"
    and ss: "choose_spends rows' confirmed sources spends no_spends = Inr ss"
    and sent': "sum_sent (sort_key fst (ss_choices ss)) [] 0 [] = Inr (counted, sent', spent)"
    and ai: "ai_total_received ai = received'" "ai_spent_outputs ai = spent"
    using info by (auto simp: address_info_of_def r check_Inr_iff no_spends_def)
  have received1: "received1 = received0" "filed txs1 = {#}" "\<forall>tx \<in> set txs1. tx_ok tx"
    using group_outputs_facts[OF g] received_outputs_sum[of Y now last_id outputs "(0, 0)"] by (simp_all add: r)
  note ov = overlay_txs_facts[OF o received1(3), of locked0, unfolded received1(1,2)]
  from ov rows' have same: "rows' = rows" "received' = received" by auto
  have "ss_choices (choose_tx_spends rows confirmed sources spends no_spends) = ss_choices ss"
    using choose_tx_spends_choices[OF ss refl] by (simp add: same)
  from file_spends_sum[OF f[unfolded this], of "[]"] ov sent' have filed: "filed txs3 = mset spent" "\<forall>tx \<in> set txs3. tx_ok tx"
    by auto
  show "ax_total_received ax = ai_total_received ai" "filed (ax_transactions ax) = mset (ai_spent_outputs ai)"
    "\<forall>tx \<in> set (ax_transactions ax). tx_ok tx" "sorted (map (\<lambda>tx. o_link (at_info tx)) (ax_transactions ax))"
    by (simp_all add: ax ai same filed filed_sort)
qed

section \<open>When the answer is given\<close>

lemma less_eq_link: "output_key a < output_key b \<Longrightarrow> o_link a \<le> o_link b"
  by (cases "o_link a"; cases "o_link b") (auto simp: output_key_def less_eq_transaction_link_def less_transaction_link_def)

lemma sorted_links:
  assumes "sorted_rows output_key outs" shows "sorted (map o_link outs)"
  using assms by (auto simp: sorted_rows_def sorted_map intro: sorted_wrt_mono_rel[rotated] less_eq_link)

context lmdb_store begin

lemma outputs_rows_sorted: "sorted_rows output_key (m_dups (outputs_m L) (outputs_t s) i)"
  by simp

end

lemmas outputs_sorted = lmdb_store.outputs_rows_sorted

lemma group_outputs_total:
  "sorted (map o_link outs) \<Longrightarrow> (txs \<noteq> [] \<Longrightarrow> \<forall>out \<in> set outs. o_link (at_info (last txs)) \<le> o_link out) \<Longrightarrow>
     \<exists>txs' received'. group_outputs outs txs received = Inr (txs', received')"
proof (induction outs arbitrary: txs received)
  case (Cons out outs)
  have s: "sorted (map o_link outs)" "\<forall>o2 \<in> set outs. o_link out \<le> o_link o2" using Cons.prems(1) by auto
  have ok: "\<not> (txs \<noteq> [] \<and> o_link out < o_link (at_info (last txs)))" using Cons.prems(2) by (auto simp: not_less)
  show ?case
  proof (cases "txs = [] \<or> tl_tx_hash (o_link (at_info (last txs))) \<noteq> tl_tx_hash (o_link out)")
    case True
    have "\<exists>txs' received'. group_outputs outs (txs @ [tx_of_output out]) (received + amount_of out) = Inr (txs', received')"
      by (rule Cons.IH[OF s(1)]) (use s(2) in \<open>simp add: tx_of_output_def\<close>)
    with True ok show ?thesis by auto
  next
    case False
    have "\<exists>txs' received'. group_outputs outs (butlast txs @ [add_to_tx (amount_of out) (last txs)]) (received + amount_of out) = Inr (txs', received')"
      by (rule Cons.IH[OF s(1)]) (use Cons.prems(2) False in \<open>simp add: add_to_tx_def\<close>)
    with False ok show ?thesis by auto
  qed
qed simp

lemma overlay_txs_total:
  "overlay_rows ms rows received locked tot = Inr res \<Longrightarrow> \<exists>res'. overlay_txs ms rows txs received tot = Inr res'"
proof (induction ms arbitrary: rows txs received locked tot)
  case (Cons m ms)
  show ?case
  proof (cases "output_exists_in_rows rows m")
    case True
    with Cons.prems have "overlay_rows ms rows received locked tot = Inr res" by simp
    from Cons.IH[OF this] True show ?thesis by simp
  next
    case False
    let ?out = "om_output m"
    obtain n where n: "add_amount tot (amount_of ?out) = Inr n"
      "overlay_rows ms (rows @ [?out]) (received + amount_of ?out) (locked + amount_of ?out) n = Inr res"
      using Cons.prems False by (auto simp: Let_def check_Inr_iff)
    from Cons.IH[OF n(2)] n(1) False show ?thesis by (simp add: Let_def)
  qed
qed simp

lemma add_amount_smaller:
  assumes "add_amount tot amount = Inr n" "unat small \<le> unat tot"
  shows "\<exists>m. add_amount small amount = Inr m \<and> unat m \<le> unat n"
proof -
  have "\<not> -1 - tot < amount" using assms(1) by (simp add: add_amount_def split: if_splits)
  then have "amount \<le> -1 - tot" by (simp add: not_less)
  moreover have "unat (-1 - x) = unat (-1 :: u64) - unat x" for x :: u64 by (rule unat_sub) simp
  then have "-1 - tot \<le> -1 - small" using assms(2) by (simp add: word_le_nat_alt diff_le_mono2)
  ultimately have "\<not> -1 - small < amount" by (simp add: not_less)
  then have "add_amount small amount = Inr (small + amount)" by (simp add: add_amount_def)
  moreover from add_amount_Inr[OF this] add_amount_Inr[OF assms(1)] assms(2) have "unat (small + amount) \<le> unat n" by simp
  ultimately show ?thesis by blast
qed

lemma file_spends_total:
  "sum_sent choices counted tot spent = Inr res \<Longrightarrow> \<forall>tx \<in> set txs. unat (at_spent tx) \<le> unat tot \<Longrightarrow>
     \<exists>res'. file_spends choices counted tot txs = Inr res'"
proof (induction choices arbitrary: counted tot txs spent)
  case (Cons p choices)
  obtain img choice where p: "p = (img, choice)" by (cases p)
  show ?case
  proof (cases "cc_source choice \<in> set counted")
    case True
    with Cons.prems(1) have "sum_sent choices counted tot spent = Inr res" by (simp add: p)
    from Cons.IH[OF this Cons.prems(2)] True show ?thesis by (simp add: p)
  next
    case False
    let ?amount = "sm_amount (cc_meta choice)"
    obtain n where n: "add_amount tot ?amount = Inr n"
      "sum_sent choices (cc_source choice # counted) n (spent @ [(cc_meta choice, cc_spend choice)]) = Inr res"
      using Cons.prems(1) False by (auto simp: p check_Inr_iff)
    let ?h = "tl_tx_hash (s_link (cc_spend choice))"
    obtain txs0 i where place: "(case find_tx_index ?h 0 txs of None \<Rightarrow> (txs @ [outgoing_tx choice], length txs) | Some i \<Rightarrow> (txs, i)) = (txs0, i)"
      by fastforce
    have i: "i < length txs0" "\<forall>tx \<in> set txs0. unat (at_spent tx) \<le> unat tot"
      using place Cons.prems(2) find_tx_index_Some[of ?h 0 txs i]
      by (auto simp: outgoing_tx_def tx_of_output_def Let_def split: option.splits)
    then obtain m where m: "add_amount (at_spent (txs0 ! i)) ?amount = Inr m" "unat m \<le> unat n"
      using add_amount_smaller[OF n(1)] nth_mem by blast
    have "unat tot \<le> unat n" using add_amount_Inr[OF n(1)] by simp
    with i m(2) have "\<forall>tx \<in> set (txs0[i := spend_in_tx choice m (txs0 ! i)]). unat (at_spent tx) \<le> unat n"
      by (auto simp: spend_in_tx_def dest!: set_update_subset_insert[THEN subsetD])
    from Cons.IH[OF n(2) this] False n(1) m(1) place show ?thesis by (simp add: p)
  qed
qed simp

lemma address_txs_given:
  assumes "address_info_of Y now user last_id outputs overlay spends confirmed sources = Inr ai" and "sorted (map o_link outputs)"
  shows "\<exists>ax. address_txs_of user last_id outputs overlay spends confirmed sources = Inr ax"
proof -
  obtain received0 locked0 where r: "received_outputs Y now last_id outputs (0, 0) = (received0, locked0)" by fastforce
  obtain rows received' locked' ss res where
    rows: "overlay_rows overlay outputs received0 locked0 0 = Inr (rows, received', locked')"
    and ss: "choose_spends rows confirmed sources spends no_spends = Inr ss"
    and sent: "sum_sent (sort_key fst (ss_choices ss)) [] 0 [] = Inr res"
    using assms(1) by (auto simp: address_info_of_def r check_Inr_iff no_spends_def)
  obtain txs1 received1 where g: "group_outputs outputs [] 0 = Inr (txs1, received1)"
    using group_outputs_total[OF assms(2), of "[]" 0] by auto
  have ok: "\<forall>tx \<in> set txs1. tx_ok tx" and "received1 = received0" and "filed txs1 = {#}"
    using group_outputs_facts[OF g] received_outputs_sum[of Y now last_id outputs "(0, 0)"] by (simp_all add: r)
  then obtain rows' txs2 received2 where o: "overlay_txs overlay outputs txs1 received1 0 = Inr (rows', txs2, received2)"
    using overlay_txs_total[OF rows] by (metis prod_cases3)
  note ov = overlay_txs_facts[OF o ok, of locked0]
  have same: "rows' = rows" using ov rows \<open>received1 = received0\<close> by auto
  have zero: "unat (at_spent tx) = 0" if "tx \<in> set txs2" for tx
  proof -
    have "mset (at_spends tx) \<subseteq># filed txs2" using that by (induction txs2) (auto intro: subset_mset.add_increasing subset_mset.add_increasing2)
    then have "at_spends tx = []" using ov \<open>filed txs1 = {#}\<close> by simp
    with ov that show ?thesis by (auto simp: tx_ok_def)
  qed
  have "ss_choices (choose_tx_spends rows confirmed sources spends no_spends) = ss_choices ss"
    using choose_tx_spends_choices[OF ss refl] .
  with file_spends_total[OF sent, of txs2] zero obtain res' where
    "file_spends (sort_key fst (ss_choices (choose_tx_spends rows confirmed sources spends no_spends))) [] 0 txs2 = Inr res'" by auto
  then show ?thesis by (cases res') (simp add: address_txs_of_def g o same no_spends_def Let_def)
qed

lemma filed_sum:
  "\<forall>tx \<in> set txs. tx_ok tx \<Longrightarrow>
     (\<Sum>tx \<leftarrow> txs. unat (at_spent tx)) = (\<Sum>p \<in># filed txs. unat (sm_amount (fst p)))"
  by (induction txs) (auto simp: tx_ok_def sum_mset_sum_list[symmetric])

lemma get_address_txs_Inr:
  assumes "get_address_info L C X Y now pool creds s = Inr ai"
  obtains user last_id overlay where
    "address_info_of Y (uint now) user last_id (m_dups (outputs_m L) (outputs_t s) (a_id user)) overlay
       (m_dups (spends_m L) (spends_t s) (a_id user)) (m_dups (confirmed_spends_m L) (confirmed_spends_t s) (a_id user))
       (m_dups (imported_spend_sources_m L) (imported_spend_sources_t s) (a_id user)) = Inr ai"
    "get_address_txs L C X now pool creds s =
       address_txs_of user last_id (m_dups (outputs_m L) (outputs_t s) (a_id user)) overlay
         (m_dups (spends_m L) (spends_t s) (a_id user)) (m_dups (confirmed_spends_m L) (confirmed_spends_t s) (a_id user))
         (m_dups (imported_spend_sources_m L) (imported_spend_sources_t s) (a_id user))"
proof -
  obtain user and last_block :: block_info and overlay where "open_account L C creds s = Inr user" "get_last_block L s = Inr last_block"
    "(case pool of Inl e \<Rightarrow> Inr [] | Inr txs \<Rightarrow> overlay_matches X user now txs) = Inr overlay"
    and info: "address_info_of Y (uint now) user (bi_id last_block) (m_dups (outputs_m L) (outputs_t s) (a_id user)) overlay
       (m_dups (spends_m L) (spends_t s) (a_id user)) (m_dups (confirmed_spends_m L) (confirmed_spends_t s) (a_id user))
       (m_dups (imported_spend_sources_m L) (imported_spend_sources_t s) (a_id user)) = Inr ai"
    using assms by (auto simp: get_address_info_def check_Inr_iff)
  then have "get_address_txs L C X now pool creds s =
       address_txs_of user (bi_id last_block) (m_dups (outputs_m L) (outputs_t s) (a_id user)) overlay
         (m_dups (spends_m L) (spends_t s) (a_id user)) (m_dups (confirmed_spends_m L) (confirmed_spends_t s) (a_id user))
         (m_dups (imported_spend_sources_m L) (imported_spend_sources_t s) (a_id user))"
    by (simp add: get_address_txs_def)
  with info show thesis by (rule that)
qed

section \<open>Properties\<close>

text \<open>
  C20: The two handlers agree: whenever the balance is answered, the transactions are, with the same
  sum received; the spends of the transactions together are the spent outputs of the balance, each
  of them filed under the transaction that spends it, and the sums sent are the same.
\<close>

theorem txs_agree_with_info:
  assumes "lmdb_store L" and "get_address_info L C X Y now pool creds s = Inr ai"
  shows "\<exists>ax. get_address_txs L C X now pool creds s = Inr ax \<and>
    ax_total_received ax = ai_total_received ai \<and>
    (\<Sum>tx \<leftarrow> ax_transactions ax. mset (at_spends tx)) = mset (ai_spent_outputs ai) \<and>
    (\<Sum>tx \<leftarrow> ax_transactions ax. unat (at_spent tx)) = unat (ai_total_sent ai) \<and>
    (\<forall>tx \<in> set (ax_transactions ax). \<forall>p \<in> set (at_spends tx). tl_tx_hash (s_link (snd p)) = tl_tx_hash (o_link (at_info tx))) \<and>
    sorted (map (\<lambda>tx. o_link (at_info tx)) (ax_transactions ax))"
proof -
  obtain user last_id overlay where
    info: "address_info_of Y (uint now) user last_id (m_dups (outputs_m L) (outputs_t s) (a_id user)) overlay
       (m_dups (spends_m L) (spends_t s) (a_id user)) (m_dups (confirmed_spends_m L) (confirmed_spends_t s) (a_id user))
       (m_dups (imported_spend_sources_m L) (imported_spend_sources_t s) (a_id user)) = Inr ai"
    and txs: "get_address_txs L C X now pool creds s =
       address_txs_of user last_id (m_dups (outputs_m L) (outputs_t s) (a_id user)) overlay
         (m_dups (spends_m L) (spends_t s) (a_id user)) (m_dups (confirmed_spends_m L) (confirmed_spends_t s) (a_id user))
         (m_dups (imported_spend_sources_m L) (imported_spend_sources_t s) (a_id user))"
    by (rule get_address_txs_Inr[OF assms(2)]) (rule that)
  obtain ax where ax: "get_address_txs L C X now pool creds s = Inr ax"
    using address_txs_given[OF info sorted_links[OF outputs_sorted[OF assms(1)]]] unfolding txs by blast
  note agree = address_txs_agree[OF info ax[unfolded txs]]
  have "unat (ai_total_sent ai) = (\<Sum>p \<in># mset (ai_spent_outputs ai). unat (sm_amount (fst p)))"
    using address_info_facts[OF info] by (auto simp: sum_mset_sum_list[symmetric])
  then have "(\<Sum>tx \<leftarrow> ax_transactions ax. unat (at_spent tx)) = unat (ai_total_sent ai)"
    using filed_sum[OF agree(3)] agree(2) by simp
  with ax agree show ?thesis by (intro exI[of _ ax] conjI) (auto simp: filed_def tx_ok_def)
qed

theorem txs_agree_with_info_witness:
  "\<exists>ai ax. demo_info = Inr ai \<and>
     get_address_txs log_lmdb demo_group demo_scan_crypto 2000 (Inl Runtime_error) demo_credentials demo_spent = Inr ax \<and>
     ai_spent_outputs ai \<noteq> [] \<and> (\<Sum>tx \<leftarrow> ax_transactions ax. mset (at_spends tx)) = mset (ai_spent_outputs ai)"
proof -
  obtain ai where ai: "demo_info = Inr ai" "ai_spent_outputs ai \<noteq> []" by (rule demo_infoE)
  from txs_agree_with_info[OF log.lmdb_store_axioms ai(1)[unfolded demo_info_def]] ai show ?thesis by blast
qed

end
