(* ===== verification/MultisigStore.thy ===== *)
theory MultisigStore
  imports Prelude "HOL-Library.AList"
begin

text \<open>
  The store of multisig addresses and wallets, \<open>src/src/db/multisig_store.cpp\<close>: registered
  transactions with their sum per address, registered wallets, and the JSON file they are kept in.

  The file is the object that its text holds; what reading adds to that are the limits on the
  number of elements. A failed write leaves any content behind, because the file is truncated
  before it is written. The map of addresses is an association list in the order of insertion; its
  order only shows in the file and is lost on reading.
\<close>

section \<open>Records\<close>

record multisig_tx_record =
  mt_tx_hash :: string
  mt_amount :: u64
  mt_timestamp :: u64
  mt_context :: string

record multisig_wallet_record =
  mw_wallet_id :: string
  mw_address :: string
  mw_context :: string
  mw_threshold :: u32
  mw_total :: u32
  mw_participants :: "string list"
  mw_status :: string
  mw_created_at :: u64

record multisig_address_data =
  ma_address :: string
  ma_transactions :: "multisig_tx_record list"
  ma_total_locked :: u64
  ma_primary_context :: string

record multisig_snapshot =
  sn_addresses :: "multisig_address_data list"
  sn_wallets :: "multisig_wallet_record list"

datatype json_file = No_file | Unreadable | Stored multisig_snapshot

record multisig_store =
  ms_data :: "(string \<times> multisig_address_data) list"
  ms_wallets :: "multisig_wallet_record list"
  ms_file :: json_file

datatype register_tx_result = Inserted | Updated | Duplicate | Invalid_input | Overflow | Io_error

section \<open>The file\<close>

datatype io = Io_ok | Io_fail json_file

definition save_locked :: "io \<Rightarrow> multisig_store \<Rightarrow> bool \<times> multisig_store" where
  "save_locked io st =
     (case io of
        Io_ok \<Rightarrow> (True, st\<lparr>ms_file := Stored \<lparr>sn_addresses = map snd (ms_data st), sn_wallets = ms_wallets st\<rparr>\<rparr>)
      | Io_fail file \<Rightarrow> (False, st\<lparr>ms_file := file\<rparr>))"

definition within_limits_v1 :: "multisig_snapshot \<Rightarrow> bool" where
  "within_limits_v1 sn \<longleftrightarrow> length (sn_addresses sn) \<le> 16 \<and> (\<forall>a \<in> set (sn_addresses sn). length (ma_transactions a) \<le> 32)"

definition within_limits_v2 :: "multisig_snapshot \<Rightarrow> bool" where
  "within_limits_v2 sn \<longleftrightarrow> within_limits_v1 sn \<and> length (sn_wallets sn) \<le> 64 \<and>
     (\<forall>w \<in> set (sn_wallets sn). length (mw_participants w) \<le> 8)"

text \<open>\<open>emplace\<close> keeps the first element of a key.\<close>

definition emplace_address :: "multisig_address_data \<Rightarrow> (string \<times> multisig_address_data) list \<Rightarrow>
    (string \<times> multisig_address_data) list" where
  "emplace_address addr data = (if map_of data (ma_address addr) = None then data @ [(ma_address addr, addr)] else data)"

text \<open>
  The newer format is tried first; the older one, which skips the wallets, is the fallback.
  \<open>None\<close>: an exception, which leaves the constructor and with it the server.
\<close>

definition load_locked :: "multisig_store \<Rightarrow> multisig_store option" where
  "load_locked st =
     (case ms_file st of
        No_file \<Rightarrow> Some st
      | Unreadable \<Rightarrow> None
      | Stored sn \<Rightarrow>
          if within_limits_v2 sn
          then Some (st\<lparr>ms_data := fold emplace_address (sn_addresses sn) [], ms_wallets := sn_wallets sn\<rparr>)
          else if within_limits_v1 sn
          then Some (st\<lparr>ms_data := fold emplace_address (sn_addresses sn) [], ms_wallets := []\<rparr>)
          else None)"

definition new_multisig_store :: "json_file \<Rightarrow> multisig_store option" where
  "new_multisig_store file = load_locked \<lparr>ms_data = [], ms_wallets = [], ms_file = file\<rparr>"

section \<open>Operations\<close>

definition empty_slot :: multisig_address_data where
  "empty_slot = \<lparr>ma_address = [], ma_transactions = [], ma_total_locked = 0, ma_primary_context = []\<rparr>"

definition slot_of :: "string \<Rightarrow> multisig_store \<Rightarrow> multisig_address_data" where
  "slot_of address st =
     (let slot = (case map_of (ms_data st) address of None \<Rightarrow> empty_slot | Some slot \<Rightarrow> slot) in
      if ma_address slot = [] then slot\<lparr>ma_address := address\<rparr> else slot)"

definition add_locked :: "u64 \<Rightarrow> string \<Rightarrow> multisig_address_data \<Rightarrow> multisig_address_data" where
  "add_locked amount ctxt slot =
     slot\<lparr>ma_total_locked := ma_total_locked slot + amount,
       ma_primary_context := (if ma_primary_context slot = [] then ctxt else ma_primary_context slot)\<rparr>"

definition backfilled :: "u64 \<Rightarrow> string \<Rightarrow> multisig_tx_record \<Rightarrow> multisig_tx_record" where
  "backfilled amount ctxt tx =
     tx\<lparr>mt_amount := amount, mt_context := (if mt_context tx = [] then ctxt else mt_context tx)\<rparr>"

definition put_slot :: "string \<Rightarrow> multisig_address_data \<Rightarrow> multisig_store \<Rightarrow> multisig_store" where
  "put_slot address slot st = st\<lparr>ms_data := AList.update address slot (ms_data st)\<rparr>"

definition saved_result :: "register_tx_result \<Rightarrow> bool \<times> multisig_store \<Rightarrow> register_tx_result \<times> multisig_store" where
  "saved_result r saved = (if fst saved then r else Io_error, snd saved)"

fun find_tx :: "string \<Rightarrow> nat \<Rightarrow> multisig_tx_record list \<Rightarrow> nat option" where
  "find_tx tx_hash i [] = None"
| "find_tx tx_hash i (tx # txs) = (if mt_tx_hash tx = tx_hash then Some i else find_tx tx_hash (Suc i) txs)"

definition register_tx_ex :: "io \<Rightarrow> u64 \<Rightarrow> string \<Rightarrow> string \<Rightarrow> u64 \<Rightarrow> string \<Rightarrow> multisig_store \<Rightarrow>
    register_tx_result \<times> multisig_store" where
  "register_tx_ex io now address tx_hash amount ctxt st =
     (if address = [] \<or> tx_hash = [] then (Invalid_input, st)
      else
        let slot = slot_of address st; st = put_slot address slot st; txs = ma_transactions slot in
        case find_tx tx_hash 0 txs of
          Some i \<Rightarrow>
            if mt_amount (txs ! i) = 0 \<and> 0 < amount then
              if -1 - ma_total_locked slot < amount then (Overflow, st)
              else saved_result Updated (save_locked io (put_slot address
                (add_locked amount ctxt (slot\<lparr>ma_transactions := txs[i := backfilled amount ctxt (txs ! i)]\<rparr>)) st))
            else (Duplicate, st)
        | None \<Rightarrow>
            if -1 - ma_total_locked slot < amount then (Overflow, st)
            else saved_result Inserted (save_locked io (put_slot address
              (add_locked amount ctxt (slot\<lparr>ma_transactions := txs @
                [\<lparr>mt_tx_hash = tx_hash, mt_amount = amount, mt_timestamp = now, mt_context = ctxt\<rparr>]\<rparr>)) st)))"

fun put_wallet :: "multisig_wallet_record \<Rightarrow> multisig_wallet_record list \<Rightarrow> multisig_wallet_record list" where
  "put_wallet wallet [] = [wallet]"
| "put_wallet wallet (existing # wallets) =
     (if mw_wallet_id existing = mw_wallet_id wallet then wallet # wallets else existing # put_wallet wallet wallets)"

definition register_wallet :: "io \<Rightarrow> multisig_wallet_record \<Rightarrow> multisig_store \<Rightarrow> bool \<times> multisig_store" where
  "register_wallet io wallet st =
     (if mw_wallet_id wallet = [] \<or> mw_address wallet = [] then (False, st)
      else save_locked io (st\<lparr>ms_wallets := put_wallet wallet (ms_wallets st)\<rparr>))"

definition get_multisig_balance :: "string \<Rightarrow> multisig_store \<Rightarrow> multisig_address_data" where
  "get_multisig_balance address st =
     (case map_of (ms_data st) address of
        None \<Rightarrow> \<lparr>ma_address = address, ma_transactions = [], ma_total_locked = 0, ma_primary_context = []\<rparr>
      | Some slot \<Rightarrow> slot)"

definition get_multisig_transactions :: "string \<Rightarrow> multisig_store \<Rightarrow> multisig_tx_record list" where
  "get_multisig_transactions address st =
     (case map_of (ms_data st) address of None \<Rightarrow> [] | Some slot \<Rightarrow> ma_transactions slot)"

section \<open>What the store keeps true\<close>

text \<open>
  An address holds each transaction once, its total is the sum of their amounts (as numbers, so
  nothing has wrapped), and it is filed under its own name.
\<close>

definition slot_ok :: "string \<Rightarrow> multisig_address_data \<Rightarrow> bool" where
  "slot_ok address slot \<longleftrightarrow> ma_address slot = address \<and> address \<noteq> [] \<and> distinct (map mt_tx_hash (ma_transactions slot)) \<and>
     unat (ma_total_locked slot) = (\<Sum>tx \<leftarrow> ma_transactions slot. unat (mt_amount tx))"

definition store_ok :: "multisig_store \<Rightarrow> bool" where
  "store_ok st \<longleftrightarrow> distinct (map fst (ms_data st)) \<and> (\<forall>(address, slot) \<in> set (ms_data st). slot_ok address slot) \<and>
     distinct (map mw_wallet_id (ms_wallets st)) \<and> (\<forall>w \<in> set (ms_wallets st). mw_wallet_id w \<noteq> [] \<and> mw_address w \<noteq> [])"

lemma find_tx_None: "find_tx h n txs = None \<longleftrightarrow> h \<notin> mt_tx_hash ` set txs"
  by (induction h n txs rule: find_tx.induct) auto

lemma find_tx_Some: "find_tx h n txs = Some i \<Longrightarrow> n \<le> i \<and> i - n < length txs \<and> mt_tx_hash (txs ! (i - n)) = h"
  by (induction h n txs rule: find_tx.induct) (auto split: if_splits simp: nth_Cons' Suc_diff_le)

lemma slot_ok_slot_of:
  assumes "store_ok st" "address \<noteq> []"
  shows "slot_ok address (slot_of address st)"
proof (cases "map_of (ms_data st) address")
  case None
  with assms(2) show ?thesis by (simp add: slot_of_def empty_slot_def slot_ok_def)
next
  case (Some slot)
  then have "slot_ok address slot" using assms(1) map_of_SomeD[OF Some] by (auto simp: store_ok_def)
  with Some show ?thesis by (simp add: slot_of_def slot_ok_def)
qed

lemma set_update_AList: "distinct (map fst xs) \<Longrightarrow> set (AList.update k v xs) = insert (k, v) {x \<in> set xs. fst x \<noteq> k}"
  by (induction xs) force+

lemma store_ok_put_slot: "store_ok st \<Longrightarrow> slot_ok address slot \<Longrightarrow> store_ok (put_slot address slot st)"
  by (auto simp: store_ok_def put_slot_def distinct_update set_update_AList)

lemma store_ok_save: "store_ok st \<Longrightarrow> store_ok (snd (save_locked io st))"
  by (simp add: store_ok_def save_locked_def split: io.splits)

lemma sum_list_map_update:
  "i < length xs \<Longrightarrow> f (xs ! i) = (0 :: nat) \<Longrightarrow> (\<Sum>x \<leftarrow> xs[i := y]. f x) = (\<Sum>x \<leftarrow> xs. f x) + f y"
proof (induction xs arbitrary: i)
  case (Cons x xs)
  then show ?case by (cases i) auto
qed simp

lemma slot_ok_insert:
  assumes "slot_ok address slot" "tx_hash \<notin> mt_tx_hash ` set (ma_transactions slot)" "\<not> -1 - ma_total_locked slot < amount"
  shows "slot_ok address (add_locked amount ctxt (slot\<lparr>ma_transactions := ma_transactions slot @
    [\<lparr>mt_tx_hash = tx_hash, mt_amount = amount, mt_timestamp = now, mt_context = ctxt\<rparr>]\<rparr>))"
  using assms(1,2) unat_no_wrap[OF assms(3)] by (auto simp: slot_ok_def add_locked_def)

lemma slot_ok_backfill:
  assumes "slot_ok address slot" "i < length (ma_transactions slot)" "mt_amount (ma_transactions slot ! i) = 0"
    and "\<not> -1 - ma_total_locked slot < amount"
  shows "slot_ok address (add_locked amount ctxt (slot\<lparr>ma_transactions :=
    (ma_transactions slot)[i := backfilled amount ctxt (ma_transactions slot ! i)]\<rparr>))"
proof -
  have "mt_tx_hash (backfilled amount ctxt (ma_transactions slot ! i)) = mt_tx_hash (ma_transactions slot ! i)"
    "mt_amount (backfilled amount ctxt (ma_transactions slot ! i)) = amount" by (simp_all add: backfilled_def)
  moreover have "map mt_tx_hash ((ma_transactions slot)[i := backfilled amount ctxt (ma_transactions slot ! i)]) = map mt_tx_hash (ma_transactions slot)"
    by (simp add: map_update calculation) (metis assms(2) list_update_id nth_map)
  ultimately show ?thesis
    using assms(1,2,3) unat_no_wrap[OF assms(4)] sum_list_map_update[of i "ma_transactions slot" "\<lambda>tx. unat (mt_amount tx)"]
    by (simp add: slot_ok_def add_locked_def)
qed

lemma store_ok_register_tx:
  assumes "store_ok st"
  shows "store_ok (snd (register_tx_ex io now address tx_hash amount ctxt st))"
proof (cases "address = [] \<or> tx_hash = []")
  case True
  with assms show ?thesis by (simp add: register_tx_ex_def)
next
  case False
  then have s: "slot_ok address (slot_of address st)" using slot_ok_slot_of[OF assms] by simp
  then have p: "store_ok (put_slot address (slot_of address st) st)" by (rule store_ok_put_slot[OF assms])
  have keep: "store_ok (snd (saved_result r (save_locked io (put_slot address slot (put_slot address (slot_of address st) st)))))"
    if "slot_ok address slot" for r slot
    unfolding saved_result_def by (simp add: store_ok_save store_ok_put_slot[OF p that])
  show ?thesis
  proof (cases "find_tx tx_hash 0 (ma_transactions (slot_of address st))")
    case None
    then show ?thesis using False p keep slot_ok_insert[OF s] None[unfolded find_tx_None] by (simp add: register_tx_ex_def Let_def)
  next
    case (Some i)
    then show ?thesis using False p keep slot_ok_backfill[OF s] find_tx_Some[OF Some] by (simp add: register_tx_ex_def Let_def)
  qed
qed

lemma put_wallet_ids:
  "mw_wallet_id ` set (put_wallet w ws) = insert (mw_wallet_id w) (mw_wallet_id ` set ws)"
  "distinct (map mw_wallet_id ws) \<Longrightarrow> distinct (map mw_wallet_id (put_wallet w ws))"
  "set (put_wallet w ws) \<subseteq> insert w (set ws)"
  by (induction ws) auto

lemma store_ok_register_wallet: "store_ok st \<Longrightarrow> store_ok (snd (register_wallet io wallet st))"
  using put_wallet_ids[where w = wallet and ws = "ms_wallets st"]
  by (auto simp: register_wallet_def store_ok_def save_locked_def split: io.splits)

text \<open>The steps of a running server.\<close>

inductive store_run :: "multisig_store \<Rightarrow> multisig_store \<Rightarrow> bool" for start where
  start: "store_run start start"
| tx: "store_run start st \<Longrightarrow> store_run start (snd (register_tx_ex io now address tx_hash amount ctxt st))"
| wallet: "store_run start st \<Longrightarrow> store_run start (snd (register_wallet io w st))"

lemma store_run_ok: "store_run start st \<Longrightarrow> store_ok start \<Longrightarrow> store_ok st"
  by (induction rule: store_run.induct) (auto intro: store_ok_register_tx store_ok_register_wallet)

section \<open>Reading back\<close>

lemma fold_emplace:
  "\<forall>(address, slot) \<in> set xs. ma_address slot = address \<Longrightarrow> distinct (map fst xs) \<Longrightarrow> fst ` set xs \<inter> fst ` set acc = {} \<Longrightarrow>
     fold emplace_address (map snd xs) acc = acc @ xs"
proof (induction xs arbitrary: acc)
  case (Cons x xs)
  obtain address slot where x: "x = (address, slot)" by (cases x)
  have "map_of acc address = None" using Cons.prems(3) by (auto simp: x map_of_eq_None_iff)
  moreover have "ma_address slot = address" using Cons.prems(1) by (simp add: x)
  ultimately have "emplace_address slot acc = acc @ [x]" by (simp add: emplace_address_def x)
  with Cons.IH[of "acc @ [x]"] Cons.prems show ?case by (auto simp: x)
qed simp

lemma load_saved:
  assumes "store_ok st" "save_locked Io_ok st = (True, st')"
  shows "new_multisig_store (ms_file st') =
    (if \<not> (length (ms_data st) \<le> 16 \<and> (\<forall>(address, slot) \<in> set (ms_data st). length (ma_transactions slot) \<le> 32)) then None
     else if length (ms_wallets st) \<le> 64 \<and> (\<forall>w \<in> set (ms_wallets st). length (mw_participants w) \<le> 8) then Some st'
     else Some (st'\<lparr>ms_wallets := []\<rparr>))"
proof -
  let ?sn = "\<lparr>sn_addresses = map snd (ms_data st), sn_wallets = ms_wallets st\<rparr>"
  have st': "st' = st\<lparr>ms_file := Stored ?sn\<rparr>" using assms(2) by (simp add: save_locked_def)
  have "fold emplace_address (map snd (ms_data st)) [] = ms_data st"
    using fold_emplace[of "ms_data st" "[]"] assms(1) by (auto simp: store_ok_def slot_ok_def)
  moreover have "within_limits_v1 ?sn \<longleftrightarrow> length (ms_data st) \<le> 16 \<and> (\<forall>(address, slot) \<in> set (ms_data st). length (ma_transactions slot) \<le> 32)"
    by (auto simp: within_limits_v1_def)
  ultimately show ?thesis
    by (simp add: new_multisig_store_def load_locked_def st' within_limits_v2_def)
qed

section \<open>A store that has outgrown its file\<close>

definition empty_store :: multisig_store where
  "empty_store = \<lparr>ms_data = [], ms_wallets = [], ms_file = No_file\<rparr>"

definition demo_wallet :: multisig_wallet_record where
  "demo_wallet =
     \<lparr>mw_wallet_id = ''w1'', mw_address = ''a1'', mw_context = ''task_payment'', mw_threshold = 2, mw_total = 3,
      mw_participants = [''user'', ''oracle'', ''pool''], mw_status = ''active'', mw_created_at = 7\<rparr>"

definition nth_tx :: "nat \<Rightarrow> multisig_tx_record" where
  "nth_tx i = \<lparr>mt_tx_hash = replicate (Suc i) CHR ''x'', mt_amount = 0, mt_timestamp = 0, mt_context = []\<rparr>"

text \<open>The store after transactions were registered for one address, each of them saved.\<close>

fun filled_store :: "nat \<Rightarrow> multisig_store" where
  "filled_store 0 = empty_store"
| "filled_store (Suc n) = snd (register_tx_ex Io_ok 0 ''w'' (mt_tx_hash (nth_tx n)) 0 [] (filled_store n))"

definition filled_slot :: "nat \<Rightarrow> multisig_address_data" where
  "filled_slot n = \<lparr>ma_address = ''w'', ma_transactions = map nth_tx [0..<n], ma_total_locked = 0, ma_primary_context = []\<rparr>"

lemma store_ok_empty: "store_ok empty_store"
  by (simp add: store_ok_def empty_store_def)

lemma filled_store_run: "store_run empty_store (filled_store n)"
  by (induction n) (auto intro: store_run.start store_run.tx)

lemma filled_store_data:
  "ms_data (filled_store (Suc n)) = [(''w'', filled_slot (Suc n))] \<and>
     ms_file (filled_store (Suc n)) = Stored \<lparr>sn_addresses = [filled_slot (Suc n)], sn_wallets = ms_wallets (filled_store (Suc n))\<rparr>"
proof (induction n)
  case 0
  show ?case
    by (simp add: register_tx_ex_def Let_def slot_of_def empty_store_def empty_slot_def put_slot_def saved_result_def
        save_locked_def add_locked_def filled_slot_def nth_tx_def)
next
  case (Suc n)
  define st where "st = filled_store (Suc n)"
  have data: "ms_data st = [(''w'', filled_slot (Suc n))]" using Suc by (simp only: st_def)
  have slot: "slot_of ''w'' st = filled_slot (Suc n)" by (simp add: slot_of_def data filled_slot_def)
  have "mt_tx_hash (nth_tx (Suc n)) \<notin> mt_tx_hash ` set (ma_transactions (filled_slot (Suc n)))"
    by (auto simp: filled_slot_def nth_tx_def dest: arg_cong[where f = length])
  then have new: "find_tx (mt_tx_hash (nth_tx (Suc n))) 0 (ma_transactions (filled_slot (Suc n))) = None" by (rule find_tx_None[THEN iffD2])
  have "filled_store (Suc (Suc n)) = snd (register_tx_ex Io_ok 0 ''w'' (mt_tx_hash (nth_tx (Suc n))) 0 [] st)" by (simp add: st_def)
  also have "\<dots> = snd (save_locked Io_ok (put_slot ''w'' (filled_slot (Suc (Suc n))) st))"
    using new by (simp add: register_tx_ex_def Let_def slot put_slot_def data saved_result_def add_locked_def nth_tx_def)
      (simp add: filled_slot_def nth_tx_def put_slot_def)
  finally show ?case by (simp add: save_locked_def put_slot_def data)
qed

section \<open>Properties\<close>

text \<open>
  C25: Whatever is registered and whichever writes of the file fail, the total of an address is the
  sum of the amounts of its transactions, without wrap-around, and no transaction is registered
  twice.
\<close>

theorem store_totals:
  assumes "store_run start st" and "store_ok start"
  shows "unat (ma_total_locked (get_multisig_balance address st)) =
      (\<Sum>tx \<leftarrow> get_multisig_transactions address st. unat (mt_amount tx)) \<and>
    distinct (map mt_tx_hash (get_multisig_transactions address st)) \<and>
    ma_address (get_multisig_balance address st) = address"
proof (cases "map_of (ms_data st) address")
  case None
  then show ?thesis by (simp add: get_multisig_balance_def get_multisig_transactions_def)
next
  case (Some slot)
  then have "slot_ok address slot" using store_run_ok[OF assms] map_of_SomeD[OF Some] by (auto simp: store_ok_def)
  with Some show ?thesis by (simp add: get_multisig_balance_def get_multisig_transactions_def slot_ok_def)
qed

theorem store_totals_witness:
  "let st = snd (register_tx_ex Io_ok 9 ''a'' ''t'' 40 [] (snd (register_tx_ex Io_ok 8 ''a'' ''t'' 0 [] empty_store))) in
     unat (ma_total_locked (get_multisig_balance ''a'' st)) = 40"
proof -
  define st where "st = snd (register_tx_ex Io_ok 9 ''a'' ''t'' 40 [] (snd (register_tx_ex Io_ok 8 ''a'' ''t'' 0 [] empty_store)))"
  have "store_run empty_store st" unfolding st_def by (intro store_run.intros)
  from store_totals[OF this store_ok_empty, of "''a''"]
  have "unat (ma_total_locked (get_multisig_balance ''a'' st)) = (\<Sum>tx \<leftarrow> get_multisig_transactions ''a'' st. unat (mt_amount tx))" by simp
  moreover have "map mt_amount (get_multisig_transactions ''a'' st) = [40]"
    by (simp add: st_def register_tx_ex_def Let_def slot_of_def empty_store_def empty_slot_def put_slot_def saved_result_def
        save_locked_def add_locked_def backfilled_def get_multisig_transactions_def)
  ultimately show ?thesis by (auto simp: st_def Let_def map_eq_Cons_conv)
qed

text \<open>
  C26: A saved store is read back as it is as long as it keeps to the limits of the file, which
  registering does not check. With more than 64 wallets, or a wallet with more than 8
  participants, all wallets are lost on a restart; with more than 16 addresses, or an address with
  more than 32 transactions, the server does not start any more. That state can be reached.
\<close>

theorem store_reads_back:
  "(store_ok st \<longrightarrow> save_locked Io_ok st = (True, st') \<longrightarrow>
     new_multisig_store (ms_file st') =
       (if \<not> (length (ms_data st) \<le> 16 \<and> (\<forall>(address, slot) \<in> set (ms_data st). length (ma_transactions slot) \<le> 32)) then None
        else if length (ms_wallets st) \<le> 64 \<and> (\<forall>w \<in> set (ms_wallets st). length (mw_participants w) \<le> 8) then Some st'
        else Some (st'\<lparr>ms_wallets := []\<rparr>))) \<and>
   (\<exists>full. store_run empty_store full \<and> ms_file full \<noteq> Unreadable \<and> new_multisig_store (ms_file full) = None)"
proof (intro conjI impI)
  show "\<exists>full. store_run empty_store full \<and> ms_file full \<noteq> Unreadable \<and> new_multisig_store (ms_file full) = None"
  proof (intro exI conjI)
    let ?full = "filled_store (Suc 32)"
    have stored: "ms_file ?full = Stored \<lparr>sn_addresses = [filled_slot (Suc 32)], sn_wallets = ms_wallets ?full\<rparr>"
      using filled_store_data by blast
    have "length (ma_transactions (filled_slot (Suc 32))) = 33" unfolding filled_slot_def by simp
    then show "new_multisig_store (ms_file ?full) = None"
      unfolding stored by (simp add: new_multisig_store_def load_locked_def within_limits_v2_def within_limits_v1_def del: filled_store.simps)
    show "ms_file ?full \<noteq> Unreadable" unfolding stored by simp
  qed (rule filled_store_run)
qed (rule load_saved)

theorem store_reads_back_witness:
  "let st = empty_store\<lparr>ms_wallets := [demo_wallet]\<rparr>; st' = snd (save_locked Io_ok st) in
     new_multisig_store (ms_file st') = Some st' \<and>
     new_multisig_store (ms_file (snd (save_locked Io_ok (empty_store\<lparr>ms_wallets := [demo_wallet\<lparr>mw_participants := replicate 9 ''p''\<rparr>]\<rparr>)))) =
       Some ((snd (save_locked Io_ok (empty_store\<lparr>ms_wallets := [demo_wallet\<lparr>mw_participants := replicate 9 ''p''\<rparr>]\<rparr>)))\<lparr>ms_wallets := []\<rparr>)"
proof -
  have s: "save_locked Io_ok st = (True, snd (save_locked Io_ok st))" for st by (simp add: save_locked_def)
  have ok: "store_ok (empty_store\<lparr>ms_wallets := [demo_wallet]\<rparr>)"
    "store_ok (empty_store\<lparr>ms_wallets := [demo_wallet\<lparr>mw_participants := replicate 9 ''p''\<rparr>]\<rparr>)"
    by (simp_all add: store_ok_def empty_store_def demo_wallet_def)
  show ?thesis
    unfolding Let_def
    using store_reads_back[THEN conjunct1, THEN mp, THEN mp, OF ok(1) s] store_reads_back[THEN conjunct1, THEN mp, THEN mp, OF ok(2) s]
    by (simp add: empty_store_def demo_wallet_def)
qed

end
