(* ===== verification/Kex.thy ===== *)
theory Kex
  imports MultisigStore "HOL-Library.List_Lexorder" "HOL-Library.Char_ord"
begin

text \<open>
  The registry of multisig key exchanges, \<open>src/src/rest_server.cpp\<close>: participants submit their
  part in rounds, ask for the status, and finalize the wallet, which is then registered in the
  store of wallets. The registry is kept in a JSON file that is replaced as a whole.

  The clock, the tokens of the internal participants (from the environment), the check of
  addresses and whether writing the file succeeds are arguments. The unordered maps are
  association lists; their order is one that the implementation may have. Requests hold a mutex,
  so they are steps.
\<close>

section \<open>Records\<close>

record kex_peer =
  kp_participant :: string
  kp_multisig_info :: string
  kp_round :: u32
  kp_updated_at :: u64

record kex_record =
  kr_wallet_id :: string
  kr_context :: string
  kr_threshold :: u32
  kr_total :: u32
  kr_participants :: "string list"
  kr_peers :: "(string \<times> kex_peer) list"
  kr_address :: string
  kr_state :: string
  kr_created_at :: u64
  kr_updated_at :: u64

record kex_record_snapshot =
  ks_wallet_id :: string
  ks_context :: string
  ks_threshold :: u32
  ks_total :: u32
  ks_participants :: "string list"
  ks_peers :: "kex_peer list"
  ks_address :: string
  ks_state :: string
  ks_created_at :: u64
  ks_updated_at :: u64

type_synonym kex_records = "(string \<times> kex_record) list"

record kex_registry =
  kx_records :: kex_records
  kx_file :: "kex_record_snapshot list option"

definition kex_max_entries :: nat where
  "kex_max_entries = 128"

definition kex_ttl_seconds :: u64 where
  "kex_ttl_seconds = 60 * 60"

section \<open>The file\<close>

definition snapshot_record :: "kex_record \<Rightarrow> kex_record_snapshot" where
  "snapshot_record r =
     \<lparr>ks_wallet_id = kr_wallet_id r, ks_context = kr_context r, ks_threshold = kr_threshold r, ks_total = kr_total r,
      ks_participants = kr_participants r, ks_peers = map snd (kr_peers r), ks_address = kr_address r,
      ks_state = kr_state r, ks_created_at = kr_created_at r, ks_updated_at = kr_updated_at r\<rparr>"

definition snapshot_kex :: "kex_records \<Rightarrow> kex_record_snapshot list" where
  "snapshot_kex records = map (\<lambda>entry. snapshot_record (snd entry)) records"

definition save_kex :: "bool \<Rightarrow> kex_registry \<Rightarrow> kex_registry" where
  "save_kex ok w = (if ok then w\<lparr>kx_file := Some (snapshot_kex (kx_records w))\<rparr> else w)"

definition kex_within_limits :: "kex_record_snapshot list \<Rightarrow> bool" where
  "kex_within_limits rs \<longleftrightarrow> length rs \<le> 256 \<and> (\<forall>r \<in> set rs. length (ks_participants r) \<le> 8 \<and> length (ks_peers r) \<le> 8)"

definition load_peer :: "kex_peer \<Rightarrow> (string \<times> kex_peer) list \<Rightarrow> (string \<times> kex_peer) list" where
  "load_peer peer peers = (if kp_participant peer = [] then peers else AList.update (kp_participant peer) peer peers)"

definition load_record :: "kex_record_snapshot \<Rightarrow> kex_records \<Rightarrow> kex_records" where
  "load_record item records =
     (if ks_wallet_id item = [] then records
      else AList.update (ks_wallet_id item)
        \<lparr>kr_wallet_id = ks_wallet_id item, kr_context = ks_context item, kr_threshold = ks_threshold item, kr_total = ks_total item,
         kr_participants = ks_participants item, kr_peers = fold load_peer (ks_peers item) [], kr_address = ks_address item,
         kr_state = ks_state item, kr_created_at = ks_created_at item, kr_updated_at = ks_updated_at item\<rparr> records)"

text \<open>A file that cannot be read is ignored.\<close>

definition load_kex :: "kex_registry \<Rightarrow> kex_registry" where
  "load_kex w =
     (case kx_file w of
        None \<Rightarrow> w
      | Some snapshot \<Rightarrow>
          if kex_within_limits snapshot then w\<lparr>kx_records := fold load_record snapshot []\<rparr> else w)"

section \<open>Pruning\<close>

definition kex_unix_seconds :: "u64 \<Rightarrow> u64" where
  "kex_unix_seconds timestamp = (if 100000000000 < timestamp then timestamp div 1000 else timestamp)"

definition kept_state :: "kex_record \<Rightarrow> bool" where
  "kept_state r \<longleftrightarrow> kr_state r = ''active'' \<or> kr_state r = ''finalized''"

definition kex_is_expired :: "kex_record \<Rightarrow> u64 \<Rightarrow> bool" where
  "kex_is_expired r now \<longleftrightarrow> \<not> kept_state r \<and>
     (let last_seen = max (kex_unix_seconds (kr_created_at r)) (kex_unix_seconds (kr_updated_at r)) in
      last_seen = 0 \<or> last_seen + kex_ttl_seconds < now)"

definition older :: "string \<times> kex_record \<Rightarrow> (string \<times> kex_record) option \<Rightarrow> (string \<times> kex_record) option" where
  "older entry oldest =
     (if kept_state (snd entry) then oldest
      else case oldest of
        None \<Rightarrow> Some entry
      | Some old \<Rightarrow> if kr_updated_at (snd entry) < kr_updated_at (snd old) then Some entry else oldest)"

definition oldest_kex :: "kex_records \<Rightarrow> (string \<times> kex_record) option" where
  "oldest_kex records = fold older records None"

lemma fold_older_in: "fold older records acc = Some entry \<Longrightarrow> acc = Some entry \<or> entry \<in> set records \<and> \<not> kept_state (snd entry)"
proof (induction records arbitrary: acc)
  case (Cons x records)
  then have "older x acc = Some entry \<or> entry \<in> set records \<and> \<not> kept_state (snd entry)" by simp
  then show ?case by (auto simp: older_def split: if_splits option.splits)
qed simp

lemma oldest_kex_in: "oldest_kex records = Some entry \<Longrightarrow> entry \<in> set records \<and> \<not> kept_state (snd entry)"
  using fold_older_in[of records None entry] by (simp add: oldest_kex_def)

lemma older_None: "older x acc = None \<longleftrightarrow> kept_state (snd x) \<and> acc = None"
  by (cases acc) (simp_all add: older_def)

lemma fold_older_None: "fold older records acc = None \<longleftrightarrow> acc = None \<and> (\<forall>x \<in> set records. kept_state (snd x))"
  by (induction records arbitrary: acc) (auto simp: older_None)

lemma length_delete_less: "k \<in> fst ` set xs \<Longrightarrow> length (AList.delete k xs) < length xs"
  by (induction xs) (auto simp: AList.delete_eq intro: le_imp_less_Suc)

function evict_kex :: "kex_records \<Rightarrow> kex_records" where
  "evict_kex records =
     (if kex_max_entries \<le> length records
      then case oldest_kex records of
        None \<Rightarrow> records
      | Some oldest \<Rightarrow> evict_kex (AList.delete (fst oldest) records)
      else records)"
  by pat_completeness auto
termination
  by (relation "measure length") (auto intro!: length_delete_less dest: oldest_kex_in)

declare evict_kex.simps [simp del]

definition prune_kex_records :: "u64 \<Rightarrow> kex_records \<Rightarrow> kex_records" where
  "prune_kex_records now records =
     (let records = filter (\<lambda>entry. \<not> kex_is_expired (snd entry) now) records in
      if kex_ttl_seconds < now then evict_kex records else records)"

text \<open>The result of saving is ignored.\<close>

definition prune_kex :: "bool \<Rightarrow> u64 \<Rightarrow> kex_registry \<Rightarrow> kex_registry" where
  "prune_kex save_ok now w =
     (let records = prune_kex_records now (kx_records w) in
      if records \<noteq> kx_records w then save_kex save_ok (w\<lparr>kx_records := records\<rparr>) else w)"

section \<open>Submitting\<close>

definition is_internal_participant :: "string \<Rightarrow> bool" where
  "is_internal_participant participant \<longleftrightarrow> participant = ''oracle'' \<or> participant = ''dao'' \<or> participant = ''pool''"

text \<open>The environment gives the token of an internal participant, empty when it is not set.\<close>

definition has_valid_participant_auth :: "(string \<Rightarrow> string) \<Rightarrow> string \<Rightarrow> string \<Rightarrow> bool" where
  "has_valid_participant_auth tokens participant auth_token \<longleftrightarrow>
     (is_internal_participant participant \<longrightarrow> tokens participant \<noteq> [] \<and> auth_token = tokens participant)"

definition participants_for_kex :: "string \<Rightarrow> string \<Rightarrow> string list" where
  "participants_for_kex ctxt participant =
     (if ctxt = ''task_payment'' then [participant, ''oracle'', ''pool''] else [participant, ''oracle'', ''dao''])"

definition peer_infos_for_round :: "kex_record \<Rightarrow> string \<Rightarrow> u32 \<Rightarrow> string list" where
  "peer_infos_for_round r participant round =
     map (\<lambda>peer. kp_multisig_info (snd peer))
       (filter (\<lambda>peer. \<not> (fst peer = participant \<or> kp_round (snd peer) \<noteq> round \<or> kp_multisig_info (snd peer) = [])) (kr_peers r))"

record kex_submit_request =
  ku_wallet_id :: string
  ku_context :: string
  ku_participant :: string
  ku_multisig_info :: string
  ku_round :: u32
  ku_threshold :: u32
  ku_total :: u32
  ku_created_at :: u64
  ku_auth_token :: string

record kex_response =
  kq_success :: bool
  kq_wallet_id :: string
  kq_state :: string
  kq_threshold :: u32
  kq_total :: u32
  kq_participants :: "string list"
  kq_peer_multisig_info :: "string list"
  kq_message :: string
  kq_created_at :: u64

definition new_kex_record :: "u64 \<Rightarrow> string \<Rightarrow> kex_submit_request \<Rightarrow> kex_record" where
  "new_kex_record now wallet_id req =
     \<lparr>kr_wallet_id = wallet_id, kr_context = ku_context req, kr_threshold = ku_threshold req, kr_total = ku_total req,
      kr_participants = participants_for_kex (ku_context req) (ku_participant req), kr_peers = [], kr_address = [],
      kr_state = ''pending_peers'', kr_created_at = (if ku_created_at req = 0 then now * 1000 else ku_created_at req),
      kr_updated_at = 0\<rparr>"

text \<open>The record after the part of the participant was taken.\<close>

definition submitted_record :: "u64 \<Rightarrow> kex_submit_request \<Rightarrow> kex_record \<Rightarrow> kex_record" where
  "submitted_record now req r =
     (let round = (if ku_round req = 0 then 1 else ku_round req);
          r = r\<lparr>kr_threshold := ku_threshold req, kr_total := ku_total req, kr_updated_at := now,
            kr_participants := (if ku_participant req \<in> set (kr_participants r) then kr_participants r
              else kr_participants r @ [ku_participant req]),
            kr_peers := AList.update (ku_participant req)
              \<lparr>kp_participant = ku_participant req, kp_multisig_info = ku_multisig_info req, kp_round = round, kp_updated_at = now\<rparr>
              (kr_peers r)\<rparr>;
          required_peer_count = (if kr_total r \<le> 1 then 0 else unat (kr_total r - 1)) in
      if kr_state r \<noteq> ''active'' then
        r\<lparr>kr_state := (if required_peer_count \<le> length (peer_infos_for_round r (ku_participant req) round)
          then ''ready_to_make'' else ''pending_peers'')\<rparr>
      else r)"

definition kex_failed :: "string \<Rightarrow> u32 \<Rightarrow> u32 \<Rightarrow> string list \<Rightarrow> string \<Rightarrow> u64 \<Rightarrow> kex_response" where
  "kex_failed wallet_id threshold tot participants message created_at =
     \<lparr>kq_success = False, kq_wallet_id = wallet_id, kq_state = ''failed'', kq_threshold = threshold, kq_total = tot,
      kq_participants = participants, kq_peer_multisig_info = [], kq_message = message, kq_created_at = created_at\<rparr>"

definition kex_refusal :: "(string \<Rightarrow> string) \<Rightarrow> kex_submit_request \<Rightarrow> string option" where
  "kex_refusal tokens req =
     (if ku_context req = [] \<or> ku_participant req = [] \<or> ku_multisig_info req = [] then
        Some ''context, participant and multisig_info are required''
      else if ku_threshold req = 0 \<or> ku_total req = 0 \<or> ku_total req < ku_threshold req \<or> 8 < ku_total req then
        Some ''invalid multisig threshold/total''
      else if \<not> has_valid_participant_auth tokens (ku_participant req) (ku_auth_token req) then
        Some ''unauthorized KEX participant submit''
      else None)"

definition kex_wallet_id :: "kex_submit_request \<Rightarrow> string" where
  "kex_wallet_id req = (if ku_wallet_id req = [] then ku_context req @ '':'' @ ku_participant req else ku_wallet_id req)"

text \<open>Storing the part: without success in saving, the registry is put back.\<close>

definition kex_store :: "u64 \<Rightarrow> bool \<Rightarrow> kex_submit_request \<Rightarrow> kex_record \<Rightarrow> kex_registry \<Rightarrow> kex_response \<times> kex_registry" where
  "kex_store now save_ok req r w =
     (let wallet_id = kex_wallet_id req;
          round = (if ku_round req = 0 then 1 else ku_round req);
          r = submitted_record now req r;
          records = AList.update wallet_id r (kx_records w) in
      if \<not> save_ok then
        (kex_failed wallet_id (kr_threshold r) (kr_total r) (kr_participants r)
           ''failed to persist LWS multisig KEX registry'' (kr_created_at r),
         w\<lparr>kx_records := (case map_of (kx_records w) wallet_id of
             Some previous \<Rightarrow> AList.update wallet_id previous records
           | None \<Rightarrow> AList.delete wallet_id records)\<rparr>)
      else
        (\<lparr>kq_success = True, kq_wallet_id = wallet_id, kq_state = kr_state r, kq_threshold = kr_threshold r,
          kq_total = kr_total r, kq_participants = kr_participants r,
          kq_peer_multisig_info = peer_infos_for_round r (ku_participant req) round,
          kq_message = (if kr_state r = ''ready_to_make'' then ''LWS KEX peer info is ready for local WASM multisig make/exchange''
            else ''LWS KEX peer info stored; waiting for remaining participants''),
          kq_created_at = kr_created_at r\<rparr>,
         save_kex True (w\<lparr>kx_records := records\<rparr>)))"

definition kex_submit :: "(string \<Rightarrow> string) \<Rightarrow> u64 \<Rightarrow> bool \<Rightarrow> bool \<Rightarrow> kex_submit_request \<Rightarrow> kex_registry \<Rightarrow> kex_response \<times> kex_registry" where
  "kex_submit tokens now prune_ok save_ok req w =
     (case kex_refusal tokens req of
        Some message \<Rightarrow> (kex_failed (ku_wallet_id req) (ku_threshold req) (ku_total req) [] message (ku_created_at req), w)
      | None \<Rightarrow>
          let wallet_id = kex_wallet_id req; w = prune_kex prune_ok now w in
          if map_of (kx_records w) wallet_id = None \<and> kex_max_entries \<le> length (kx_records w) then
            (kex_failed wallet_id (ku_threshold req) (ku_total req) []
              ''LWS multisig KEX registry capacity reached'' (ku_created_at req), w)
          else
            let r = (case map_of (kx_records w) wallet_id of None \<Rightarrow> new_kex_record now wallet_id req | Some r \<Rightarrow> r) in
            if kr_context r \<noteq> ku_context req then
              (kex_failed wallet_id (kr_threshold r) (kr_total r) (kr_participants r)
                ''wallet_id already exists with a different context'' (kr_created_at r), w)
            else kex_store now save_ok req r w)"

text \<open>
  A record that is in the map without a wallet id would be filled in like a new one; records are
  only stored with their id.
\<close>

section \<open>Status\<close>

definition submitted_participants :: "kex_record \<Rightarrow> string list" where
  "submitted_participants r = sort (map fst (filter (\<lambda>peer. kp_multisig_info (snd peer) \<noteq> []) (kr_peers r)))"

definition missing_participants :: "kex_record \<Rightarrow> string list" where
  "missing_participants r =
     filter (\<lambda>p. case map_of (kr_peers r) p of None \<Rightarrow> True | Some peer \<Rightarrow> kp_multisig_info peer = []) (kr_participants r)"

definition max_round_for_kex :: "kex_record \<Rightarrow> u32" where
  "max_round_for_kex r = fold (\<lambda>peer round. max round (kp_round (snd peer))) (kr_peers r) 0"

record kex_status_response =
  kt_success :: bool
  kt_wallet_id :: string
  kt_context :: string
  kt_state :: string
  kt_threshold :: u32
  kt_total :: u32
  kt_participants :: "string list"
  kt_submitted :: "string list"
  kt_missing :: "string list"
  kt_round :: u32
  kt_address :: string
  kt_message :: string
  kt_created_at :: u64
  kt_updated_at :: u64

definition status_failed :: "string \<Rightarrow> string \<Rightarrow> string \<Rightarrow> string \<Rightarrow> kex_status_response" where
  "status_failed wallet_id ctxt state message =
     \<lparr>kt_success = False, kt_wallet_id = wallet_id, kt_context = ctxt, kt_state = state, kt_threshold = 0, kt_total = 0,
      kt_participants = [], kt_submitted = [], kt_missing = [], kt_round = 0, kt_address = [], kt_message = message,
      kt_created_at = 0, kt_updated_at = 0\<rparr>"

definition kex_status :: "u64 \<Rightarrow> bool \<Rightarrow> string \<Rightarrow> string \<Rightarrow> kex_registry \<Rightarrow> kex_status_response \<times> kex_registry" where
  "kex_status now prune_ok wallet_id ctxt w =
     (if wallet_id = [] then (status_failed wallet_id ctxt ''failed'' ''wallet_id is required'', w)
      else
        let w = prune_kex prune_ok now w in
        case map_of (kx_records w) wallet_id of
          None \<Rightarrow> (status_failed wallet_id ctxt ''not_found'' ''wallet_id is not registered in LWS KEX registry'', w)
        | Some r \<Rightarrow>
            if ctxt \<noteq> [] \<and> kr_context r \<noteq> ctxt then
              ((status_failed wallet_id ctxt ''failed'' ''wallet_id exists with a different context'')
                 \<lparr>kt_threshold := kr_threshold r, kt_total := kr_total r, kt_participants := kr_participants r,
                  kt_round := max_round_for_kex r, kt_address := kr_address r, kt_created_at := kr_created_at r,
                  kt_updated_at := kr_updated_at r\<rparr>, w)
            else
              (\<lparr>kt_success = True, kt_wallet_id = kr_wallet_id r, kt_context = kr_context r, kt_state = kr_state r,
                kt_threshold = kr_threshold r, kt_total = kr_total r, kt_participants = kr_participants r,
                kt_submitted = submitted_participants r, kt_missing = missing_participants r, kt_round = max_round_for_kex r,
                kt_address = kr_address r, kt_message = ''LWS KEX status loaded'', kt_created_at = kr_created_at r,
                kt_updated_at = kr_updated_at r\<rparr>, w))"

section \<open>Finalizing\<close>

definition kex_finalize :: "(string \<Rightarrow> bool) \<Rightarrow> u64 \<Rightarrow> bool \<Rightarrow> bool \<Rightarrow> io \<Rightarrow> string \<Rightarrow> string \<Rightarrow> string \<Rightarrow> string \<Rightarrow>
    kex_registry \<Rightarrow> multisig_store \<Rightarrow> (bool \<times> string) \<times> kex_registry \<times> multisig_store" where
  "kex_finalize valid_address now save_ok undo_ok io wallet_id address ctxt status w st =
     (if wallet_id = [] \<or> address = [] then ((False, ''wallet_id and address are required''), w, st)
      else if \<not> valid_address address then ((False, ''Invalid multisig address''), w, st)
      else case map_of (kx_records w) wallet_id of
        None \<Rightarrow> ((False, ''wallet_id is not registered in LWS KEX registry''), w, st)
      | Some previous \<Rightarrow>
          let state = (if status = [] then ''active'' else status);
              r = previous\<lparr>kr_address := address, kr_state := state, kr_updated_at := now\<rparr>;
              changed = w\<lparr>kx_records := AList.update wallet_id r (kx_records w)\<rparr> in
          if \<not> save_ok then
            ((False, ''Failed to persist finalized KEX registry state''),
             changed\<lparr>kx_records := AList.update wallet_id previous (kx_records changed)\<rparr>, st)
          else
            let w = save_kex True changed;
                wallet = \<lparr>mw_wallet_id = kr_wallet_id r, mw_address = address,
                  mw_context = (if ctxt = [] then kr_context r else ctxt), mw_threshold = kr_threshold r, mw_total = kr_total r,
                  mw_participants = kr_participants r, mw_status = state, mw_created_at = kr_created_at r\<rparr>;
                (registered, st) = register_wallet io wallet st in
            if \<not> registered then
              ((False, ''Failed to register finalized KEX wallet''),
               save_kex undo_ok (w\<lparr>kx_records := AList.update wallet_id previous (kx_records w)\<rparr>), st)
            else ((True, ''KEX wallet finalized and registered successfully''), w, st))"

section \<open>What pruning does\<close>

lemma evict_kex_facts:
  "set (evict_kex records) \<subseteq> set records" (is ?sub)
  "distinct (map fst records) \<Longrightarrow> distinct (map fst (evict_kex records))" (is "_ \<Longrightarrow> ?dist")
  "length (evict_kex records) \<le> length records" (is ?len)
  "entry \<in> set records \<Longrightarrow> kept_state (snd entry) \<Longrightarrow> distinct (map fst records) \<Longrightarrow> entry \<in> set (evict_kex records)"
  "length (evict_kex records) < kex_max_entries \<or> (\<forall>entry \<in> set (evict_kex records). kept_state (snd entry))"
proof -
  have "set (evict_kex records) \<subseteq> set records \<and> (distinct (map fst records) \<longrightarrow> distinct (map fst (evict_kex records))) \<and>
    length (evict_kex records) \<le> length records \<and>
    (\<forall>entry \<in> set records. kept_state (snd entry) \<longrightarrow> distinct (map fst records) \<longrightarrow> entry \<in> set (evict_kex records)) \<and>
    (length (evict_kex records) < kex_max_entries \<or> (\<forall>entry \<in> set (evict_kex records). kept_state (snd entry)))"
  proof (induction records rule: evict_kex.induct)
    case (1 records)
    show ?case
    proof (cases "kex_max_entries \<le> length records")
      case False
      then have "evict_kex records = records" by (simp add: evict_kex.simps[of records])
      with False show ?thesis by simp
    next
      case full: True
      show ?thesis
      proof (cases "oldest_kex records")
        case None
        have "kept_state (snd entry)" if "entry \<in> set records" for entry
          using None that by (simp add: oldest_kex_def fold_older_None)
        moreover have "evict_kex records = records" using full None by (simp add: evict_kex.simps[of records])
        ultimately show ?thesis by simp
      next
        case (Some old)
        let ?rest = "AList.delete (fst old) records"
        have step: "evict_kex records = evict_kex ?rest" using full Some by (simp add: evict_kex.simps[of records])
        note IH = "1.IH"[OF full Some]
        have sub: "set ?rest \<subseteq> set records" by (auto simp: AList.delete_eq)
        have dist: "distinct (map fst records) \<longrightarrow> distinct (map fst ?rest)" by (simp add: distinct_delete)
        have len: "length ?rest \<le> length records" by (simp add: AList.delete_eq)
        have kept: "entry \<in> set ?rest" if "entry \<in> set records" "kept_state (snd entry)" "distinct (map fst records)" for entry
        proof -
          have "fst entry \<noteq> fst old"
            using oldest_kex_in[OF Some] that eq_key_imp_eq_value[OF that(3), of "fst entry" "snd entry" "snd old"] by (metis prod.collapse)
          with that(1) show ?thesis by (auto simp: AList.delete_eq)
        qed
        show ?thesis unfolding step
        proof (intro conjI)
          show "set (evict_kex ?rest) \<subseteq> set records" using IH sub by blast
          show "distinct (map fst records) \<longrightarrow> distinct (map fst (evict_kex ?rest))" using IH dist by blast
          show "length (evict_kex ?rest) \<le> length records" using IH len by linarith
          show "\<forall>entry \<in> set records. kept_state (snd entry) \<longrightarrow> distinct (map fst records) \<longrightarrow> entry \<in> set (evict_kex ?rest)"
            using IH kept dist by blast
        qed (use IH in blast)
      qed
    qed
  qed
  then show ?sub "distinct (map fst records) \<Longrightarrow> ?dist" ?len
    "entry \<in> set records \<Longrightarrow> kept_state (snd entry) \<Longrightarrow> distinct (map fst records) \<Longrightarrow> entry \<in> set (evict_kex records)"
    "length (evict_kex records) < kex_max_entries \<or> (\<forall>entry \<in> set (evict_kex records). kept_state (snd entry))" by blast+
qed

text \<open>Records are filed under their ids, and parts under their participants.\<close>

definition record_ok :: "string \<Rightarrow> kex_record \<Rightarrow> bool" where
  "record_ok k r \<longleftrightarrow> kr_wallet_id r = k \<and> k \<noteq> [] \<and> distinct (map fst (kr_peers r)) \<and>
     (\<forall>(p, peer) \<in> set (kr_peers r). kp_participant peer = p \<and> p \<noteq> [])"

definition records_ok :: "kex_records \<Rightarrow> bool" where
  "records_ok records \<longleftrightarrow> distinct (map fst records) \<and> length records \<le> kex_max_entries \<and> (\<forall>(k, r) \<in> set records. record_ok k r)"

lemma records_ok_prune:
  assumes "records_ok records"
  shows "records_ok (prune_kex_records now records)"
proof -
  let ?live = "filter (\<lambda>entry. \<not> kex_is_expired (snd entry) now) records"
  have d: "distinct (map fst ?live)" using assms by (simp add: records_ok_def distinct_map_filter)
  have l: "length ?live \<le> kex_max_entries" using assms length_filter_le by (metis le_trans records_ok_def)
  have "length (evict_kex ?live) \<le> kex_max_entries" using evict_kex_facts(3)[of ?live] l by (rule le_trans)
  then show ?thesis
    using assms d l evict_kex_facts(2)[OF d] evict_kex_facts(1)[of ?live]
    by (auto simp: records_ok_def prune_kex_records_def Let_def)
qed

lemma kx_records_save [simp]: "kx_records (save_kex ok w) = kx_records w"
  by (simp add: save_kex_def)

lemma kx_records_prune: "kx_records (prune_kex ok now w) = prune_kex_records now (kx_records w)"
  by (simp add: prune_kex_def Let_def)

lemma record_ok_new: "wallet_id \<noteq> [] \<Longrightarrow> record_ok wallet_id (new_kex_record now wallet_id req)"
  by (simp add: record_ok_def new_kex_record_def)

lemma set_update_subset: "set (AList.update k v xs) \<subseteq> insert (k, v) (set xs)"
  by (induction xs) auto

lemma record_ok_submitted:
  assumes "record_ok k r" "ku_participant req \<noteq> []"
  shows "record_ok k (submitted_record now req r)"
proof -
  let ?peer = "\<lparr>kp_participant = ku_participant req, kp_multisig_info = ku_multisig_info req,
    kp_round = (if ku_round req = 0 then 1 else ku_round req), kp_updated_at = now\<rparr>"
  let ?peers = "AList.update (ku_participant req) ?peer (kr_peers r)"
  have f: "kr_wallet_id (submitted_record now req r) = kr_wallet_id r" "kr_peers (submitted_record now req r) = ?peers"
    by (simp_all add: submitted_record_def Let_def)
  have peers: "kp_participant peer = p \<and> p \<noteq> []" if "(p, peer) \<in> set ?peers" for p peer
    using that subsetD[OF set_update_subset that] assms by (auto simp: record_ok_def)
  have "distinct (map fst ?peers)" using assms(1) by (simp add: record_ok_def distinct_update)
  moreover from peers have "\<forall>(p, peer) \<in> set ?peers. kp_participant peer = p \<and> p \<noteq> []" by blast
  moreover have "kr_wallet_id r = k" "k \<noteq> []" using assms(1) by (simp_all add: record_ok_def)
  ultimately show ?thesis unfolding record_ok_def f by simp
qed

lemma length_update_new: "map_of xs k = None \<Longrightarrow> length (AList.update k v xs) = Suc (length xs)"
  by (induction xs) (auto split: if_splits)

lemma length_update_old: "map_of xs k \<noteq> None \<Longrightarrow> length (AList.update k v xs) = length xs"
  by (induction xs) (auto split: if_splits)

lemma records_ok_update:
  assumes "records_ok records" "record_ok k r" "map_of records k = None \<longrightarrow> length records < kex_max_entries"
  shows "records_ok (AList.update k r records)"
proof -
  note set_update_subset[of k r records]
  moreover have "length (AList.update k r records) \<le> kex_max_entries"
    using assms by (cases "map_of records k") (auto simp: length_update_new length_update_old records_ok_def)
  ultimately show ?thesis using assms by (fastforce simp: records_ok_def distinct_update)
qed

lemma update_same: "map_of xs k = Some v \<Longrightarrow> AList.update k v xs = xs"
  by (induction xs) (auto split: if_splits)

lemma delete_undo: "map_of xs k = None \<Longrightarrow> AList.delete k (AList.update k v xs) = xs"
proof (induction xs)
  case Nil
  show ?case by (simp add: AList.delete_eq)
next
  case (Cons x xs)
  then have "fst x \<noteq> k" "map_of xs k = None" by (cases x, auto split: if_splits)+
  with Cons.IH show ?case by (cases x) (simp add: AList.delete_eq)
qed

text \<open>One request to submit, told by what it answers.\<close>

lemma kex_submit_cases:
  assumes "kex_submit tokens now prune_ok save_ok req w = (resp, w')"
  obtains (failed) "\<not> kq_success resp" "w' = w \<or> w' = prune_kex prune_ok now w"
  | (taken) wallet_id r where "kq_success resp" "kq_wallet_id resp = wallet_id" "wallet_id \<noteq> []"
    "has_valid_participant_auth tokens (ku_participant req) (ku_auth_token req)" "ku_participant req \<noteq> []"
    "map_of (prune_kex_records now (kx_records w)) wallet_id = None \<longrightarrow> length (prune_kex_records now (kx_records w)) < kex_max_entries"
    "r = (case map_of (prune_kex_records now (kx_records w)) wallet_id of None \<Rightarrow> new_kex_record now wallet_id req | Some r \<Rightarrow> r)"
    "kr_context r = ku_context req"
    "w' = save_kex True ((prune_kex prune_ok now w)\<lparr>kx_records :=
      AList.update wallet_id (submitted_record now req r) (prune_kex_records now (kx_records w))\<rparr>)"
proof -
  let ?p = "prune_kex prune_ok now w" and ?rs = "prune_kex_records now (kx_records w)" and ?wid = "kex_wallet_id req"
  let ?r = "case map_of ?rs ?wid of None \<Rightarrow> new_kex_record now ?wid req | Some r \<Rightarrow> r"
  have rs: "kx_records ?p = ?rs" by (rule kx_records_prune)
  show thesis
  proof (cases "kex_refusal tokens req")
    case (Some message)
    with assms(1) have "\<not> kq_success resp" "w' = w" by (auto simp: kex_submit_def kex_failed_def)
    then show thesis by (intro failed) simp_all
  next
    case None
    then have ok: "has_valid_participant_auth tokens (ku_participant req) (ku_auth_token req)" "ku_participant req \<noteq> []" "?wid \<noteq> []"
      by (auto simp: kex_refusal_def kex_wallet_id_def split: if_splits)
    show thesis
    proof (cases "map_of ?rs ?wid = None \<and> kex_max_entries \<le> length ?rs \<or> kr_context ?r \<noteq> ku_context req")
      case True
      with assms(1) None have "\<not> kq_success resp" "w' = ?p"
        by (auto simp: kex_submit_def Let_def rs kex_failed_def split: if_splits)
      then show thesis by (intro failed) simp_all
    next
      case False
      then have c: "kr_context ?r = ku_context req" by blast
      have c2: "map_of ?rs ?wid = None \<longrightarrow> length ?rs < kex_max_entries" using False not_le by blast
      have store: "kex_store now save_ok req ?r ?p = (resp, w')"
      proof -
        have n: "\<not> (map_of ?rs ?wid = None \<and> kex_max_entries \<le> length ?rs)" "\<not> kr_context ?r \<noteq> ku_context req" using False by blast+
        show ?thesis using assms(1) by (simp only: kex_submit_def None option.case Let_def rs if_not_P[OF n(1)] if_not_P[OF n(2)])
      qed
      show thesis
      proof (cases save_ok)
        case True
        with store have "kq_success resp" "kq_wallet_id resp = ?wid"
          "w' = save_kex True (?p\<lparr>kx_records := AList.update ?wid (submitted_record now req ?r) ?rs\<rparr>)"
          by (auto simp: kex_store_def Let_def rs)
        then show thesis using ok c c2 by (intro taken[of ?wid ?r]) simp_all
      next
        case unsaved: False
        with store have "\<not> kq_success resp" "w' = ?p\<lparr>kx_records := (case map_of ?rs ?wid of
             Some previous \<Rightarrow> AList.update ?wid previous (AList.update ?wid (submitted_record now req ?r) ?rs)
           | None \<Rightarrow> AList.delete ?wid (AList.update ?wid (submitted_record now req ?r) ?rs))\<rparr>"
          by (auto simp: kex_store_def kex_failed_def Let_def rs)
        moreover have "(case map_of ?rs ?wid of
             Some previous \<Rightarrow> AList.update ?wid previous (AList.update ?wid (submitted_record now req ?r) ?rs)
           | None \<Rightarrow> AList.delete ?wid (AList.update ?wid (submitted_record now req ?r) ?rs)) = ?rs"
          by (cases "map_of ?rs ?wid") (simp_all add: delete_undo update_same)
        ultimately have "w' = ?p" using rs by (metis (no_types, lifting) kex_registry.surjective kex_registry.update_convs(1) kex_registry.select_convs(1))
        with \<open>\<not> kq_success resp\<close> show thesis by (intro failed) simp_all
      qed
    qed
  qed
qed

section \<open>Reading back\<close>

lemma update_new: "map_of xs k = None \<Longrightarrow> AList.update k v xs = xs @ [(k, v)]"
  by (induction xs) (auto split: if_splits)

lemma fold_load_peer:
  "\<forall>(p, peer) \<in> set xs. kp_participant peer = p \<and> p \<noteq> [] \<Longrightarrow> distinct (map fst xs) \<Longrightarrow> fst ` set xs \<inter> fst ` set acc = {} \<Longrightarrow>
     fold load_peer (map snd xs) acc = acc @ xs"
proof (induction xs arbitrary: acc)
  case (Cons x xs)
  obtain p peer where x: "x = (p, peer)" by (cases x)
  have "map_of acc p = None" using Cons.prems(3) by (auto simp: x map_of_eq_None_iff)
  moreover have "kp_participant peer = p" "p \<noteq> []" using Cons.prems(1) by (simp_all add: x)
  ultimately have "load_peer peer acc = acc @ [x]" by (simp add: load_peer_def update_new x)
  with Cons.IH[of "acc @ [x]"] Cons.prems show ?case by (auto simp: x)
qed simp

lemma fold_load_record:
  "\<forall>(k, r) \<in> set xs. record_ok k r \<Longrightarrow> distinct (map fst xs) \<Longrightarrow> fst ` set xs \<inter> fst ` set acc = {} \<Longrightarrow>
     fold load_record (snapshot_kex xs) acc = acc @ xs"
proof (induction xs arbitrary: acc)
  case Nil
  show ?case by (simp add: snapshot_kex_def)
next
  case (Cons x xs)
  obtain k r where x: "x = (k, r)" by (cases x)
  have "map_of acc k = None" using Cons.prems(3) by (auto simp: x map_of_eq_None_iff)
  moreover have r: "record_ok k r" using Cons.prems(1) by (simp add: x)
  then have "fold load_peer (map snd (kr_peers r)) [] = kr_peers r"
    using fold_load_peer[of "kr_peers r" "[]"] by (simp add: record_ok_def)
  ultimately have "load_record (snapshot_record r) acc = acc @ [x]"
    using r by (simp add: load_record_def snapshot_record_def update_new x record_ok_def)
  with Cons.IH[of "acc @ [x]"] Cons.prems show ?case by (auto simp: x snapshot_kex_def)
qed

lemma load_saved_kex:
  assumes "records_ok records"
  shows "kx_records (load_kex \<lparr>kx_records = [], kx_file = Some (snapshot_kex records)\<rparr>) =
    (if \<forall>(k, r) \<in> set records. length (kr_participants r) \<le> 8 \<and> length (kr_peers r) \<le> 8 then records else [])"
proof -
  have "fold load_record (snapshot_kex records) [] = records"
    using fold_load_record[of records "[]"] assms by (simp add: records_ok_def)
  moreover have "length records \<le> 256" using assms by (simp add: records_ok_def kex_max_entries_def)
  then have "kex_within_limits (snapshot_kex records) \<longleftrightarrow>
      (\<forall>(k, r) \<in> set records. length (kr_participants r) \<le> 8 \<and> length (kr_peers r) \<le> 8)"
    by (auto simp: kex_within_limits_def snapshot_kex_def snapshot_record_def)
  ultimately show ?thesis by (simp add: load_kex_def)
qed

section \<open>A running server\<close>

definition kex_start :: "kex_record_snapshot list option \<Rightarrow> kex_registry" where
  "kex_start stored = load_kex \<lparr>kx_records = [], kx_file = stored\<rparr>"

inductive kex_run :: "kex_registry \<Rightarrow> bool" where
  first: "kex_run (kex_start None)"
| submit: "kex_run w \<Longrightarrow> kex_submit tokens now prune_ok save_ok req w = (resp, w') \<Longrightarrow> kex_run w'"
| status: "kex_run w \<Longrightarrow> kex_status now prune_ok wallet_id ctxt w = (answer, w') \<Longrightarrow> kex_run w'"
| finalize: "kex_run w \<Longrightarrow> kex_finalize valid_address now save_ok undo_ok io wallet_id address ctxt status w st = (result, w', st') \<Longrightarrow>
    kex_run w'"
| restart: "kex_run w \<Longrightarrow> kex_run (kex_start (kx_file w))"

definition kex_ok :: "kex_registry \<Rightarrow> bool" where
  "kex_ok w \<longleftrightarrow> records_ok (kx_records w) \<and>
     (case kx_file w of None \<Rightarrow> True | Some snapshot \<Rightarrow> \<exists>records. records_ok records \<and> snapshot = snapshot_kex records)"

lemma kex_ok_save: "kex_ok w \<Longrightarrow> kex_ok (save_kex ok w)"
  by (auto simp: kex_ok_def save_kex_def)

lemma kex_ok_records: "kex_ok w \<Longrightarrow> records_ok records \<Longrightarrow> kex_ok (w\<lparr>kx_records := records\<rparr>)"
  by (simp add: kex_ok_def)

lemma kex_ok_prune: "kex_ok w \<Longrightarrow> kex_ok (prune_kex ok now w)"
  by (auto simp: prune_kex_def Let_def intro!: kex_ok_save kex_ok_records records_ok_prune) (simp add: kex_ok_def)

lemma kex_ok_start: "kex_ok w \<Longrightarrow> kex_ok (kex_start (kx_file w))"
proof (cases "kx_file w")
  case None
  then show ?thesis by (simp add: kex_start_def load_kex_def kex_ok_def records_ok_def)
next
  case (Some snapshot)
  moreover assume "kex_ok w"
  ultimately obtain records where r: "records_ok records" "snapshot = snapshot_kex records" by (auto simp: kex_ok_def)
  have "records_ok []" by (simp add: records_ok_def)
  with load_saved_kex[OF r(1)] r have "records_ok (kx_records (kex_start (kx_file w)))" by (simp add: kex_start_def Some)
  moreover have "kx_file (kex_start (kx_file w)) = Some snapshot" by (simp add: kex_start_def load_kex_def Some)
  ultimately show ?thesis using r by (auto simp: kex_ok_def)
qed

lemma kex_ok_finalize:
  assumes "kex_finalize valid_address now save_ok undo_ok io wallet_id address ctxt status w st = (result, w', st')" "kex_ok w"
  shows "kex_ok w'"
proof (cases "map_of (kx_records w) wallet_id")
  case None
  with assms show ?thesis by (auto simp: kex_finalize_def split: if_splits)
next
  case (Some previous)
  let ?r = "previous\<lparr>kr_address := address, kr_state := (if status = [] then ''active'' else status), kr_updated_at := now\<rparr>"
  let ?changed = "w\<lparr>kx_records := AList.update wallet_id ?r (kx_records w)\<rparr>"
  have ok: "records_ok (kx_records w)" using assms(2) by (simp add: kex_ok_def)
  then have "record_ok wallet_id previous" using map_of_SomeD[OF Some] by (auto simp: records_ok_def)
  then have r: "record_ok wallet_id ?r" by (simp add: record_ok_def)
  have c: "kex_ok ?changed" using Some by (intro kex_ok_records[OF assms(2)] records_ok_update[OF ok r]) simp
  have undo: "AList.update wallet_id previous (kx_records ?changed) = kx_records w" using Some by (simp add: update_same)
  have "w' = w \<or> w' = ?changed\<lparr>kx_records := kx_records w\<rparr> \<or> w' = save_kex True ?changed \<or>
      w' = save_kex undo_ok ((save_kex True ?changed)\<lparr>kx_records := kx_records w\<rparr>)"
    using assms(1) Some undo by (auto simp: kex_finalize_def Let_def split: if_splits prod.splits)
  moreover have "kex_ok (?changed\<lparr>kx_records := kx_records w\<rparr>)" by (rule kex_ok_records[OF c ok])
  moreover have "kex_ok (save_kex True ?changed)" by (rule kex_ok_save[OF c])
  ultimately show ?thesis using assms(2) kex_ok_save[OF kex_ok_records[OF kex_ok_save[OF c] ok]] by blast
qed

lemma kex_run_ok: "kex_run w \<Longrightarrow> kex_ok w"
proof (induction rule: kex_run.induct)
  case first
  show ?case by (simp add: kex_start_def load_kex_def kex_ok_def records_ok_def)
next
  case (submit w tokens now prune_ok save_ok req resp w')
  from submit.hyps(2) show ?case
  proof (cases rule: kex_submit_cases)
    case failed
    with submit.IH kex_ok_prune show ?thesis by blast
  next
    case (taken wallet_id r)
    let ?p = "prune_kex_records now (kx_records w)"
    have ok: "records_ok ?p" using submit.IH by (simp add: kex_ok_def records_ok_prune)
    have "record_ok wallet_id r"
      using taken(3,7) ok by (auto simp: record_ok_new records_ok_def split: option.splits dest!: map_of_SomeD)
    then have "record_ok wallet_id (submitted_record now req r)" by (rule record_ok_submitted[OF _ taken(5)])
    from records_ok_update[OF ok this] taken(6,9) show ?thesis
      by (simp add: kex_ok_save kex_ok_records kex_ok_prune submit.IH)
  qed
next
  case (status w now prune_ok wallet_id ctxt answer w')
  then show ?case using kex_ok_prune by (auto simp: kex_status_def Let_def split: if_splits option.splits)
next
  case (finalize w valid_address now save_ok undo_ok io wallet_id address ctxt status st result w' st')
  then show ?case using kex_ok_finalize by blast
next
  case (restart w)
  then show ?case using kex_ok_start by blast
qed

section \<open>An exchange\<close>

definition demo_kex_request :: "string \<Rightarrow> kex_submit_request" where
  "demo_kex_request participant =
     \<lparr>ku_wallet_id = ''w'', ku_context = ''miner_stake'', ku_participant = participant, ku_multisig_info = ''i'', ku_round = 1,
      ku_threshold = 2, ku_total = 3, ku_created_at = 0, ku_auth_token = []\<rparr>"

definition demo_kex_submit :: "string \<Rightarrow> kex_registry \<Rightarrow> kex_registry" where
  "demo_kex_submit participant w = snd (kex_submit (\<lambda>p. []) 5000 True True (demo_kex_request participant) w)"

definition demo_kex :: kex_registry where
  "demo_kex = fold demo_kex_submit [''a'', ''b'', ''c'', ''d'', ''e'', ''f'', ''g''] (kex_start None)"

lemma kex_run_demo: "kex_run w \<Longrightarrow> kex_run (fold demo_kex_submit ps w)"
proof (induction ps arbitrary: w)
  case (Cons p ps)
  have "kex_run (demo_kex_submit p w)" unfolding demo_kex_submit_def by (rule kex_run.submit[OF Cons.prems, OF prod.collapse[symmetric]])
  with Cons.IH show ?case by simp
qed simp

lemma demo_kex_grown: "map (\<lambda>(k, r). (k, length (kr_participants r), length (kr_peers r))) (kx_records demo_kex) = [(''w'', 9, 7)]"
  by code_simp

lemma demo_kex_saved: "kx_file demo_kex = Some (snapshot_kex (kx_records demo_kex))"
  by code_simp

section \<open>Properties\<close>



text \<open>
  A part is either refused, and then the registry is as it was or only pruned, or it is stored
  for an authorized participant: in the registry and in the file, and nothing else changes.
\<close>

theorem kex_submit_all_or_nothing:
  "case kex_submit tokens now prune_ok save_ok req w of (resp, w') \<Rightarrow>
     if kq_success resp then
       has_valid_participant_auth tokens (ku_participant req) (ku_auth_token req) \<and>
       (\<exists>r. kr_context r = ku_context req \<and>
         r = (case map_of (prune_kex_records now (kx_records w)) (kq_wallet_id resp) of
                None \<Rightarrow> new_kex_record now (kq_wallet_id resp) req | Some r \<Rightarrow> r) \<and>
         kx_records w' = AList.update (kq_wallet_id resp) (submitted_record now req r) (prune_kex_records now (kx_records w)) \<and>
         kx_file w' = Some (snapshot_kex (kx_records w')))
     else kx_records w' \<in> {kx_records w, prune_kex_records now (kx_records w)} \<and>
       (kx_file w' = kx_file w \<or> kx_file w' = Some (snapshot_kex (kx_records w')))"
proof -
  obtain resp w' where run: "kex_submit tokens now prune_ok save_ok req w = (resp, w')" by fastforce
  from run show ?thesis
  proof (cases rule: kex_submit_cases)
    case failed
    have "kx_file (prune_kex prune_ok now w) = kx_file w \<or>
        kx_file (prune_kex prune_ok now w) = Some (snapshot_kex (kx_records (prune_kex prune_ok now w)))"
      by (simp add: prune_kex_def Let_def save_kex_def)
    with failed run show ?thesis by (auto simp: kx_records_prune)
  next
    case (taken wallet_id r)
    then show ?thesis using run by (auto simp: save_kex_def)
  qed
qed

text \<open>
  A saved registry is read back as it is, unless one record has more than 8 participants or
  parts, which submitting does not check: then the whole registry is gone after a restart. Seven
  requests without any token suffice.
\<close>

theorem kex_file_forgets:
  "(records_ok records \<longrightarrow>
     kx_records (kex_start (Some (snapshot_kex records))) =
       (if \<forall>(k, r) \<in> set records. length (kr_participants r) \<le> 8 \<and> length (kr_peers r) \<le> 8 then records else [])) \<and>
   (\<exists>w. kex_run w \<and> kx_records w \<noteq> [] \<and> kx_records (kex_start (kx_file w)) = [])"
proof (intro conjI impI exI)
  show run: "kex_run demo_kex" unfolding demo_kex_def by (rule kex_run_demo[OF kex_run.first])
  show "kx_records demo_kex \<noteq> []" using demo_kex_grown by auto
  have "records_ok (kx_records demo_kex)" using kex_run_ok[OF run] by (simp add: kex_ok_def)
  moreover have "\<not> (\<forall>(k, r) \<in> set (kx_records demo_kex). length (kr_participants r) \<le> 8 \<and> length (kr_peers r) \<le> 8)"
    using demo_kex_grown by (auto simp: map_eq_Cons_conv)
  ultimately show "kx_records (kex_start (kx_file demo_kex)) = []"
    unfolding demo_kex_saved kex_start_def by (simp only: load_saved_kex if_False)
qed (simp add: load_saved_kex kex_start_def)

theorem kex_file_forgets_witness:
  "kx_records (kex_start (Some (snapshot_kex [(''w'', new_kex_record 5000 ''w'' (demo_kex_request ''a''))]))) =
     [(''w'', new_kex_record 5000 ''w'' (demo_kex_request ''a''))]"
proof -
  have "records_ok [(''w'', new_kex_record 5000 ''w'' (demo_kex_request ''a''))]"
    by (simp add: records_ok_def record_ok_new kex_max_entries_def)
  from kex_file_forgets[THEN conjunct1, THEN mp, OF this] show ?thesis
    by (simp add: new_kex_record_def participants_for_kex_def demo_kex_request_def)
qed

text \<open>
  Asking for a status is not only reading: when the registry is full, it deletes records that are
  not expired and wait for participants; finished ones stay.
\<close>

theorem kex_status_deletes:
  assumes "wallet_id \<noteq> []" and "kex_ttl_seconds < now" and "kex_max_entries \<le> length (kx_records w)"
    and "distinct (map fst (kx_records w))"
    and "\<forall>entry \<in> set (kx_records w). \<not> kex_is_expired (snd entry) now" and "\<exists>entry \<in> set (kx_records w). \<not> kept_state (snd entry)"
  shows "length (kx_records (snd (kex_status now prune_ok wallet_id ctxt w))) < length (kx_records w) \<and>
    (\<forall>entry \<in> set (kx_records w). kept_state (snd entry) \<longrightarrow>
      entry \<in> set (kx_records (snd (kex_status now prune_ok wallet_id ctxt w))))"
proof -
  let ?rs = "kx_records w"
  have "snd (kex_status now prune_ok wallet_id ctxt w) = prune_kex prune_ok now w"
    using assms(1) by (auto simp: kex_status_def Let_def split: option.splits)
  moreover have "prune_kex_records now ?rs = evict_kex ?rs" using assms(2,5) by (simp add: prune_kex_records_def filter_id_conv)
  ultimately have pruned: "kx_records (snd (kex_status now prune_ok wallet_id ctxt w)) = evict_kex ?rs" by (simp add: kx_records_prune)
  have "evict_kex ?rs \<noteq> ?rs" using evict_kex_facts(5)[of ?rs] assms(3,6) by auto
  moreover have "length (evict_kex ?rs) < length ?rs"
  proof -
    obtain old where old: "oldest_kex ?rs = Some old"
      using assms(6) fold_older_None[of ?rs None] by (auto simp: oldest_kex_def)
    then have "evict_kex ?rs = evict_kex (AList.delete (fst old) ?rs)" using assms(3) by (subst evict_kex.simps) simp
    moreover have "length (AList.delete (fst old) ?rs) < length ?rs"
      using oldest_kex_in[OF old] by (intro length_delete_less) auto
    ultimately show ?thesis using evict_kex_facts(3)[of "AList.delete (fst old) ?rs"] by simp
  qed
  ultimately show ?thesis using evict_kex_facts(4)[OF _ _ assms(4)] unfolding pruned by blast
qed

theorem kex_status_deletes_witness:
  "let records = map (\<lambda>i. (replicate (Suc i) CHR ''x'', new_kex_record 5000 ''w'' (demo_kex_request ''a''))) [0..<128] in
     length (kx_records (snd (kex_status 5001 True ''w'' [] \<lparr>kx_records = records, kx_file = None\<rparr>))) < 128"
proof -
  let ?r = "new_kex_record 5000 ''w'' (demo_kex_request ''a'')"
  let ?w = "\<lparr>kx_records = map (\<lambda>i. (replicate (Suc i) CHR ''x'', ?r)) [0..<128], kx_file = None\<rparr>"
  have r: "\<not> kept_state ?r" "\<not> kex_is_expired ?r 5001"
    by (simp_all add: new_kex_record_def demo_kex_request_def kept_state_def kex_is_expired_def kex_unix_seconds_def kex_ttl_seconds_def Let_def)
  have "inj_on (\<lambda>i. replicate (Suc i) CHR ''x'') A" for A by (auto simp: inj_on_def dest: arg_cong[where f = length])
  then have d: "distinct (map fst (kx_records ?w))" by (simp add: distinct_map o_def del: replicate.simps)
  have "\<exists>entry \<in> set (kx_records ?w). \<not> kept_state (snd entry)" using r(1) by (simp, intro exI[of _ 0], simp)
  from kex_status_deletes[OF _ _ _ d _ this, of "''w''" 5001 True "[]"] r(2) show ?thesis
    by (auto simp: kex_ttl_seconds_def kex_max_entries_def Let_def)
qed

end
