(* ===== verification/RestMultisig.thy ===== *)
theory RestMultisig
  imports Kex RestAccount ScanTx
begin

text \<open>
  The REST handlers (\<open>src/src/rest_server.cpp\<close>) over the store of multisig addresses and over the
  registry of transaction sets for unstaking.

  The daemon, the hash of a text, the encodings of addresses, hashes and keys and the clock are
  arguments. The registry is an association list; every request locks it, so requests are steps.
\<close>

section \<open>The amount that a transaction pays to an address\<close>

text \<open>The parameters are the derivation from the transaction key and the key of an output under it.\<close>

record multisig_crypto =
  mx_derivation :: "public_key \<Rightarrow> secret_key \<Rightarrow> hash option"
  mx_derive_public :: "hash \<Rightarrow> nat \<Rightarrow> public_key \<Rightarrow> public_key option"

definition registered_output :: "scan_crypto \<Rightarrow> transaction \<Rightarrow> hash \<Rightarrow> nat \<Rightarrow> tx_out \<Rightarrow> error + u64" where
  "registered_output X tx derivation index out =
     (if out_amount out = 0 \<and> 1 < tx_version tx then
        if length (tx_out_pk tx) \<le> index \<or> length (tx_ecdh_info tx) \<le> index then Inl (Lws bad_daemon_response)
        else case decode_amount X (tx_out_pk tx ! index) (tx_ecdh_info tx ! index) derivation index
            (rct_bulletproof2 X \<le> tx_rct_type tx) of
          None \<Rightarrow> Inl (Lws bad_daemon_response)
        | Some (amount, blind) \<Rightarrow> Inr amount
      else Inr (out_amount out))"

fun registered_outputs :: "scan_crypto \<Rightarrow> multisig_crypto \<Rightarrow> account_address \<Rightarrow> transaction \<Rightarrow> hash \<Rightarrow> nat \<Rightarrow> tx_out list \<Rightarrow> u64 \<Rightarrow> bool \<Rightarrow>
    error + u64 \<times> bool" where
  "registered_outputs X M address tx derivation index [] tot matched = Inr (tot, matched)"
| "registered_outputs X M address tx derivation index (out # vout) tot matched =
     (case out_key out of
        None \<Rightarrow> registered_outputs X M address tx derivation (Suc index) vout tot matched
      | Some p \<Rightarrow>
          (case mx_derive_public M derivation index (spend_public address) of
             None \<Rightarrow> Inl (Lws crypto_failure)
           | Some expected \<Rightarrow>
               if expected \<noteq> p then registered_outputs X M address tx derivation (Suc index) vout tot matched
               else
                 check (registered_output X tx derivation index out) (\<lambda>amount.
                 if -1 - tot < amount then Inl (Lws bad_daemon_response)
                 else registered_outputs X M address tx derivation (Suc index) vout (tot + amount) True)))"

definition decode_registered_amount :: "scan_crypto \<Rightarrow> multisig_crypto \<Rightarrow> (hash \<Rightarrow> error + transaction) \<Rightarrow> account_address \<Rightarrow> hash \<Rightarrow> secret_key \<Rightarrow>
    error + u64" where
  "decode_registered_amount X M fetch address tx_hash tx_key =
     check (fetch tx_hash) (\<lambda>tx.
     case find_pub_key X (tx_extra tx) of
       None \<Rightarrow> Inl (Lws bad_daemon_response)
     | Some tx_pub \<Rightarrow>
         (case mx_derivation M (view_public address) tx_key of
            None \<Rightarrow> Inl (Lws crypto_failure)
          | Some derivation \<Rightarrow>
              check (registered_outputs X M address tx derivation 0 (tx_vout tx) 0 False) (\<lambda>(tot, matched).
                if \<not> matched then Inl (Lws not_enough_amount) else Inr tot)))"

section \<open>Handlers over the store\<close>

record encodings =
  parse_address :: "string \<Rightarrow> account_address option"
  address_text :: "account_address \<Rightarrow> string"
  parse_hash :: "string \<Rightarrow> hash option"
  hash_text :: "hash \<Rightarrow> string"
  parse_key :: "string \<Rightarrow> secret_key option"
  content_hash :: "string \<Rightarrow> string"

definition multisig_balance :: "encodings \<Rightarrow> string \<Rightarrow> multisig_store \<Rightarrow> error + string \<times> u64 \<times> u32 \<times> string" where
  "multisig_balance E address st =
     (case parse_address E address of
        None \<Rightarrow> Inl (Lws bad_address)
      | Some _ \<Rightarrow>
          let balance = get_multisig_balance address st in
          Inr (ma_address balance, ma_total_locked balance, of_nat (length (ma_transactions balance)), ma_primary_context balance))"

definition multisig_register :: "encodings \<Rightarrow> scan_crypto \<Rightarrow> multisig_crypto \<Rightarrow> (hash \<Rightarrow> error + transaction) \<Rightarrow> io \<Rightarrow> u64 \<Rightarrow>
    string \<Rightarrow> string \<Rightarrow> string \<Rightarrow> string \<Rightarrow> multisig_store \<Rightarrow> (bool \<times> string \<times> u64) \<times> multisig_store" where
  "multisig_register E X M fetch io now address tx_hash tx_key ctxt st =
     (case parse_address E address of
        None \<Rightarrow> ((False, ''Invalid multisig address'', 0), st)
      | Some parsed \<Rightarrow>
     case parse_hash E tx_hash of
        None \<Rightarrow> ((False, ''Invalid tx_hash format'', 0), st)
      | Some h \<Rightarrow>
     case parse_key E tx_key of
        None \<Rightarrow> ((False, ''Invalid tx_key format'', 0), st)
      | Some k \<Rightarrow>
     case decode_registered_amount X M fetch parsed h k of
        Inl e \<Rightarrow> ((False, ''Failed to decode registered amount'', 0), st)
      | Inr amount \<Rightarrow>
          if amount = 0 then ((False, ''Decoded amount is zero for target multisig address'', 0), st)
          else
            let (inserted, st) = register_tx_ex io now address (hash_text E h) amount ctxt st in
            (case inserted of
               Inserted \<Rightarrow> (True, ''Transaction registered successfully'', amount)
             | Updated \<Rightarrow> (True, ''Transaction amount backfilled successfully'', amount)
             | Duplicate \<Rightarrow> (True, ''Transaction already registered'', amount)
             | _ \<Rightarrow> (False, ''Failed to register transaction'', 0), st))"

definition multisig_txs :: "encodings \<Rightarrow> string \<Rightarrow> multisig_store \<Rightarrow> error + string \<times> multisig_tx_record list \<times> u64" where
  "multisig_txs E address st =
     (case parse_address E address of
        None \<Rightarrow> Inl (Lws bad_address)
      | Some _ \<Rightarrow> Inr (address, get_multisig_transactions address st, ma_total_locked (get_multisig_balance address st)))"

definition multisig_list_wallets :: "multisig_store \<Rightarrow> (multisig_wallet_record \<times> u64 \<times> u32) list" where
  "multisig_list_wallets st =
     map (\<lambda>w. let balance = get_multisig_balance (mw_address w) st in
       (w, ma_total_locked balance, of_nat (length (ma_transactions balance)))) (ms_wallets st)"

definition multisig_register_wallet :: "io \<Rightarrow> multisig_wallet_record \<Rightarrow> multisig_store \<Rightarrow> (bool \<times> string) \<times> multisig_store" where
  "multisig_register_wallet io w st =
     (if mw_wallet_id w = [] \<or> mw_address w = [] then ((False, ''wallet_id and address are required''), st)
      else
        let (registered, st) = register_wallet io w st in
        (if \<not> registered then (False, ''Failed to register wallet'') else (True, ''Wallet registered successfully''), st))"

section \<open>The registry of transaction sets\<close>

record unstake_txset =
  ut_owner_address :: string
  ut_wallet_id :: string
  ut_multisig_address :: string
  ut_txset_id :: string
  ut_tx_data_hash :: string
  ut_miner_address :: string
  ut_state :: string
  ut_collected :: u32
  ut_required :: u32
  ut_signed_hash :: string
  ut_submitted_hash :: string
  ut_created_at :: u64
  ut_updated_at :: u64

type_synonym txsets = "(string \<times> unstake_txset) list"

definition txsets_max_entries :: nat where
  "txsets_max_entries = 128"

definition txset_ttl_seconds :: u64 where
  "txset_ttl_seconds = 60 * 60"

definition is_hex_string :: "string \<Rightarrow> bool" where
  "is_hex_string value \<longleftrightarrow> value \<noteq> [] \<and> list_all (\<lambda>ch. ch \<in> set ''0123456789abcdefABCDEF'') value"

definition stable_txset_id :: "encodings \<Rightarrow> string \<Rightarrow> string \<Rightarrow> string \<Rightarrow> string" where
  "stable_txset_id E wallet_id multisig_address tx_data_hex =
     wallet_id @ '':'' @ multisig_address @ '':'' @ content_hash E tx_data_hex"

definition txset_is_expired :: "unstake_txset \<Rightarrow> u64 \<Rightarrow> bool" where
  "txset_is_expired r now \<longleftrightarrow>
     (let last_seen = max (ut_created_at r) (ut_updated_at r) in last_seen = 0 \<or> last_seen + txset_ttl_seconds < now)"

definition older_txset :: "string \<times> unstake_txset \<Rightarrow> (string \<times> unstake_txset) option \<Rightarrow> (string \<times> unstake_txset) option" where
  "older_txset entry oldest =
     (case oldest of
        None \<Rightarrow> Some entry
      | Some old \<Rightarrow> if ut_updated_at (snd entry) < ut_updated_at (snd old) then Some entry else oldest)"

definition oldest_txset :: "txsets \<Rightarrow> (string \<times> unstake_txset) option" where
  "oldest_txset records = fold older_txset records None"

lemma fold_older_txset_in: "fold older_txset records acc = Some entry \<Longrightarrow> acc = Some entry \<or> entry \<in> set records"
proof (induction records arbitrary: acc)
  case (Cons x records)
  then have "older_txset x acc = Some entry \<or> entry \<in> set records" by simp
  then show ?case by (auto simp: older_txset_def split: if_splits option.splits)
qed simp

lemma oldest_txset_in: "oldest_txset records = Some entry \<Longrightarrow> entry \<in> set records"
  using fold_older_txset_in[of records None entry] by (simp add: oldest_txset_def)

lemma fold_older_txset_None: "fold older_txset records acc = None \<longleftrightarrow> acc = None \<and> records = []"
  by (induction records arbitrary: acc) (auto simp: older_txset_def split: option.splits)

function evict_txsets :: "txsets \<Rightarrow> txsets" where
  "evict_txsets records =
     (if txsets_max_entries \<le> length records
      then case oldest_txset records of
        None \<Rightarrow> records
      | Some oldest \<Rightarrow> evict_txsets (AList.delete (fst oldest) records)
      else records)"
  by pat_completeness auto
termination
  by (relation "measure length") (auto intro!: length_delete_less dest: oldest_txset_in)

declare evict_txsets.simps [simp del]

definition prune_txsets :: "u64 \<Rightarrow> txsets \<Rightarrow> txsets" where
  "prune_txsets now records =
     (let records = filter (\<lambda>entry. \<not> txset_is_expired (snd entry) now) records in
      if txset_ttl_seconds < now then evict_txsets records else records)"

record txset_register_request =
  tr_creds :: account_credentials
  tr_wallet_id :: string
  tr_multisig_address :: string
  tr_tx_data_hex :: string
  tr_miner_address :: string
  tr_purpose :: string

definition register_refusal :: "encodings \<Rightarrow> txset_register_request \<Rightarrow> string option" where
  "register_refusal E req =
     (if parse_address E (tr_multisig_address req) = None then Some ''Invalid multisig_address''
      else if tr_wallet_id req = [] then Some ''wallet_id is required''
      else if tr_purpose req \<noteq> ''miner_unstake'' then Some ''Only miner_unstake txsets are supported''
      else if \<not> is_hex_string (tr_tx_data_hex req) \<or> length (tr_tx_data_hex req) \<le> 64 then
        Some ''tx_data_hex must be a non-empty hex txset, not a tx hash or placeholder''
      else if take 27 (tr_tx_data_hex req) = ''unsigned_emergency_unstake_'' \<or> take 5 (tr_tx_data_hex req) = ''mock_'' then
        Some ''mock or placeholder unstake txset is rejected''
      else if tr_miner_address req \<noteq> address_text E (cr_address (tr_creds req)) then
        Some ''miner_address must match authenticated wallet address''
      else None)"

definition new_txset :: "encodings \<Rightarrow> u64 \<Rightarrow> txset_register_request \<Rightarrow> unstake_txset" where
  "new_txset E now req =
     \<lparr>ut_owner_address = address_text E (cr_address (tr_creds req)), ut_wallet_id = tr_wallet_id req,
      ut_multisig_address = tr_multisig_address req,
      ut_txset_id = stable_txset_id E (tr_wallet_id req) (tr_multisig_address req) (tr_tx_data_hex req),
      ut_tx_data_hash = content_hash E (tr_tx_data_hex req), ut_miner_address = tr_miner_address req, ut_state = ''registered'',
      ut_collected = 0, ut_required = 2, ut_signed_hash = [], ut_submitted_hash = [], ut_created_at = now, ut_updated_at = 0\<rparr>"

definition txset_register :: "'t lmdb \<Rightarrow> crypto \<Rightarrow> encodings \<Rightarrow> u64 \<Rightarrow> txset_register_request \<Rightarrow> 't tables \<Rightarrow> txsets \<Rightarrow>
    (error + bool \<times> string \<times> string \<times> string) \<times> txsets" where
  "txset_register L C E now req s records =
     (case open_account L C (tr_creds req) s of
        Inl e \<Rightarrow> (Inl e, records)
      | Inr user \<Rightarrow>
     case register_refusal E req of
        Some message \<Rightarrow> (Inr (False, [], ''failed'', message), records)
      | None \<Rightarrow>
          let txset_id = stable_txset_id E (tr_wallet_id req) (tr_multisig_address req) (tr_tx_data_hex req);
              records = prune_txsets now records in
          if map_of records txset_id = None \<and> txsets_max_entries \<le> length records then
            (Inr (False, [], ''failed'', ''LWS unstake txset registry capacity reached''), records)
          else
            let r = (case map_of records txset_id of None \<Rightarrow> new_txset E now req | Some r \<Rightarrow> r);
                r = r\<lparr>ut_updated_at := now\<rparr> in
            (Inr (True, txset_id, ut_state r, []), AList.update txset_id r records))"

record txset_signature_request =
  tg_creds :: account_credentials
  tg_wallet_id :: string
  tg_txset_id :: string
  tg_multisig_address :: string
  tg_signer_address :: string
  tg_signer_role :: string
  tg_signed_hex :: string

record txset_signature_response =
  tz_success :: bool
  tz_txset_id :: string
  tz_state :: string
  tz_collected :: u32
  tz_required :: u32
  tz_submitted_hash :: string
  tz_error :: string

definition signature_failed :: "string \<Rightarrow> u32 \<Rightarrow> u32 \<Rightarrow> string \<Rightarrow> txset_signature_response" where
  "signature_failed txset_id collected required message =
     \<lparr>tz_success = False, tz_txset_id = txset_id, tz_state = ''failed'', tz_collected = collected, tz_required = required,
      tz_submitted_hash = [], tz_error = message\<rparr>"

definition signature_refusal :: "encodings \<Rightarrow> txset_signature_request \<Rightarrow> string option" where
  "signature_refusal E req =
     (if tg_wallet_id req = [] \<or> tg_multisig_address req = [] then Some ''wallet_id and multisig_address are required''
      else if tg_signer_role req \<noteq> ''miner'' then Some ''Only miner signatures are accepted from browser wallet''
      else if \<not> is_hex_string (tg_signed_hex req) \<or> length (tg_signed_hex req) \<le> 64 then
        Some ''signed_tx_data_hex must be a real hex txset''
      else if tg_signer_address req \<noteq> address_text E (cr_address (tg_creds req)) then
        Some ''signer_address must match authenticated wallet address''
      else None)"

text \<open>The clock is read twice.\<close>

definition txset_signature :: "'t lmdb \<Rightarrow> crypto \<Rightarrow> encodings \<Rightarrow> u64 \<Rightarrow> u64 \<Rightarrow> txset_signature_request \<Rightarrow> 't tables \<Rightarrow> txsets \<Rightarrow>
    (error + txset_signature_response) \<times> txsets" where
  "txset_signature L C E now later req s records =
     (case open_account L C (tg_creds req) s of
        Inl e \<Rightarrow> (Inl e, records)
      | Inr user \<Rightarrow>
     case signature_refusal E req of
        Some message \<Rightarrow> (Inr (signature_failed (tg_txset_id req) 0 2 message), records)
      | None \<Rightarrow>
          let records = prune_txsets now records in
          case map_of records (tg_txset_id req) of
            None \<Rightarrow> (Inr (signature_failed (tg_txset_id req) 0 2 ''txset_id is not registered''), records)
          | Some r \<Rightarrow>
              if ut_wallet_id r \<noteq> tg_wallet_id req \<or> ut_multisig_address r \<noteq> tg_multisig_address req then
                (Inr (signature_failed (tg_txset_id req) (ut_collected r) (ut_required r) ''txset metadata mismatch''), records)
              else if ut_owner_address r \<noteq> address_text E (cr_address (tg_creds req)) \<or> ut_miner_address r \<noteq> tg_signer_address req then
                (Inr (signature_failed (tg_txset_id req) (ut_collected r) (ut_required r)
                   ''signer does not match registered miner wallet''), records)
              else
                let r = r\<lparr>ut_signed_hash := content_hash E (tg_signed_hex req), ut_collected := max (ut_collected r) 1,
                      ut_state := ''needs_more_signatures'', ut_updated_at := later\<rparr> in
                (Inr \<lparr>tz_success = True, tz_txset_id = ut_txset_id r, tz_state = ut_state r, tz_collected = ut_collected r,
                   tz_required = ut_required r, tz_submitted_hash = ut_submitted_hash r, tz_error = []\<rparr>,
                 AList.update (tg_txset_id req) r records))"

definition txset_submit :: "'t lmdb \<Rightarrow> crypto \<Rightarrow> encodings \<Rightarrow> u64 \<Rightarrow> account_credentials \<Rightarrow> string \<Rightarrow> string \<Rightarrow> string \<Rightarrow> 't tables \<Rightarrow> txsets \<Rightarrow>
    (error + bool \<times> string \<times> string \<times> string) \<times> txsets" where
  "txset_submit L C E now creds wallet_id multisig_address txset_id s records =
     (case open_account L C creds s of
        Inl e \<Rightarrow> (Inl e, records)
      | Inr user \<Rightarrow>
          let records = prune_txsets now records in
          (Inr (case map_of records txset_id of
             None \<Rightarrow> (False, [], ''failed'', ''txset_id is not registered'')
           | Some r \<Rightarrow>
               if ut_wallet_id r \<noteq> wallet_id \<or> ut_multisig_address r \<noteq> multisig_address then
                 (False, [], ''failed'', ''txset metadata mismatch'')
               else if ut_owner_address r \<noteq> address_text E (cr_address creds) then
                 (False, [], ''failed'', ''authenticated wallet does not own this txset'')
               else if ut_collected r < ut_required r then
                 (True, [], ''needs_more_signatures'', ''More multisig signatures are required before submit'')
               else if ut_submitted_hash r = [] then
                 (False, [], ''failed'', ''LWS does not yet have a fully signed raw tx submitter for multisig txsets'')
               else (True, ut_submitted_hash r, ''submitted'', [])), records))"

section \<open>What a registered transaction adds\<close>

lemma registered_outputs_matched: "registered_outputs X M address tx derivation index vout tot True = Inr (n, matched) \<Longrightarrow> matched"
  by (induction vout arbitrary: index tot) (auto simp: check_Inr_iff split: option.splits if_splits)

lemma get_after_put:
  "get_multisig_balance address (snd (save_locked io (put_slot address slot st))) = slot"
  "get_multisig_transactions address (snd (save_locked io (put_slot address slot st))) = ma_transactions slot"
  by (simp_all add: get_multisig_balance_def get_multisig_transactions_def save_locked_def put_slot_def update_conv' split: io.split)

lemma slot_of_locked: "ma_total_locked (slot_of address st) = ma_total_locked (get_multisig_balance address st)"
  and slot_of_transactions: "ma_transactions (slot_of address st) = get_multisig_transactions address st"
  by (simp_all add: slot_of_def empty_slot_def get_multisig_balance_def get_multisig_transactions_def Let_def split: option.split)

lemma register_tx_counts:
  assumes "store_ok st" "register_tx_ex io now address h amount ctxt st = (r, st')" "r \<in> {Inserted, Updated, Duplicate}" "amount \<noteq> 0"
  shows "h \<in> mt_tx_hash ` set (get_multisig_transactions address st') \<and>
    unat (ma_total_locked (get_multisig_balance address st')) = unat (ma_total_locked (get_multisig_balance address st)) +
      (if \<exists>tx \<in> set (get_multisig_transactions address st). mt_tx_hash tx = h \<and> mt_amount tx \<noteq> 0 then 0 else unat amount)"
proof -
  let ?slot = "slot_of address st"
  let ?txs = "get_multisig_transactions address st"
  let ?put = "\<lambda>slot. put_slot address slot (put_slot address ?slot st)"
  have ne: "\<not> (address = [] \<or> h = [])" using assms(2,3) by (auto simp: register_tx_ex_def)
  have saved: "st' = snd (save_locked io x) \<and> r \<noteq> Duplicate" if "saved_result q (save_locked io x) = (r, st')" "q \<noteq> Duplicate" for q x
    using that by (auto simp: saved_result_def split: if_splits)
  show ?thesis
  proof (cases "find_tx h 0 ?txs")
    case None
    let ?new = "add_locked amount ctxt (?slot\<lparr>ma_transactions := ?txs @ [\<lparr>mt_tx_hash = h, mt_amount = amount, mt_timestamp = now, mt_context = ctxt\<rparr>]\<rparr>)"
    have fresh: "h \<notin> mt_tx_hash ` set ?txs" using None by (simp add: find_tx_None)
    have ok: "\<not> -1 - ma_total_locked ?slot < amount" and run: "saved_result Inserted (save_locked io (?put ?new)) = (r, st')"
      using assms(2,3) ne None by (auto simp: register_tx_ex_def Let_def slot_of_transactions split: if_splits)
    have "st' = snd (save_locked io (?put ?new))" using saved[OF run] by simp
    then show ?thesis
      using unat_no_wrap[OF ok] fresh by (auto simp: get_after_put add_locked_def slot_of_locked)
  next
    case (Some i)
    then have i: "i < length ?txs" "mt_tx_hash (?txs ! i) = h" using find_tx_Some[OF Some] by auto
    have "distinct (map mt_tx_hash ?txs)"
      using slot_ok_slot_of[OF assms(1), of address] ne by (simp add: MultisigStore.slot_ok_def slot_of_transactions)
    then have only: "tx = ?txs ! i" if "tx \<in> set ?txs" "mt_tx_hash tx = h" for tx
      using that i by (auto simp: in_set_conv_nth distinct_conv_nth)
    show ?thesis
    proof (cases "mt_amount (?txs ! i) = 0")
      case True
      let ?new = "add_locked amount ctxt (?slot\<lparr>ma_transactions := ?txs[i := backfilled amount ctxt (?txs ! i)]\<rparr>)"
      have pos: "0 < amount" using assms(4) by (simp add: word_gt_0)
      have ok: "\<not> -1 - ma_total_locked ?slot < amount" and run: "saved_result Updated (save_locked io (?put ?new)) = (r, st')"
        using assms(2,3) ne Some True pos by (auto simp: register_tx_ex_def Let_def slot_of_transactions split: if_splits)
      have st': "st' = snd (save_locked io (?put ?new))" using saved[OF run] by (rule conjunct1) simp
      have g: "get_multisig_balance address st' = ?new"
        "get_multisig_transactions address st' = ?txs[i := backfilled amount ctxt (?txs ! i)]"
        unfolding st' get_after_put by (simp_all add: add_locked_def)
      have "h \<in> mt_tx_hash ` set (?txs[i := backfilled amount ctxt (?txs ! i)])"
        using i by (intro image_eqI[of _ _ "backfilled amount ctxt (?txs ! i)"]) (auto simp: backfilled_def set_update_memI)
      moreover have none: "\<not> (\<exists>tx \<in> set ?txs. mt_tx_hash tx = h \<and> mt_amount tx \<noteq> 0)" using only True by blast
      moreover have "unat (ma_total_locked ?new) = unat (ma_total_locked (get_multisig_balance address st)) + unat amount"
        using unat_no_wrap[OF ok] by (simp add: add_locked_def slot_of_locked)
      ultimately show ?thesis unfolding g if_not_P[OF none] by (intro conjI)
    next
      case False
      then have "st' = put_slot address ?slot st"
        using assms(2) ne Some by (auto simp: register_tx_ex_def Let_def slot_of_transactions)
      then have "get_multisig_balance address st' = ?slot" "get_multisig_transactions address st' = ?txs"
        by (simp_all add: get_multisig_balance_def get_multisig_transactions_def put_slot_def update_conv'
            slot_of_transactions[unfolded get_multisig_transactions_def])
      with i False show ?thesis by (auto simp: slot_of_locked)
    qed
  qed
qed

section \<open>What the registry keeps true\<close>

lemma evict_txsets_facts:
  "set (evict_txsets records) \<subseteq> set records \<and> (distinct (map fst records) \<longrightarrow> distinct (map fst (evict_txsets records))) \<and>
     length (evict_txsets records) \<le> length records"
proof (induction records rule: evict_txsets.induct)
  case (1 records)
  show ?case
  proof (cases "txsets_max_entries \<le> length records \<and> oldest_txset records \<noteq> None")
    case False
    then have "evict_txsets records = records" by (auto simp: evict_txsets.simps[of records] split: option.split)
    then show ?thesis by simp
  next
    case True
    then obtain old where old: "oldest_txset records = Some old" by auto
    let ?rest = "AList.delete (fst old) records"
    have "evict_txsets records = evict_txsets ?rest" using True old by (simp add: evict_txsets.simps[of records])
    moreover have "set ?rest \<subseteq> set records" "length ?rest \<le> length records" by (auto simp: AList.delete_eq)
    moreover have "distinct (map fst records) \<longrightarrow> distinct (map fst ?rest)" by (simp add: distinct_delete)
    ultimately show ?thesis using "1.IH"[OF conjunct1[OF True] old] by (metis order_trans)
  qed
qed

lemma prune_txsets_facts:
  "set (prune_txsets now records) \<subseteq> set records"
  "distinct (map fst records) \<Longrightarrow> distinct (map fst (prune_txsets now records))"
  "length (prune_txsets now records) \<le> length records"
proof -
  let ?rs = "filter (\<lambda>entry. \<not> txset_is_expired (snd entry) now) records"
  have f: "set ?rs \<subseteq> set records" "length ?rs \<le> length records" by auto
  have d: "distinct (map fst records) \<Longrightarrow> distinct (map fst ?rs)" by (rule distinct_map_filter)
  show "set (prune_txsets now records) \<subseteq> set records" "length (prune_txsets now records) \<le> length records"
    using evict_txsets_facts[of ?rs] f by (auto simp: prune_txsets_def Let_def intro: order_trans)
  show "distinct (map fst (prune_txsets now records))" if "distinct (map fst records)"
    using evict_txsets_facts[of ?rs] d[OF that] by (simp add: prune_txsets_def Let_def)
qed

definition txset_ok :: "string \<Rightarrow> unstake_txset \<Rightarrow> bool" where
  "txset_ok k r \<longleftrightarrow> ut_txset_id r = k \<and> ut_collected r \<le> 1 \<and> ut_required r = 2 \<and> ut_submitted_hash r = []"

definition txsets_ok :: "txsets \<Rightarrow> bool" where
  "txsets_ok records \<longleftrightarrow> length records \<le> txsets_max_entries \<and> distinct (map fst records) \<and> (\<forall>(k, r) \<in> set records. txset_ok k r)"

lemma txsets_ok_prune: "txsets_ok records \<Longrightarrow> txsets_ok (prune_txsets now records)"
  using prune_txsets_facts[where now = now and records = records] by (fastforce simp: txsets_ok_def)

lemma txsets_ok_update:
  assumes "txsets_ok records" "txset_ok k r" "map_of records k = None \<longrightarrow> length records < txsets_max_entries"
  shows "txsets_ok (AList.update k r records)"
proof -
  have "length (AList.update k r records) \<le> txsets_max_entries"
    using assms(1,3) length_update_new[of records k r] length_update_old[of records k r] by (cases "map_of records k") (auto simp: txsets_ok_def)
  moreover have "distinct (map fst (AList.update k r records))" using assms(1) by (simp add: txsets_ok_def distinct_update)
  moreover have "\<forall>(k', r') \<in> set (AList.update k r records). txset_ok k' r'"
    using set_update_subset[of k r records] assms(1,2) by (auto simp: txsets_ok_def)
  ultimately show ?thesis by (simp add: txsets_ok_def)
qed

lemma txsets_ok_find: "txsets_ok records \<Longrightarrow> map_of records k = Some r \<Longrightarrow> txset_ok k r"
  by (auto simp: txsets_ok_def dest: map_of_SomeD)

lemma txset_ok_new: "txset_ok (stable_txset_id E (tr_wallet_id req) (tr_multisig_address req) (tr_tx_data_hex req)) (new_txset E now req)"
  by (simp add: txset_ok_def new_txset_def)

lemma txset_ok_touch: "txset_ok k r \<Longrightarrow> txset_ok k (r\<lparr>ut_updated_at := now\<rparr>)"
  by (simp add: txset_ok_def)

lemma txset_register_cases:
  obtains (refused) "snd (txset_register L C E now req s records) \<in> {records, prune_txsets now records}"
  | (new) "map_of (prune_txsets now records) (ut_txset_id (new_txset E now req)) = None"
      "length (prune_txsets now records) < txsets_max_entries"
      "snd (txset_register L C E now req s records) =
         AList.update (ut_txset_id (new_txset E now req)) ((new_txset E now req)\<lparr>ut_updated_at := now\<rparr>) (prune_txsets now records)"
  | (old) r where "map_of (prune_txsets now records) (ut_txset_id (new_txset E now req)) = Some r"
      "snd (txset_register L C E now req s records) =
         AList.update (ut_txset_id (new_txset E now req)) (r\<lparr>ut_updated_at := now\<rparr>) (prune_txsets now records)"
proof -
  have i: "ut_txset_id (new_txset E now req) = stable_txset_id E (tr_wallet_id req) (tr_multisig_address req) (tr_tx_data_hex req)"
    by (simp add: new_txset_def)
  show thesis
  proof (cases "open_account L C (tr_creds req) s")
    case (Inl e)
    then show thesis by (intro refused) (simp add: txset_register_def)
  next
    case user: (Inr user)
    show thesis
    proof (cases "register_refusal E req")
      case (Some message)
      with user show thesis by (intro refused) (simp add: txset_register_def)
    next
      case None
      note run = user None
      show thesis
      proof (cases "map_of (prune_txsets now records) (ut_txset_id (new_txset E now req))")
        case None
        show thesis
        proof (cases "txsets_max_entries \<le> length (prune_txsets now records)")
          case True
          with run None show thesis by (intro refused) (simp add: txset_register_def i Let_def)
        next
          case False
          with run None show thesis by (intro new) (simp_all add: txset_register_def i Let_def)
        qed
      next
        case (Some r)
        with run show thesis by (intro old[of r]) (simp_all add: txset_register_def i Let_def)
      qed
    qed
  qed
qed

lemma txset_signature_cases:
  obtains (refused) "snd (txset_signature L C E now later req s records) \<in> {records, prune_txsets now records}"
  | (signed) r where "map_of (prune_txsets now records) (tg_txset_id req) = Some r"
      "ut_owner_address r = address_text E (cr_address (tg_creds req))"
      "snd (txset_signature L C E now later req s records) =
         AList.update (tg_txset_id req) (r\<lparr>ut_signed_hash := content_hash E (tg_signed_hex req), ut_collected := max (ut_collected r) 1,
           ut_state := ''needs_more_signatures'', ut_updated_at := later\<rparr>) (prune_txsets now records)"
proof (cases "\<exists>user r. open_account L C (tg_creds req) s = Inr user \<and> signature_refusal E req = None \<and>
    map_of (prune_txsets now records) (tg_txset_id req) = Some r \<and> ut_wallet_id r = tg_wallet_id req \<and>
    ut_multisig_address r = tg_multisig_address req \<and> ut_owner_address r = address_text E (cr_address (tg_creds req)) \<and>
    ut_miner_address r = tg_signer_address req")
  case True
  then obtain user r where r: "open_account L C (tg_creds req) s = Inr user" "signature_refusal E req = None"
    "map_of (prune_txsets now records) (tg_txset_id req) = Some r" "ut_wallet_id r = tg_wallet_id req"
    "ut_multisig_address r = tg_multisig_address req" "ut_owner_address r = address_text E (cr_address (tg_creds req))"
    "ut_miner_address r = tg_signer_address req" by blast
  then show thesis by (intro signed[OF r(3,6)]) (simp add: txset_signature_def Let_def)
next
  case False
  then have "snd (txset_signature L C E now later req s records) \<in> {records, prune_txsets now records}"
    by (auto simp: txset_signature_def Let_def split: sum.split option.split)
  then show thesis by (rule refused)
qed

lemma txset_submit_records: "snd (txset_submit L C E now creds wallet_id address txset_id s records) \<in> {records, prune_txsets now records}"
  by (simp add: txset_submit_def Let_def split: sum.split)

text \<open>The registry of a running server; the database changes in between.\<close>

inductive txset_run :: "'t lmdb \<Rightarrow> crypto \<Rightarrow> encodings \<Rightarrow> txsets \<Rightarrow> bool" for L C E where
  start: "txset_run L C E []"
| reg: "txset_run L C E records \<Longrightarrow> txset_run L C E (snd (txset_register L C E now req s records))"
| sig: "txset_run L C E records \<Longrightarrow> txset_run L C E (snd (txset_signature L C E now later sreq s records))"
| sub: "txset_run L C E records \<Longrightarrow> txset_run L C E (snd (txset_submit L C E now creds wallet_id address txset_id s records))"

lemma txset_run_ok: "txset_run L C E records \<Longrightarrow> txsets_ok records"
proof (induction rule: txset_run.induct)
  case start
  show ?case by (simp add: txsets_ok_def)
next
  case (reg records now req s)
  note p = txsets_ok_prune[OF reg.IH, where now = now]
  show ?case
  proof (cases rule: txset_register_cases[of L C E now req s records])
    case refused
    with reg.IH p show ?thesis by auto
  next
    case new
    have "txset_ok (ut_txset_id (new_txset E now req)) (new_txset E now req)" by (simp add: txset_ok_def new_txset_def)
    with new p show ?thesis by (simp add: txsets_ok_update txset_ok_touch)
  next
    case (old r)
    with txsets_ok_find[OF p old(1)] p show ?thesis by (simp add: txsets_ok_update txset_ok_touch)
  qed
next
  case (sig records now later sreq s)
  note p = txsets_ok_prune[OF sig.IH, where now = now]
  show ?case
  proof (cases rule: txset_signature_cases[of L C E now later sreq s records])
    case refused
    with sig.IH p show ?thesis by auto
  next
    case (signed r)
    from txsets_ok_find[OF p signed(1)] have "txset_ok (tg_txset_id sreq) (r\<lparr>ut_signed_hash := content_hash E (tg_signed_hex sreq),
        ut_collected := max (ut_collected r) 1, ut_state := ''needs_more_signatures'', ut_updated_at := later\<rparr>)"
      by (simp add: txset_ok_def)
    with signed p show ?thesis by (simp add: txsets_ok_update)
  qed
next
  case (sub records now creds wallet_id address txset_id s)
  with txsets_ok_prune[OF sub.IH, where now = now] txset_submit_records[of L C E now creds wallet_id address txset_id s records] show ?case by auto
qed

section \<open>A small registry\<close>

definition demo_encodings :: encodings where
  "demo_encodings =
     \<lparr>parse_address = (\<lambda>text. if text = [] then None else Some (a_address demo_account)), address_text = (\<lambda>address. ''x1''),
      parse_hash = (\<lambda>text. Some 44), hash_text = (\<lambda>h. ''2c''), parse_key = (\<lambda>text. Some 9), content_hash = rev\<rparr>"

definition demo_multisig_crypto :: multisig_crypto where
  "demo_multisig_crypto =
     \<lparr>mx_derivation = (\<lambda>key secret. Some 1), mx_derive_public = (\<lambda>derivation index key. Some (if index = 0 then 125 else 0))\<rparr>"

definition demo_multisig_register :: "multisig_store \<Rightarrow> (bool \<times> string \<times> u64) \<times> multisig_store" where
  "demo_multisig_register = multisig_register demo_encodings demo_scan_crypto demo_multisig_crypto (\<lambda>h. Inr demo_tx) Io_ok 8 ''m1'' ''2c'' ''09'' []"

definition demo_txset_request :: txset_register_request where
  "demo_txset_request =
     \<lparr>tr_creds = \<lparr>cr_address = a_address demo_account, cr_key = 13\<rparr>, tr_wallet_id = ''w'', tr_multisig_address = ''m1'',
      tr_tx_data_hex = replicate 65 (CHR ''a''), tr_miner_address = ''x1'', tr_purpose = ''miner_unstake''\<rparr>"

definition demo_txset_crypto :: crypto where
  "demo_txset_crypto = demo_crypto\<lparr>public_of := (\<lambda>k. k - 2)\<rparr>"

definition demo_txsets :: "(error + bool \<times> string \<times> string \<times> string) \<times> txsets" where
  "demo_txsets = txset_register log_lmdb demo_txset_crypto demo_encodings 5000 demo_txset_request demo []"

lemma demo_multisig_registered:
  "demo_multisig_register empty_store = ((True, ''Transaction registered successfully'', 5), snd (demo_multisig_register empty_store))"
proof -
  have "fst (demo_multisig_register empty_store) = (True, ''Transaction registered successfully'', 5)" by code_simp
  then show ?thesis by (metis prod.collapse)
qed

lemma demo_txsets_registered: "map (\<lambda>(k, r). (ut_state r, ut_owner_address r)) (snd demo_txsets) = [(''registered'', ''x1'')]"
  by code_simp

section \<open>Properties\<close>

text \<open>
  Registering a transaction pays its decoded amount into the total of the address exactly once:
  a transaction that is registered already with an amount does not count again, and the total does
  not wrap.
\<close>

theorem multisig_register_counts_once:
  assumes "store_ok st" and "multisig_register E X M fetch io now address tx_hash tx_key ctxt st = ((True, message, amount), st')"
  shows "\<exists>parsed h k. parse_address E address = Some parsed \<and> parse_hash E tx_hash = Some h \<and> parse_key E tx_key = Some k \<and>
    decode_registered_amount X M fetch parsed h k = Inr amount \<and> amount \<noteq> 0 \<and>
    hash_text E h \<in> mt_tx_hash ` set (get_multisig_transactions address st') \<and>
    unat (ma_total_locked (get_multisig_balance address st')) = unat (ma_total_locked (get_multisig_balance address st)) +
      (if \<exists>tx \<in> set (get_multisig_transactions address st). mt_tx_hash tx = hash_text E h \<and> mt_amount tx \<noteq> 0 then 0 else unat amount)"
proof -
  obtain parsed h k r where run: "parse_address E address = Some parsed" "parse_hash E tx_hash = Some h" "parse_key E tx_key = Some k"
    "decode_registered_amount X M fetch parsed h k = Inr amount" "amount \<noteq> 0"
    "register_tx_ex io now address (hash_text E h) amount ctxt st = (r, st')" "r \<in> {Inserted, Updated, Duplicate}"
    using assms(2) by (auto simp: multisig_register_def split: option.splits sum.splits if_splits prod.splits register_tx_result.splits)
  from register_tx_counts[OF assms(1) run(6,7,5)] run(1-5) show ?thesis by blast
qed

theorem multisig_register_counts_once_witness:
  "let st = snd (demo_multisig_register empty_store) in
     unat (ma_total_locked (get_multisig_balance ''m1'' st)) = 5 \<and> ''2c'' \<in> mt_tx_hash ` set (get_multisig_transactions ''m1'' st)"
proof -
  have none: "get_multisig_transactions ''m1'' empty_store = []" "ma_total_locked (get_multisig_balance ''m1'' empty_store) = 0"
    by (simp_all add: get_multisig_transactions_def get_multisig_balance_def empty_store_def)
  from multisig_register_counts_once[OF store_ok_empty demo_multisig_registered[unfolded demo_multisig_register_def]]
  show ?thesis unfolding demo_multisig_register_def[symmetric] by (auto simp: none demo_encodings_def Let_def)
qed

text \<open>
  C24: A transaction set never gets further than one signature: whatever was requested before, every
  record waits for two signatures and has at most one, and a submission never answers with a
  transaction. The registry stays within its bound.
\<close>

theorem txset_never_submitted:
  assumes "txset_run L C E records"
  shows "length records \<le> txsets_max_entries \<and> distinct (map fst records) \<and>
    (\<forall>(k, r) \<in> set records. ut_txset_id r = k \<and> ut_collected r \<le> 1 \<and> ut_required r = 2 \<and> ut_submitted_hash r = []) \<and>
    (case fst (txset_submit L C E now creds wallet_id address txset_id s records) of
       Inl e \<Rightarrow> True
     | Inr (success, tx_hash, state, message) \<Rightarrow>
         tx_hash = [] \<and> state = (if success then ''needs_more_signatures'' else ''failed''))"
proof -
  have ok: "txsets_ok records" by (rule txset_run_ok[OF assms])
  have "ut_collected r < ut_required r" if "map_of (prune_txsets now records) txset_id = Some r" for r
    using txsets_ok_find[OF txsets_ok_prune[OF ok] that] by (auto simp: txset_ok_def elim: order.strict_trans1)
  then have "case fst (txset_submit L C E now creds wallet_id address txset_id s records) of
       Inl e \<Rightarrow> True
     | Inr (success, tx_hash, state, message) \<Rightarrow> tx_hash = [] \<and> state = (if success then ''needs_more_signatures'' else ''failed'')"
    by (auto simp: txset_submit_def Let_def split: sum.split option.split)
  with ok show ?thesis by (auto simp: txsets_ok_def txset_ok_def)
qed

theorem txset_never_submitted_witness:
  "\<exists>r. map snd (snd demo_txsets) = [r] \<and> ut_collected r \<le> 1 \<and> ut_required r = 2 \<and> ut_submitted_hash r = []"
proof -
  obtain k r where r: "snd demo_txsets = [(k, r)]" using demo_txsets_registered by (auto simp: map_eq_Cons_conv)
  have "txset_run log_lmdb demo_txset_crypto demo_encodings (snd demo_txsets)"
    unfolding demo_txsets_def by (intro txset_run.reg txset_run.start)
  from txset_never_submitted[OF this] r show ?thesis by auto
qed



end
