(* ===== verification/RestRequests.thy ===== *)
theory RestRequests
  imports Balance KeyImages
begin

text \<open>
  The handlers of the REST server (\<open>src/src/rest_server.cpp\<close>) that change the database: logging in,
  requests for an import, key images, rescans, subaddresses, and the submission of transactions
  with the outputs they spend.

  A handler returns its answer and the tables; \<open>None\<close> means that it does not return, which a
  lookahead can cause. A write that fails leaves the tables as they were. What is done for debug
  output only is left out.
\<close>

section \<open>Options of the server\<close>

record rest_options =
  ro_max_subaddresses :: u32
  ro_auto_accept_creation :: bool
  ro_auto_accept_import :: bool
  ro_create_queue_max :: nat
  ro_rescan :: rescan_options

type_synonym ('t, 'a) answer = "((error + 'a) \<times> 't tables) option"

text \<open>\<open>accept_requests\<close> and its parameters, with an empty answer where only success is asked for.\<close>

definition accept_one :: "'t lmdb \<Rightarrow> crypto \<Rightarrow> int \<Rightarrow> (request_info \<Rightarrow> 't \<Rightarrow> address_index) \<Rightarrow> rest_options \<Rightarrow> request \<Rightarrow> account_address \<Rightarrow>
    't tables \<Rightarrow> (bool \<times> 't tables) option" where
  "accept_one L C now after_del R req address s =
     (case accept_requests L C now after_del req [address] (ro_max_subaddresses R) s of
        None \<Rightarrow> None
      | Some (Inl e) \<Rightarrow> Some (False, s)
      | Some (Inr (accepted, s)) \<Rightarrow> Some (True, s))"

section \<open>Logging in\<close>

definition login :: "'t lmdb \<Rightarrow> crypto \<Rightarrow> int \<Rightarrow> (request_info \<Rightarrow> 't \<Rightarrow> address_index) \<Rightarrow> rest_options \<Rightarrow> account_credentials \<Rightarrow> bool \<Rightarrow> bool \<Rightarrow>
    address_index \<Rightarrow> 't tables \<Rightarrow> ('t, (bool \<times> bool \<times> address_index) \<times> webhook_new_account list) answer" where
  "login L C now after_del R creds create_account generated_locally lookahead s =
     (if \<not> key_check C creds then Some (Inl (Lws bad_view_key), s)
      else case get_account_by_address L (cr_address creds) s of
        Inr (status, account) \<Rightarrow>
          if is_hidden status then Some (Inl (Lws account_not_found), s)
          else Some (Inr ((False, a_flags account AND account_generated_locally \<noteq> 0, a_lookahead account), []), s)
      | Inl e \<Rightarrow>
          if \<not> create_account \<or> e \<noteq> Lws account_not_found then Some (Inl e, s)
          else if \<not> check_lookahead (ro_max_subaddresses R) lookahead then Some (Inl (Lws max_subaddresses), s)
          else
            let flags = (if generated_locally then account_generated_locally else 0) in
            (case creation_request L (ro_create_queue_max R) now (cr_address creds) (cr_key creds) flags lookahead s of
               Inl e \<Rightarrow> Some (Inl e, s)
             | Inr (hooks, s) \<Rightarrow>
                 if ro_auto_accept_creation R then
                   (case accept_one L C now after_del R create (cr_address creds) s of
                      None \<Rightarrow> None
                    | Some (accepted, s) \<Rightarrow>
                        Some (Inr ((True, generated_locally, if accepted then lookahead else Address_index 0 0), hooks), s))
                 else Some (Inr ((True, generated_locally, Address_index 0 0), hooks), s)))"

section \<open>Requests for an import\<close>

record import_response =
  ir_status :: string
  ir_lookahead :: address_index
  ir_new_request :: bool
  ir_fulfilled :: bool

definition import_answer :: "address_index \<Rightarrow> bool \<Rightarrow> bool \<Rightarrow> import_response" where
  "import_answer lookahead new_request fulfilled =
     \<lparr>ir_status = (if new_request then ''Accepted, waiting for approval''
        else if fulfilled then ''Approved'' else ''Waiting for Approval''),
      ir_lookahead = lookahead, ir_new_request = new_request, ir_fulfilled = fulfilled\<rparr>"

text \<open>The first part finds out whether there is something to do; it shrinks the lookahead at once.\<close>

definition import_plan :: "'t lmdb \<Rightarrow> account_credentials \<Rightarrow> u64 \<Rightarrow> address_index \<Rightarrow> account \<Rightarrow> 't tables \<Rightarrow>
    error + (bool \<times> bool \<times> address_index) \<times> 't tables" where
  "import_plan L creds from_height lookahead user s =
     (let expanded_depth = from_height < a_start_height user;
          change_lookahead = maj_i (a_lookahead user) \<noteq> maj_i lookahead \<or> min_i (a_lookahead user) \<noteq> min_i lookahead;
          lookahead_fail = a_lookahead_fail user \<noteq> 0 in
      if \<not> expanded_depth \<and> \<not> change_lookahead \<and> \<not> lookahead_fail then Inr ((False, True, a_lookahead user), s)
      else case get_request L import_scan (cr_address creds) s of
        Inr info \<Rightarrow> Inr ((False, False, a_lookahead user), s)
      | Inl e \<Rightarrow>
          if e \<noteq> Mdb MDB_NOTFOUND then Inl e
          else if \<not> lookahead_fail \<and> maj_i lookahead \<le> maj_i (a_lookahead user) \<and> min_i lookahead \<le> min_i (a_lookahead user) then
            if maj_i (a_lookahead user) \<noteq> maj_i lookahead \<and> min_i (a_lookahead user) \<noteq> min_i lookahead then
              check (shrink_lookahead L (cr_address creds) lookahead s) (\<lambda>s. Inr ((expanded_depth, \<not> expanded_depth, lookahead), s))
            else Inr ((expanded_depth, \<not> expanded_depth, a_lookahead user), s)
          else Inr ((True, False, a_lookahead user), s))"

definition handle_import :: "'t lmdb \<Rightarrow> crypto \<Rightarrow> int \<Rightarrow> (request_info \<Rightarrow> 't \<Rightarrow> address_index) \<Rightarrow> rest_options \<Rightarrow> account_credentials \<Rightarrow> u64 \<Rightarrow>
    address_index \<Rightarrow> 't tables \<Rightarrow> ('t, import_response) answer" where
  "handle_import L C now after_del R creds from_height lookahead s =
     (case open_account L C creds s of
        Inl e \<Rightarrow> Some (Inl e, s)
      | Inr user \<Rightarrow>
          if \<not> check_lookahead (ro_max_subaddresses R) lookahead then Some (Inl (Lws max_subaddresses), s)
          else (case import_plan L creds from_height lookahead user s of
             Inl e \<Rightarrow> Some (Inl e, s)
           | Inr ((new_request, fulfilled, current), s) \<Rightarrow>
               if \<not> new_request then Some (Inr (import_answer current new_request fulfilled), s)
               else (case import_request L now (cr_address creds) from_height lookahead s of
                  Inl e \<Rightarrow> Some (Inl e, s)
                | Inr s \<Rightarrow>
                    if ro_auto_accept_import R then
                      (case accept_one L C now after_del R import_scan (cr_address creds) s of
                         None \<Rightarrow> None
                       | Some (accepted, s) \<Rightarrow>
                           Some (Inr (import_answer (if accepted then lookahead else Address_index 0 0) new_request (accepted \<or> fulfilled)), s))
                    else Some (Inr (import_answer current new_request fulfilled), s))))"

section \<open>Key images and rescans\<close>

record import_key_image =
  ik_image :: hash
  ik_output_index :: "u64 option"
  ik_amount :: "u64 option"
  ik_global_index :: "u64 option"
  ik_tx_hash :: "hash option"
  ik_public_key :: "public_key option"

text \<open>An exact source needs all fields; its index is cut to 32 bits.\<close>

definition exact_source :: "import_key_image \<Rightarrow> key_image_source option" where
  "exact_source ki =
     (case (ik_amount ki, ik_global_index ki, ik_tx_hash ki, ik_public_key ki, ik_output_index ki) of
        (Some amount, Some global_index, Some tx_hash, Some p, Some output_index) \<Rightarrow>
          Some \<lparr>kis_image = ik_image ki, kis_source = Output_id amount global_index, kis_tx_hash = tx_hash, kis_pub = p,
            kis_out_index = ucast output_index\<rparr>
      | _ \<Rightarrow> None)"

definition handle_import_key_images :: "'t lmdb \<Rightarrow> crypto \<Rightarrow> rest_options \<Rightarrow> account_credentials \<Rightarrow> import_key_image list \<Rightarrow> 't tables \<Rightarrow>
    ('t, u64 \<times> u64 \<times> u64) answer" where
  "handle_import_key_images L C R creds images s =
     (case open_account L C creds s of
        Inl e \<Rightarrow> Some (Inl e, s)
      | Inr user \<Rightarrow>
          (case import_key_images L (a_id user) (map ik_image images) (List.map_filter exact_source images) s of
             Inl e \<Rightarrow> Some (Inl e, s)
           | Inr (res, s) \<Rightarrow>
               (case maybe_auto_rescan L C (ro_rescan R) user (imported res) s of
                  None \<Rightarrow> None
                | Some s \<Rightarrow> Some (Inr (imported res, confirmed_spends res, unconfirmed res), s))))"

definition request_rescan :: "'t lmdb \<Rightarrow> crypto \<Rightarrow> account_credentials \<Rightarrow> 't tables \<Rightarrow> ('t, string \<times> block_id \<times> block_id \<times> bool) answer" where
  "request_rescan L C creds s =
     (case open_account L C creds s of
        Inl e \<Rightarrow> Some (Inl e, s)
      | Inr user \<Rightarrow>
          let target = a_start_height user in
          if a_scan_height user \<le> target then Some (Inr (''Already queued'', a_scan_height user, target, True), s)
          else (case rescan L C target [a_address user] s of
             None \<Rightarrow> None
           | Some (Inl e) \<Rightarrow> Some (Inl e, s)
           | Some (Inr (updated, s)) \<Rightarrow> Some (Inr (''Queued'', a_scan_height user, target, updated \<noteq> []), s)))"

section \<open>Subaddresses\<close>

definition get_subaddrs :: "'t lmdb \<Rightarrow> crypto \<Rightarrow> account_credentials \<Rightarrow> 't tables \<Rightarrow> error + subaddress_dict list" where
  "get_subaddrs L C creds s = check (open_account L C creds s) (\<lambda>user. get_subaddresses L (a_id user) s)"

record provision_request =
  pr_maj_i :: "u32 option"
  pr_min_i :: "u32 option"
  pr_n_maj :: "u32 option"
  pr_n_min :: "u32 option"
  pr_get_all :: "bool option"

definition value_or :: "'a option \<Rightarrow> 'a \<Rightarrow> 'a" where
  "value_or x otherwise = (case x of None \<Rightarrow> otherwise | Some v \<Rightarrow> v)"

text \<open>The major indexes are counted with 64 bits and cut to 32, the last minor index wraps.\<close>

definition provision_ranges :: "u32 \<Rightarrow> u32 \<Rightarrow> u32 \<Rightarrow> u32 \<Rightarrow> subaddress_dict list" where
  "provision_ranges major_i minor_i n_major n_minor =
     map (\<lambda>elem. (of_nat elem, [(minor_i, minor_i + n_minor - 1)])) [unat major_i ..< unat major_i + unat n_major]"

definition all_ranges :: "'t lmdb \<Rightarrow> bool \<Rightarrow> account_id \<Rightarrow> 't tables \<Rightarrow> error + subaddress_dict list" where
  "all_ranges L get_all i s = (if get_all then get_subaddresses L i s else Inr [])"

definition provision_subaddrs :: "'t lmdb \<Rightarrow> crypto \<Rightarrow> rest_options \<Rightarrow> account_credentials \<Rightarrow> provision_request \<Rightarrow> 't tables \<Rightarrow>
    (error + subaddress_dict list \<times> subaddress_dict list) \<times> 't tables" where
  "provision_subaddrs L C R creds req s =
     (if pr_maj_i req = None \<and> pr_min_i req = None \<and> pr_n_min req = None \<and> pr_n_maj req = None then (Inl (Lws invalid_range), s)
      else case open_account L C creds s of
        Inl e \<Rightarrow> (Inl e, s)
      | Inr user \<Rightarrow>
          let n_major = value_or (pr_n_maj req) 50; n_minor = value_or (pr_n_min req) 500 in
          if n_major \<noteq> 0 \<and> n_minor \<noteq> 0 \<and> -1 div n_major < n_minor then (Inl (Lws max_subaddresses), s)
          else if n_major \<noteq> 0 \<and> n_minor \<noteq> 0 \<and> ro_max_subaddresses R < n_major * n_minor then (Inl (Lws max_subaddresses), s)
          else (case (if n_major \<noteq> 0 \<and> n_minor \<noteq> 0
              then upsert_subaddresses L C (a_id user) (cr_address creds) (cr_key creds)
                (provision_ranges (value_or (pr_maj_i req) 0) (value_or (pr_min_i req) 0) n_major n_minor) (ro_max_subaddresses R) s
              else Inr ([], s)) of
             Inl e \<Rightarrow> (Inl e, s)
           | Inr (new_ranges, s) \<Rightarrow>
               (map_sum id (\<lambda>ranges. (new_ranges, ranges)) (all_ranges L (value_or (pr_get_all req) True) (a_id user) s), s)))"

definition upsert_subaddrs :: "'t lmdb \<Rightarrow> crypto \<Rightarrow> rest_options \<Rightarrow> account_credentials \<Rightarrow> subaddress_dict list \<Rightarrow> bool option \<Rightarrow> 't tables \<Rightarrow>
    (error + subaddress_dict list \<times> subaddress_dict list) \<times> 't tables" where
  "upsert_subaddrs L C R creds subaddrs get_all s =
     (if ro_max_subaddresses R = 0 then (Inl (Lws max_subaddresses), s)
      else case open_account L C creds s of
        Inl e \<Rightarrow> (Inl e, s)
      | Inr user \<Rightarrow>
          (case upsert_subaddresses L C (a_id user) (cr_address creds) (cr_key creds) subaddrs (ro_max_subaddresses R) s of
             Inl e \<Rightarrow> (Inl e, s)
           | Inr (new_ranges, s) \<Rightarrow>
               (map_sum id (\<lambda>ranges. (new_ranges, ranges)) (all_ranges L (value_or get_all True) (a_id user) s), s)))"

section \<open>Submitting a transaction\<close>

record pending_spent_output =
  po_amount :: u64
  po_global_index :: u64
  po_out_index :: u32
  po_tx_hash :: hash
  po_public_key :: public_key

record submit_context =
  sc_message :: string
  sc_account :: account_id
  sc_pending :: "pending_spend list"

definition submit_context_of :: "'t lmdb \<Rightarrow> crypto \<Rightarrow> u64 \<Rightarrow> string \<Rightarrow> account_credentials option \<Rightarrow> pending_spent_output list \<Rightarrow> 't tables \<Rightarrow>
    error + submit_context" where
  "submit_context_of L C now message creds outputs s =
     (if outputs = [] then Inr \<lparr>sc_message = message, sc_account = account_id_invalid, sc_pending = []\<rparr>
      else case creds of
        None \<Rightarrow> Inl (Lws bad_client_tx)
      | Some creds \<Rightarrow>
          check (open_account L C creds s) (\<lambda>user.
            let recorded = ucast (min now (2 ^ 32 - 1)) in
            Inr \<lparr>sc_message = message, sc_account = a_id user,
              sc_pending = map (\<lambda>out. \<lparr>ps_source = Output_id (po_amount out) (po_global_index out), ps_tx_hash = po_tx_hash out,
                ps_pub = po_public_key out, ps_out_index = po_out_index out, ps_recorded = recorded\<rparr>) outputs\<rparr>))"

text \<open>
  Submissions wait in a queue for one connection. Without an answer in time all of them fail. An
  answer is for the first; when it was relayed its outputs are recorded, and a failure of that is
  only logged. In debug mode the text of some daemon errors is passed on.
\<close>

datatype daemon_answer = No_answer | Bad_answer error string | Rejected string | Relayed

datatype submit_answer = Submit_ok | Submit_error error | Submit_raw string

definition submit_step :: "'t lmdb \<Rightarrow> (string \<Rightarrow> bool) \<Rightarrow> daemon_answer \<Rightarrow> submit_context \<Rightarrow> submit_context list \<Rightarrow> 't tables \<Rightarrow>
    submit_answer list \<times> submit_context list \<times> 't tables" where
  "submit_step L passthrough answer front queued s =
     (case answer of
        No_answer \<Rightarrow> (map (\<lambda>_. Submit_error (Lws daemon_timeout)) (front # queued), [], s)
      | Bad_answer e raw \<Rightarrow> ([if passthrough raw then Submit_raw raw else Submit_error e], queued, s)
      | Rejected raw \<Rightarrow> ([if passthrough raw then Submit_raw raw else Submit_error (Lws tx_relay_failed)], queued, s)
      | Relayed \<Rightarrow>
          ([Submit_ok], queued,
           if sc_pending front \<noteq> [] then
             (case record_pending_spends L (sc_account front) (sc_pending front) s of Inl e \<Rightarrow> s | Inr s \<Rightarrow> s)
           else s))"

section \<open>Recorded outputs\<close>

lemma pending_key_inj: "inj_on pending_key A"
  by (rule inj_onI) (simp add: pending_key_def)

context lmdb_store begin

lemma pending_rows_inserted:
  assumes "bulk_insert (pending_spends_m L) MDB_NODUPDATA i spends t = Inr t'"
  shows "set (m_dups (pending_spends_m L) t' i) = set (m_dups (pending_spends_m L) t i) \<union> set spends"
  using pending_spends.bulk_insert_nodup[where k = i and vs = spends and t = t] assms
    ins_new_inj[OF pending_spends.dups_sorted pending_key_inj, where vs = spends] by auto

lemma record_pending_total: "\<exists>s'. record_pending_spends L i spends s = Inr s'"
  using pending_spends.bulk_insert_nodup[where k = i and vs = spends and t = "pending_spends_t s"] by (auto simp: record_pending_spends_bulk)

end

lemmas pending_inserted = lmdb_store.pending_rows_inserted
lemmas pending_total = lmdb_store.record_pending_total

lemma recorded_pending:
  assumes "lmdb_store L" "record_pending_spends L i spends s = Inr s'"
  shows "set (m_dups (pending_spends_m L) (pending_spends_t s') i) = set (m_dups (pending_spends_m L) (pending_spends_t s) i) \<union> set spends"
    "\<exists>t. s' = s\<lparr>pending_spends_t := t\<rparr>"
proof -
  obtain t where t: "bulk_insert (pending_spends_m L) MDB_NODUPDATA i spends (pending_spends_t s) = Inr t" "s' = s\<lparr>pending_spends_t := t\<rparr>"
    using assms(2) by (auto simp: record_pending_spends_bulk check_Inr_iff)
  then show "\<exists>t. s' = s\<lparr>pending_spends_t := t\<rparr>" by blast
  show "set (m_dups (pending_spends_m L) (pending_spends_t s') i) = set (m_dups (pending_spends_m L) (pending_spends_t s) i) \<union> set spends"
    using pending_inserted[OF assms(1) t(1)] t(2) by simp
qed

lemma open_account_pending [simp]: "open_account L C creds (s\<lparr>pending_spends_t := t\<rparr>) = open_account L C creds s"
  by (simp add: open_account_def get_account_by_address_def Accounts.get_account_def split: sum.split)

lemma offered_not_pending:
  "out \<in> set (filter (offered dust mixin images confirmed sources spent_ids pending) outs) \<Longrightarrow>
     \<not> (\<exists>p \<in> set pending. pending_spend_matches_output p out)"
  by (simp add: offered_def)

lemma stamp_kept: "ucast (ucast (min now (2 ^ 32 - 1)) :: u32) = now" if "now < 2 ^ 32" for now :: u64
proof -
  have "now \<le> 2 ^ 32 - 1" using that by (simp add: word_le_nat_alt word_less_nat_alt)
  then have "min now (2 ^ 32 - 1) = now" by (rule min_absorb1)
  moreover have "unat (ucast (ucast now :: u32) :: u64) = unat now" using that
    by (simp add: unsigned_ucast_eq unsigned_take_bit_eq take_bit_nat_eq_self word_less_nat_alt)
  then have "ucast (ucast now :: u32) = now" by (simp only: word_unat_eq_iff)
  ultimately show ?thesis by simp
qed

lemma active_when:
  "p \<in> set rows \<Longrightarrow> ucast (ps_recorded p) = now \<Longrightarrow> now \<le> later \<Longrightarrow> later - now \<le> pending_spend_ttl_seconds \<Longrightarrow>
     p \<in> set (active_pending later rows)"
  by (simp add: active_pending_def Let_def)

section \<open>Checked ranges\<close>

lemma upsert_loop_checked:
  "upsert_loop L C i address view_key max_subs ds out count s = (s', Inr res) \<Longrightarrow> \<forall>d \<in> set ds. check_subaddress_dict d"
  by (induction ds arbitrary: out count s) (auto simp: Let_def split: if_splits prod.splits sum.splits)

lemma do_upsert_checked:
  "do_upsert L C i address view_key (sort ds) max_subs s = (s', Inr res) \<Longrightarrow> \<forall>d \<in> set ds. check_subaddress_dict d"
  using upsert_loop_checked by (fastforce simp: do_upsert_def Let_def split: if_splits)

lemma check_single: "check_subaddress_dict (major, [(a, b)]) \<longleftrightarrow> a \<le> b"
  by (auto simp: check_subaddress_dict_def not_less)

section \<open>Properties\<close>

text \<open>
  C21: Once a transaction was relayed, the outputs that it named as spent are not offered to the
  account again for a day, although no block shows them as spent yet.
\<close>

theorem submitted_is_not_offered:
  assumes "lmdb_store L" and "submit_context_of L C now message (Some creds) outputs s = Inr front"
    and "submit_step L passthrough Relayed front queued s = (answers, rest, s')"
    and "get_unspent_outs L C later fees fetch creds req s' = Inr r"
    and "now \<le> later" and "later - now \<le> pending_spend_ttl_seconds" and "later < 2 ^ 32"
  shows "answers = [Submit_ok] \<and>
    (\<forall>out \<in> fst ` set (uo_outputs r). \<forall>po \<in> set outputs.
      \<not> (output_id_of out = Output_id (po_amount po) (po_global_index po) \<and> sm_index (o_spend_meta out) = po_out_index po \<and>
         tl_tx_hash (o_link out) = po_tx_hash po \<and> o_pub out = po_public_key po))"
proof (cases "outputs = []")
  case True
  with assms(3) show ?thesis by (simp add: submit_step_def)
next
  case False
  let ?recorded = "ucast (min now (2 ^ 32 - 1)) :: u32"
  obtain user where user: "open_account L C creds s = Inr user"
    and front: "sc_account front = a_id user" "sc_pending front = map (\<lambda>out. \<lparr>ps_source = Output_id (po_amount out) (po_global_index out),
      ps_tx_hash = po_tx_hash out, ps_pub = po_public_key out, ps_out_index = po_out_index out, ps_recorded = ?recorded\<rparr>) outputs"
    using assms(2) False by (auto simp: submit_context_of_def check_Inr_iff Let_def)
  obtain s1 where s1: "record_pending_spends L (a_id user) (sc_pending front) s = Inr s1" using pending_total[OF assms(1)] by blast
  have "sc_pending front \<noteq> []" using False front(2) by simp
  with assms(3) s1 have s': "s' = s1" "answers = [Submit_ok]" by (simp_all add: submit_step_def front(1))
  note rows = recorded_pending(1)[OF assms(1) s1]
  obtain t where t: "s1 = s\<lparr>pending_spends_t := t\<rparr>" using recorded_pending(2)[OF assms(1) s1] by blast
  obtain user' us where get: "open_account L C creds s' = Inr user'"
    "select_unspent later req (\<lambda>i. map ki_value (m_dups (images_m L) (images_t s') i))
       (m_dups (outputs_m L) (outputs_t s') (a_id user')) (m_dups (spends_m L) (spends_t s') (a_id user'))
       (m_dups (confirmed_spends_m L) (confirmed_spends_t s') (a_id user'))
       (m_dups (imported_spend_sources_m L) (imported_spend_sources_t s') (a_id user'))
       (m_dups (pending_spends_m L) (pending_spends_t s') (a_id user')) = Inr us" "map fst (uo_outputs r) = us_unspent us"
    by (rule get_unspent_outs_Inr[OF assms(4)]) (rule that)
  have same: "user' = user" using get(1) user by (simp add: s' t)
  have "out \<in> set (us_unspent us)" if "out \<in> fst ` set (uo_outputs r)" for out
    using that unfolding get(3)[symmetric] by simp
  note mem = this[unfolded select_unspent_facts[OF get(2)[unfolded same], THEN conjunct1]]
  have free: "\<not> (\<exists>p \<in> set (active_pending later (m_dups (pending_spends_m L) (pending_spends_t s') (a_id user))). pending_spend_matches_output p out)"
    if "out \<in> fst ` set (uo_outputs r)" for out
    by (rule offered_not_pending[OF mem[OF that]])
  have recorded: "ucast ?recorded = now" using assms(5,7) by (intro stamp_kept) simp
  have active: "p \<in> set (active_pending later (m_dups (pending_spends_m L) (pending_spends_t s') (a_id user)))"
    if "p \<in> set (sc_pending front)" for p
    using that rows s' recorded assms(5,6) by (intro active_when[where now = now]) (auto simp: front(2))
  show ?thesis
  proof (intro conjI ballI notI)
    fix out po assume out: "out \<in> fst ` set (uo_outputs r)" and po: "po \<in> set outputs"
      and match: "output_id_of out = Output_id (po_amount po) (po_global_index po) \<and> sm_index (o_spend_meta out) = po_out_index po \<and>
        tl_tx_hash (o_link out) = po_tx_hash po \<and> o_pub out = po_public_key po"
    let ?p = "\<lparr>ps_source = Output_id (po_amount po) (po_global_index po), ps_tx_hash = po_tx_hash po, ps_pub = po_public_key po,
      ps_out_index = po_out_index po, ps_recorded = ?recorded\<rparr>"
    have "?p \<in> set (sc_pending front)" using po by (simp add: front(2))
    from active[OF this] free[OF out] have "\<not> pending_spend_matches_output ?p out" by blast
    with match show False by (simp add: pending_spend_matches_output_def)
  qed (rule s'(2))
qed

definition demo_named :: "pending_spent_output list" where
  "demo_named = [\<lparr>po_amount = 0, po_global_index = 1, po_out_index = 0, po_tx_hash = 101, po_public_key = 33\<rparr>]"

definition demo_front :: "error + submit_context" where
  "demo_front = submit_context_of log_lmdb demo_group 1000 ''tx'' (Some demo_credentials) demo_named demo"

definition demo_relayed :: "submit_answer list \<times> submit_context list \<times> cell list tables" where
  "demo_relayed = (case demo_front of Inr front \<Rightarrow> submit_step log_lmdb (\<lambda>_. False) Relayed front [] demo | Inl e \<Rightarrow> ([], [], demo))"

definition demo_request :: unspent_request where
  "demo_request = \<lparr>ur_amount = 50, ur_mixin = None, ur_use_dust = None, ur_dust_threshold = None\<rparr>"

definition demo_offer :: "error + unspent_response" where
  "demo_offer = get_unspent_outs log_lmdb demo_group 2000 (Inr \<lparr>fe_base_fee = 600, fe_fee_mask = 10000, fe_size_scale = 1\<rparr>)
     (\<lambda>hashes. Inr (\<lambda>h. Some [])) demo_credentials demo_request (snd (snd demo_relayed))"

lemma demo_front_eval: "map_sum (\<lambda>_. ()) sc_message demo_front = Inr ''tx''"
  by code_simp

lemma demo_offer_eval: "map_sum (\<lambda>_. ()) (\<lambda>r. map (\<lambda>p. oid_low (output_id_of (fst p))) (uo_outputs r)) demo_offer = Inr [2]"
  by code_simp

theorem submitted_is_not_offered_witness:
  "\<exists>front answers rest s' r. demo_front = Inr front \<and> submit_step log_lmdb (\<lambda>_. False) Relayed front [] demo = (answers, rest, s') \<and>
     answers = [Submit_ok] \<and>
     get_unspent_outs log_lmdb demo_group 2000 (Inr \<lparr>fe_base_fee = 600, fe_fee_mask = 10000, fe_size_scale = 1\<rparr>)
       (\<lambda>hashes. Inr (\<lambda>h. Some [])) demo_credentials demo_request s' = Inr r \<and> uo_outputs r \<noteq> [] \<and>
     (\<forall>out \<in> fst ` set (uo_outputs r). \<forall>po \<in> set demo_named.
      \<not> (output_id_of out = Output_id (po_amount po) (po_global_index po) \<and> sm_index (o_spend_meta out) = po_out_index po \<and>
         tl_tx_hash (o_link out) = po_tx_hash po \<and> o_pub out = po_public_key po))"
proof -
  obtain front where front: "demo_front = Inr front" by (rule map_sum_InrE[OF demo_front_eval])
  obtain answers rest s' where step: "submit_step log_lmdb (\<lambda>_. False) Relayed front [] demo = (answers, rest, s')" by (rule prod_cases3)
  obtain r where r: "demo_offer = Inr r" "map (\<lambda>p. oid_low (output_id_of (fst p))) (uo_outputs r) = [2]"
    by (rule map_sum_InrE[OF demo_offer_eval])
  have get: "get_unspent_outs log_lmdb demo_group 2000 (Inr \<lparr>fe_base_fee = 600, fe_fee_mask = 10000, fe_size_scale = 1\<rparr>)
      (\<lambda>hashes. Inr (\<lambda>h. Some [])) demo_credentials demo_request s' = Inr r"
    using r(1) by (simp add: demo_offer_def demo_relayed_def front step)
  from submitted_is_not_offered[OF log.lmdb_store_axioms front[unfolded demo_front_def] step get] front step get r(2)
  show ?thesis by (intro exI conjI) (auto simp: word_le_nat_alt pending_spend_ttl_seconds_def)
qed

text \<open>
  A request that lowers only one part of the lookahead is answered with approval, but nothing
  happens: the test for a changed lookahead asks for a change of both parts. The answer still
  carries the old lookahead, and the same request has the same answer again.
\<close>

theorem partial_shrink_ignored:
  assumes "open_account L C creds s = Inr user" and "check_lookahead (ro_max_subaddresses R) lookahead"
    and "get_request L import_scan (cr_address creds) s = Inl (Mdb MDB_NOTFOUND)"
    and "a_start_height user \<le> from_height" and "a_lookahead_fail user = 0"
    and "lookahead \<noteq> a_lookahead user" and "maj_i lookahead \<le> maj_i (a_lookahead user)" and "min_i lookahead \<le> min_i (a_lookahead user)"
    and "maj_i lookahead = maj_i (a_lookahead user) \<or> min_i lookahead = min_i (a_lookahead user)"
  shows "handle_import L C now after_del R creds from_height lookahead s =
    Some (Inr \<lparr>ir_status = ''Approved'', ir_lookahead = a_lookahead user, ir_new_request = False, ir_fulfilled = True\<rparr>, s)"
proof -
  have "\<not> from_height < a_start_height user" using assms(4) by (simp add: not_less)
  moreover have "\<not> (maj_i (a_lookahead user) \<noteq> maj_i lookahead \<and> min_i (a_lookahead user) \<noteq> min_i lookahead)"
    using assms(9) by metis
  ultimately have "import_plan L creds from_height lookahead user s = Inr ((False, True, a_lookahead user), s)"
    using assms(3,5,7,8) unfolding import_plan_def Let_def by (simp only: if_False if_True not_False_eq_True not_True_eq_False
      simp_thms sum.case if_cancel)
  with assms(1,2) show ?thesis by (simp add: handle_import_def import_answer_def)
qed

definition demo_lookahead :: "cell list tables" where
  "demo_lookahead = demo\<lparr>accounts_t := [Cell_accounts active (demo_account\<lparr>a_lookahead := Address_index 5 10\<rparr>)]\<rparr>"

definition demo_options :: rest_options where
  "demo_options = \<lparr>ro_max_subaddresses = 100, ro_auto_accept_creation = True, ro_auto_accept_import = True, ro_create_queue_max = 10,
     ro_rescan = \<lparr>auto_rescan = False, auto_rescan_depth = 0, auto_rescan_min_confirmed_spends = 1\<rparr>\<rparr>"

lemma demo_lookahead_opens: "open_account log_lmdb demo_group demo_credentials demo_lookahead =
    Inr (demo_account\<lparr>a_lookahead := Address_index 5 10\<rparr>)"
  by (simp add: open_account_def get_account_by_address_def Accounts.get_account_def get_both_def find_row_def log_simps
    demo_lookahead_def demo_def demo_group_def demo_credentials_def demo_crypto_def key_check_def demo_account_def demo_account2_def
    ba_view_def is_hidden_def secret_key_to_public_key_def)

theorem partial_shrink_ignored_witness:
  "map_option fst (handle_import log_lmdb demo_group 5000 (\<lambda>_ _. Address_index 0 0) demo_options demo_credentials 1 (Address_index 5 2) demo_lookahead) =
     Some (Inr \<lparr>ir_status = ''Approved'', ir_lookahead = Address_index 5 10, ir_new_request = False, ir_fulfilled = True\<rparr>)"
proof -
  have "check_lookahead (ro_max_subaddresses demo_options) (Address_index 5 2)"
    by (simp add: check_lookahead_def demo_options_def word_le_nat_alt)
  moreover have "get_request log_lmdb import_scan (cr_address demo_credentials) demo_lookahead = Inl (Mdb MDB_NOTFOUND)"
    by (simp add: get_request_def get_both_def find_row_def log_simps demo_lookahead_def demo_def empty_tables_def)
  ultimately show ?thesis
    using partial_shrink_ignored[OF demo_lookahead_opens, of demo_options "Address_index 5 2" 1]
    by (simp add: demo_account_def word_le_nat_alt)
qed

text \<open>
  A successful provisioning stores every subaddress that was asked for, counting the indexes
  with 32 bits, so that each can be found by its public key, and keeps the limit. A range of minor
  indexes that passes the last one is refused.
\<close>

theorem provision_provides:
  assumes "lmdb_store L" and "open_account L C creds s = Inr user"
    and "sub_inv L C (a_id user) (cr_address creds) (cr_key creds) s"
    and "inj (\<lambda>x. get_spend_public C x (cr_address creds) (cr_key creds))" and "length (indexes_rows L s (a_id user)) < 2 ^ 64"
    and "provision_subaddrs L C R creds req s = (Inr (new_ranges, ranges), s')"
    and "value_or (pr_n_maj req) 50 \<noteq> 0" and "value_or (pr_n_min req) 500 \<noteq> 0"
  shows "length (indexes_rows L s' (a_id user)) \<le> unat (ro_max_subaddresses R) \<and>
    unat (value_or (pr_min_i req) 0) + unat (value_or (pr_n_min req) 500) \<le> 2 ^ 32 \<and>
    (\<forall>k m. k < unat (value_or (pr_n_maj req) 50) \<longrightarrow> m < value_or (pr_n_min req) 500 \<longrightarrow>
      (let x = Address_index (value_or (pr_maj_i req) 0 + of_nat k) (value_or (pr_min_i req) 0 + m) in
       find_subaddress L (a_id user) (get_spend_public C x (cr_address creds) (cr_key creds)) s' = Inr x))"
proof -
  let ?minor = "value_or (pr_min_i req) 0" and ?major = "value_or (pr_maj_i req) 0"
  let ?n = "value_or (pr_n_min req) 500" and ?N = "value_or (pr_n_maj req) 50"
  let ?ds = "provision_ranges ?major ?minor ?N ?n"
  let ?key = "\<lambda>x. get_spend_public C x (cr_address creds) (cr_key creds)"
  obtain new where "upsert_subaddresses L C (a_id user) (cr_address creds) (cr_key creds) ?ds (ro_max_subaddresses R) s = Inr (new, s')"
    using assms(2,6-8) by (auto simp: provision_subaddrs_def Let_def split: if_splits sum.splits)
  then have ups: "do_upsert L C (a_id user) (cr_address creds) (cr_key creds) (sort ?ds) (ro_max_subaddresses R) s = (s', Inr new)"
    by (auto simp: upsert_subaddresses_def split: prod.splits sum.splits)
  have inj: "inj_on ?key A" for A using assms(4) by (rule inj_on_subset) simp
  note u = do_upsert_facts[OF assms(1,3) inj assms(5) ups]
  have "0 < unat ?N" using assms(7) by (simp add: unat_gt_0)
  then have "(of_nat (unat ?major), [(?minor, ?minor + ?n - 1)]) \<in> set ?ds"
    unfolding provision_ranges_def set_map set_upt by (intro image_eqI[of _ _ "unat ?major"]) simp_all
  then have "?minor \<le> ?minor + (?n - 1)" using do_upsert_checked[OF ups] by (auto simp: check_single algebra_simps)
  then have fits: "unat ?minor + unat (?n - 1) < 2 ^ 32" by (simp add: no_olen_add_nat)
  have pred: "unat (?n - 1) = unat ?n - 1" "0 < unat ?n" using assms(8) by (simp_all add: unat_minus_one unat_gt_0)
  have "find_subaddress L (a_id user) (?key x) s' = Inr x"
    if x: "x = Address_index (?major + of_nat k) (?minor + m)" and k: "k < unat ?N" and m: "m < ?n" for x k m
  proof -
    have "m \<le> ?n - 1" using m by (rule word_less_sub_one)
    with fits have "?minor \<le> ?minor + m \<and> ?minor + m \<le> ?minor + ?n - 1"
      by (simp add: word_le_nat_alt unat_word_ariths add_diff_eq[symmetric])
    moreover have "(?major + of_nat k, [(?minor, ?minor + ?n - 1)]) \<in> set ?ds"
      using k unfolding provision_ranges_def by (auto intro!: image_eqI[of _ _ "unat ?major + k"])
    ultimately have "x \<in> dict_members (sort ?ds)" unfolding x dict_members_def by force
    with u have "x \<in> dict_members (ranges_rows L s' (a_id user))" by blast
    with u show ?thesis using lmdb_store.find_subaddress_iff[OF assms(1) _ inj] by blast
  qed
  with u fits pred show ?thesis by (simp add: Let_def)
qed


definition demo_provision :: provision_request where
  "demo_provision = \<lparr>pr_maj_i = None, pr_min_i = None, pr_n_maj = Some 1, pr_n_min = Some 3, pr_get_all = Some False\<rparr>"

definition demo_key :: account_credentials where
  "demo_key = \<lparr>cr_address = a_address demo_account, cr_key = 11\<rparr>"

lemma demo_key_opens: "open_account log_lmdb demo_crypto demo_key demo = Inr demo_account"
  by (simp add: open_account_def get_account_by_address_def Accounts.get_account_def get_both_def find_row_def log_simps
    demo_def demo_key_def demo_crypto_def key_check_def demo_account_def demo_account2_def ba_view_def is_hidden_def
    secret_key_to_public_key_def)

lemma demo_provisioned: "\<exists>new s'. provision_subaddrs log_lmdb demo_crypto demo_options demo_key demo_provision demo = (Inr (new, []), s')"
proof -
  have r: "ranges_rows log_lmdb demo = (\<lambda>i. [])" "indexes_rows log_lmdb demo = (\<lambda>i. [])"
    by (simp_all add: log_simps demo_def empty_tables_def fun_eq_iff)
  have ds: "provision_ranges 0 0 1 3 = [(0, [(0, 2)])]" by (simp add: provision_ranges_def)
  obtain ti where ti: "bulk_insert (subaddress_indexes_m log_lmdb) MDB_NODUPDATA 1
      (index_maps demo_crypto (a_address demo_account) 11 0 [(0, 2)]) (subaddress_indexes_t demo) = Inr ti"
    using log.subaddress_indexes.bulk_insert_nodup by blast
  have "\<exists>s' new. do_upsert log_lmdb demo_crypto 1 (a_address demo_account) 11 [(0, [(0, 2)])] 100 demo = (s', Inr new)"
    by (simp add: do_upsert_def r check_subaddress_dict_def upsert_merge_def get_both_def find_row_def ti
        check_max_range_def has_row_def word_le_nat_alt)
  then obtain s' new where "do_upsert log_lmdb demo_crypto 1 (a_address demo_account) 11 [(0, [(0, 2)])] 100 demo = (s', Inr new)" by blast
  moreover have "a_id demo_account = 1" "cr_address demo_key = a_address demo_account" "cr_key demo_key = 11"
    by (simp_all add: demo_account_def demo_key_def)
  moreover have "\<not> (-1 :: u32) div 1 < 3" "\<not> (100 :: u32) < 1 * 3" by code_simp+
  ultimately show ?thesis
    by (simp add: provision_subaddrs_def demo_provision_def demo_key_opens value_or_def ds all_ranges_def
        upsert_subaddresses_def demo_options_def)
qed

theorem provision_provides_witness:
  "\<exists>new s'. provision_subaddrs log_lmdb demo_crypto demo_options demo_key demo_provision demo = (Inr (new, []), s') \<and>
     find_subaddress log_lmdb 1 (get_spend_public demo_crypto (Address_index 0 2) (a_address demo_account) 11) s' = Inr (Address_index 0 2)"
proof -
  obtain new s' where p: "provision_subaddrs log_lmdb demo_crypto demo_options demo_key demo_provision demo = (Inr (new, []), s')"
    using demo_provisioned by blast
  have i: "a_id demo_account = 1" by (simp add: demo_account_def)
  have r: "ranges_rows log_lmdb demo = (\<lambda>i. [])" "indexes_rows log_lmdb demo = (\<lambda>i. [])"
    by (simp_all add: log_simps demo_def empty_tables_def fun_eq_iff)
  have inv: "sub_inv log_lmdb demo_crypto (a_id demo_account) (cr_address demo_key) (cr_key demo_key) demo" by (simp add: sub_inv_def r)
  from provision_provides[OF log.lmdb_store_axioms demo_key_opens inv demo_crypto_inj _ p]
  have "\<forall>k m. k < unat (1 :: u32) \<longrightarrow> m < (3 :: u32) \<longrightarrow>
      find_subaddress log_lmdb 1 (get_spend_public demo_crypto (Address_index (of_nat k) m) (a_address demo_account) 11) s' =
        Inr (Address_index (of_nat k) m)"
    by (simp add: r i demo_provision_def demo_key_def value_or_def Let_def)
  from this[rule_format, of 0 2] p show ?thesis by (intro exI conjI) (auto simp: word_less_nat_alt)
qed

end
