(* ===== verification/RandomOutputs.thy ===== *)
theory RandomOutputs
  imports RestAccount "HOL-Library.Sublist"
begin

text \<open>
  Decoys for rings: \<open>src/src/util/gamma_picker.cpp\<close> and \<open>src/src/util/random_outputs.cpp\<close>, and
  the handler of \<open>/get_random_outs\<close> of \<open>src/src/rest_server.cpp\<close> that asks the daemon for what they
  need.

  The source of random numbers is a state with its operations, the parameter \<open>randomness\<close>; what is
  computed with floating point numbers from it is an operation as well. A pick that never gets a
  number it accepts does not return. An exception is an error.
\<close>

section \<open>Randomness\<close>

record 'r randomness =
  rand_u64 :: "'r \<Rightarrow> u64 \<times> 'r"
  rand_idx :: "u64 \<Rightarrow> 'r \<Rightarrow> u64 \<times> 'r"
  age_index :: "u64 \<Rightarrow> nat \<Rightarrow> 'r \<Rightarrow> u64 \<times> 'r"
  triangle :: "u64 \<Rightarrow> u64 \<Rightarrow> u64"

text \<open>
  \<open>age_index\<close> is the age of an output from the gamma distribution, in outputs, from the number of
  outputs and the number of blocks of the last year; \<open>triangle\<close> is the square root of the share of
  a number in \<open>2 ^ 53\<close>, times the number of outputs.
\<close>

section \<open>Outputs with hidden amounts\<close>

text \<open>The constants of the Monero configuration.\<close>

record decoy_config =
  default_spendable_age :: nat
  blocks_in_a_year :: nat

definition lower_bound :: "'a::linorder list \<Rightarrow> 'a \<Rightarrow> nat" where
  "lower_bound xs x = length (takeWhile (\<lambda>y. y < x) xs)"

definition outputs_to_consider :: "decoy_config \<Rightarrow> u64 list \<Rightarrow> u64 \<times> nat" where
  "outputs_to_consider Z offsets =
     (let blocks_to_consider = min (length offsets) (blocks_in_a_year Z);
          initial_count = (if blocks_to_consider < length offsets then offsets ! (length offsets - blocks_to_consider - 1) else 0) in
      (last offsets - initial_count, blocks_to_consider))"

definition is_valid_picker :: "decoy_config \<Rightarrow> u64 list \<Rightarrow> bool" where
  "is_valid_picker Z offsets = (default_spendable_age Z - 1 < length offsets)"

definition spendable_upper_bound :: "decoy_config \<Rightarrow> u64 list \<Rightarrow> u64" where
  "spendable_upper_bound Z offsets =
     (if \<not> is_valid_picker Z offsets then 0 else offsets ! (length offsets - default_spendable_age Z))"

text \<open>The tries of one selection.\<close>

fun gamma_tries :: "'r randomness \<Rightarrow> decoy_config \<Rightarrow> u64 list \<Rightarrow> nat \<Rightarrow> 'r \<Rightarrow> error + u64 \<times> 'r" where
  "gamma_tries N Z offsets 0 r = Inl Runtime_error"
| "gamma_tries N Z offsets (Suc tries) r =
     (let (count, blocks) = outputs_to_consider Z offsets;
          num_rct_outputs = spendable_upper_bound Z offsets;
          spendable = take (length offsets - default_spendable_age Z + 1) offsets;
          (output_index, r) = age_index N count blocks r in
      if num_rct_outputs \<le> output_index then gamma_tries N Z offsets tries r
      else
        let selection = lower_bound spendable (num_rct_outputs - 1 - output_index) in
        if selection = length spendable then Inl Runtime_error
        else
          let first_rct = (if selection = 0 then 0 else offsets ! (selection - 1));
              n_rct = offsets ! selection - first_rct in
          if n_rct \<noteq> 0 then let (k, r) = rand_idx N n_rct r in Inr (first_rct + k, r)
          else gamma_tries N Z offsets tries r)"

definition pick_rct :: "'r randomness \<Rightarrow> decoy_config \<Rightarrow> u64 list \<Rightarrow> 'r \<Rightarrow> error + u64 \<times> 'r" where
  "pick_rct N Z offsets r = (if \<not> is_valid_picker Z offsets then Inl Runtime_error else gamma_tries N Z offsets 100 r)"

section \<open>Picking for one ring\<close>

record histogram =
  hi_amount :: u64
  hi_total_count :: u64
  hi_unlocked_count :: u64

type_synonym output_ref = "u64 \<times> u64"

definition pick_all :: "nat \<Rightarrow> u64 \<Rightarrow> output_ref list" where
  "pick_all n amount = map (\<lambda>index. (amount, of_nat index)) [0..<n]"

partial_function (option) triangular_index :: "'r randomness \<Rightarrow> histogram \<Rightarrow> 'r \<Rightarrow> (u64 \<times> 'r) option" where
  "triangular_index N hist r =
     (let (x, r) = rand_u64 N r; index = triangle N (x mod 2 ^ 53) (hi_total_count hist) in
      if hi_unlocked_count hist < index then triangular_index N hist r else Some (index, r))"

fun triangular_refs :: "'r randomness \<Rightarrow> histogram \<Rightarrow> nat \<Rightarrow> 'r \<Rightarrow> (output_ref list \<times> 'r) option" where
  "triangular_refs N hist 0 r = Some ([], r)"
| "triangular_refs N hist (Suc n) r =
     (case triangular_index N hist r of
        None \<Rightarrow> None
      | Some (index, r) \<Rightarrow> map_option (\<lambda>(refs, r). ((hi_amount hist, index) # refs, r)) (triangular_refs N hist n r))"

definition triangular_pick :: "'r randomness \<Rightarrow> nat \<Rightarrow> histogram \<Rightarrow> 'r \<Rightarrow> (error + output_ref list \<times> 'r) option" where
  "triangular_pick N n hist r =
     (if \<not> hi_unlocked_count hist \<le> hi_total_count hist then Some (Inl Invalid_argument)
      else if unat (hi_unlocked_count hist) < n then Some (Inl (Lws not_enough_mixin))
      else if unat (hi_unlocked_count hist) = n then Some (Inr (pick_all n (hi_amount hist), r))
      else map_option Inr (triangular_refs N hist n r))"

fun gamma_refs :: "'r randomness \<Rightarrow> decoy_config \<Rightarrow> u64 list \<Rightarrow> nat \<Rightarrow> 'r \<Rightarrow> error + output_ref list \<times> 'r" where
  "gamma_refs N Z offsets 0 r = Inr ([], r)"
| "gamma_refs N Z offsets (Suc n) r =
     check (pick_rct N Z offsets r) (\<lambda>(index, r).
     check (gamma_refs N Z offsets n r) (\<lambda>(refs, r). Inr ((0, index) # refs, r)))"

definition gamma_pick :: "'r randomness \<Rightarrow> decoy_config \<Rightarrow> u64 list \<Rightarrow> nat \<Rightarrow> 'r \<Rightarrow> error + output_ref list \<times> 'r" where
  "gamma_pick N Z offsets n r =
     (if \<not> is_valid_picker Z offsets then Inl (Lws not_enough_mixin)
      else if unat (spendable_upper_bound Z offsets) < n then Inl (Lws not_enough_mixin)
      else if unat (spendable_upper_bound Z offsets) = n then Inr (pick_all n 0, r)
      else gamma_refs N Z offsets n r)"

section \<open>Rings\<close>

record output_keys =
  ok_key :: public_key
  ok_mask :: hash
  ok_unlocked :: bool

record random_output =
  ro_keys :: output_keys
  ro_index :: u64

record random_ring =
  rr_ring :: "random_output list"
  rr_amount :: u64

definition new_entry :: "u64 \<Rightarrow> random_output" where
  "new_entry index = \<lparr>ro_keys = \<lparr>ok_key = 0, ok_mask = 0, ok_unlocked = False\<rparr>, ro_index = index\<rparr>"

definition pick_for_ring :: "'r randomness \<Rightarrow> decoy_config \<Rightarrow> u64 list \<Rightarrow> histogram list \<Rightarrow> u64 \<Rightarrow> nat \<Rightarrow> 'r \<Rightarrow>
    (error + output_ref list \<times> 'r) option" where
  "pick_for_ring N Z offsets histograms amount n r =
     (if amount = 0 then Some (gamma_pick N Z offsets n r)
      else case dropWhile (\<lambda>hist. hi_amount hist < amount) histograms of
        [] \<Rightarrow> Some (Inl Invalid_argument)
      | hist # _ \<Rightarrow> if hi_amount hist \<noteq> amount then Some (Inl Invalid_argument) else triangular_pick N n hist r)"

text \<open>
  What is added to a ring: the picks without duplicates, among themselves and with those that are in
  the ring already, in the order of their index.
\<close>

definition fresh_refs :: "random_output list \<Rightarrow> output_ref list \<Rightarrow> output_ref list" where
  "fresh_refs current latest = filter (\<lambda>ref. snd ref \<notin> ro_index ` set current) (remdups_adj (sort_key snd latest))"

fun propose :: "'r randomness \<Rightarrow> decoy_config \<Rightarrow> u64 list \<Rightarrow> histogram list \<Rightarrow> nat \<Rightarrow> random_ring list \<Rightarrow> output_ref list \<Rightarrow> 'r \<Rightarrow>
    (error + random_ring list \<times> output_ref list \<times> 'r) option" where
  "propose N Z offsets histograms mixin [] proposed r = Some (Inr ([], proposed, r))"
| "propose N Z offsets histograms mixin (ring # rings) proposed r =
     (if length (rr_ring ring) < mixin then
        (case pick_for_ring N Z offsets histograms (rr_amount ring) (mixin - length (rr_ring ring)) r of
           None \<Rightarrow> None
         | Some (Inl e) \<Rightarrow>
             if e = Lws not_enough_mixin then propose N Z offsets histograms mixin rings proposed r else Some (Inl e)
         | Some (Inr (latest, r)) \<Rightarrow>
             let refs = fresh_refs (rr_ring ring) latest;
                 ring = ring\<lparr>rr_ring := sort_key ro_index (rr_ring ring) @ map (new_entry \<circ> snd) refs\<rparr> in
             map_option (map_sum id (\<lambda>(rings, rest). (ring # rings, rest)))
               (propose N Z offsets histograms mixin rings (proposed @ refs) r))
      else map_option (map_sum id (\<lambda>(rings, rest). (ring # rings, rest))) (propose N Z offsets histograms mixin rings proposed r))"

text \<open>The new entries get their keys in order; those that are locked are dropped.\<close>

fun fill_ring :: "random_output list \<Rightarrow> output_keys list \<Rightarrow> bool \<Rightarrow> error + random_output list \<times> output_keys list \<times> bool" where
  "fill_ring [] keys finished = Inr ([], keys, finished)"
| "fill_ring (entry # ring) keys finished =
     (if ok_unlocked (ro_keys entry) then check (fill_ring ring keys finished) (\<lambda>(ring, rest). Inr (entry # ring, rest))
      else case keys of
        [] \<Rightarrow> Inl (Lws bad_daemon_response)
      | k # keys \<Rightarrow>
          if ok_unlocked k then check (fill_ring ring keys finished) (\<lambda>(ring, rest). Inr (entry\<lparr>ro_keys := k\<rparr> # ring, rest))
          else fill_ring ring keys False)"

fun fill_rings :: "nat \<Rightarrow> random_ring list \<Rightarrow> output_keys list \<Rightarrow> bool \<Rightarrow> error + random_ring list \<times> bool" where
  "fill_rings mixin [] keys finished = Inr ([], finished)"
| "fill_rings mixin (ring # rings) keys finished =
     check (fill_ring (rr_ring ring) keys (finished \<and> mixin \<le> length (rr_ring ring))) (\<lambda>(entries, keys, finished).
     check (fill_rings mixin rings keys finished) (\<lambda>(rings, finished). Inr (ring\<lparr>rr_ring := entries\<rparr> # rings, finished)))"

fun pick_tries :: "'r randomness \<Rightarrow> decoy_config \<Rightarrow> u64 list \<Rightarrow> histogram list \<Rightarrow> (nat \<Rightarrow> output_ref list \<Rightarrow> error + output_keys list) \<Rightarrow> nat \<Rightarrow> nat \<Rightarrow>
    random_ring list \<Rightarrow> 'r \<Rightarrow> (error + random_ring list) option" where
  "pick_tries N Z offsets histograms fetch mixin 0 rings r = Some (Inl (Lws not_enough_mixin))"
| "pick_tries N Z offsets histograms fetch mixin (Suc tries) rings r =
     (case propose N Z offsets histograms mixin rings [] r of
        None \<Rightarrow> None
      | Some (Inl e) \<Rightarrow> Some (Inl e)
      | Some (Inr (rings, proposed, r)) \<Rightarrow>
          if rings = [] then Some (Inr [])
          else case fetch tries proposed of
            Inl e \<Rightarrow> Some (Inl e)
          | Inr keys \<Rightarrow>
              if length proposed \<noteq> length keys then Some (Inl (Lws bad_daemon_response))
              else case fill_rings mixin rings keys True of
                Inl e \<Rightarrow> Some (Inl e)
              | Inr (rings, all_finished) \<Rightarrow>
                  if all_finished then Some (Inr rings) else pick_tries N Z offsets histograms fetch mixin tries rings r)"

definition pick_random_outputs :: "'r randomness \<Rightarrow> decoy_config \<Rightarrow> nat \<Rightarrow> u64 list \<Rightarrow> u64 list \<Rightarrow> histogram list \<Rightarrow>
    (nat \<Rightarrow> output_ref list \<Rightarrow> error + output_keys list) \<Rightarrow> 'r \<Rightarrow> (error + random_ring list) option" where
  "pick_random_outputs N Z mixin amounts offsets histograms fetch r =
     (if mixin = 0 \<or> amounts = [] then Some (Inr (replicate (length amounts) \<lparr>rr_ring = [], rr_amount = 0\<rparr>))
      else if \<not> mixin \<le> (2 ^ 64 - 1) div length amounts then Some (Inl Invalid_argument)
      else pick_tries N Z offsets (sort_key hi_amount histograms) fetch mixin 64
        (map (\<lambda>amount. \<lparr>rr_ring = [], rr_amount = amount\<rparr>) amounts) r)"

section \<open>The request\<close>

definition max_ring_size :: u64 where
  "max_ring_size = 20"

definition max_rings :: nat where
  "max_rings = 150"

text \<open>
  What is asked of the daemon: the histograms of the amounts that are not hidden, which are first in
  the sorted list, and the distribution of the hidden ones unless a recent one is at hand.
\<close>

definition decoy_sources :: "(u64 list \<Rightarrow> error + histogram list) \<Rightarrow> (error + (u64 \<times> u64 list) list) \<Rightarrow> bool \<Rightarrow> u64 list \<Rightarrow> u64 list \<Rightarrow>
    error + histogram list \<times> u64 list" where
  "decoy_sources ask_histogram distribution expired amounts offsets =
     (let plain = takeWhile (\<lambda>amount. 0 < amount) amounts; ringct_count = length amounts - length plain in
      check
        (if ringct_count < length amounts then
           check (ask_histogram plain) (\<lambda>histograms.
             if length histograms \<noteq> length plain then Inl (Lws bad_daemon_response) else Inr histograms)
         else Inr []) (\<lambda>histograms.
      check
        (if ringct_count \<noteq> 0 \<and> (offsets = [] \<or> expired) then
           check distribution (\<lambda>distributions.
             case distributions of
               [(amount, offsets)] \<Rightarrow> if amount \<noteq> 0 then Inl (Lws bad_daemon_response) else Inr offsets
             | _ \<Rightarrow> Inl (Lws bad_daemon_response))
         else Inr offsets) (\<lambda>offsets.
        Inr (histograms, offsets))))"

definition get_random_outs :: "'r randomness \<Rightarrow> decoy_config \<Rightarrow> (u64 list \<Rightarrow> error + histogram list) \<Rightarrow> (error + (u64 \<times> u64 list) list) \<Rightarrow> bool \<Rightarrow>
    (nat \<Rightarrow> output_ref list \<Rightarrow> error + output_keys list) \<Rightarrow> u64 \<Rightarrow> u64 list \<Rightarrow> u64 list \<Rightarrow> 'r \<Rightarrow> (error + random_ring list \<times> u64 list) option" where
  "get_random_outs N Z ask_histogram distribution expired fetch count amounts offsets r =
     (if max_ring_size < count \<or> max_rings < length amounts then Some (Inl (Lws exceeded_rest_request_limit))
      else
        let amounts = rev (sort amounts) in
        case decoy_sources ask_histogram distribution expired amounts offsets of
          Inl e \<Rightarrow> Some (Inl e)
        | Inr (histograms, offsets) \<Rightarrow>
            map_option (map_sum id (\<lambda>rings. (rings, offsets)))
              (pick_random_outputs N Z (unat count) amounts offsets histograms fetch r))"

section \<open>Filling rings\<close>

text \<open>What becomes of an entry when the keys are known, and the outputs that are asked for.\<close>

definition settle :: "(output_ref \<Rightarrow> output_keys) \<Rightarrow> u64 \<Rightarrow> random_output \<Rightarrow> random_output option" where
  "settle key amount e =
     (if ok_unlocked (ro_keys e) then Some e
      else if ok_unlocked (key (amount, ro_index e)) then Some (e\<lparr>ro_keys := key (amount, ro_index e)\<rparr>) else None)"

definition asked :: "random_ring \<Rightarrow> output_ref list" where
  "asked ring = map (\<lambda>e. (rr_amount ring, ro_index e)) (filter (\<lambda>e. \<not> ok_unlocked (ro_keys e)) (rr_ring ring))"

lemma fill_ring_eq:
  "fill_ring es (map (\<lambda>e. key (amount, ro_index e)) (filter (\<lambda>e. \<not> ok_unlocked (ro_keys e)) es) @ rest) finished =
     Inr (List.map_filter (settle key amount) es, rest, finished \<and> (\<forall>e \<in> set es. settle key amount e \<noteq> None))"
  by (induction es arbitrary: finished) (auto simp: settle_def map_filter_simps)

lemma fill_rings_eq:
  "fill_rings mixin rings (map key (concat (map asked rings))) finished =
     Inr (map (\<lambda>ring. ring\<lparr>rr_ring := List.map_filter (settle key (rr_amount ring)) (rr_ring ring)\<rparr>) rings,
       finished \<and> (\<forall>ring \<in> set rings. mixin \<le> length (rr_ring ring) \<and> (\<forall>e \<in> set (rr_ring ring). settle key (rr_amount ring) e \<noteq> None)))"
proof (induction rings arbitrary: finished)
  case (Cons ring rings)
  have "map key (asked ring) = map (\<lambda>e. key (rr_amount ring, ro_index e)) (filter (\<lambda>e. \<not> ok_unlocked (ro_keys e)) (rr_ring ring))"
    by (simp add: asked_def)
  with Cons.IH fill_ring_eq[of "rr_ring ring" key "rr_amount ring" "map key (concat (map asked rings))"] show ?case by auto
qed simp

text \<open>A ring, with all of its entries settled or with some that still have to be asked for.\<close>

definition ring_ok :: "nat \<Rightarrow> (output_ref \<Rightarrow> output_keys) \<Rightarrow> (output_ref \<Rightarrow> bool) \<Rightarrow> random_ring \<Rightarrow> bool" where
  "ring_ok mixin key within ring \<longleftrightarrow> length (rr_ring ring) \<le> mixin \<and> distinct (map ro_index (rr_ring ring)) \<and>
     (\<forall>e \<in> set (rr_ring ring). within (rr_amount ring, ro_index e) \<and>
        (ok_unlocked (ro_keys e) \<longrightarrow> ro_keys e = key (rr_amount ring, ro_index e)))"

definition settled :: "random_ring \<Rightarrow> bool" where
  "settled ring \<longleftrightarrow> (\<forall>e \<in> set (rr_ring ring). ok_unlocked (ro_keys e))"

lemma settle_Some: "settle key amount e = Some e' \<Longrightarrow>
    ro_index e' = ro_index e \<and> ok_unlocked (ro_keys e') \<and> (ro_keys e' = ro_keys e \<or> ro_keys e' = key (amount, ro_index e))"
  by (auto simp: settle_def split: if_splits)

lemma map_filter_Cons: "List.map_filter f (x # xs) = (case f x of None \<Rightarrow> List.map_filter f xs | Some y \<Rightarrow> y # List.map_filter f xs)"
  by (simp add: map_filter_simps)

lemma settle_subseq: "subseq (map ro_index (List.map_filter (settle key amount) es)) (map ro_index es)"
  by (induction es) (auto simp: map_filter_Cons map_filter_simps dest: settle_Some split: option.split)

lemma subseq_distinct: "subseq xs ys \<Longrightarrow> distinct ys \<Longrightarrow> distinct xs"
  by (induction rule: list_emb.induct) (auto dest: list_emb_set)

lemma set_map_filter_settle: "e' \<in> set (List.map_filter (settle key amount) es) \<longleftrightarrow> (\<exists>e \<in> set es. settle key amount e = Some e')"
  by (induction es) (auto simp: map_filter_Cons map_filter_simps split: option.splits)

lemma ring_ok_settle:
  assumes "ring_ok mixin key within ring"
  shows "ring_ok mixin key within (ring\<lparr>rr_ring := List.map_filter (settle key (rr_amount ring)) (rr_ring ring)\<rparr>) \<and>
    settled (ring\<lparr>rr_ring := List.map_filter (settle key (rr_amount ring)) (rr_ring ring)\<rparr>)"
proof -
  let ?es = "List.map_filter (settle key (rr_amount ring)) (rr_ring ring)"
  have "length ?es \<le> mixin" using list_emb_length[OF settle_subseq[of key "rr_amount ring" "rr_ring ring"]] assms
    by (simp add: ring_ok_def)
  moreover have "distinct (map ro_index ?es)" using subseq_distinct[OF settle_subseq] assms by (simp add: ring_ok_def)
  moreover have "within (rr_amount ring, ro_index e') \<and> ok_unlocked (ro_keys e') \<and> ro_keys e' = key (rr_amount ring, ro_index e')"
    if e': "e' \<in> set ?es" for e'
  proof -
    obtain e where "e \<in> set (rr_ring ring)" "settle key (rr_amount ring) e = Some e'" using e' by (auto simp: set_map_filter_settle)
    with settle_Some[OF this(2)] assms show ?thesis by (auto simp: ring_ok_def settle_def split: if_splits)
  qed
  ultimately show ?thesis unfolding ring_ok_def settled_def by (metis (no_types, lifting) random_ring.select_convs random_ring.surjective random_ring.update_convs(1))
qed

section \<open>Picking\<close>

lemma distinct_remdups_adj: "sorted ys \<Longrightarrow> distinct (remdups_adj ys)"
  by (induction ys rule: remdups_adj.induct) (auto simp: le_less)

lemma map_remdups_adj: "inj_on f (set xs) \<Longrightarrow> map f (remdups_adj xs) = remdups_adj (map f xs)"
  by (induction xs rule: remdups_adj.induct) auto

lemma fresh_refs_facts:
  assumes "\<forall>ref \<in> set latest. fst ref = amount"
  shows "set (fresh_refs current latest) \<subseteq> set latest" "distinct (map snd (fresh_refs current latest))"
    "\<forall>ref \<in> set (fresh_refs current latest). snd ref \<notin> ro_index ` set current" "length (fresh_refs current latest) \<le> length latest"
proof -
  let ?u = "remdups_adj (sort_key snd latest)"
  show "set (fresh_refs current latest) \<subseteq> set latest" "\<forall>ref \<in> set (fresh_refs current latest). snd ref \<notin> ro_index ` set current"
    by (auto simp: fresh_refs_def)
  have "inj_on snd (set (sort_key snd latest))"
  proof (rule inj_onI)
    fix x y assume "x \<in> set (sort_key snd latest)" "y \<in> set (sort_key snd latest)" "snd x = snd y"
    then show "x = y" using assms by (intro prod_eqI) simp_all
  qed
  then have "distinct (map snd ?u)" by (simp add: map_remdups_adj distinct_remdups_adj)
  then show "distinct (map snd (fresh_refs current latest))"
    unfolding fresh_refs_def by (simp add: distinct_map_filter)
  have "length ?u \<le> length latest" using remdups_adj_length[of "sort_key snd latest"] by simp
  then show "length (fresh_refs current latest) \<le> length latest"
    unfolding fresh_refs_def by (rule order_trans[OF length_filter_le])
qed

lemma ring_ok_grow:
  assumes ok: "ring_ok mixin key within ring" "settled ring" and "length (rr_ring ring) < mixin"
    and latest: "length latest = mixin - length (rr_ring ring)" "\<forall>ref \<in> set latest. fst ref = rr_amount ring \<and> within ref"
  defines "refs \<equiv> fresh_refs (rr_ring ring) latest"
  defines "ring' \<equiv> ring\<lparr>rr_ring := sort_key ro_index (rr_ring ring) @ map (new_entry \<circ> snd) refs\<rparr>"
  shows "ring_ok mixin key within ring' \<and> asked ring' = refs"
proof
  have amount: "\<forall>ref \<in> set latest. fst ref = rr_amount ring" using latest(2) by blast
  note fresh = fresh_refs_facts[OF amount, of "rr_ring ring", folded refs_def]
  have refs: "(rr_amount ring, snd ref) = ref \<and> within ref" if "ref \<in> set refs" for ref
  proof -
    have "ref \<in> set latest" using that fresh(1) by blast
    with latest(2) have "fst ref = rr_amount ring \<and> within ref" by blast
    then show ?thesis by (cases ref) simp
  qed
  have new: "ro_index (new_entry x) = x" "\<not> ok_unlocked (ro_keys (new_entry x))" for x by (simp_all add: new_entry_def)
  have old: "filter (\<lambda>e. \<not> ok_unlocked (ro_keys e)) (sort_key ro_index (rr_ring ring)) = []"
    using ok(2) by (simp add: filter_empty_conv settled_def)
  show "asked ring' = refs"
  proof -
    have "map (\<lambda>ref. (rr_amount ring, snd ref)) refs = refs" by (intro map_idI) (rule refs[THEN conjunct1])
    then show ?thesis by (simp add: asked_def ring'_def old new comp_def filter_map)
  qed
  have "distinct (map ro_index (rr_ring ring'))"
  proof -
    have "distinct (map ro_index (sort_key ro_index (rr_ring ring)))" using ok(1) by (simp add: ring_ok_def distinct_map)
    moreover have "map ro_index (rr_ring ring') = map ro_index (sort_key ro_index (rr_ring ring)) @ map snd refs"
      by (simp add: ring'_def comp_def new)
    moreover have "ro_index ` set (rr_ring ring) \<inter> snd ` set refs = {}" using fresh(3) by force
    ultimately show ?thesis using fresh(2) by simp
  qed
  moreover have "within (rr_amount ring', ro_index e) \<and> (ok_unlocked (ro_keys e) \<longrightarrow> ro_keys e = key (rr_amount ring', ro_index e))"
    if e: "e \<in> set (rr_ring ring')" for e
  proof -
    from e have "e \<in> set (rr_ring ring) \<or> (\<exists>ref \<in> set refs. e = new_entry (snd ref))" by (auto simp: ring'_def)
    then show ?thesis
    proof
      assume "e \<in> set (rr_ring ring)"
      with ok(1) show ?thesis by (simp add: ring_ok_def ring'_def)
    next
      assume "\<exists>ref \<in> set refs. e = new_entry (snd ref)"
      then obtain ref where ref: "ref \<in> set refs" "e = new_entry (snd ref)" by blast
      with refs[OF ref(1)] show ?thesis by (simp add: new ring'_def)
    qed
  qed
  moreover have "length (rr_ring ring') \<le> mixin" using fresh(4) latest(1) assms(3) by (simp add: ring'_def)
  ultimately show "ring_ok mixin key within ring'" unfolding ring_ok_def by blast
qed

definition picks_within :: "'r randomness \<Rightarrow> decoy_config \<Rightarrow> u64 list \<Rightarrow> histogram list \<Rightarrow> (output_ref \<Rightarrow> bool) \<Rightarrow> bool" where
  "picks_within N Z offsets histograms within \<longleftrightarrow>
     (\<forall>amount n r latest r'. pick_for_ring N Z offsets histograms amount n r = Some (Inr (latest, r')) \<longrightarrow>
        length latest = n \<and> (\<forall>ref \<in> set latest. fst ref = amount \<and> within ref))"

lemma picks_withinD:
  "picks_within N Z offsets histograms within \<Longrightarrow> pick_for_ring N Z offsets histograms amount n r = Some (Inr (latest, r')) \<Longrightarrow>
     length latest = n \<and> (\<forall>ref \<in> set latest. fst ref = amount \<and> within ref)"
  unfolding picks_within_def by blast

lemma propose_ok:
  assumes picks: "picks_within N Z offsets histograms within"
  shows "propose N Z offsets histograms mixin rings proposed r = Some (Inr (rings', proposed', r')) \<Longrightarrow>
    \<forall>ring \<in> set rings. ring_ok mixin key within ring \<and> settled ring \<Longrightarrow>
    subseq (map rr_amount rings') (map rr_amount rings) \<and> proposed' = proposed @ concat (map asked rings') \<and>
      (\<forall>ring \<in> set rings'. ring_ok mixin key within ring)"
proof (induction rings arbitrary: proposed r rings')
  case (Cons ring rings)
  show ?case
  proof (cases "length (rr_ring ring) < mixin")
    case False
    with Cons.prems(1) obtain rest where rest: "propose N Z offsets histograms mixin rings proposed r = Some (Inr (rest, proposed', r'))"
      "rings' = ring # rest" by (auto elim!: map_sum_InrE)
    have "asked ring = []" using Cons.prems(2) by (simp add: asked_def settled_def filter_empty_conv)
    with Cons.IH[OF rest(1)] Cons.prems(2) rest(2) show ?thesis by simp
  next
    case True
    let ?pick = "pick_for_ring N Z offsets histograms (rr_amount ring) (mixin - length (rr_ring ring)) r"
    show ?thesis
    proof (cases "?pick = Some (Inl (Lws not_enough_mixin))")
      case drop: True
      with Cons.prems True have "propose N Z offsets histograms mixin rings proposed r = Some (Inr (rings', proposed', r'))" by simp
      from Cons.IH[OF this] Cons.prems(2) show ?thesis by (auto intro: list_emb.intros)
    next
      case False
      with Cons.prems(1) True obtain latest r1 where pick: "?pick = Some (Inr (latest, r1))"
        by (auto split: option.splits sum.splits if_splits)
      define refs where "refs = fresh_refs (rr_ring ring) latest"
      define ring1 where "ring1 = ring\<lparr>rr_ring := sort_key ro_index (rr_ring ring) @ map (new_entry \<circ> snd) refs\<rparr>"
      obtain rest where rest: "propose N Z offsets histograms mixin rings (proposed @ refs) r1 = Some (Inr (rest, proposed', r'))"
        "rings' = ring1 # rest"
        using Cons.prems(1) True pick by (auto simp: Let_def refs_def ring1_def elim!: map_sum_InrE)
      have "ring_ok mixin key within ring1 \<and> asked ring1 = refs"
        unfolding ring1_def refs_def by (rule ring_ok_grow) (use Cons.prems(2) True picks_withinD[OF picks pick] in simp_all)
      with Cons.IH[OF rest(1)] Cons.prems(2) rest(2) show ?thesis by (auto simp: ring1_def)
    qed
  qed
qed simp

text \<open>The daemon has fixed keys for every output.\<close>

definition answers :: "(output_ref \<Rightarrow> output_keys) \<Rightarrow> (nat \<Rightarrow> output_ref list \<Rightarrow> error + output_keys list) \<Rightarrow> bool" where
  "answers key fetch \<longleftrightarrow> (\<forall>k refs keys. fetch k refs = Inr keys \<longrightarrow> length refs = length keys \<longrightarrow> keys = map key refs)"

lemma pick_tries_ok:
  assumes picks: "picks_within N Z offsets histograms within"
    and fetch: "answers key fetch"
  shows "pick_tries N Z offsets histograms fetch mixin tries rings r = Some (Inr rings') \<Longrightarrow>
    \<forall>ring \<in> set rings. ring_ok mixin key within ring \<and> settled ring \<Longrightarrow>
    subseq (map rr_amount rings') (map rr_amount rings) \<and>
      (\<forall>ring \<in> set rings'. ring_ok mixin key within ring \<and> settled ring \<and> mixin = length (rr_ring ring))"
proof (induction tries arbitrary: rings r)
  case (Suc tries)
  from Suc.prems(1) obtain rings1 proposed r1 where proposes: "propose N Z offsets histograms mixin rings [] r = Some (Inr (rings1, proposed, r1))"
    by (auto split: option.splits sum.splits)
  note p = propose_ok[OF picks proposes Suc.prems(2)]
  let ?settle = "\<lambda>ring. ring\<lparr>rr_ring := List.map_filter (settle key (rr_amount ring)) (rr_ring ring)\<rparr>"
  show ?case
  proof (cases "rings1 = []")
    case True
    with Suc.prems(1) proposes show ?thesis by simp
  next
    case False
    with Suc.prems(1) proposes obtain keys where keys: "fetch tries proposed = Inr keys" "length proposed = length keys"
      by (auto split: sum.splits if_splits)
    have map_keys: "keys = map key (concat (map asked rings1))" using fetch[unfolded answers_def] keys p by simp
    have ok: "\<forall>ring \<in> set (map ?settle rings1). ring_ok mixin key within ring \<and> settled ring"
      using p ring_ok_settle by auto
    have amounts: "map rr_amount (map ?settle rings1) = map rr_amount rings1" by simp
    show ?thesis
    proof (cases "\<forall>ring \<in> set rings1. mixin \<le> length (rr_ring ring) \<and> (\<forall>e \<in> set (rr_ring ring). settle key (rr_amount ring) e \<noteq> None)")
      case True
      have "mixin = length (rr_ring (?settle ring))" if ring: "ring \<in> set rings1" for ring
      proof -
        have "length (List.map_filter (settle key (rr_amount ring)) es) = length es"
          if "\<forall>e \<in> set es. settle key (rr_amount ring) e \<noteq> None" for es
          using that by (induction es) (auto simp: map_filter_Cons map_filter_simps)
        with True p ring show ?thesis by (force simp: ring_ok_def)
      qed
      moreover have "fill_rings mixin rings1 keys True = Inr (map ?settle rings1, True)"
        unfolding map_keys fill_rings_eq by (simp only: simp_thms eqTrueI[OF True])
      then have "rings' = map ?settle rings1" using Suc.prems(1) proposes False keys by simp
      ultimately show ?thesis using p ok by (auto simp: comp_def)
    next
      case not_all: False
      have "fill_rings mixin rings1 keys True = Inr (map ?settle rings1, False)"
        using not_all unfolding map_keys fill_rings_eq by (simp only: simp_thms)
      then have "pick_tries N Z offsets histograms fetch mixin tries (map ?settle rings1) r1 = Some (Inr rings')"
        using Suc.prems(1) proposes False keys by simp
      from Suc.IH[OF this ok] p show ?thesis unfolding amounts by (meson subseq_order.order_trans)
    qed
  qed
qed simp

section \<open>Ranges\<close>

definition fair :: "'r randomness \<Rightarrow> bool" where
  "fair N \<longleftrightarrow> (\<forall>n r. n \<noteq> 0 \<longrightarrow> fst (rand_idx N n r) < n)"

definition in_range :: "decoy_config \<Rightarrow> u64 list \<Rightarrow> histogram list \<Rightarrow> output_ref \<Rightarrow> bool" where
  "in_range Z offsets histograms ref \<longleftrightarrow>
     (if fst ref = 0 then snd ref < spendable_upper_bound Z offsets
      else \<exists>hist \<in> set histograms. hi_amount hist = fst ref \<and> snd ref \<le> hi_unlocked_count hist)"

lemma add_below: "a \<le> b \<Longrightarrow> k < b - a \<Longrightarrow> a + k < b" for a b k :: u64
  by unat_arith

lemma gamma_tries_bound:
  assumes "sorted offsets" "is_valid_picker Z offsets" "0 < default_spendable_age Z" "fair N"
  shows "gamma_tries N Z offsets tries r = Inr (i, r') \<Longrightarrow> i < spendable_upper_bound Z offsets"
proof (induction tries arbitrary: r)
  case (Suc tries)
  let ?age = "default_spendable_age Z"
  define spendable where "spendable = take (length offsets - ?age + 1) offsets"
  obtain count blocks where c: "outputs_to_consider Z offsets = (count, blocks)" by force
  obtain output_index r1 where a: "age_index N count blocks r = (output_index, r1)" by force
  define selection where "selection = lower_bound spendable (spendable_upper_bound Z offsets - 1 - output_index)"
  define first_rct where "first_rct = (if selection = 0 then 0 else offsets ! (selection - 1))"
  have len: "length spendable = length offsets - ?age + 1" "length offsets - ?age < length offsets"
    using assms(2,3) by (auto simp: spendable_def is_valid_picker_def)
  show ?case
  proof (cases "gamma_tries N Z offsets tries r1 = Inr (i, r')")
    case True
    then show ?thesis by (rule Suc.IH)
  next
    case False
    obtain k r2 where k: "rand_idx N (offsets ! selection - first_rct) r1 = (k, r2)" by force
    from Suc.prems False have sel: "selection \<noteq> length spendable" "offsets ! selection - first_rct \<noteq> 0" "i = first_rct + k"
      using k by (auto simp: c a selection_def spendable_def first_rct_def Let_def split: if_splits)
    have "selection < length spendable" using sel(1) le_neq_implies_less[OF length_takeWhile_le]
      unfolding selection_def lower_bound_def by blast
    then have s: "selection \<le> length offsets - ?age" "selection < length offsets" using len by auto
    have "first_rct \<le> offsets ! selection"
      using sorted_nth_mono[OF assms(1), of "selection - 1" selection] s(2) by (simp add: first_rct_def)
    moreover have "k < offsets ! selection - first_rct" using assms(4) sel(2) k unfolding fair_def by (metis fst_conv)
    ultimately have "i < offsets ! selection" unfolding sel(3) by (rule add_below)
    also have "\<dots> \<le> spendable_upper_bound Z offsets"
      using sorted_nth_mono[OF assms(1) s(1) len(2)] assms(2) by (simp add: spendable_upper_bound_def)
    finally show ?thesis .
  qed
qed simp

lemma triangular_index_bound: "triangular_index N hist r = Some (i, r') \<Longrightarrow> i \<le> hi_unlocked_count hist"
proof -
  assume run: "triangular_index N hist r = Some (i, r')"
  have "fst y \<le> hi_unlocked_count hist'" if "triangular_index N' hist' r = Some y" for N' :: "'a randomness" and hist' r y
  proof (rule triangular_index.raw_induct[where P = "\<lambda>N hist r y. fst y \<le> hi_unlocked_count hist", OF _ that], goal_cases)
    case (1 loop N hist r y)
    then show ?case by (auto simp: Let_def not_less split: prod.splits if_splits)
  qed
  from this[OF run] show ?thesis by simp
qed

lemma triangular_refs_facts:
  "triangular_refs N hist n r = Some (refs, r') \<Longrightarrow>
     length refs = n \<and> (\<forall>ref \<in> set refs. fst ref = hi_amount hist \<and> snd ref \<le> hi_unlocked_count hist)"
proof (induction n arbitrary: r refs)
  case (Suc n)
  then obtain i r1 rest where run: "triangular_index N hist r = Some (i, r1)" "triangular_refs N hist n r1 = Some (rest, r')"
    "refs = (hi_amount hist, i) # rest" by (auto split: option.splits)
  from Suc.IH[OF run(2)] triangular_index_bound[OF run(1)] run(3) show ?case by simp
qed simp

lemma pick_all_facts: "n < 2 ^ 64 \<Longrightarrow> length (pick_all n amount) = n \<and> (\<forall>ref \<in> set (pick_all n amount). fst ref = amount \<and> unat (snd ref) < n)"
  by (auto simp: pick_all_def unat_of_nat)

lemma gamma_refs_facts:
  assumes "sorted offsets" "is_valid_picker Z offsets" "0 < default_spendable_age Z" "fair N"
  shows "gamma_refs N Z offsets n r = Inr (refs, r') \<Longrightarrow>
     length refs = n \<and> (\<forall>ref \<in> set refs. fst ref = 0 \<and> snd ref < spendable_upper_bound Z offsets)"
proof (induction n arbitrary: r refs)
  case (Suc n)
  then obtain i r1 rest where run: "pick_rct N Z offsets r = Inr (i, r1)" "gamma_refs N Z offsets n r1 = Inr (rest, r')" "refs = (0, i) # rest"
    by (auto simp: check_Inr_iff)
  have "i < spendable_upper_bound Z offsets"
    using run(1) assms(2) gamma_tries_bound[OF assms] by (auto simp: pick_rct_def)
  with Suc.IH[OF run(2)] run(3) show ?case by simp
qed simp

lemma picks_in_range:
  assumes "sorted offsets" "0 < default_spendable_age Z" "fair N"
  shows "picks_within N Z offsets histograms (in_range Z offsets histograms)"
  unfolding picks_within_def
proof (intro allI impI)
  fix amount n r latest r' assume pick: "pick_for_ring N Z offsets histograms amount n r = Some (Inr (latest, r'))"
  have small: "unat x < 2 ^ 64" for x :: u64 using unsigned_less[of x, where ?'a = nat] by simp
  show "length latest = n \<and> (\<forall>ref \<in> set latest. fst ref = amount \<and> in_range Z offsets histograms ref)"
  proof (cases "amount = 0")
    case True
    with pick have g: "gamma_pick N Z offsets n r = Inr (latest, r')" by (simp add: pick_for_ring_def)
    then have valid: "is_valid_picker Z offsets" by (auto simp: gamma_pick_def split: if_splits)
    show ?thesis
    proof (cases "unat (spendable_upper_bound Z offsets) = n")
      case eq: True
      with g valid have "latest = pick_all n 0" by (simp add: gamma_pick_def)
      with eq pick_all_facts[of n 0] small True show ?thesis by (auto simp: in_range_def word_less_nat_alt)
    next
      case False
      with g valid have "gamma_refs N Z offsets n r = Inr (latest, r')" by (auto simp: gamma_pick_def split: if_splits)
      from gamma_refs_facts[OF assms(1) valid assms(2,3) this] True show ?thesis by (auto simp: in_range_def)
    qed
  next
    case False
    with pick obtain hist rest where h: "dropWhile (\<lambda>hist. hi_amount hist < amount) histograms = hist # rest" "hi_amount hist = amount"
      "triangular_pick N n hist r = Some (Inr (latest, r'))"
      by (auto simp: pick_for_ring_def split: list.splits if_splits)
    have mem: "hist \<in> set histograms" using set_dropWhileD[of hist _ histograms] h(1) by (metis list.set_intros(1))
    have "length latest = n \<and> (\<forall>ref \<in> set latest. fst ref = amount \<and> snd ref \<le> hi_unlocked_count hist)"
    proof (cases "unat (hi_unlocked_count hist) = n")
      case eq: True
      with h(3) have "latest = pick_all n (hi_amount hist)" by (auto simp: triangular_pick_def split: if_splits)
      moreover have "n < 2 ^ 64" using eq small by metis
      ultimately show ?thesis using eq pick_all_facts[of n amount] h(2) by (auto simp: word_le_nat_alt intro: less_imp_le)
    next
      case neq: False
      with h(3) have "triangular_refs N hist n r = Some (latest, r')" by (auto simp: triangular_pick_def split: if_splits)
      from triangular_refs_facts[OF this] h(2) show ?thesis by simp
    qed
    with mem h(2) False show ?thesis by (auto simp: in_range_def)
  qed
qed

lemma pick_random_outputs_ok:
  assumes run: "pick_random_outputs N Z mixin amounts offsets histograms fetch r = Some (Inr rings)" "mixin \<noteq> 0" "amounts \<noteq> []"
    and fetch: "answers key fetch"
    and sorted: "sorted offsets" "0 < default_spendable_age Z" "fair N"
  shows "subseq (map rr_amount rings) amounts \<and>
    (\<forall>ring \<in> set rings. ring_ok mixin key (in_range Z offsets histograms) ring \<and> settled ring \<and> mixin = length (rr_ring ring))"
proof -
  let ?start = "map (\<lambda>amount. \<lparr>rr_ring = [], rr_amount = amount\<rparr>) amounts"
  have tries: "pick_tries N Z offsets (sort_key hi_amount histograms) fetch mixin 64 ?start r = Some (Inr rings)"
    using run by (simp add: pick_random_outputs_def split: if_splits)
  have same: "in_range Z offsets (sort_key hi_amount histograms) = in_range Z offsets histograms"
    by (rule ext) (simp add: in_range_def)
  have start: "\<forall>ring \<in> set ?start. ring_ok mixin key (in_range Z offsets histograms) ring \<and> settled ring"
    by (simp add: ring_ok_def settled_def)
  have amounts: "map rr_amount ?start = amounts" by (simp add: comp_def)
  show ?thesis
    by (rule pick_tries_ok[OF picks_in_range[OF sorted, of "sort_key hi_amount histograms", unfolded same] fetch tries start, unfolded amounts])
qed

section \<open>Properties\<close>

text \<open>
  C22: Every ring that is returned is for one of the requested amounts and has exactly the requested
  number of decoys, at most twenty; they are different outputs, all of them unlocked, each with the
  keys that the daemon gave for its amount and index, and in the range the daemon has: below the
  spendable outputs for hidden amounts, otherwise at most the unlocked count of the amount.
\<close>

theorem decoys_are_proper:
  assumes "get_random_outs N Z ask_histogram distribution expired fetch count amounts offsets r = Some (Inr (rings, offsets'))"
    and "count \<noteq> 0" and "amounts \<noteq> []"
    and "answers key fetch"
    and "sorted offsets'" and "0 < default_spendable_age Z" and "fair N"
  shows "unat count \<le> 20 \<and> subseq (map rr_amount rings) (rev (sort amounts)) \<and>
    (\<exists>histograms. decoy_sources ask_histogram distribution expired (rev (sort amounts)) offsets = Inr (histograms, offsets') \<and>
     (\<forall>ring \<in> set rings. length (rr_ring ring) = unat count \<and> distinct (map ro_index (rr_ring ring)) \<and>
      (\<forall>e \<in> set (rr_ring ring). ok_unlocked (ro_keys e) \<and> ro_keys e = key (rr_amount ring, ro_index e) \<and>
         in_range Z offsets' histograms (rr_amount ring, ro_index e))))"
proof -
  from assms(1) obtain histograms where src: "\<not> max_ring_size < count"
    "decoy_sources ask_histogram distribution expired (rev (sort amounts)) offsets = Inr (histograms, offsets')"
    "pick_random_outputs N Z (unat count) (rev (sort amounts)) offsets' histograms fetch r = Some (Inr rings)"
  proof (cases "decoy_sources ask_histogram distribution expired (rev (sort amounts)) offsets")
    case (Inl e)
    with assms(1) show thesis by (simp add: get_random_outs_def Let_def split: if_splits)
  next
    case (Inr p)
    obtain histograms offsets1 where p: "p = (histograms, offsets1)" by force
    let ?pick = "pick_random_outputs N Z (unat count) (rev (sort amounts)) offsets1 histograms fetch r"
    from assms(1) Inr p have small: "\<not> max_ring_size < count"
      and mapped: "map_option (map_sum id (\<lambda>rings. (rings, offsets1))) ?pick = Some (Inr (rings, offsets'))"
      by (simp_all add: get_random_outs_def Let_def split: if_splits)
    from mapped obtain y where y: "?pick = Some y" "map_sum id (\<lambda>rings. (rings, offsets1)) y = Inr (rings, offsets')"
      by (cases ?pick) simp_all
    then have "y = Inr rings" "offsets1 = offsets'" by (auto elim!: map_sum_InrE)
    with small Inr p y(1) that show thesis by simp
  qed
  have "unat count \<noteq> 0" using assms(2) by (simp add: unat_eq_zero)
  moreover have "rev (sort amounts) \<noteq> []" using assms(3) by (metis Nil_is_rev_conv length_0_conv length_sort)
  ultimately have ok: "subseq (map rr_amount rings) (rev (sort amounts)) \<and> (\<forall>ring \<in> set rings.
      ring_ok (unat count) key (in_range Z offsets' histograms) ring \<and> settled ring \<and> unat count = length (rr_ring ring))"
    by (rule pick_random_outputs_ok[OF src(3) _ _ assms(4-7)])
  have "unat count \<le> 20" using src(1) by (simp add: max_ring_size_def word_less_nat_alt)
  moreover have "length (rr_ring ring) = unat count \<and> distinct (map ro_index (rr_ring ring)) \<and>
      (\<forall>e \<in> set (rr_ring ring). ok_unlocked (ro_keys e) \<and> ro_keys e = key (rr_amount ring, ro_index e) \<and>
         in_range Z offsets' histograms (rr_amount ring, ro_index e))" if "ring \<in> set rings" for ring
    using bspec[OF conjunct2[OF ok] that] unfolding ring_ok_def settled_def by auto
  ultimately show ?thesis using conjunct1[OF ok] src(2) by blast
qed

lemma pick_tries_success:
  "propose N Z offsets histograms mixin rings [] r = Some (Inr (rings', proposed, r')) \<Longrightarrow> rings' \<noteq> [] \<Longrightarrow>
     fetch tries proposed = Inr keys \<Longrightarrow> length proposed = length keys \<Longrightarrow> fill_rings mixin rings' keys True = Inr (rings'', True) \<Longrightarrow>
     pick_tries N Z offsets histograms fetch mixin (Suc tries) rings r = Some (Inr rings'')"
  by simp

lemma get_random_outs_success:
  "\<not> (max_ring_size < count \<or> max_rings < length amounts) \<Longrightarrow>
     decoy_sources ask distribution expired (rev (sort amounts)) offsets = Inr (histograms, offsets') \<Longrightarrow>
     pick_random_outputs N Z (unat count) (rev (sort amounts)) offsets' histograms fetch r = Some (Inr rings) \<Longrightarrow>
     get_random_outs N Z ask distribution expired fetch count amounts offsets r = Some (Inr (rings, offsets'))"
  by (simp add: get_random_outs_def)

definition demo_random :: "nat randomness" where
  "demo_random = \<lparr>rand_u64 = (\<lambda>r. (of_nat r, Suc r)), rand_idx = (\<lambda>n r. (of_nat r mod n, Suc r)),
     age_index = (\<lambda>count blocks r. (of_nat (r mod 3), Suc r)), triangle = (\<lambda>x total. x mod total)\<rparr>"

definition demo_decoys :: decoy_config where
  "demo_decoys = \<lparr>default_spendable_age = 10, blocks_in_a_year = 262800\<rparr>"

definition demo_keys :: "output_ref \<Rightarrow> output_keys" where
  "demo_keys ref = \<lparr>ok_key = ucast (snd ref) + 100, ok_mask = ucast (fst ref), ok_unlocked = (snd ref \<noteq> 7)\<rparr>"

definition demo_offsets :: "u64 list" where
  "demo_offsets = [1, 2, 2, 5, 6, 7, 8, 9, 10, 11, 12, 13]"

definition demo_rings :: "(error + random_ring list \<times> u64 list) option" where
  "demo_rings = get_random_outs demo_random demo_decoys
     (\<lambda>amounts. Inr (map (\<lambda>amount. \<lparr>hi_amount = amount, hi_total_count = 6, hi_unlocked_count = 5\<rparr>) amounts))
     (Inr [(0, demo_offsets)]) False (\<lambda>k refs. Inr (map demo_keys refs)) 2 [0, 0] [] 0"

lemma demo_pick: "pick_for_ring demo_random demo_decoys demo_offsets histograms 0 2 r = Some (Inr ([(0, 0), (0, 1)], r))"
proof -
  have "pick_all 2 0 = [(0, 0), (0, 1)]" by code_simp
  then show ?thesis
    by (simp add: pick_for_ring_def gamma_pick_def is_valid_picker_def spendable_upper_bound_def demo_decoys_def demo_offsets_def)
qed

lemma demo_fresh: "fresh_refs [] [(0, 0), (0, 1)] = [(0, 0), (0, 1)]"
  by (simp add: fresh_refs_def word_le_nat_alt)

definition demo_ring :: random_ring where
  "demo_ring = \<lparr>rr_ring = map (new_entry \<circ> snd) [(0 :: u64, 0), (0, 1)], rr_amount = 0\<rparr>"

lemma demo_propose: "propose demo_random demo_decoys demo_offsets [] 2 [\<lparr>rr_ring = [], rr_amount = 0\<rparr>, \<lparr>rr_ring = [], rr_amount = 0\<rparr>] [] r =
    Some (Inr ([demo_ring, demo_ring], [(0, 0), (0, 1), (0, 0), (0, 1)], r))"
  by (simp add: demo_pick demo_fresh Let_def demo_ring_def)

lemma demo_fill: "\<exists>rings. fill_rings 2 [demo_ring, demo_ring] (map demo_keys [(0, 0), (0, 1), (0, 0), (0, 1)]) True = Inr (rings, True) \<and>
    map (\<lambda>ring. length (rr_ring ring)) rings = [2, 2]"
  by (simp add: demo_ring_def new_entry_def demo_keys_def)

lemma demo_rings_eval:
  "\<exists>rings. demo_rings = Some (Inr (rings, demo_offsets)) \<and> map (\<lambda>ring. length (rr_ring ring)) rings = [2, 2]"
proof -
  let ?fetch = "\<lambda>k refs. Inr (map demo_keys refs)"
  let ?start = "[\<lparr>rr_ring = [], rr_amount = 0\<rparr>, \<lparr>rr_ring = [], rr_amount = 0\<rparr>]"
  obtain rings where f: "fill_rings 2 [demo_ring, demo_ring] (map demo_keys [(0, 0), (0, 1), (0, 0), (0, 1)]) True = Inr (rings, True)"
    "map (\<lambda>ring. length (rr_ring ring)) rings = [2, 2]" using demo_fill by (elim exE conjE) (rule that)
  have "length [(0 :: u64, 0 :: u64), (0, 1), (0, 0), (0, 1)] = length (map demo_keys [(0, 0), (0, 1), (0, 0), (0, 1)])"
    unfolding length_map ..
  from pick_tries_success[where fetch = ?fetch, OF demo_propose list.distinct(2) refl this f(1)]
  have "pick_tries demo_random demo_decoys demo_offsets [] ?fetch 2 (Suc 63) ?start 0 = Some (Inr rings)" .
  moreover have "(64 :: nat) = Suc 63" by simp
  ultimately have "pick_tries demo_random demo_decoys demo_offsets [] ?fetch 2 64 ?start 0 = Some (Inr rings)"
    by (simp only:)
  moreover have "pick_random_outputs demo_random demo_decoys 2 [0, 0] demo_offsets [] ?fetch 0 =
      pick_tries demo_random demo_decoys demo_offsets [] ?fetch 2 64 ?start 0"
    unfolding pick_random_outputs_def by (simp add: numeral_2_eq_2[symmetric] del: pick_tries.simps)
  ultimately have pick: "pick_random_outputs demo_random demo_decoys 2 [0, 0] demo_offsets [] ?fetch 0 = Some (Inr rings)"
    by (rule trans[rotated])
  have orders: "rev (sort [0 :: u64, 0]) = [0, 0]" "unat (2 :: u64) = 2" by simp_all
  have source: "decoy_sources (\<lambda>amounts. Inr (map (\<lambda>amount. \<lparr>hi_amount = amount, hi_total_count = 6, hi_unlocked_count = 5\<rparr>) amounts))
      (Inr [(0, demo_offsets)]) False [0, 0] [] = Inr ([], demo_offsets)"
    by (simp add: decoy_sources_def)
  have small: "\<not> (max_ring_size < 2 \<or> max_rings < length [0 :: u64, 0])" by (simp add: max_ring_size_def max_rings_def word_less_nat_alt)
  have "demo_rings = Some (Inr (rings, demo_offsets))"
    unfolding demo_rings_def
    by (rule get_random_outs_success[OF small, unfolded orders, OF source pick])
  then show ?thesis using f(2) by (intro exI conjI)
qed

theorem decoys_are_proper_witness:
  "\<exists>rings. demo_rings = Some (Inr (rings, demo_offsets)) \<and> length rings = 2 \<and>
     (\<forall>ring \<in> set rings. length (rr_ring ring) = 2 \<and> distinct (map ro_index (rr_ring ring)) \<and>
        (\<forall>e \<in> set (rr_ring ring). ok_unlocked (ro_keys e)))"
proof -
  obtain rings where r: "demo_rings = Some (Inr (rings, demo_offsets))" "map (\<lambda>ring. length (rr_ring ring)) rings = [2, 2]"
    using demo_rings_eval by (elim exE conjE) (rule that)
  have len: "length rings = 2" using arg_cong[OF r(2), of length] by simp
  have answers: "answers demo_keys (\<lambda>k refs. Inr (map demo_keys refs))" by (simp add: answers_def)
  have "fst (rand_idx demo_random n r) < n" if "n \<noteq> 0" for n r
  proof -
    have "0 < n" using that by (simp add: word_gt_0)
    from word_mod_less_divisor[OF this] show ?thesis unfolding demo_random_def randomness.simps fst_conv .
  qed
  then have fair: "fair demo_random" unfolding fair_def by blast
  have "sorted demo_offsets" by (simp add: demo_offsets_def word_le_nat_alt)
  note ok = decoys_are_proper[OF r(1)[unfolded demo_rings_def] _ _ answers this _ fair]
  have "length (rr_ring ring) = 2 \<and> distinct (map ro_index (rr_ring ring)) \<and> (\<forall>e \<in> set (rr_ring ring). ok_unlocked (ro_keys e))"
    if "ring \<in> set rings" for ring
    using ok that by (auto simp: demo_decoys_def)
  with r(1) len show ?thesis by blast
qed

end
