(* ===== verification/Update.thy ===== *)
theory Update
  imports LwsAccount Chain Accounts
begin

text \<open>
  Storing what a scan has found, \<open>storage::update\<close> of \<open>src/src/db/storage.cpp\<close>, with its
  helpers: spends and their key images, the webhooks that outputs and spends trigger and the
  events that are reported until an output has the confirmations asked for.

  The source throws for a stored value that cannot be read; values are always readable here.
\<close>

section \<open>Spends and webhooks\<close>

fun put_images :: "'t lmdb \<Rightarrow> spend list \<Rightarrow> 't \<Rightarrow> error + 't" where
  "put_images L [] t = Inr t"
| "put_images L (entry # spends) t =
     (let image = \<lparr>ki_value = s_image entry, ki_link = s_link entry\<rparr> in
      case m_put (images_m L) MDB_NODUPDATA (s_source entry) image t of
        Inl e \<Rightarrow> if e \<noteq> MDB_KEYEXIST then Inl (Mdb e) else put_images L spends t
      | Inr t \<Rightarrow> put_images L spends t)"

definition add_spends :: "'t lmdb \<Rightarrow> account_id \<Rightarrow> spend list \<Rightarrow> 't tables \<Rightarrow> error + 't tables" where
  "add_spends L user spends s =
     check (bulk_insert (spends_m L) MDB_NODUPDATA user spends (spends_t s)) (\<lambda>ts.
     check (put_images L spends (images_t s)) (\<lambda>ti. Inr (s\<lparr>spends_t := ts, images_t := ti\<rparr>)))"

text \<open>The first eight bytes of a payment id, as the number they hold.\<close>

definition payment_id_short :: "db_output \<Rightarrow> u64" where
  "payment_id_short out = read_u64 (o_payment_id out)"

fun put_events :: "'t lmdb \<Rightarrow> account_id \<Rightarrow> db_output \<Rightarrow> webhook_value list \<Rightarrow> 't \<Rightarrow> error + 't" where
  "put_events L user out [] t = Inr t"
| "put_events L user out (hook # hooks) t =
     (let event = Webhook_event (Webhook_output (o_link out) (sm_id (o_spend_meta out))) (fst hook) in
      lmdb_check (m_put (events_m L) MDB_DEFAULT user event t) (put_events L user out hooks))"

fun check_hooks_loop :: "'t lmdb \<Rightarrow> account_id \<Rightarrow> db_output list \<Rightarrow> 't tables \<Rightarrow> error + 't tables" where
  "check_hooks_loop L user [] s = Inr s"
| "check_hooks_loop L user (out # outs) s =
     (let payment = payment_id_short out;
          rows = get_both_range (webhooks_m L) fst (webhooks_t s) (Webhook_key user tx_confirmation) (Webhook_dupsort payment 0);
          hooks = takeWhile (\<lambda>hook. wd_payment_id (fst hook) = payment) rows in
      check (put_events L user out hooks (events_t s)) (\<lambda>t. check_hooks_loop L user outs (s\<lparr>events_t := t\<rparr>)))"

definition check_hooks :: "'t lmdb \<Rightarrow> lws_account \<Rightarrow> 't tables \<Rightarrow> error + 't tables" where
  "check_hooks L user s = check_hooks_loop L (lws_account_id user) (la_outputs user) s"

text \<open>The confirmations reported for the blocks after the first one.\<close>

fun next_confirmations :: "nat \<Rightarrow> u32 \<Rightarrow> u32 \<Rightarrow> u32 list" where
  "next_confirmations 0 requested current = []"
| "next_confirmations (Suc blocks) requested current =
     (if requested \<le> current then [] else (current + 1) # next_confirmations blocks requested (current + 1))"

definition with_confirmations :: "webhook_value \<Rightarrow> u32 \<Rightarrow> webhook_value" where
  "with_confirmations value n = (fst value, (snd value)\<lparr>wh_confirmations := n\<rparr>)"

fun ongoing_loop :: "'t lmdb \<Rightarrow> account_id \<Rightarrow> block_id \<Rightarrow> block_id \<Rightarrow> webhook_event list \<Rightarrow> webhook_tx_confirmation list \<Rightarrow>
    't tables \<Rightarrow> error + webhook_tx_confirmation list \<times> 't tables" where
  "ongoing_loop L user begin_id end_id [] events s = Inr (events, s)"
| "ongoing_loop L user begin_id end_id (event # rows) events s =
     (let hook_key = Webhook_key user tx_confirmation;
          link = we_link event;
          height = tl_height (wo_tx link);
          this_begin = max begin_id height in
      if this_begin < end_id then
        lmdb_check (get_both (webhooks_m L) fst (webhooks_t s) hook_key (we_link_webhook event)) (\<lambda>hook.
        lmdb_check (get_both (outputs_m L) output_key (outputs_t s) user (height, tl_tx_hash (wo_tx link), wo_out link)) (\<lambda>out.
        (let requested = wh_confirmations (snd hook);
             first = ucast (this_begin - height + 1);
             confirmations = first # next_confirmations (unat end_id - (unat this_begin + 1)) requested first;
             found = map (\<lambda>n. \<lparr>wc_key = hook_key, wc_value = with_confirmations hook n, wc_tx_info = out\<rparr>) confirmations in
         if requested \<le> last confirmations then
           lmdb_check (m_del (events_m L) user event (events_t s)) (\<lambda>t.
             ongoing_loop L user begin_id end_id rows (events @ found) (s\<lparr>events_t := t\<rparr>))
         else ongoing_loop L user begin_id end_id rows (events @ found) s)))
      else ongoing_loop L user begin_id end_id rows events s)"

definition add_ongoing_hooks :: "'t lmdb \<Rightarrow> account_id \<Rightarrow> block_id \<Rightarrow> block_id \<Rightarrow> webhook_tx_confirmation list \<Rightarrow>
    't tables \<Rightarrow> error + webhook_tx_confirmation list \<times> 't tables" where
  "add_ongoing_hooks L user begin_id end_id events s =
     (if begin_id = end_id then Inr (events, s)
      else ongoing_loop L user begin_id end_id (m_dups (events_m L) (events_t s) user) events s)"

text \<open>
  The output a spend refers to: from the first output that is not below the height of the spend,
  back to the first one. Not finding it is an error.
\<close>

definition find_spend_meta :: "'t lmdb \<Rightarrow> account_id \<Rightarrow> spend \<Rightarrow> 't tables \<Rightarrow> error + spend_meta" where
  "find_spend_meta L user sp s =
     (let rows = m_dups (outputs_m L) (outputs_t s) user;
          height = tl_height (s_link sp) in
      case dropWhile (\<lambda>out. tl_height (o_link out) < height) rows of
        [] \<Rightarrow> Inl (Mdb MDB_NOTFOUND)
      | out # _ \<Rightarrow>
          (case find (\<lambda>out. sm_id (o_spend_meta out) = s_source sp)
              (out # rev (takeWhile (\<lambda>out. tl_height (o_link out) < height) rows)) of
             None \<Rightarrow> Inl (Mdb MDB_NOTFOUND)
           | Some out \<Rightarrow> Inr (o_spend_meta out)))"

fun spend_hooks :: "'t lmdb \<Rightarrow> account_id \<Rightarrow> webhook_value \<Rightarrow> spend list \<Rightarrow> 't tables \<Rightarrow> error + webhook_tx_spend list" where
  "spend_hooks L user hook [] s = Inr []"
| "spend_hooks L user hook (sp # spends) s =
     check (find_spend_meta L user sp s) (\<lambda>meta.
     check (spend_hooks L user hook spends s) (\<lambda>rest.
       Inr (\<lparr>ws_key = Webhook_key user tx_spend, ws_value = hook, ws_input = sp, ws_source = meta\<rparr> # rest)))"

fun check_spends_loop :: "'t lmdb \<Rightarrow> lws_account \<Rightarrow> webhook_value list \<Rightarrow> 't tables \<Rightarrow> error + webhook_tx_spend list" where
  "check_spends_loop L user [] s = Inr []"
| "check_spends_loop L user (hook # hooks) s =
     check (spend_hooks L (lws_account_id user) hook (la_spends user) s) (\<lambda>out.
     check (check_spends_loop L user hooks s) (\<lambda>rest. Inr (out @ rest)))"

definition check_spends :: "'t lmdb \<Rightarrow> lws_account \<Rightarrow> 't tables \<Rightarrow> error + webhook_tx_spend list" where
  "check_spends L user s =
     check_spends_loop L user (m_dups (webhooks_m L) (webhooks_t s) (Webhook_key (lws_account_id user) tx_spend)) s"

section \<open>Storing a scan\<close>

record updated =
  spend_pubs :: "webhook_tx_spend list"
  confirm_pubs :: "webhook_tx_confirmation list"
  accounts_updated :: nat

text \<open>
  The chain: from the last checkpoint on, the scanned blocks have to continue the stored ones
  and the new ones are appended; below it only the last block is compared, when it is stored.
\<close>

definition update_chain :: "'t lmdb \<Rightarrow> checkpoints \<Rightarrow> block_id \<Rightarrow> hash list \<Rightarrow> pow_sync list \<Rightarrow> 't tables \<Rightarrow>
    error + 't tables" where
  "update_chain L cp height chain pow s =
     (let last_update = height + of_nat (length chain) - 1 in
      if get_max_height cp \<le> last_update then
        lmdb_check (get_last_dup (blocks_m L) (blocks_t s) blocks_version) (\<lambda>last_block.
        if bi_id last_block < height then Inl (Lws bad_blockchain)
        else
          let last_same = min (bi_id last_block) last_update;
              offset = last_same - height in
          check (do_get_block_hash L last_same s) (\<lambda>stored.
          if stored \<noteq> chain ! unat offset then Inl (Lws blockchain_reorg)
          else check (append_block_hashes L (height + offset + 1) (drop (unat offset + 1) chain) s) (\<lambda>s.
            if pow = [] then Inr s
            else append_pow L (height + offset + 1) (drop (unat offset + 1) pow) s)))
      else
        (case get_both (blocks_m L) bi_id (blocks_t s) blocks_version last_update of
           Inl e \<Rightarrow> if e \<noteq> MDB_NOTFOUND then Inl (Mdb e) else Inr s
         | Inr cur_block \<Rightarrow> if last chain \<noteq> bi_hash cur_block then Inl (Lws bad_blockchain) else Inr s))"

text \<open>
  The stored account of a scanned one: looked for among the active ones first, then with the
  status it has by its address; an account that is not there any more is skipped.
\<close>

definition find_existing :: "'t lmdb \<Rightarrow> lws_account \<Rightarrow> 't tables \<Rightarrow> error + (account_status \<times> account) option" where
  "find_existing L user s =
     (case get_both (accounts_m L) a_id (accounts_t s) active (lws_account_id user) of
        Inr existing \<Rightarrow> Inr (Some (active, existing))
      | Inl e \<Rightarrow>
          if e \<noteq> MDB_NOTFOUND then Inl (Mdb e)
          else check (db_address user) (\<lambda>address.
            (case get_both (accounts_ba_m L) ba_view (accounts_ba_t s) by_address_version (view_public address) of
               Inl e \<Rightarrow> if e \<noteq> MDB_NOTFOUND then Inl (Mdb e) else Inr None
             | Inr value \<Rightarrow>
                 let status = al_status (ba_lookup value) in
                 lmdb_check (get_both (accounts_m L) a_id (accounts_t s) status (lws_account_id user)) (\<lambda>existing.
                   Inr (Some (status, existing))))))"

text \<open>What is found for an account that is behind: the account, its outputs, spends and hooks.\<close>

definition store_scan :: "'t lmdb \<Rightarrow> u64 \<Rightarrow> u64 \<Rightarrow> lws_account \<Rightarrow> account_status \<Rightarrow> account \<Rightarrow> updated \<Rightarrow> 't tables \<Rightarrow>
    error + updated \<times> 't tables" where
  "store_scan L last_update first_new user status existing out s =
     (let existing_height = a_scan_height existing;
          user_id = lws_account_id user in
      lmdb_check (m_put (accounts_m L) MDB_CURRENT status (existing\<lparr>a_scan_height := last_update\<rparr>) (accounts_t s)) (\<lambda>ta.
      lmdb_check (get_both (accounts_bh_m L) al_id (accounts_bh_t s) existing_height user_id) (\<lambda>lookup.
      lmdb_check (m_del (accounts_bh_m L) existing_height lookup (accounts_bh_t s)) (\<lambda>tbh.
      check (bulk_insert (outputs_m L) MDB_NODUPDATA user_id (la_outputs user) (outputs_t s)) (\<lambda>to.
      check (add_spends L user_id (la_spends user)
          (s\<lparr>accounts_t := ta, accounts_bh_t := tbh, outputs_t := to\<rparr>)) (\<lambda>s.
      check (check_hooks L user s) (\<lambda>s.
      check (add_ongoing_hooks L user_id (max first_new (existing_height + 1)) (last_update + 1) (confirm_pubs out) s) (\<lambda>(confirms, s).
      check (check_spends L user s) (\<lambda>spent.
        Inr (out\<lparr>confirm_pubs := confirms, spend_pubs := spend_pubs out @ spent\<rparr>, s))))))))))"

fun update_loop :: "'t lmdb \<Rightarrow> u64 \<Rightarrow> u64 \<Rightarrow> lws_account list \<Rightarrow> account_lookup list \<Rightarrow> updated \<Rightarrow> 't tables \<Rightarrow>
    error + updated \<times> 't tables" where
  "update_loop L last_update first_new [] heights out s =
     check (bulk_insert (accounts_bh_m L) MDB_NODUPDATA last_update heights (accounts_bh_t s)) (\<lambda>t.
       Inr (out, s\<lparr>accounts_bh_t := t\<rparr>))"
| "update_loop L last_update first_new (user # users) heights out s =
     check (if length heights = 127
            then check (bulk_insert (accounts_bh_m L) MDB_NODUPDATA last_update heights (accounts_bh_t s)) (\<lambda>t.
              Inr ([], s\<lparr>accounts_bh_t := t\<rparr>))
            else Inr (heights, s)) (\<lambda>(heights, s).
     check (find_existing L user s) (\<lambda>found.
       case found of
         None \<Rightarrow> update_loop L last_update first_new users heights out s
       | Some (status, existing) \<Rightarrow>
           if a_scan_height existing < la_height user then update_loop L last_update first_new users heights out s
           else
             let out = out\<lparr>accounts_updated := accounts_updated out + 1\<rparr> in
             if last_update \<le> a_scan_height existing then update_loop L last_update first_new users heights out s
             else check (store_scan L last_update first_new user status existing out s) (\<lambda>(out, s).
               update_loop L last_update first_new users
                 (heights @ [\<lparr>al_id = lws_account_id user, al_status = status\<rparr>]) out s)))"

definition update :: "'t lmdb \<Rightarrow> checkpoints \<Rightarrow> block_id \<Rightarrow> hash list \<Rightarrow> lws_account list \<Rightarrow> pow_sync list \<Rightarrow>
    't tables \<Rightarrow> error + updated \<times> 't tables" where
  "update L cp height chain users pow s =
     (let out = \<lparr>spend_pubs = [], confirm_pubs = [], accounts_updated = 0\<rparr> in
      if users = [] \<and> chain = [] then Inr (out, s)
      else precond (chain \<noteq> []) (precond (pow = [] \<or> length chain = length pow)
        (check (update_chain L cp height chain pow s) (\<lambda>s.
          update_loop L (height + of_nat (length chain) - 1) (height + 1) users [] out s))))"

section \<open>What storing a scan does\<close>

text \<open>
  Accounts that were advanced wait in a buffer for their new row by height; without the ones in
  the buffer the account index is complete.
\<close>

definition pending_inv :: "'t lmdb \<Rightarrow> block_id \<Rightarrow> account_lookup list \<Rightarrow> 't tables \<Rightarrow> bool" where
  "pending_inv L lst heights s \<longleftrightarrow>
     height_set L s = height_entry ` {p \<in> acct_set L s. lookup_of (fst p) (snd p) \<notin> set heights} \<and>
     set (by_address_rows L s) = address_entry ` acct_set L s \<and>
     (\<forall>p \<in> acct_set L s. \<forall>q \<in> acct_set L s. a_id (snd p) = a_id (snd q) \<longrightarrow> p = q) \<and>
     (\<forall>lk \<in> set heights. \<exists>p \<in> acct_set L s. lookup_of (fst p) (snd p) = lk \<and> a_scan_height (snd p) = lst)"

text \<open>Operations that leave the accounts and blocks alone.\<close>

definition acct_frame :: "'t tables \<Rightarrow> 't tables \<Rightarrow> bool" where
  "acct_frame s s' \<longleftrightarrow> accounts_t s' = accounts_t s \<and> accounts_ba_t s' = accounts_ba_t s \<and> accounts_bh_t s' = accounts_bh_t s"

definition advanced :: "block_id \<Rightarrow> lws_account list \<Rightarrow> account \<Rightarrow> bool" where
  "advanced lst users a \<longleftrightarrow>
     (\<exists>u \<in> set users. lws_account_id u = a_id a \<and> la_height u \<le> a_scan_height a \<and> a_scan_height a < lst)"

definition advance :: "block_id \<Rightarrow> lws_account list \<Rightarrow> account_status \<times> account \<Rightarrow> account_status \<times> account" where
  "advance lst users p =
     (if advanced lst users (snd p) then (fst p, (snd p)\<lparr>a_scan_height := lst\<rparr>) else p)"

text \<open>The scanned accounts carry the addresses of the stored ones.\<close>

definition users_match :: "'t lmdb \<Rightarrow> lws_account list \<Rightarrow> 't tables \<Rightarrow> bool" where
  "users_match L users s \<longleftrightarrow>
     (\<forall>u \<in> set users. \<forall>p \<in> acct_set L s. a_id (snd p) = lws_account_id u \<longrightarrow> db_address u = Inr (a_address (snd p)))"

definition spend_images :: "'t lmdb \<Rightarrow> 't tables \<Rightarrow> bool" where
  "spend_images L s \<longleftrightarrow> (\<forall>u. \<forall>sp \<in> set (spends_rows L s u). has_row ki_value (s_image sp) (images_rows L s (s_source sp)))"

lemma advance_Cons: "advance lst users (advance lst [u] p) = advance lst (u # users) p"
  by (auto simp: advance_def advanced_def)

lemma advance_sel [simp]:
  "a_id (snd (advance lst us p)) = a_id (snd p)" "a_address (snd (advance lst us p)) = a_address (snd p)"
  "fst (advance lst us p) = fst p"
  by (simp_all add: advance_def)

lemma acct_frame_refl [simp]: "acct_frame s s"
  by (simp add: acct_frame_def)

lemma acct_frame_trans: "acct_frame s s' \<Longrightarrow> acct_frame s' s'' \<Longrightarrow> acct_frame s s''"
  by (simp add: acct_frame_def)

lemma acct_frame_sets:
  "acct_frame s s' \<Longrightarrow> acct_set L s' = acct_set L s \<and> height_set L s' = height_set L s \<and> by_address_rows L s' = by_address_rows L s"
  by (simp add: acct_frame_def acct_set_def height_set_def)

lemma check_hooks_frame:
  "check_hooks_loop L user outs s = Inr s' \<Longrightarrow>
     acct_frame s s' \<and> outputs_t s' = outputs_t s \<and> spends_t s' = spends_t s \<and> images_t s' = images_t s"
proof (induction outs arbitrary: s)
  case (Cons out outs)
  then obtain t where "check_hooks_loop L user outs (s\<lparr>events_t := t\<rparr>) = Inr s'"
    by (auto simp: Let_def check_Inr_iff)
  from Cons.IH[OF this] show ?case by (simp add: acct_frame_def)
qed simp

lemma ongoing_frame:
  "ongoing_loop L user b e rows events s = Inr (events', s') \<Longrightarrow>
     acct_frame s s' \<and> outputs_t s' = outputs_t s \<and> spends_t s' = spends_t s \<and> images_t s' = images_t s"
proof (induction rows arbitrary: events s)
  case (Cons event rows)
  then obtain events1 t where "ongoing_loop L user b e rows events1 s = Inr (events', s') \<or>
      ongoing_loop L user b e rows events1 (s\<lparr>events_t := t\<rparr>) = Inr (events', s')"
    by (auto simp: Let_def lmdb_check_Inr_iff split: if_splits)
  then show ?case using Cons.IH[of events1 s] Cons.IH[of events1 "s\<lparr>events_t := t\<rparr>"] by (auto simp: acct_frame_def)
qed simp

context lmdb_store begin

lemma pending_inv_Nil: "pending_inv L lst [] s \<longleftrightarrow> accounts_inv L s"
  by (simp add: pending_inv_def accounts_inv_sets)

lemma put_images_ok:
  "\<exists>t'. put_images L spends t = Inr t' \<and>
     (\<forall>out f. has_row ki_value f (m_dups (images_m L) t out) \<longrightarrow> has_row ki_value f (m_dups (images_m L) t' out)) \<and>
     (\<forall>sp \<in> set spends. has_row ki_value (s_image sp) (m_dups (images_m L) t' (s_source sp)))"
proof (induction spends arbitrary: t)
  case (Cons sp spends)
  let ?image = "\<lparr>ki_value = s_image sp, ki_link = s_link sp\<rparr>"
  show ?case
  proof (cases "has_row ki_value (s_image sp) (m_dups (images_m L) t (s_source sp))")
    case True
    then show ?thesis using Cons.IH[of t] by (fastforce simp: Let_def)
  next
    case False
    let ?t = "tput (images_m L) (s_source sp) ?image t"
    have "put_images L (sp # spends) t = put_images L spends ?t" using False by (simp add: Let_def)
    moreover have "has_row ki_value (s_image sp) (m_dups (images_m L) ?t (s_source sp))" by simp
    moreover have "has_row ki_value f (m_dups (images_m L) t out) \<Longrightarrow> has_row ki_value f (m_dups (images_m L) ?t out)" for out f
      by auto
    ultimately show ?thesis using Cons.IH[of ?t] by fastforce
  qed
qed simp

lemma add_spends_ok:
  "\<exists>ts ti. add_spends L user spends s = Inr (s\<lparr>spends_t := ts, images_t := ti\<rparr>) \<and>
     (spend_images L s \<longrightarrow> spend_images L (s\<lparr>spends_t := ts, images_t := ti\<rparr>))"
proof -
  obtain ts where ts: "bulk_insert (spends_m L) MDB_NODUPDATA user spends (spends_t s) = Inr ts"
    "m_dups (spends_m L) ts = (spends_rows L s)(user := fold (ins_new spend_key) spends (spends_rows L s user))"
    using spends.bulk_insert_nodup by blast
  obtain ti where ti: "put_images L spends (images_t s) = Inr ti"
    "\<And>out f. has_row ki_value f (images_rows L s out) \<Longrightarrow> has_row ki_value f (m_dups (images_m L) ti out)"
    "\<And>sp. sp \<in> set spends \<Longrightarrow> has_row ki_value (s_image sp) (m_dups (images_m L) ti (s_source sp))"
    using put_images_ok by blast
  have "sp \<in> set (spends_rows L s u) \<union> set spends" if "sp \<in> set (m_dups (spends_m L) ts u)" for sp u
    using that ins_new_sub(2)[OF spends.dups_sorted, of spends "spends_t s" user] by (auto simp: ts(2) split: if_splits)
  then have "spend_images L s \<Longrightarrow> spend_images L (s\<lparr>spends_t := ts, images_t := ti\<rparr>)"
    unfolding spend_images_def using ti(2,3) by fastforce
  then show ?thesis by (auto simp: add_spends_def ts(1) ti(1))
qed

lemma pending_flush:
  assumes "pending_inv L lst heights s"
  shows "\<exists>t. bulk_insert (accounts_bh_m L) MDB_NODUPDATA lst heights (accounts_bh_t s) = Inr t \<and>
    pending_inv L lst [] (s\<lparr>accounts_bh_t := t\<rparr>) \<and> acct_set L (s\<lparr>accounts_bh_t := t\<rparr>) = acct_set L s"
proof -
  note inv = assms[unfolded pending_inv_def]
  let ?A = "acct_set L s"
  have U: "p = q" if "p \<in> ?A" "q \<in> ?A" "a_id (snd p) = a_id (snd q)" for p q using inv that by blast
  obtain t where t: "bulk_insert (accounts_bh_m L) MDB_NODUPDATA lst heights (accounts_bh_t s) = Inr t"
    "m_dups (accounts_bh_m L) t = (by_height_rows L s)(lst := fold (ins_new al_id) heights (by_height_rows L s lst))"
    using accounts_bh.bulk_insert_nodup by blast
  have rows: "\<exists>p \<in> ?A. lookup_of (fst p) (snd p) = lk" if "lk \<in> set (by_height_rows L s lst) \<union> set heights" for lk
  proof (cases "lk \<in> set heights")
    case False
    with that have "(lst, lk) \<in> height_set L s" by simp
    then show ?thesis using inv unfolding height_entry_def by auto
  qed (use inv in blast)
  have "inj_on al_id (set (by_height_rows L s lst) \<union> set heights)"
  proof (rule inj_onI)
    fix x y assume "x \<in> set (by_height_rows L s lst) \<union> set heights" "y \<in> set (by_height_rows L s lst) \<union> set heights" "al_id x = al_id y"
    moreover from this(1,2) obtain p q where "p \<in> ?A" "lookup_of (fst p) (snd p) = x" "q \<in> ?A" "lookup_of (fst q) (snd q) = y"
      using rows by blast
    ultimately show "x = y" using U[of p q] by auto
  qed
  from ins_new_inj[OF accounts_bh.dups_sorted this]
  have H: "height_set L (s\<lparr>accounts_bh_t := t\<rparr>) = height_set L s \<union> Pair lst ` set heights"
    by (auto simp: height_set_def rows_set_def t(2) split: if_splits)
  have "Pair lst ` set heights = height_entry ` {p \<in> ?A. lookup_of (fst p) (snd p) \<in> set heights}"
  proof (intro set_eqI iffI)
    fix e assume "e \<in> Pair lst ` set heights"
    then obtain lk where lk: "e = (lst, lk)" "lk \<in> set heights" by blast
    from lk(2) inv obtain p where "p \<in> ?A" "lookup_of (fst p) (snd p) = lk" "a_scan_height (snd p) = lst" by metis
    with lk have "p \<in> ?A" "e = (lst, lookup_of (fst p) (snd p))" "lookup_of (fst p) (snd p) \<in> set heights" "a_scan_height (snd p) = lst"
      by simp_all
    then show "e \<in> height_entry ` {p \<in> ?A. lookup_of (fst p) (snd p) \<in> set heights}"
      by (intro image_eqI[of _ _ p]) (simp_all add: height_entry_def)
  next
    fix e assume "e \<in> height_entry ` {p \<in> ?A. lookup_of (fst p) (snd p) \<in> set heights}"
    then obtain p where p: "p \<in> ?A" "e = height_entry p" "lookup_of (fst p) (snd p) \<in> set heights" by blast
    from p(3) inv obtain q where q: "q \<in> ?A" "lookup_of (fst q) (snd q) = lookup_of (fst p) (snd p)" "a_scan_height (snd q) = lst"
      by blast
    then have "q = p" using U[OF q(1) p(1)] by simp
    with p q(3) show "e \<in> Pair lst ` set heights" by (simp add: height_entry_def)
  qed
  moreover have "height_entry ` {p \<in> ?A. Q p} \<union> height_entry ` {p \<in> ?A. \<not> Q p} = height_entry ` ?A" for Q by blast
  ultimately have "height_set L (s\<lparr>accounts_bh_t := t\<rparr>) = height_entry ` ?A"
    unfolding H using inv[THEN conjunct1] by (simp only: Un_commute)
  moreover have "acct_set L (s\<lparr>accounts_bh_t := t\<rparr>) = ?A" by (simp add: acct_set_def)
  moreover have "by_address_rows L (s\<lparr>accounts_bh_t := t\<rparr>) = by_address_rows L s" by simp
  ultimately have "pending_inv L lst [] (s\<lparr>accounts_bh_t := t\<rparr>)"
    using inv unfolding pending_inv_def by (simp del: acct_set_iff height_set_iff)
  with t(1) \<open>acct_set L _ = ?A\<close> show ?thesis by blast
qed

text \<open>An account that is advanced: its old row by height goes, and it waits in the buffer.\<close>

lemma pending_advance:
  assumes inv: "pending_inv L lst heights s" and p: "p \<in> acct_set L s" and lt: "a_scan_height (snd p) < lst"
    and q: "q = (fst p, (snd p)\<lparr>a_scan_height := lst\<rparr>)"
    and A: "acct_set L s' = insert q (acct_set L s - {p})"
    and H: "height_set L s' = height_set L s - {height_entry p}"
    and B: "by_address_rows L s' = by_address_rows L s"
  shows "pending_inv L lst (heights @ [lookup_of (fst p) (snd p)]) s'"
proof -
  note inv' = inv[unfolded pending_inv_def]
  let ?A = "acct_set L s" and ?lk = "lookup_of (fst p) (snd p)"
  have U: "x = y" if "x \<in> ?A" "y \<in> ?A" "a_id (snd x) = a_id (snd y)" for x y using inv' that by blast
  have q_id: "a_id (snd q) = a_id (snd p)" "lookup_of (fst q) (snd q) = ?lk" "address_entry q = address_entry p"
    by (simp_all add: q lookup_of_def address_entry_def)
  have others: "lookup_of (fst x) (snd x) \<noteq> ?lk" "address_entry x \<noteq> address_entry p" "height_entry x \<noteq> height_entry p"
    if "x \<in> ?A" "x \<noteq> p" for x
    using U[OF that(1) p] that(2) entries_inj[of x p] by auto
  have "{x \<in> acct_set L s'. lookup_of (fst x) (snd x) \<notin> set (heights @ [?lk])} =
      {x \<in> ?A. lookup_of (fst x) (snd x) \<notin> set heights} - {p}"
    unfolding A using q_id(2) others(1) by auto
  moreover have "height_entry ` ({x \<in> ?A. lookup_of (fst x) (snd x) \<notin> set heights} - {p}) =
      height_entry ` {x \<in> ?A. lookup_of (fst x) (snd x) \<notin> set heights} - {height_entry p}"
    using others(3) by (intro image_remove) blast
  ultimately have 1: "height_set L s' = height_entry ` {x \<in> acct_set L s'. lookup_of (fst x) (snd x) \<notin> set (heights @ [?lk])}"
    using inv' H by simp
  have 2: "set (by_address_rows L s') = address_entry ` acct_set L s'"
  proof -
    have "address_entry ` acct_set L s' = insert (address_entry p) (address_entry ` (?A - {p}))" by (simp add: A q_id(3))
    also have "\<dots> = address_entry ` ?A" using p by blast
    finally show ?thesis using inv' B by simp
  qed
  have 3: "x = y" if xy: "x \<in> acct_set L s'" "y \<in> acct_set L s'" "a_id (snd x) = a_id (snd y)" for x y
  proof -
    have "z = q" if "z \<in> acct_set L s'" "a_id (snd z) = a_id (snd q)" for z
    proof (rule ccontr)
      assume "z \<noteq> q"
      with that(1) have z: "z \<in> ?A" "z \<noteq> p" unfolding A by blast+
      from U[OF z(1) p] that(2) q_id(1) z(2) show False by simp
    qed
    moreover have "z \<in> ?A" if "z \<in> acct_set L s'" "z \<noteq> q" for z using that unfolding A by blast
    ultimately show ?thesis using xy U[of x y] by metis
  qed
  have 4: "\<exists>x \<in> acct_set L s'. lookup_of (fst x) (snd x) = lk \<and> a_scan_height (snd x) = lst"
    if "lk \<in> set (heights @ [?lk])" for lk
  proof (cases "lk = ?lk")
    case True
    then show ?thesis using q_id(2) unfolding A by (intro bexI[of _ q]) (simp_all add: q)
  next
    case False
    with that inv' obtain x where x: "x \<in> ?A" "lookup_of (fst x) (snd x) = lk" "a_scan_height (snd x) = lst" by auto
    then have "x \<noteq> p" using lt by auto
    with x show ?thesis unfolding A by blast
  qed
  show ?thesis unfolding pending_inv_def using 1 2 3 4 by blast
qed

lemma pending_account:
  assumes "pending_inv L lst heights s" "p \<in> acct_set L s" "a_scan_height (snd p) < lst"
  shows "lookup_of (fst p) (snd p) \<in> set (by_height_rows L s (a_scan_height (snd p)))"
proof -
  have "lookup_of (fst p) (snd p) \<notin> set heights"
  proof
    assume "lookup_of (fst p) (snd p) \<in> set heights"
    then obtain q where "q \<in> acct_set L s" "lookup_of (fst q) (snd q) = lookup_of (fst p) (snd p)" "a_scan_height (snd q) = lst"
      using assms(1) unfolding pending_inv_def by metis
    then have "q = p" using assms(1,2) unfolding pending_inv_def by (metis lookup_of_inject)
    with assms(3) \<open>a_scan_height (snd q) = lst\<close> show False by simp
  qed
  then have "height_entry p \<in> height_set L s" using assms(1,2) unfolding pending_inv_def by blast
  then show ?thesis by (simp add: height_entry_def)
qed

lemma store_scan_eq:
  assumes inv: "pending_inv L lst heights s" and a: "a \<in> set (accounts_rows L s st)" and i: "lws_account_id u = a_id a"
    and lt: "a_scan_height a < lst" and run: "store_scan L lst fn u st a out s = Inr (out', s')"
  shows "pending_inv L lst (heights @ [lookup_of st a]) s'"
    and "acct_set L s' = insert (st, a\<lparr>a_scan_height := lst\<rparr>) (acct_set L s - {(st, a)})"
    and "outputs_rows L s' = (outputs_rows L s)(a_id a := fold (ins_new output_key) (la_outputs u) (outputs_rows L s (a_id a)))"
    and "spend_images L s \<Longrightarrow> spend_images L s'"
    and "accounts_updated out' = accounts_updated out"
proof -
  let ?b = "a\<lparr>a_scan_height := lst\<rparr>"
  have p: "(st, a) \<in> acct_set L s" using a by simp
  have lk: "lookup_of st a \<in> set (by_height_rows L s (a_scan_height a))" using pending_account[OF inv p] lt by simp
  let ?ta = "tput (accounts_m L) st ?b (accounts_t s)"
  let ?tbh = "tdel (accounts_bh_m L) (a_scan_height a) (lookup_of st a) (accounts_bh_t s)"
  have p1: "m_put (accounts_m L) MDB_CURRENT st ?b (accounts_t s) = Inr ?ta"
    using a by (intro accounts.put_current_eq) (auto simp: has_row_def intro: image_eqI[of _ _ a])
  have gh: "get_both (accounts_bh_m L) al_id (accounts_bh_t s) (a_scan_height a) (a_id a) = Inr (lookup_of st a)" using lk by simp
  have d1: "m_del (accounts_bh_m L) (a_scan_height a) (lookup_of st a) (accounts_bh_t s) = Inr ?tbh" using lk by simp
  obtain to where to: "bulk_insert (outputs_m L) MDB_NODUPDATA (a_id a) (la_outputs u) (outputs_t s) = Inr to"
    "m_dups (outputs_m L) to = (outputs_rows L s)(a_id a := fold (ins_new output_key) (la_outputs u) (outputs_rows L s (a_id a)))"
    using outputs.bulk_insert_nodup by blast
  let ?s1 = "s\<lparr>accounts_t := ?ta, accounts_bh_t := ?tbh, outputs_t := to\<rparr>"
  obtain ts ti where sp: "add_spends L (a_id a) (la_spends u) ?s1 = Inr (?s1\<lparr>spends_t := ts, images_t := ti\<rparr>)"
    "spend_images L ?s1 \<longrightarrow> spend_images L (?s1\<lparr>spends_t := ts, images_t := ti\<rparr>)"
    using add_spends_ok by blast
  let ?s2 = "?s1\<lparr>spends_t := ts, images_t := ti\<rparr>"
  from run obtain s3 confirms s4 spent where h: "check_hooks L u ?s2 = Inr s3"
    "add_ongoing_hooks L (a_id a) (max fn (a_scan_height a + 1)) (lst + 1) (confirm_pubs out) s3 = Inr (confirms, s4)"
    "out' = out\<lparr>confirm_pubs := confirms, spend_pubs := spend_pubs out @ spent\<rparr>" "s' = s4"
    by (auto simp: store_scan_def Let_def i p1 gh d1 to(1) sp(1) check_Inr_iff simp del: accounts_bh.get_both_Inr_iff)
  have f1: "acct_frame ?s2 s3 \<and> outputs_t s3 = outputs_t ?s2 \<and> spends_t s3 = spends_t ?s2 \<and> images_t s3 = images_t ?s2"
    using check_hooks_frame[OF h(1)[unfolded check_hooks_def]] .
  have f2: "acct_frame s3 s4 \<and> outputs_t s4 = outputs_t s3 \<and> spends_t s4 = spends_t s3 \<and> images_t s4 = images_t s3"
  proof (cases "max fn (a_scan_height a + 1) = lst + 1")
    case False
    then have "ongoing_loop L (a_id a) (max fn (a_scan_height a + 1)) (lst + 1) (events_rows L s3 (a_id a)) (confirm_pubs out) s3 = Inr (confirms, s4)"
      using h(2) by (simp add: add_ongoing_hooks_def)
    then show ?thesis by (rule ongoing_frame)
  qed (use h(2) in \<open>simp add: add_ongoing_hooks_def\<close>)
  have f3: "acct_frame ?s1 ?s2" by (simp add: acct_frame_def)
  have fr: "acct_frame ?s1 s'" using acct_frame_trans[OF acct_frame_trans[OF f3 f1[THEN conjunct1]] f2[THEN conjunct1]] h(4) by simp
  note sets = acct_frame_sets[OF fr, of L]
  have A: "acct_set L s' = insert (st, ?b) (acct_set L s - {(st, a)})"
  proof -
    have "acct_set L ?s1 = insert (st, ?b) (acct_set L s - {(st, a)})"
      using accounts.rows_put_over[of st a "accounts_t s" ?b] a by (simp add: acct_set_def rows_set_def)
    then show ?thesis using sets by simp
  qed
  then show "acct_set L s' = insert (st, ?b) (acct_set L s - {(st, a)})" .
  have H: "height_set L s' = height_set L s - {height_entry (st, a)}"
  proof -
    have "height_set L ?s1 = height_set L s - {(a_scan_height a, lookup_of st a)}"
      using accounts_bh.rows_del[of "a_scan_height a" "lookup_of st a" "accounts_bh_t s"] lk by (simp add: height_set_def rows_set_def)
    then show ?thesis using sets by (simp add: height_entry_def)
  qed
  have B: "by_address_rows L s' = by_address_rows L s" using sets by simp
  show "pending_inv L lst (heights @ [lookup_of st a]) s'"
    using pending_advance[OF inv p _ _ A H B] lt by simp
  show "outputs_rows L s' = (outputs_rows L s)(a_id a := fold (ins_new output_key) (la_outputs u) (outputs_rows L s (a_id a)))"
    using f1 f2 h(4) to(2) by simp
  show "spend_images L s \<Longrightarrow> spend_images L s'"
    using f1 f2 h(4) sp(2) by (simp add: spend_images_def)
  show "accounts_updated out' = accounts_updated out" by (simp add: h(3))
qed

lemma find_existing_Some:
  assumes "find_existing L u s = Inr (Some (st, a))"
  shows "a \<in> set (accounts_rows L s st) \<and> a_id a = lws_account_id u"
proof (cases "get_both (accounts_m L) a_id (accounts_t s) active (lws_account_id u)")
  case (Inr existing)
  with assms have "st = active" "a = existing" by (simp_all add: find_existing_def del: accounts.get_both_Inr_iff)
  with Inr show ?thesis by simp
next
  case (Inl e)
  then have e: "e = MDB_NOTFOUND" by (simp add: accounts.get_both_Inl_iff)
  from assms Inl e obtain ad where ad: "db_address u = Inr ad" by (auto simp: find_existing_def check_Inr_iff)
  show ?thesis
  proof (cases "get_both (accounts_ba_m L) ba_view (accounts_ba_t s) by_address_version (view_public ad)")
    case none: (Inl x)
    have "find_existing L u s = (if x \<noteq> MDB_NOTFOUND then Inl (Mdb x) else Inr None)"
      by (simp add: find_existing_def Inl e ad none)
    with assms show ?thesis by (simp split: if_splits)
  next
    case (Inr e1)
    with assms Inl e ad have "get_both (accounts_m L) a_id (accounts_t s) (al_status (ba_lookup e1)) (lws_account_id u) = Inr a"
      "al_status (ba_lookup e1) = st"
      by (auto simp: find_existing_def Let_def lmdb_check_Inr_iff simp del: accounts.get_both_Inr_iff accounts_ba.get_both_Inr_iff)
    then show ?thesis by simp
  qed
qed

lemma find_existing_eq:
  assumes inv: "pending_inv L lst heights s" and a: "a \<in> set (accounts_rows L s st)" and i: "a_id a = lws_account_id u"
    and ad: "db_address u = Inr (a_address a)"
  shows "find_existing L u s = Inr (Some (st, a))"
proof (cases "st = active")
  case True
  then have "get_both (accounts_m L) a_id (accounts_t s) active (lws_account_id u) = Inr a" using a i by simp
  with True show ?thesis by (simp add: find_existing_def del: accounts.get_both_Inr_iff)
next
  case False
  have p: "(st, a) \<in> acct_set L s" using a by simp
  have e: "address_entry (st, a) \<in> set (by_address_rows L s)" using inv p unfolding pending_inv_def by blast
  have "\<not> has_row a_id (lws_account_id u) (accounts_rows L s active)"
  proof
    assume "has_row a_id (lws_account_id u) (accounts_rows L s active)"
    then obtain b where b: "b \<in> set (accounts_rows L s active)" "a_id b = a_id a" using i by (auto simp: has_row_def)
    then have "(active, b) \<in> acct_set L s" by simp
    with inv p b(2) have "(active, b) = (st, a)" unfolding pending_inv_def by (metis snd_conv)
    with False show False by simp
  qed
  then have n: "get_both (accounts_m L) a_id (accounts_t s) active (lws_account_id u) = Inl MDB_NOTFOUND"
    by (simp add: accounts.get_both_Inl_iff)
  have g: "get_both (accounts_ba_m L) ba_view (accounts_ba_t s) by_address_version (view_public (a_address a)) = Inr (address_entry (st, a))"
    using e by (simp add: ba_view_def address_entry_def)
  have ga: "get_both (accounts_m L) a_id (accounts_t s) st (lws_account_id u) = Inr a" using a i by simp
  show ?thesis
    unfolding find_existing_def n ad using g ga by (simp add: address_entry_def Let_def del: accounts.get_both_Inr_iff accounts_ba.get_both_Inr_iff)
qed

text \<open>One scanned account: it is skipped or stored.\<close>

lemma update_step:
  assumes inv: "pending_inv L lst heights s" and m: "users_match L (u # us) s"
    and run: "update_loop L lst fn (u # us) heights out s = Inr (out', s')"
  obtains heights1 out1 s1 where "update_loop L lst fn us heights1 out1 s1 = Inr (out', s')" "pending_inv L lst heights1 s1"
    "acct_set L s1 = advance lst [u] ` acct_set L s"
    "outputs_rows L s1 = (if \<exists>p \<in> acct_set L s. advanced lst [u] (snd p)
       then (outputs_rows L s)(lws_account_id u := fold (ins_new output_key) (la_outputs u) (outputs_rows L s (lws_account_id u)))
       else outputs_rows L s)"
    "spend_images L s \<longrightarrow> spend_images L s1"
proof -
  obtain h0 s0 where flush: "(if length heights = 127
      then check (bulk_insert (accounts_bh_m L) MDB_NODUPDATA lst heights (accounts_bh_t s)) (\<lambda>t. Inr ([], s\<lparr>accounts_bh_t := t\<rparr>))
      else Inr (heights, s)) = Inr (h0, s0)" "pending_inv L lst h0 s0" "acct_set L s0 = acct_set L s"
      "outputs_rows L s0 = outputs_rows L s" "spend_images L s \<longrightarrow> spend_images L s0"
  proof (cases "length heights = 127")
    case True
    obtain t where "bulk_insert (accounts_bh_m L) MDB_NODUPDATA lst heights (accounts_bh_t s) = Inr t"
      "pending_inv L lst [] (s\<lparr>accounts_bh_t := t\<rparr>)" "acct_set L (s\<lparr>accounts_bh_t := t\<rparr>) = acct_set L s"
      using pending_flush[OF inv] by blast
    then show ?thesis by (intro that[of "[]" "s\<lparr>accounts_bh_t := t\<rparr>"]) (simp_all add: True spend_images_def)
  qed (use inv that[of heights s] in simp)
  let ?A = "acct_set L s"
  have U: "x = y" if "x \<in> ?A" "y \<in> ?A" "a_id (snd x) = a_id (snd y)" for x y
    using inv that unfolding pending_inv_def by blast
  obtain found where f: "find_existing L u s0 = Inr found" using run flush(1) by (auto simp: check_Inr_iff)
  have id_out: "advance lst [u] ` ?A = ?A" if "\<And>p. p \<in> ?A \<Longrightarrow> \<not> advanced lst [u] (snd p)"
    using that by (force simp: advance_def)
  show ?thesis
  proof (cases found)
    case None
    have "\<not> advanced lst [u] (snd p)" if "p \<in> ?A" for p
    proof
      assume "advanced lst [u] (snd p)"
      then have i: "a_id (snd p) = lws_account_id u" by (simp add: advanced_def)
      have "snd p \<in> set (accounts_rows L s0 (fst p))" using that flush(3) by (metis acct_set_iff prod.collapse)
      from find_existing_eq[OF flush(2) this i] m that i f None show False by (auto simp: users_match_def simp del: acct_set_iff)
    qed
    then show ?thesis
      using run flush f None id_out by (intro that[of h0 out s0]) (auto simp del: acct_set_iff)
  next
    case (Some pa)
    then obtain st a where pa: "found = Some (st, a)" by (cases pa) auto
    from find_existing_Some f pa have a: "a \<in> set (accounts_rows L s0 st)" "a_id a = lws_account_id u" by blast+
    have p: "(st, a) \<in> ?A" using a(1) flush(3) by (metis acct_set_iff)
    have adv: "advanced lst [u] (snd q) \<longleftrightarrow> q = (st, a) \<and> la_height u \<le> a_scan_height a \<and> a_scan_height a < lst" if "q \<in> ?A" for q
      using U[OF that p] a(2) by (auto simp: advanced_def)
    show ?thesis
    proof (cases "la_height u \<le> a_scan_height a \<and> a_scan_height a < lst")
      case False
      then have no: "\<And>q. q \<in> ?A \<Longrightarrow> \<not> advanced lst [u] (snd q)" using adv by blast
      obtain out1 where "update_loop L lst fn us h0 out1 s0 = Inr (out', s')"
        using run flush(1) f pa False by (auto simp: Let_def not_le not_less split: if_splits)
      then show ?thesis using flush id_out[OF no] no by (intro that[of h0 out1 s0]) (auto simp del: acct_set_iff)
    next
      case True
      then obtain out0 out1 s1 where st: "store_scan L lst fn u st a out0 s0 = Inr (out1, s1)"
        and rest: "update_loop L lst fn us (h0 @ [\<lparr>al_id = lws_account_id u, al_status = st\<rparr>]) out1 s1 = Inr (out', s')"
        using run flush(1) f pa by (auto simp: Let_def check_Inr_iff split: if_splits)
      have lk: "\<lparr>al_id = lws_account_id u, al_status = st\<rparr> = lookup_of st a" by (simp add: lookup_of_def a(2))
      note sc = store_scan_eq[OF flush(2) a(1) a(2)[symmetric] _ st]
      have "advance lst [u] ` ?A = (\<lambda>x. if x = (st, a) then (st, a\<lparr>a_scan_height := lst\<rparr>) else x) ` ?A"
        by (rule image_cong[OF refl]) (use adv True in \<open>auto simp: advance_def simp del: acct_set_iff\<close>)
      also have "\<dots> = insert (st, a\<lparr>a_scan_height := lst\<rparr>) (?A - {(st, a)})" by (rule image_swap[OF p])
      finally have A: "acct_set L s1 = advance lst [u] ` ?A" using sc(2) True flush(3) by simp
      have "\<exists>p \<in> ?A. advanced lst [u] (snd p)" using adv[OF p] True p by blast
      then show ?thesis
        using rest sc(1,3,4) True A flush(4,5) by (intro that[of "h0 @ [lookup_of st a]" out1 s1]) (simp_all add: lk a(2))
    qed
  qed
qed

lemma update_loop_ok:
  assumes "pending_inv L lst heights s" "users_match L us s" "update_loop L lst fn us heights out s = Inr (out', s')"
  shows "accounts_inv L s' \<and> acct_set L s' = advance lst us ` acct_set L s \<and> (spend_images L s \<longrightarrow> spend_images L s') \<and>
    (\<forall>j. set (outputs_rows L s j) \<subseteq> set (outputs_rows L s' j) \<and>
       set (outputs_rows L s' j) \<subseteq> set (outputs_rows L s j) \<union> (\<Union>u \<in> {u \<in> set us. lws_account_id u = j}. set (la_outputs u))) \<and>
    (distinct (map lws_account_id us) \<longrightarrow> (\<forall>u \<in> set us. (\<exists>p \<in> acct_set L s. advanced lst [u] (snd p)) \<longrightarrow>
       (\<forall>out \<in> set (la_outputs u). has_row output_key (output_key out) (outputs_rows L s' (lws_account_id u)))))"
  using assms
proof (induction us arbitrary: heights out s)
  case Nil
  obtain t where t: "bulk_insert (accounts_bh_m L) MDB_NODUPDATA lst heights (accounts_bh_t s) = Inr t"
    "pending_inv L lst [] (s\<lparr>accounts_bh_t := t\<rparr>)" "acct_set L (s\<lparr>accounts_bh_t := t\<rparr>) = acct_set L s"
    using pending_flush[OF Nil.prems(1)] by blast
  with Nil.prems(3) have s': "s' = s\<lparr>accounts_bh_t := t\<rparr>" by simp
  have "advance lst [] = id" by (rule ext) (simp add: advance_def advanced_def)
  then show ?case using t(2,3) unfolding s' pending_inv_Nil by (simp add: spend_images_def)
next
  case (Cons u us)
  obtain heights1 out1 s1 where st: "update_loop L lst fn us heights1 out1 s1 = Inr (out', s')" "pending_inv L lst heights1 s1"
    and A: "acct_set L s1 = advance lst [u] ` acct_set L s"
    and O: "outputs_rows L s1 = (if \<exists>p \<in> acct_set L s. advanced lst [u] (snd p)
       then (outputs_rows L s)(lws_account_id u := fold (ins_new output_key) (la_outputs u) (outputs_rows L s (lws_account_id u)))
       else outputs_rows L s)"
    and sp: "spend_images L s \<longrightarrow> spend_images L s1"
    using update_step[OF Cons.prems] .
  have m: "users_match L us s1"
    using Cons.prems(2) unfolding users_match_def A by (simp del: acct_set_iff)
  note IH = Cons.IH[OF st(2) m st(1)]
  note ins = ins_new_sub[OF outputs.dups_sorted[of "outputs_t s" "lws_account_id u"], where vs = "la_outputs u"]
  have grow: "set (outputs_rows L s j) \<subseteq> set (outputs_rows L s1 j)" for j
    using ins(1) by (auto simp: O)
  have new: "set (outputs_rows L s1 j) \<subseteq> set (outputs_rows L s j) \<union> (if lws_account_id u = j then set (la_outputs u) else {})" for j
    using ins(2) by (auto simp: O split: if_splits)
  have part1: "acct_set L s' = advance lst (u # us) ` acct_set L s"
    using IH unfolding A image_image advance_Cons by blast
  have part2: "set (outputs_rows L s j) \<subseteq> set (outputs_rows L s' j)"
    "set (outputs_rows L s' j) \<subseteq> set (outputs_rows L s j) \<union> (\<Union>u \<in> {v \<in> set (u # us). lws_account_id v = j}. set (la_outputs u))" for j
  proof -
    show "set (outputs_rows L s j) \<subseteq> set (outputs_rows L s' j)" using IH grow by blast
    have "set (outputs_rows L s' j) \<subseteq> set (outputs_rows L s1 j) \<union> (\<Union>u \<in> {u \<in> set us. lws_account_id u = j}. set (la_outputs u))"
      using IH by blast
    then show "set (outputs_rows L s' j) \<subseteq> set (outputs_rows L s j) \<union> (\<Union>u \<in> {v \<in> set (u # us). lws_account_id v = j}. set (la_outputs u))"
      using new[of j] by (auto split: if_splits)
  qed
  have part3: "has_row output_key (output_key out) (outputs_rows L s' (lws_account_id v))"
    if d: "distinct (map lws_account_id (u # us))" and v: "v \<in> set (u # us)" "p \<in> acct_set L s" "advanced lst [v] (snd p)"
      and out: "out \<in> set (la_outputs v)" for v p out
  proof (cases "v = u")
    case True
    then have "has_row output_key (output_key out) (outputs_rows L s1 (lws_account_id u))"
      using ins(3)[OF out[unfolded True]] v by (auto simp: O simp del: acct_set_iff)
    moreover have "set (outputs_rows L s1 (lws_account_id u)) \<subseteq> set (outputs_rows L s' (lws_account_id u))" using IH by blast
    ultimately show ?thesis unfolding True by (auto simp: has_row_def)
  next
    case False
    with v(1) have vs: "v \<in> set us" by simp
    from d have "lws_account_id u \<notin> lws_account_id ` set us" by simp
    with vs have "lws_account_id v \<noteq> lws_account_id u" by (metis imageI)
    have dus: "distinct (map lws_account_id us)" using d by simp
    with v(3) \<open>lws_account_id v \<noteq> lws_account_id u\<close> have "\<not> advanced lst [u] (snd p)" by (auto simp: advanced_def)
    then have "advance lst [u] p = p" by (simp add: advance_def)
    with v(2) have "p \<in> acct_set L s1" unfolding A by (metis imageI)
    then have "\<exists>p \<in> acct_set L s1. advanced lst [v] (snd p)" using v(3) by (rule bexI[rotated])
    from IH[THEN conjunct2, THEN conjunct2, THEN conjunct2, THEN conjunct2, THEN mp, OF dus, THEN bspec, OF vs, THEN mp, OF this, THEN bspec, OF out]
    show ?thesis .
  qed
  have part4: "spend_images L s \<longrightarrow> spend_images L s'" using sp IH[THEN conjunct2, THEN conjunct2, THEN conjunct1] by simp
  have part5: "distinct (map lws_account_id (u # us)) \<longrightarrow> (\<forall>v \<in> set (u # us). (\<exists>p \<in> acct_set L s. advanced lst [v] (snd p)) \<longrightarrow>
       (\<forall>out \<in> set (la_outputs v). has_row output_key (output_key out) (outputs_rows L s' (lws_account_id v))))"
    by (intro impI ballI, elim bexE) (rule part3)
  show ?case
    by (rule conjI[OF IH[THEN conjunct1] conjI[OF part1 conjI[OF part4 conjI[OF allI[OF conjI[OF part2]] part5]]]])
qed

end

definition rows_frame :: "'t tables \<Rightarrow> 't tables \<Rightarrow> bool" where
  "rows_frame s s' \<longleftrightarrow> acct_frame s s' \<and> outputs_t s' = outputs_t s \<and> spends_t s' = spends_t s \<and> images_t s' = images_t s \<and>
     webhooks_t s' = webhooks_t s \<and> events_t s' = events_t s"

lemma rows_frame_trans: "rows_frame s s' \<Longrightarrow> rows_frame s' s'' \<Longrightarrow> rows_frame s s''"
  by (simp add: rows_frame_def acct_frame_def)

lemma append_frame:
  "append_block_hashes L f c s = Inr s' \<Longrightarrow> rows_frame s s'" "append_pow L f d s = Inr s' \<Longrightarrow> rows_frame s s'"
  by (auto simp: append_block_hashes_def append_pow_def check_Inr_iff rows_frame_def acct_frame_def)

lemma update_chain_frame:
  assumes "update_chain L cp height chain pow s = Inr s'"
  shows "rows_frame s s'"
proof (cases "get_max_height cp \<le> height + of_nat (length chain) - 1")
  case True
  with assms show ?thesis
    by (auto simp: update_chain_def Let_def lmdb_check_Inr_iff check_Inr_iff split: if_splits
        dest: append_frame intro: rows_frame_trans)
next
  case False
  with assms have "s' = s" by (auto simp: update_chain_def Let_def split: sum.splits if_splits)
  then show ?thesis by (simp add: rows_frame_def)
qed

lemma update_ran:
  assumes "lmdb_store L" and "accounts_inv L s" and "users_match L users s"
    and "update L cp height chain users pow s = Inr (out, s')"
  obtains "s' = s" "users = []"
  | out0 s1 where "pending_inv L (height + of_nat (length chain) - 1) [] s1" "users_match L users s1"
      "update_loop L (height + of_nat (length chain) - 1) (height + 1) users [] out0 s1 = Inr (out, s')"
      "rows_frame s s1" "acct_set L s1 = acct_set L s"
proof (cases "users = [] \<and> chain = []")
  case True
  then show ?thesis using assms(4) by (intro that(1)) (auto simp: update_def)
next
  case False
  then obtain s1 where c: "update_chain L cp height chain pow s = Inr s1"
    and l: "update_loop L (height + of_nat (length chain) - 1) (height + 1) users [] \<lparr>spend_pubs = [], confirm_pubs = [], accounts_updated = 0\<rparr> s1 = Inr (out, s')"
    using assms(4) by (auto simp: update_def Let_def precond_def check_Inr_iff split: if_splits)
  from update_chain_frame[OF c] have f: "rows_frame s s1" .
  then have af: "acct_frame s s1" by (simp add: rows_frame_def)
  have A: "acct_set L s1 = acct_set L s" using acct_frame_sets[OF af] by blast
  have "accounts_inv L s1" using assms(2) af by (simp add: accounts_inv_def acct_frame_def)
  then have p: "pending_inv L (height + of_nat (length chain) - 1) [] s1" using lmdb_store.pending_inv_Nil[OF assms(1)] by blast
  have m: "users_match L users s1" using assms(3) by (simp add: users_match_def A del: acct_set_iff)
  show ?thesis by (rule that(2)[OF p m l f A])
qed

lemma update_facts:
  assumes "lmdb_store L" and "accounts_inv L s" and "users_match L users s"
    and "update L cp height chain users pow s = Inr (out, s')"
  shows "accounts_inv L s'" and "acct_set L s' = advance (height + of_nat (length chain) - 1) users ` acct_set L s"
    and "spend_images L s \<Longrightarrow> spend_images L s'"
    and "set (outputs_rows L s j) \<subseteq> set (outputs_rows L s' j) \<and>
      set (outputs_rows L s' j) \<subseteq> set (outputs_rows L s j) \<union> (\<Union>u \<in> {u \<in> set users. lws_account_id u = j}. set (la_outputs u))"
    and "distinct (map lws_account_id users) \<Longrightarrow> u \<in> set users \<Longrightarrow>
      \<exists>p \<in> acct_set L s. advanced (height + of_nat (length chain) - 1) [u] (snd p) \<Longrightarrow> found \<in> set (la_outputs u) \<Longrightarrow>
      has_row output_key (output_key found) (outputs_rows L s' (lws_account_id u))"
proof -
  have "accounts_inv L s' \<and> acct_set L s' = advance (height + of_nat (length chain) - 1) users ` acct_set L s \<and>
    (spend_images L s \<longrightarrow> spend_images L s') \<and>
    (\<forall>j. set (outputs_rows L s j) \<subseteq> set (outputs_rows L s' j) \<and>
      set (outputs_rows L s' j) \<subseteq> set (outputs_rows L s j) \<union> (\<Union>u \<in> {u \<in> set users. lws_account_id u = j}. set (la_outputs u))) \<and>
    (distinct (map lws_account_id users) \<longrightarrow> (\<forall>u \<in> set users.
      (\<exists>p \<in> acct_set L s. advanced (height + of_nat (length chain) - 1) [u] (snd p)) \<longrightarrow>
      (\<forall>out \<in> set (la_outputs u). has_row output_key (output_key out) (outputs_rows L s' (lws_account_id u)))))"
  proof (cases rule: update_ran[OF assms])
    case 1
    then have "advance lst users = id" for lst by (auto simp: advance_def advanced_def fun_eq_iff)
    with 1 assms(2) show ?thesis by simp
  next
    case (2 out0 s1)
    have im: "spend_images L s \<longrightarrow> spend_images L s1" and o: "outputs_rows L s1 = outputs_rows L s"
      using 2(4) by (simp_all add: rows_frame_def spend_images_def)
    note ok = lmdb_store.update_loop_ok[OF assms(1) 2(1,2,3), unfolded o 2(5)]
    show ?thesis using ok[THEN conjunct1] ok[THEN conjunct2, THEN conjunct1] ok[THEN conjunct2, THEN conjunct2, THEN conjunct1]
        ok[THEN conjunct2, THEN conjunct2, THEN conjunct2] im by (intro conjI) simp_all
  qed
  then show "accounts_inv L s'" "acct_set L s' = advance (height + of_nat (length chain) - 1) users ` acct_set L s"
    "spend_images L s \<Longrightarrow> spend_images L s'"
    "set (outputs_rows L s j) \<subseteq> set (outputs_rows L s' j) \<and>
      set (outputs_rows L s' j) \<subseteq> set (outputs_rows L s j) \<union> (\<Union>u \<in> {u \<in> set users. lws_account_id u = j}. set (la_outputs u))"
    "distinct (map lws_account_id users) \<Longrightarrow> u \<in> set users \<Longrightarrow>
      \<exists>p \<in> acct_set L s. advanced (height + of_nat (length chain) - 1) [u] (snd p) \<Longrightarrow> found \<in> set (la_outputs u) \<Longrightarrow>
      has_row output_key (output_key found) (outputs_rows L s' (lws_account_id u))"
    by blast+
qed

section \<open>Properties\<close>

text \<open>
  C6: Storing a scan keeps the account index consistent, and moves exactly the accounts that were
  scanned from where they are, or from below, to the last block; an account that was set back
  meanwhile is left alone. Spends keep their key images.
\<close>

theorem update_advances_accounts:
  assumes "lmdb_store L" and "accounts_inv L s" and "users_match L users s"
    and "update L cp height chain users pow s = Inr (out, s')"
  shows "accounts_inv L s' \<and>
    acct_set L s' = advance (height + of_nat (length chain) - 1) users ` acct_set L s \<and>
    (spend_images L s \<longrightarrow> spend_images L s')"
  by (intro conjI impI update_facts[OF assms])

definition demo_user :: lws_account where
  "demo_user =
     add_account_spend
       (snd (add_account_out (make_account (\<lambda>a. []) demo_account [(Output_id 0 1, Address_index 0 0)] []) (demo_output 4 7)))
       (demo_spend\<lparr>s_link := Transaction_link 4 104, s_image := 42\<rparr>)"

definition demo_quiet :: "cell list tables" where
  "demo_quiet = demo\<lparr>events_t := []\<rparr>"

lemma demo_update_runs:
  obtains out s' where "update log_lmdb demo_checkpoints 3 [503, 777] [demo_user] [] demo_quiet = Inr (out, s')"
proof -
  have "case update log_lmdb demo_checkpoints 3 [503, 777] [demo_user] [] demo_quiet of Inl e \<Rightarrow> False | Inr r \<Rightarrow> True"
    by code_simp
  then show ?thesis using that by (cases "update log_lmdb demo_checkpoints 3 [503, 777] [demo_user] [] demo_quiet") auto
qed

lemma demo_quiet_accounts: "acct_set log_lmdb demo_quiet = {(active, demo_account), (inactive, demo_account2)}"
proof -
  have "acct_set log_lmdb demo_quiet = acct_set log_lmdb demo" by (simp add: acct_set_def demo_quiet_def)
  also have "\<dots> = {(active, demo_account), (inactive, demo_account2)}"
    by (auto simp: demo_accounts split: account_status.splits)
  finally show ?thesis .
qed

lemma demo_user_eval:
  "db_address demo_user = Inr (a_address demo_account)" "lws_account_id demo_user = 1" "la_height demo_user = 3"
  "la_outputs demo_user = [demo_output 4 7]"
  by code_simp+

lemma demo_users_match: "users_match log_lmdb [demo_user] demo_quiet"
  unfolding users_match_def demo_quiet_accounts by (simp add: demo_user_eval) (simp add: demo_account2_def)

lemma demo_quiet_inv: "accounts_inv log_lmdb demo_quiet"
  using demo_accounts_inv by (simp add: accounts_inv_def demo_quiet_def)

theorem update_advances_accounts_witness:
  "\<exists>out s'. update log_lmdb demo_checkpoints 3 [503, 777] [demo_user] [] demo_quiet = Inr (out, s') \<and>
     accounts_inv log_lmdb s' \<and> (active, demo_account\<lparr>a_scan_height := 4\<rparr>) \<in> acct_set log_lmdb s'"
proof (rule demo_update_runs)
  fix out s' assume r: "update log_lmdb demo_checkpoints 3 [503, 777] [demo_user] [] demo_quiet = Inr (out, s')"
  have "advance 4 [demo_user] (active, demo_account) = (active, demo_account\<lparr>a_scan_height := 4\<rparr>)"
    by (simp add: advance_def advanced_def demo_user_eval) (simp add: demo_account_def)
  with update_advances_accounts[OF log.lmdb_store_axioms demo_quiet_inv demo_users_match r] r show ?thesis
    unfolding demo_quiet_accounts by (auto simp del: acct_set_iff)
qed

text \<open>
  C7: Storing a scan never loses an output, adds none but the outputs that were found for the
  account, and, when no account is given twice, adds every output of every account it moves.
\<close>

theorem update_stores_outputs:
  assumes "lmdb_store L" and "accounts_inv L s" and "users_match L users s"
    and "update L cp height chain users pow s = Inr (out, s')"
  shows "(\<forall>j. set (outputs_rows L s j) \<subseteq> set (outputs_rows L s' j) \<and>
      set (outputs_rows L s' j) \<subseteq> set (outputs_rows L s j) \<union> (\<Union>u \<in> {u \<in> set users. lws_account_id u = j}. set (la_outputs u))) \<and>
    (distinct (map lws_account_id users) \<longrightarrow> (\<forall>u \<in> set users.
      (\<exists>p \<in> acct_set L s. advanced (height + of_nat (length chain) - 1) [u] (snd p)) \<longrightarrow>
      (\<forall>out \<in> set (la_outputs u). has_row output_key (output_key out) (outputs_rows L s' (lws_account_id u)))))"
  by (intro conjI allI impI ballI update_facts(4)[OF assms, THEN conjunct1] update_facts(4)[OF assms, THEN conjunct2] update_facts(5)[OF assms])

theorem update_stores_outputs_witness:
  "\<exists>out s'. update log_lmdb demo_checkpoints 3 [503, 777] [demo_user] [] demo_quiet = Inr (out, s') \<and>
     has_row output_key (output_key (demo_output 4 7)) (outputs_rows log_lmdb s' 1)"
proof (rule demo_update_runs)
  fix out s' assume r: "update log_lmdb demo_checkpoints 3 [503, 777] [demo_user] [] demo_quiet = Inr (out, s')"
  have "\<exists>p \<in> acct_set log_lmdb demo_quiet. advanced 4 [demo_user] (snd p)"
    unfolding demo_quiet_accounts by (simp add: advanced_def demo_user_eval) (simp add: demo_account_def)
  with update_stores_outputs[OF log.lmdb_store_axioms demo_quiet_inv demo_users_match r] r show ?thesis
    by (auto simp: demo_user_eval)
qed

end
