(* ===== verification/Webhooks.thy ===== *)
theory Webhooks
  imports Update Requests
begin

text \<open>
  The webhooks of \<open>src/src/db/storage.cpp\<close>: looking them up, adding and clearing them, and what
  ties the table of ongoing events to them. Splitting a URL is done outside of the repository: the
  scheme it finds is a parameter. A value can always be encoded here.
\<close>

section \<open>Operations\<close>

definition find_webhook :: "'t lmdb \<Rightarrow> webhook_key \<Rightarrow> u64 \<Rightarrow> 't tables \<Rightarrow> webhook_value list" where
  "find_webhook L key payment_id s =
     takeWhile (\<lambda>hook. wd_payment_id (fst hook) = payment_id)
       (get_both_range (webhooks_m L) fst (webhooks_t s) key (Webhook_dupsort payment_id 0))"

definition get_webhooks :: "'t lmdb \<Rightarrow> 't tables \<Rightarrow> (webhook_key \<times> webhook_value list) list" where
  "get_webhooks L s =
     map (\<lambda>key. (key, m_dups (webhooks_m L) (webhooks_t s) key)) (m_keys (webhooks_m L) (webhooks_t s))"

definition bad_hook_url :: "(string \<Rightarrow> string option) \<Rightarrow> string \<Rightarrow> bool" where
  "bad_hook_url url_schema url \<longleftrightarrow> url \<noteq> ''zmq'' \<and>
     (url = [] \<or> (case url_schema url of None \<Rightarrow> True | Some schema \<Rightarrow> schema \<noteq> ''http'' \<and> schema \<noteq> ''https''))"

definition add_webhook :: "'t lmdb \<Rightarrow> (string \<Rightarrow> string option) \<Rightarrow> webhook_type \<Rightarrow> account_address option \<Rightarrow>
    webhook_value \<Rightarrow> 't tables \<Rightarrow> error + 't tables" where
  "add_webhook L url_schema type address event s =
     (if bad_hook_url url_schema (wh_url (snd event)) then Inl (Lws bad_url)
      else
        check (case address of
                 None \<Rightarrow> Inr account_id_invalid
               | Some address \<Rightarrow>
                   (case get_both (accounts_ba_m L) ba_view (accounts_ba_t s) by_address_version (view_public address) of
                      Inl e \<Rightarrow> if e \<noteq> MDB_NOTFOUND then Inl (Mdb e) else Inr account_id_invalid
                    | Inr value \<Rightarrow> Inr (al_id (ba_lookup value)))) (\<lambda>user.
        if user = account_id_invalid \<and> (type = tx_confirmation \<or> type = tx_spend) then Inl (Lws bad_webhook)
        else lmdb_check (m_put (webhooks_m L) MDB_DEFAULT (Webhook_key user type) event (webhooks_t s)) (\<lambda>t.
          Inr (s\<lparr>webhooks_t := t\<rparr>))))"

text \<open>By address: the webhooks for confirmations and all ongoing events of the accounts.\<close>

fun clear_account_webhooks :: "'t lmdb \<Rightarrow> account_address list \<Rightarrow> 't tables \<Rightarrow> error + 't tables" where
  "clear_account_webhooks L [] s = Inr s"
| "clear_account_webhooks L (address # addresses) s =
     lmdb_check (get_both (accounts_ba_m L) ba_view (accounts_ba_t s) by_address_version (view_public address)) (\<lambda>value.
     (let user = al_id (ba_lookup value);
          key = Webhook_key user tx_confirmation in
      lmdb_check (if m_dups (webhooks_m L) (webhooks_t s) key = [] then Inr (webhooks_t s)
                  else m_del_key (webhooks_m L) key (webhooks_t s)) (\<lambda>tw.
      let te = (if m_dups (events_m L) (events_t s) user = [] then events_t s
                else case m_del_key (events_m L) user (events_t s) of Inl _ \<Rightarrow> events_t s | Inr t \<Rightarrow> t) in
      clear_account_webhooks L addresses (s\<lparr>webhooks_t := tw, events_t := te\<rparr>))))"

text \<open>
  By event id: a walk over all webhooks, then one over all events. The search in the sorted ids
  is membership.
\<close>

fun del_rows_if :: "('t, 'k, 'v) mdb \<Rightarrow> ('v \<Rightarrow> bool) \<Rightarrow> ('k \<times> 'v) list \<Rightarrow> 't \<Rightarrow> error + 't" where
  "del_rows_if M P [] t = Inr t"
| "del_rows_if M P ((k, v) # walk) t =
     (if P v then lmdb_check (m_del M k v t) (del_rows_if M P walk) else del_rows_if M P walk t)"

definition table_walk :: "('t, 'k, 'v) mdb \<Rightarrow> 't \<Rightarrow> ('k \<times> 'v) list" where
  "table_walk M t = concat (map (\<lambda>k. map (Pair k) (m_dups M t k)) (m_keys M t))"

definition clear_webhooks :: "'t lmdb \<Rightarrow> uuid list \<Rightarrow> 't tables \<Rightarrow> error + 't tables" where
  "clear_webhooks L ids s =
     (if ids = [] then Inr s
      else
        check (del_rows_if (webhooks_m L) (\<lambda>hook. wd_event_id (fst hook) \<in> set ids)
          (table_walk (webhooks_m L) (webhooks_t s)) (webhooks_t s)) (\<lambda>tw.
        check (del_rows_if (events_m L) (\<lambda>event. wd_event_id (we_link_webhook event) \<in> set ids)
          (table_walk (events_m L) (events_t s)) (events_t s)) (\<lambda>te.
          Inr (s\<lparr>webhooks_t := tw, events_t := te\<rparr>))))"

section \<open>Walks that delete\<close>

context mdb_table begin

lemma del_rows_if_one:
  "distinct vs \<Longrightarrow> set vs \<subseteq> set (m_dups M t k) \<Longrightarrow>
     \<exists>t'. del_rows_if M P (map (Pair k) vs @ rest) t = del_rows_if M P rest t' \<and>
       m_dups M t' = (m_dups M t)(k := filter (\<lambda>v. \<not> (P v \<and> v \<in> set vs)) (m_dups M t k))"
proof (induction vs arbitrary: t)
  case (Cons v vs)
  show ?case
  proof (cases "P v")
    case False
    have "filter (\<lambda>x. \<not> (P x \<and> x \<in> set (v # vs))) xs = filter (\<lambda>x. \<not> (P x \<and> x \<in> set vs)) xs" for xs
      using False by (auto intro: filter_cong)
    with False Cons show ?thesis by (simp add: insert_commute)
  next
    case True
    have v: "v \<in> set (m_dups M t k)" using Cons.prems by simp
    have d: "del_row sk (sk v) (m_dups M t k) = filter (\<lambda>x. x \<noteq> v) (m_dups M t k)"
      unfolding del_row_def using v by (intro filter_cong[OF refl]) (auto dest: row_unique)
    have "set vs \<subseteq> set (m_dups M (tdel M k v t) k)" using Cons.prems v by (auto simp: d)
    moreover have "distinct vs" using Cons.prems(1) by simp
    ultimately obtain t' where
      t': "del_rows_if M P (map (Pair k) vs @ rest) (tdel M k v t) = del_rows_if M P rest t'"
      "m_dups M t' = (m_dups M (tdel M k v t))(k := filter (\<lambda>v. \<not> (P v \<and> v \<in> set vs)) (m_dups M (tdel M k v t) k))"
      using Cons.IH[of "tdel M k v t"] by blast
    have "filter (\<lambda>x. \<not> (P x \<and> x \<in> set vs)) (filter (\<lambda>x. x \<noteq> v) xs) = filter (\<lambda>x. \<not> (P x \<and> x \<in> set (v # vs))) xs" for xs
      unfolding filter_filter using True by (auto intro: filter_cong)
    with t' v True show ?thesis by (auto simp: d)
  qed
qed (auto simp: fun_eq_iff)

lemma del_rows_if_keys:
  "distinct ks \<Longrightarrow> (\<forall>k \<in> set ks. m_dups M t k = rows k) \<Longrightarrow>
     \<exists>t'. del_rows_if M P (concat (map (\<lambda>k. map (Pair k) (rows k)) ks)) t = Inr t' \<and>
       m_dups M t' = (\<lambda>k. if k \<in> set ks then filter (\<lambda>v. \<not> P v) (m_dups M t k) else m_dups M t k)"
proof (induction ks arbitrary: t)
  case (Cons k ks)
  have r: "m_dups M t k = rows k" using Cons.prems by simp
  have d: "distinct (rows k)" unfolding r[symmetric] using sorted_rows_distinct[OF dups_sorted] distinct_map by blast
  from del_rows_if_one[OF d, of t k P "concat (map (\<lambda>k. map (Pair k) (rows k)) ks)"] r
  obtain t1 where t1: "del_rows_if M P (map (Pair k) (rows k) @ concat (map (\<lambda>k. map (Pair k) (rows k)) ks)) t =
      del_rows_if M P (concat (map (\<lambda>k. map (Pair k) (rows k)) ks)) t1"
    "m_dups M t1 = (m_dups M t)(k := filter (\<lambda>v. \<not> (P v \<and> v \<in> set (rows k))) (rows k))" by auto
  have f: "filter (\<lambda>v. \<not> (P v \<and> v \<in> set (rows k))) (rows k) = filter (\<lambda>v. \<not> P v) (rows k)"
    by (auto intro: filter_cong)
  have "\<forall>j \<in> set ks. m_dups M t1 j = rows j" using Cons.prems t1(2) by auto
  with Cons.IH[of t1] Cons.prems(1) obtain t' where
    t': "del_rows_if M P (concat (map (\<lambda>k. map (Pair k) (rows k)) ks)) t1 = Inr t'"
    "m_dups M t' = (\<lambda>k. if k \<in> set ks then filter (\<lambda>v. \<not> P v) (m_dups M t1 k) else m_dups M t1 k)" by auto
  show ?case using t1 t' Cons.prems r f by (auto simp: fun_eq_iff)
qed auto

lemma del_rows_if_walk:
  "\<exists>t'. del_rows_if M P (table_walk M t) t = Inr t' \<and> (\<forall>k. m_dups M t' k = filter (\<lambda>v. \<not> P v) (m_dups M t k))"
proof -
  obtain t' where "del_rows_if M P (table_walk M t) t = Inr t'"
    "m_dups M t' = (\<lambda>k. if k \<in> set (m_keys M t) then filter (\<lambda>v. \<not> P v) (m_dups M t k) else m_dups M t k)"
    using del_rows_if_keys[OF distinct_keys, of t t "m_dups M t"] unfolding table_walk_def by blast
  then show ?thesis using keys_iff[of _ t] by auto
qed

end

section \<open>Events and their webhooks\<close>

text \<open>Every ongoing event leads to a webhook of its account.\<close>

definition events_inv :: "'t lmdb \<Rightarrow> 't tables \<Rightarrow> bool" where
  "events_inv L s \<longleftrightarrow> (\<forall>user. \<forall>event \<in> set (events_rows L s user).
     has_row fst (we_link_webhook event) (webhooks_rows L s (Webhook_key user tx_confirmation)))"

lemma events_inv_mono:
  assumes "events_inv L s"
    and "\<And>user. set (events_rows L s' user) \<subseteq> set (events_rows L s user)"
    and "\<And>user link. has_row fst link (webhooks_rows L s (Webhook_key user tx_confirmation)) \<Longrightarrow>
      has_row fst link (webhooks_rows L s' (Webhook_key user tx_confirmation))"
  shows "events_inv L s'"
  using assms unfolding events_inv_def by blast

text \<open>When the search for the confirmations of ongoing events succeeds.\<close>

definition due_found :: "'t lmdb \<Rightarrow> account_id \<Rightarrow> block_id \<Rightarrow> block_id \<Rightarrow> 't tables \<Rightarrow> webhook_event \<Rightarrow> bool" where
  "due_found L user begin_id end_id s event \<longleftrightarrow>
     (max begin_id (tl_height (wo_tx (we_link event))) < end_id \<longrightarrow>
       has_row fst (we_link_webhook event) (webhooks_rows L s (Webhook_key user tx_confirmation)) \<and>
       has_row output_key (tl_height (wo_tx (we_link event)), tl_tx_hash (wo_tx (we_link event)), wo_out (we_link event))
         (outputs_rows L s user))"

context lmdb_store begin

lemma put_events_ok:
  "(\<forall>hook \<in> set hooks. has_row fst (fst hook) (webhooks_rows L s (Webhook_key user tx_confirmation))) \<Longrightarrow>
     events_inv L s \<Longrightarrow> put_events L user out hooks (events_t s) = Inr t \<Longrightarrow> events_inv L (s\<lparr>events_t := t\<rparr>)"
proof (induction hooks arbitrary: s)
  case (Cons hook hooks)
  let ?event = "Webhook_event (Webhook_output (o_link out) (sm_id (o_spend_meta out))) (fst hook)"
  let ?s = "s\<lparr>events_t := tput (events_m L) user ?event (events_t s)\<rparr>"
  have "events_inv L ?s"
    using Cons.prems(1,2) unfolding events_inv_def by (auto simp: set_ins_row)
  moreover have "put_events L user out hooks (events_t ?s) = Inr t" using Cons.prems(3) by (simp add: Let_def)
  ultimately show ?case using Cons.IH[of ?s] Cons.prems(1) by simp
qed (auto simp: events_inv_def)

lemma check_hooks_events:
  "events_inv L s \<Longrightarrow> check_hooks_loop L user outs s = Inr s' \<Longrightarrow> events_inv L s' \<and> webhooks_t s' = webhooks_t s"
proof (induction outs arbitrary: s)
  case (Cons out outs)
  let ?hooks = "takeWhile (\<lambda>hook. wd_payment_id (fst hook) = payment_id_short out)
    (get_both_range (webhooks_m L) fst (webhooks_t s) (Webhook_key user tx_confirmation) (Webhook_dupsort (payment_id_short out) 0))"
  obtain t where t: "put_events L user out ?hooks (events_t s) = Inr t"
    "check_hooks_loop L user outs (s\<lparr>events_t := t\<rparr>) = Inr s'"
    using Cons.prems(2) by (auto simp: Let_def check_Inr_iff)
  have "set ?hooks \<subseteq> set (webhooks_rows L s (Webhook_key user tx_confirmation))"
    unfolding get_both_range_def rows_from_def by (auto dest!: set_takeWhileD set_dropWhileD)
  then have "\<forall>hook \<in> set ?hooks. has_row fst (fst hook) (webhooks_rows L s (Webhook_key user tx_confirmation))"
    unfolding has_row_def by blast
  from put_events_ok[OF this Cons.prems(1) t(1)] Cons.IH t(2) show ?case by fastforce
qed simp

lemma ongoing_events:
  "events_inv L s \<Longrightarrow> set rows \<subseteq> set (events_rows L s user) \<Longrightarrow> distinct rows \<Longrightarrow>
     ongoing_loop L user b e rows events s = Inr (events', s') \<Longrightarrow> events_inv L s' \<and> webhooks_t s' = webhooks_t s"
proof (induction rows arbitrary: events s)
  case (Cons event rows)
  have ev: "event \<in> set (events_rows L s user)" using Cons.prems(2) by simp
  let ?s = "s\<lparr>events_t := tdel (events_m L) user event (events_t s)\<rparr>"
  have rows: "set (events_rows L ?s j) \<subseteq> set (events_rows L s j)" for j using ev by (auto simp: set_del_row)
  have inv: "events_inv L ?s" by (rule events_inv_mono[OF Cons.prems(1) rows]) simp
  have "set (events_rows L ?s user) = set (events_rows L s user) - {event}"
    using events.set_del[OF ev] by simp
  then have sub: "set rows \<subseteq> set (events_rows L ?s user)" using Cons.prems(2,3) by auto
  obtain events1 where "ongoing_loop L user b e rows events1 s = Inr (events', s') \<or>
      ongoing_loop L user b e rows events1 ?s = Inr (events', s')"
    using Cons.prems(4) ev by (auto simp: Let_def lmdb_check_Inr_iff split: if_splits)
  then show ?case
    using Cons.IH[OF Cons.prems(1), of events1] Cons.IH[OF inv sub, of events1] Cons.prems(2,3) by auto
qed simp

lemma add_spends_frame: "add_spends L user spends s = Inr s' \<Longrightarrow> webhooks_t s' = webhooks_t s \<and> events_t s' = events_t s"
  by (auto simp: add_spends_def check_Inr_iff)

lemma store_scan_events:
  assumes "events_inv L s" "store_scan L lst fn u st a out s = Inr (out', s')"
  shows "events_inv L s'"
proof -
  obtain s1 s2 where s1: "webhooks_t s1 = webhooks_t s" "events_t s1 = events_t s"
    and h: "check_hooks L u s1 = Inr s2"
    and o: "add_ongoing_hooks L (lws_account_id u) (max fn (a_scan_height a + 1)) (lst + 1) (confirm_pubs out) s2 = Inr (confirm_pubs out', s')"
    using assms(2) by (auto simp: store_scan_def Let_def lmdb_check_Inr_iff check_Inr_iff dest!: add_spends_frame)
  have "events_inv L s1" using assms(1) by (simp add: events_inv_def s1)
  then have "events_inv L s2" using check_hooks_events h unfolding check_hooks_def by blast
  moreover have "distinct (events_rows L s2 (lws_account_id u))"
    using sorted_rows_distinct[OF events.dups_sorted] distinct_map by blast
  ultimately show ?thesis
    using o ongoing_events[OF _ subset_refl] by (auto simp: add_ongoing_hooks_def split: if_splits)
qed

lemma update_loop_events:
  "events_inv L s \<Longrightarrow> update_loop L lst fn users heights out s = Inr (out', s') \<Longrightarrow> events_inv L s'"
proof (induction users arbitrary: heights out s)
  case Nil
  then show ?case by (auto simp: check_Inr_iff events_inv_def)
next
  case (Cons u users)
  obtain h0 s0 where f: "(if length heights = 127
      then check (bulk_insert (accounts_bh_m L) MDB_NODUPDATA lst heights (accounts_bh_t s)) (\<lambda>t. Inr ([], s\<lparr>accounts_bh_t := t\<rparr>))
      else Inr (heights, s)) = Inr (h0, s0)"
    using Cons.prems(2) by (auto simp: check_Inr_iff)
  then have "webhooks_t s0 = webhooks_t s" "events_t s0 = events_t s" by (auto simp: check_Inr_iff split: if_splits)
  with Cons.prems(1) have inv: "events_inv L s0" by (simp add: events_inv_def)
  obtain found where fe: "find_existing L u s0 = Inr found" using Cons.prems(2) f by (auto simp: check_Inr_iff)
  consider (skip) h1 o1 where "update_loop L lst fn users h1 o1 s0 = Inr (out', s')"
    | (store) st a o1 o2 s1 h1 where "store_scan L lst fn u st a o1 s0 = Inr (o2, s1)" "update_loop L lst fn users h1 o2 s1 = Inr (out', s')"
    using Cons.prems(2) f fe by (auto simp: Let_def check_Inr_iff split: option.splits if_splits)
  then show ?case
  proof cases
    case skip
    then show ?thesis using Cons.IH inv by blast
  next
    case store
    then show ?thesis using Cons.IH store_scan_events[OF inv] by blast
  qed
qed

lemma clear_account_step:
  assumes "clear_account_webhooks L (address # addresses) s = Inr s'"
  obtains s1 user where "clear_account_webhooks L addresses s1 = Inr s'"
    "webhooks_rows L s1 = (webhooks_rows L s)(Webhook_key user tx_confirmation := [])"
    "events_rows L s1 = (events_rows L s)(user := [])" "by_address_rows L s1 = by_address_rows L s"
    "\<exists>e \<in> set (by_address_rows L s). ba_view e = view_public address \<and> al_id (ba_lookup e) = user"
proof -
  obtain e where e: "get_both (accounts_ba_m L) ba_view (accounts_ba_t s) by_address_version (view_public address) = Inr e"
    using assms by (auto simp: lmdb_check_Inr_iff)
  define user where "user = al_id (ba_lookup e)"
  let ?key = "Webhook_key user tx_confirmation"
  let ?tw = "if webhooks_rows L s ?key = [] then webhooks_t s else tdel_key (webhooks_m L) ?key (webhooks_t s)"
  let ?te = "if events_rows L s user = [] then events_t s else tdel_key (events_m L) user (events_t s)"
  let ?s = "s\<lparr>webhooks_t := ?tw, events_t := ?te\<rparr>"
  have w: "webhooks_rows L ?s = (webhooks_rows L s)(?key := [])" by (auto simp: fun_eq_iff)
  have v: "events_rows L ?s = (events_rows L s)(user := [])" by (auto simp: fun_eq_iff)
  have run: "clear_account_webhooks L addresses ?s = Inr s'"
    using assms e by (auto simp: Let_def user_def split: if_splits simp del: accounts_ba.get_both_Inr_iff)
  have "e \<in> set (by_address_rows L s) \<and> ba_view e = view_public address" using e by simp
  then have "\<exists>e \<in> set (by_address_rows L s). ba_view e = view_public address \<and> al_id (ba_lookup e) = user"
    by (auto simp: user_def)
  with run w v show ?thesis by (intro that[of ?s user]) simp_all
qed

lemma clear_account_events:
  "events_inv L s \<Longrightarrow> clear_account_webhooks L addresses s = Inr s' \<Longrightarrow> events_inv L s'"
proof (induction addresses arbitrary: s)
  case (Cons address addresses)
  obtain s1 user where "clear_account_webhooks L addresses s1 = Inr s'"
    "webhooks_rows L s1 = (webhooks_rows L s)(Webhook_key user tx_confirmation := [])"
    "events_rows L s1 = (events_rows L s)(user := [])"
    using clear_account_step[OF Cons.prems(2)] by blast
  moreover from this Cons.prems(1) have "events_inv L s1" by (auto simp: events_inv_def)
  ultimately show ?case using Cons.IH by blast
qed simp

lemma add_webhook_events:
  assumes "events_inv L s" "add_webhook L url_schema type address event s = Inr s'"
  shows "events_inv L s'"
proof -
  obtain user t where t: "m_put (webhooks_m L) MDB_DEFAULT (Webhook_key user type) event (webhooks_t s) = Inr t"
    "s' = s\<lparr>webhooks_t := t\<rparr>"
    using assms(2) by (auto simp: add_webhook_def lmdb_check_Inr_iff check_Inr_iff split: if_splits)
  show ?thesis using assms(1) t by (auto simp: events_inv_def)
qed

lemma update_events:
  assumes "events_inv L s" "update L cp height chain users pow s = Inr (out, s')"
  shows "events_inv L s'"
proof (cases "users = [] \<and> chain = []")
  case True
  with assms show ?thesis by (simp add: update_def)
next
  case False
  then obtain s1 where c: "update_chain L cp height chain pow s = Inr s1"
    and l: "update_loop L (height + of_nat (length chain) - 1) (height + 1) users [] \<lparr>spend_pubs = [], confirm_pubs = [], accounts_updated = 0\<rparr> s1 = Inr (out, s')"
    using assms(2) by (auto simp: update_def Let_def precond_def check_Inr_iff split: if_splits)
  from update_chain_frame[OF c] have "webhooks_t s1 = webhooks_t s \<and> events_t s1 = events_t s" by (simp add: rows_frame_def)
  with assms(1) have "events_inv L s1" by (simp add: events_inv_def)
  from update_loop_events[OF this l] show ?thesis .
qed

lemma ongoing_result:
  "set rows \<subseteq> set (events_rows L s user) \<Longrightarrow> distinct rows \<Longrightarrow>
     (if \<forall>event \<in> set rows. due_found L user b e s event then \<exists>r. ongoing_loop L user b e rows events s = Inr r
      else ongoing_loop L user b e rows events s = Inl (Mdb MDB_NOTFOUND))"
proof (induction rows arbitrary: events s)
  case (Cons event rows)
  have ev: "event \<in> set (events_rows L s user)" using Cons.prems(1) by simp
  let ?s = "s\<lparr>events_t := tdel (events_m L) user event (events_t s)\<rparr>"
  have "set (events_rows L ?s user) = set (events_rows L s user) - {event}" using events.set_del[OF ev] by simp
  then have sub: "set rows \<subseteq> set (events_rows L ?s user)" using Cons.prems by auto
  have d: "due_found L user b e ?s x = due_found L user b e s x" for x by (simp add: due_found_def)
  have IH: "if \<forall>event \<in> set rows. due_found L user b e s event then \<exists>r. ongoing_loop L user b e rows evs s2 = Inr r
      else ongoing_loop L user b e rows evs s2 = Inl (Mdb MDB_NOTFOUND)" if "s2 = s \<or> s2 = ?s" for evs s2
    using that
  proof
    assume "s2 = s"
    then show ?thesis by (simp only:) (rule Cons.IH, use Cons.prems in auto)
  next
    assume "s2 = ?s"
    have dr: "distinct rows" using Cons.prems(2) by simp
    show ?thesis unfolding \<open>s2 = ?s\<close> by (rule Cons.IH[OF sub dr, of evs, unfolded d])
  qed
  let ?lk = "we_link event"
  let ?hook = "get_both (webhooks_m L) fst (webhooks_t s) (Webhook_key user tx_confirmation) (we_link_webhook event)"
  let ?out = "get_both (outputs_m L) output_key (outputs_t s) user (tl_height (wo_tx ?lk), tl_tx_hash (wo_tx ?lk), wo_out ?lk)"
  consider (later) "\<not> max b (tl_height (wo_tx ?lk)) < e"
    | (hook) "max b (tl_height (wo_tx ?lk)) < e" "?hook = Inl MDB_NOTFOUND"
    | (out) "max b (tl_height (wo_tx ?lk)) < e" "\<exists>h. ?hook = Inr h" "?out = Inl MDB_NOTFOUND"
    | (both) h q where "max b (tl_height (wo_tx ?lk)) < e" "?hook = Inr h" "?out = Inr q"
    by (metis webhooks.get_both_Inl_iff outputs.get_both_Inl_iff old.sum.exhaust)
  then show ?case
  proof cases
    case later
    then show ?thesis using IH[of s events] by (auto simp: due_found_def Let_def)
  next
    case hook
    then have "\<not> due_found L user b e s event" by (auto simp: due_found_def webhooks.get_both_Inl_iff)
    with hook show ?thesis by (simp add: Let_def)
  next
    case out
    then have "\<not> due_found L user b e s event" by (auto simp: due_found_def outputs.get_both_Inl_iff)
    with out show ?thesis by (auto simp: Let_def simp del: webhooks.get_both_Inr_iff)
  next
    case both
    then have due: "due_found L user b e s event" by (force simp: due_found_def has_row_def)
    then have all: "(\<forall>x \<in> set (event # rows). due_found L user b e s x) \<longleftrightarrow> (\<forall>x \<in> set rows. due_found L user b e s x)" by simp
    obtain evs s2 where step: "ongoing_loop L user b e (event # rows) events s = ongoing_loop L user b e rows evs s2"
      and s2: "s2 = s \<or> s2 = ?s"
      using both ev by (cases "wh_confirmations (snd h) \<le> last (ucast (max b (tl_height (wo_tx ?lk)) - tl_height (wo_tx ?lk) + 1) #
          next_confirmations (unat e - (unat (max b (tl_height (wo_tx ?lk))) + 1)) (wh_confirmations (snd h))
            (ucast (max b (tl_height (wo_tx ?lk)) - tl_height (wo_tx ?lk) + 1)))")
        (auto simp: Let_def simp del: webhooks.get_both_Inr_iff outputs.get_both_Inr_iff)
    show ?thesis unfolding step all by (rule IH[OF s2])
  qed
qed simp

end

text \<open>A rescan leaves the webhooks and the events alone.\<close>

lemma rollback_frame:
  "rollback_outputs L user h s = Inr s' \<Longrightarrow> webhooks_t s' = webhooks_t s \<and> events_t s' = events_t s"
  "rollback_spend_rows L user rows s = Inr s' \<Longrightarrow> webhooks_t s' = webhooks_t s \<and> events_t s' = events_t s"
proof -
  show "rollback_spend_rows L user rows s = Inr s' \<Longrightarrow> webhooks_t s' = webhooks_t s \<and> events_t s' = events_t s"
  proof (induction rows arbitrary: s)
    case (Cons sp rows)
    then obtain ti ts where "rollback_spend_rows L user rows (s\<lparr>images_t := ti, spends_t := ts\<rparr>) = Inr s'"
      by (auto simp: lmdb_check_Inr_iff)
    from Cons.IH[OF this] show ?case by simp
  qed simp
qed (auto simp: rollback_outputs_def Let_def check_Inr_iff)

lemma change_height_frame:
  assumes "change_height L C False h address l m s = Some (Inr s')"
  shows "webhooks_t s' = webhooks_t s \<and> events_t s' = events_t s"
proof -
  obtain lookup user s1 s2 where o: "rollback_outputs L (a_id user) h s = Inr s1"
    and sp: "rollback_spends L (a_id user) h s1 = Inr s2"
    and m: "move_height L lookup (lowered h user) (a_scan_height user) h s2 = Inr s'"
    using assms by (auto simp: change_height_def Let_def check_Inr_iff split: sum.splits)
  have "webhooks_t s' = webhooks_t s2 \<and> events_t s' = events_t s2"
    using m by (auto simp: move_height_def lmdb_check_Inr_iff)
  with rollback_frame(1)[OF o] rollback_frame(2)[OF sp[unfolded rollback_spends_def]] show ?thesis by simp
qed

lemma rescan_loop_frame:
  "rescan_loop L C h addresses updated s = Some (Inr (updated', s')) \<Longrightarrow>
     webhooks_t s' = webhooks_t s \<and> events_t s' = events_t s"
proof (induction addresses arbitrary: updated s)
  case (Cons address addresses)
  then show ?case
    by (auto split: option.splits sum.splits if_splits dest!: change_height_frame)
qed simp

section \<open>Searching by payment id\<close>

lemma takeWhile_sorted_filter:
  fixes f :: "'v \<Rightarrow> 'f::linorder"
  shows "sorted (map f xs) \<Longrightarrow> takeWhile (\<lambda>x. f x = a) (filter (\<lambda>x. a \<le> f x) xs) = filter (\<lambda>x. f x = a) xs"
proof (induction xs)
  case (Cons x xs)
  show ?case
  proof (cases "a < f x")
    case True
    with Cons.prems have "\<forall>y \<in> set xs. f y \<noteq> a" by auto
    with True show ?thesis by (auto simp: filter_empty_conv)
  next
    case False
    with Cons show ?thesis by (auto simp: not_less)
  qed
qed simp

lemma dupsort_le: "Webhook_dupsort p 0 \<le> d \<longleftrightarrow> p \<le> wd_payment_id d"
  by (cases d) (auto simp: less_eq_webhook_dupsort_def less_webhook_dupsort_def word_neq_0_conv)

lemma dupsort_mono: "d < d' \<Longrightarrow> wd_payment_id d \<le> wd_payment_id d'"
  by (auto simp: less_webhook_dupsort_def split: if_splits)

context lmdb_store begin

lemma events_distinct: "distinct (events_rows L s user)"
  using sorted_rows_distinct[OF events.dups_sorted] distinct_map by blast

lemma clear_webhooks_rows:
  "\<exists>s'. clear_webhooks L ids s = Inr s' \<and>
    (\<forall>key. webhooks_rows L s' key = filter (\<lambda>hook. wd_event_id (fst hook) \<notin> set ids) (webhooks_rows L s key)) \<and>
    (\<forall>user. events_rows L s' user = filter (\<lambda>event. wd_event_id (we_link_webhook event) \<notin> set ids) (events_rows L s user))"
proof (cases "ids = []")
  case True
  then show ?thesis by (simp add: clear_webhooks_def)
next
  case False
  obtain tw where tw: "del_rows_if (webhooks_m L) (\<lambda>hook. wd_event_id (fst hook) \<in> set ids)
      (table_walk (webhooks_m L) (webhooks_t s)) (webhooks_t s) = Inr tw"
    "\<forall>k. m_dups (webhooks_m L) tw k = filter (\<lambda>hook. wd_event_id (fst hook) \<notin> set ids) (webhooks_rows L s k)"
    using webhooks.del_rows_if_walk by blast
  obtain te where te: "del_rows_if (events_m L) (\<lambda>event. wd_event_id (we_link_webhook event) \<in> set ids)
      (table_walk (events_m L) (events_t s)) (events_t s) = Inr te"
    "\<forall>k. m_dups (events_m L) te k = filter (\<lambda>event. wd_event_id (we_link_webhook event) \<notin> set ids) (events_rows L s k)"
    using events.del_rows_if_walk by blast
  show ?thesis using False tw te by (simp add: clear_webhooks_def)
qed

lemma find_webhook_eq:
  "find_webhook L key payment_id s = filter (\<lambda>hook. wd_payment_id (fst hook) = payment_id) (webhooks_rows L s key)"
proof -
  let ?rows = "webhooks_rows L s key"
  have s: "sorted_rows fst ?rows" by simp
  then have "sorted (map (\<lambda>hook. wd_payment_id (fst hook)) ?rows)"
    unfolding sorted_rows_def sorted_map by (rule sorted_wrt_mono_rel[rotated]) (blast intro: dupsort_mono)
  from takeWhile_sorted_filter[OF this, of payment_id] show ?thesis
    unfolding find_webhook_def get_both_range_def rows_from_filter[OF s] dupsort_le by simp
qed

end

section \<open>Properties\<close>

text \<open>
  The search by payment id, for one webhook after the other from the first that is not below
  it, finds exactly the webhooks with that payment id, in the order they are stored.
\<close>

theorem find_webhook_filters:
  assumes "lmdb_store L"
  shows "find_webhook L key payment_id s = filter (\<lambda>hook. wd_payment_id (fst hook) = payment_id) (webhooks_rows L s key)"
  by (rule lmdb_store.find_webhook_eq[OF assms])

definition demo_hook :: "u64 \<Rightarrow> uuid \<Rightarrow> webhook_value" where
  "demo_hook payment_id event_id =
     (Webhook_dupsort payment_id event_id, \<lparr>wh_url = ''zmq'', wh_token = [], wh_confirmations = 2\<rparr>)"

definition demo_ongoing :: webhook_event where
  "demo_ongoing = Webhook_event (Webhook_output (Transaction_link 3 102) (Output_id 0 2)) (Webhook_dupsort 9 8)"

definition demo_hooks :: "cell list tables" where
  "demo_hooks = demo\<lparr>events_t := [Cell_events 1 demo_ongoing], webhooks_t :=
     [Cell_webhooks (Webhook_key 1 tx_confirmation) (demo_hook 9 8), Cell_webhooks (Webhook_key 1 tx_confirmation) (demo_hook 7 3),
      Cell_webhooks (Webhook_key 1 tx_confirmation) (demo_hook 7 6), Cell_webhooks (Webhook_key 1 tx_confirmation) (demo_hook 5 8)]\<rparr>"

lemma demo_hooks_rows: "webhooks_rows log_lmdb demo_hooks key =
    (if key = Webhook_key 1 tx_confirmation then [demo_hook 5 8, demo_hook 7 3, demo_hook 7 6, demo_hook 9 8] else [])"
  by (simp add: log_simps demo_hooks_def demo_hook_def less_webhook_dupsort_def)

lemma demo_hooks_events: "events_rows log_lmdb demo_hooks user = (if user = 1 then [demo_ongoing] else [])"
  by (simp add: log_simps demo_hooks_def demo_def)

theorem find_webhook_filters_witness:
  "find_webhook log_lmdb (Webhook_key 1 tx_confirmation) 7 demo_hooks = [demo_hook 7 3, demo_hook 7 6]"
  unfolding find_webhook_filters[OF log.lmdb_store_axioms] demo_hooks_rows by (simp add: demo_hook_def)

text \<open>
  Clearing webhooks by their event ids never fails, removes exactly the webhooks and the
  ongoing events with those ids, and leaves no event without its webhook.
\<close>

theorem clear_webhooks_clears:
  assumes "lmdb_store L"
  shows "\<exists>s'. clear_webhooks L ids s = Inr s' \<and>
    (\<forall>key. webhooks_rows L s' key = filter (\<lambda>hook. wd_event_id (fst hook) \<notin> set ids) (webhooks_rows L s key)) \<and>
    (\<forall>user. events_rows L s' user =
      filter (\<lambda>event. wd_event_id (we_link_webhook event) \<notin> set ids) (events_rows L s user)) \<and>
    (events_inv L s \<longrightarrow> events_inv L s')"
proof -
  obtain s' where s': "clear_webhooks L ids s = Inr s'"
    "\<And>key. webhooks_rows L s' key = filter (\<lambda>hook. wd_event_id (fst hook) \<notin> set ids) (webhooks_rows L s key)"
    "\<And>user. events_rows L s' user = filter (\<lambda>event. wd_event_id (we_link_webhook event) \<notin> set ids) (events_rows L s user)"
    using lmdb_store.clear_webhooks_rows[OF assms] by blast
  have "events_inv L s \<longrightarrow> events_inv L s'" unfolding events_inv_def s'(2,3) by (fastforce simp: has_row_def)
  with s' show ?thesis by blast
qed

theorem clear_webhooks_clears_witness:
  "\<exists>s'. clear_webhooks log_lmdb [8] demo_hooks = Inr s' \<and>
     webhooks_rows log_lmdb s' (Webhook_key 1 tx_confirmation) = [demo_hook 7 3, demo_hook 7 6] \<and> events_rows log_lmdb s' 1 = []"
  using clear_webhooks_clears[OF log.lmdb_store_axioms, of "[8]" demo_hooks]
  by (auto simp: demo_hooks_rows demo_hooks_events demo_hook_def demo_ongoing_def)

text \<open>
  C10: Every ongoing event keeps its webhook when a webhook is added, when the webhooks of accounts
  are cleared and when a scan is stored, which adds and ends events.
\<close>

theorem events_keep_webhooks:
  assumes "lmdb_store L" and "events_inv L s"
    and "add_webhook L url_schema type address event s = Inr s' \<or> clear_account_webhooks L addresses s = Inr s' \<or>
      (\<exists>out. update L cp height chain users pow s = Inr (out, s'))"
  shows "events_inv L s'"
  using assms(2,3) lmdb_store.add_webhook_events[OF assms(1)] lmdb_store.clear_account_events[OF assms(1)]
    lmdb_store.update_events[OF assms(1)] by blast

theorem events_keep_webhooks_witness:
  "\<exists>out s'. update log_lmdb demo_checkpoints 3 [503, 777] [demo_user] [] demo_hooks = Inr (out, s') \<and> events_inv log_lmdb s'"
proof -
  have "case update log_lmdb demo_checkpoints 3 [503, 777] [demo_user] [] demo_hooks of Inl e \<Rightarrow> False | Inr r \<Rightarrow> True"
    by code_simp
  then obtain out s' where r: "update log_lmdb demo_checkpoints 3 [503, 777] [demo_user] [] demo_hooks = Inr (out, s')"
    by (cases "update log_lmdb demo_checkpoints 3 [503, 777] [demo_user] [] demo_hooks") auto
  have i: "events_inv log_lmdb demo_hooks"
    unfolding events_inv_def demo_hooks_events demo_hooks_rows by (simp add: has_row_def demo_ongoing_def demo_hook_def)
  have "events_inv log_lmdb s'" by (rule events_keep_webhooks[OF log.lmdb_store_axioms i]) (use r in blast)
  with r show ?thesis by blast
qed

text \<open>
  Reporting confirmations fails, and with it the update, exactly when an ongoing event that is
  due has lost its webhook or its output.
\<close>

theorem ongoing_hooks_fail_iff:
  assumes "lmdb_store L"
  shows "if begin_id = end_id \<or> (\<forall>event \<in> set (events_rows L s user). due_found L user begin_id end_id s event)
    then \<exists>r. add_ongoing_hooks L user begin_id end_id events s = Inr r
    else add_ongoing_hooks L user begin_id end_id events s = Inl (Mdb MDB_NOTFOUND)"
proof -
  have "distinct (events_rows L s user)" by (rule lmdb_store.events_distinct[OF assms])
  from lmdb_store.ongoing_result[OF assms subset_refl this, of begin_id end_id events] show ?thesis
    by (cases "begin_id = end_id") (simp_all add: add_ongoing_hooks_def split: if_splits)
qed

theorem ongoing_hooks_fail_iff_witness:
  "add_ongoing_hooks log_lmdb 1 4 6 [] demo = Inl (Mdb MDB_NOTFOUND)"
proof -
  have "\<not> due_found log_lmdb 1 4 6 demo demo_event"
    by (simp add: due_found_def demo_event_def has_row_def log_simps demo_def empty_tables_def)
  moreover have "demo_event \<in> set (events_rows log_lmdb demo 1)" by (simp add: log_simps demo_def)
  ultimately show ?thesis
    using ongoing_hooks_fail_iff[OF log.lmdb_store_axioms, of 4 6 demo 1 "[]"] by (auto split: if_splits)
qed

text \<open>
  C12: A rescan removes the outputs of the account from the height on, but not the ongoing events
  for them. Until the output of such an event is found again, reporting confirmations for the
  account fails as soon as the event is due, and with it storing the scan.
\<close>

theorem rescan_strands_events:
  assumes "lmdb_store L" and "accounts_inv L s" and "images_inv L s" and "blocks_rows L s \<noteq> []"
    and "height \<le> bi_id (last (blocks_rows L s))"
    and "\<And>st a. a \<in> set (accounts_rows L s st) \<Longrightarrow>
      view_public (a_address a) \<in> view_public ` set addresses \<Longrightarrow> height \<le> a_scan_height a"
    and "a \<in> set (accounts_rows L s st)" and "a_address a \<in> set addresses"
    and "event \<in> set (events_rows L s (a_id a))" and "height \<le> event_height event"
    and "begin_id \<noteq> end_id" and "max begin_id (event_height event) < end_id"
  shows "\<exists>s'. rescan L C height addresses s = Some (Inr (filter (has_view L s) addresses, s')) \<and>
    add_ongoing_hooks L (a_id a) begin_id end_id events s' = Inl (Mdb MDB_NOTFOUND)"
proof -
  have "height \<le> a_scan_height (snd p)"
    if "p \<in> acct_set L s" "view_public (a_address (snd p)) \<in> view_public ` set addresses" for p
    using assms(6)[of "snd p" "fst p"] that by (cases p) simp
  from lmdb_store.rescan_loop_eq[OF assms(1-3) this, where C = C and updated = "[]" and addresses = addresses]
  obtain s' where l: "rescan_loop L C height addresses [] s = Some (Inr (filter (has_view L s) addresses, s'))"
    and o: "outputs_rows L s' = cut output_height height (view_ids L s addresses) (outputs_rows L s)" by auto
  have r: "rescan L C height addresses s = Some (Inr (filter (has_view L s) addresses, s'))"
    using l assms(4,5) by (simp add: rescan_def get_last_dup_def not_less)
  have ev: "event \<in> set (events_rows L s' (a_id a))" using rescan_loop_frame[OF l] assms(9) by simp
  have "(st, a) \<in> acct_set L s" using assms(7) by simp
  then have "a_id a \<in> view_ids L s addresses"
    unfolding view_ids_def using assms(8) by (force simp del: acct_set_iff)
  then have "\<not> has_row output_key (tl_height (wo_tx (we_link event)), tl_tx_hash (wo_tx (we_link event)), wo_out (we_link event))
      (outputs_rows L s' (a_id a))"
    using assms(10) by (auto simp: o cut_def has_row_def output_key_def output_height_def event_height_def)
  then have nd: "\<not> due_found L (a_id a) begin_id end_id s' event" using assms(12) by (simp add: due_found_def event_height_def)
  have "distinct (events_rows L s' (a_id a))" by (rule lmdb_store.events_distinct[OF assms(1)])
  from lmdb_store.ongoing_result[OF assms(1) subset_refl this, of begin_id end_id events] ev nd assms(11)
  have "add_ongoing_hooks L (a_id a) begin_id end_id events s' = Inl (Mdb MDB_NOTFOUND)"
    by (auto simp: add_ongoing_hooks_def split: if_splits)
  with r show ?thesis by blast
qed

theorem rescan_strands_events_witness:
  "\<exists>s'. rescan log_lmdb demo_crypto 3 [a_address demo_account] demo_hooks = Some (Inr ([a_address demo_account], s')) \<and>
     add_ongoing_hooks log_lmdb 1 4 5 [] s' = Inl (Mdb MDB_NOTFOUND)"
proof -
  have A: "acct_set log_lmdb demo_hooks = {(active, demo_account), (inactive, demo_account2)}"
  proof -
    have "acct_set log_lmdb demo_hooks = acct_set log_lmdb demo" by (simp add: acct_set_def demo_hooks_def)
    also have "\<dots> = {(active, demo_account), (inactive, demo_account2)}" by (auto simp: demo_accounts split: account_status.splits)
    finally show ?thesis .
  qed
  have inv: "accounts_inv log_lmdb demo_hooks" "images_inv log_lmdb demo_hooks"
    using demo_accounts_inv demo_images_inv by (simp_all add: accounts_inv_def images_inv_def demo_hooks_def)
  have b: "blocks_rows log_lmdb demo_hooks \<noteq> []" "3 \<le> bi_id (last (blocks_rows log_lmdb demo_hooks))"
    using demo_blocks by (simp_all add: demo_hooks_def demo_block_def)
  have rows: "accounts_rows log_lmdb demo_hooks st = accounts_rows log_lmdb demo st" for st by (simp add: demo_hooks_def)
  have h: "3 \<le> a_scan_height a" if "a \<in> set (accounts_rows log_lmdb demo_hooks st)"
    "view_public (a_address a) \<in> view_public ` set [a_address demo_account]" for st a
    using that by (cases st) (auto simp: rows demo_accounts demo_account_def demo_account2_def)
  have a: "demo_account \<in> set (accounts_rows log_lmdb demo_hooks active)" by (simp add: rows demo_accounts)
  have i: "a_id demo_account = 1" by (simp add: demo_account_def)
  have ev: "demo_ongoing \<in> set (events_rows log_lmdb demo_hooks (a_id demo_account))" by (simp add: demo_hooks_events i)
  have hv: "filter (has_view log_lmdb demo_hooks) [a_address demo_account] = [a_address demo_account]"
    unfolding has_view_def A by simp
  have "\<exists>s'. rescan log_lmdb demo_crypto 3 [a_address demo_account] demo_hooks =
      Some (Inr (filter (has_view log_lmdb demo_hooks) [a_address demo_account], s')) \<and>
    add_ongoing_hooks log_lmdb (a_id demo_account) 4 5 [] s' = Inl (Mdb MDB_NOTFOUND)"
    by (rule rescan_strands_events[OF log.lmdb_store_axioms inv b _ a _ ev])
      (use h in \<open>blast | simp add: demo_ongoing_def event_height_def\<close>)+
  then show ?thesis unfolding hv i .
qed

end
