(* ===== verification/Admin.thy ===== *)
theory Admin
  imports RestRequests Webhooks
begin

text \<open>
  The administration of the server: the handlers of \<open>src/src/rpc/admin.cpp\<close>, which the REST server
  and the command line tool share, the check of the administrator's key in \<open>call_admin\<close> of
  \<open>src/src/rest_server.cpp\<close>, and \<open>create_admin\<close> of \<open>src/src/admin_main.cpp\<close>, which makes such a key.

  A handler returns what it writes and the tables, as in \<open>RestRequests\<close>. Reading a request from JSON
  is done before: its addresses are addresses here. The text of an address, the reading of
  hexadecimal digits, the test of a public key, random ids and new keys are parameters.
\<close>

section \<open>Requests and answers\<close>

record address_requests =
  ar_addresses :: "account_address list"
  ar_max_subaddresses :: u32
  ar_type :: request

record add_account_req =
  aq_address :: account_address
  aq_key :: secret_key

record validate_req =
  vr_spend_public_hex :: string
  vr_view_public_hex :: string
  vr_view_key_hex :: string

record webhook_add_req =
  wr_url :: string
  wr_token :: "string option"
  wr_address :: "account_address option"
  wr_payment_id :: "u64 option"
  wr_confirmations :: "u32 option"
  wr_type :: webhook_type

text \<open>What \<open>truncated\<close> leaves of an account and of a request.\<close>

type_synonym shown_account = "string \<times> block_id \<times> account_time"
type_synonym shown_request = "string \<times> block_id \<times> address_index"

datatype admin_answer =
    Updated "string list"
  | Shown_accounts "(account_status \<times> shown_account list) list"
  | Shown_requests "(request \<times> shown_request list) list"
  | Valid_address string
  | Validate_error string string
  | Added_webhook webhook_value
  | Shown_webhooks "(webhook_key \<times> webhook_value list) list"
  | Empty_object

section \<open>The handlers\<close>

text \<open>A change of the tables in one transaction: with an error they stay as they were.\<close>

definition finish_write :: "('a \<Rightarrow> admin_answer) \<Rightarrow> 't tables \<Rightarrow> error + 'a \<times> 't tables \<Rightarrow> (error + admin_answer) \<times> 't tables" where
  "finish_write answer s result = (case result of Inl e \<Rightarrow> (Inl e, s) | Inr (x, s') \<Rightarrow> (Inr (answer x), s'))"

definition write_addresses :: "(account_address \<Rightarrow> string) \<Rightarrow> account_address list \<Rightarrow> admin_answer" where
  "write_addresses address_string addresses = Updated (map address_string addresses)"

definition admin_accept_requests :: "'t lmdb \<Rightarrow> crypto \<Rightarrow> (account_address \<Rightarrow> string) \<Rightarrow> int \<Rightarrow> (request_info \<Rightarrow> 't \<Rightarrow> address_index) \<Rightarrow>
    address_requests \<Rightarrow> 't tables \<Rightarrow> ('t, admin_answer) answer" where
  "admin_accept_requests L C address_string now after_del req s =
     map_option (finish_write (write_addresses address_string) s)
       (accept_requests L C now after_del (ar_type req) (ar_addresses req) (ar_max_subaddresses req) s)"

definition admin_add_account :: "'t lmdb \<Rightarrow> crypto \<Rightarrow> (account_address \<Rightarrow> string) \<Rightarrow> int \<Rightarrow> add_account_req \<Rightarrow> 't tables \<Rightarrow>
    ('t, admin_answer) answer" where
  "admin_add_account L C address_string now req s =
     Some (case add_account L (secret_key_to_public_key C) now (aq_address req) (aq_key req) 0 s of
             Inl e \<Rightarrow> (Inl e, s)
           | Inr s' \<Rightarrow> (Inr (write_addresses address_string [aq_address req]), s'))"

definition show_account :: "(account_address \<Rightarrow> string) \<Rightarrow> account \<Rightarrow> shown_account" where
  "show_account address_string user = (address_string (a_address user), a_scan_height user, a_access user)"

definition admin_list_accounts :: "'t lmdb \<Rightarrow> (account_address \<Rightarrow> string) \<Rightarrow> 't tables \<Rightarrow> ('t, admin_answer) answer" where
  "admin_list_accounts L address_string s =
     Some (Inr (Shown_accounts (map (\<lambda>status. (status, map (show_account address_string) (m_dups (accounts_m L) (accounts_t s) status)))
       (m_keys (accounts_m L) (accounts_t s)))), s)"

definition show_request :: "(account_address \<Rightarrow> string) \<Rightarrow> request_info \<Rightarrow> shown_request" where
  "show_request address_string info = (address_string (r_address info), r_start_height info, r_lookahead info)"

definition admin_list_requests :: "'t lmdb \<Rightarrow> (account_address \<Rightarrow> string) \<Rightarrow> 't tables \<Rightarrow> ('t, admin_answer) answer" where
  "admin_list_requests L address_string s =
     Some (Inr (Shown_requests (map (\<lambda>type. (type, map (show_request address_string) (m_dups (requests_m L) (requests_t s) type)))
       (m_keys (requests_m L) (requests_t s)))), s)"

definition admin_modify_account :: "'t lmdb \<Rightarrow> (account_address \<Rightarrow> string) \<Rightarrow> account_address list \<times> account_status \<Rightarrow> 't tables \<Rightarrow>
    ('t, admin_answer) answer" where
  "admin_modify_account L address_string req s =
     Some (finish_write (write_addresses address_string) s (change_status L (snd req) (fst req) [] s))"

definition admin_reject_requests :: "'t lmdb \<Rightarrow> (account_address \<Rightarrow> string) \<Rightarrow> address_requests \<Rightarrow> 't tables \<Rightarrow> ('t, admin_answer) answer" where
  "admin_reject_requests L address_string req s =
     Some (finish_write (write_addresses address_string) s (reject_requests L (ar_type req) (ar_addresses req) s))"

definition admin_rescan :: "'t lmdb \<Rightarrow> crypto \<Rightarrow> (account_address \<Rightarrow> string) \<Rightarrow> account_address list \<times> block_id \<Rightarrow> 't tables \<Rightarrow>
    ('t, admin_answer) answer" where
  "admin_rescan L C address_string req s =
     map_option (finish_write (write_addresses address_string) s) (rescan L C (snd req) (fst req) s)"

section \<open>Validating an address\<close>

text \<open>
  The errors found in a request are part of the answer. A key is 64 hexadecimal digits;
  \<open>from_hex\<close> reads them.
\<close>

definition convert_key :: "(string \<Rightarrow> hash option) \<Rightarrow> string \<Rightarrow> string \<Rightarrow> admin_answer + hash" where
  "convert_key from_hex text field =
     (if length text \<noteq> 64 then Inl (Validate_error field ''Expected 64 characters'')
      else case from_hex text of
        None \<Rightarrow> Inl (Validate_error field ''Invalid hex'')
      | Some key \<Rightarrow> Inr key)"

definition validate_answer :: "crypto \<Rightarrow> (account_address \<Rightarrow> string) \<Rightarrow> (string \<Rightarrow> hash option) \<Rightarrow> (public_key \<Rightarrow> bool) \<Rightarrow> validate_req \<Rightarrow>
    admin_answer + admin_answer" where
  "validate_answer C address_string from_hex check_key req =
     (if vr_spend_public_hex req = vr_view_public_hex req then
        Inl (Validate_error ''spend_public_hex'' ''spend_public_hex and view_public_hex should not be equal'')
      else
      check (convert_key from_hex (vr_spend_public_hex req) ''spend_public_hex'') (\<lambda>spend.
      check (convert_key from_hex (vr_view_public_hex req) ''view_public_hex'') (\<lambda>view.
      check (convert_key from_hex (vr_view_key_hex req) ''view_key_hex'') (\<lambda>view_key.
      if \<not> check_key spend then Inl (Validate_error ''spend_public_hex'' ''Invalid public key format'')
      else if \<not> check_key view then Inl (Validate_error ''view_public_hex'' ''Invalid public key format'')
      else if secret_key_to_public_key C view_key \<noteq> Some view then
        Inl (Validate_error ''view_key_hex'' ''view_key and view_public do not match'')
      else Inr (Valid_address (address_string \<lparr>view_public = view, spend_public = spend\<rparr>))))))"

definition admin_validate :: "crypto \<Rightarrow> (account_address \<Rightarrow> string) \<Rightarrow> (string \<Rightarrow> hash option) \<Rightarrow> (public_key \<Rightarrow> bool) \<Rightarrow> validate_req \<Rightarrow>
    't tables \<Rightarrow> ('t, admin_answer) answer" where
  "admin_validate C address_string from_hex check_key req s =
     Some (Inr (case validate_answer C address_string from_hex check_key req of Inl a \<Rightarrow> a | Inr a \<Rightarrow> a), s)"

section \<open>Webhooks\<close>

definition webhook_request_ok :: "webhook_add_req \<Rightarrow> bool" where
  "webhook_request_ok req =
     (case wr_type req of
        tx_confirmation \<Rightarrow> wr_address req \<noteq> None
      | new_account \<Rightarrow> wr_address req = None
      | tx_spend \<Rightarrow> wr_address req \<noteq> None)"

definition requested_webhook :: "uuid \<Rightarrow> webhook_add_req \<Rightarrow> webhook_value" where
  "requested_webhook event_id req =
     (Webhook_dupsort (case wr_payment_id req of None \<Rightarrow> 0 | Some payment_id \<Rightarrow> payment_id) event_id,
      \<lparr>wh_url = wr_url req,
       wh_token = (case wr_token req of None \<Rightarrow> [] | Some token \<Rightarrow> token),
       wh_confirmations = (case wr_confirmations req of None \<Rightarrow> 1 | Some n \<Rightarrow> n)\<rparr>)"

definition admin_webhook_add :: "'t lmdb \<Rightarrow> (string \<Rightarrow> string option) \<Rightarrow> uuid \<Rightarrow> webhook_add_req \<Rightarrow> 't tables \<Rightarrow> ('t, admin_answer) answer" where
  "admin_webhook_add L url_schema event_id req s =
     Some (if \<not> webhook_request_ok req then (Inl (Lws bad_webhook), s)
           else
             let event = requested_webhook event_id req in
             case add_webhook L url_schema (wr_type req) (wr_address req) event s of
               Inl e \<Rightarrow> (Inl e, s)
             | Inr s' \<Rightarrow> (Inr (Added_webhook event), s'))"

definition admin_webhook_delete :: "'t lmdb \<Rightarrow> account_address list \<Rightarrow> 't tables \<Rightarrow> ('t, admin_answer) answer" where
  "admin_webhook_delete L addresses s =
     Some (case clear_account_webhooks L addresses s of Inl e \<Rightarrow> (Inl e, s) | Inr s' \<Rightarrow> (Inr Empty_object, s'))"

definition admin_webhook_delete_uuid :: "'t lmdb \<Rightarrow> uuid list \<Rightarrow> 't tables \<Rightarrow> ('t, admin_answer) answer" where
  "admin_webhook_delete_uuid L event_ids s =
     Some (case clear_webhooks L event_ids s of Inl e \<Rightarrow> (Inl e, s) | Inr s' \<Rightarrow> (Inr Empty_object, s'))"

definition admin_webhook_list :: "'t lmdb \<Rightarrow> 't tables \<Rightarrow> ('t, admin_answer) answer" where
  "admin_webhook_list L s = Some (Inr (Shown_webhooks (get_webhooks L s)), s)"

section \<open>The administrator's key\<close>

text \<open>
  The address of an administrator has the public key of the secret one as view key, and a spend
  key of zeros. The key is not looked at when the check is turned off.
\<close>

definition admin_address :: "public_key \<Rightarrow> account_address" where
  "admin_address view = \<lparr>view_public = view, spend_public = 0\<rparr>"

definition check_admin :: "'t lmdb \<Rightarrow> crypto \<Rightarrow> secret_key option \<Rightarrow> 't tables \<Rightarrow> error + unit" where
  "check_admin L C auth s =
     (case auth of
        None \<Rightarrow> Inl (Lws account_not_found)
      | Some key \<Rightarrow>
          (case secret_key_to_public_key C key of
             None \<Rightarrow> Inl (Lws crypto_failure)
           | Some view \<Rightarrow>
               check (get_account_by_address L (admin_address view) s) (\<lambda>(status, user).
                 if status = inactive then Inl (Lws account_not_found)
                 else if a_flags user AND admin_account = 0 then Inl (Lws account_not_found)
                 else Inr ())))"

text \<open>
  \<open>E\<close> is the handler, \<open>add_values\<close> what it takes over from the options of the server. The last
  argument but one is the verb of the request, then the request or why it cannot be read.
\<close>

definition call_admin :: "'t lmdb \<Rightarrow> crypto \<Rightarrow> bool \<Rightarrow> ('p \<Rightarrow> 'p) \<Rightarrow> ('p \<Rightarrow> 't tables \<Rightarrow> ('t, 'a) answer) \<Rightarrow> bool \<Rightarrow>
    error + secret_key option \<times> 'p \<Rightarrow> 't tables \<Rightarrow> ('t, 'a) answer" where
  "call_admin L C disable_admin_auth add_values E is_post req s =
     (if \<not> is_post then Some (Inl (Lws bad_verb), s)
      else case req of
        Inl e \<Rightarrow> Some (Inl e, s)
      | Inr (auth, params) \<Rightarrow>
          (case (if disable_admin_auth then Inr () else check_admin L C auth s) of
             Inl e \<Rightarrow> Some (Inl e, s)
           | Inr () \<Rightarrow> E (add_values params) s))"

definition add_max_subaddresses :: "rest_options \<Rightarrow> address_requests \<Rightarrow> address_requests" where
  "add_max_subaddresses R req = req\<lparr>ar_max_subaddresses := ro_max_subaddresses R\<rparr>"

text \<open>The command that makes an administrator; the pair of keys is new.\<close>

definition create_admin :: "'t lmdb \<Rightarrow> crypto \<Rightarrow> int \<Rightarrow> public_key \<Rightarrow> secret_key \<Rightarrow> 't tables \<Rightarrow> error + 't tables" where
  "create_admin L C now view auth s =
     add_account L (secret_key_to_public_key C) now (admin_address view) auth admin_account s"

section \<open>Who administers the server\<close>

text \<open>
  A secret key administers the server when an account that is not inactive has the flag of an
  administrator and the address that belongs to the key.
\<close>

definition administers :: "'t lmdb \<Rightarrow> crypto \<Rightarrow> 't tables \<Rightarrow> secret_key \<Rightarrow> bool" where
  "administers L C s key \<longleftrightarrow>
     (\<exists>(status, user) \<in> acct_set L s. status \<noteq> inactive \<and> a_flags user AND admin_account \<noteq> 0 \<and>
        spend_public (a_address user) = 0 \<and> secret_key_to_public_key C key = Some (view_public (a_address user)))"

lemma admin_address_eq: "a = admin_address view \<longleftrightarrow> spend_public a = 0 \<and> view_public a = view"
  by (cases a) (auto simp: admin_address_def)

context lmdb_store begin

lemma check_admin_iff:
  assumes "accounts_inv L s"
  shows "check_admin L C auth s = Inr () \<longleftrightarrow> (\<exists>key. auth = Some key \<and> administers L C s key)"
proof (cases "\<exists>key view. auth = Some key \<and> secret_key_to_public_key C key = Some view")
  case False
  then have "\<nexists>key. auth = Some key \<and> administers L C s key" by (auto simp: administers_def)
  with False show ?thesis by (auto simp: check_admin_def split: option.splits)
next
  case True
  then obtain key view where k: "auth = Some key" "secret_key_to_public_key C key = Some view" by blast
  note found = get_account_by_address_iff[OF assms, of "admin_address view"]
  have "check_admin L C auth s = Inr () \<longleftrightarrow>
      (\<exists>st a. get_account_by_address L (admin_address view) s = Inr (st, a) \<and> st \<noteq> inactive \<and> a_flags a AND admin_account \<noteq> 0)"
    by (cases "get_account_by_address L (admin_address view) s") (auto simp: check_admin_def k split: prod.splits)
  also have "\<dots> \<longleftrightarrow> administers L C s key"
    unfolding found administers_def k by (auto simp: admin_address_eq) blast+
  finally show ?thesis using k by auto
qed

end

lemma create_admin_adds:
  assumes "lmdb_store L" and "accounts_inv L s" and "get_account_time now = Inr t"
    and "blocks_rows L s \<noteq> []" and "find_last_id L s \<noteq> -1"
    and "secret_key_to_public_key C auth = Some view" and "\<not> has_view L s (admin_address view)"
  obtains s1 a where "create_admin L C now view auth s = Inr s1" "accounts_inv L s1"
    "a_address a = admin_address view" "a_flags a = admin_account"
    "acct_set L s1 = insert (hidden, a) (acct_set L s)"
  using add_account_correct[OF assms(1-5), of "secret_key_to_public_key C" auth "admin_address view" admin_account] assms(6,7)
  by (auto simp: create_admin_def admin_address_def initial_status_def simp del: acct_set_iff)

lemma demo_admin:
  obtains s1 a where "create_admin log_lmdb demo_crypto 1700000000 31 31 demo = Inr s1" "accounts_inv log_lmdb s1"
    "a_address a = admin_address 31" "a_flags a = admin_account" "acct_set log_lmdb s1 = insert (hidden, a) (acct_set log_lmdb demo)"
    "get_account_time 1700000000 = Inr 1700000000" "blocks_rows log_lmdb demo \<noteq> []" "find_last_id log_lmdb demo \<noteq> -1"
    "secret_key_to_public_key demo_crypto 31 = Some 31" "\<not> has_view log_lmdb demo (admin_address 31)"
proof -
  have A: "acct_set log_lmdb demo = {(active, demo_account), (inactive, demo_account2)}"
    by (auto simp: demo_accounts split: account_status.splits)
  have t: "get_account_time 1700000000 = Inr 1700000000" by (simp add: get_account_time_def)
  have b: "blocks_rows log_lmdb demo \<noteq> []" by (simp add: demo_blocks)
  have l: "find_last_id log_lmdb demo \<noteq> -1"
    by (simp add: find_last_id_def log_lmdb_def log_mdb_def demo_def demo_account_def demo_account2_def
        less_account_status_def max_def)
  have k: "secret_key_to_public_key demo_crypto 31 = Some 31"
    by (simp add: secret_key_to_public_key_def demo_crypto_def)
  have v: "\<not> has_view log_lmdb demo (admin_address 31)"
    by (simp add: has_view_def A demo_account_def demo_account2_def admin_address_def)
  show thesis
    by (rule create_admin_adds[OF log.lmdb_store_axioms demo_accounts_inv t b l k v]) (rule that[OF _ _ _ _ _ t b l k v])
qed

lemma demo_not_admin: "\<not> administers log_lmdb demo_crypto demo key"
proof -
  have "acct_set log_lmdb demo = {(active, demo_account), (inactive, demo_account2)}"
    by (auto simp: demo_accounts split: account_status.splits)
  then show ?thesis by (simp add: administers_def demo_account_def del: acct_set_iff)
qed

text \<open>
  C27: A request to an administration handler reaches the handler exactly when it is a POST that
  can be read and, unless the check is turned off, carries a secret key that administers the
  server. Every other request is answered with an error and changes nothing.
\<close>

theorem admin_needs_key:
  assumes "lmdb_store L" and "accounts_inv L s"
  shows "if is_post \<and> (\<exists>auth params. req = Inr (auth, params) \<and>
           (disable_admin_auth \<or> (\<exists>key. auth = Some key \<and> administers L C s key)))
    then call_admin L C disable_admin_auth add_values E is_post req s = E (add_values (snd (projr req))) s
    else \<exists>e. call_admin L C disable_admin_auth add_values E is_post req s = Some (Inl e, s)"
proof (cases req)
  case (Inr p)
  obtain auth params where p: "p = (auth, params)" by force
  note iff = lmdb_store.check_admin_iff[OF assms, of C auth]
  show ?thesis
  proof (cases "check_admin L C auth s")
    case (Inl e)
    with iff have "\<not> (\<exists>key. auth = Some key \<and> administers L C s key)" by simp
    with Inl show ?thesis by (auto simp: call_admin_def Inr p split: unit.split)
  next
    case (Inr u)
    with iff have "\<exists>key. auth = Some key \<and> administers L C s key" by simp
    with Inr show ?thesis by (simp add: call_admin_def \<open>req = Inr p\<close> p split: unit.split)
  qed
qed (simp add: call_admin_def)

theorem admin_needs_key_witness:
  "\<exists>s1. create_admin log_lmdb demo_crypto 1700000000 31 31 demo = Inr s1 \<and>
     call_admin log_lmdb demo_crypto False id (\<lambda>_. admin_webhook_list log_lmdb) True (Inr (Some 31, ())) s1 = admin_webhook_list log_lmdb s1 \<and>
     (\<exists>e. call_admin log_lmdb demo_crypto False id (\<lambda>_. admin_webhook_list log_lmdb) True (Inr (Some 13, ())) s1 = Some (Inl e, s1))"
proof -
  obtain s1 a where s1: "create_admin log_lmdb demo_crypto 1700000000 31 31 demo = Inr s1" "accounts_inv log_lmdb s1"
    and a: "a_address a = admin_address 31" "a_flags a = admin_account"
    and set1: "acct_set log_lmdb s1 = insert (hidden, a) (acct_set log_lmdb demo)" by (rule demo_admin)
  have "administers log_lmdb demo_crypto s1 31" "\<not> administers log_lmdb demo_crypto s1 13"
    using a demo_not_admin[of 13]
    by (simp_all add: administers_def set1 admin_address_def admin_account_def secret_key_to_public_key_def demo_crypto_def del: acct_set_iff)
  then show ?thesis
    using s1 admin_needs_key[OF log.lmdb_store_axioms s1(2), where is_post = True and disable_admin_auth = False and C = demo_crypto
        and E = "\<lambda>_. admin_webhook_list log_lmdb" and add_values = id and req = "Inr (Some 31, ())"]
      admin_needs_key[OF log.lmdb_store_axioms s1(2), where is_post = True and disable_admin_auth = False and C = demo_crypto
        and E = "\<lambda>_. admin_webhook_list log_lmdb" and add_values = id and req = "Inr (Some 13, ())"]
    by auto
qed

text \<open>
  C28: The command that creates an administrator stores a hidden account, and exactly the keys
  that administered the server before and the new one do so afterwards. Making the account
  inactive takes the right from the keys with its view key and from nobody else.
\<close>

theorem admin_key_life:
  assumes "lmdb_store L" and "accounts_inv L s" and "get_account_time now = Inr t"
    and "blocks_rows L s \<noteq> []" and "find_last_id L s \<noteq> -1"
    and "secret_key_to_public_key C auth = Some view" and "\<not> has_view L s (admin_address view)"
  shows "\<exists>s1 s2. create_admin L C now view auth s = Inr s1 \<and>
    (\<forall>key. administers L C s1 key \<longleftrightarrow> administers L C s key \<or> secret_key_to_public_key C key = Some view) \<and>
    admin_modify_account L address_string ([admin_address view], inactive) s1 =
      Some (Inr (Updated [address_string (admin_address view)]), s2) \<and>
    (\<forall>key. administers L C s2 key \<longleftrightarrow> administers L C s key)"
proof -
  from create_admin_adds[OF assms] obtain s1 a where s1: "create_admin L C now view auth s = Inr s1" "accounts_inv L s1"
    and a: "a_address a = admin_address view" "a_flags a = admin_account"
    and set1: "acct_set L s1 = insert (hidden, a) (acct_set L s)" by blast
  have h: "has_view L s1 (admin_address view)"
    using a by (auto simp: has_view_def set1 simp del: acct_set_iff)
  obtain s2 where s2: "change_status L inactive [admin_address view] [] s1 = Inr ([admin_address view], s2)"
    and set2: "acct_set L s2 = restatus inactive [admin_address view] ` acct_set L s1"
    using lmdb_store.change_status_eq[OF assms(1) s1(2), of inactive "[admin_address view]" "[]"] h by auto
  have other: "restatus inactive [admin_address view] ` acct_set L s = acct_set L s"
    using assms(7) by (force simp: has_view_def restatus_def simp del: acct_set_iff)
  have "restatus inactive [admin_address view] (hidden, a) = (inactive, a)" using a by (simp add: restatus_def)
  then have acct2: "acct_set L s2 = insert (inactive, a) (acct_set L s)"
    by (simp only: set2 set1 image_insert other)
  have "administers L C s1 key \<longleftrightarrow> administers L C s key \<or> secret_key_to_public_key C key = Some view" for key
    using a by (auto simp: administers_def set1 admin_address_def admin_account_def simp del: acct_set_iff)
  moreover have "administers L C s2 key \<longleftrightarrow> administers L C s key" for key
    by (simp add: administers_def acct2 del: acct_set_iff)
  ultimately show ?thesis
    using s1 s2 by (auto simp: admin_modify_account_def finish_write_def write_addresses_def)
qed


theorem admin_key_life_witness:
  "\<exists>s1 s2. create_admin log_lmdb demo_crypto 1700000000 31 31 demo = Inr s1 \<and> administers log_lmdb demo_crypto s1 31 \<and>
     admin_modify_account log_lmdb (\<lambda>_. ''a'') ([admin_address 31], inactive) s1 = Some (Inr (Updated [''a'']), s2) \<and>
     \<not> administers log_lmdb demo_crypto s2 31"
proof (rule demo_admin)
  assume t: "get_account_time 1700000000 = Inr 1700000000" and b: "blocks_rows log_lmdb demo \<noteq> []"
    and l: "find_last_id log_lmdb demo \<noteq> -1" and k: "secret_key_to_public_key demo_crypto 31 = Some 31"
    and v: "\<not> has_view log_lmdb demo (admin_address 31)"
  show ?thesis
    using admin_key_life[OF log.lmdb_store_axioms demo_accounts_inv t b l k v, of "\<lambda>_. ''a''"] demo_not_admin k by blast
qed

section \<open>What validating and adding a webhook do\<close>

text \<open>
  An address is reported exactly when the keys of the request can be read, are not the same text,
  are points of the curve, and the public view key belongs to the secret one.
\<close>

lemma validate_answer_iff:
  "validate_answer C address_string from_hex check_key req = Inr answer \<longleftrightarrow>
     vr_spend_public_hex req \<noteq> vr_view_public_hex req \<and>
     (\<exists>spend view key. convert_key from_hex (vr_spend_public_hex req) ''spend_public_hex'' = Inr spend \<and>
        convert_key from_hex (vr_view_public_hex req) ''view_public_hex'' = Inr view \<and>
        convert_key from_hex (vr_view_key_hex req) ''view_key_hex'' = Inr key \<and>
        check_key spend \<and> check_key view \<and> secret_key_to_public_key C key = Some view \<and>
        answer = Valid_address (address_string \<lparr>view_public = view, spend_public = spend\<rparr>))"
  by (auto simp: validate_answer_def check_Inr_iff split: if_splits)

lemma admin_validate_unchanged: "admin_validate C address_string from_hex check_key req s = Some (r, s') \<Longrightarrow> s' = s \<and> (\<exists>a. r = Inr a)"
  by (auto simp: admin_validate_def)

context lmdb_store begin

text \<open>
  A webhook that is accepted is stored under its type, with a token and a number of
  confirmations for those that the request leaves out; nothing else changes. Only webhooks for
  new accounts are kept for no account.
\<close>

lemma admin_webhook_add_stores:
  assumes "admin_webhook_add L url_schema event_id req s = Some (Inr answer, s')"
  shows "answer = Added_webhook (requested_webhook event_id req) \<and>
    (\<exists>user t. (user = account_id_invalid \<longrightarrow> wr_type req = new_account) \<and> s' = s\<lparr>webhooks_t := t\<rparr> \<and>
       webhooks_rows L s' = (webhooks_rows L s)(Webhook_key user (wr_type req) :=
         ins_row fst (requested_webhook event_id req) (webhooks_rows L s (Webhook_key user (wr_type req)))))"
proof -
  from assms have "webhook_request_ok req" and a: "answer = Added_webhook (requested_webhook event_id req)"
    and r: "add_webhook L url_schema (wr_type req) (wr_address req) (requested_webhook event_id req) s = Inr s'"
    by (auto simp: admin_webhook_add_def Let_def split: if_splits sum.splits)
  from r obtain user where "user = account_id_invalid \<longrightarrow> wr_type req \<noteq> tx_confirmation \<and> wr_type req \<noteq> tx_spend"
    and "s' = s\<lparr>webhooks_t := tput (webhooks_m L) (Webhook_key user (wr_type req)) (requested_webhook event_id req) (webhooks_t s)\<rparr>"
    by (auto simp: add_webhook_def check_Inr_iff split: if_splits)
  with a show ?thesis by (auto intro!: exI[of _ user] simp: webhook_type.exhaust fun_eq_iff) (metis webhook_type.exhaust)
qed

end

end
