(* ===== verification/Dispatch.thy ===== *)
theory Dispatch
  imports Prelude
begin

text \<open>
  How the REST server (\<open>src/src/rest_server.cpp\<close>) finds the handler of a request and answers when
  there is none: the tables of endpoints, the search in them, the limits on a request before its
  handler runs, and the HTTP status for an error (\<open>src/src/error.cpp\<close> tells which errors are
  timeouts). Handlers are named here, not run. Sockets, TLS and timers are left out.
\<close>

section \<open>Names in the order of \<open>strcmp\<close>\<close>

fun str_less :: "string \<Rightarrow> string \<Rightarrow> bool" where
  "str_less _ [] \<longleftrightarrow> False"
| "str_less [] (d # ds) \<longleftrightarrow> True"
| "str_less (c # cs) (d # ds) \<longleftrightarrow>
     (of_char c :: nat) < of_char d \<or> (of_char c :: nat) = of_char d \<and> str_less cs ds"

text \<open>
  \<open>std::lower_bound\<close> of the standard library: the range of \<open>len\<close> elements from \<open>first\<close> on is halved,
  \<open>before\<close> compares an element with the value that is searched for.
\<close>

function lower_bound_from :: "('a \<Rightarrow> bool) \<Rightarrow> 'a list \<Rightarrow> nat \<Rightarrow> nat \<Rightarrow> nat" where
  "lower_bound_from before xs first len =
     (if len = 0 then first
      else
        let half = len div 2; middle = first + half in
        if before (xs ! middle) then lower_bound_from before xs (middle + 1) (len - half - 1)
        else lower_bound_from before xs first half)"
  by pat_completeness auto
termination by (relation "measure (\<lambda>(_, _, _, len). len)") auto

declare lower_bound_from.simps [simp del]

definition lower_bound :: "('a \<Rightarrow> bool) \<Rightarrow> 'a list \<Rightarrow> nat" where
  "lower_bound before xs = lower_bound_from before xs 0 (length xs)"

section \<open>Endpoints\<close>

text \<open>The handlers, as the template arguments of \<open>call\<close> and of \<open>call_admin\<close>.\<close>

datatype handler =
    Daemon_status | Get_address_info | Get_address_txs | Get_random_outs | Get_subaddrs | Get_unspent_outs
  | Get_version | Import_key_images | Import_request | Login | Multisig_balance | Multisig_kex_finalize
  | Multisig_kex_submit | Multisig_kex_status | Multisig_register | Multisig_register_wallet | Multisig_txs
  | Multisig_txset_register | Multisig_txset_signature | Multisig_txset_submit | Multisig_list_wallets
  | Provision_subaddrs | Request_rescan | Submit_raw_tx | Upsert_subaddrs
  | Accept_requests | Add_account | List_accounts | List_requests | Modify_account | Reject_requests
  | Rescan | Validate | Webhook_add | Webhook_delete | Webhook_delete_uuid | Webhook_list

record endpoint =
  ep_name :: string
  ep_run :: "handler option"
  ep_max_size :: nat
  ep_is_async :: bool

definition Endpoint :: "string \<Rightarrow> handler option \<Rightarrow> nat \<Rightarrow> bool \<Rightarrow> endpoint" where
  "Endpoint name run max_size is_async = \<lparr>ep_name = name, ep_run = run, ep_max_size = max_size, ep_is_async = is_async\<rparr>"

definition endpoints :: "endpoint list" where
  "endpoints =
    [Endpoint ''/daemon_status'' (Some Daemon_status) 1024 True,
     Endpoint ''/get_address_info'' (Some Get_address_info) (2 * 1024) False,
     Endpoint ''/get_address_txs'' (Some Get_address_txs) (2 * 1024) False,
     Endpoint ''/get_random_outs'' (Some Get_random_outs) (2 * 1024) True,
     Endpoint ''/get_subaddrs'' (Some Get_subaddrs) (2 * 1024) False,
     Endpoint ''/get_txt_records'' None 0 False,
     Endpoint ''/get_unspent_outs'' (Some Get_unspent_outs) (2 * 1024) True,
     Endpoint ''/get_version'' (Some Get_version) 1024 False,
     Endpoint ''/import_key_images'' (Some Import_key_images) (64 * 1024) False,
     Endpoint ''/import_wallet_request'' (Some Import_request) (2 * 1024) False,
     Endpoint ''/login'' (Some Login) (2 * 1024) False,
     Endpoint ''/multisig/balance'' (Some Multisig_balance) (2 * 1024) False,
     Endpoint ''/multisig/kex/finalize'' (Some Multisig_kex_finalize) (4 * 1024) False,
     Endpoint ''/multisig/kex/submit'' (Some Multisig_kex_submit) (64 * 1024) False,
     Endpoint ''/multisig/kex/status'' (Some Multisig_kex_status) (2 * 1024) False,
     Endpoint ''/multisig/register_tx'' (Some Multisig_register) (4 * 1024) False,
     Endpoint ''/multisig/register_wallet'' (Some Multisig_register_wallet) (4 * 1024) False,
     Endpoint ''/multisig/transactions'' (Some Multisig_txs) (2 * 1024) False,
     Endpoint ''/multisig/txsets/register'' (Some Multisig_txset_register) (512 * 1024) False,
     Endpoint ''/multisig/txsets/signature'' (Some Multisig_txset_signature) (512 * 1024) False,
     Endpoint ''/multisig/txsets/submit'' (Some Multisig_txset_submit) (4 * 1024) False,
     Endpoint ''/multisig/wallets'' (Some Multisig_list_wallets) 1024 False,
     Endpoint ''/provision_subaddrs'' (Some Provision_subaddrs) (2 * 1024) False,
     Endpoint ''/request_rescan'' (Some Request_rescan) (2 * 1024) False,
     Endpoint ''/submit_raw_tx'' (Some Submit_raw_tx) (512 * 1024) True,
     Endpoint ''/upsert_subaddrs'' (Some Upsert_subaddrs) (10 * 1024) False]"

definition admin_endpoints :: "endpoint list" where
  "admin_endpoints =
    [Endpoint ''/accept_requests'' (Some Accept_requests) (50 * 1024) False,
     Endpoint ''/add_account'' (Some Add_account) (50 * 1024) False,
     Endpoint ''/list_accounts'' (Some List_accounts) 100 False,
     Endpoint ''/list_requests'' (Some List_requests) 100 False,
     Endpoint ''/modify_account_status'' (Some Modify_account) (50 * 1024) False,
     Endpoint ''/reject_requests'' (Some Reject_requests) (50 * 1024) False,
     Endpoint ''/rescan'' (Some Rescan) (50 * 1024) False,
     Endpoint ''/validate'' (Some Validate) (50 * 1024) False,
     Endpoint ''/webhook_add'' (Some Webhook_add) (50 * 1024) False,
     Endpoint ''/webhook_delete'' (Some Webhook_delete) (50 * 1024) False,
     Endpoint ''/webhook_delete_uuid'' (Some Webhook_delete_uuid) (50 * 1024) False,
     Endpoint ''/webhook_list'' (Some Webhook_list) 100 False]"

definition get_max :: "endpoint list \<Rightarrow> nat" where
  "get_max es = fold (\<lambda>e current_max. max current_max (ep_max_size e)) es 0"

text \<open>The second maximum is taken over the first table as well.\<close>

definition max_endpoint_size :: nat where
  "max_endpoint_size = max (get_max endpoints) (get_max endpoints)"

section \<open>The port of a request\<close>

record port =
  pt_prefix :: "string option"
  pt_admin_prefix :: "string option"

definition starts_with :: "string \<Rightarrow> string \<Rightarrow> bool" where
  "starts_with uri prefix \<longleftrightarrow> take (length prefix) uri = prefix"

definition search_endpoint :: "endpoint list \<Rightarrow> string \<Rightarrow> endpoint option" where
  "search_endpoint handlers uri =
     (let handler = lower_bound (\<lambda>e. str_less (ep_name e) uri) handlers in
      if handler = length handlers \<or> ep_name (handlers ! handler) \<noteq> uri then None else Some (handlers ! handler))"

definition get_endpoint :: "port \<Rightarrow> string \<Rightarrow> endpoint option" where
  "get_endpoint p uri =
     (case pt_admin_prefix p of
        Some admin_prefix \<Rightarrow>
          if starts_with uri admin_prefix then search_endpoint admin_endpoints (drop (length admin_prefix) uri)
          else (case pt_prefix p of
                  Some prefix \<Rightarrow> if starts_with uri prefix then search_endpoint endpoints (drop (length prefix) uri) else None
                | None \<Rightarrow> None)
      | None \<Rightarrow>
          (case pt_prefix p of
             Some prefix \<Rightarrow> if starts_with uri prefix then search_endpoint endpoints (drop (length prefix) uri) else None
           | None \<Rightarrow> None))"

section \<open>Requests and answers\<close>

datatype verb = Post | Get | Other_verb

datatype http_status =
    Bad_request | Forbidden | Not_found | Method_not_allowed | Conflict | Internal_server_error
  | Not_implemented | Service_unavailable

record http_request =
  hq_target :: string
  hq_payload_size :: "u64 option"
  hq_method :: verb

text \<open>The part of \<open>async_response\<close> that decides whether a handler runs, and which.\<close>

definition dispatch_request :: "port \<Rightarrow> http_request \<Rightarrow> http_status + endpoint \<times> handler" where
  "dispatch_request p req =
     (case get_endpoint p (hq_target req) of
        None \<Rightarrow> Inl Not_found
      | Some e \<Rightarrow>
          (case ep_run e of
             None \<Rightarrow> Inl Not_implemented
           | Some run \<Rightarrow>
               let payload_size = (case hq_payload_size req of None \<Rightarrow> -1 | Some n \<Rightarrow> n) in
               if ep_max_size e < unat payload_size then Inl Bad_request
               else if hq_method req \<noteq> Post \<and> hq_method req \<noteq> Get then Inl Method_not_allowed
               else Inr (e, run)))"

text \<open>
  What an error of a handler is answered with. Errors of the JSON reader are of a category of
  their own. Which LMDB codes stand for a timeout or a lack of reader slots is a parameter.
\<close>

datatype errc = Errc_bad_address | Errc_timed_out | Errc_no_buffer_space | Errc_interrupted | Errc_result_out_of_range | Errc_no_lock_available

definition default_error_condition :: "lws_error \<Rightarrow> errc option" where
  "default_error_condition value =
     (case value of
        bad_address \<Rightarrow> Some Errc_bad_address
      | bad_view_key \<Rightarrow> Some Errc_bad_address
      | daemon_timeout \<Rightarrow> Some Errc_timed_out
      | exceeded_blockchain_buffer \<Rightarrow> Some Errc_no_buffer_space
      | signal_abort_process \<Rightarrow> Some Errc_interrupted
      | signal_abort_scan \<Rightarrow> Some Errc_interrupted
      | signal_unknown \<Rightarrow> Some Errc_interrupted
      | system_clock_invalid_range \<Rightarrow> Some Errc_result_out_of_range
      | _ \<Rightarrow> None)"

datatype rest_error = Rapidjson | Code error

definition rest_condition :: "(mdb_error \<Rightarrow> errc option) \<Rightarrow> rest_error \<Rightarrow> errc option" where
  "rest_condition mdb_condition e =
     (case e of Code (Lws v) \<Rightarrow> default_error_condition v | Code (Mdb m) \<Rightarrow> mdb_condition m | _ \<Rightarrow> None)"

definition bad_request :: "(mdb_error \<Rightarrow> errc option) \<Rightarrow> rest_error \<Rightarrow> http_status" where
  "bad_request mdb_condition e =
     (if e = Rapidjson \<or> e = Code (Lws invalid_range) \<or> e = Code (Lws not_enough_amount) then Bad_request
      else if e = Code (Lws bad_verb) then Method_not_allowed
      else if e = Code (Lws account_not_found) \<or> e = Code (Lws duplicate_request) then Forbidden
      else if e = Code (Lws max_subaddresses) then Conflict
      else if rest_condition mdb_condition e = Some Errc_timed_out \<or> rest_condition mdb_condition e = Some Errc_no_lock_available then Service_unavailable
      else Internal_server_error)"

text \<open>
  \<open>call\<close>: a request type with fields is read from the body of a POST, one without fields is not read.
\<close>

definition call_rest :: "bool \<Rightarrow> verb \<Rightarrow> rest_error + 'q \<Rightarrow> 'q \<Rightarrow> ('q \<Rightarrow> 's \<Rightarrow> (rest_error + 'r) \<times> 's) \<Rightarrow> 's \<Rightarrow> (rest_error + 'r) \<times> 's" where
  "call_rest is_empty_request last_verb parsed default_request handle s =
     (if is_empty_request then handle default_request s
      else if last_verb \<noteq> Post then (Inl (Code (Lws bad_verb)), s)
      else case parsed of Inl error \<Rightarrow> (Inl error, s) | Inr req \<Rightarrow> handle req s)"

text \<open>
  The answer to a request whose handler has run; \<open>None\<close> means that an asynchronous handler has
  returned no body and answers later.
\<close>

definition handler_response :: "(mdb_error \<Rightarrow> errc option) \<Rightarrow> endpoint \<Rightarrow> rest_error + 'b list \<Rightarrow> (http_status + 'b list) option" where
  "handler_response mdb_condition e body =
     (case body of
        Inl error \<Rightarrow> Some (Inl (bad_request mdb_condition error))
      | Inr b \<Rightarrow> if \<not> ep_is_async e \<or> b \<noteq> [] then Some (Inr b) else None)"

section \<open>What the search finds\<close>

text \<open>In a list that is split by \<open>before\<close>, the search ends at the split.\<close>

lemma lower_bound_from_split:
  "(\<And>i. i < length xs \<Longrightarrow> before (xs ! i) \<longleftrightarrow> i < n) \<Longrightarrow> first \<le> n \<Longrightarrow> n \<le> first + len \<Longrightarrow> first + len \<le> length xs \<Longrightarrow>
     lower_bound_from before xs first len = n"
proof (induction before xs first len rule: lower_bound_from.induct)
  case (1 before xs first len)
  show ?case
  proof (cases "len = 0")
    case True
    with 1 show ?thesis by (simp add: lower_bound_from.simps)
  next
    case False
    define half where "half = len div 2"
    have h: "half < len" using False by (simp add: half_def)
    have m: "before (xs ! (first + half)) \<longleftrightarrow> first + half < n" using 1 h by simp
    show ?thesis
    proof (cases "first + half < n")
      case True
      have "lower_bound_from before xs (first + half + 1) (len - half - 1) = n"
        by (rule "1.IH"(1)[OF False half_def refl]) (use 1 m True h in auto)
      with False True m show ?thesis by (subst lower_bound_from.simps) (simp add: half_def[symmetric] Let_def)
    next
      case F: False
      have "lower_bound_from before xs first half = n"
        by (rule "1.IH"(2)[OF False half_def refl]) (use 1 m F h in auto)
      with False F m show ?thesis by (subst lower_bound_from.simps) (simp add: half_def[symmetric] Let_def)
    qed
  qed
qed

lemma lower_bound_split:
  "(\<And>i. i < length xs \<Longrightarrow> before (xs ! i) \<longleftrightarrow> i < n) \<Longrightarrow> n \<le> length xs \<Longrightarrow> lower_bound before xs = n"
  by (simp add: lower_bound_def lower_bound_from_split)

text \<open>
  The assertion on the order of the first table does not hold. The search looks at
  \<open>/multisig/kex/submit\<close> first, which is not before \<open>/multisig/kex/status\<close> but stands before it.
\<close>

lemma lower_bound_step:
  "lower_bound_from before xs first len = (if len = 0 then first
     else if before (xs ! (first + len div 2)) then lower_bound_from before xs (first + len div 2 + 1) (len - len div 2 - 1)
     else lower_bound_from before xs first (len div 2))"
  by (subst lower_bound_from.simps) (simp add: Let_def)

lemma endpoint_names:
  "length endpoints = 26"
  "ep_name (endpoints ! 0) = ''/daemon_status''"
  "ep_name (endpoints ! 1) = ''/get_address_info''"
  "ep_name (endpoints ! Suc 0) = ''/get_address_info''"
  "ep_name (endpoints ! Suc (Suc 0)) = ''/get_address_txs''"
  "ep_name (endpoints ! 2) = ''/get_address_txs''"
  "ep_name (endpoints ! 3) = ''/get_random_outs''"
  "ep_name (endpoints ! 4) = ''/get_subaddrs''"
  "ep_name (endpoints ! 5) = ''/get_txt_records''"
  "ep_name (endpoints ! 6) = ''/get_unspent_outs''"
  "ep_name (endpoints ! 7) = ''/get_version''"
  "ep_name (endpoints ! 8) = ''/import_key_images''"
  "ep_name (endpoints ! 9) = ''/import_wallet_request''"
  "ep_name (endpoints ! 10) = ''/login''"
  "ep_name (endpoints ! 11) = ''/multisig/balance''"
  "ep_name (endpoints ! 12) = ''/multisig/kex/finalize''"
  "ep_name (endpoints ! 13) = ''/multisig/kex/submit''"
  "ep_name (endpoints ! 14) = ''/multisig/kex/status''"
  "ep_name (endpoints ! 15) = ''/multisig/register_tx''"
  "ep_name (endpoints ! 16) = ''/multisig/register_wallet''"
  "ep_name (endpoints ! 17) = ''/multisig/transactions''"
  "ep_name (endpoints ! 18) = ''/multisig/txsets/register''"
  "ep_name (endpoints ! 19) = ''/multisig/txsets/signature''"
  "ep_name (endpoints ! 20) = ''/multisig/txsets/submit''"
  "ep_name (endpoints ! 21) = ''/multisig/wallets''"
  "ep_name (endpoints ! 22) = ''/provision_subaddrs''"
  "ep_name (endpoints ! 23) = ''/request_rescan''"
  "ep_name (endpoints ! 24) = ''/submit_raw_tx''"
  "ep_name (endpoints ! 25) = ''/upsert_subaddrs''"
  by (simp_all add: endpoints_def Endpoint_def)

lemma admin_endpoint_names:
  "length admin_endpoints = 12"
  "ep_name (admin_endpoints ! 0) = ''/accept_requests''"
  "ep_name (admin_endpoints ! 1) = ''/add_account''"
  "ep_name (admin_endpoints ! Suc 0) = ''/add_account''"
  "ep_name (admin_endpoints ! Suc (Suc 0)) = ''/list_accounts''"
  "ep_name (admin_endpoints ! 2) = ''/list_accounts''"
  "ep_name (admin_endpoints ! 3) = ''/list_requests''"
  "ep_name (admin_endpoints ! 4) = ''/modify_account_status''"
  "ep_name (admin_endpoints ! 5) = ''/reject_requests''"
  "ep_name (admin_endpoints ! 6) = ''/rescan''"
  "ep_name (admin_endpoints ! 7) = ''/validate''"
  "ep_name (admin_endpoints ! 8) = ''/webhook_add''"
  "ep_name (admin_endpoints ! 9) = ''/webhook_delete''"
  "ep_name (admin_endpoints ! 10) = ''/webhook_delete_uuid''"
  "ep_name (admin_endpoints ! 11) = ''/webhook_list''"
  by (simp_all add: admin_endpoints_def Endpoint_def)

lemma admin_endpoints_sorted: "list_all (\<lambda>i. str_less (ep_name (admin_endpoints ! i)) (ep_name (admin_endpoints ! Suc i))) [0, 1, 2, 3, 4, 5, 6, 7, 8, 9, 10]"
  by (simp add: admin_endpoint_names)

lemma endpoints_not_sorted: "str_less (ep_name (endpoints ! 14)) (ep_name (endpoints ! 13))"
  by (simp add: endpoint_names)

lemma endpoint_index:
  "list_all (\<lambda>i. lower_bound (\<lambda>e. str_less (ep_name e) (ep_name (endpoints ! i))) endpoints = (if i = 14 then 13 else i)) [0, 1, 2, 3, 4, 5, 6, 7, 8, 9, 10, 11, 12, 13, 14, 15, 16, 17, 18, 19, 20, 21, 22, 23, 24, 25]"
  by (simp add: endpoint_names lower_bound_def lower_bound_step)

lemma admin_endpoint_index:
  "list_all (\<lambda>i. lower_bound (\<lambda>e. str_less (ep_name e) (ep_name (admin_endpoints ! i))) admin_endpoints = i) [0, 1, 2, 3, 4, 5, 6, 7, 8, 9, 10, 11]"
  by (simp add: admin_endpoint_names lower_bound_def lower_bound_step)

lemma search_endpoint_at:
  assumes "e \<in> set es" and "list_all (\<lambda>i. lower_bound (\<lambda>e. str_less (ep_name e) (ep_name (es ! i))) es = f i) is"
    and "{..<length es} \<subseteq> set is" and "distinct (map ep_name es)" and "\<forall>i < length es. f i < length es"
  obtains i where "i < length es" "e = es ! i"
    "search_endpoint es (ep_name e) = (if f i = i then Some e else None)"
proof -
  from assms(1) obtain i where i: "i < length es" "e = es ! i" by (auto simp: in_set_conv_nth)
  with assms(2,3) have "lower_bound (\<lambda>e. str_less (ep_name e) (ep_name (es ! i))) es = f i"
    by (auto simp: list_all_iff)
  moreover have "ep_name (es ! f i) = ep_name (es ! i) \<longleftrightarrow> f i = i"
    using nth_eq_iff_index_eq[OF assms(4), of "f i" i] i assms(5) by auto
  ultimately show thesis using that[OF i] i assms(5) by (auto simp: search_endpoint_def Let_def)
qed

lemma search_endpoint_Some: "search_endpoint es uri = Some e \<Longrightarrow> ep_name e = uri"
  by (auto simp: search_endpoint_def Let_def split: if_splits)

lemma lower_bound_le: "lower_bound_from before xs first len \<le> first + len"
proof (induction before xs first len rule: lower_bound_from.induct)
  case (1 before xs first len)
  have "lower_bound_from before xs first (len div 2) \<le> first + len"
    if "len \<noteq> 0" "\<not> before (xs ! (first + len div 2))"
    using "1.IH"(2)[OF that(1) refl refl that(2)] by linarith
  with "1.IH"(1)[OF _ refl refl] show ?case by (subst lower_bound_step) auto
qed

lemma search_endpoint_mem: "search_endpoint es uri = Some e \<Longrightarrow> e \<in> set es"
  using lower_bound_le[of "\<lambda>e. str_less (ep_name e) uri" es 0 "length es"]
  by (auto simp: search_endpoint_def lower_bound_def Let_def split: if_splits)

lemma distinct_names: "distinct (map ep_name endpoints)" "distinct (map ep_name admin_endpoints)"
  by (simp_all add: endpoints_def admin_endpoints_def Endpoint_def)

lemma search_endpoints:
  assumes "e \<in> set endpoints"
  shows "search_endpoint endpoints (ep_name e) = (if ep_name e = ''/multisig/kex/status'' then None else Some e)"
proof -
  obtain i where i: "i < length endpoints" "e = endpoints ! i"
    and s: "search_endpoint endpoints (ep_name e) = (if (if i = 14 then 13 else i) = i then Some e else None)"
    by (rule search_endpoint_at[OF assms endpoint_index _ distinct_names(1)]) (simp_all add: endpoint_names lessThan_nat_numeral lessThan_Suc)
  have "ep_name e = ep_name (endpoints ! 14) \<longleftrightarrow> i = 14"
    using nth_eq_iff_index_eq[OF distinct_names(1), of i 14] i by (auto simp: endpoint_names)
  with s show ?thesis by (simp add: endpoint_names)
qed

lemma search_admin_endpoints:
  assumes "e \<in> set admin_endpoints"
  shows "search_endpoint admin_endpoints (ep_name e) = Some e"
  by (rule search_endpoint_at[OF assms admin_endpoint_index _ distinct_names(2)]) (simp_all add: admin_endpoint_names lessThan_nat_numeral lessThan_Suc)

section \<open>What is served\<close>

text \<open>
  The requests an endpoint is meant for: those under the prefix of its table. Administration
  takes what both prefixes match.
\<close>

definition serves :: "port \<Rightarrow> string \<Rightarrow> endpoint \<Rightarrow> bool" where
  "serves p uri e \<longleftrightarrow>
     (\<exists>admin_prefix. pt_admin_prefix p = Some admin_prefix \<and> uri = admin_prefix @ ep_name e \<and> e \<in> set admin_endpoints) \<or>
     (\<exists>prefix. pt_prefix p = Some prefix \<and> uri = prefix @ ep_name e \<and> e \<in> set endpoints \<and>
        \<not> (\<exists>admin_prefix. pt_admin_prefix p = Some admin_prefix \<and> starts_with uri admin_prefix))"

lemma starts_with_append: "starts_with uri prefix \<longleftrightarrow> uri = prefix @ drop (length prefix) uri"
  unfolding starts_with_def by (metis append_eq_conv_conj append_take_drop_id)

lemma search_under_prefix:
  assumes "\<And>e. e \<in> set es \<Longrightarrow> search_endpoint es (ep_name e) = (if bad (ep_name e) then None else Some e)" and "starts_with uri prefix"
  shows "search_endpoint es (drop (length prefix) uri) = Some e \<longleftrightarrow> uri = prefix @ ep_name e \<and> e \<in> set es \<and> \<not> bad (ep_name e)"
proof
  assume s: "search_endpoint es (drop (length prefix) uri) = Some e"
  then have "e \<in> set es" "drop (length prefix) uri = ep_name e"
    using search_endpoint_mem search_endpoint_Some by metis+
  moreover from this have "\<not> bad (ep_name e)" using s assms(1)[of e] by (auto split: if_splits)
  ultimately show "uri = prefix @ ep_name e \<and> e \<in> set es \<and> \<not> bad (ep_name e)"
    using assms(2) by (auto simp: starts_with_append)
qed (use assms(1) in auto)

lemma get_endpoint_iff: "get_endpoint p uri = Some e \<longleftrightarrow> serves p uri e \<and> ep_name e \<noteq> ''/multisig/kex/status''"
proof -
  have a: "ep_name e \<noteq> ''/multisig/kex/status''" if "e \<in> set admin_endpoints"
    using that by (auto simp: admin_endpoints_def Endpoint_def)
  have A: "search_endpoint admin_endpoints (drop (length prefix) uri) = Some e \<longleftrightarrow> uri = prefix @ ep_name e \<and> e \<in> set admin_endpoints"
    if "starts_with uri prefix" for prefix
    using search_under_prefix[OF _ that, of admin_endpoints "\<lambda>_. False"] search_admin_endpoints by simp
  have E: "search_endpoint endpoints (drop (length prefix) uri) = Some e \<longleftrightarrow>
      uri = prefix @ ep_name e \<and> e \<in> set endpoints \<and> ep_name e \<noteq> ''/multisig/kex/status''"
    if "starts_with uri prefix" for prefix
    using search_under_prefix[OF _ that, of endpoints "\<lambda>n. n = ''/multisig/kex/status''"] search_endpoints by simp
  have sw: "starts_with (prefix @ n) prefix" for prefix n by (simp add: starts_with_append)
  show ?thesis
    by (cases "pt_admin_prefix p"; cases "pt_prefix p")
      (auto simp: get_endpoint_def serves_def A E a sw split: if_splits)
qed

text \<open>
  C29: A handler runs exactly for the requests under the prefix of its table that name it, whose
  size is announced and within the limit of the endpoint, and that are a GET or a POST; the
  one endpoint that is not found is \<open>/multisig/kex/status\<close>.
\<close>

theorem dispatch_iff:
  "dispatch_request p req = Inr (e, run) \<longleftrightarrow>
     serves p (hq_target req) e \<and> ep_name e \<noteq> ''/multisig/kex/status'' \<and> ep_run e = Some run \<and>
     (\<exists>n. hq_payload_size req = Some n \<and> unat n \<le> ep_max_size e) \<and> hq_method req \<in> {Post, Get}"
proof -
  have small: "ep_max_size e < unat (-1 :: u64)" if "get_endpoint p (hq_target req) = Some e" for e
    using that by (auto simp: get_endpoint_iff serves_def endpoints_def admin_endpoints_def Endpoint_def
        unsigned_minus_1_eq_mask mask_eq_exp_minus_1)
  have "dispatch_request p req = Inr (e, run) \<longleftrightarrow> get_endpoint p (hq_target req) = Some e \<and> ep_run e = Some run \<and>
     (\<exists>n. hq_payload_size req = Some n \<and> unat n \<le> ep_max_size e) \<and> hq_method req \<in> {Post, Get}"
    by (cases "get_endpoint p (hq_target req)"; cases "hq_payload_size req"; cases "hq_method req")
      (use small in \<open>auto simp: dispatch_request_def Let_def split: option.splits\<close>)
  then show ?thesis by (simp add: get_endpoint_iff)
qed

text \<open>
  No request reaches the handler that reports the state of a key exchange, whatever the
  prefixes of the port: its entry stands after one it should precede, and the search misses it.
\<close>

theorem kex_status_is_unreachable: "dispatch_request p req \<noteq> Inr (e, Multisig_kex_status)"
proof
  assume "dispatch_request p req = Inr (e, Multisig_kex_status)"
  then have g: "get_endpoint p (hq_target req) = Some e" and r: "ep_run e = Some Multisig_kex_status"
    by (auto simp: dispatch_request_def Let_def split: option.splits if_splits)
  from g have "e \<in> set endpoints \<or> e \<in> set admin_endpoints" and n: "ep_name e \<noteq> ''/multisig/kex/status''"
    by (auto simp: get_endpoint_iff serves_def)
  with r show False by (auto simp: endpoints_def admin_endpoints_def Endpoint_def)
qed

end
