(* ===== verification/Ports.thy ===== *)
theory Ports
  imports Dispatch
begin

text \<open>
  The addresses that the REST server listens at (the constructor of \<open>src/src/rest_server.cpp\<close>): which
  are refused, the prefixes of a port, and the merging of administration addresses into the port of
  a REST address with the same host and port.

  The parsing of a URL and of an IP address are parameters. Opening the sockets is left out, and so
  is everything the operating system can refuse.
\<close>

section \<open>Addresses\<close>

record url_content =
  u_schema :: string
  u_host :: string
  u_port :: u64
  u_uri :: string
  u_path :: string

text \<open>\<open>ip_loopback\<close>: whether a host is the address of a loopback device; \<open>None\<close> if it is no IP address.\<close>

record url_env =
  parse_url :: "string \<Rightarrow> url_content option"
  ip_loopback :: "string \<Rightarrow> bool option"

text \<open>An open port, with the REST and the administration prefix, and whether it speaks TLS.\<close>

record listener =
  ls_port :: port
  ls_host :: string
  ls_number :: u64
  ls_https :: bool

definition is_https :: "url_content \<Rightarrow> bool" where
  "is_https url \<longleftrightarrow> u_schema url = ''https''"

definition default_port :: "bool \<Rightarrow> u64" where
  "default_port https = (if https then 8443 else 8080)"

definition check_url :: "url_env \<Rightarrow> bool \<Rightarrow> string \<Rightarrow> error + url_content" where
  "check_url U allow_external address =
     (case parse_url U address of
        None \<Rightarrow> Inl (Lws configuration)
      | Some url \<Rightarrow>
          if \<not> is_https url \<and> u_schema url \<noteq> ''http'' then Inl (Lws configuration)
          else if 2 ^ 16 - 1 < u_port url then Inl (Lws configuration)
          else if u_uri url \<noteq> [] \<and> hd (u_uri url) \<noteq> CHR ''/'' then Inl (Lws configuration)
          else if \<not> is_https url \<and> (case ip_loopback U (u_host url) of None \<Rightarrow> True | Some loopback \<Rightarrow> \<not> loopback \<and> \<not> allow_external) then
            Inl (Lws configuration)
          else Inr (if u_port url = 0 then url\<lparr>u_port := default_port (is_https url)\<rparr> else url))"

text \<open>\<open>rfind\<close>: where the last occurrence of a text starts.\<close>

definition rfind :: "string \<Rightarrow> string \<Rightarrow> nat option" where
  "rfind text sub =
     (case filter (\<lambda>i. take (length sub) (drop i text) = sub) (rev [0..<Suc (length text)]) of [] \<Rightarrow> None | i # _ \<Rightarrow> Some i)"

text \<open>
  Administration addresses are kept in order. Those from the text of the REST address without its
  path on are looked at as long as they have its host and port. An address whose uri is not part
  of it is out of range.
\<close>

definition sorted_from :: "string \<Rightarrow> string list \<Rightarrow> nat" where
  "sorted_from start admin = lower_bound (\<lambda>a. str_less a start) admin"

function merge_admin :: "url_env \<Rightarrow> url_content \<Rightarrow> string \<Rightarrow> string option \<Rightarrow> string list \<Rightarrow> error + string option \<times> string list" where
  "merge_admin U url start admin_prefix admin =
     (let mergeable = sorted_from start admin in
      if length admin \<le> mergeable then Inr (admin_prefix, admin)
      else case parse_url U (admin ! mergeable) of
        None \<Rightarrow> Inl (Lws configuration)
      | Some admin_url \<Rightarrow>
          let admin_port = (if u_port admin_url = 0 then default_port (is_https url) else u_port admin_url) in
          if u_host url \<noteq> u_host admin_url \<or> u_port url \<noteq> admin_port then Inr (admin_prefix, admin)
          else if admin_prefix \<noteq> None then Inl (Lws configuration)
          else if length (u_uri url) < 2 \<or> length (u_uri admin_url) < 2 then Inl (Lws configuration)
          else if hd (u_uri admin_url) \<noteq> CHR ''/'' then Inl (Lws configuration)
          else if u_uri admin_url \<noteq> u_path admin_url then Inl (Lws configuration)
          else merge_admin U url start (Some (u_path admin_url)) (take mergeable admin @ drop (Suc mergeable) admin))"
  by pat_completeness auto
termination
  by (relation "measure (\<lambda>(U, url, start, admin_prefix, admin). length admin)") (auto simp: Let_def)

declare merge_admin.simps [simp del]

text \<open>A port for one address, and the administration addresses that are left.\<close>

definition init_port :: "url_env \<Rightarrow> bool \<Rightarrow> string list \<Rightarrow> string \<Rightarrow> bool \<Rightarrow> error + listener \<times> string list" where
  "init_port U allow_external admin address is_admin =
     check (check_url U allow_external address) (\<lambda>url.
     check (if is_admin then Inr (None, admin)
            else case rfind address (u_uri url) of
              None \<Rightarrow> Inl Out_of_range
            | Some n \<Rightarrow> merge_admin U url (take n address) None admin) (\<lambda>(admin_prefix, admin).
     if u_uri url \<noteq> u_path url then Inl (Lws configuration)
     else
       let path = (if length (u_uri url) < 2 then [] else u_path url) in
       if ip_loopback U (u_host url) = None then Inl Runtime_error
       else
         Inr (\<lparr>ls_port = (if is_admin then \<lparr>pt_prefix = None, pt_admin_prefix = Some path\<rparr>
                          else \<lparr>pt_prefix = Some path, pt_admin_prefix = admin_prefix\<rparr>),
               ls_host = u_host url, ls_number = u_port url, ls_https = is_https url\<rparr>, admin)))"

fun init_ports :: "url_env \<Rightarrow> bool \<Rightarrow> string list \<Rightarrow> string list \<Rightarrow> bool \<Rightarrow> error + listener list \<times> string list" where
  "init_ports U allow_external admin [] is_admin = Inr ([], admin)"
| "init_ports U allow_external admin (address # addresses) is_admin =
     check (init_port U allow_external admin address is_admin) (\<lambda>(p, admin).
     check (init_ports U allow_external admin addresses is_admin) (\<lambda>(ps, admin). Inr (p # ps, admin)))"

text \<open>A key for TLS without any port that uses it is refused.\<close>

definition insert_address :: "string \<Rightarrow> string list \<Rightarrow> string list" where
  "insert_address a as = takeWhile (\<lambda>b. str_less b a) as @ a # dropWhile (\<lambda>b. str_less b a) as"

definition rest_server :: "url_env \<Rightarrow> bool \<Rightarrow> bool \<Rightarrow> string list \<Rightarrow> string list \<Rightarrow> error + listener list" where
  "rest_server U allow_external expect_ssl addresses admin =
     (if addresses = [] then Inl Invalid_argument
      else
        check (init_ports U allow_external (foldr insert_address admin []) addresses False) (\<lambda>(ports, admin).
        check (init_ports U allow_external admin admin True) (\<lambda>(admin_ports, _).
        if \<not> list_ex ls_https (ports @ admin_ports) \<and> expect_ssl then Inl (Lws configuration)
        else Inr (ports @ admin_ports))))"

section \<open>Where administration is served\<close>

text \<open>
  A port serves an administration address when it has the host, the port and the prefix of the
  address. The scheme is not compared.
\<close>

definition serves_address :: "url_env \<Rightarrow> listener \<Rightarrow> string \<Rightarrow> bool" where
  "serves_address U p a \<longleftrightarrow>
     (\<exists>url. parse_url U a = Some url \<and> ls_host p = u_host url \<and>
        ls_number p = (if u_port url = 0 then default_port (ls_https p) else u_port url) \<and>
        pt_admin_prefix (ls_port p) = Some (if length (u_uri url) < 2 then [] else u_path url))"

lemma merge_admin_set: "merge_admin U url start (Some x) admin = Inr r \<Longrightarrow> r = (Some x, admin)"
  by (subst (asm) merge_admin.simps) (auto simp: Let_def split: if_splits option.splits)

lemma set_without_nth: "n < length xs \<Longrightarrow> set xs = insert (xs ! n) (set (take n xs @ drop (Suc n) xs))"
  using arg_cong[OF id_take_nth_drop[of n xs], of set] by simp

lemma merge_admin_Inr:
  assumes "merge_admin U url start None admin = Inr (admin_prefix, rest)"
  shows "admin_prefix = None \<and> rest = admin \<or>
    (\<exists>a admin_url. set admin = insert a (set rest) \<and> parse_url U a = Some admin_url \<and> u_host url = u_host admin_url \<and>
       u_port url = (if u_port admin_url = 0 then default_port (is_https url) else u_port admin_url) \<and>
       2 \<le> length (u_uri admin_url) \<and> admin_prefix = Some (u_path admin_url))"
proof (cases "length admin \<le> sorted_from start admin")
  case True
  with assms show ?thesis by (subst (asm) merge_admin.simps) (simp add: Let_def)
next
  case False
  let ?n = "sorted_from start admin"
  show ?thesis
  proof (cases "parse_url U (admin ! ?n)")
    case None
    with assms False show ?thesis by (subst (asm) merge_admin.simps) (simp add: Let_def)
  next
    case (Some admin_url)
    let ?same = "u_host url = u_host admin_url \<and> u_port url = (if u_port admin_url = 0 then default_port (is_https url) else u_port admin_url)"
    show ?thesis
    proof (cases ?same)
      case F: False
      with assms False Some show ?thesis by (subst (asm) merge_admin.simps) (simp add: Let_def split: if_splits)
    next
      case True
      with assms False Some have long: "2 \<le> length (u_uri admin_url)"
        and m: "merge_admin U url start (Some (u_path admin_url)) (take ?n admin @ drop (Suc ?n) admin) = Inr (admin_prefix, rest)"
        by (subst (asm) merge_admin.simps, simp add: Let_def split: if_splits)+
      from merge_admin_set[OF m] set_without_nth[of ?n admin] False True Some long show ?thesis by auto
    qed
  qed
qed

lemma check_url_Inr:
  "check_url U allow_external address = Inr url \<Longrightarrow> \<exists>url0. parse_url U address = Some url0 \<and>
     url = url0\<lparr>u_port := (if u_port url0 = 0 then default_port (is_https url0) else u_port url0)\<rparr>"
  by (auto simp: check_url_def split: option.splits if_splits)

lemma is_https_port [simp]: "is_https (url\<lparr>u_port := n\<rparr>) = is_https url"
  by (simp add: is_https_def)

lemma init_port_admin:
  assumes "init_port U allow_external admin address True = Inr (p, rest)"
  shows "rest = admin \<and> serves_address U p address"
proof -
  from assms obtain url where url: "check_url U allow_external address = Inr url" "rest = admin"
    and p: "ls_host p = u_host url" "ls_number p = u_port url" "ls_https p = is_https url"
      "pt_admin_prefix (ls_port p) = Some (if length (u_uri url) < 2 then [] else u_path url)"
    by (auto simp: init_port_def check_Inr_iff Let_def split: if_splits)
  from check_url_Inr[OF url(1)] obtain url0 where "parse_url U address = Some url0"
    "url = url0\<lparr>u_port := (if u_port url0 = 0 then default_port (is_https url0) else u_port url0)\<rparr>" by blast
  with url(2) p show ?thesis by (simp add: serves_address_def)
qed

lemma init_port_rest:
  assumes "init_port U allow_external admin address False = Inr (p, rest)"
  shows "pt_admin_prefix (ls_port p) = None \<and> rest = admin \<or> (\<exists>a. set admin = insert a (set rest) \<and> serves_address U p a)"
proof -
  from assms obtain url start admin_prefix where url: "check_url U allow_external address = Inr url"
    and m: "merge_admin U url start None admin = Inr (admin_prefix, rest)"
    and p: "ls_host p = u_host url" "ls_number p = u_port url" "ls_https p = is_https url" "pt_admin_prefix (ls_port p) = admin_prefix"
    by (auto simp: init_port_def check_Inr_iff Let_def split: if_splits option.splits)
  from merge_admin_Inr[OF m] show ?thesis
  proof (elim disjE exE conjE)
    fix a admin_url
    assume a: "set admin = insert a (set rest)" "parse_url U a = Some admin_url" "u_host url = u_host admin_url"
      "u_port url = (if u_port admin_url = 0 then default_port (is_https url) else u_port admin_url)"
      "2 \<le> length (u_uri admin_url)" "admin_prefix = Some (u_path admin_url)"
    then have "serves_address U p a" unfolding serves_address_def p by (intro exI[of _ admin_url]) auto
    with a(1) show ?thesis by blast
  qed (simp add: p)
qed

lemma init_ports_admin:
  "init_ports U allow_external admin addresses True = Inr (ps, rest) \<Longrightarrow>
     (\<forall>a \<in> set addresses. \<exists>p \<in> set ps. serves_address U p a) \<and> (\<forall>p \<in> set ps. \<exists>a \<in> set addresses. serves_address U p a)"
proof (induction addresses arbitrary: admin ps)
  case (Cons address addresses)
  from Cons.prems obtain p r ps' where p: "init_port U allow_external admin address True = Inr (p, r)"
    and ps': "init_ports U allow_external r addresses True = Inr (ps', rest)" "ps = p # ps'"
    by (auto simp: check_Inr_iff split: prod.splits)
  from Cons.IH[OF ps'(1)] init_port_admin[OF p] ps'(2) show ?case by auto
qed simp

lemma init_ports_rest:
  "init_ports U allow_external admin addresses False = Inr (ps, rest) \<Longrightarrow> set rest \<subseteq> set admin \<and>
     (\<forall>a \<in> set admin - set rest. \<exists>p \<in> set ps. serves_address U p a) \<and>
     (\<forall>p \<in> set ps. pt_admin_prefix (ls_port p) = None \<or> (\<exists>a \<in> set admin. serves_address U p a))"
proof (induction addresses arbitrary: admin ps)
  case (Cons address addresses)
  from Cons.prems obtain p r ps' where p: "init_port U allow_external admin address False = Inr (p, r)"
    and ps': "init_ports U allow_external r addresses False = Inr (ps', rest)" "ps = p # ps'"
    by (auto simp: check_Inr_iff split: prod.splits)
  from init_port_rest[OF p] have "set r \<subseteq> set admin \<and> (\<forall>a \<in> set admin - set r. serves_address U p a) \<and>
      (pt_admin_prefix (ls_port p) = None \<or> (\<exists>a \<in> set admin. serves_address U p a))" by auto
  with Cons.IH[OF ps'(1)] ps'(2) show ?case by auto blast+
qed simp

lemma set_insert_address: "set (foldr insert_address xs []) = set xs"
proof (induction xs)
  case (Cons x xs)
  have "set (takeWhile (\<lambda>b. str_less b x) ys) \<union> set (dropWhile (\<lambda>b. str_less b x) ys) = set ys" for ys
    using set_append[of "takeWhile (\<lambda>b. str_less b x) ys" "dropWhile (\<lambda>b. str_less b x) ys"]
    by (simp only: takeWhile_dropWhile_id)
  then have "set (insert_address x ys) = insert x (set ys)" for ys by (simp add: insert_address_def)
  with Cons show ?case by simp
qed simp


text \<open>
  The scheme of a merged address is not that of the port: an administration address with https
  and no port number is served without TLS next to a REST address with http and the same host.
\<close>

definition demo_urls :: url_env where
  "demo_urls = \<lparr>parse_url = (\<lambda>a.
       if a = ''http://127.0.0.1/api'' then Some \<lparr>u_schema = ''http'', u_host = ''127.0.0.1'', u_port = 0, u_uri = ''/api'', u_path = ''/api''\<rparr>
       else if a = ''https://127.0.0.1/admin'' then Some \<lparr>u_schema = ''https'', u_host = ''127.0.0.1'', u_port = 0, u_uri = ''/admin'', u_path = ''/admin''\<rparr>
       else None),
     ip_loopback = (\<lambda>h. if h = ''127.0.0.1'' then Some True else None)\<rparr>"

lemma https_admin_is_served_plain:
  "rest_server demo_urls False False [''http://127.0.0.1/api''] [''https://127.0.0.1/admin''] =
     Inr [\<lparr>ls_port = \<lparr>pt_prefix = Some ''/api'', pt_admin_prefix = Some ''/admin''\<rparr>, ls_host = ''127.0.0.1'', ls_number = 8080, ls_https = False\<rparr>]"
proof -
  have u: "check_url demo_urls False ''http://127.0.0.1/api'' =
      Inr \<lparr>u_schema = ''http'', u_host = ''127.0.0.1'', u_port = 8080, u_uri = ''/api'', u_path = ''/api''\<rparr>"
    by (simp add: check_url_def demo_urls_def is_https_def default_port_def)
  have r: "rfind ''http://127.0.0.1/api'' ''/api'' = Some 16"
    by (simp add: rfind_def upt_rec)
  have m: "merge_admin demo_urls \<lparr>u_schema = ''http'', u_host = ''127.0.0.1'', u_port = 8080, u_uri = ''/api'', u_path = ''/api''\<rparr>
      ''http://127.0.0.1'' None [''https://127.0.0.1/admin''] = Inr (Some ''/admin'', [])"
    by (simp add: merge_admin.simps sorted_from_def lower_bound_def lower_bound_step demo_urls_def is_https_def default_port_def)
  have l: "ip_loopback demo_urls ''127.0.0.1'' = Some True" by (simp add: demo_urls_def)
  show ?thesis
    by (simp add: rest_server_def init_port_def u r m l insert_address_def is_https_def)
qed


end
