(* ===== verification/ScanServer.thy ===== *)
theory ScanServer
  imports LwsAccount "HOL-Library.Multiset"
begin

text \<open>
  How accounts get to the scan threads once they run: the queue of a thread
  (\<open>src/src/rpc/scanner/queue.cpp\<close>) and the server that fills the queues and remote scanners
  (\<open>src/src/rpc/scanner/server.cpp\<close>), with the part of the scan loop that takes accounts from the
  queue (\<open>src/src/scanner.cpp\<close>).

  The queue is locked by a mutex, so its operations are steps. Connections, commands on the wire
  and timers are not modelled: a remote scanner is its number of threads, and what is written to
  it is an event.
\<close>

section \<open>The queue of a thread\<close>

record queue =
  q_replace :: "lws_account list option"
  q_push :: "lws_account list"
  q_user_count :: nat
  q_min_height :: block_id
  q_stop :: bool

record status =
  st_replace :: "lws_account list option"
  st_push :: "lws_account list"
  st_user_count :: nat

definition new_queue :: queue where
  "new_queue = \<lparr>q_replace = None, q_push = [], q_user_count = 0, q_min_height = 0, q_stop = False\<rparr>"

definition do_get_accounts :: "queue \<Rightarrow> status \<times> queue" where
  "do_get_accounts q =
     (\<lparr>st_replace = q_replace q, st_push = q_push q, st_user_count = q_user_count q\<rparr>,
      q\<lparr>q_replace := None, q_push := []\<rparr>)"

definition queue_stop :: "queue \<Rightarrow> queue" where
  "queue_stop q = q\<lparr>q_stop := True\<rparr>"

definition update_min_height :: "block_id \<Rightarrow> queue \<Rightarrow> queue" where
  "update_min_height height q = q\<lparr>q_min_height := max height (q_min_height q)\<rparr>"

text \<open>\<open>None\<close>: the thread waits until there is something or the queue is stopped.\<close>

definition wait_for_accounts :: "queue \<Rightarrow> (status \<times> queue) option" where
  "wait_for_accounts q =
     (if q_replace q = None \<and> q_push q = [] \<and> \<not> q_stop q then None else Some (do_get_accounts q))"

definition replace_accounts :: "lws_account list \<Rightarrow> queue \<Rightarrow> queue" where
  "replace_accounts users q =
     q\<lparr>q_replace := Some users, q_user_count := length users, q_push := [],
       q_min_height := (if users \<noteq> [] then Min (set (map la_height users)) else 0)\<rparr>"

definition lower_height :: "lws_account \<Rightarrow> block_id \<Rightarrow> block_id" where
  "lower_height user height = (if height = 0 \<or> la_height user < height then la_height user else height)"

definition push_accounts :: "lws_account list \<Rightarrow> queue \<Rightarrow> queue" where
  "push_accounts users q =
     q\<lparr>q_user_count := q_user_count q + length users, q_min_height := fold lower_height users (q_min_height q),
       q_push := q_push q @ users\<rparr>"

text \<open>What the thread does with a status: replace its accounts, then add the pushed ones.\<close>

definition take_accounts :: "status \<Rightarrow> lws_account list \<Rightarrow> lws_account list" where
  "take_accounts st users = (case st_replace st of None \<Rightarrow> users | Some us \<Rightarrow> us) @ st_push st"

text \<open>
  A queue and its thread, with what the server has ordered so far: the ids of the accounts the
  thread shall scan. A thread starts with accounts of its own, which the queue does not count;
  scanning changes and sorts the accounts it has.
\<close>

inductive queue_run :: "lws_account list \<Rightarrow> queue \<Rightarrow> lws_account list \<Rightarrow> account_id multiset \<Rightarrow> nat \<Rightarrow> bool"
  for start :: "lws_account list" where
  init: "queue_run start new_queue start (mset (map lws_account_id start)) (length start)"
| replace: "queue_run start q held ordered uncounted \<Longrightarrow>
    queue_run start (replace_accounts users q) held (mset (map lws_account_id users)) 0"
| push: "queue_run start q held ordered uncounted \<Longrightarrow>
    queue_run start (push_accounts users q) held (ordered + mset (map lws_account_id users)) uncounted"
| take: "queue_run start q held ordered uncounted \<Longrightarrow> do_get_accounts q = (st, q') \<Longrightarrow>
    queue_run start q' (take_accounts st held) ordered uncounted"
| work: "queue_run start q held ordered uncounted \<Longrightarrow>
    mset (map lws_account_id held') = mset (map lws_account_id held) \<Longrightarrow> queue_run start q held' ordered uncounted"
| height: "queue_run start q held ordered uncounted \<Longrightarrow> queue_run start (update_min_height h q) held ordered uncounted"
| stop: "queue_run start q held ordered uncounted \<Longrightarrow> queue_run start (queue_stop q) held ordered uncounted"

lemma queue_run_inv:
  "queue_run start q held ordered uncounted \<Longrightarrow>
     mset (map lws_account_id (take_accounts (fst (do_get_accounts q)) held)) = ordered \<and>
     q_user_count q + uncounted = size ordered"
proof (induction rule: queue_run.induct)
  case (work q held ordered uncounted held')
  then show ?case by (auto simp: take_accounts_def do_get_accounts_def split: option.splits)
qed (auto simp: new_queue_def take_accounts_def do_get_accounts_def replace_accounts_def push_accounts_def
    update_min_height_def queue_stop_def split: option.splits)

section \<open>A thread for a new account\<close>

text \<open>
  The thread that is highest among those not above the account, or the lowest one when all are
  above it; the one with fewer accounts of two at the same height. The queues are given by their
  heights and counts.
\<close>

record best_thread =
  best_thread :: nat
  best_height :: block_id
  best_count :: nat
  found_below_or_equal :: bool

definition consider_thread :: "block_id \<Rightarrow> nat \<Rightarrow> block_id \<times> nat \<Rightarrow> best_thread \<Rightarrow> best_thread" where
  "consider_thread account_height i hc b =
     (let (height, count) = hc in
      if height \<le> account_height then
        if \<not> found_below_or_equal b \<or> best_height b < height \<or> height = best_height b \<and> count < best_count b
        then \<lparr>best_thread = i, best_height = height, best_count = count, found_below_or_equal = True\<rparr> else b
      else if \<not> found_below_or_equal b then
        if best_height b = 0 \<or> height < best_height b \<or> height = best_height b \<and> count < best_count b
        then b\<lparr>best_thread := i, best_height := height, best_count := count\<rparr> else b
      else b)"

fun best_from :: "block_id \<Rightarrow> nat \<Rightarrow> (block_id \<times> nat) list \<Rightarrow> best_thread \<Rightarrow> best_thread" where
  "best_from account_height i [] b = b"
| "best_from account_height i (hc # hcs) b = best_from account_height (Suc i) hcs (consider_thread account_height i hc b)"

definition choose_thread :: "block_id \<Rightarrow> (block_id \<times> nat) list \<Rightarrow> nat" where
  "choose_thread account_height hcs =
     best_thread (best_from account_height 0 hcs
       \<lparr>best_thread = 0, best_height = 0, best_count = 2 ^ 64 - 1, found_below_or_equal = False\<rparr>)"

text \<open>New accounts are taken from the back of the list.\<close>

fun push_balanced :: "lws_account list \<Rightarrow> queue list \<Rightarrow> queue list" where
  "push_balanced [] queues = queues"
| "push_balanced (account # accounts) queues =
     (let i = choose_thread (la_height account) (map (\<lambda>q. (q_min_height q, q_user_count q)) queues) in
      push_balanced accounts (queues[i := push_accounts [account] (queues ! i)]))"

definition balance_new_accounts :: "lws_account list \<Rightarrow> queue list \<Rightarrow> queue list" where
  "balance_new_accounts new_accounts queues = push_balanced (rev new_accounts) queues"

section \<open>Round robin\<close>

datatype target = Local nat | Remote nat

definition moved_from :: "lws_account \<Rightarrow> lws_account" where
  "moved_from a = a\<lparr>la_immutable := None, la_spendable := [], la_pubs := [], la_spends := [], la_outputs := []\<rparr>"

fun find_remote :: "nat \<Rightarrow> nat \<Rightarrow> nat list \<Rightarrow> nat" where
  "find_remote next_thread offset [] = 0"
| "find_remote next_thread offset (r # remotes) =
     (if next_thread \<le> offset then 0 else Suc (find_remote next_thread (offset + r) remotes))"

text \<open>
  \<open>remotes\<close> are the numbers of threads of the remote scanners. \<open>None\<close> is undefined behaviour: no
  remote is found, or the end of the list is erased. Sending several accounts erases only the
  first of them; the others stay, moved from.
\<close>

function round_robin :: "nat \<Rightarrow> nat list \<Rightarrow> nat \<Rightarrow> lws_account list \<Rightarrow> (target \<times> lws_account list) list option" where
  "round_robin locals remotes next_thread accounts =
     (let total = locals + sum_list remotes; n = length accounts in
      if n = 0 then Some []
      else if next_thread < locals then
        map_option (Cons (Local next_thread, [last accounts]))
          (round_robin locals remotes ((next_thread + 1) mod total) (butlast accounts))
      else
        let j = find_remote next_thread locals remotes in
        if length remotes \<le> j then None
        else
          let k = min n (remotes ! j) in
          if k = 0 then None
          else
            map_option (Cons (Remote j, drop (n - k) accounts))
              (round_robin locals remotes ((next_thread + remotes ! j) mod total)
                (take (n - k) accounts @ map moved_from (drop (n - k + 1) accounts))))"
  by pat_completeness auto
termination
  by (relation "measure (\<lambda>(locals, remotes, next_thread, accounts). length accounts)") (auto simp: Let_def min_def neq_Nil_conv)

declare round_robin.simps [simp del]

section \<open>Replacing all accounts\<close>

text \<open>The accounts are inserted in the order of their heights, and taken from the back.\<close>

definition insert_by_height :: "account \<Rightarrow> account list \<Rightarrow> account list" where
  "insert_by_height user users =
     takeWhile (\<lambda>u. a_scan_height u < a_scan_height user) users @ user #
     dropWhile (\<lambda>u. a_scan_height u < a_scan_height user) users"

definition take_back :: "nat \<Rightarrow> 'a list \<Rightarrow> 'a list \<times> 'a list" where
  "take_back k users = (rev (drop (length users - k) users), take (length users - k) users)"

fun give_local :: "nat \<Rightarrow> nat \<Rightarrow> account list \<Rightarrow> account list list \<times> nat \<times> account list" where
  "give_local 0 remaining users = ([], remaining, users)"
| "give_local (Suc locals) remaining users =
     (let (next, users) = take_back (length users div remaining) users;
          (nexts, rest) = give_local locals (remaining - 1) users in
      (next # nexts, rest))"

fun give_remote :: "nat list \<Rightarrow> nat \<Rightarrow> account list \<Rightarrow> account list list \<times> account list" where
  "give_remote [] remaining users = ([], users)"
| "give_remote (threads # remotes) remaining users =
     (let users_per_thread = length users div max 1 remaining;
          (next, users) = take_back (max 1 users_per_thread * threads) users;
          (nexts, users) = give_remote remotes (remaining - min remaining threads) users in
      (next # nexts, users))"

definition remote_threshold :: nat where
  "remote_threshold = 100"

text \<open>What the local queues and the remotes are given, and the accounts that are left.\<close>

definition replace_users :: "nat \<Rightarrow> nat list \<Rightarrow> account list \<Rightarrow> account list list \<times> account list list \<times> account list" where
  "replace_users locals remotes active_users =
     (let users = fold insert_by_height active_users [];
          remaining = locals + sum_list remotes;
          remaining = (if 0 < locals \<and> length users div locals < remote_threshold then locals else remaining);
          (to_local, remaining, users) = give_local locals remaining users;
          (to_remote, users) = give_remote remotes remaining users in
      (to_local, to_remote, users))"

text \<open>
  \<open>do_replace_users\<close>: without any thread nothing is done; otherwise every local queue gets its
  share, and the ids of all active accounts are remembered as given out.
\<close>

definition do_replace_users :: "'t lmdb \<Rightarrow> (account_address \<Rightarrow> string) \<Rightarrow> 't tables \<Rightarrow> nat list \<Rightarrow> queue list \<Rightarrow>
    (queue list \<times> lws_account list list \<times> account_id list) option" where
  "do_replace_users L address_string s remotes queues =
     (let users = m_dups (accounts_m L) (accounts_t s) active;
          full = map (\<lambda>user. get_full_account L address_string user s) in
      if length queues + sum_list remotes = 0 then None
      else
        let (to_local, to_remote, _) = replace_users (length queues) remotes users in
        Some (map2 (\<lambda>next q. replace_accounts (full next) q) to_local queues, map full to_remote, sort (map a_id users)))"

definition demo_scanned :: lws_account where
  "demo_scanned = make_account (\<lambda>a. []) demo_account [] []"

lemma demo_scanned_eval: "lws_account_id demo_scanned = 1" "la_immutable demo_scanned \<noteq> None"
  by (simp_all add: demo_scanned_def make_account_def lws_account_id_def account_internal_def demo_account_def)

section \<open>What the server promises\<close>

definition better :: "block_id \<Rightarrow> block_id \<times> nat \<Rightarrow> block_id \<times> nat \<Rightarrow> bool" where
  "better account_height x y \<longleftrightarrow>
     (if fst x \<le> account_height then
        fst y \<le> account_height \<longrightarrow> fst y < fst x \<or> fst y = fst x \<and> snd x \<le> snd y
      else \<not> fst y \<le> account_height \<and> (fst x < fst y \<or> fst x = fst y \<and> snd x \<le> snd y))"

lemma better_refl [simp]: "better h x x"
  by (simp add: better_def)

lemma better_trans: "better h x y \<Longrightarrow> better h y z \<Longrightarrow> better h x z"
  by (auto simp: better_def split: if_splits)

lemma better_total: "better h x y \<or> better h y x"
  by (auto simp: better_def)

text \<open>What the search keeps: the best of the threads seen.\<close>

definition best_inv :: "block_id \<Rightarrow> (block_id \<times> nat) list \<Rightarrow> best_thread \<Rightarrow> bool" where
  "best_inv h seen b \<longleftrightarrow> best_thread b < length seen \<and> seen ! best_thread b = (best_height b, best_count b) \<and>
     (found_below_or_equal b \<longleftrightarrow> best_height b \<le> h) \<and> (\<forall>x \<in> set seen. better h (best_height b, best_count b) x)"

lemma consider_thread_better:
  assumes "found_below_or_equal b \<longleftrightarrow> best_height b \<le> h"
  shows "consider_thread h i hc b =
    (if \<not> better h (best_height b, best_count b) hc then \<lparr>best_thread = i, best_height = fst hc, best_count = snd hc, found_below_or_equal = (fst hc \<le> h)\<rparr>
     else b)"
proof (cases "fst hc \<le> h")
  case True
  with assms show ?thesis by (cases hc) (auto simp: consider_thread_def better_def not_le)
next
  case False
  then have "best_height b \<noteq> 0" if "\<not> best_height b \<le> h" using that by auto
  with False assms show ?thesis
    by (cases hc; cases b) (auto simp: consider_thread_def better_def not_le not_less)
qed

lemma best_from_inv:
  "best_inv h seen b \<Longrightarrow> best_inv h (seen @ hcs) (best_from h (length seen) hcs b)"
proof (induction hcs arbitrary: seen b)
  case (Cons hc hcs)
  have f: "found_below_or_equal b \<longleftrightarrow> best_height b \<le> h" using Cons.prems by (simp add: best_inv_def)
  have "best_inv h (seen @ [hc]) (consider_thread h (length seen) hc b)"
  proof (cases "better h (best_height b, best_count b) hc")
    case True
    with Cons.prems show ?thesis by (auto simp: consider_thread_better[OF f] best_inv_def nth_append)
  next
    case False
    then have "better h hc (best_height b, best_count b)" using better_total by blast
    with False Cons.prems show ?thesis
      by (auto simp: consider_thread_better[OF f] best_inv_def nth_append intro: better_trans)
  qed
  from Cons.IH[OF this] show ?case by simp
qed simp

lemma best_from_start:
  assumes "hcs \<noteq> []"
  shows "best_inv h hcs (best_from h 0 hcs \<lparr>best_thread = 0, best_height = 0, best_count = 2 ^ 64 - 1, found_below_or_equal = False\<rparr>)"
proof -
  obtain hc rest where hcs: "hcs = hc # rest" using assms by (cases hcs) auto
  let ?b = "consider_thread h 0 hc \<lparr>best_thread = 0, best_height = 0, best_count = 2 ^ 64 - 1, found_below_or_equal = False\<rparr>"
  have "best_inv h [hc] ?b" by (cases hc) (auto simp: best_inv_def consider_thread_def)
  from best_from_inv[OF this, of rest] show ?thesis by (simp add: hcs)
qed

lemma fold_insert_by_height: "mset (fold insert_by_height xs ys) = mset ys + mset xs"
proof (induction xs arbitrary: ys)
  case (Cons x xs)
  have "mset (insert_by_height x ys) = add_mset x (mset ys)"
    unfolding insert_by_height_def by (metis mset_append mset.simps(2) takeWhile_dropWhile_id union_mset_add_mset_right)
  with Cons[of "insert_by_height x ys"] show ?case by simp
qed simp

lemma take_back_mset:
  assumes "take_back k xs = (a, b)"
  shows "mset a + mset b = mset xs \<and> length a = min k (length xs) \<and> length b = length xs - k"
proof -
  have "mset (drop n xs) + mset (take n xs) = mset xs" for n
    by (metis append_take_drop_id mset_append union_commute)
  with assms show ?thesis unfolding take_back_def by auto
qed

lemma give_local_ok:
  "give_local l r xs = (ys, r', zs) \<Longrightarrow> l \<le> r \<Longrightarrow>
     length ys = l \<and> r' = r - l \<and> mset (concat ys) + mset zs = mset xs \<and> (r = l \<longrightarrow> 0 < l \<longrightarrow> zs = [])"
proof (induction l arbitrary: r xs ys)
  case (Suc l)
  obtain nxt us where tb: "take_back (length xs div r) xs = (nxt, us)" by fastforce
  obtain nexts where g: "give_local l (r - 1) us = (nexts, r', zs)" "ys = nxt # nexts"
    using Suc.prems(1) tb by (auto split: prod.splits)
  note t = take_back_mset[OF tb]
  from Suc.IH[OF g(1)] Suc.prems(2)
  have IH: "length nexts = l" "r' = r - 1 - l" "mset (concat nexts) + mset zs = mset us"
    "r - 1 = l \<longrightarrow> 0 < l \<longrightarrow> zs = []" by auto
  have "zs = []" if "r = Suc l"
  proof (cases "0 < l")
    case True
    with IH(4) that show ?thesis by simp
  next
    case False
    with that t have "us = []" by simp
    with g(1) False show ?thesis by simp
  qed
  moreover have "mset (concat (nxt # nexts)) + mset zs = mset xs"
    using IH(3) t by (simp add: union_assoc)
  ultimately show ?case using IH g(2) by auto
qed auto

lemma give_remote_mset: "give_remote rs r xs = (ys, zs) \<Longrightarrow> length ys = length rs \<and> mset (concat ys) + mset zs = mset xs"
proof (induction rs arbitrary: r xs ys)
  case (Cons t rs)
  obtain nxt us where tb: "take_back (max 1 (length xs div max 1 r) * t) xs = (nxt, us)" by fastforce
  obtain nexts where g: "give_remote rs (r - min r t) us = (nexts, zs)" "ys = nxt # nexts"
    using Cons.prems tb by (auto simp: Let_def split: prod.splits)
  from Cons.IH[OF g(1)] take_back_mset[OF tb] g(2) show ?case by (simp add: union_assoc)
qed auto

lemma replace_users_mset:
  "replace_users l rs us = (ls, rems, left) \<Longrightarrow> length ls = l \<and> length rems = length rs \<and>
     mset (concat ls) + mset (concat rems) + mset left = mset us"
proof -
  assume a: "replace_users l rs us = (ls, rems, left)"
  let ?us = "fold insert_by_height us []"
  define r where "r = (if 0 < l \<and> length ?us div l < remote_threshold then l else l + sum_list rs)"
  obtain r' mid where g: "give_local l r ?us = (ls, r', mid)" "give_remote rs r' mid = (rems, left)"
    using a by (auto simp: replace_users_def Let_def r_def split: prod.splits)
  have "l \<le> r" by (simp add: r_def)
  from give_local_ok[OF g(1) this] give_remote_mset[OF g(2)] show ?thesis
    by (simp add: fold_insert_by_height union_assoc)
qed

lemma round_robin_local:
  "0 < l \<Longrightarrow> next_thread < l \<Longrightarrow> \<exists>events. round_robin l [] next_thread accounts = Some events \<and>
     mset (concat (map snd events)) = mset accounts \<and>
     map fst events = map (\<lambda>i. Local ((next_thread + i) mod l)) [0..<length accounts]"
proof (induction accounts arbitrary: next_thread rule: rev_induct)
  case (snoc a accounts)
  have nl: "(next_thread + 1) mod l < l" using snoc.prems by simp
  obtain events where e: "round_robin l [] ((next_thread + 1) mod l) accounts = Some events"
    "mset (concat (map snd events)) = mset accounts"
    "map fst events = map (\<lambda>i. Local (((next_thread + 1) mod l + i) mod l)) [0..<length accounts]"
    using snoc.IH[OF snoc.prems(1) nl] by blast
  have shift: "((next_thread + 1) mod l + i) mod l = (next_thread + Suc i) mod l" for i by (simp add: mod_add_left_eq)
  have "map (\<lambda>i. Local ((next_thread + i) mod l)) [0..<Suc (length accounts)] =
      Local next_thread # map (\<lambda>i. Local ((next_thread + Suc i) mod l)) [0..<length accounts]"
    using snoc.prems(2) by (simp only: upt_rec[of 0 "Suc _"] map_Suc_upt[symmetric]) simp
  moreover have "round_robin l [] next_thread (accounts @ [a]) = Some ((Local next_thread, [a]) # events)"
    using e(1) snoc.prems by (subst round_robin.simps) (simp add: Let_def)
  ultimately show ?case using e(2) e(3)[unfolded shift] by simp
qed (simp add: round_robin.simps)

lemma round_robin_last:
  assumes "accounts \<noteq> []" "round_robin l rs next_thread accounts = Some events"
  shows "\<exists>event \<in> set events. last accounts \<in> set (snd event)"
proof (cases "next_thread < l")
  case True
  with assms show ?thesis by (subst (asm) round_robin.simps) (auto simp: Let_def)
next
  case False
  let ?j = "find_remote next_thread l rs"
  let ?k = "min (length accounts) (rs ! ?j)"
  have run: "\<exists>rest. events = (Remote ?j, drop (length accounts - ?k) accounts) # rest \<and> ?k \<noteq> 0"
    using assms False by (subst (asm) round_robin.simps) (auto simp: Let_def split: if_splits)
  then have "length accounts - ?k < length accounts" using assms(1) by auto
  then have "drop (length accounts - ?k) accounts \<noteq> []" "last (drop (length accounts - ?k) accounts) = last accounts" by simp_all
  then have "last accounts \<in> set (drop (length accounts - ?k) accounts)" by (metis last_in_set)
  with run show ?thesis by auto
qed

section \<open>Properties\<close>

text \<open>
  In every run of a queue, what the thread has together with what waits in the queue are
  exactly the accounts the server last ordered, none twice and none lost; and the count of the
  queue is their number, less the accounts the thread was started with until they are replaced.
\<close>

theorem queue_keeps_accounts:
  assumes "queue_run start q held ordered uncounted"
  shows "mset (map lws_account_id (take_accounts (fst (do_get_accounts q)) held)) = ordered \<and>
    q_user_count q + uncounted = size ordered"
  by (rule queue_run_inv[OF assms])

theorem queue_keeps_accounts_witness:
  "take_accounts (fst (do_get_accounts (push_accounts [empty_account] new_queue))) [demo_scanned] = [demo_scanned, empty_account] \<and>
     q_user_count (push_accounts [empty_account] new_queue) = 1 \<and>
     mset (map lws_account_id [demo_scanned, empty_account]) = {#1, account_id_invalid#}"
proof -
  have "queue_run [demo_scanned] (push_accounts [empty_account] new_queue) [demo_scanned]
      (mset (map lws_account_id [demo_scanned]) + mset (map lws_account_id [empty_account])) (length [demo_scanned])"
    by (intro queue_run.push queue_run.init)
  from queue_keeps_accounts[OF this] show ?thesis
    by (simp add: take_accounts_def do_get_accounts_def push_accounts_def new_queue_def demo_scanned_eval)
      (simp add: empty_account_def lws_account_id_def)
qed

text \<open>
  A new account goes to a thread whose height is not above its own when there is one, then to
  the highest of these, and else to the lowest thread; of threads at one height to one with the
  fewest accounts.
\<close>

theorem choose_thread_best:
  assumes "hcs \<noteq> []"
  shows "choose_thread h hcs < length hcs \<and> (\<forall>x \<in> set hcs. better h (hcs ! choose_thread h hcs) x)"
  using best_from_start[OF assms, of h] by (auto simp: choose_thread_def best_inv_def)

theorem choose_thread_best_witness:
  "choose_thread 50 [(60, 1), (40, 7), (45, 3)] < 3 \<and> better 50 ([(60, 1), (40, 7), (45, 3)] ! choose_thread 50 [(60, 1), (40, 7), (45, 3)]) (45, 3)"
  using choose_thread_best[of "[(60, 1), (40, 7), (45, 3)]" 50] by simp

text \<open>
  Without remote scanners, new accounts go once round the local threads, every account to one
  of them.
\<close>

theorem round_robin_goes_round:
  assumes "next_thread < locals"
  shows "\<exists>events. round_robin locals [] next_thread accounts = Some events \<and>
    mset (concat (map snd events)) = mset accounts \<and>
    map fst events = map (\<lambda>i. Local ((next_thread + i) mod locals)) [0..<length accounts]"
  using round_robin_local[of locals next_thread accounts] assms by simp

theorem round_robin_goes_round_witness:
  "\<exists>events. round_robin 2 [] 1 [demo_scanned, empty_account, empty_account] = Some events \<and>
     map fst events = [Local 1, Local 0, Local 1]"
  using round_robin_goes_round[of 1 2 "[demo_scanned, empty_account, empty_account]"] by (auto simp: upt_rec)

text \<open>
  When the next thread belongs to a remote scanner with at least two threads and there are at
  least two new accounts, accounts that were sent already are sent again, moved from: a moved-from
  account makes writing the command throw. With a scanner that has not told its threads yet, or
  after the remotes have changed, the behaviour is undefined.
\<close>

theorem round_robin_sends_moved:
  assumes "locals \<le> next_thread" and "2 \<le> length accounts"
  shows "let j = find_remote next_thread locals remotes in
    if length remotes \<le> j \<or> remotes ! j = 0 then round_robin locals remotes next_thread accounts = None
    else 2 \<le> remotes ! j \<longrightarrow>
      (case round_robin locals remotes next_thread accounts of
         None \<Rightarrow> True
       | Some events \<Rightarrow> \<exists>event \<in> set events. \<exists>account \<in> set (snd event). la_immutable account = None)"
proof -
  let ?j = "find_remote next_thread locals remotes" and ?n = "length accounts"
  have n: "?n \<noteq> 0" "\<not> next_thread < locals" using assms by auto
  show ?thesis
  proof (cases "length remotes \<le> ?j \<or> remotes ! ?j = 0")
    case True
    with n show ?thesis by (subst round_robin.simps) (auto simp: Let_def)
  next
    case False
    let ?k = "min ?n (remotes ! ?j)"
    let ?rest = "take (?n - ?k) accounts @ map moved_from (drop (?n - ?k + 1) accounts)"
    have step: "round_robin locals remotes next_thread accounts = map_option (Cons (Remote ?j, drop (?n - ?k) accounts))
        (round_robin locals remotes ((next_thread + remotes ! ?j) mod (locals + sum_list remotes)) ?rest)"
    proof -
      have j: "\<not> length remotes \<le> ?j" "?k \<noteq> 0" using False n(1) by auto
      show ?thesis
        unfolding round_robin.simps[of locals remotes next_thread accounts] Let_def
          if_not_P[OF n(1)] if_not_P[OF n(2)] if_not_P[OF j(1)] if_not_P[OF j(2)] ..
    qed
    have "\<exists>event \<in> set events. \<exists>account \<in> set (snd event). la_immutable account = None"
      if j2: "2 \<le> remotes ! ?j" and run: "round_robin locals remotes next_thread accounts = Some events" for events
    proof -
      obtain rest_events where r: "round_robin locals remotes ((next_thread + remotes ! ?j) mod (locals + sum_list remotes)) ?rest = Some rest_events"
        "events = (Remote ?j, drop (?n - ?k) accounts) # rest_events"
        using map_option_eq_Some[THEN iffD1, OF run[unfolded step]] by blast
      have k: "?n - ?k + 1 < ?n" using assms(2) j2 by auto
      then have m: "map moved_from (drop (?n - ?k + 1) accounts) \<noteq> []" by simp
      then have "last ?rest \<in> set (map moved_from (drop (?n - ?k + 1) accounts))"
        unfolding last_append if_not_P[OF m] by (rule last_in_set)
      then have "la_immutable (last ?rest) = None" by (auto simp: moved_from_def)
      moreover have "?rest \<noteq> []" using m by simp
      ultimately show ?thesis using round_robin_last[OF _ r(1)] r(2) by auto
    qed
    then show ?thesis using False by (auto simp: Let_def split: option.splits)
  qed
qed

theorem round_robin_sends_moved_witness:
  "round_robin 0 [2] 0 [demo_scanned, demo_scanned] =
     Some [(Remote 0, [demo_scanned, demo_scanned]), (Remote 0, [moved_from demo_scanned])] \<and>
   (\<exists>event \<in> {(Remote 0, [demo_scanned, demo_scanned]), (Remote 0, [moved_from demo_scanned])}.
      \<exists>account \<in> set (snd event). la_immutable account = None)"
proof -
  have "round_robin 0 [2] 0 [demo_scanned, demo_scanned] =
      Some [(Remote 0, [demo_scanned, demo_scanned]), (Remote 0, [moved_from demo_scanned])]"
    by (simp add: round_robin.simps Let_def)
  with round_robin_sends_moved[of 0 0 "[demo_scanned, demo_scanned]" "[2]"] show ?thesis by (simp add: Let_def)
qed

text \<open>
  Replacing all accounts gives every account to one thread when only local threads take part.
  With one remote scanner and no local thread the accounts that do not divide evenly among its
  threads are given to nobody.
\<close>

theorem replace_users_gives:
  "(0 < locals \<longrightarrow> length users div locals < remote_threshold \<or> remotes = [] \<longrightarrow>
     (case replace_users locals remotes users of
        (to_local, to_remote, left) \<Rightarrow> left = [] \<and> mset (concat to_local) = mset users)) \<and>
   (0 < threads \<longrightarrow> threads \<le> length users \<longrightarrow>
     (case replace_users 0 [threads] users of
        (to_local, to_remote, left) \<Rightarrow> length left = length users mod threads \<and>
          mset (concat to_remote) + mset left = mset users))"
proof (intro conjI impI)
  let ?us = "fold insert_by_height users []"
  have len: "length ?us = length users" using arg_cong[OF fold_insert_by_height[of users "[]"], of size] by simp
  show "case replace_users locals remotes users of (to_local, to_remote, left) \<Rightarrow> left = [] \<and> mset (concat to_local) = mset users"
    if l: "0 < locals" and r: "length users div locals < remote_threshold \<or> remotes = []"
  proof -
    obtain to_local r' mid where g: "give_local locals locals ?us = (to_local, r', mid)" by (metis prod_cases3)
    obtain to_remote left where h: "give_remote remotes r' mid = (to_remote, left)" by fastforce
    have mid: "mid = []" "mset (concat to_local) = mset users"
      using give_local_ok[OF g order_refl] l by (auto simp: fold_insert_by_height)
    have "left = []" using give_remote_mset[OF h] mid(1) by simp
    moreover have "replace_users locals remotes users = (to_local, to_remote, left)"
      using g h r l by (auto simp: replace_users_def Let_def len)
    ultimately show ?thesis using mid(2) by simp
  qed
  show "case replace_users 0 [threads] users of (to_local, to_remote, left) \<Rightarrow> length left = length users mod threads \<and>
      mset (concat to_remote) + mset left = mset users"
    if t: "0 < threads" "threads \<le> length users"
  proof -
    obtain nxt left where tb: "take_back (max 1 (length ?us div max 1 threads) * threads) ?us = (nxt, left)" by fastforce
    have "replace_users 0 [threads] users = ([], [nxt], left)" using tb by (simp add: replace_users_def Let_def)
    moreover have "max 1 (length users div threads) = length users div threads"
      using t by (simp add: max_def) (metis Suc_leI div_greater_zero_iff not_less_eq_eq)
    moreover have "length users - length users div threads * threads = length users mod threads"
      by (simp add: minus_div_mult_eq_mod)
    ultimately show ?thesis using take_back_mset[OF tb] t by (simp add: len fold_insert_by_height max_def)
  qed
qed

theorem replace_users_gives_witness:
  "case replace_users 0 [2] [demo_account, demo_account2, demo_account] of (to_local, to_remote, left) \<Rightarrow> length left = 1"
  using replace_users_gives[where threads = 2 and users = "[demo_account, demo_account2, demo_account]"] by (auto split: prod.splits)

end
