(* ===== verification/Sync.thy ===== *)
theory Sync
  imports ScanTx
begin

text \<open>
  Synchronizing the block table with the daemon before scanning: \<open>sync_quick\<close>, which asks for hashes,
  and \<open>sync_full\<close>, which asks for blocks and checks their proof of work, of
  \<open>src/src/scanner.cpp\<close>, with \<open>get_block_longhash\<close> and \<open>verify_timestamp\<close> of
  \<open>src/src/util/blocks.cpp\<close>.

  A daemon is a function of the number of the call and of the request. The hash functions, the
  difficulty and the constants of the Monero libraries are the parameter \<open>consensus\<close>. Signals are
  not modelled. A loop that gets no end from the daemon does not return.
\<close>

section \<open>Following hashes\<close>

record hashes_response =
  hr_hashes :: "hash list"
  hr_start_height :: u64

definition insert_before_last :: "'a \<Rightarrow> 'a list \<Rightarrow> 'a list" where
  "insert_before_last x ks = butlast ks @ [x, last ks]"

text \<open>The last hash that was received is named ten times, before the one of the genesis block.\<close>

definition next_known :: "hash list \<Rightarrow> hash list \<Rightarrow> hash list" where
  "next_known known hashes =
     (if hashes = [] then [last known] else (insert_before_last (last hashes) ^^ 10) [last known])"

definition at_top :: "hash list \<Rightarrow> hash list \<Rightarrow> bool" where
  "at_top known hashes \<longleftrightarrow> length hashes \<le> 1 \<or> last hashes = hd known"

partial_function (option) sync_quick_loop :: "'t lmdb \<Rightarrow> checkpoints \<Rightarrow> bool \<Rightarrow> (nat \<Rightarrow> hash list \<Rightarrow> error + hashes_response) \<Rightarrow> nat \<Rightarrow> hash list \<Rightarrow>
    't tables \<Rightarrow> ((error + unit) \<times> 't tables) option" where
  "sync_quick_loop L cp regtest daemon n known s =
     (if known = [] then Some (Inl (Lws bad_blockchain), s)
      else case daemon n known of
        Inl e \<Rightarrow> Some (Inl e, s)
      | Inr resp \<Rightarrow>
          if at_top known (hr_hashes resp) then Some (Inr (), s)
          else case sync_chain L cp (hr_start_height resp) (hr_hashes resp) regtest s of
            Inl e \<Rightarrow> Some (Inl e, s)
          | Inr s \<Rightarrow> sync_quick_loop L cp regtest daemon (Suc n) (next_known known (hr_hashes resp)) s)"

definition sync_quick :: "'t lmdb \<Rightarrow> checkpoints \<Rightarrow> bool \<Rightarrow> (nat \<Rightarrow> hash list \<Rightarrow> error + hashes_response) \<Rightarrow> 't tables \<Rightarrow>
    ((error + unit) \<times> 't tables) option" where
  "sync_quick L cp regtest daemon s =
     (case get_chain_sync L cp s of
        Inl e \<Rightarrow> Some (Inl e, s)
      | Inr known \<Rightarrow> sync_quick_loop L cp regtest daemon 0 known s)"

section \<open>Proof of work\<close>

record chain_block =
  bk_prev_id :: hash
  bk_timestamp :: u64
  bk_major_version :: u8
  bk_miner_tx :: transaction
  bk_tx_hashes :: "hash list"
  bk_transactions :: "transaction list"

record consensus =
  block_hash :: "chain_block \<Rightarrow> hash option"
  hashing_blob :: "chain_block \<Rightarrow> span"
  rx_block_version :: u8
  rx_seedheight :: "u64 \<Rightarrow> u64"
  rx_slow_hash :: "hash \<Rightarrow> span \<Rightarrow> hash"
  cn_slow_hash :: "span \<Rightarrow> u8 \<Rightarrow> u64 \<Rightarrow> hash"
  check_hash :: "hash \<Rightarrow> 128 word \<Rightarrow> bool"
  next_difficulty :: "u64 list \<Rightarrow> 128 word list \<Rightarrow> u64 \<Rightarrow> 128 word"
  median_of :: "u64 list \<Rightarrow> u64"
  hard_forks :: "u64 list option"
  target_v1 :: u64
  target_v2 :: u64
  difficulty_blocks_count :: u64
  timestamp_check_window :: u64

definition longhash_202612 :: hash where
  "longhash_202612 = 0x84f64766475d51837ac9efbef1926486e58563c95a19fef4aec3254f03000000"

definition get_block_longhash :: "consensus \<Rightarrow> 't lmdb \<Rightarrow> span \<Rightarrow> block_id \<Rightarrow> u8 \<Rightarrow> 't tables \<Rightarrow> block_id \<Rightarrow> hash list \<Rightarrow> error + hash" where
  "get_block_longhash K L bd height major_version s cached_start cached =
     (if height = 202612 then Inr longhash_202612
      else if rx_block_version K \<le> major_version then
        check
          (if height \<noteq> 0 then
             let seed_height = rx_seedheight K height in
             if cached_start \<le> seed_height then
               if length cached \<le> unat (seed_height - cached_start) then Inl (Lws bad_blockchain)
               else Inr (cached ! unat (seed_height - cached_start))
             else do_get_block_hash L seed_height s
           else Inr 0)
          (\<lambda>h. Inr (rx_slow_hash K h bd))
      else Inr (cn_slow_hash K bd (if 7 \<le> major_version then major_version - 6 else 0) height))"

definition verify_timestamp :: "consensus \<Rightarrow> u64 \<Rightarrow> u64 list \<Rightarrow> bool" where
  "verify_timestamp K stamp timestamps = (timestamps = [] \<or> \<not> stamp < median_of K timestamps)"

text \<open>The networks with hard forks; the second one changes the target time.\<close>

definition get_target_time :: "consensus \<Rightarrow> block_id \<Rightarrow> error + u64" where
  "get_target_time K height =
     (case hard_forks K of
        None \<Rightarrow> Inl (Lws bad_blockchain)
      | Some table \<Rightarrow>
          if length table < 2 then Inl (Lws bad_blockchain)
          else Inr (if height < table ! 1 then target_v1 K else target_v2 K))"

fun update_window :: "nat \<Rightarrow> 'a list \<Rightarrow> 'a list" where
  "update_window n [] = []"
| "update_window n (x # xs) = (if n < Suc (length xs) then update_window n xs else x # xs)"

definition shrink_window :: "consensus \<Rightarrow> pow_window \<Rightarrow> pow_window" where
  "shrink_window K w =
     \<lparr>pow_timestamps = update_window (unat (difficulty_blocks_count K)) (pow_timestamps w),
      cumulative_diffs = update_window (unat (difficulty_blocks_count K)) (cumulative_diffs w),
      median_timestamps = update_window (unat (timestamp_check_window K)) (median_timestamps w)\<rparr>"

definition last_difficulty :: "pow_window \<Rightarrow> 128 word" where
  "last_difficulty w = (if cumulative_diffs w = [] then 0 else last (cumulative_diffs w))"

definition extend_window :: "chain_block \<Rightarrow> 128 word \<Rightarrow> pow_window \<Rightarrow> pow_window" where
  "extend_window block diff w =
     \<lparr>pow_timestamps = pow_timestamps w @ [bk_timestamp block],
      cumulative_diffs = cumulative_diffs w @ [diff + last_difficulty w],
      median_timestamps = median_timestamps w @ [bk_timestamp block]\<rparr>"

definition new_pow :: "chain_block \<Rightarrow> 128 word \<Rightarrow> pow_sync" where
  "new_pow block cumulative = \<lparr>sync_timestamp = bk_timestamp block, sync_cumulative_diff = set_difficulty cumulative\<rparr>"

text \<open>The difficulty of a block, and its check, against the window before it.\<close>

definition check_work :: "consensus \<Rightarrow> 't lmdb \<Rightarrow> 't tables \<Rightarrow> block_id \<Rightarrow> hash list \<Rightarrow> block_id \<Rightarrow> chain_block \<Rightarrow> 128 word \<Rightarrow> pow_window \<Rightarrow>
    error + unit" where
  "check_work K L s start cached height block diff w =
     (if \<not> verify_timestamp K (bk_timestamp block) (median_timestamps w) then Inl (Lws bad_blockchain)
      else check (get_block_longhash K L (hashing_blob K block) height (bk_major_version block) s start cached) (\<lambda>pow.
        if \<not> check_hash K pow diff then Inl (Lws bad_blockchain) else Inr ()))"

fun verify_blocks :: "consensus \<Rightarrow> 't lmdb \<Rightarrow> 't tables \<Rightarrow> block_id \<Rightarrow> block_id \<Rightarrow> block_id \<Rightarrow> hash \<Rightarrow> pow_window \<Rightarrow> hash list \<Rightarrow> pow_sync list \<Rightarrow>
    chain_block list \<Rightarrow> error + hash list \<times> pow_sync list" where
  "verify_blocks K L s start last_checkpoint height prev w hashes pow [] = Inr (hashes, pow)"
| "verify_blocks K L s start last_checkpoint height prev w hashes pow (block # blocks) =
     (if bk_prev_id block \<noteq> prev then Inl (Lws bad_blockchain)
      else case block_hash K block of
        None \<Rightarrow> Inl (Lws bad_blockchain)
      | Some h \<Rightarrow>
          let w = shrink_window K w in
          check (get_target_time K height) (\<lambda>target.
          let diff = next_difficulty K (pow_timestamps w) (cumulative_diffs w) target in
          check (if last_checkpoint < height then check_work K L s start hashes height block diff w else Inr ()) (\<lambda>_.
          let w = extend_window block diff w in
          verify_blocks K L s start last_checkpoint (height + 1) h w (hashes @ [h])
            (pow @ [new_pow block (last (cumulative_diffs w))]) blocks)))"

section \<open>Following blocks\<close>

record blocks_response =
  br_blocks :: "chain_block list"
  br_start_height :: u64

definition get_last_checkpoint :: "checkpoints \<Rightarrow> error + block_info" where
  "get_last_checkpoint cp =
     (if get_points cp = [] then Inl (Lws bad_blockchain)
      else Inr \<lparr>bi_id = fst (last (get_points cp)), bi_hash = snd (last (get_points cp))\<rparr>)"

text \<open>One answer: \<open>None\<close> when the top of the chain is reached, the next request otherwise.\<close>

definition sync_full_step :: "consensus \<Rightarrow> 't lmdb \<Rightarrow> checkpoints \<Rightarrow> hash list \<Rightarrow> blocks_response \<Rightarrow> 't tables \<Rightarrow>
    error + (hash list \<times> 't tables) option" where
  "sync_full_step K L cp known resp s =
     (case br_blocks resp of
        [] \<Rightarrow> Inl (Lws bad_daemon_response)
      | front # blocks \<Rightarrow>
          (case block_hash K front of
             None \<Rightarrow> Inl (Lws bad_blockchain)
           | Some h \<Rightarrow>
               check (get_last_checkpoint cp) (\<lambda>last_checkpoint.
               if blocks = [] then
                 (case do_get_block_hash L (br_start_height resp) s of
                    Inl e \<Rightarrow> Inl (Lws bad_daemon_response)
                  | Inr expected_hash \<Rightarrow>
                      if expected_hash \<noteq> h \<or> br_start_height resp < bi_id last_checkpoint
                      then Inl (Lws bad_daemon_response) else Inr None)
               else
                 check (get_pow_window L (difficulty_blocks_count K) (timestamp_check_window K) (br_start_height resp) s) (\<lambda>w.
                 check (verify_blocks K L s (br_start_height resp) (bi_id last_checkpoint) (br_start_height resp + 1) h w [h]
                     [\<lparr>sync_timestamp = bk_timestamp front, sync_cumulative_diff = Block_difficulty 0 0\<rparr>] blocks) (\<lambda>(hashes, pow).
                 check (sync_pow L cp (br_start_height resp) hashes pow s) (\<lambda>s.
                   Inr (Some (rev (tl hashes) @ [last known], s))))))))"

partial_function (option) sync_full_loop :: "consensus \<Rightarrow> 't lmdb \<Rightarrow> checkpoints \<Rightarrow> (nat \<Rightarrow> hash list \<Rightarrow> error + blocks_response) \<Rightarrow> nat \<Rightarrow>
    hash list \<Rightarrow> 't tables \<Rightarrow> ((error + unit) \<times> 't tables) option" where
  "sync_full_loop K L cp daemon n known s =
     (if known = [] then Some (Inl (Lws bad_blockchain), s)
      else case daemon n known of
        Inl e \<Rightarrow> Some (Inl e, s)
      | Inr resp \<Rightarrow>
          (case sync_full_step K L cp known resp s of
             Inl e \<Rightarrow> Some (Inl e, s)
           | Inr None \<Rightarrow> Some (Inr (), s)
           | Inr (Some (known, s)) \<Rightarrow> sync_full_loop K L cp daemon (Suc n) known s))"

definition sync_full :: "consensus \<Rightarrow> 't lmdb \<Rightarrow> checkpoints \<Rightarrow> (nat \<Rightarrow> hash list \<Rightarrow> error + blocks_response) \<Rightarrow> 't tables \<Rightarrow>
    ((error + unit) \<times> 't tables) option" where
  "sync_full K L cp daemon s =
     (case get_pow_sync L cp s of
        Inl e \<Rightarrow> Some (Inl e, s)
      | Inr known \<Rightarrow> sync_full_loop K L cp daemon 0 known s)"

section \<open>A daemon with one chain\<close>

text \<open>
  The documented answer to a request for hashes: from the first known hash that is in the chain of
  the daemon, at most \<open>n\<close> hashes of that chain.
\<close>

definition serve :: "hash list \<Rightarrow> nat \<Rightarrow> hash list \<Rightarrow> error + hashes_response" where
  "serve D n known =
     (case List.find (\<lambda>h. h \<in> set D) known of
        None \<Rightarrow> Inl (Lws bad_daemon_response)
      | Some h \<Rightarrow>
          let i = length (takeWhile (\<lambda>x. x \<noteq> h) D) in
          Inr \<lparr>hr_hashes = take n (drop i D), hr_start_height = of_nat i\<rparr>)"

definition serves :: "hash list \<Rightarrow> nat \<Rightarrow> (nat \<Rightarrow> hash list \<Rightarrow> error + hashes_response) \<Rightarrow> bool" where
  "serves D n daemon \<longleftrightarrow> (\<forall>k known. set known \<inter> set D \<noteq> {} \<longrightarrow> daemon k known = serve D n known)"

text \<open>A hash stands for a block at one height, with all blocks below it.\<close>

definition commits :: "hash list \<Rightarrow> block_info list \<Rightarrow> bool" where
  "commits D rows \<longleftrightarrow>
     (\<forall>b \<in> set rows. bi_hash b \<in> set D \<longrightarrow> unat (bi_id b) < length D \<and>
        (\<forall>b' \<in> set rows. bi_id b' \<le> bi_id b \<longrightarrow> bi_hash b' = D ! unat (bi_id b')))"

lemma insert_before_last_times: "(insert_before_last x ^^ k) [z] = replicate k x @ [z]"
  by (induction k) (simp_all add: insert_before_last_def butlast_append replicate_append_same)

lemma next_known_eq: "hashes \<noteq> [] \<Longrightarrow> next_known known hashes = replicate 10 (last hashes) @ [last known]"
  by (simp add: next_known_def insert_before_last_times)

lemma find_Some_mem: "List.find P xs = Some y \<Longrightarrow> y \<in> set xs \<and> P y"
  by (induction xs) (auto split: if_splits)

lemma serve_at:
  assumes "serves D n daemon" "List.find (\<lambda>h. h \<in> set D) known = Some (D ! i)" "distinct D" "i < length D"
  shows "daemon k known = Inr \<lparr>hr_hashes = take n (drop i D), hr_start_height = of_nat i\<rparr>"
proof -
  have "set known \<inter> set D \<noteq> {}" using find_Some_mem[OF assms(2)] by blast
  moreover have "takeWhile (\<lambda>x. x \<noteq> D ! i) D = take i D"
    using assms(3,4) by (intro takeWhile_eq_take_P_nth) (auto simp: nth_eq_iff_index_eq)
  ultimately show ?thesis using assms(1,2,4) by (simp add: serves_def serve_def)
qed

section \<open>Chains that share a beginning\<close>

lemma common_append: "common (p @ xs) (p @ ys) = length p + common xs ys"
  by (induction p) auto

lemma common_extend: "common xs ys < length ys \<Longrightarrow> common xs (ys @ zs) = common xs ys"
  by (induction xs ys rule: common.induct) auto

lemma common_prefix: "common (ys @ zs) ys = length ys"
  by (induction ys) auto

lemma merge_chain_prefix: "merge_chain (ys @ zs) ys = ys @ zs"
  by (simp add: merge_chain_def common_prefix)

lemma merge_chain_starts: "\<exists>zs. merge_chain old new = new @ zs \<and> (zs = [] \<or> old = new @ zs)"
proof (cases "common old new = length new")
  case True
  then have "take (length new) old = new" using take_common[of old new] by simp
  then have "old = new @ drop (length new) old" by (metis append_take_drop_id)
  with True show ?thesis by (auto simp: merge_chain_def)
qed (simp add: merge_chain_def)

text \<open>Taking over a part of the chain first makes no difference.\<close>

lemma merge_chain_steps:
  "merge_chain (p @ merge_chain rest new) (p @ new @ beyond) = merge_chain (p @ rest) (p @ new @ beyond)"
proof (cases "common rest new = length new")
  case False
  then have lt: "common rest new < length new" using common_le(2)[of rest new] by simp
  have "common (p @ new) (p @ new @ beyond) = length (p @ new @ beyond) \<longrightarrow> beyond = []"
    using common_le(1)[of "p @ new" "p @ new @ beyond"] by auto
  with False lt show ?thesis by (auto simp: merge_chain_def common_append common_extend[OF lt])
qed (simp add: merge_chain_def)

lemma contiguous_shift:
  assumes "contiguous_from L s low c (p @ xs)" "unat c + length p < 2 ^ 64"
  shows "contiguous_from L s (low @ chain_blocks c p) (c + of_nat (length p)) xs"
  using assms
proof (induction p arbitrary: low c)
  case (Cons x p)
  have u: "unat (c + 1) = Suc (unat c)" using Cons.prems(2) by (subst unat_add_lem[THEN iffD1]) auto
  have "contiguous_from L s (low @ [\<lparr>bi_id = c, bi_hash = x\<rparr>]) (c + 1) (p @ xs)"
    using Cons.prems by (intro contiguous_step) simp_all
  from Cons.IH[OF this] Cons.prems(2) u show ?case by (simp add: algebra_simps)
qed simp

lemma nth_chain_blocks: "j < length xs \<Longrightarrow> chain_blocks h xs ! j = \<lparr>bi_id = h + of_nat j, bi_hash = xs ! j\<rparr>"
  by (induction xs arbitrary: h j) (auto simp: nth_Cons algebra_simps split: nat.splits)

section \<open>Following the daemon to its end\<close>

text \<open>
  \<open>shared L D low c s i cur\<close>: the stored chain \<open>cur\<close>, from height \<open>c\<close> on, has the blocks of the daemon
  up to height \<open>i\<close>.
\<close>

definition shared :: "'t lmdb \<Rightarrow> hash list \<Rightarrow> block_info list \<Rightarrow> block_id \<Rightarrow> 't tables \<Rightarrow> nat \<Rightarrow> hash list \<Rightarrow> bool" where
  "shared L D low c s i cur \<longleftrightarrow>
     accounts_inv L s \<and> images_inv L s \<and> contiguous_from L s low c cur \<and> unat c \<le> i \<and> i < length D \<and>
     i - unat c < length cur \<and> take (i - unat c + 1) cur = take (i - unat c + 1) (drop (unat c) D)"

text \<open>The stored chain around the block at height \<open>i\<close>.\<close>

lemma shared_split:
  assumes sh: "shared L D low c s i cur" and D: "length D < 2 ^ 64"
  obtains p rest where "length p = i - unat c" "of_nat i = c + of_nat (length p)" "cur = p @ D ! i # rest"
    "drop (unat c) D = p @ drop i D" "contiguous_from L s (low @ chain_blocks c p) (of_nat i) (D ! i # rest)"
proof -
  let ?c = "unat c" let ?k = "i - ?c"
  define p where "p = take ?k (drop ?c D)"
  define rest where "rest = drop (Suc ?k) cur"
  have i: "?c \<le> i" "i < length D" "?k < length cur" using sh by (auto simp: shared_def)
  have lp: "length p = ?k" using i by (simp add: p_def)
  have hi: "of_nat i = c + of_nat (length p)" using i(1) by (simp add: lp of_nat_diff)
  have Dsplit: "drop ?c D = p @ drop i D" unfolding p_def using i(1)
    by (metis append_take_drop_id drop_drop le_add_diff_inverse2)
  have tk: "take (?k + 1) cur = p @ [D ! i]"
    using sh lp i(2) unfolding shared_def Dsplit by (simp add: take_Suc_conv_app_nth)
  have "(p @ [D ! i]) @ drop (?k + 1) cur = cur" unfolding tk[symmetric] by (rule append_take_drop_id)
  then have cur: "cur = p @ D ! i # rest" by (simp add: rest_def)
  moreover have "contiguous_from L s (low @ chain_blocks c p) (of_nat i) (D ! i # rest)"
    unfolding hi by (rule contiguous_shift) (use sh cur lp i D in \<open>auto simp: shared_def\<close>)
  ultimately show thesis using lp hi Dsplit that by blast
qed

context lmdb_store begin

lemma quick_step:
  assumes sh: "shared L D low c s i cur" and D: "length D < 2 ^ 64" and M: "unat (get_max_height cp) \<le> i"
    and m: "0 < m" "i + m < length D"
  shows "\<exists>s' cur'. sync_chain L cp (of_nat i) (take (Suc m) (drop i D)) regtest s = Inr s' \<and> shared L D low c s' (i + m) cur' \<and>
    merge_chain cur' (drop (unat c) D) = merge_chain cur (drop (unat c) D)"
proof -
  let ?c = "unat c"
  obtain p rest where p: "length p = i - ?c" "of_nat i = c + of_nat (length p)" and cur: "cur = p @ D ! i # rest"
    and Dsplit: "drop ?c D = p @ drop i D" and cont: "contiguous_from L s (low @ chain_blocks c p) (of_nat i) (D ! i # rest)"
    by (rule shared_split[OF sh D])
  define new where "new = take m (drop (Suc i) D)"
  have i: "?c \<le> i" "i < length D" using sh by (auto simp: shared_def)
  have ui: "unat (of_nat i :: u64) = i" using i(2) D by (simp add: unat_of_nat)
  have hashes: "take (Suc m) (drop i D) = D ! i # new"
    using i(2) by (simp add: new_def Cons_nth_drop_Suc[symmetric])
  have ln: "length new = m" using m(2) by (simp add: new_def)
  have D': "drop ?c D = (p @ D ! i # new) @ drop (i + Suc m) D"
    unfolding Dsplit append.assoc append_Cons[symmetric] hashes[symmetric] by (metis add.commute append_take_drop_id drop_drop)
  have "common rest new \<le> m" using common_le(2)[of rest new] ln by simp
  then have "unat (of_nat (i + 1 + common rest new) :: u64) = i + 1 + common rest new"
    using m(2) D unfolding unat_of_nat by (intro mod_less) simp
  then have "unat (of_nat i + 1 + of_nat (common rest new) :: u64) = i + 1 + common rest new" by (simp only: of_nat_add of_nat_1)
  then have high: "\<not> of_nat i + 1 + of_nat (common rest new) \<le> get_max_height cp"
    using M unfolding word_le_nat_alt by linarith
  have inv: "accounts_inv L s" "images_inv L s" using sh by (simp_all add: shared_def)
  have "unat (of_nat i :: u64) + length (D ! i # new) < 2 ^ 64" using ui ln m(2) D by simp
  from sync_chain_eq[OF inv cont this, of regtest cp] high
  obtain s' where s': "sync_chain L cp (of_nat i) (D ! i # new) regtest s = Inr s'" "accounts_inv L s'" "images_inv L s'"
    and rows: "blocks_rows L s' = (low @ chain_blocks c p) @ chain_blocks (of_nat i) (D ! i # merge_chain rest new)" by auto
  define cur' where "cur' = p @ D ! i # merge_chain rest new"
  have rows': "blocks_rows L s' = low @ chain_blocks c cur'" unfolding cur'_def chain_blocks_append rows p(2) by simp
  obtain zs where zs: "merge_chain rest new = new @ zs" "zs = [] \<or> rest = new @ zs" using merge_chain_starts by blast
  have c': "cur' = (p @ D ! i # new) @ zs" by (simp add: cur'_def zs(1))
  have n: "i + m - ?c + 1 = length (p @ D ! i # new)" using p(1) ln i(1) by simp
  have "?c + length cur' \<le> 2 ^ 64"
  proof (cases "zs = []")
    case True
    then show ?thesis using p(1) ln i m(2) D by (simp add: c')
  next
    case False
    with zs have "cur' = cur" by (simp add: c' cur)
    with sh show ?thesis by (simp add: shared_def contiguous_from_def)
  qed
  then have "contiguous_from L s' low c cur'" using rows' sh by (simp add: contiguous_from_def shared_def)
  moreover have "take (i + m - ?c + 1) cur' = take (i + m - ?c + 1) (drop ?c D)"
    unfolding n c' D' by (simp only: append_eq_conv_conj[symmetric] take_append length_append take_all_iff) simp
  moreover have "i + m - ?c < length cur'" using n unfolding c' by simp
  ultimately have "shared L D low c s' (i + m) cur'" using s' i m by (simp add: shared_def)
  moreover have "merge_chain cur' (drop ?c D) = merge_chain cur (drop ?c D)"
    using merge_chain_steps[of "p @ [D ! i]" rest new "drop (i + Suc m) D"] unfolding D' cur cur'_def by simp
  ultimately show ?thesis using s'(1) hashes by auto
qed

lemma quick_loop:
  assumes D: "distinct D" "length D < 2 ^ 64" "serves D n daemon" "2 \<le> n" "unat (get_max_height cp) \<le> i"
    and sh: "shared L D low c s i cur" and known: "List.find (\<lambda>h. h \<in> set D) known = Some (D ! i)"
  shows "\<exists>s'. sync_quick_loop L cp regtest daemon k known s = Some (Inr (), s') \<and> accounts_inv L s' \<and> images_inv L s' \<and>
    blocks_rows L s' = low @ chain_blocks c (merge_chain cur (drop (unat c) D))"
  using D(5) sh known
proof (induction "length D - i" arbitrary: i s cur known k rule: less_induct)
  case less
  have i: "i < length D" using less.prems(2) by (simp add: shared_def)
  have ne: "known \<noteq> []" using less.prems(3) by auto
  note daemon = serve_at[OF D(3) less.prems(3) D(1) i, of k]
  show ?case
  proof (cases "Suc i = length D")
    case True
    then have "at_top known (take n (drop i D))" by (simp add: at_top_def True[symmetric] Suc_diff_le)
    moreover have "merge_chain cur (drop (unat c) D) = cur"
    proof -
      have "take (length (drop (unat c) D)) cur = drop (unat c) D"
        using less.prems(2) by (auto simp: shared_def True[symmetric] Suc_diff_le)
      then have "cur = drop (unat c) D @ drop (length (drop (unat c) D)) cur" by (metis append_take_drop_id)
      then show ?thesis by (metis merge_chain_prefix)
    qed
    ultimately show ?thesis using less.prems(2) ne
      by (simp add: sync_quick_loop.simps daemon shared_def contiguous_from_def)
  next
    case False
    define m where "m = min (n - 1) (length D - Suc i)"
    have m: "0 < m" "i + m < length D" using D(4) i False by (auto simp: m_def)
    have hashes: "take n (drop i D) = take (Suc m) (drop i D)"
      using D(4) i by (auto simp: m_def min_def Suc_diff_Suc)
    have "length (take (Suc m) (drop i D)) = Suc m" using m by simp
    moreover from this have "take (Suc m) (drop i D) \<noteq> []" by (metis length_0_conv nat.distinct(1))
    ultimately have lst: "last (take (Suc m) (drop i D)) = D ! (i + m)" by (subst last_conv_nth) (simp_all add: i less_imp_le)
    have "hd known \<noteq> D ! (i + m)"
    proof
      assume h: "hd known = D ! (i + m)"
      then have "List.find (\<lambda>h. h \<in> set D) known = Some (D ! (i + m))" using ne m(2) by (cases known) auto
      with less.prems(3) D(1) m show False by (simp add: nth_eq_iff_index_eq)
    qed
    then have top: "\<not> at_top known (take n (drop i D))" using m lst unfolding hashes by (simp add: at_top_def)
    obtain s1 cur1 where step: "sync_chain L cp (of_nat i) (take (Suc m) (drop i D)) regtest s = Inr s1"
      "shared L D low c s1 (i + m) cur1" "merge_chain cur1 (drop (unat c) D) = merge_chain cur (drop (unat c) D)"
      using quick_step[OF less.prems(2) D(2) less.prems(1) m] by blast
    have known': "List.find (\<lambda>h. h \<in> set D) (next_known known (take n (drop i D))) = Some (D ! (i + m))"
      using m lst unfolding hashes by (subst next_known_eq) (auto simp: numeral_eq_Suc)
    have "length D - (i + m) < length D - i" "unat (get_max_height cp) \<le> i + m" using m less.prems(1) by auto
    from less.hyps[OF this step(2) known', of "Suc k"] step(3) show ?thesis
      using ne top by (subst sync_quick_loop.simps) (simp add: daemon step(1) hashes)
  qed
qed

text \<open>What the first request names.\<close>

lemma stored_block:
  assumes "do_get_block_hash L i s = Inr h"
  shows "\<lparr>bi_id = i, bi_hash = h\<rparr> \<in> set (blocks_rows L s)"
proof -
  obtain b where b: "b \<in> set (blocks_rows L s)" "bi_id b = i" "bi_hash b = h"
    using assms unfolding do_get_block_hash_def lmdb_check_Inr_iff blocks.get_both_Inr_iff by auto
  then have "b = \<lparr>bi_id = i, bi_hash = h\<rparr>" by simp
  with b(1) show ?thesis by simp
qed

lemma add_block_Inr: "add_block L s i out = Inr out' \<Longrightarrow> \<exists>b \<in> set (blocks_rows L s). bi_id b = i \<and> out' = out @ [b]"
  using stored_block by (force simp: add_block_def check_Inr_iff)

lemma internal_blocks_Inr:
  "internal_blocks L s checkpoint anchor ks out = Inr out' \<Longrightarrow>
     \<exists>ext. out' = out @ ext \<and> set ext \<subseteq> {b \<in> set (blocks_rows L s). checkpoint \<le> bi_id b}"
proof (induction ks arbitrary: out)
  case (Cons k ks)
  show ?case
  proof (cases "anchor < internal_offset k \<or> anchor - internal_offset k < checkpoint")
    case False
    with Cons.prems obtain out1 where o: "add_block L s (anchor - internal_offset k) out = Inr out1"
      "internal_blocks L s checkpoint anchor ks out1 = Inr out'" by (auto simp: Let_def check_Inr_iff)
    from add_block_Inr[OF o(1)] Cons.IH[OF o(2)] False show ?thesis by (fastforce simp: not_less)
  qed (use Cons.prems in \<open>auto simp: Let_def\<close>)
qed simp

lemma tail_walk_end: "snd (tail_walk k bs) \<Longrightarrow> take k bs = bs"
  by (induction k bs rule: tail_walk.induct) (auto split: prod.splits)

lemma fst_tail_walk: "fst (tail_walk k bs) = take k bs"
  by (induction k bs rule: tail_walk.induct) (auto split: prod.splits)

lemma add_block_if:
  "(if P then add_block L s i out else Inr out) = Inr out' \<Longrightarrow>
     \<exists>ext. out' = out @ ext \<and> (if P then \<exists>b \<in> set (blocks_rows L s). ext = [b] \<and> bi_id b = i else ext = [])"
  using add_block_Inr[of s i out out'] by (auto split: if_splits)

lemma get_blocks_tail_Inr:
  assumes run: "get_blocks_tail L cp s bs k = Inr out" and walk: "tail_walk 10 bs = (tail, end_of)"
  shows "if end_of then out = tail else \<exists>ints ext gen. out = tail @ ints @ ext @ gen \<and>
    set ints \<subseteq> {x \<in> set (blocks_rows L s). get_max_height cp \<le> bi_id x} \<and>
    (if get_max_height cp < bi_id (last (tail @ ints))
     then \<exists>b \<in> set (blocks_rows L s). ext = [b] \<and> bi_id b = get_max_height cp else ext = [])"
proof (cases end_of)
  case False
  with run walk obtain out1 out2 where steps:
    "internal_blocks L s (get_max_height cp) (bi_id (last tail)) [1..<Suc k] tail = Inr out1"
    "(if get_max_height cp < bi_id (last out1) then add_block L s (get_max_height cp) out1 else Inr out1) = Inr out2"
    "(if bi_id (last out2) \<noteq> 0 then add_block L s 0 out2 else Inr out2) = Inr out"
    by (auto simp: get_blocks_tail_def Let_def check_Inr_iff)
  obtain ints where i: "out1 = tail @ ints" "set ints \<subseteq> {x \<in> set (blocks_rows L s). get_max_height cp \<le> bi_id x}"
    using internal_blocks_Inr[OF steps(1)] by blast
  obtain ext where e: "out2 = out1 @ ext" "if get_max_height cp < bi_id (last out1)
     then \<exists>b \<in> set (blocks_rows L s). ext = [b] \<and> bi_id b = get_max_height cp else ext = []"
    using add_block_if[OF steps(2)] by blast
  obtain gen where "out = out2 @ gen" using add_block_if[OF steps(3)] by blast
  with i e show ?thesis unfolding if_not_P[OF False]
    by (intro exI[where x = ints] exI[where x = ext] exI[where x = gen]) simp
qed (use run walk in \<open>auto simp: get_blocks_tail_def split: if_splits\<close>)

lemma get_blocks_tail_extends:
  assumes "get_blocks_tail L cp s bs k = Inr out" "tail_walk 10 bs = (tail, end_of)"
  obtains ext where "out = tail @ ext"
proof (cases end_of)
  case True
  with get_blocks_tail_Inr[OF assms] show thesis by (intro that[of "[]"]) simp
next
  case False
  note get_blocks_tail_Inr[OF assms, unfolded if_not_P[OF False]]
  then show thesis by (elim exE conjE) (rule that)
qed

lemma get_blocks_names:
  assumes out: "get_blocks L cp k s = Inr out" and b: "b \<in> set (blocks_rows L s)" "bi_id b = get_max_height cp"
  shows "\<exists>pre post. out = pre @ b # post \<and> set pre \<subseteq> {x \<in> set (blocks_rows L s). get_max_height cp \<le> bi_id x}"
proof -
  let ?rows = "blocks_rows L s" let ?M = "get_max_height cp"
  have one: "x = b" if "x \<in> set ?rows" "bi_id x = ?M" for x using sorted_rows_inj[OF blocks.dups_sorted] that b by metis
  define tail where "tail = take 10 (rev ?rows)"
  have tail: "set tail \<subseteq> set ?rows" unfolding tail_def by (metis set_rev set_take_subset)
  have desc: "sorted_wrt (\<lambda>x y. bi_id y < bi_id x) (tail @ drop 10 (rev ?rows))"
    unfolding tail_def append_take_drop_id sorted_wrt_rev using blocks.dups_sorted[of "blocks_t s" blocks_version]
    by (simp add: sorted_rows_def)
  obtain end_of where walk: "tail_walk 10 (rev ?rows) = (tail, end_of)"
    using fst_tail_walk[of 10 "rev ?rows"] unfolding tail_def by (metis prod.collapse)
  have run: "get_blocks_tail L cp s (rev ?rows) (min 64 k) = Inr out" using out by (simp add: get_blocks_def Let_def split: if_splits)
  note parts = get_blocks_tail_Inr[OF run walk]
  show ?thesis
  proof (cases "b \<in> set tail")
    case True
    then obtain pre post where t: "tail = pre @ b # post" by (meson split_list)
    have "?M \<le> bi_id x" if "x \<in> set pre" for x
      using desc that b(2) unfolding t by (auto simp: sorted_wrt_append less_imp_le)
    then have "set pre \<subseteq> {x \<in> set ?rows. ?M \<le> bi_id x}" using tail unfolding t by auto
    moreover obtain ext where "out = tail @ ext" by (rule get_blocks_tail_extends[OF run walk])
    ultimately show ?thesis unfolding t by auto
  next
    case False
    have b': "b \<in> set (drop 10 (rev ?rows))" using b(1) False
      by (metis UnE append_take_drop_id set_append set_rev tail_def)
    then have "\<not> end_of" using tail_walk_end[of 10 "rev ?rows"] walk by (auto simp: tail_def)
    note parts[unfolded if_not_P[OF this]]
    then obtain ints ext gen where p: "out = tail @ ints @ ext @ gen" "set ints \<subseteq> {x \<in> set ?rows. ?M \<le> bi_id x}"
      "if ?M < bi_id (last (tail @ ints)) then \<exists>x \<in> set ?rows. ext = [x] \<and> bi_id x = ?M else ext = []"
      by (elim exE conjE) (rule that)
    have "bi_id b < bi_id x" if "x \<in> set tail" for x
      using desc b' that unfolding sorted_wrt_append by blast
    then have "?M \<le> bi_id x" if "x \<in> set tail" for x using that b(2) by (simp add: less_imp_le)
    then have up: "set (tail @ ints) \<subseteq> {x \<in> set ?rows. ?M \<le> bi_id x}" using tail p(2) by auto
    show ?thesis
    proof (cases "?M < bi_id (last (tail @ ints))")
      case True
      with p one have "out = (tail @ ints) @ b # gen" by auto
      with up show ?thesis by blast
    next
      case False
      obtain ti where ti: "ti = tail @ ints" by simp
      have ne: "ti \<noteq> []" using b' by (auto simp: ti tail_def)
      then have "last ti = b" using False up one last_in_set[of ti] unfolding ti by fastforce
      then have "ti = butlast ti @ [b]" using ne by (metis append_butlast_last_id)
      moreover have "out = ti @ gen" using p False by (simp add: ti)
      ultimately have "out = butlast ti @ b # gen" by (metis append.assoc append_Cons append_Nil)
      moreover have "set (butlast ti) \<subseteq> {x \<in> set ?rows. ?M \<le> bi_id x}"
        using up unfolding ti[symmetric] by (auto dest!: in_set_butlastD)
      ultimately have "out = butlast ti @ b # gen \<and> set (butlast ti) \<subseteq> {x \<in> set ?rows. ?M \<le> bi_id x}" ..
      then show ?thesis by blast
    qed
  qed
qed

end

lemma find_named:
  "P (f b) \<Longrightarrow> \<exists>x \<in> insert b (set pre). List.find P (map f (pre @ b # post)) = Some (f x) \<and> P (f x)"
  by (induction pre) auto

text \<open>A stored block that the daemon has, with all the blocks below it.\<close>

lemma shared_at:
  assumes inv: "accounts_inv L s" "images_inv L s" and cont: "contiguous_from L s low c cur" and D: "commits D (blocks_rows L s)"
    and b: "b \<in> set (blocks_rows L s)" "c \<le> bi_id b" "bi_hash b \<in> set D"
  shows "shared L D low c s (unat (bi_id b)) cur \<and> bi_hash b = D ! unat (bi_id b)"
proof -
  have rows: "blocks_rows L s = low @ chain_blocks c cur" and low: "\<forall>x \<in> set low. bi_id x < c" and len: "unat c + length cur \<le> 2 ^ 64"
    using cont by (simp_all add: contiguous_from_def)
  have lt: "unat (bi_id b) < length D" and same: "\<And>x. x \<in> set (blocks_rows L s) \<Longrightarrow> bi_id x \<le> bi_id b \<Longrightarrow> bi_hash x = D ! unat (bi_id x)"
    using D b(1,3) unfolding commits_def by blast+
  have "b \<in> set (chain_blocks c cur)" using b(1,2) low unfolding rows by auto
  from chain_blocks_range[OF this len] have r: "unat c \<le> unat (bi_id b)" "unat (bi_id b) - unat c < length cur" by auto
  have "cur ! j = D ! (unat c + j)" if j: "j \<le> unat (bi_id b) - unat c" for j
  proof -
    have lj: "j < length cur" using j r(2) by simp
    let ?x = "\<lparr>bi_id = c + of_nat j, bi_hash = cur ! j\<rparr>"
    have "?x \<in> set (chain_blocks c cur)" using nth_mem[of j "chain_blocks c cur"] lj by (simp add: nth_chain_blocks)
    then have mem: "?x \<in> set (blocks_rows L s)" by (simp add: rows)
    have u: "unat (c + of_nat j) = unat c + j" using lj len by (simp add: unat_word_ariths unat_of_nat)
    then have "bi_id ?x \<le> bi_id b" using j r(1) by (simp add: word_le_nat_alt)
    from same[OF mem this] show ?thesis by (simp add: u)
  qed
  then have "take (unat (bi_id b) - unat c + 1) cur = take (unat (bi_id b) - unat c + 1) (drop (unat c) D)"
    using r lt by (intro nth_equalityI) auto
  with inv cont r lt same[OF b(1)] show ?thesis by (simp add: shared_def)
qed

section \<open>The window over the chain\<close>

lemma update_window_drop: "update_window n xs = drop (length xs - n) xs"
  by (induction n xs rule: update_window.induct) (auto simp: Suc_diff_le not_less)

lemma update_window_append: "update_window n (update_window n xs @ ys) = update_window n (xs @ ys)"
proof (cases "length xs \<le> n")
  case False
  define k where "k = length xs - n"
  have "drop k xs @ ys = drop k (xs @ ys)" using False by (simp add: k_def)
  moreover have "length (drop k (xs @ ys)) - n + k = length (xs @ ys) - n" using False by (simp add: k_def)
  ultimately show ?thesis unfolding update_window_drop k_def[symmetric] by (simp only: drop_drop)
qed (simp add: update_window_drop)

lemma update_window_cong: "update_window n xs = update_window n ys \<Longrightarrow> update_window n (xs @ zs) = update_window n (ys @ zs)"
  by (metis update_window_append)

lemma last_update_window: "0 < n \<Longrightarrow> xs \<noteq> [] \<Longrightarrow> update_window n xs \<noteq> [] \<and> last (update_window n xs) = last xs"
  by (cases "length xs \<le> n") (auto simp: update_window_drop)

text \<open>The window after some blocks with their difficulties, without dropping old entries.\<close>

fun grown :: "pow_window \<Rightarrow> (chain_block \<times> 128 word) list \<Rightarrow> pow_window" where
  "grown w [] = w"
| "grown w ((block, diff) # blocks) = grown (extend_window block diff w) blocks"

definition same_window :: "consensus \<Rightarrow> pow_window \<Rightarrow> pow_window \<Rightarrow> bool" where
  "same_window K w w' \<longleftrightarrow> shrink_window K w = shrink_window K w' \<and> last_difficulty w = last_difficulty w'"

lemma same_window_shrink: "0 < difficulty_blocks_count K \<Longrightarrow> same_window K (shrink_window K w) w"
  using update_window_append[where ys = "[]"] last_update_window[of "unat (difficulty_blocks_count K)" "cumulative_diffs w"]
  by (auto simp: same_window_def shrink_window_def last_difficulty_def unat_gt_0 word_neq_0_conv update_window_drop)

lemma last_difficulty_extend: "last_difficulty (extend_window block diff w) = diff + last_difficulty w"
  by (simp add: last_difficulty_def extend_window_def)

lemma same_window_extend:
  assumes "same_window K w w'"
  shows "same_window K (extend_window block diff w) (extend_window block diff w')"
proof -
  let ?N = "unat (difficulty_blocks_count K)" and ?M = "unat (timestamp_check_window K)"
  have ld: "last_difficulty w = last_difficulty w'" using assms by (simp add: same_window_def)
  have "update_window ?N (pow_timestamps w) = update_window ?N (pow_timestamps w')"
    "update_window ?N (cumulative_diffs w) = update_window ?N (cumulative_diffs w')"
    "update_window ?M (median_timestamps w) = update_window ?M (median_timestamps w')"
    using assms by (simp_all add: same_window_def shrink_window_def)
  note eqs = this[THEN update_window_cong]
  show ?thesis unfolding same_window_def last_difficulty_extend ld
    by (simp add: shrink_window_def extend_window_def ld eqs(1)[of "[bk_timestamp block]"]
        eqs(2)[of "[diff + last_difficulty w']"] eqs(3)[of "[bk_timestamp block]"])
qed

lemma same_window_grown: "same_window K w w' \<Longrightarrow> same_window K (grown w xs) (grown w' xs)"
  by (induction w xs arbitrary: w' rule: grown.induct) (simp_all add: same_window_extend)

text \<open>What the check of a block means, over the whole chain before it.\<close>

definition block_checked :: "consensus \<Rightarrow> 't lmdb \<Rightarrow> 't tables \<Rightarrow> block_id \<Rightarrow> block_id \<Rightarrow> block_id \<Rightarrow> hash list \<Rightarrow> pow_window \<Rightarrow> chain_block \<Rightarrow>
    128 word \<Rightarrow> pow_sync \<Rightarrow> bool" where
  "block_checked K L s start last_checkpoint height cached w block diff pow \<longleftrightarrow>
     (let w = shrink_window K w in
      (\<exists>target. get_target_time K height = Inr target \<and> diff = next_difficulty K (pow_timestamps w) (cumulative_diffs w) target) \<and>
      pow = new_pow block (diff + last_difficulty w) \<and>
      (last_checkpoint < height \<longrightarrow> verify_timestamp K (bk_timestamp block) (median_timestamps w) \<and>
         (\<exists>work. get_block_longhash K L (hashing_blob K block) height (bk_major_version block) s start cached = Inr work \<and>
            check_hash K work diff)))"

lemma block_checked_same: "same_window K w w' \<Longrightarrow>
    block_checked K L s start cp height cached w block diff pow = block_checked K L s start cp height cached w' block diff pow"
  by (simp add: block_checked_def same_window_def)

lemma check_work_Inr: "check_work K L s start cached height block diff w = Inr () \<longleftrightarrow>
    verify_timestamp K (bk_timestamp block) (median_timestamps w) \<and>
    (\<exists>work. get_block_longhash K L (hashing_blob K block) height (bk_major_version block) s start cached = Inr work \<and> check_hash K work diff)"
  by (auto simp: check_work_def check_Inr_iff)

lemma verify_blocks_checked:
  assumes "0 < difficulty_blocks_count K"
  shows "verify_blocks K L s start cp height prev w hashes pow blocks = Inr (hs, ps) \<Longrightarrow>
    \<exists>new newp ds. hs = hashes @ new \<and> ps = pow @ newp \<and> length new = length blocks \<and> length newp = length blocks \<and> length ds = length blocks \<and>
      (\<forall>i < length blocks. bk_prev_id (blocks ! i) = (prev # new) ! i \<and> block_hash K (blocks ! i) = Some (new ! i) \<and>
         block_checked K L s start cp (height + of_nat i) (hashes @ take i new) (grown w (zip (take i blocks) (take i ds)))
           (blocks ! i) (ds ! i) (newp ! i))"
proof (induction blocks arbitrary: height prev w hashes pow)
  case (Cons block blocks)
  define w1 where "w1 = shrink_window K w"
  from Cons.prems obtain h target where head: "bk_prev_id block = prev" "block_hash K block = Some h" "get_target_time K height = Inr target"
    by (auto simp: Let_def check_Inr_iff split: if_splits option.splits)
  define diff where "diff = next_difficulty K (pow_timestamps w1) (cumulative_diffs w1) target"
  define w2 where "w2 = extend_window block diff w1"
  have cum: "last (cumulative_diffs w2) = diff + last_difficulty w1" by (simp add: w2_def extend_window_def)
  from Cons.prems have work: "cp < height \<longrightarrow> check_work K L s start hashes height block diff w1 = Inr ()"
    and rest: "verify_blocks K L s start cp (height + 1) h w2 (hashes @ [h]) (pow @ [new_pow block (diff + last_difficulty w1)]) blocks = Inr (hs, ps)"
    unfolding cum[symmetric] by (auto simp: head w2_def diff_def w1_def Let_def check_Inr_iff split: if_splits)
  from Cons.IH[OF rest] obtain new newp ds where
    new: "hs = (hashes @ [h]) @ new" "ps = (pow @ [new_pow block (diff + last_difficulty w1)]) @ newp"
      "length new = length blocks" "length newp = length blocks" "length ds = length blocks"
    and all: "\<And>i. i < length blocks \<Longrightarrow> bk_prev_id (blocks ! i) = (h # new) ! i \<and> block_hash K (blocks ! i) = Some (new ! i) \<and>
         block_checked K L s start cp (height + 1 + of_nat i) ((hashes @ [h]) @ take i new) (grown w2 (zip (take i blocks) (take i ds)))
           (blocks ! i) (ds ! i) (newp ! i)" by blast
  have same: "same_window K (grown w2 xs) (grown (extend_window block diff w) xs)" for xs
    unfolding w2_def w1_def by (intro same_window_grown same_window_extend same_window_shrink assms)
  have first: "block_checked K L s start cp height hashes w block diff (new_pow block (diff + last_difficulty w1))"
    using work head(3) unfolding check_work_Inr block_checked_def Let_def w1_def[symmetric] by (simp add: diff_def)
  show ?case
  proof (intro exI conjI allI impI)
    show "hs = hashes @ h # new" "ps = pow @ new_pow block (diff + last_difficulty w1) # newp" using new by simp_all
    fix i assume i: "i < length (block # blocks)"
    show "bk_prev_id ((block # blocks) ! i) = (prev # h # new) ! i" "block_hash K ((block # blocks) ! i) = Some ((h # new) ! i)"
      using i head all by (auto simp: nth_Cons split: nat.splits)
    show "block_checked K L s start cp (height + of_nat i) (hashes @ take i (h # new))
        (grown w (zip (take i (block # blocks)) (take i (diff # ds)))) ((block # blocks) ! i) ((diff # ds) ! i)
        ((new_pow block (diff + last_difficulty w1) # newp) ! i)"
    proof (cases i)
      case (Suc j)
      with i all[of j] show ?thesis by (simp add: add.assoc block_checked_same[OF same])
    qed (simp add: first)
  qed (use new in simp_all)
qed simp

text \<open>A batch of blocks was taken over, all of them checked.\<close>

definition checked_batch :: "consensus \<Rightarrow> 't lmdb \<Rightarrow> checkpoints \<Rightarrow> 't tables \<Rightarrow> 't tables \<Rightarrow> bool" where
  "checked_batch K L cp s s' \<longleftrightarrow> (\<exists>start front blocks lst w hashes pow ds.
     get_last_checkpoint cp = Inr lst \<and>
     get_pow_window L (difficulty_blocks_count K) (timestamp_check_window K) start s = Inr w \<and>
     sync_pow L cp start hashes pow s = Inr s' \<and>
     length pow = length hashes \<and> length ds = length blocks \<and> map (block_hash K) (front # blocks) = map Some hashes \<and>
     (\<forall>i < length blocks. bk_prev_id (blocks ! i) = hashes ! i \<and>
        block_checked K L s start (bi_id lst) (start + 1 + of_nat i) (take (Suc i) hashes)
          (grown w (zip (take i blocks) (take i ds))) (blocks ! i) (ds ! i) (pow ! Suc i)))"

lemma sync_full_step_checked:
  assumes K: "0 < difficulty_blocks_count K" and step: "sync_full_step K L cp known resp s = Inr (Some (known', s'))"
  shows "checked_batch K L cp s s'"
proof -
  let ?start = "br_start_height resp"
  obtain front blocks h lst w hashes pow where run: "block_hash K front = Some h" "get_last_checkpoint cp = Inr lst"
    "get_pow_window L (difficulty_blocks_count K) (timestamp_check_window K) ?start s = Inr w"
    "verify_blocks K L s ?start (bi_id lst) (?start + 1) h w [h]
       [\<lparr>sync_timestamp = bk_timestamp front, sync_cumulative_diff = Block_difficulty 0 0\<rparr>] blocks = Inr (hashes, pow)"
    "sync_pow L cp ?start hashes pow s = Inr s'"
  proof (cases "br_blocks resp")
    case (Cons front blocks)
    obtain h where h: "block_hash K front = Some h" using step Cons by (cases "block_hash K front") (auto simp: sync_full_step_def)
    have "blocks \<noteq> []"
      using step Cons h by (cases "do_get_block_hash L ?start s") (auto simp: sync_full_step_def check_Inr_iff split: if_splits)
    with step Cons h that show thesis by (auto simp: sync_full_step_def check_Inr_iff)
  qed (use step in \<open>simp add: sync_full_step_def\<close>)
  obtain new newp ds where new: "hashes = [h] @ new"
    "pow = [\<lparr>sync_timestamp = bk_timestamp front, sync_cumulative_diff = Block_difficulty 0 0\<rparr>] @ newp"
    "length new = length blocks" "length newp = length blocks" "length ds = length blocks"
    and all: "\<forall>i < length blocks. bk_prev_id (blocks ! i) = (h # new) ! i \<and> block_hash K (blocks ! i) = Some (new ! i) \<and>
      block_checked K L s ?start (bi_id lst) (?start + 1 + of_nat i) ([h] @ take i new) (grown w (zip (take i blocks) (take i ds)))
        (blocks ! i) (ds ! i) (newp ! i)"
    using verify_blocks_checked[OF K run(4)] by (elim exE conjE) (rule that)
  have "map (block_hash K) (front # blocks) = map Some hashes"
    using run(1) new(1,3) all by (auto intro: nth_equalityI)
  with run new all show ?thesis unfolding checked_batch_def
    by (intro exI[of _ ?start] exI[of _ front] exI[of _ blocks] exI[of _ lst] exI[of _ w] exI[of _ hashes] exI[of _ pow] exI[of _ ds])
      simp
qed

lemma sync_full_step_top:
  assumes "sync_full_step K L cp known resp s = Inr None"
  shows "\<exists>lst i h. get_last_checkpoint cp = Inr lst \<and> bi_id lst \<le> i \<and> do_get_block_hash L i s = Inr h"
proof (cases "br_blocks resp")
  case (Cons front blocks)
  obtain h where h: "block_hash K front = Some h" using assms Cons by (cases "block_hash K front") (auto simp: sync_full_step_def)
  with assms Cons show ?thesis
    by (cases "do_get_block_hash L (br_start_height resp) s")
      (auto simp: sync_full_step_def check_Inr_iff not_less split: if_splits)
qed (use assms in \<open>simp add: sync_full_step_def\<close>)

definition checked_run :: "consensus \<Rightarrow> 't lmdb \<Rightarrow> checkpoints \<Rightarrow> 't tables \<Rightarrow> error + unit \<Rightarrow> 't tables \<Rightarrow> bool" where
  "checked_run K L cp s r s' \<longleftrightarrow> (checked_batch K L cp)\<^sup>*\<^sup>* s s' \<and>
     (r = Inr () \<longrightarrow> (\<exists>lst i h. get_last_checkpoint cp = Inr lst \<and> bi_id lst \<le> i \<and> do_get_block_hash L i s' = Inr h))"

lemma sync_full_loop_run:
  assumes "0 < difficulty_blocks_count K" and run: "sync_full_loop K' L' cp' daemon n known s = Some y"
  shows "K' = K \<longrightarrow> L' = L \<longrightarrow> cp' = cp \<longrightarrow> checked_run K L cp s (fst y) (snd y)"
proof (rule sync_full_loop.raw_induct[where P = "\<lambda>K' L' cp' daemon' n known s y.
    K' = K \<longrightarrow> L' = L \<longrightarrow> cp' = cp \<longrightarrow> checked_run K L cp s (fst y) (snd y)", OF _ run], goal_cases)
  case (1 loop K' L' cp' daemon' n known s y)
  show ?case
  proof (intro impI)
    assume eq: "K' = K" "L' = L" "cp' = cp"
    show "checked_run K L cp s (fst y) (snd y)"
    proof (cases "known = [] \<or> (\<exists>e. daemon' n known = Inl e)")
      case True
      with 1(2) show ?thesis by (auto simp: checked_run_def split: if_splits)
    next
      case False
      then obtain resp where resp: "known \<noteq> []" "daemon' n known = Inr resp" by (cases "daemon' n known") auto
      note body = 1(2)[unfolded resp(2), simplified resp(1) eq, simplified]
      show ?thesis
      proof (cases "sync_full_step K L cp known resp s")
        case (Inl e)
        with body show ?thesis by (auto simp: checked_run_def)
      next
        case (Inr next_step)
        show ?thesis
        proof (cases next_step)
          case None
          with body Inr sync_full_step_top[of K L cp known resp s] show ?thesis unfolding checked_run_def by (cases y) (simp; blast)
        next
          case (Some p)
          obtain known' s1 where p: "p = (known', s1)" by force
          with body Inr Some have "loop K L cp daemon' (Suc n) known' s1 = Some y" by simp
          from 1(1)[OF this] have "checked_run K L cp s1 (fst y) (snd y)" by simp
          moreover have "checked_batch K L cp s s1"
            by (rule sync_full_step_checked[OF assms(1)]) (use Inr Some p in simp)
          ultimately show ?thesis unfolding checked_run_def by (meson converse_rtranclp_into_rtranclp)
        qed
      qed
    qed
  qed
qed

lemmas sync_full_loop_checked = sync_full_loop_run[rule_format, OF _ _ refl refl refl]

section \<open>Properties\<close>

text \<open>
  C4: Synchronizing with a daemon that follows one chain ends, whatever the size of its answers, and
  then the block table holds the chain of the daemon from height \<open>c\<close> on, as if it had been taken over
  at once; only if the daemon is behind, the stored blocks stay. The accounts are set back to the
  fork, so the indexes stay consistent. The stored chain must reach the last checkpoint.
\<close>

theorem sync_quick_follows:
  assumes "lmdb_store L" and "accounts_inv L s" and "images_inv L s" and "contiguous_from L s low c cur"
    and "get_chain_sync L cp s = Inr known"
    and "distinct D" and "length D < 2 ^ 64" and "2 \<le> n" and "serves D n daemon" and "commits D (blocks_rows L s)"
    and "b \<in> set (blocks_rows L s)" and "bi_id b = get_max_height cp" and "c \<le> bi_id b" and "bi_hash b \<in> set D"
  shows "\<exists>s'. sync_quick L cp regtest daemon s = Some (Inr (), s') \<and> accounts_inv L s' \<and> images_inv L s' \<and>
    blocks_rows L s' = low @ chain_blocks c (merge_chain cur (drop (unat c) D))"
proof -
  obtain out where out: "get_blocks L cp 64 s = Inr out" "known = map bi_hash out"
    using assms(5) by (auto simp: get_chain_sync_def check_Inr_iff)
  obtain pre post where named: "out = pre @ b # post" "set pre \<subseteq> {x \<in> set (blocks_rows L s). get_max_height cp \<le> bi_id x}"
    using lmdb_store.get_blocks_names[OF assms(1) out(1) assms(11,12)] by blast
  obtain x where x: "x \<in> insert b (set pre)" "List.find (\<lambda>h. h \<in> set D) known = Some (bi_hash x)" "bi_hash x \<in> set D"
    using find_named[of "\<lambda>h. h \<in> set D" bi_hash b pre post] assms(14) out(2) named(1) by auto
  then have row: "x \<in> set (blocks_rows L s)" "get_max_height cp \<le> bi_id x" using named(2) assms(11,12) by auto
  then have "c \<le> bi_id x" using assms(12,13) by simp
  from shared_at[OF assms(2-4,10) row(1) this x(3)]
  have sh: "shared L D low c s (unat (bi_id x)) cur" "bi_hash x = D ! unat (bi_id x)" by auto
  have "unat (get_max_height cp) \<le> unat (bi_id x)" using row(2) by (simp add: word_le_nat_alt)
  from lmdb_store.quick_loop[OF assms(1,6,7,9,8) this sh(1) x(2)[unfolded sh(2)]] show ?thesis
    by (simp add: sync_quick_def assms(5))
qed

text \<open>
  C5: Whatever a daemon that is not trusted sends, the tables change only by batches of checked blocks:
  each block continues the one before it, has the difficulty that follows from the whole chain
  before it, and above the last checkpoint a plausible time and a proof of work for that difficulty.
  A success means that the top block of the daemon is stored and not below the last checkpoint.
\<close>

theorem sync_full_checks_work:
  assumes "0 < difficulty_blocks_count K" and "sync_full K L cp daemon s = Some (r, s')"
  shows "(checked_batch K L cp)\<^sup>*\<^sup>* s s' \<and>
    (r = Inr () \<longrightarrow> (\<exists>lst i h. get_last_checkpoint cp = Inr lst \<and> bi_id lst \<le> i \<and> do_get_block_hash L i s' = Inr h))"
proof -
  have "checked_run K L cp s r s'"
  proof (cases "get_pow_sync L cp s")
    case (Inl e)
    with assms(2) show ?thesis by (auto simp: sync_full_def checked_run_def)
  next
    case (Inr known)
    with assms(2) sync_full_loop_checked[OF assms(1), of L cp daemon 0 known s "(r, s')"] show ?thesis by (simp add: sync_full_def)
  qed
  then show ?thesis by (simp add: checked_run_def)
qed

definition demo_chain :: "hash list" where
  "demo_chain = [500, 501, 502, 603, 604, 605]"

lemma demo_known: "get_chain_sync log_lmdb demo_checkpoints demo = Inr [503, 502, 501, 500]"
  by code_simp

theorem sync_quick_follows_witness:
  "\<exists>s'. sync_quick log_lmdb demo_checkpoints False (\<lambda>k. serve demo_chain 2) demo = Some (Inr (), s') \<and>
     map bi_hash (blocks_rows log_lmdb s') = demo_chain"
proof -
  have D: "distinct demo_chain" "length demo_chain < 2 ^ 64" by (simp_all add: demo_chain_def)
  have serves: "serves demo_chain 2 (\<lambda>k. serve demo_chain 2)" by (simp add: serves_def)
  have commits: "commits demo_chain (blocks_rows log_lmdb demo)"
    by (simp add: commits_def demo_blocks demo_block_def demo_chain_def word_le_nat_alt)
  have merged: "merge_chain [501, 502, 503] (drop (unat (1 :: u64)) demo_chain) = [501, 502, 603, 604, 605]"
    by (simp add: demo_chain_def merge_chain_def)
  have b: "demo_block 2 \<in> set (blocks_rows log_lmdb demo)" "bi_id (demo_block 2) = get_max_height demo_checkpoints"
    "1 \<le> bi_id (demo_block 2)" "bi_hash (demo_block 2) \<in> set demo_chain"
    by (simp_all add: demo_blocks demo_block_def demo_checkpoints_def demo_chain_def word_le_nat_alt)
  obtain s' where "sync_quick log_lmdb demo_checkpoints False (\<lambda>k. serve demo_chain 2) demo = Some (Inr (), s')"
    "blocks_rows log_lmdb s' = [demo_block 0] @ chain_blocks 1 [501, 502, 603, 604, 605]"
    using sync_quick_follows[OF log.lmdb_store_axioms demo_accounts_inv demo_images_inv demo_contiguous demo_known D order_refl serves commits b]
    unfolding merged by blast
  then show ?thesis by (intro exI[of _ s'] conjI) (simp_all add: demo_block_def demo_chain_def)
qed

text \<open>A chain with a block above the checkpoint; its proof of work is checked.\<close>

definition demo_header :: "u64 \<Rightarrow> hash \<Rightarrow> chain_block" where
  "demo_header stamp prev = \<lparr>bk_prev_id = prev, bk_timestamp = stamp, bk_major_version = 1, bk_miner_tx = demo_tx,
     bk_tx_hashes = [], bk_transactions = []\<rparr>"

definition demo_consensus :: consensus where
  "demo_consensus =
     \<lparr>block_hash = (\<lambda>b. Some (if bk_timestamp b = 1003 then 503 else if bk_timestamp b = 1004 then 604 else 605)), hashing_blob = (\<lambda>b. []),
      rx_block_version = 12, rx_seedheight = (\<lambda>h. 0), rx_slow_hash = (\<lambda>h b. 0), cn_slow_hash = (\<lambda>b v h. 7),
      check_hash = (\<lambda>h d. h = 7), next_difficulty = (\<lambda>ts ds t. 1), median_of = hd, hard_forks = Some [0, 0], target_v1 = 60,
      target_v2 = 120, difficulty_blocks_count = 2, timestamp_check_window = 1\<rparr>"

definition demo_daemon :: "nat \<Rightarrow> hash list \<Rightarrow> error + blocks_response" where
  "demo_daemon n known = Inr (if n = 0
     then \<lparr>br_blocks = [demo_header 1003 502, demo_header 1004 503, demo_header 1005 604], br_start_height = 3\<rparr>
     else \<lparr>br_blocks = [demo_header 1005 604], br_start_height = 5\<rparr>)"

definition demo_step :: "nat \<Rightarrow> hash list \<Rightarrow> cell list tables \<Rightarrow> error + (hash list \<times> cell list tables) option" where
  "demo_step n known s = check (demo_daemon n known) (\<lambda>resp. sync_full_step demo_consensus log_lmdb demo_checkpoints known resp s)"

lemma demo_pow_known: "get_pow_sync log_lmdb demo_checkpoints demo = Inr [503, 502, 501, 500]"
  by code_simp

lemma demo_steps:
  "map_sum (\<lambda>_. ()) (map_option fst) (demo_step 0 [503, 502, 501, 500] demo) = Inr (Some [605, 604, 500])"
  "map_sum (\<lambda>_. ()) (map_option fst) (check (demo_step 0 [503, 502, 501, 500] demo) (\<lambda>res. demo_step 1 [605, 604, 500] (snd (the res)))) = Inr None"
  by code_simp+

lemma demo_sync_full: "\<exists>s'. sync_full demo_consensus log_lmdb demo_checkpoints demo_daemon demo = Some (Inr (), s')"
proof -
  obtain s1 where s1: "demo_step 0 [503, 502, 501, 500] demo = Inr (Some ([605, 604, 500], s1))"
    using demo_steps(1) by (auto elim!: map_sum_InrE)
  have s2: "demo_step 1 [605, 604, 500] s1 = Inr None"
    using demo_steps(2) unfolding s1 by (auto elim!: map_sum_InrE)
  obtain r0 r1 where d: "\<And>known. demo_daemon 0 known = Inr r0" "\<And>known. demo_daemon (Suc 0) known = Inr r1"
    by (simp add: demo_daemon_def)
  have st: "sync_full_step demo_consensus log_lmdb demo_checkpoints [503, 502, 501, 500] r0 demo = Inr (Some ([605, 604, 500], s1))"
    "sync_full_step demo_consensus log_lmdb demo_checkpoints [605, 604, 500] r1 s1 = Inr None"
    using s1 s2 by (simp_all add: demo_step_def d)
  have "sync_full_loop demo_consensus log_lmdb demo_checkpoints demo_daemon (Suc 0) [605, 604, 500] s1 = Some (Inr (), s1)"
    by (subst sync_full_loop.simps) (simp add: d st)
  then have "sync_full_loop demo_consensus log_lmdb demo_checkpoints demo_daemon 0 [503, 502, 501, 500] demo = Some (Inr (), s1)"
    by (subst sync_full_loop.simps) (simp add: d st)
  then show ?thesis by (simp add: sync_full_def demo_pow_known)
qed

theorem sync_full_checks_work_witness:
  "\<exists>s'. sync_full demo_consensus log_lmdb demo_checkpoints demo_daemon demo = Some (Inr (), s') \<and>
     (checked_batch demo_consensus log_lmdb demo_checkpoints)\<^sup>*\<^sup>* demo s'"
proof -
  obtain s' where run: "sync_full demo_consensus log_lmdb demo_checkpoints demo_daemon demo = Some (Inr (), s')"
    using demo_sync_full by blast
  from sync_full_checks_work[OF _ run] run show ?thesis by (auto simp: demo_consensus_def)
qed

end
