(* ===== verification/ScanLoop.thy ===== *)
theory ScanLoop
  imports Sync ScanServer Webhooks
begin

text \<open>
  The loop of a scan thread, \<open>scanner::loop\<close> of \<open>src/src/scanner.cpp\<close>: one round takes an answer of
  the daemon and the accounts that the queue holds, scans the blocks for all accounts of the thread
  and stores what was found; at the top of the chain it waits for news. The loop is given by its
  rounds, because other threads change the database and the queue between them.

  What a round reads from outside (answers, messages, whether a stop was seen) is its input. Hashes
  of transactions and headers are a parameter. An exception is an error; it ends the scanner.
\<close>

section \<open>Scanning a batch of blocks\<close>

record fetched_blocks = blocks_response +
  br_output_indices :: "u64 list list list"

record scan_options =
  so_max_subaddresses :: u32
  so_untrusted_daemon :: bool

record hashing =
  miner_hash :: "transaction \<Rightarrow> hash option"
  full_hash :: "transaction \<Rightarrow> error + hash"
  header_hash :: "chain_block \<Rightarrow> error + hash"

text \<open>What is fixed for a round: a local database, the blocks with known proof of work, stops.\<close>

record round_context =
  rx_local :: bool
  rx_last_pow :: block_id
  rx_stopped :: "block_id \<Rightarrow> bool"
  rx_initial_height :: block_id

record 't progress =
  pr_chain :: "hash list"
  pr_pow :: "pow_sync list"
  pr_window :: pow_window
  pr_users :: "lws_account list"
  pr_reader :: "'t subaddress_reader"

text \<open>
  The checks for a daemon that is not trusted; \<open>None\<close> when the thread was stopped meanwhile. The
  block table is not changed by scanning, so it is the one of the start of the round. Only a local database is used
  together with such a daemon.
\<close>

definition judge_block :: "consensus \<Rightarrow> 't lmdb \<Rightarrow> round_context \<Rightarrow> 't tables \<Rightarrow> block_id \<Rightarrow> chain_block \<Rightarrow> hash list \<Rightarrow> pow_window \<Rightarrow>
    error + (128 word \<times> pow_window) option" where
  "judge_block K L R s height block chain w =
     (if bk_prev_id block \<noteq> last chain then Inl (Lws bad_blockchain)
      else
        let w = shrink_window K w in
        if rx_stopped R height then Inr None
        else
          check (get_target_time K height) (\<lambda>target.
          let diff = next_difficulty K (pow_timestamps w) (cumulative_diffs w) target in
          check (if rx_local R \<and> rx_last_pow R < height
                 then check_work K L s (rx_initial_height R) chain height block diff w else Inr ()) (\<lambda>_.
            Inr (Some (diff, w)))))"

fun scan_txs :: "'t lmdb \<Rightarrow> crypto \<Rightarrow> scan_crypto \<Rightarrow> hashing \<Rightarrow> bool \<Rightarrow> block_id \<Rightarrow> u64 \<Rightarrow> (hash \<times> transaction \<times> u64 list) list \<Rightarrow>
    lws_account list \<Rightarrow> 't subaddress_reader \<Rightarrow> error + lws_account list \<times> 't subaddress_reader" where
  "scan_txs L C X H untrusted height timestamp [] users sr = Inr (users, sr)"
| "scan_txs L C X H untrusted height timestamp ((tx_hash, tx, out_ids) # txs) users sr =
     check (if untrusted then check (full_hash H tx) (\<lambda>h. if h \<noteq> tx_hash then Inl (Lws bad_blockchain) else Inr ()) else Inr ()) (\<lambda>_.
     check (scan_transaction L C X users height timestamp tx_hash tx out_ids sr) (\<lambda>(users, sr).
       scan_txs L C X H untrusted height timestamp txs users sr))"

definition scan_block :: "'t lmdb \<Rightarrow> crypto \<Rightarrow> scan_crypto \<Rightarrow> consensus \<Rightarrow> hashing \<Rightarrow> scan_options \<Rightarrow> round_context \<Rightarrow> 't tables \<Rightarrow> block_id \<Rightarrow>
    chain_block \<Rightarrow> u64 list list \<Rightarrow> 't progress \<Rightarrow> error + bool \<times> 't progress" where
  "scan_block L C X K H Q R s height block indices p =
     (if length (bk_tx_hashes block) \<noteq> length (bk_transactions block) then Inl Runtime_error
      else if indices = [] then Inl Runtime_error
      else case miner_hash H (bk_miner_tx block) of
        None \<Rightarrow> Inl Runtime_error
      | Some miner_tx_hash \<Rightarrow>
          check (scan_transaction L C X (pr_users p) height (bk_timestamp block) miner_tx_hash (bk_miner_tx block)
              (hd indices) (pr_reader p)) (\<lambda>(users, sr).
          let p = p\<lparr>pr_users := users, pr_reader := sr\<rparr> in
          check (if so_untrusted_daemon Q then judge_block K L R s height block (pr_chain p) (pr_window p)
                 else Inr (Some (0, pr_window p))) (\<lambda>judged.
            case judged of
              None \<Rightarrow> Inr (True, p)
            | Some (diff, w) \<Rightarrow>
                if length (bk_transactions block) \<noteq> length (tl indices) then Inl Runtime_error
                else
                  check (scan_txs L C X H (so_untrusted_daemon Q) height (bk_timestamp block)
                      (zip (bk_tx_hashes block) (zip (bk_transactions block) (tl indices))) (pr_users p) (pr_reader p)) (\<lambda>(users, sr).
                  let w = (if so_untrusted_daemon Q then extend_window block diff w else w);
                      pow = (if so_untrusted_daemon Q then pr_pow p @ [new_pow block (last (cumulative_diffs w))] else pr_pow p) in
                  check (header_hash H block) (\<lambda>h.
                    Inr (False, \<lparr>pr_chain = pr_chain p @ [h], pr_pow = pow, pr_window = w, pr_users = users, pr_reader = sr\<rparr>))))))"

fun scan_blocks :: "'t lmdb \<Rightarrow> crypto \<Rightarrow> scan_crypto \<Rightarrow> consensus \<Rightarrow> hashing \<Rightarrow> scan_options \<Rightarrow> round_context \<Rightarrow> 't tables \<Rightarrow> block_id \<Rightarrow>
    (chain_block \<times> u64 list list) list \<Rightarrow> 't progress \<Rightarrow> error + bool \<times> 't progress" where
  "scan_blocks L C X K H Q R s height [] p = Inr (False, p)"
| "scan_blocks L C X K H Q R s height ((block, indices) # blocks) p =
     check (scan_block L C X K H Q R s (height + 1) block indices p) (\<lambda>(stopped, p).
       if stopped then Inr (True, p) else scan_blocks L C X K H Q R s (height + 1) blocks p)"

text \<open>The first block is the last one of the batch before, except for the first batch of the chain.\<close>

definition initial_height :: "u64 \<Rightarrow> u64" where
  "initial_height start = (if start \<noteq> 1 then start else 0)"

definition new_blocks :: "u64 \<Rightarrow> 'a list \<Rightarrow> 'a list" where
  "new_blocks start blocks = (if start \<noteq> 1 then tl blocks else blocks)"

definition disk_of :: "'t subaddress_reader \<Rightarrow> 't tables \<Rightarrow> 't tables" where
  "disk_of sr s = (case sr_disk sr of None \<Rightarrow> s | Some disk \<Rightarrow> disk)"

definition scan_batch :: "'t lmdb \<Rightarrow> crypto \<Rightarrow> scan_crypto \<Rightarrow> consensus \<Rightarrow> hashing \<Rightarrow> scan_options \<Rightarrow> bool \<Rightarrow> block_id \<Rightarrow> (block_id \<Rightarrow> bool) \<Rightarrow>
    fetched_blocks \<Rightarrow> lws_account list \<Rightarrow> 't tables \<Rightarrow> error + bool \<times> 't progress" where
  "scan_batch L C X K H Q local last_pow stopped fetched users s =
     (if length (br_blocks fetched) \<noteq> length (br_output_indices fetched) then Inl Runtime_error
      else
        check (header_hash H (hd (br_blocks fetched))) (\<lambda>h.
        let start = br_start_height fetched; initial = initial_height start in
        check (if local \<and> so_untrusted_daemon Q
               then get_pow_window L (difficulty_blocks_count K) (timestamp_check_window K) initial s
               else Inr \<lparr>pow_timestamps = [], cumulative_diffs = [], median_timestamps = []\<rparr>) (\<lambda>w.
          scan_blocks L C X K H Q
            \<lparr>rx_local = local, rx_last_pow = last_pow, rx_stopped = stopped, rx_initial_height = initial\<rparr> s initial
            (zip (new_blocks start (br_blocks fetched)) (new_blocks start (br_output_indices fetched)))
            \<lparr>pr_chain = [h],
             pr_pow = (if so_untrusted_daemon Q
                       then [\<lparr>sync_timestamp = bk_timestamp (hd (br_blocks fetched)), sync_cumulative_diff = Block_difficulty 0 0\<rparr>] else []),
             pr_window = w, pr_users = users,
             pr_reader = subaddress_reader_of (if local then Some s else None) (so_max_subaddresses Q)\<rparr>)))"

section \<open>Storing what was found\<close>

definition nothing_updated :: updated where
  "nothing_updated = \<lparr>spend_pubs = [], confirm_pubs = [], accounts_updated = 0\<rparr>"

definition store_users :: "'t lmdb \<Rightarrow> checkpoints \<Rightarrow> hash list \<Rightarrow> lws_account list \<Rightarrow> pow_sync list \<Rightarrow> 't tables \<Rightarrow>
    error + bool \<times> updated \<times> 't tables" where
  "store_users L cp chain users pow s =
     (if users = [] then Inr (True, nothing_updated, s)
      else if \<not> sorted (map la_height users) then Inl Runtime_error
      else case update L cp (la_height (hd users)) chain users pow s of
        Inl e \<Rightarrow> if e = Lws blockchain_reorg then Inr (False, nothing_updated, s) else Inl e
      | Inr (out, s) \<Rightarrow> Inr (accounts_updated out = length users, out, s))"

section \<open>Waiting for news\<close>

record chain_pub =
  cp_top_block_height :: u64
  cp_top_block_id :: hash

text \<open>A message is \<open>None\<close> when it cannot be parsed.\<close>

definition is_new_block :: "'t lmdb \<Rightarrow> bool \<Rightarrow> chain_pub option \<Rightarrow> lws_account \<Rightarrow> 't tables \<Rightarrow> bool" where
  "is_new_block L local chain_msg user s =
     (case chain_msg of
        None \<Rightarrow> False
      | Some chain \<Rightarrow>
          if la_height user < cp_top_block_height chain then True
          else if \<not> local then True
          else case do_get_block_hash L (cp_top_block_height chain) s of
            Inl e \<Rightarrow> True
          | Inr i \<Rightarrow>
              if i \<noteq> cp_top_block_id chain then True
              else case get_account L active (lws_account_id user) s of
                Inl e \<Rightarrow> True
              | Inr user_db \<Rightarrow> a_scan_height user_db \<noteq> la_height user)"

text \<open>What the daemon answers when it is asked for the transactions of the pool, by their prefix hashes.\<close>

datatype pool_answer = Pool_unreachable | Pool_malformed error | Pool "(hash \<times> hash) list"

definition send_webhook :: "'t lmdb \<Rightarrow> pool_answer \<Rightarrow> 't tables \<Rightarrow> lws_account \<Rightarrow> db_output \<Rightarrow> (hash \<times> hash) list \<Rightarrow>
    error + webhook_tx_confirmation list \<times> (hash \<times> hash) list" where
  "send_webhook L ask s user out pool =
     (let key = Webhook_key (lws_account_id user) tx_confirmation;
          hooks = find_webhook L key (payment_id_short out) s in
      check (if hooks \<noteq> [] \<and> pool = [] then
               (case ask of Pool_unreachable \<Rightarrow> Inr None | Pool_malformed e \<Rightarrow> Inl e | Pool txs \<Rightarrow> Inr (Some txs))
             else Inr (Some pool)) (\<lambda>known.
        case known of
          None \<Rightarrow> Inr ([], pool)
        | Some pool \<Rightarrow> Inr (pool_events key hooks (map_of pool) out, pool)))"

fun send_webhooks :: "'t lmdb \<Rightarrow> pool_answer \<Rightarrow> 't tables \<Rightarrow> (lws_account \<times> db_output) list \<Rightarrow> (hash \<times> hash) list \<Rightarrow>
    error + webhook_tx_confirmation list \<times> (hash \<times> hash) list" where
  "send_webhooks L ask s [] pool = Inr ([], pool)"
| "send_webhooks L ask s ((user, out) # outs) pool =
     check (send_webhook L ask s user out pool) (\<lambda>(events, pool).
     check (send_webhooks L ask s outs pool) (\<lambda>(rest, pool). Inr (events @ rest, pool)))"

text \<open>
  Transactions of the pool are scanned without storing: an output is handed to \<open>send_webhook\<close>. The
  model collects the outputs of a transaction in scratch copies of the accounts first; webhooks are
  not changed by a scan.
\<close>

definition collect_output :: "'t subaddress_reader \<Rightarrow> lws_account \<Rightarrow> db_output \<Rightarrow> bool \<times> lws_account" where
  "collect_output sr user out = (True, user\<lparr>la_outputs := la_outputs user @ [out]\<rparr>)"

definition fake_outs :: "u64 list" where
  "fake_outs = replicate 256 (-1)"

fun scan_pool :: "'t lmdb \<Rightarrow> crypto \<Rightarrow> scan_crypto \<Rightarrow> pool_answer \<Rightarrow> u64 \<Rightarrow> lws_account list \<Rightarrow> 't tables \<Rightarrow> transaction list \<Rightarrow>
    't subaddress_reader \<Rightarrow> (hash \<times> hash) list \<Rightarrow> error + webhook_tx_confirmation list \<times> 't subaddress_reader" where
  "scan_pool L C X ask time users s [] sr pool = Inr ([], sr)"
| "scan_pool L C X ask time users s (tx # txs) sr pool =
     check (scan_transaction_base L C X (map (\<lambda>user. user\<lparr>la_outputs := []\<rparr>) users) block_id_txpool time 0 tx fake_outs sr
         (\<lambda>user sp. user) collect_output) (\<lambda>(found, sr).
     check (send_webhooks L ask s (concat (map (\<lambda>user. map (Pair user) (la_outputs user)) found)) pool) (\<lambda>(events, pool).
     check (scan_pool L C X ask time users s txs sr pool) (\<lambda>(rest, sr). Inr (events @ rest, sr))))"

definition scan_transactions :: "'t lmdb \<Rightarrow> crypto \<Rightarrow> scan_crypto \<Rightarrow> scan_options \<Rightarrow> pool_answer \<Rightarrow> u64 \<Rightarrow> transaction list option \<Rightarrow>
    lws_account list \<Rightarrow> 't tables \<Rightarrow> error + webhook_tx_confirmation list \<times> 't tables" where
  "scan_transactions L C X Q ask time txpool_msg users s =
     (case txpool_msg of
        None \<Rightarrow> Inr ([], s)
      | Some txes \<Rightarrow>
          check (scan_pool L C X ask time users s txes (subaddress_reader_of (Some s) (so_max_subaddresses Q)) []) (\<lambda>(events, sr).
            Inr (events, disk_of sr s)))"

text \<open>
  The messages come with those of the pool first. A wait is interrupted, fails, or brings messages;
  it goes on until one of them says that there is a block to fetch.
\<close>

datatype pub = Txpool_pub "transaction list option" pool_answer u64 | Block_pub "chain_pub option"
datatype wait = Wait_interrupted | Wait_failed | Wait_pubs "pub list"
datatype waited = Reset | Fetch | Still_waiting

fun scan_pubs :: "'t lmdb \<Rightarrow> crypto \<Rightarrow> scan_crypto \<Rightarrow> scan_options \<Rightarrow> bool \<Rightarrow> lws_account list \<Rightarrow> pub list \<Rightarrow> 't tables \<Rightarrow>
    error + webhook_tx_confirmation list \<times> pub list \<times> 't tables" where
  "scan_pubs L C X Q local users (Txpool_pub txes ask time # pubs) s =
     (if \<not> local then Inr ([], Txpool_pub txes ask time # pubs, s)
      else check (scan_transactions L C X Q ask time txes users s) (\<lambda>(events, s).
        check (scan_pubs L C X Q local users pubs s) (\<lambda>(rest, pubs, s). Inr (events @ rest, pubs, s))))"
| "scan_pubs L C X Q local users pubs s = Inr ([], pubs, s)"

fun announces_block :: "'t lmdb \<Rightarrow> bool \<Rightarrow> lws_account \<Rightarrow> 't tables \<Rightarrow> pub \<Rightarrow> bool" where
  "announces_block L local user s (Block_pub chain_msg) = is_new_block L local chain_msg user s"
| "announces_block L local user s (Txpool_pub txes ask time) = False"

fun wait_for_block :: "'t lmdb \<Rightarrow> crypto \<Rightarrow> scan_crypto \<Rightarrow> scan_options \<Rightarrow> bool \<Rightarrow> lws_account list \<Rightarrow> wait list \<Rightarrow> 't tables \<Rightarrow>
    error + waited \<times> webhook_tx_confirmation list \<times> 't tables" where
  "wait_for_block L C X Q local users [] s = Inr (Still_waiting, [], s)"
| "wait_for_block L C X Q local users (Wait_interrupted # waits) s = Inr (Reset, [], s)"
| "wait_for_block L C X Q local users (Wait_failed # waits) s = Inr (Fetch, [], s)"
| "wait_for_block L C X Q local users (Wait_pubs pubs # waits) s =
     check (scan_pubs L C X Q local users pubs s) (\<lambda>(events, pubs, s).
       if list_ex (announces_block L local (hd users) s) pubs then Inr (Fetch, events, s)
       else check (wait_for_block L C X Q local users waits s) (\<lambda>(waited, rest, s). Inr (waited, events @ rest, s)))"

section \<open>One round\<close>

datatype answer =
  Answer_timeout | Answer_interrupted | Answer_failed error | Answer_malformed | Answer fetched_blocks

datatype sent = Sent | Send_interrupted | Send_failed error

record round =
  rd_stop :: bool
  rd_answer :: answer
  rd_waits :: "wait list"
  rd_send :: sent
  rd_stopped :: "block_id \<Rightarrow> bool"

record loop_state =
  lp_users :: "lws_account list"
  lp_start_height :: u64

text \<open>What the thread shares with others: the queue and the database; and the events it has sent.\<close>

record 't shared =
  sh_queue :: queue
  sh_tables :: "'t tables"
  sh_confirmed :: "webhook_tx_confirmation list"
  sh_spent :: "webhook_tx_spend list"

datatype 't outcome = Returns bool "'t shared" | Continues loop_state "'t shared" | Waits "'t shared"

definition send_then :: "sent \<Rightarrow> 't shared \<Rightarrow> (error + 't outcome) \<Rightarrow> error + 't outcome" where
  "send_then sent W r =
     (case sent of Sent \<Rightarrow> r | Send_interrupted \<Rightarrow> Inr (Returns False W) | Send_failed e \<Rightarrow> Inl e)"

definition requested :: "status \<Rightarrow> bool" where
  "requested st \<longleftrightarrow> st_replace st \<noteq> None \<or> st_push st \<noteq> []"

definition after_batch :: "u64 \<Rightarrow> fetched_blocks \<Rightarrow> block_id" where
  "after_batch start fetched = initial_height start + of_nat (length (new_blocks start (br_blocks fetched)))"

definition loop_batch :: "'t lmdb \<Rightarrow> crypto \<Rightarrow> scan_crypto \<Rightarrow> consensus \<Rightarrow> hashing \<Rightarrow> scan_options \<Rightarrow> bool \<Rightarrow> block_id \<Rightarrow>
    (hash list \<Rightarrow> lws_account list \<Rightarrow> pow_sync list \<Rightarrow> 't tables \<Rightarrow> error + bool \<times> updated \<times> 't tables) \<Rightarrow>
    (block_id \<Rightarrow> bool) \<Rightarrow> fetched_blocks \<Rightarrow> loop_state \<Rightarrow> 't shared \<Rightarrow> error + 't outcome" where
  "loop_batch L C X K H Q local last_pow store stopped fetched st W =
     check (scan_batch L C X K H Q local last_pow stopped fetched (lp_users st) (sh_tables W)) (\<lambda>(stopped, p).
       let W = W\<lparr>sh_tables := disk_of (pr_reader p) (sh_tables W)\<rparr> in
       if stopped then Inr (Returns False W)
       else check (store (pr_chain p) (pr_users p) (pr_pow p) (sh_tables W)) (\<lambda>(ok, out, s).
         let W = W\<lparr>sh_tables := s, sh_confirmed := sh_confirmed W @ confirm_pubs out, sh_spent := sh_spent W @ spend_pubs out\<rparr> in
         if \<not> ok then Inr (Returns False W)
         else
           let users = map (\<lambda>user. updated_to user (after_batch (br_start_height fetched) fetched)) (pr_users p) in
           Inr (Continues (st\<lparr>lp_users := users\<rparr>) (W\<lparr>sh_queue := update_min_height (la_height (hd users)) (sh_queue W)\<rparr>))))"

definition loop_fetched :: "'t lmdb \<Rightarrow> crypto \<Rightarrow> scan_crypto \<Rightarrow> consensus \<Rightarrow> hashing \<Rightarrow> scan_options \<Rightarrow> bool \<Rightarrow> block_id \<Rightarrow>
    (hash list \<Rightarrow> lws_account list \<Rightarrow> pow_sync list \<Rightarrow> 't tables \<Rightarrow> error + bool \<times> updated \<times> 't tables) \<Rightarrow>
    round \<Rightarrow> fetched_blocks \<Rightarrow> loop_state \<Rightarrow> 't shared \<Rightarrow> error + 't outcome" where
  "loop_fetched L C X K H Q local last_pow store inp fetched st W =
     (if br_blocks fetched = [] then Inl Runtime_error
      else if br_start_height fetched \<noteq> lp_start_height st then Inr (Returns False W)
      else
        let (status, q) = do_get_accounts (sh_queue W); W = W\<lparr>sh_queue := q\<rparr> in
        if st_replace status = Some [] \<and> st_push status = [] then Inr (Returns True W)
        else
          let users = (if requested status then sort_key la_height (take_accounts status (lp_users st)) else lp_users st);
              st = st\<lparr>lp_users := users\<rparr> in
          if requested status \<and> la_height (hd users) < br_start_height fetched
          then send_then (rd_send inp) W (Inr (Continues (st\<lparr>lp_start_height := la_height (hd users)\<rparr>) W))
          else
            let st = st\<lparr>lp_start_height := br_start_height fetched + of_nat (length (br_blocks fetched)) - 1\<rparr> in
            if length (br_blocks fetched) \<le> 1 then
              check (wait_for_block L C X Q local users (rd_waits inp) (sh_tables W)) (\<lambda>(waited, events, s).
                let W = W\<lparr>sh_tables := s, sh_confirmed := sh_confirmed W @ events\<rparr> in
                case waited of
                  Reset \<Rightarrow> Inr (Returns False W)
                | Still_waiting \<Rightarrow> Inr (Waits W)
                | Fetch \<Rightarrow> send_then (rd_send inp) W (Inr (Continues st W)))
            else send_then (rd_send inp) W
              (loop_batch L C X K H Q local last_pow store (rd_stopped inp) fetched st W))"

definition loop_round :: "'t lmdb \<Rightarrow> crypto \<Rightarrow> scan_crypto \<Rightarrow> consensus \<Rightarrow> hashing \<Rightarrow> scan_options \<Rightarrow> bool \<Rightarrow> block_id \<Rightarrow>
    (hash list \<Rightarrow> lws_account list \<Rightarrow> pow_sync list \<Rightarrow> 't tables \<Rightarrow> error + bool \<times> updated \<times> 't tables) \<Rightarrow>
    round \<Rightarrow> loop_state \<Rightarrow> 't shared \<Rightarrow> error + 't outcome" where
  "loop_round L C X K H Q local last_pow store inp st W =
     (if rd_stop inp then Inr (Returns False W)
      else case rd_answer inp of
        Answer_timeout \<Rightarrow> Inr (Returns False W)
      | Answer_interrupted \<Rightarrow> Inr (Returns False W)
      | Answer_failed e \<Rightarrow> Inl e
      | Answer_malformed \<Rightarrow> Inr (Returns False W)
      | Answer fetched \<Rightarrow> loop_fetched L C X K H Q local last_pow store inp fetched st W)"

text \<open>What the loop starts with; the value is \<open>None\<close> when there is nothing to scan.\<close>

definition loop_start :: "'t lmdb \<Rightarrow> scan_options \<Rightarrow> bool \<Rightarrow> lws_account list \<Rightarrow> 't tables \<Rightarrow> error + (loop_state \<times> block_id) option" where
  "loop_start L Q local users s =
     (if users = [] then Inr None
      else
        let users = sort_key la_height users in
        check (if so_untrusted_daemon Q \<and> local then check (get_last_pow_block L s) (\<lambda>b. Inr (bp_id b)) else Inr 0) (\<lambda>last_pow.
          Inr (Some (\<lparr>lp_users = users, lp_start_height = max 1 (la_height (hd users))\<rparr>, last_pow))))"

section \<open>What a batch is\<close>

text \<open>The transactions of a batch in the order they are scanned, each with its place in the chain.\<close>

record scan_item =
  it_height :: block_id
  it_timestamp :: u64
  it_hash :: hash
  it_tx :: transaction
  it_out_ids :: "u64 list"

definition block_items :: "hashing \<Rightarrow> block_id \<Rightarrow> chain_block \<Rightarrow> u64 list list \<Rightarrow> scan_item list" where
  "block_items H height block indices =
     \<lparr>it_height = height, it_timestamp = bk_timestamp block, it_hash = the (miner_hash H (bk_miner_tx block)),
      it_tx = bk_miner_tx block, it_out_ids = hd indices\<rparr> #
     map (\<lambda>(h, tx, ids). \<lparr>it_height = height, it_timestamp = bk_timestamp block, it_hash = h, it_tx = tx, it_out_ids = ids\<rparr>)
       (zip (bk_tx_hashes block) (zip (bk_transactions block) (tl indices)))"

fun batch_items :: "hashing \<Rightarrow> block_id \<Rightarrow> (chain_block \<times> u64 list list) list \<Rightarrow> scan_item list" where
  "batch_items H height [] = []"
| "batch_items H height ((block, indices) # blocks) =
     block_items H (height + 1) block indices @ batch_items H (height + 1) blocks"

fun scan_items :: "'t lmdb \<Rightarrow> crypto \<Rightarrow> scan_crypto \<Rightarrow> scan_item list \<Rightarrow> lws_account list \<Rightarrow> 't subaddress_reader \<Rightarrow>
    error + lws_account list \<times> 't subaddress_reader" where
  "scan_items L C X [] users sr = Inr (users, sr)"
| "scan_items L C X (item # items) users sr =
     check (scan_transaction L C X users (it_height item) (it_timestamp item) (it_hash item) (it_tx item) (it_out_ids item) sr)
       (\<lambda>(users, sr). scan_items L C X items users sr)"

lemma scan_items_append: "scan_items L C X (xs @ ys) users sr =
    check (scan_items L C X xs users sr) (\<lambda>(users, sr). scan_items L C X ys users sr)"
  by (induction xs arbitrary: users sr) (auto simp: check_def split: sum.splits)

lemma scan_txs_items:
  "scan_txs L C X H untrusted height timestamp txs users sr = Inr r \<Longrightarrow>
     scan_items L C X (map (\<lambda>(h, tx, ids). \<lparr>it_height = height, it_timestamp = timestamp, it_hash = h, it_tx = tx, it_out_ids = ids\<rparr>) txs)
       users sr = Inr r"
proof (induction txs arbitrary: users sr)
  case (Cons t txs)
  then show ?case by (cases t) (auto simp: check_Inr_iff)
qed simp

lemma scan_block_run:
  assumes "scan_block L C X K H Q R s height block indices p = Inr (False, p')"
  shows "scan_items L C X (block_items H height block indices) (pr_users p) (pr_reader p) = Inr (pr_users p', pr_reader p') \<and>
    (\<exists>h. header_hash H block = Inr h \<and> pr_chain p' = pr_chain p @ [h])"
proof -
  obtain h where h: "miner_hash H (bk_miner_tx block) = Some h" "indices \<noteq> []"
    using assms by (cases "miner_hash H (bk_miner_tx block)") (auto simp: scan_block_def split: if_splits)
  with assms obtain users sr judged where first: "scan_transaction L C X (pr_users p) height (bk_timestamp block) h (bk_miner_tx block)
      (hd indices) (pr_reader p) = Inr (users, sr)"
    and judged: "(if so_untrusted_daemon Q then judge_block K L R s height block (pr_chain p) (pr_window p)
      else Inr (Some (0, pr_window p))) = Inr judged"
    by (auto simp: scan_block_def check_Inr_iff Let_def split: if_splits)
  with assms h obtain users' sr' k where rest: "scan_txs L C X H (so_untrusted_daemon Q) height (bk_timestamp block)
      (zip (bk_tx_hashes block) (zip (bk_transactions block) (tl indices))) users sr = Inr (users', sr')"
    and p': "header_hash H block = Inr k" "pr_chain p' = pr_chain p @ [k]" "pr_users p' = users'" "pr_reader p' = sr'"
    by (cases judged) (auto simp: scan_block_def check_Inr_iff Let_def split: if_splits)
  show ?thesis using h first scan_txs_items[OF rest] p' by (simp add: block_items_def)
qed

lemma scan_blocks_run:
  "scan_blocks L C X K H Q R s height blocks p = Inr (False, p') \<Longrightarrow>
     scan_items L C X (batch_items H height blocks) (pr_users p) (pr_reader p) = Inr (pr_users p', pr_reader p') \<and>
     (\<exists>hs. map (header_hash H \<circ> fst) blocks = map Inr hs \<and> pr_chain p' = pr_chain p @ hs)"
proof (induction blocks arbitrary: height p)
  case (Cons b blocks)
  obtain block indices where b: "b = (block, indices)" by force
  with Cons.prems obtain p1 where p1: "scan_block L C X K H Q R s (height + 1) block indices p = Inr (False, p1)"
    "scan_blocks L C X K H Q R s (height + 1) blocks p1 = Inr (False, p')"
    by (auto simp: check_Inr_iff split: if_splits)
  from scan_block_run[OF p1(1)] obtain h where h: "header_hash H block = Inr h" "pr_chain p1 = pr_chain p @ [h]"
    "scan_items L C X (block_items H (height + 1) block indices) (pr_users p) (pr_reader p) = Inr (pr_users p1, pr_reader p1)" by blast
  from Cons.IH[OF p1(2)] obtain hs where hs: "map (header_hash H \<circ> fst) blocks = map Inr hs" "pr_chain p' = pr_chain p1 @ hs"
    "scan_items L C X (batch_items H (height + 1) blocks) (pr_users p1) (pr_reader p1) = Inr (pr_users p', pr_reader p')" by blast
  show ?case using h hs by (auto simp: b scan_items_append comp_def intro!: exI[of _ "h # hs"])
qed simp

lemma scan_block_linked:
  assumes "scan_block L C X K H Q R s height block indices p = Inr r" and "so_untrusted_daemon Q"
  shows "bk_prev_id block = last (pr_chain p)"
proof (rule ccontr)
  assume "bk_prev_id block \<noteq> last (pr_chain p)"
  with assms show False by (auto simp: scan_block_def judge_block_def check_Inr_iff Let_def split: if_splits option.splits)
qed

section \<open>What a batch finds\<close>

text \<open>An account after part of a batch: the same one, with more outputs, all of whose keys it knows.\<close>

definition scanned :: "lws_account \<Rightarrow> lws_account \<Rightarrow> bool" where
  "scanned user user' \<longleftrightarrow> account_ok user' \<and> la_immutable user' = la_immutable user \<and> la_height user' = la_height user \<and>
     (\<exists>new. la_outputs user' = la_outputs user @ new \<and> set (la_pubs user') = set (la_pubs user) \<union> o_pub ` set new)"

lemma scanned_refl: "account_ok user \<Longrightarrow> scanned user user"
  by (simp add: scanned_def)

lemma scanned_trans: "scanned user user1 \<Longrightarrow> scanned user1 user2 \<Longrightarrow> scanned user user2"
  by (auto simp: scanned_def)

lemma scanned_plainly: "plainly_scanned X T user user' \<Longrightarrow> account_ok user \<Longrightarrow> scanned user user'"
  by (auto simp: plainly_scanned_def scanned_def grows_def split: option.splits)

definition receives :: "scan_crypto \<Rightarrow> scan_item list \<Rightarrow> lws_account \<Rightarrow> public_key \<Rightarrow> bool" where
  "receives X items user p \<longleftrightarrow> (\<exists>item \<in> set items. \<exists>derived im i amount blind.
     tried X (it_height item) (it_tx item) user = Some derived \<and> la_immutable user = Some im \<and>
     pays X (it_tx item) derived (spend_public (im_pubs im)) i p amount blind)"

lemma tried_scanned: "scanned user user' \<Longrightarrow> tried X height tx user' = tried X height tx user"
  unfolding scanned_def tried_def by (elim conjE) (simp only:)

lemma receives_scanned: "scanned user user' \<Longrightarrow> receives X items user' p = receives X items user p"
  by (simp add: receives_def tried_scanned) (simp add: scanned_def)

lemma scan_items_finds:
  assumes "sr_reader sr = None" and "list_all account_ok users"
  shows "scan_items L C X items users sr = Inr (users', sr') \<Longrightarrow>
    sr' = sr \<and> list_all2 (\<lambda>user user'. scanned user user' \<and> (\<forall>p. receives X items user p \<longrightarrow> p \<in> set (la_pubs user'))) users users'"
  using assms(2)
proof (induction items arbitrary: users)
  case Nil
  then show ?case by (auto simp: list_all2_same receives_def list_all_iff intro: scanned_refl)
next
  case (Cons item items)
  let ?T = "\<lambda>key. seen_tx X (it_height item) (it_timestamp item) (it_hash item) (it_tx item) (it_out_ids item) key sr"
  from Cons.prems(1) obtain users1 sr1 where t: "scan_transaction L C X users (it_height item) (it_timestamp item) (it_hash item)
      (it_tx item) (it_out_ids item) sr = Inr (users1, sr1)" "scan_items L C X items users1 sr1 = Inr (users', sr')"
    by (auto simp: check_Inr_iff)
  from scan_transaction_plain[OF t(1) assms(1)] obtain key where sr1: "sr1 = sr"
    and first: "list_all2 (\<lambda>user user1. account_ok user \<longrightarrow> plainly_scanned X (?T key) user user1) users users1" by blast
  have ok1: "list_all account_ok users1"
    using first Cons.prems(2) scanned_plainly by (force simp: list_all2_conv_all_nth list_all_length scanned_def)
  note rest = Cons.IH[OF t(2)[unfolded sr1] ok1]
  have both: "scanned user user' \<and> (\<forall>p. receives X (item # items) user p \<longrightarrow> p \<in> set (la_pubs user'))"
    if ok: "account_ok user" and step: "plainly_scanned X (?T key) user user1" and more: "scanned user1 user'"
      and found: "\<forall>p. receives X items user1 p \<longrightarrow> p \<in> set (la_pubs user')" for user user1 user'
  proof -
    note one = scanned_plainly[OF step ok]
    have "p \<in> set (la_pubs user')" if "receives X [item] user p" for p
    proof -
      from that obtain derived im i amount blind where t: "tried X (it_height item) (it_tx item) user = Some derived"
        and im: "la_immutable user = Some im" and pays: "pays X (it_tx item) derived (spend_public (im_pubs im)) i p amount blind"
        by (auto simp: receives_def)
      then have "p \<in> set (la_pubs user1)" using step by (auto simp: plainly_scanned_def simp del: all_simps ex_simps)
      then show ?thesis using more by (auto simp: scanned_def)
    qed
    then show ?thesis using scanned_trans[OF one more] found receives_scanned[OF one] by (auto simp: receives_def)
  qed
  show ?case unfolding list_all2_conv_all_nth
  proof (intro conjI allI impI)
    show "sr' = sr" "length users = length users'" using rest first by (auto simp: list_all2_conv_all_nth)
    fix i assume "i < length users"
    then have "account_ok (users ! i)" "plainly_scanned X (?T key) (users ! i) (users1 ! i)" "scanned (users1 ! i) (users' ! i)"
      "\<forall>p. receives X items (users1 ! i) p \<longrightarrow> p \<in> set (la_pubs (users' ! i))"
      using rest first Cons.prems(2) by (auto simp: list_all2_conv_all_nth list_all_length)
    note done1 = both[OF this]
    then show "scanned (users ! i) (users' ! i)" by (rule conjunct1)
    fix p assume "receives X (item # items) (users ! i) p"
    with done1 show "p \<in> set (la_pubs (users' ! i))" by blast
  qed
qed

text \<open>Whatever the subaddresses, scanning keeps who the account is and how far it was scanned.\<close>

lemma scan_transaction_scanned:
  assumes "scan_transaction L C X users height timestamp tx_hash tx out_ids sr = Inr (users', sr')" and "list_all account_ok users"
  shows "list_all2 scanned users users'"
proof -
  have "list_all2 (\<lambda>user user'. account_ok user \<longrightarrow> scanned user user') users users'"
  proof (rule scan_transaction_all2[where I = "\<lambda>additional pid sr1. True", OF assms(1)])
    fix key user im derived additional pid sr1 ext mixin user1 pid2 user2 sr2
    let ?T = "seen_tx X height timestamp tx_hash tx out_ids key sr"
    have "scanned user user2" if ok: "account_ok user"
      and ins: "scan_inputs ?T add_account_spend pid (tx_vin tx) 0 0 user = Inr (ext, mixin, user1)"
      and outs: "scan_outputs L C X ?T (\<lambda>sr. add_account_out) derived additional1 mixin 0 (tx_vout tx) ext pid user1 sr1 = Inr (pid2, user2, sr2)"
      for additional1
    proof -
      have "account_ok user1" using ok scan_inputs_spends[OF ins] by (simp add: account_ok_def)
      from scan_outputs_grows[OF outs this] obtain new where "grows user1 user2 new" by blast
      then show ?thesis using scan_inputs_spends[OF ins] by (auto simp: grows_def scanned_def)
    qed
    then show "let T = ?T; additional1 = additional_derivations X T (im_view_key im) sr1 additional in
      find_pub_key X (tx_extra tx) = Some key \<longrightarrow> True \<longrightarrow> tried X height tx user = Some derived \<longrightarrow> la_immutable user = Some im \<longrightarrow>
      scan_inputs T add_account_spend pid (tx_vin tx) 0 0 user = Inr (ext, mixin, user1) \<longrightarrow>
      scan_outputs L C X T (\<lambda>sr. add_account_out) derived additional1 mixin 0 (tx_vout tx) ext pid user1 sr1 = Inr (pid2, user2, sr2) \<longrightarrow>
      (account_ok user \<longrightarrow> scanned user user2) \<and> True"
      unfolding Let_def by blast
  qed (simp_all add: scanned_refl)
  with assms(2) show ?thesis by (simp add: list_all2_conv_all_nth list_all_length)
qed

lemma list_all2_scanned_ok: "list_all2 scanned users users' \<Longrightarrow> list_all account_ok users'"
  by (auto simp: list_all2_conv_all_nth list_all_length scanned_def)

lemma scan_items_scanned:
  "scan_items L C X items users sr = Inr (users', sr') \<Longrightarrow> list_all account_ok users \<Longrightarrow> list_all2 scanned users users'"
proof (induction items arbitrary: users sr)
  case Nil
  then show ?case by (auto simp: list_all2_same list_all_iff intro: scanned_refl)
next
  case (Cons item items)
  from Cons.prems(1) obtain users1 sr1 where t: "scan_transaction L C X users (it_height item) (it_timestamp item) (it_hash item)
      (it_tx item) (it_out_ids item) sr = Inr (users1, sr1)" "scan_items L C X items users1 sr1 = Inr (users', sr')"
    by (auto simp: check_Inr_iff)
  from scan_transaction_scanned[OF t(1) Cons.prems(2)] have one: "list_all2 scanned users users1" .
  from Cons.IH[OF t(2) list_all2_scanned_ok[OF one]] have "list_all2 scanned users1 users'" .
  with one show ?case by (rule list_all2_trans[rotated]) (rule scanned_trans)
qed

lemma scanned_users:
  assumes "list_all2 scanned users users'"
  shows "map la_height users' = map la_height users" "map lws_account_id users' = map lws_account_id users"
    "map db_address users' = map db_address users" "users' = [] \<longleftrightarrow> users = []"
  using assms by (auto simp: list_all2_conv_all_nth scanned_def lws_account_id_def db_address_def null_check_def intro!: nth_equalityI)

section \<open>What a round does\<close>

text \<open>The accounts of the thread with those that the queue brings.\<close>

definition joined :: "loop_state \<Rightarrow> queue \<Rightarrow> lws_account list" where
  "joined st q =
     (let status = fst (do_get_accounts q) in
      if requested status then sort_key la_height (take_accounts status (lp_users st)) else lp_users st)"

definition batch_of :: "hashing \<Rightarrow> fetched_blocks \<Rightarrow> scan_item list" where
  "batch_of H fetched =
     (let start = br_start_height fetched in
      batch_items H (initial_height start) (zip (new_blocks start (br_blocks fetched)) (new_blocks start (br_output_indices fetched))))"

lemma scan_batch_run:
  assumes "scan_batch L C X K H Q local last_pow stopped fetched users s = Inr (False, p)"
  shows "scan_items L C X (batch_of H fetched) users (subaddress_reader_of (if local then Some s else None) (so_max_subaddresses Q)) =
      Inr (pr_users p, pr_reader p) \<and>
    (\<exists>hs. map (header_hash H) (hd (br_blocks fetched) # new_blocks (br_start_height fetched) (br_blocks fetched)) = map Inr hs \<and>
       pr_chain p = hs)"
proof -
  let ?start = "br_start_height fetched"
  let ?blocks = "zip (new_blocks ?start (br_blocks fetched)) (new_blocks ?start (br_output_indices fetched))"
  from assms obtain h w R pow where len: "length (br_blocks fetched) = length (br_output_indices fetched)"
    and h: "header_hash H (hd (br_blocks fetched)) = Inr h"
    and run: "scan_blocks L C X K H Q R s (initial_height ?start) ?blocks
      \<lparr>pr_chain = [h], pr_pow = pow, pr_window = w, pr_users = users,
       pr_reader = subaddress_reader_of (if local then Some s else None) (so_max_subaddresses Q)\<rparr> = Inr (False, p)"
    by (auto simp: scan_batch_def check_Inr_iff Let_def split: if_splits)
  have "map fst ?blocks = new_blocks ?start (br_blocks fetched)" using len by (simp add: new_blocks_def)
  then have "map (header_hash H \<circ> fst) ?blocks = map (header_hash H) (new_blocks ?start (br_blocks fetched))" by (metis map_map)
  with scan_blocks_run[OF run] h show ?thesis by (auto simp: batch_of_def Let_def intro!: exI[of _ "h # _"])
qed

lemma loop_batch_run:
  assumes "loop_batch L C X K H Q local last_pow store stopped fetched st W = Inr (Continues st' W')"
  obtains p out where "scan_batch L C X K H Q local last_pow stopped fetched (lp_users st) (sh_tables W) = Inr (False, p)"
    "store (pr_chain p) (pr_users p) (pr_pow p) (disk_of (pr_reader p) (sh_tables W)) = Inr (True, out, sh_tables W')"
    "st' = st\<lparr>lp_users := map (\<lambda>user. updated_to user (after_batch (br_start_height fetched) fetched)) (pr_users p)\<rparr>"
proof -
  from assms obtain stp p where p: "scan_batch L C X K H Q local last_pow stopped fetched (lp_users st) (sh_tables W) = Inr (stp, p)"
    by (auto simp: loop_batch_def check_Inr_iff)
  with assms have "\<not> stp" by (auto simp: loop_batch_def Let_def)
  with p assms obtain ok out s where s: "store (pr_chain p) (pr_users p) (pr_pow p) (disk_of (pr_reader p) (sh_tables W)) = Inr (ok, out, s)"
    by (auto simp: loop_batch_def Let_def check_Inr_iff)
  with assms p \<open>\<not> stp\<close> have ok: "ok" by (auto simp: loop_batch_def Let_def split: if_splits)
  have "st' = st\<lparr>lp_users := map (\<lambda>user. updated_to user (after_batch (br_start_height fetched) fetched)) (pr_users p)\<rparr>"
    "sh_tables W' = s"
    using assms p s ok \<open>\<not> stp\<close> by (auto simp: loop_batch_def Let_def)
  with p s ok \<open>\<not> stp\<close> show thesis by (intro that) simp_all
qed

text \<open>A round that scans: there is more than the overlapping block, and nobody is further behind.\<close>

definition scans :: "round \<Rightarrow> fetched_blocks \<Rightarrow> loop_state \<Rightarrow> queue \<Rightarrow> bool" where
  "scans inp fetched st q \<longleftrightarrow> rd_answer inp = Answer fetched \<and> 2 \<le> length (br_blocks fetched) \<and>
     (requested (fst (do_get_accounts q)) \<longrightarrow> br_start_height fetched \<le> la_height (hd (joined st q)))"

lemma loop_round_run:
  assumes run: "loop_round L C X K H Q local last_pow store inp st W = Inr (Continues st' W')"
    and scans: "scans inp fetched st (sh_queue W)"
  obtains p out where
    "scan_batch L C X K H Q local last_pow (rd_stopped inp) fetched (joined st (sh_queue W)) (sh_tables W) = Inr (False, p)"
    "br_start_height fetched = lp_start_height st"
    "store (pr_chain p) (pr_users p) (pr_pow p) (disk_of (pr_reader p) (sh_tables W)) = Inr (True, out, sh_tables W')"
    "st' = \<lparr>lp_users = map (\<lambda>user. updated_to user (after_batch (br_start_height fetched) fetched)) (pr_users p),
       lp_start_height = br_start_height fetched + of_nat (length (br_blocks fetched)) - 1\<rparr>"
proof -
  obtain status q where q: "do_get_accounts (sh_queue W) = (status, q)" by force
  have answer: "rd_answer inp = Answer fetched" and more: "\<not> length (br_blocks fetched) \<le> 1"
    and behind: "\<not> (requested status \<and> la_height (hd (joined st (sh_queue W))) < br_start_height fetched)"
    using scans q by (auto simp: scans_def)
  let ?st = "st\<lparr>lp_users := joined st (sh_queue W), lp_start_height := br_start_height fetched + of_nat (length (br_blocks fetched)) - 1\<rparr>"
  have fetched: "loop_fetched L C X K H Q local last_pow store inp fetched st W = Inr (Continues st' W')"
    using run answer by (simp add: loop_round_def split: if_splits)
  have users: "(if requested status then sort_key la_height (take_accounts status (lp_users st)) else lp_users st) = joined st (sh_queue W)"
    by (simp add: joined_def q)
  have start: "br_blocks fetched \<noteq> []" "br_start_height fetched = lp_start_height st"
    using fetched by (auto simp: loop_fetched_def split: if_splits)
  then have same: "\<not> br_start_height fetched \<noteq> lp_start_height st" by simp
  have work: "\<not> (st_replace status = Some [] \<and> st_push status = [])"
    using fetched start by (auto simp: loop_fetched_def q)
  from fetched have "send_then (rd_send inp) (W\<lparr>sh_queue := q\<rparr>) (loop_batch L C X K H Q local last_pow store (rd_stopped inp) fetched ?st (W\<lparr>sh_queue := q\<rparr>)) =
      Inr (Continues st' W')"
    unfolding loop_fetched_def q Let_def prod.case users if_not_P[OF work] if_not_P[OF behind] if_not_P[OF more]
      if_not_P[OF start(1)] if_not_P[OF same] .
  then have "loop_batch L C X K H Q local last_pow store (rd_stopped inp) fetched ?st (W\<lparr>sh_queue := q\<rparr>) = Inr (Continues st' W')"
    by (auto simp: send_then_def split: sent.splits)
  then obtain p out where
    "scan_batch L C X K H Q local last_pow (rd_stopped inp) fetched (joined st (sh_queue W)) (sh_tables W) = Inr (False, p)"
    "store (pr_chain p) (pr_users p) (pr_pow p) (disk_of (pr_reader p) (sh_tables W)) = Inr (True, out, sh_tables W')"
    "st' = ?st\<lparr>lp_users := map (\<lambda>user. updated_to user (after_batch (br_start_height fetched) fetched)) (pr_users p)\<rparr>"
    by (rule loop_batch_run) simp
  then show thesis using start(2) by (cases st) (intro that, simp_all)
qed

lemma send_then_Continues:
  "send_then sent W r = Inr (Continues st' W') \<longleftrightarrow> sent = Sent \<and> r = Inr (Continues st' W')"
  by (cases sent) (simp_all add: send_then_def)

lemma waited_Continues:
  "(case waited of Reset \<Rightarrow> Inr (Returns False W) | Fetch \<Rightarrow> send_then sent W (Inr (Continues st W)) | Still_waiting \<Rightarrow> Inr (Waits W)) =
     Inr (Continues st' W') \<longleftrightarrow> waited = Fetch \<and> sent = Sent \<and> st' = st \<and> W' = W"
  by (cases waited) (auto simp: send_then_Continues)

text \<open>The other ways a round goes on: to blocks further back, or to news at the top of the chain.\<close>

lemma loop_round_cases:
  assumes run: "loop_round L C X K H Q local last_pow store inp st W = Inr (Continues st' W')"
    and answer: "rd_answer inp = Answer fetched"
  obtains (further) "requested (fst (do_get_accounts (sh_queue W)))" "la_height (hd (joined st (sh_queue W))) < lp_start_height st"
      "st' = \<lparr>lp_users = joined st (sh_queue W), lp_start_height = la_height (hd (joined st (sh_queue W)))\<rparr>"
  | (news) "requested (fst (do_get_accounts (sh_queue W))) \<longrightarrow> lp_start_height st \<le> la_height (hd (joined st (sh_queue W)))"
      "st' = \<lparr>lp_users = joined st (sh_queue W), lp_start_height = lp_start_height st\<rparr>"
  | (scan) "scans inp fetched st (sh_queue W)"
proof -
  obtain status q where q: "do_get_accounts (sh_queue W) = (status, q)" by force
  have users: "(if requested status then sort_key la_height (take_accounts status (lp_users st)) else lp_users st) = joined st (sh_queue W)"
    by (simp add: joined_def q)
  have run1: "loop_fetched L C X K H Q local last_pow store inp fetched st W = Inr (Continues st' W')"
    using run answer by (simp add: loop_round_def split: if_splits)
  have start: "br_blocks fetched \<noteq> []" "br_start_height fetched = lp_start_height st"
    "\<not> (st_replace status = Some [] \<and> st_push status = [])"
    using run1 by (auto simp: loop_fetched_def q split: if_splits)
  show thesis
  proof (cases "requested status \<and> la_height (hd (joined st (sh_queue W))) < lp_start_height st")
    case True
    then have "st' = \<lparr>lp_users = joined st (sh_queue W), lp_start_height = la_height (hd (joined st (sh_queue W)))\<rparr>"
      using run1 start unfolding loop_fetched_def q Let_def prod.case users if_not_P[OF start(3)]
      by (cases st) (auto simp: send_then_Continues)
    with True show thesis by (intro further) (simp_all add: q)
  next
    case behind: False
    show thesis
    proof (cases "length (br_blocks fetched) \<le> 1")
      case True
      with start(1) have "length (br_blocks fetched) = 1" by (cases "br_blocks fetched") auto
      then have "st' = \<lparr>lp_users = joined st (sh_queue W), lp_start_height = lp_start_height st\<rparr>"
        using run1 start behind unfolding loop_fetched_def q Let_def prod.case users if_not_P[OF start(3)]
        by (cases st) (auto simp: check_Inr_iff waited_Continues)
      with behind show thesis by (intro news) (simp_all add: q not_less)
    next
      case False
      with behind start(2) answer show thesis by (intro scan) (auto simp: scans_def q not_less)
    qed
  qed
qed

lemma joined_sorted: "sorted (map la_height (lp_users st)) \<Longrightarrow> sorted (map la_height (joined st q))"
  by (simp add: joined_def Let_def)

lemma joined_not_Nil: "lp_users st \<noteq> [] \<Longrightarrow> q_replace q \<noteq> Some [] \<Longrightarrow> joined st q \<noteq> []"
  by (auto simp: joined_def Let_def take_accounts_def do_get_accounts_def dest!: arg_cong[of "sort_key _ _" _ set] split: option.splits)

lemma store_users_run:
  assumes "store_users L cp chain users pow s = Inr (True, out, s')" and "users \<noteq> []"
  shows "update L cp (la_height (hd users)) chain users pow s = Inr (out, s')" "sorted (map la_height users)"
  using assms by (auto simp: store_users_def split: if_splits sum.splits)

lemma advanced_scanned:
  assumes "list_all2 scanned users users'"
  shows "advance lst users' = advance lst users" "list_all2 (\<lambda>u u'. advanced lst [u'] a = advanced lst [u] a) users users'"
    "users_match L users s \<Longrightarrow> users_match L users' s"
proof -
  have pairs: "map (\<lambda>u. (lws_account_id u, la_height u, db_address u)) users' = map (\<lambda>u. (lws_account_id u, la_height u, db_address u)) users"
    using assms by (auto simp: list_all2_conv_all_nth scanned_def lws_account_id_def db_address_def null_check_def intro!: nth_equalityI)
  have sets: "(\<lambda>u. (lws_account_id u, la_height u, db_address u)) ` set users' = (\<lambda>u. (lws_account_id u, la_height u, db_address u)) ` set users"
    using arg_cong[OF pairs, of set] by simp
  have adv: "advanced lst us b \<longleftrightarrow> (\<exists>x \<in> (\<lambda>u. (lws_account_id u, la_height u, db_address u)) ` set us.
      fst x = a_id b \<and> fst (snd x) \<le> a_scan_height b \<and> a_scan_height b < lst)" for us b
    by (auto simp: advanced_def)
  have "advanced lst users' = advanced lst users" by (intro ext) (simp only: adv sets)
  then show "advance lst users' = advance lst users" by (simp add: advance_def fun_eq_iff)
  have match: "users_match L us s \<longleftrightarrow> (\<forall>x \<in> (\<lambda>u. (lws_account_id u, la_height u, db_address u)) ` set us.
      \<forall>p \<in> acct_set L s. a_id (snd p) = fst x \<longrightarrow> snd (snd x) = Inr (a_address (snd p)))" for us
    by (simp add: users_match_def del: acct_set_iff)
  show "users_match L users s \<Longrightarrow> users_match L users' s" by (simp only: match sets)
  show "list_all2 (\<lambda>u u'. advanced lst [u'] a = advanced lst [u] a) users users'"
    using assms by (auto simp: list_all2_conv_all_nth scanned_def advanced_def lws_account_id_def)
qed

text \<open>
  A round that scans without subaddresses: what is found for every account, and the update that
  stores it.
\<close>

lemma round_updates:
  assumes run: "loop_round L C X K H Q local last_pow (store_users L cp) inp st W = Inr (Continues st' W')"
    and scans: "scans inp fetched st (sh_queue W)"
    and users: "joined st (sh_queue W) = users" "users \<noteq> []" "list_all account_ok users"
    and plain: "so_max_subaddresses Q = 0"
  obtains users' chain pow out where
    "list_all2 (\<lambda>user user'. scanned user user' \<and> (\<forall>key. receives X (batch_of H fetched) user key \<longrightarrow> key \<in> set (la_pubs user'))) users users'"
    "update L cp (la_height (hd users)) chain users' pow (sh_tables W) = Inr (out, sh_tables W')"
    "length chain = Suc (length (new_blocks (br_start_height fetched) (br_blocks fetched)))"
    "br_start_height fetched = lp_start_height st"
proof -
  from loop_round_run[OF run scans] obtain p out where
    b: "scan_batch L C X K H Q local last_pow (rd_stopped inp) fetched users (sh_tables W) = Inr (False, p)"
    and start: "br_start_height fetched = lp_start_height st"
    and st: "store_users L cp (pr_chain p) (pr_users p) (pr_pow p) (disk_of (pr_reader p) (sh_tables W)) = Inr (True, out, sh_tables W')"
    unfolding users(1) by metis
  define sr where "sr = subaddress_reader_of (if local then Some (sh_tables W) else None) 0"
  have reader: "sr_reader sr = None" "disk_of sr (sh_tables W) = sh_tables W"
    by (simp_all add: sr_def subaddress_reader_of_def disk_of_def)
  from scan_batch_run[OF b, unfolded plain, folded sr_def]
  have items: "scan_items L C X (batch_of H fetched) users sr = Inr (pr_users p, pr_reader p)"
    and len: "length (pr_chain p) = Suc (length (new_blocks (br_start_height fetched) (br_blocks fetched)))"
    by (auto dest: arg_cong[of "map _ _" _ length])
  from scan_items_finds[OF reader(1) users(3) items]
  have found: "list_all2 (\<lambda>user user'. scanned user user' \<and> (\<forall>key. receives X (batch_of H fetched) user key \<longrightarrow> key \<in> set (la_pubs user'))) users (pr_users p)"
    and same: "pr_reader p = sr" by simp_all
  have sc: "list_all2 scanned users (pr_users p)" using found by (rule list_all2_mono) simp
  note us = scanned_users[OF sc]
  have ne: "pr_users p \<noteq> []" using us(4) users(2) by simp
  have "la_height (hd (pr_users p)) = la_height (hd users)" using us(1) ne users(2) by (metis hd_map)
  then have "update L cp (la_height (hd users)) (pr_chain p) (pr_users p) (pr_pow p) (sh_tables W) = Inr (out, sh_tables W')"
    using store_users_run(1)[OF st ne] by (simp add: same reader(2))
  from that[OF found this len start] show thesis .
qed

section \<open>Properties\<close>

text \<open>
  The thread is where its accounts are: its next request is for the blocks after the height of the
  account that is the furthest behind.
\<close>

definition aligned :: "loop_state \<Rightarrow> bool" where
  "aligned st \<longleftrightarrow> lp_users st \<noteq> [] \<and> sorted (map la_height (lp_users st)) \<and> lp_start_height st \<noteq> 0 \<and>
     la_height (hd (lp_users st)) = initial_height (lp_start_height st)"

lemma stored_height: "of_nat (length chain) - (1 :: u64) = of_nat n" if "length chain = Suc n"
  using that by simp

text \<open>A thread at height 3 with one account, and an answer with one new block that pays to it.\<close>

definition demo_hashing :: hashing where
  "demo_hashing = \<lparr>miner_hash = (\<lambda>tx. Some 90), full_hash = (\<lambda>tx. Inr 104),
     header_hash = (\<lambda>block. Inr (if bk_timestamp block = 1003 then 503 else 777))\<rparr>"

definition demo_miner_tx :: transaction where
  "demo_miner_tx = \<lparr>tx_version = 2, tx_unlock_time = 60, tx_vin = [Txin_gen], tx_vout = [], tx_extra = [], tx_rct_type = 0,
     tx_out_pk = [], tx_ecdh_info = []\<rparr>"

definition demo_full_block :: "u64 \<Rightarrow> hash \<Rightarrow> (hash \<times> transaction) list \<Rightarrow> chain_block" where
  "demo_full_block stamp prev txs = \<lparr>bk_prev_id = prev, bk_timestamp = stamp, bk_major_version = 16, bk_miner_tx = demo_miner_tx,
     bk_tx_hashes = map fst txs, bk_transactions = map snd txs\<rparr>"

definition demo_fetched :: "u64 \<Rightarrow> fetched_blocks" where
  "demo_fetched start = \<lparr>br_blocks = [demo_full_block 1003 502 [], demo_full_block 1004 503 [(104, demo_tx)]],
     br_start_height = start, br_output_indices = [[[]], [[], [40, 41]]]\<rparr>"

definition demo_round :: "u64 \<Rightarrow> round" where
  "demo_round start = \<lparr>rd_stop = False, rd_answer = Answer (demo_fetched start), rd_waits = [], rd_send = Sent, rd_stopped = (\<lambda>h. False)\<rparr>"

definition demo_options :: "bool \<Rightarrow> scan_options" where
  "demo_options untrusted = \<lparr>so_max_subaddresses = 0, so_untrusted_daemon = untrusted\<rparr>"

definition demo_member :: lws_account where
  "demo_member = make_account (\<lambda>a. []) demo_account [(Output_id 0 2, Address_index 0 0)] [33]"

definition demo_shared :: "queue \<Rightarrow> cell list shared" where
  "demo_shared q = \<lparr>sh_queue = q, sh_tables = demo_quiet, sh_confirmed = [], sh_spent = []\<rparr>"

definition plain_crypto :: scan_crypto where
  "plain_crypto = demo_scan_crypto\<lparr>find_nonce := (\<lambda>extra. None)\<rparr>"

definition demo_loop :: "checkpoints \<Rightarrow> bool \<Rightarrow> queue \<Rightarrow> lws_account list \<Rightarrow> u64 \<Rightarrow> error + cell list outcome" where
  "demo_loop cp untrusted q users start = loop_round log_lmdb demo_crypto plain_crypto demo_consensus demo_hashing
     (demo_options untrusted) True 0 (store_users log_lmdb cp) (demo_round start) \<lparr>lp_users = users, lp_start_height = start\<rparr> (demo_shared q)"

fun continues :: "error + 't outcome \<Rightarrow> bool" where
  "continues (Inr (Continues st W)) = True"
| "continues r = False"

lemma continuesE:
  assumes "continues r"
  obtains st W where "r = Inr (Continues st W)"
  using assms by (cases r rule: continues.cases) auto

lemma numeric_cast32_int [code]: "numeric_cast32 n = (if int n < 4294967296 then Inr (of_nat n) else Inl Out_of_range)"
  by (simp add: numeric_cast32_def)

lemma demo_loop_continues: "continues (demo_loop demo_checkpoints False new_queue [demo_member] 3)"
  by code_simp

definition far_checkpoints :: checkpoints where
  "far_checkpoints = \<lparr>get_points = [(0, 500), (100, 900)], get_max_height = 100\<rparr>"

lemma demo_replaced_continues: "continues (demo_loop far_checkpoints False (replace_accounts [demo_member] new_queue) [] 2)"
  by code_simp

lemma demo_genesis_fails: "demo_loop demo_checkpoints True new_queue [demo_member] 1 = Inl (Lws bad_blockchain)"
  by code_simp

lemma demo_member_eval:
  "lws_account_id demo_member = 1" "la_height demo_member = 3" "db_address demo_member = Inr (a_address demo_account)"
  "la_pubs demo_member = [33]"
  by code_simp+

lemma demo_member_ok: "account_ok demo_member"
  by (simp add: demo_member_def make_account_ok)

lemma demo_member_match: "users_match log_lmdb [demo_member] demo_quiet"
  unfolding users_match_def demo_quiet_accounts by (simp add: demo_member_eval) (simp add: demo_account2_def)

lemma demo_stored: "(active, demo_account) \<in> acct_set log_lmdb demo_quiet"
  unfolding demo_quiet_accounts by simp

lemma demo_scans:
  "joined \<lparr>lp_users = [demo_member], lp_start_height = 3\<rparr> new_queue = [demo_member]"
  "scans (demo_round 3) (demo_fetched 3) \<lparr>lp_users = [demo_member], lp_start_height = 3\<rparr> new_queue"
  by (simp_all add: joined_def requested_def do_get_accounts_def new_queue_def scans_def demo_round_def demo_fetched_def)

lemma demo_after: "after_batch start (demo_fetched n) = initial_height start + (if start \<noteq> 1 then 1 else 2)"
  by (simp add: after_batch_def new_blocks_def demo_fetched_def)

lemma demo_receives: "receives plain_crypto (batch_of demo_hashing (demo_fetched 3)) demo_member 125"
proof -
  let ?item = "\<lparr>it_height = 4, it_timestamp = 1004, it_hash = 104, it_tx = demo_tx, it_out_ids = [40, 41]\<rparr>"
  have "?item \<in> set (batch_of demo_hashing (demo_fetched 3))"
    by (simp add: batch_of_def demo_fetched_def new_blocks_def initial_height_def block_items_def demo_full_block_def)
  moreover have "tried plain_crypto 4 demo_tx demo_member = Some 113"
    by (simp add: tried_def plain_crypto_def demo_scan_crypto_def demo_member_def make_account_def account_internal_def demo_account_def)
  moreover have "la_immutable demo_member = Some (account_internal (\<lambda>a. []) demo_account)"
    by (simp add: demo_member_def make_account_def)
  moreover have "pays plain_crypto demo_tx 113 (spend_public (im_pubs (account_internal (\<lambda>a. []) demo_account))) 0 125 5 21"
    by (simp add: pays_def plain_crypto_def demo_scan_crypto_def demo_tx_def clear_amount_def decode_amount_def account_internal_def demo_account_def)
  ultimately show ?thesis unfolding receives_def by (intro bexI[of _ ?item] exI conjI) simp_all
qed


lemma hd_sorted_map: "xs \<noteq> [] \<Longrightarrow> hd (map f xs) = f (hd xs)"
  by (cases xs) simp_all

lemma aligned_batch:
  assumes start: "aligned st" and blocks: "2 \<le> length blocks" "unat (lp_start_height st) + length blocks < 2 ^ 64"
    and users: "users \<noteq> []" "sorted (map la_height users)" "la_height (hd users) \<le> initial_height (lp_start_height st)"
    and last: "reached = initial_height (lp_start_height st) + of_nat (length (new_blocks (lp_start_height st) blocks))"
  shows "aligned \<lparr>lp_users = map (\<lambda>user. updated_to user reached) users, lp_start_height = lp_start_height st + of_nat (length blocks) - 1\<rparr>"
proof -
  let ?start = "lp_start_height st"
  have sum: "unat (?start + of_nat (length blocks) - 1) = unat ?start + length blocks - 1"
  proof -
    have "?start + of_nat (length blocks) - 1 = of_nat (unat ?start + length blocks - 1)" using blocks(1) by (simp add: of_nat_diff)
    then show ?thesis using blocks(2) by (simp add: unat_of_nat take_bit_nat_eq_self)
  qed
  have reached: "reached = ?start + of_nat (length blocks) - 1"
    using blocks(1) last by (auto simp: initial_height_def new_blocks_def of_nat_diff)
  have pos: "unat ?start \<noteq> 0" using start by (simp add: aligned_def unat_eq_zero)
  then have large: "2 \<le> unat reached" using sum blocks(1) reached by simp
  then have "reached \<noteq> 0" "reached \<noteq> 1" by auto
  moreover have "la_height (hd users) \<le> reached"
  proof -
    have "initial_height ?start \<le> ?start" by (simp add: initial_height_def)
    then have "unat (la_height (hd users)) \<le> unat ?start" using users(3) by (meson order_trans word_le_nat_alt)
    then show ?thesis using sum blocks(1) reached by (simp add: word_le_nat_alt)
  qed
  moreover have "sorted (map (\<lambda>user. la_height (updated_to user reached)) users)"
    using users(2) by (auto simp: updated_to_def sorted_iff_nth_mono intro!: max.coboundedI1)
  ultimately show ?thesis using users(1) reached
    by (simp add: aligned_def hd_map comp_def updated_to_def initial_height_def max_def)
qed




text \<open>
  C34: When the queue replaced the accounts by ones that are ahead of the request, the batch that was
  fetched for the old ones is stored under the height of the new ones: they are recorded as scanned
  \<open>gap\<close> blocks further than the batch goes.
\<close>

theorem replaced_accounts_skip:
  assumes "lmdb_store L" and "accounts_inv L (sh_tables W)"
    and "loop_round L C X K H Q local last_pow (store_users L cp) inp st W = Inr (Continues st' W')"
    and "scans inp fetched st (sh_queue W)" and "so_max_subaddresses Q = 0"
    and "joined st (sh_queue W) = users" and "list_all account_ok users"
    and "users_match L users (sh_tables W)" and "la_height (hd users) = lp_start_height st + gap" and "lp_start_height st \<noteq> 1"
    and "user \<in> set users" and "(status, a) \<in> acct_set L (sh_tables W)" and "a_id a = lws_account_id user"
    and "la_height user \<le> a_scan_height a" and "a_scan_height a < after_batch (lp_start_height st) fetched + gap"
  shows "(status, a\<lparr>a_scan_height := after_batch (lp_start_height st) fetched + gap\<rparr>) \<in> acct_set L (sh_tables W')"
proof -
  let ?last = "after_batch (lp_start_height st) fetched + gap"
  have ne: "users \<noteq> []" using assms(11) by auto
  obtain users' chain pow out where
    found: "list_all2 (\<lambda>user user'. scanned user user' \<and> (\<forall>key. receives X (batch_of H fetched) user key \<longrightarrow> key \<in> set (la_pubs user'))) users users'"
    and up: "update L cp (la_height (hd users)) chain users' pow (sh_tables W) = Inr (out, sh_tables W')"
    and len: "length chain = Suc (length (new_blocks (br_start_height fetched) (br_blocks fetched)))"
    and start: "br_start_height fetched = lp_start_height st"
    by (rule round_updates[OF assms(3,4,6) ne assms(7,5)])
  have lst: "la_height (hd users) + of_nat (length chain) - 1 = ?last"
    using assms(9,10) len start by (simp add: after_batch_def initial_height_def)
  have sc: "list_all2 scanned users users'" using found by (rule list_all2_mono) simp
  note facts = update_facts(2)[OF assms(1,2) advanced_scanned(3)[OF sc assms(8)] up, unfolded lst]
  have "advance ?last users (status, a) = (status, a\<lparr>a_scan_height := ?last\<rparr>)"
    using assms(11,13-15) by (auto simp: advance_def advanced_def)
  then show ?thesis using facts[unfolded advanced_scanned(1)[OF sc]] assms(12) by (metis image_eqI)
qed

theorem replaced_accounts_skip_witness:
  "\<exists>st' W'. demo_loop far_checkpoints False (replace_accounts [demo_member] new_queue) [] 2 = Inr (Continues st' W') \<and>
     after_batch 2 (demo_fetched 2) = 3 \<and> (active, demo_account\<lparr>a_scan_height := 4\<rparr>) \<in> acct_set log_lmdb (sh_tables W')"
proof -
  let ?st = "\<lparr>lp_users = [], lp_start_height = 2\<rparr>" and ?q = "replace_accounts [demo_member] new_queue"
  obtain st' W' where run: "demo_loop far_checkpoints False ?q [] 2 = Inr (Continues st' W')"
    using demo_replaced_continues by (rule continuesE)
  have W: "sh_tables (demo_shared ?q) = demo_quiet" "sh_queue (demo_shared ?q) = ?q"
    "so_max_subaddresses (demo_options False) = 0" by (simp_all add: demo_shared_def demo_options_def)
  have after: "after_batch 2 (demo_fetched 2) = 3" by (simp add: demo_after initial_height_def)
  have join: "joined ?st ?q = [demo_member]" by code_simp
  have scans: "scans (demo_round 2) (demo_fetched 2) ?st ?q"
    by (simp add: scans_def join demo_member_eval) (simp add: demo_round_def demo_fetched_def replace_accounts_def new_queue_def do_get_accounts_def)
  note stored = replaced_accounts_skip[where fetched = "demo_fetched 2" and gap = 1, OF log.lmdb_store_axioms _ run[unfolded demo_loop_def],
      unfolded W loop_state.simps after, OF demo_quiet_inv scans refl join _ demo_member_match _ _ _ demo_stored]
  have facts: "list_all account_ok [demo_member]" "la_height (hd [demo_member]) = 2 + 1" "(2 :: u64) \<noteq> 1"
    "demo_member \<in> set [demo_member]" "a_id demo_account = lws_account_id demo_member" "la_height demo_member \<le> a_scan_height demo_account"
    "a_scan_height demo_account < 3 + 1"
    by (simp_all add: demo_member_ok demo_member_eval) (simp_all add: demo_account_def)
  have sum: "(3 :: u64) + 1 = 4" by simp
  from run after stored[OF facts, unfolded sum] show ?thesis by (intro exI conjI)
qed

text \<open>
  With a daemon that is not trusted, an account at the start of the chain stops the scanner: the
  first block of the answer is taken for the one before itself, so a round for it never goes on.
\<close>

theorem untrusted_genesis_refused:
  assumes "so_untrusted_daemon Q" and "lp_start_height st = 1"
    and "q_replace (sh_queue W) = None" and "q_push (sh_queue W) = []"
    and "rd_answer inp = Answer fetched" and "2 \<le> length (br_blocks fetched)"
    and "header_hash H (hd (br_blocks fetched)) = Inr h" and "bk_prev_id (hd (br_blocks fetched)) \<noteq> h"
  shows "loop_round L C X K H Q local last_pow store inp st W \<noteq> Inr (Continues st' W')"
proof
  assume run: "loop_round L C X K H Q local last_pow store inp st W = Inr (Continues st' W')"
  have "scans inp fetched st (sh_queue W)" using assms(3-6) by (simp add: scans_def requested_def do_get_accounts_def)
  from loop_round_run[OF run this] obtain p where start: "br_start_height fetched = 1"
    and b: "scan_batch L C X K H Q local last_pow (rd_stopped inp) fetched (joined st (sh_queue W)) (sh_tables W) = Inr (False, p)"
    using assms(2) by metis
  obtain front blocks where blocks: "br_blocks fetched = front # blocks" using assms(6) by (cases "br_blocks fetched") auto
  from b start blocks obtain ids indices where "br_output_indices fetched = ids # indices"
    by (cases "br_output_indices fetched") (auto simp: scan_batch_def)
  then show False using b start blocks assms(1,7,8)
    by (auto simp: scan_batch_def check_Inr_iff Let_def initial_height_def new_blocks_def split: if_splits dest: scan_block_linked)
qed

theorem untrusted_genesis_refused_witness:
  "\<nexists>st' W'. demo_loop demo_checkpoints True new_queue [demo_member] 1 = Inr (Continues st' W')"
proof -
  have facts: "so_untrusted_daemon (demo_options True)" "q_replace (sh_queue (demo_shared new_queue)) = None"
    "q_push (sh_queue (demo_shared new_queue)) = []" "rd_answer (demo_round 1) = Answer (demo_fetched 1)"
    "2 \<le> length (br_blocks (demo_fetched 1))"
    "header_hash demo_hashing (hd (br_blocks (demo_fetched 1))) = Inr 503" "bk_prev_id (hd (br_blocks (demo_fetched 1))) \<noteq> 503"
    by (simp_all add: demo_options_def demo_shared_def new_queue_def demo_round_def demo_fetched_def demo_hashing_def demo_full_block_def)
  show ?thesis unfolding demo_loop_def
    by (rule notI, elim exE, rule notE[OF untrusted_genesis_refused[OF facts(1) _ facts(2-7)]]) simp_all
qed

end
