(* ===== verification/Msgpack.thy ===== *)
theory Msgpack
  imports Compare "HOL-Library.Sublist"
begin

text \<open>
  The msgpack format, \<open>src/src/wire/msgpack\<close>: the tokens that \<open>msgpack_writer\<close> writes, the ones that
  \<open>msgpack_reader\<close> reads, and the skipping of values that are not known. It is the format of the
  variable part of database values (\<open>lmdb/msgpack_table.h\<close>) and of the commands between the server and
  its scanners.

  Bytes are a list, the reader has what remains of them. The count of expected values is a word, as
  its overflow is tested. Floating point numbers are the bytes they have in memory. Buffers and their
  flushing are left out; a \<open>remove_prefix\<close> past the end removes what there is.
\<close>

unbundle bit_operations_syntax

type_synonym i64 = "64 word"

section \<open>Errors and tags\<close>

datatype schema_error =
    Expected_array | Array_max_element | Array_min_size | Expected_binary | Expected_boolean
  | Expected_enumeration | Fixed_binary | Expected_integer | Invalid_key | Larger_integer
  | Maximum_depth | Missing_key | Expected_number | Expected_object | Smaller_integer | Expected_string

datatype msgpack_error =
    Incomplete | Integer_encoding | Invalid_msgpack | Max_tree_size | Not_enough_bytes | Underflow_tree

datatype wire_error = Schema schema_error | Msgpack msgpack_error | Logic_error

datatype tag =
    Nil_tag | Unused | False_tag | True_tag | Binary8 | Binary16 | Binary32 | Extension8 | Extension16
  | Extension32 | Float32 | Float64 | Uint8 | Uint16 | Uint32 | Uint64 | Int8 | Int16 | Int32 | Int64
  | Fixed_extension1 | Fixed_extension2 | Fixed_extension4 | Fixed_extension8 | Fixed_extension16
  | String8 | String16 | String32 | Array16 | Array32 | Object16 | Object32

fun tag_byte :: "tag \<Rightarrow> u8" where
  "tag_byte Nil_tag = 0xc0" | "tag_byte Unused = 0xc1" | "tag_byte False_tag = 0xc2" | "tag_byte True_tag = 0xc3"
| "tag_byte Binary8 = 0xc4" | "tag_byte Binary16 = 0xc5" | "tag_byte Binary32 = 0xc6"
| "tag_byte Extension8 = 0xc7" | "tag_byte Extension16 = 0xc8" | "tag_byte Extension32 = 0xc9"
| "tag_byte Float32 = 0xca" | "tag_byte Float64 = 0xcb"
| "tag_byte Uint8 = 0xcc" | "tag_byte Uint16 = 0xcd" | "tag_byte Uint32 = 0xce" | "tag_byte Uint64 = 0xcf"
| "tag_byte Int8 = 0xd0" | "tag_byte Int16 = 0xd1" | "tag_byte Int32 = 0xd2" | "tag_byte Int64 = 0xd3"
| "tag_byte Fixed_extension1 = 0xd4" | "tag_byte Fixed_extension2 = 0xd5" | "tag_byte Fixed_extension4 = 0xd6"
| "tag_byte Fixed_extension8 = 0xd7" | "tag_byte Fixed_extension16 = 0xd8"
| "tag_byte String8 = 0xd9" | "tag_byte String16 = 0xda" | "tag_byte String32 = 0xdb"
| "tag_byte Array16 = 0xdc" | "tag_byte Array32 = 0xdd" | "tag_byte Object16 = 0xde" | "tag_byte Object32 = 0xdf"

declare tag_byte.simps [simp del]

text \<open>A tag that shares its byte with a small value.\<close>

record fixed_tag =
  ft_tag :: u8
  ft_mask :: u8
  ft_max :: u8

definition ftag_unsigned :: fixed_tag where "ftag_unsigned = \<lparr>ft_tag = 0x00, ft_mask = 0x80, ft_max = 0x7f\<rparr>"
definition ftag_signed :: fixed_tag where "ftag_signed = \<lparr>ft_tag = 0xe0, ft_mask = 0xe0, ft_max = 0\<rparr>"
definition ftag_string :: fixed_tag where "ftag_string = \<lparr>ft_tag = 0xa0, ft_mask = 0xe0, ft_max = 31\<rparr>"
definition ftag_array :: fixed_tag where "ftag_array = \<lparr>ft_tag = 0x90, ft_mask = 0xf0, ft_max = 15\<rparr>"
definition ftag_object :: fixed_tag where "ftag_object = \<lparr>ft_tag = 0x80, ft_mask = 0xf0, ft_max = 15\<rparr>"

definition ft_matches :: "fixed_tag \<Rightarrow> u8 \<Rightarrow> bool" where
  "ft_matches f v \<longleftrightarrow> v AND ft_mask f = ft_tag f"

definition ft_extract :: "fixed_tag \<Rightarrow> u8 \<Rightarrow> u8" where
  "ft_extract f v = v AND NOT (ft_mask f)"

text \<open>A tag with the number of bytes of the integer after it, in the order of their sizes.\<close>

type_synonym wire_type = "nat \<times> tag"

definition unsigned_types :: "wire_type list" where
  "unsigned_types = [(1, Uint8), (2, Uint16), (4, Uint32), (8, Uint64)]"
definition signed_types :: "wire_type list" where
  "signed_types = [(1, Int8), (2, Int16), (4, Int32), (8, Int64)]"
definition string_types :: "wire_type list" where
  "string_types = [(1, String8), (2, String16), (4, String32)]"
definition binary_types :: "wire_type list" where
  "binary_types = [(1, Binary8), (2, Binary16), (4, Binary32)]"
definition array_types :: "wire_type list" where
  "array_types = [(2, Array16), (4, Array32)]"
definition object_types :: "wire_type list" where
  "object_types = [(2, Object16), (4, Object32)]"

lemmas fixed_tag_defs = ftag_unsigned_def ftag_signed_def ftag_string_def ftag_array_def ftag_object_def
lemmas wire_type_defs = unsigned_types_def signed_types_def string_types_def binary_types_def array_types_def object_types_def

section \<open>Writing\<close>

record writer =
  wr_bytes :: span
  wr_expected :: u64
  wr_integer_keys :: bool

definition new_writer :: "span \<Rightarrow> bool \<Rightarrow> writer" where
  "new_writer sink integer_keys = \<lparr>wr_bytes = sink, wr_expected = 1, wr_integer_keys = integer_keys\<rparr>"

definition put :: "span \<Rightarrow> writer \<Rightarrow> writer" where
  "put bs w = w\<lparr>wr_bytes := wr_bytes w @ bs\<rparr>"

text \<open>The last \<open>n\<close> bytes of a number, the highest first.\<close>

definition be_bytes :: "nat \<Rightarrow> u64 \<Rightarrow> span" where
  "be_bytes n v = rev (nat_le n (unat v))"

fun write_endian :: "u64 \<Rightarrow> wire_type \<Rightarrow> writer \<Rightarrow> writer" where
  "write_endian v (n, t) w = put (tag_byte t # be_bytes n v) w"

fun write_sized :: "wire_type list \<Rightarrow> u64 \<Rightarrow> writer \<Rightarrow> wire_error + writer" where
  "write_sized [] v w = Inl (Msgpack Integer_encoding)"
| "write_sized ((n, t) # types) v w =
     (if 2 ^ (8 * n) - 1 < uint v then write_sized types v w else Inr (write_endian v (n, t) w))"

definition write_count :: "fixed_tag \<Rightarrow> wire_type list \<Rightarrow> u64 \<Rightarrow> writer \<Rightarrow> wire_error + writer" where
  "write_count f types items w =
     (if items \<le> ucast (ft_max f) then Inr (put [ft_tag f OR ucast items] w) else write_sized types items w)"

text \<open>
  The comparison with \<open>0xe0\<close> is done with a wide integer, so no negative number passes it and a small
  negative number is written with two bytes.
\<close>

fun write_signed :: "wire_type list \<Rightarrow> i64 \<Rightarrow> writer \<Rightarrow> wire_error + writer" where
  "write_signed [] v w = Inl (Msgpack Integer_encoding)"
| "write_signed ((n, t) # types) v w =
     (if sint v < - (2 ^ (8 * n - 1)) then write_signed types v w else Inr (write_endian v (n, t) w))"

definition do_write_integer :: "i64 \<Rightarrow> writer \<Rightarrow> wire_error + writer" where
  "do_write_integer v w = (if 0xe0 < sint v then Inr (put [ucast v] w) else write_signed signed_types v w)"

definition do_write_unsigned :: "u64 \<Rightarrow> writer \<Rightarrow> wire_error + writer" where
  "do_write_unsigned v w = write_sized unsigned_types v w"

text \<open>Every complete value counts as one that is no longer expected.\<close>

definition written :: "writer \<Rightarrow> writer" where
  "written w = w\<lparr>wr_expected := wr_expected w - 1\<rparr>"

definition write_integer :: "i64 \<Rightarrow> writer \<Rightarrow> wire_error + writer" where
  "write_integer v w = check
     (if 0 \<le> sint v then
        (if sint v \<le> uint (ft_max ftag_unsigned) then Inr (put [ucast v] w) else do_write_unsigned v w)
      else do_write_integer v w) (\<lambda>w. Inr (written w))"

definition write_unsigned :: "u64 \<Rightarrow> writer \<Rightarrow> wire_error + writer" where
  "write_unsigned v w = check
     (if v \<le> ucast (ft_max ftag_unsigned) then Inr (put [ucast v] w) else do_write_unsigned v w) (\<lambda>w. Inr (written w))"

definition write_boolean :: "bool \<Rightarrow> writer \<Rightarrow> writer" where
  "write_boolean b w = written (put [tag_byte (if b then True_tag else False_tag)] w)"

definition write_real :: "span \<Rightarrow> writer \<Rightarrow> writer" where
  "write_real bs w = written (put bs (put [tag_byte Float64] w))"

definition write_string :: "span \<Rightarrow> writer \<Rightarrow> wire_error + writer" where
  "write_string bs w = check (write_count ftag_string string_types (of_nat (length bs)) w) (\<lambda>w. Inr (written (put bs w)))"

definition write_binary :: "span \<Rightarrow> writer \<Rightarrow> wire_error + writer" where
  "write_binary bs w = check (write_sized binary_types (of_nat (length bs)) w) (\<lambda>w. Inr (written (put bs w)))"

definition write_start_array :: "u64 \<Rightarrow> writer \<Rightarrow> wire_error + writer" where
  "write_start_array items w = check (write_count ftag_array array_types items w)
     (\<lambda>w. Inr (w\<lparr>wr_expected := wr_expected w + items\<rparr>))"

definition write_start_object :: "u64 \<Rightarrow> writer \<Rightarrow> wire_error + writer" where
  "write_start_object items w = check (write_count ftag_object object_types items w)
     (\<lambda>w. Inr (w\<lparr>wr_expected := wr_expected w + items * 2\<rparr>))"

definition write_key :: "u32 \<Rightarrow> span \<Rightarrow> writer \<Rightarrow> wire_error + writer" where
  "write_key key_id name w = (if wr_integer_keys w then write_unsigned (ucast key_id) w else write_string name w)"

text \<open>What a finished writer gives; with values missing it throws a \<open>logic_error\<close>.\<close>

definition take_msgpack :: "writer \<Rightarrow> wire_error + span" where
  "take_msgpack w = (if wr_expected w \<noteq> 0 then Inl Logic_error else Inr (wr_bytes w))"

section \<open>Reading\<close>

record reader =
  mr_remaining :: span
  mr_tags :: u64
  mr_depth :: u64

type_synonym 'a reads = "reader \<Rightarrow> wire_error + 'a \<times> reader"

definition new_reader :: "span \<Rightarrow> reader" where
  "new_reader bs = \<lparr>mr_remaining = bs, mr_tags = 1, mr_depth = 0\<rparr>"

definition max_read_depth :: u64 where "max_read_depth = 100"

definition increment_depth :: "reader \<Rightarrow> wire_error + reader" where
  "increment_depth r =
     (let depth = mr_depth r + 1 in
      if depth = max_read_depth then Inl (Schema Maximum_depth) else Inr (r\<lparr>mr_depth := depth\<rparr>))"

definition decrement_depth :: "reader \<Rightarrow> wire_error + reader" where
  "decrement_depth r = (if mr_depth r = 0 then Inl Logic_error else Inr (r\<lparr>mr_depth := mr_depth r - 1\<rparr>))"

definition update_tags :: "reader \<Rightarrow> wire_error + reader" where
  "update_tags r = (if mr_tags r \<noteq> 0 then Inr (r\<lparr>mr_tags := mr_tags r - 1\<rparr>) else Inl (Msgpack Underflow_tree))"

definition check_complete :: "reader \<Rightarrow> wire_error + unit" where
  "check_complete r = (if mr_tags r \<noteq> 0 then Inl (Msgpack Incomplete) else Inr ())"

definition peek_tag :: "reader \<Rightarrow> wire_error + u8" where
  "peek_tag r = (case mr_remaining r of [] \<Rightarrow> Inl (Msgpack Not_enough_bytes) | b # bs \<Rightarrow> Inr b)"

definition remove_prefix :: "nat \<Rightarrow> reader \<Rightarrow> reader" where
  "remove_prefix n r = r\<lparr>mr_remaining := drop n (mr_remaining r)\<rparr>"

definition get_tag :: "u8 reads" where
  "get_tag r = check (peek_tag r) (\<lambda>next. Inr (next, remove_prefix 1 r))"

text \<open>Every scalar is read by taking a value off the expected ones and then its tag.\<close>

definition next_tag :: "u8 reads" where
  "next_tag r = check (update_tags r) get_tag"

definition read_raw :: "nat \<Rightarrow> span reads" where
  "read_raw n r = (if length (mr_remaining r) < n then Inl (Msgpack Not_enough_bytes)
     else Inr (take n (mr_remaining r), remove_prefix n r))"

definition read_endian :: "nat \<Rightarrow> nat reads" where
  "read_endian n r = check (read_raw n r) (\<lambda>(bs, r). Inr (be_nat bs, r))"

definition read_sized :: "nat \<Rightarrow> span reads" where
  "read_sized n r = check (read_endian n r) (\<lambda>(count, r). read_raw count r)"

text \<open>The number in \<open>n\<close> bytes as a signed one.\<close>

definition signed_of :: "nat \<Rightarrow> nat \<Rightarrow> int" where
  "signed_of n x = (if 2 ^ (8 * n - 1) \<le> x then int x - 2 ^ (8 * n) else int x)"

definition integer_types :: "(bool \<times> wire_type) list" where
  "integer_types = [(True, 1, Int8), (False, 1, Uint8), (True, 2, Int16), (False, 2, Uint16),
     (True, 4, Int32), (False, 4, Uint32), (True, 8, Int64), (False, 8, Uint64)]"

text \<open>An integer of a type with the range from \<open>lo\<close> to \<open>hi\<close>.\<close>

definition range_cast :: "int \<Rightarrow> int \<Rightarrow> int \<Rightarrow> wire_error + int" where
  "range_cast lo hi v =
     (if hi < v then Inl (Schema Smaller_integer) else if v < lo then Inl (Schema Larger_integer) else Inr v)"

fun read_typed :: "(bool \<times> wire_type) list \<Rightarrow> int \<Rightarrow> int \<Rightarrow> u8 \<Rightarrow> int reads" where
  "read_typed [] lo hi next r = Inl (Schema Expected_integer)"
| "read_typed ((negative, n, t) # types) lo hi next r =
     (if next = tag_byte t then
        check (read_endian n r) (\<lambda>(x, r).
        check (range_cast lo hi (if negative then signed_of n x else int x)) (\<lambda>v. Inr (v, r)))
      else read_typed types lo hi next r)"

definition read_integer :: "int \<Rightarrow> int \<Rightarrow> u8 \<Rightarrow> int reads" where
  "read_integer lo hi next r = read_typed integer_types lo hi next r"

definition read_signed :: "i64 reads" where
  "read_signed r = check (next_tag r) (\<lambda>(next, r).
     if next \<le> ft_max ftag_unsigned then Inr (ucast next, r)
     else if ft_matches ftag_signed next then Inr (scast next, r)
     else check (read_integer (- (2 ^ 63)) (2 ^ 63 - 1) next r) (\<lambda>(v, r). Inr (word_of_int v, r)))"

definition read_unsigned :: "u64 reads" where
  "read_unsigned r = check (next_tag r) (\<lambda>(next, r).
     if next \<le> ft_max ftag_unsigned then Inr (ucast next, r)
     else check (read_integer 0 (2 ^ 64 - 1) next r) (\<lambda>(v, r). Inr (word_of_int v, r)))"

definition read_boolean :: "bool reads" where
  "read_boolean r = check (next_tag r) (\<lambda>(next, r).
     if next = tag_byte True_tag then Inr (True, r)
     else if next = tag_byte False_tag then Inr (False, r)
     else Inl (Schema Expected_boolean))"

definition read_real :: "span reads" where
  "read_real r = check (next_tag r) (\<lambda>(next, r).
     if next = tag_byte Float32 then read_raw 4 r
     else if next = tag_byte Float64 then read_raw 8 r
     else Inl (Schema Expected_number))"

text \<open>A tag of one of the types with the length that follows it.\<close>

fun read_blob :: "wire_type list \<Rightarrow> u8 \<Rightarrow> span reads" where
  "read_blob [] next r = Inl (Schema Expected_string)"
| "read_blob ((n, t) # types) next r = (if next = tag_byte t then read_sized n r else read_blob types next r)"

definition read_string_bytes :: "u8 \<Rightarrow> span reads" where
  "read_string_bytes next r =
     (if ft_matches ftag_string next then read_raw (unat (ft_extract ftag_string next)) r
      else read_blob string_types next r)"

definition read_binary_bytes :: "u8 \<Rightarrow> span reads" where
  "read_binary_bytes next r = read_blob binary_types next r"

definition read_string :: "span reads" where
  "read_string r = check (next_tag r) (\<lambda>(next, r). read_string_bytes next r)"

definition read_binary :: "span reads" where
  "read_binary r = check (next_tag r) (\<lambda>(next, r). read_binary_bytes next r)"

definition read_fixed_binary :: "nat \<Rightarrow> span reads" where
  "read_fixed_binary n r = check (read_binary r) (\<lambda>(bs, r).
     if n \<noteq> length bs then Inl (Schema Fixed_binary) else Inr (bs, r))"

fun read_count_types :: "wire_type list \<Rightarrow> schema_error \<Rightarrow> u8 \<Rightarrow> u64 reads" where
  "read_count_types [] expected next r = Inl (Schema expected)"
| "read_count_types ((n, t) # types) expected next r =
     (if tag_byte t = next then check (read_endian n r) (\<lambda>(x, r). Inr (of_nat x, r))
      else read_count_types types expected next r)"

definition read_count :: "fixed_tag \<Rightarrow> wire_type list \<Rightarrow> schema_error \<Rightarrow> u64 reads" where
  "read_count f types expected r = check (get_tag r) (\<lambda>(next, r).
     if ft_matches f next then Inr (ucast (ft_extract f next), r)
     else read_count_types types expected next r)"

text \<open>The elements of an array or object are expected besides what was; the value itself until its end.\<close>

definition start_array :: "nat \<Rightarrow> u64 reads" where
  "start_array min_element_size r =
     check (read_count ftag_array array_types Expected_array r) (\<lambda>(upcoming, r).
     if - 1 - mr_tags r < upcoming then Inl (Msgpack Max_tree_size)
     else if min_element_size \<noteq> 0 \<and> length (mr_remaining r) div min_element_size < unat upcoming then Inl (Schema Expected_array)
     else check (increment_depth (r\<lparr>mr_tags := mr_tags r + upcoming\<rparr>)) (\<lambda>r. Inr (upcoming, r)))"

definition is_array_end :: "u64 \<Rightarrow> bool reads" where
  "is_array_end count r = (if count \<noteq> 0 then Inr (False, r) else check (update_tags r) (\<lambda>r. Inr (True, r)))"

definition start_object :: "u64 reads" where
  "start_object r =
     check (read_count ftag_object object_types Expected_object r) (\<lambda>(upcoming, r).
     if (- 1) div 2 < upcoming then Inl (Msgpack Max_tree_size)
     else if - 1 - mr_tags r < upcoming * 2 then Inl (Msgpack Max_tree_size)
     else check (increment_depth (r\<lparr>mr_tags := mr_tags r + upcoming * 2\<rparr>)) (\<lambda>r. Inr (upcoming, r)))"

section \<open>Skipping a value\<close>

definition is_tag :: "tag list \<Rightarrow> u8 \<Rightarrow> bool" where
  "is_tag ts next \<longleftrightarrow> next \<in> set (map tag_byte ts)"

text \<open>The bytes of a value without those of its elements.\<close>

definition skip_token :: "u8 \<Rightarrow> reader \<Rightarrow> wire_error + reader" where
  "skip_token next r =
     (if is_tag [Nil_tag, Unused, False_tag, True_tag] next then Inr (remove_prefix 1 r)
      else if is_tag [Binary8, Binary16, Binary32] next then check (read_binary_bytes next (remove_prefix 1 r)) (\<lambda>(_, r). Inr r)
      else if is_tag [Extension8] next then check (read_sized 1 (remove_prefix 1 r)) (\<lambda>(bs, r). Inr (remove_prefix 1 r))
      else if is_tag [Extension16] next then check (read_sized 2 (remove_prefix 1 r)) (\<lambda>(bs, r). Inr (remove_prefix 1 r))
      else if is_tag [Extension32] next then check (read_sized 4 (remove_prefix 1 r)) (\<lambda>(bs, r). Inr (remove_prefix 1 r))
      else if is_tag [Int8, Uint8] next then Inr (remove_prefix 2 r)
      else if is_tag [Int16, Uint16, Fixed_extension1] next then Inr (remove_prefix 3 r)
      else if is_tag [Int32, Uint32, Float32] next then Inr (remove_prefix 5 r)
      else if is_tag [Int64, Uint64, Float64] next then Inr (remove_prefix 9 r)
      else if is_tag [Fixed_extension2] next then Inr (remove_prefix 4 r)
      else if is_tag [Fixed_extension4] next then Inr (remove_prefix 6 r)
      else if is_tag [Fixed_extension8] next then Inr (remove_prefix 10 r)
      else if is_tag [Fixed_extension16] next then Inr (remove_prefix 18 r)
      else if ft_matches ftag_string next \<or> is_tag [String8, String16, String32] next then
        check (read_string_bytes next (remove_prefix 1 r)) (\<lambda>(_, r). Inr r)
      else if ft_matches ftag_array next \<or> is_tag [Array16, Array32] next then check (start_array 0 r) (\<lambda>(_, r). Inr r)
      else if ft_matches ftag_object next \<or> is_tag [Object16, Object32] next then check (start_object r) (\<lambda>(_, r). Inr r)
      else Inr r)"

definition skip_step :: "reader \<Rightarrow> wire_error + reader" where
  "skip_step r =
     check (peek_tag r) (\<lambda>next.
     check (skip_token next r) (\<lambda>r'.
     check (if length (mr_remaining r) = length (mr_remaining r') then
              (if \<not> ft_matches ftag_unsigned next \<and> \<not> ft_matches ftag_signed next then Inl (Msgpack Invalid_msgpack)
               else Inr (remove_prefix 1 r'))
            else Inr r') update_tags))"

text \<open>Reading leaves a suffix of the bytes.\<close>

definition leaves :: "reader \<Rightarrow> reader \<Rightarrow> bool" where
  "leaves r r' \<longleftrightarrow> suffix (mr_remaining r') (mr_remaining r)"

lemma leaves_refl [simp]: "leaves r r"
  by (simp add: leaves_def)

lemma leaves_trans: "leaves r r1 \<Longrightarrow> leaves r1 r2 \<Longrightarrow> leaves r r2"
  unfolding leaves_def by (rule suffix_order.trans)

lemma leaves_remove_prefix [simp]: "leaves r (remove_prefix n r)"
  by (simp add: leaves_def remove_prefix_def suffix_drop)

lemma leaves_update [simp]: "leaves r (r'\<lparr>mr_tags := t\<rparr>) = leaves r r'" "leaves r (r'\<lparr>mr_depth := d\<rparr>) = leaves r r'"
  "leaves (r\<lparr>mr_tags := t\<rparr>) r' = leaves r r'"
  by (simp_all add: leaves_def)

lemma leaves_read_raw: "read_raw n r = Inr (bs, r') \<Longrightarrow> leaves r r'"
  by (auto simp: read_raw_def split: if_splits)

lemma leaves_read_endian: "read_endian n r = Inr (x, r') \<Longrightarrow> leaves r r'"
  by (auto simp: read_endian_def check_Inr_iff leaves_read_raw)

lemma leaves_read_sized: "read_sized n r = Inr (bs, r') \<Longrightarrow> leaves r r'"
  by (auto simp: read_sized_def check_Inr_iff dest!: leaves_read_raw leaves_read_endian elim: leaves_trans)

lemma leaves_read_blob: "read_blob types next r = Inr (bs, r') \<Longrightarrow> leaves r r'"
  by (induction types) (auto split: if_splits dest: leaves_read_sized)

lemma leaves_read_count_types: "read_count_types types e next r = Inr (x, r') \<Longrightarrow> leaves r r'"
  by (induction types) (auto split: if_splits dest: leaves_read_endian simp: check_Inr_iff)

lemma leaves_read_count: "read_count f types e r = Inr (x, r') \<Longrightarrow> leaves (remove_prefix 1 r) r'"
  by (auto simp: read_count_def get_tag_def check_Inr_iff split: if_splits dest: leaves_read_count_types)

lemma leaves_start_array: "start_array m r = Inr (x, r') \<Longrightarrow> leaves (remove_prefix 1 r) r'"
  by (auto simp: start_array_def increment_depth_def Let_def check_Inr_iff split: if_splits dest: leaves_read_count)

lemma leaves_start_object: "start_object r = Inr (x, r') \<Longrightarrow> leaves (remove_prefix 1 r) r'"
  by (auto simp: start_object_def increment_depth_def Let_def check_Inr_iff split: if_splits dest: leaves_read_count)

lemma remove_prefix_less: "leaves (remove_prefix 1 r) r' \<Longrightarrow> mr_remaining r \<noteq> [] \<Longrightarrow> length (mr_remaining r') < length (mr_remaining r)"
  by (cases "mr_remaining r") (auto simp: leaves_def remove_prefix_def suffix_def)

lemma leaves_Suc: "leaves (remove_prefix (Suc 0) r) (remove_prefix (Suc n) r)"
  using leaves_remove_prefix[of "remove_prefix 1 r" n] by (simp add: remove_prefix_def)

lemma leaves_skip_token:
  assumes "skip_token next r = Inr r'"
  shows "leaves (remove_prefix 1 r) r' \<or> r' = r"
proof -
  have numeral: "leaves (remove_prefix (Suc 0) r) (remove_prefix (numeral k) r)" for k
    using leaves_Suc[of r "pred_numeral k"] by (simp only: numeral_eq_Suc)
  show ?thesis using assms
    by (auto simp: skip_token_def check_Inr_iff numeral read_string_bytes_def read_binary_bytes_def split: if_splits
      dest: leaves_read_blob leaves_read_raw leaves_start_array leaves_start_object leaves_read_sized
      intro: leaves_trans)
qed

lemma update_tags_Inr: "update_tags r = Inr r' \<longleftrightarrow> mr_tags r \<noteq> 0 \<and> r' = r\<lparr>mr_tags := mr_tags r - 1\<rparr>"
  by (auto simp: update_tags_def)

lemma skip_step_less:
  assumes "skip_step r = Inr r'"
  shows "leaves r r' \<and> length (mr_remaining r') < length (mr_remaining r)"
proof -
  from assms obtain b bs r1 where r: "mr_remaining r = b # bs" and tok: "skip_token b r = Inr r1"
    by (auto simp: skip_step_def peek_tag_def check_Inr_iff split: list.splits)
  from leaves_skip_token[OF tok] show ?thesis
  proof
    assume "leaves (remove_prefix 1 r) r1"
    with remove_prefix_less[OF this] r have "length (mr_remaining r1) < length (mr_remaining r)" "leaves r r1"
      by (auto intro: leaves_trans[OF leaves_remove_prefix])
    with assms r tok show ?thesis by (auto simp: skip_step_def peek_tag_def update_tags_Inr)
  next
    assume "r1 = r"
    with assms r tok show ?thesis
      by (auto simp: skip_step_def peek_tag_def update_tags_Inr check_Inr_iff split: if_splits) (simp_all add: remove_prefix_def)
  qed
qed

function skip_loop :: "u64 \<Rightarrow> reader \<Rightarrow> wire_error + reader" where
  "skip_loop initial r = check (skip_step r) (\<lambda>r. if initial \<le> mr_tags r then skip_loop initial r else Inr r)"
  by pat_completeness auto
termination by (relation "measure (\<lambda>(initial, r). length (mr_remaining r))") (auto dest: skip_step_less)

declare skip_loop.simps [simp del]

definition skip_value :: "reader \<Rightarrow> wire_error + reader" where
  "skip_value r = (if - 1 = mr_tags r then Inl (Msgpack Max_tree_size) else skip_loop (mr_tags r) r)"

record key_entry =
  ke_name :: span
  ke_id :: u32

text \<open>The index of the first entry that matches; without a match it is the number of entries.\<close>

fun find_key :: "(key_entry \<Rightarrow> bool) \<Rightarrow> key_entry list \<Rightarrow> nat" where
  "find_key P [] = 0"
| "find_key P (elem # known) = (if P elem then 0 else Suc (find_key P known))"

definition match_key :: "key_entry list \<Rightarrow> nat reads" where
  "match_key known r =
     check (update_tags r) (\<lambda>r.
     check (get_tag r) (\<lambda>(next, r).
       let single = ft_matches ftag_unsigned next in
       if single \<or> is_tag [Uint8, Uint16, Uint32, Uint64] next then
         check (if single then Inr (uint next, r) else read_integer 0 (2 ^ 32 - 1) next r) (\<lambda>(key, r).
           Inr (find_key (\<lambda>elem. uint (ke_id elem) = key) known, r))
       else if ft_matches ftag_string next \<or> is_tag [String8, String16, String32] next then
         check (read_string_bytes next r) (\<lambda>(key, r). Inr (find_key (\<lambda>elem. key = ke_name elem) known, r))
       else Inl (Schema Invalid_key)))"

text \<open>
  Fields are skipped until one is known; its index is returned with the number of fields that are left.
  The value is \<open>None\<close> at the end of the object.
\<close>

function read_key :: "key_entry list \<Rightarrow> u64 \<Rightarrow> (nat \<times> u64) option reads" where
  "read_key known state r =
     (if state = 0 then check (update_tags r) (\<lambda>r. Inr (None, r))
      else check (match_key known r) (\<lambda>(index, r).
        if index < length known then Inr (Some (index, state - 1), r)
        else check (skip_value r) (\<lambda>r. read_key known (state - 1) r)))"
  by pat_completeness auto
termination
  by (relation "measure (\<lambda>(known, state, r). unat state)") (auto intro: measure_unat)

declare read_key.simps [simp del]

section \<open>Skipping stays within the input\<close>

text \<open>A step takes at most one value off the expected ones and opens at most one level.\<close>

definition grown :: "reader \<Rightarrow> reader \<Rightarrow> bool" where
  "grown r r' \<longleftrightarrow> mr_tags r \<le> mr_tags r' \<and>
     (mr_depth r < max_read_depth \<longrightarrow> mr_depth r \<le> mr_depth r' \<and> mr_depth r' < max_read_depth)"

lemma grown_simps [simp]: "grown r r" "grown (remove_prefix n r) r' = grown r r'" "grown r (remove_prefix n r') = grown r r'"
  by (simp_all add: grown_def remove_prefix_def)

lemma grown_trans: "grown r r1 \<Longrightarrow> grown r1 r2 \<Longrightarrow> grown r r2"
  by (auto simp: grown_def)

lemma grown_read_raw: "read_raw n r = Inr (bs, r') \<Longrightarrow> grown r r'"
  by (auto simp: read_raw_def split: if_splits)

lemma grown_read_endian: "read_endian n r = Inr (x, r') \<Longrightarrow> grown r r'"
  by (auto simp: read_endian_def check_Inr_iff grown_read_raw)

lemma grown_read_sized: "read_sized n r = Inr (bs, r') \<Longrightarrow> grown r r'"
  by (auto simp: read_sized_def check_Inr_iff dest!: grown_read_raw grown_read_endian elim: grown_trans)

lemma grown_read_blob: "read_blob types next r = Inr (bs, r') \<Longrightarrow> grown r r'"
  by (induction types) (auto split: if_splits dest: grown_read_sized)

lemma grown_read_count_types: "read_count_types types e next r = Inr (x, r') \<Longrightarrow> grown r r'"
  by (induction types) (auto split: if_splits dest: grown_read_endian simp: check_Inr_iff)

lemma grown_read_count: "read_count f types e r = Inr (x, r') \<Longrightarrow> grown r r'"
  by (auto simp: read_count_def get_tag_def check_Inr_iff split: if_splits
      dest: grown_read_count_types)

lemma grown_increment:
  assumes "increment_depth (r\<lparr>mr_tags := mr_tags r + n\<rparr>) = Inr r'" and "\<not> - 1 - mr_tags r < n"
  shows "grown r r'"
proof -
  have "mr_tags r \<le> mr_tags r + n" using unat_no_wrap[OF assms(2)] by (simp add: word_le_nat_alt)
  moreover have "d \<le> d + 1 \<and> d + 1 < 100" if "d + 1 \<noteq> 100" "d < 100" for d :: u64
  proof -
    have "unat d < 100" using that(2) by (simp add: word_less_nat_alt)
    moreover from this have "unat (d + 1) = unat d + 1" by (simp add: unat_word_ariths)
    moreover have "unat (d + 1) \<noteq> 100" using that(1) by (simp add: word_unat_eq_iff)
    ultimately show ?thesis by (simp add: word_le_nat_alt word_less_nat_alt)
  qed
  ultimately show ?thesis using assms(1)
    by (auto simp: increment_depth_def grown_def max_read_depth_def Let_def split: if_splits)
qed

lemma grown_start_array: "start_array m r = Inr (x, r') \<Longrightarrow> grown r r'"
  by (auto simp: start_array_def check_Inr_iff split: if_splits dest!: grown_read_count grown_increment elim: grown_trans)

lemma grown_start_object: "start_object r = Inr (x, r') \<Longrightarrow> grown r r'"
  by (auto simp: start_object_def check_Inr_iff split: if_splits dest!: grown_read_count grown_increment elim: grown_trans)

lemma grown_skip_token: "skip_token next r = Inr r' \<Longrightarrow> grown r r'"
  by (auto simp: skip_token_def check_Inr_iff read_string_bytes_def read_binary_bytes_def split: if_splits
      dest!: grown_read_blob grown_read_raw grown_start_array grown_start_object grown_read_sized)

lemma skip_step_tags:
  assumes "skip_step r = Inr r'"
  shows "\<exists>r1. grown r r1 \<and> mr_tags r1 \<noteq> 0 \<and> mr_tags r' = mr_tags r1 - 1 \<and> mr_depth r' = mr_depth r1"
proof -
  from assms obtain t r1 r2 where "skip_token t r = Inr r1" "r2 = r1 \<or> r2 = remove_prefix 1 r1" "update_tags r2 = Inr r'"
    by (auto simp: skip_step_def check_Inr_iff split: if_splits)
  then show ?thesis using grown_skip_token[of t r r1]
    by (intro exI[of _ r1]) (auto simp: update_tags_Inr remove_prefix_def)
qed

lemma skip_loop_bounds:
  "skip_loop initial r = Inr r' \<Longrightarrow> initial \<le> mr_tags r \<Longrightarrow> initial \<noteq> 0 \<Longrightarrow> mr_depth r < max_read_depth \<Longrightarrow>
     leaves r r' \<and> length (mr_remaining r') < length (mr_remaining r) \<and> mr_tags r' = initial - 1 \<and>
     mr_depth r \<le> mr_depth r' \<and> mr_depth r' < max_read_depth"
proof (induction initial r rule: skip_loop.induct)
  case (1 initial r)
  from "1.prems"(1) obtain r1 where r1: "skip_step r = Inr r1"
    "(if initial \<le> mr_tags r1 then skip_loop initial r1 else Inr r1) = Inr r'"
    by (subst (asm) skip_loop.simps) (auto simp: check_Inr_iff)
  note less = skip_step_less[OF r1(1)]
  obtain r2 where r2: "grown r r2" "mr_tags r2 \<noteq> 0" "mr_tags r1 = mr_tags r2 - 1" "mr_depth r1 = mr_depth r2"
    using skip_step_tags[OF r1(1)] by blast
  then have depth: "mr_depth r \<le> mr_depth r1" "mr_depth r1 < max_read_depth" using "1.prems"(4) by (simp_all add: grown_def)
  show ?case
  proof (cases "initial \<le> mr_tags r1")
    case True
    with "1.IH"[OF r1(1) True] r1(2) "1.prems"(3) depth less show ?thesis
      by (auto intro: leaves_trans)
  next
    case False
    have "initial \<le> mr_tags r2" using r2(1) "1.prems"(2) by (auto simp: grown_def intro: order_trans)
    moreover have "unat (mr_tags r1) = unat (mr_tags r2) - 1" using r2(2,3) by (simp add: unat_minus_one)
    ultimately have "unat (mr_tags r2) = unat initial" using False r2(2) by (simp add: word_le_nat_alt unat_eq_zero)
    then have "mr_tags r1 = initial - 1" using r2(3) by (metis word_unat_eq_iff)
    with False r1(2) depth less show ?thesis by simp
  qed
qed

section \<open>Single tokens\<close>

text \<open>
  The bytes \<open>bs\<close> are read as \<open>x\<close>, and as one value; they are skipped as one value without elements.
\<close>

definition reads :: "'a reads \<Rightarrow> span \<Rightarrow> 'a \<Rightarrow> bool" where
  "reads rd bs x \<longleftrightarrow> (\<forall>r rest. mr_remaining r = bs @ rest \<longrightarrow> mr_tags r \<noteq> 0 \<longrightarrow>
     rd r = Inr (x, r\<lparr>mr_remaining := rest, mr_tags := mr_tags r - 1\<rparr>))"

definition skips :: "span \<Rightarrow> bool" where
  "skips bs \<longleftrightarrow> (\<forall>r rest. mr_remaining r = bs @ rest \<longrightarrow> skip_step r = update_tags (r\<lparr>mr_remaining := rest\<rparr>))"

lemma all_bytes:
  assumes "list_all (\<lambda>n. P (of_nat n)) [0..<256]"
  shows "P (x :: u8)"
proof -
  have "unat x \<in> set [0..<256]" using unsigned_less[of x, where ?'a = nat] by simp
  with assms have "P (of_nat (unat x))" unfolding list_all_iff by (rule bspec)
  then show ?thesis by simp
qed

lemma next_tag_Cons: "mr_remaining r = b # bs \<Longrightarrow> mr_tags r \<noteq> 0 \<Longrightarrow>
    next_tag r = Inr (b, r\<lparr>mr_remaining := bs, mr_tags := mr_tags r - 1\<rparr>)"
  by (simp add: next_tag_def update_tags_def get_tag_def peek_tag_def remove_prefix_def)

lemma read_raw_append: "mr_remaining r = bs @ rest \<Longrightarrow> n = length bs \<Longrightarrow> read_raw n r = Inr (bs, r\<lparr>mr_remaining := rest\<rparr>)"
  by (simp add: read_raw_def remove_prefix_def)

lemma length_be_bytes [simp]: "length (be_bytes n v) = n"
  by (simp add: be_bytes_def length_nat_le)

lemma be_nat_be_bytes: "be_nat (be_bytes n v) = unat v mod 256 ^ n"
  by (simp add: be_bytes_def be_nat_rev le_nat_nat_le)

lemma read_endian_be_bytes: "mr_remaining r = be_bytes n v @ rest \<Longrightarrow> read_endian n r = Inr (unat v mod 256 ^ n, r\<lparr>mr_remaining := rest\<rparr>)"
  by (simp add: read_endian_def read_raw_append be_nat_be_bytes)

lemma unat_mod_fits: "uint v \<le> 2 ^ (8 * n) - 1 \<Longrightarrow> unat v mod 256 ^ n = unat v"
proof -
  assume "uint v \<le> 2 ^ (8 * n) - 1"
  then have "int (unat v) < int (2 ^ (8 * n))" by simp
  then have "unat v < 256 ^ n" by (simp only: of_nat_less_iff power_mult) simp
  then show ?thesis by simp
qed

lemma write_sized_put:
  "write_sized types v w = Inr w' \<Longrightarrow> \<exists>p \<in> set types. w' = put (tag_byte (snd p) # be_bytes (fst p) v) w \<and> uint v \<le> 2 ^ (8 * fst p) - 1"
  by (induction types) (auto split: if_splits)

lemma write_signed_put:
  "write_signed types v w = Inr w' \<Longrightarrow> \<exists>p \<in> set types. w' = put (tag_byte (snd p) # be_bytes (fst p) v) w \<and> - (2 ^ (8 * fst p - 1)) \<le> sint v"
  by (induction types) (auto split: if_splits)

definition all_tags :: "tag list" where
  "all_tags = [Nil_tag, Unused, False_tag, True_tag, Binary8, Binary16, Binary32, Extension8, Extension16, Extension32,
     Float32, Float64, Uint8, Uint16, Uint32, Uint64, Int8, Int16, Int32, Int64, Fixed_extension1, Fixed_extension2,
     Fixed_extension4, Fixed_extension8, Fixed_extension16, String8, String16, String32, Array16, Array32, Object16, Object32]"

text \<open>The meanings of bytes are ranges.\<close>

lemma matches_unsigned: "ft_matches ftag_unsigned b \<longleftrightarrow> unat b \<le> 0x7f"
  by (rule all_bytes[of "\<lambda>b. ft_matches ftag_unsigned b \<longleftrightarrow> unat b \<le> 0x7f"]) code_simp

lemma matches_signed: "ft_matches ftag_signed b \<longleftrightarrow> 0xe0 \<le> unat b"
  by (rule all_bytes[of "\<lambda>b. ft_matches ftag_signed b \<longleftrightarrow> 0xe0 \<le> unat b"]) code_simp

lemma matches_string: "ft_matches ftag_string b \<longleftrightarrow> 0xa0 \<le> unat b \<and> unat b \<le> 0xbf"
  by (rule all_bytes[of "\<lambda>b. ft_matches ftag_string b \<longleftrightarrow> 0xa0 \<le> unat b \<and> unat b \<le> 0xbf"]) code_simp

lemma matches_array: "ft_matches ftag_array b \<longleftrightarrow> 0x90 \<le> unat b \<and> unat b \<le> 0x9f"
  by (rule all_bytes[of "\<lambda>b. ft_matches ftag_array b \<longleftrightarrow> 0x90 \<le> unat b \<and> unat b \<le> 0x9f"]) code_simp

lemma matches_object: "ft_matches ftag_object b \<longleftrightarrow> 0x80 \<le> unat b \<and> unat b \<le> 0x8f"
  by (rule all_bytes[of "\<lambda>b. ft_matches ftag_object b \<longleftrightarrow> 0x80 \<le> unat b \<and> unat b \<le> 0x8f"]) code_simp

lemma tag_range: "0xc0 \<le> unat (tag_byte t) \<and> unat (tag_byte t) \<le> 0xdf"
  by (cases t) (simp_all add: tag_byte.simps)

lemma is_tag_range: "is_tag ts b \<Longrightarrow> 0xc0 \<le> unat b \<and> unat b \<le> 0xdf"
  using tag_range by (auto simp: is_tag_def)

lemmas matches_ranges = matches_unsigned matches_signed matches_string matches_array matches_object

lemma small_byte: "b \<le> ft_max ftag_unsigned \<longleftrightarrow> ft_matches ftag_unsigned b"
  unfolding matches_unsigned by (simp add: word_le_nat_alt ftag_unsigned_def)

lemma fixint_skips:
  assumes "ft_matches ftag_unsigned b \<or> ft_matches ftag_signed b"
  shows "skip_token b r = Inr r"
proof -
  have out: "unat b \<le> 0x7f \<or> 0xe0 \<le> unat b" using assms by (simp add: matches_ranges)
  then have "\<not> is_tag ts b" for ts using is_tag_range[of ts b] by auto
  moreover have "\<not> ft_matches ftag_string b" "\<not> ft_matches ftag_array b" "\<not> ft_matches ftag_object b"
    using out by (auto simp: matches_ranges)
  ultimately show ?thesis by (simp add: skip_token_def)
qed

lemma fixint_skipped: "ft_matches ftag_unsigned b \<or> ft_matches ftag_signed b \<Longrightarrow> skips [b]"
  by (auto simp: skips_def skip_step_def peek_tag_def fixint_skips remove_prefix_def)

lemma reads_small:
  assumes "ft_matches ftag_unsigned b"
  shows "reads read_unsigned [b] (ucast b)" "reads read_signed [b] (ucast b)"
  using assms by (simp_all add: reads_def read_unsigned_def read_signed_def next_tag_Cons small_byte)

lemma tag_not_small [simp]: "\<not> ft_matches ftag_unsigned (tag_byte t)" "\<not> ft_matches ftag_signed (tag_byte t)"
    "\<not> ft_matches ftag_string (tag_byte t)" "\<not> ft_matches ftag_array (tag_byte t)" "\<not> ft_matches ftag_object (tag_byte t)"
  using tag_range[of t] by (simp_all add: matches_ranges)

lemma tag_byte_inj [simp]: "tag_byte s = tag_byte t \<longleftrightarrow> s = t"
proof -
  have "distinct (map tag_byte all_tags)" by code_simp
  moreover have "s \<in> set all_tags" "t \<in> set all_tags" by (cases s; simp add: all_tags_def) (cases t; simp add: all_tags_def)
  ultimately show ?thesis by (auto simp: distinct_map inj_on_eq_iff)
qed

lemma is_tag_byte [simp]: "is_tag ts (tag_byte t) \<longleftrightarrow> t \<in> set ts"
  by (auto simp: is_tag_def)

lemma tag_skipped:
  assumes "\<And>r rest. mr_remaining r = tag_byte t # bs @ rest \<Longrightarrow> skip_token (tag_byte t) r = Inr (r\<lparr>mr_remaining := rest\<rparr>)"
  shows "skips (tag_byte t # bs)"
  using assms by (auto simp: skips_def skip_step_def peek_tag_def)

lemma remove_prefix_append: "mr_remaining r = bs @ rest \<Longrightarrow> n = length bs \<Longrightarrow> remove_prefix n r = r\<lparr>mr_remaining := rest\<rparr>"
  by (simp add: remove_prefix_def)

lemma put_put [simp]: "put cs (put bs w) = put (bs @ cs) w"
  by (simp add: put_def)

lemma unsigned_range: "uint v \<le> 18446744073709551615" for v :: u64
  using unsigned_less[of v, where ?'a = int] by simp

lemma write_sized_total: "(8, t) \<in> set types \<Longrightarrow> \<exists>w'. write_sized types v w = Inr w'"
  using unsigned_range[of v] by (induction types) auto

lemma read_unsigned_number:
  assumes "(n, t) \<in> set unsigned_types" and "uint v \<le> 2 ^ (8 * n) - 1"
    and "mr_remaining r = be_bytes n v @ rest" and "lo \<le> 0" and "uint v \<le> hi"
  shows "read_integer lo hi (tag_byte t) r = Inr (uint v, r\<lparr>mr_remaining := rest\<rparr>)"
proof -
  have "read_endian n r = Inr (unat v, r\<lparr>mr_remaining := rest\<rparr>)"
    using read_endian_be_bytes[OF assms(3)] unat_mod_fits[OF assms(2)] by simp
  moreover have "\<not> hi < uint v" "\<not> uint v < lo" using assms(4,5) uint_ge_0[of v] by linarith+
  ultimately show ?thesis using assms(1)
    by (auto simp: unsigned_types_def read_integer_def integer_types_def range_cast_def)
qed

lemma unsigned_token:
  assumes "(n, t) \<in> set unsigned_types" and "uint v \<le> 2 ^ (8 * n) - 1"
  shows "reads read_unsigned (tag_byte t # be_bytes n v) v"
    and "uint v < 2 ^ 63 \<Longrightarrow> reads read_signed (tag_byte t # be_bytes n v) v"
    and "skips (tag_byte t # be_bytes n v)"
proof -
  note typed = read_unsigned_number[OF assms]
  show "reads read_unsigned (tag_byte t # be_bytes n v) v"
    by (simp add: reads_def read_unsigned_def next_tag_Cons small_byte typed unsigned_range)
  show "reads read_signed (tag_byte t # be_bytes n v) v" if "uint v < 2 ^ 63"
    using that by (simp add: reads_def read_signed_def next_tag_Cons small_byte typed)
  show "skips (tag_byte t # be_bytes n v)"
    using assms(1) by (intro tag_skipped) (auto simp: unsigned_types_def skip_token_def remove_prefix_def)
qed

text \<open>An unsigned number is a small byte or a tag with the bytes of the number.\<close>

lemma write_unsigned_cases:
  obtains b where "write_unsigned v w = Inr (written (put [b] w))" and "ft_matches ftag_unsigned b" and "ucast b = v"
  | n t where "write_unsigned v w = Inr (written (put (tag_byte t # be_bytes n v) w))" and "(n, t) \<in> set unsigned_types"
    and "uint v \<le> 2 ^ (8 * n) - 1"
proof (cases "v \<le> ucast (ft_max ftag_unsigned)")
  case True
  then have small: "unat v \<le> 127" by (simp add: word_le_nat_alt ftag_unsigned_def)
  then have byte: "unat (ucast v :: u8) = unat v" by (simp add: unsigned_ucast_eq take_bit_nat_eq_self)
  with small have "ft_matches ftag_unsigned (ucast v)" by (simp add: matches_unsigned)
  moreover have "ucast (ucast v :: u8) = v"
    by (rule word_unat_eq_iff[THEN iffD2]) (use small in \<open>simp add: unsigned_ucast_eq[of "ucast v :: u8"] byte take_bit_nat_eq_self\<close>)
  ultimately show thesis using True that(1)[of "ucast v"] by (simp add: write_unsigned_def)
next
  case False
  obtain w' where w': "write_sized unsigned_types v w = Inr w'"
    using write_sized_total[of Uint64 unsigned_types] by (auto simp: unsigned_types_def)
  from write_sized_put[OF this] obtain n t where "(n, t) \<in> set unsigned_types" "w' = put (tag_byte t # be_bytes n v) w" "uint v \<le> 2 ^ (8 * n) - 1"
    by auto
  with False w' show thesis by (intro that(2)[of t n]) (simp_all add: write_unsigned_def do_write_unsigned_def)
qed

lemma written_unsigned:
  "\<exists>bs. write_unsigned v w = Inr (written (put bs w)) \<and> reads read_unsigned bs v \<and> skips bs \<and> (uint v < 2 ^ 63 \<longrightarrow> reads read_signed bs v)"
proof (cases rule: write_unsigned_cases[of v w])
  case (1 b)
  then show ?thesis using fixint_skipped[of b] reads_small[of b] by (intro exI[of _ "[b]"]) simp
next
  case (2 n t)
  then show ?thesis using unsigned_token[of n t v] by (intro exI[of _ "tag_byte t # be_bytes n v"]) simp
qed

text \<open>Negative numbers.\<close>

lemma uint_mod_sint: "uint v = sint v mod 2 ^ 64" for v :: i64
  by (simp add: uint_sint take_bit_eq_mod)

lemma sint_bounds: "- (2 ^ 63) \<le> sint v" "sint v < 2 ^ 63" for v :: i64
  using sint_greater_eq[of v] sint_less[of v] by simp_all

lemma sint_negative: "sint v < 0 \<Longrightarrow> uint v = 2 ^ 64 + sint v" for v :: i64
  using uint_mod_sint[of v] sint_bounds[of v] mod_pos_pos_trivial[of "2 ^ 64 + sint v" "2 ^ 64"] by simp

lemma sint_positive: "0 \<le> sint v \<Longrightarrow> uint v = sint v \<and> uint v < 2 ^ 63" for v :: i64
  using uint_mod_sint[of v] sint_bounds[of v] mod_pos_pos_trivial[of "sint v" "2 ^ 64"] by simp

lemma signed_of_negative:
  fixes v :: i64
  assumes "sint v < 0" and "(n, t) \<in> set signed_types" and "- (2 ^ (8 * n - 1)) \<le> sint v"
  shows "signed_of n (unat v mod 256 ^ n) = sint v"
proof -
  have n: "n = 1 \<or> n = 2 \<or> n = 4 \<or> n = 8" using assms(2) by (auto simp: signed_types_def)
  have "int (unat v mod 256 ^ n) = (2 ^ 64 + sint v) mod 256 ^ n"
    using sint_negative[OF assms(1)] by (simp add: of_nat_mod)
  also have "\<dots> = (256 ^ n + sint v) mod 256 ^ n" using n by (elim disjE) (simp_all add: mod_add_left_eq[symmetric, of "2 ^ 64"] flip: mod_add_left_eq)
  also have "\<dots> = 256 ^ n + sint v" using n assms(1,3) by (intro mod_pos_pos_trivial) auto
  finally show ?thesis using n assms(1,3) by (auto simp: signed_of_def)
qed

lemma negative_token:
  fixes v :: i64
  assumes "sint v < 0" and "(n, t) \<in> set signed_types" and "- (2 ^ (8 * n - 1)) \<le> sint v"
  shows "reads read_signed (tag_byte t # be_bytes n v) v" and "skips (tag_byte t # be_bytes n v)"
proof -
  have typed: "read_integer (- (2 ^ 63)) (2 ^ 63 - 1) (tag_byte t) r = Inr (sint v, r\<lparr>mr_remaining := rest\<rparr>)"
    if "mr_remaining r = be_bytes n v @ rest" for r rest
    using assms(2) read_endian_be_bytes[OF that] signed_of_negative[OF assms] sint_bounds[of v]
    by (auto simp: signed_types_def read_integer_def integer_types_def range_cast_def)
  show "reads read_signed (tag_byte t # be_bytes n v) v"
    using typed by (simp add: reads_def read_signed_def next_tag_Cons small_byte)
  show "skips (tag_byte t # be_bytes n v)"
    using assms(2) by (intro tag_skipped) (auto simp: signed_types_def skip_token_def remove_prefix_def)
qed

lemma write_signed_total: "(8, t) \<in> set types \<Longrightarrow> \<exists>w'. write_signed types v w = Inr w'"
  using sint_bounds[of v] by (induction types) auto

lemma written_signed: "\<exists>bs. write_integer v w = Inr (written (put bs w)) \<and> reads read_signed bs v \<and> skips bs"
proof (cases "0 \<le> sint v")
  case True
  obtain bs where bs: "write_unsigned v w = Inr (written (put bs w))" "skips bs" "reads read_signed bs v"
    using written_unsigned[of v w] sint_positive[OF True] by blast
  have "sint v \<le> uint (ft_max ftag_unsigned) \<longleftrightarrow> v \<le> ucast (ft_max ftag_unsigned)"
    using sint_positive[OF True] by (simp add: ftag_unsigned_def word_le_def)
  with True have "write_integer v w = write_unsigned v w" by (simp add: write_integer_def write_unsigned_def)
  with bs show ?thesis by auto
next
  case False
  obtain w' where w': "write_signed signed_types v w = Inr w'"
    using write_signed_total[of Int64 signed_types] by (auto simp: signed_types_def)
  from write_signed_put[OF this] obtain n t where "(n, t) \<in> set signed_types" "w' = put (tag_byte t # be_bytes n v) w" "- (2 ^ (8 * n - 1)) \<le> sint v"
    by auto
  with False w' negative_token[of v n t] show ?thesis
    by (intro exI[of _ "tag_byte t # be_bytes n v"]) (simp add: write_integer_def do_write_integer_def)
qed

lemma read_blob_token:
  assumes "(n, t) \<in> set types" and "distinct (map snd types)" and "length bs < 256 ^ n" and "n \<le> 8"
    and "mr_remaining r = be_bytes n (of_nat (length bs)) @ bs @ rest"
  shows "read_blob types (tag_byte t) r = Inr (bs, r\<lparr>mr_remaining := rest\<rparr>)"
proof -
  have "(256 :: nat) ^ n \<le> 256 ^ 8" using assms(4) by (rule power_increasing) simp
  then have "unat (of_nat (length bs) :: u64) = length bs" using assms(3) by (simp add: unat_of_nat take_bit_nat_eq_self)
  with assms(3,5) have "read_sized n r = Inr (bs, r\<lparr>mr_remaining := rest\<rparr>)"
    by (simp add: read_sized_def read_endian_be_bytes read_raw_append)
  with assms(1,2) show ?thesis by (induction types) (auto simp: image_iff)
qed

lemma boolean_token: "reads read_boolean [tag_byte (if b then True_tag else False_tag)] b" "skips [tag_byte (if b then True_tag else False_tag)]"
proof -
  show "reads read_boolean [tag_byte (if b then True_tag else False_tag)] b"
    by (simp add: reads_def read_boolean_def next_tag_Cons)
  have "skips [tag_byte t]" if "t = True_tag \<or> t = False_tag" for t
    using that by (intro tag_skipped) (auto simp: skip_token_def remove_prefix_def)
  then show "skips [tag_byte (if b then True_tag else False_tag)]" by simp
qed

lemma real_token:
  assumes "length bs = 8"
  shows "reads read_real (tag_byte Float64 # bs) bs" and "skips (tag_byte Float64 # bs)"
proof -
  show "reads read_real (tag_byte Float64 # bs) bs"
    using assms by (simp add: reads_def read_real_def next_tag_Cons read_raw_append)
  show "skips (tag_byte Float64 # bs)"
    using assms by (intro tag_skipped) (simp add: skip_token_def remove_prefix_def)
qed

lemma fixed_bytes:
  assumes "f \<in> {ftag_string, ftag_array, ftag_object}" and "n \<le> unat (ft_max f)"
  shows "ft_matches f (ft_tag f OR of_nat n) \<and> unat (ft_extract f (ft_tag f OR of_nat n)) = n"
proof -
  have all: "list_all (\<lambda>f. list_all (\<lambda>n. ft_matches f (ft_tag f OR of_nat n) \<and> unat (ft_extract f (ft_tag f OR of_nat n)) = n)
      [0..<Suc (unat (ft_max f))]) [ftag_string, ftag_array, ftag_object]"
    by code_simp
  have "f \<in> set [ftag_string, ftag_array, ftag_object]" "n \<in> set [0..<Suc (unat (ft_max f))]" using assms by auto
  from all[unfolded list_all_iff, THEN bspec, OF this(1), THEN bspec, OF this(2)] show ?thesis .
qed

text \<open>What a count is written as.\<close>

lemma write_count_put:
  assumes "write_count f types (of_nat n) w = Inr w'" and "n < 2 ^ 64" and "f \<in> {ftag_string, ftag_array, ftag_object}"
  shows "(\<exists>b. w' = put [b] w \<and> ft_matches f b \<and> unat (ft_extract f b) = n) \<or>
    (\<exists>p \<in> set types. w' = put (tag_byte (snd p) # be_bytes (fst p) (of_nat n)) w \<and> n < 256 ^ fst p)"
proof (cases "of_nat n \<le> (ucast (ft_max f) :: u64)")
  case True
  have unat: "unat (of_nat n :: u64) = n" using assms(2) by (simp add: unat_of_nat take_bit_nat_eq_self)
  have "unat (ucast (ft_max f) :: u64) = unat (ft_max f)"
    using unsigned_less[of "ft_max f", where ?'a = nat] by (simp add: unsigned_ucast_eq take_bit_nat_eq_self)
  with True have small: "n \<le> unat (ft_max f)" by (simp add: word_le_nat_alt unat)
  have "ucast (of_nat n :: u64) = (of_nat n :: u8)"
    by (rule word_unat_eq_iff[THEN iffD2]) (simp add: unsigned_ucast_eq take_bit_eq_mod unat_of_nat mod_mod_cancel)
  with True assms(1) fixed_bytes[OF assms(3) small] show ?thesis by (auto simp: write_count_def)
next
  case False
  with assms(1) have "write_sized types (of_nat n) w = Inr w'" by (simp add: write_count_def)
  from write_sized_put[OF this] obtain p where p: "p \<in> set types" "w' = put (tag_byte (snd p) # be_bytes (fst p) (of_nat n)) w"
    "uint (of_nat n :: u64) \<le> 2 ^ (8 * fst p) - 1" by blast
  have "int n < int (2 ^ (8 * fst p))" using p(3) assms(2) by (simp add: uint_nat unat_of_nat take_bit_nat_eq_self)
  then have "n < 256 ^ fst p" by (simp only: of_nat_less_iff power_mult) simp
  with p show ?thesis by blast
qed

lemma written_binary:
  assumes "write_binary bs w = Inr w'" and "length bs < 2 ^ 64"
  shows "\<exists>cs. w' = written (put cs w) \<and> reads read_binary cs bs \<and> skips cs"
proof -
  from assms(1) obtain w1 where "write_sized binary_types (of_nat (length bs)) w = Inr w1" and w': "w' = written (put bs w1)"
    by (auto simp: write_binary_def check_Inr_iff)
  from write_sized_put[OF this(1)] obtain n t where p: "(n, t) \<in> set binary_types"
    "w1 = put (tag_byte t # be_bytes n (of_nat (length bs))) w" "uint (of_nat (length bs) :: u64) \<le> 2 ^ (8 * n) - 1" by auto
  have "int (length bs) < int (2 ^ (8 * n))" using p(3) assms(2) by (simp add: uint_nat unat_of_nat take_bit_nat_eq_self)
  then have len: "length bs < 256 ^ n" by (simp only: of_nat_less_iff power_mult) simp
  have n: "distinct (map snd binary_types)" "n \<le> 8" using p(1) by (auto simp: binary_types_def)
  note token = read_blob_token[OF p(1) n(1) len n(2)]
  let ?cs = "tag_byte t # be_bytes n (of_nat (length bs)) @ bs"
  have "reads read_binary ?cs bs"
    using token by (simp add: reads_def read_binary_def read_binary_bytes_def next_tag_Cons)
  moreover have "skips ?cs" using p(1) token
    by (intro tag_skipped) (auto simp: binary_types_def skip_token_def read_binary_bytes_def remove_prefix_def)
  ultimately show ?thesis using w' p(2) by (intro exI[of _ ?cs]) simp
qed

text \<open>A string is a tag and what is read with it.\<close>

lemma write_string_cases:
  assumes "write_string bs w = Inr w'" and "length bs < 2 ^ 64"
  obtains b cs where "w' = written (put (b # cs) w)" and "ft_matches ftag_string b \<or> is_tag [String8, String16, String32] b"
    and "\<And>r rest. mr_remaining r = cs @ rest \<Longrightarrow> read_string_bytes b r = Inr (bs, r\<lparr>mr_remaining := rest\<rparr>)"
proof -
  from assms(1) obtain w1 where w1: "write_count ftag_string string_types (of_nat (length bs)) w = Inr w1" and w': "w' = written (put bs w1)"
    by (auto simp: write_string_def check_Inr_iff)
  from write_count_put[OF w1 assms(2)] consider b where "w1 = put [b] w" "ft_matches ftag_string b" "unat (ft_extract ftag_string b) = length bs"
    | n t where "(n, t) \<in> set string_types" "w1 = put (tag_byte t # be_bytes n (of_nat (length bs))) w" "length bs < 256 ^ n"
    by auto
  then show thesis
  proof cases
    case 1
    then show thesis using w' by (intro that[of b bs]) (simp_all add: read_string_bytes_def read_raw_append)
  next
    case (2 n t)
    have n: "distinct (map snd string_types)" "n \<le> 8" using 2(1) by (auto simp: string_types_def)
    note token = read_blob_token[OF 2(1) n(1) 2(3) n(2)]
    have "t \<in> {String8, String16, String32}" using 2(1) by (auto simp: string_types_def)
    then show thesis using w' 2(2) token
      by (intro that[of "tag_byte t" "be_bytes n (of_nat (length bs)) @ bs"]) (auto simp: read_string_bytes_def)
  qed
qed

lemma written_string:
  assumes "write_string bs w = Inr w'" and "length bs < 2 ^ 64"
  shows "\<exists>cs. w' = written (put cs w) \<and> reads read_string cs bs \<and> skips cs"
proof (rule write_string_cases[OF assms])
  fix b cs
  assume w': "w' = written (put (b # cs) w)" and b: "ft_matches ftag_string b \<or> is_tag [String8, String16, String32] b"
    and rd: "\<And>r rest. mr_remaining r = cs @ rest \<Longrightarrow> read_string_bytes b r = Inr (bs, r\<lparr>mr_remaining := rest\<rparr>)"
  have "reads read_string (b # cs) bs" by (simp add: reads_def read_string_def next_tag_Cons rd)
  moreover have "skip_token b r = check (read_string_bytes b (remove_prefix 1 r)) (\<lambda>(_, r). Inr r)" for r
  proof (cases "ft_matches ftag_string b")
    case True
    then have "\<not> is_tag ts b" for ts using is_tag_range[of ts b] by (auto simp: matches_ranges)
    with True show ?thesis by (simp add: skip_token_def)
  next
    case False
    with b obtain t where "b = tag_byte t" "t \<in> {String8, String16, String32}" by (auto simp: is_tag_def)
    then show ?thesis by (auto simp: skip_token_def)
  qed
  then have "skips (b # cs)" by (simp add: skips_def skip_step_def peek_tag_def rd remove_prefix_def)
  ultimately show ?thesis using w' by blast
qed

end
