(* ===== verification/MsgpackSkip.thy ===== *)
theory MsgpackSkip
  imports Msgpack
begin

text \<open>
  Values that are not known are skipped: \<open>msgpack_reader::skip_value\<close> on what \<open>msgpack_writer\<close> writes.
  A value is a tree; it is written as \<open>wire/write.h\<close> writes arrays and objects.
\<close>

section \<open>Trees of values\<close>

datatype wire_value =
    Boolean_value bool | Integer_value i64 | Unsigned_value u64 | Real_value span | String_value span
  | Binary_value span | Array_value "wire_value list" | Object_value "(wire_value \<times> wire_value) list"

function write_value :: "wire_value \<Rightarrow> writer \<Rightarrow> wire_error + writer"
  and write_values :: "wire_value list \<Rightarrow> writer \<Rightarrow> wire_error + writer"
  and write_pairs :: "(wire_value \<times> wire_value) list \<Rightarrow> writer \<Rightarrow> wire_error + writer" where
  "write_value (Boolean_value b) w = Inr (write_boolean b w)"
| "write_value (Integer_value v) w = write_integer v w"
| "write_value (Unsigned_value v) w = write_unsigned v w"
| "write_value (Real_value bs) w = Inr (write_real bs w)"
| "write_value (String_value bs) w = write_string bs w"
| "write_value (Binary_value bs) w = write_binary bs w"
| "write_value (Array_value vs) w =
     check (write_start_array (of_nat (length vs)) w) (\<lambda>w.
     check (write_values vs w) (\<lambda>w. Inr (written w)))"
| "write_value (Object_value kvs) w =
     check (write_start_object (of_nat (length kvs)) w) (\<lambda>w.
     check (write_pairs kvs w) (\<lambda>w. Inr (written w)))"
| "write_values [] w = Inr w"
| "write_values (v # vs) w = check (write_value v w) (\<lambda>w. write_values vs w)"
| "write_pairs [] w = Inr w"
| "write_pairs ((k, v) # kvs) w =
     check (write_value k w) (\<lambda>w. check (write_value v w) (\<lambda>w. write_pairs kvs w))"
  by pat_completeness auto
termination
  by (relation "measure (case_sum (\<lambda>(v, w). size v)
      (case_sum (\<lambda>(vs, w). size_list size vs) (\<lambda>(kvs, w). size_list (size_prod size size) kvs)))") auto

text \<open>A bound on the values that are expected while a tree is read, and how many arrays and objects it has.\<close>

fun tokens :: "wire_value \<Rightarrow> nat" where
  "tokens (Array_value vs) = Suc (length vs + sum_list (map tokens vs))"
| "tokens (Object_value kvs) = Suc (2 * length kvs + sum_list (map (\<lambda>(k, v). tokens k + tokens v) kvs))"
| "tokens v = 1"

fun containers :: "wire_value \<Rightarrow> nat" where
  "containers (Array_value vs) = Suc (sum_list (map containers vs))"
| "containers (Object_value kvs) = Suc (sum_list (map (\<lambda>(k, v). containers k + containers v) kvs))"
| "containers v = 0"

text \<open>Sizes that exist: a byte string has a length of 64 bits, a double has eight bytes.\<close>

fun sized :: "wire_value \<Rightarrow> bool" where
  "sized (Real_value bs) \<longleftrightarrow> length bs = 8"
| "sized (String_value bs) \<longleftrightarrow> length bs < 2 ^ 64"
| "sized (Binary_value bs) \<longleftrightarrow> length bs < 2 ^ 64"
| "sized (Array_value vs) \<longleftrightarrow> length vs < 2 ^ 63 \<and> list_all sized vs"
| "sized (Object_value kvs) \<longleftrightarrow> length kvs < 2 ^ 63 \<and> list_all (\<lambda>(k, v). sized k \<and> sized v) kvs"
| "sized v \<longleftrightarrow> True"

section \<open>Skipping several values\<close>

text \<open>
  The bytes are those of \<open>k\<close> values with \<open>t\<close> values in all, \<open>c\<close> of them arrays or objects: the loop passes
  over them, and raises the depth for every array and object without lowering it again.
\<close>

definition skipped_as :: "nat \<Rightarrow> nat \<Rightarrow> nat \<Rightarrow> span \<Rightarrow> bool" where
  "skipped_as k t c bs \<longleftrightarrow> (\<forall>initial r rest. mr_remaining r = bs @ rest \<longrightarrow> initial \<noteq> 0 \<longrightarrow>
     unat initial + k \<le> Suc (unat (mr_tags r)) \<longrightarrow> unat (mr_tags r) + t < 2 ^ 64 \<longrightarrow> unat (mr_depth r) < 100 \<longrightarrow>
     skip_loop initial r =
       (if unat (mr_depth r) + c < 100 then
          let r' = r\<lparr>mr_remaining := rest, mr_tags := mr_tags r - of_nat k, mr_depth := mr_depth r + of_nat c\<rparr> in
          if initial \<le> mr_tags r' then skip_loop initial r' else Inr r'
        else Inl (Schema Maximum_depth)))"

lemma skipped_asD:
  assumes "skipped_as k t c bs" and "mr_remaining r = bs @ rest" and "initial \<noteq> 0"
    and "unat initial + k \<le> Suc (unat (mr_tags r))" and "unat (mr_tags r) + t < 2 ^ 64" and "unat (mr_depth r) < 100"
  shows "skip_loop initial r =
       (if unat (mr_depth r) + c < 100 then
          let r' = r\<lparr>mr_remaining := rest, mr_tags := mr_tags r - of_nat k, mr_depth := mr_depth r + of_nat c\<rparr> in
          if initial \<le> mr_tags r' then skip_loop initial r' else Inr r'
        else Inl (Schema Maximum_depth))"
  using assms unfolding skipped_as_def by blast

lemma skipped_scalar: "skips bs \<Longrightarrow> skipped_as 1 t 0 bs"
  unfolding skipped_as_def skips_def
  by (subst skip_loop.simps) (auto simp: update_tags_def Let_def unat_eq_zero)

lemma unat_minus_of_nat: "k \<le> unat (x :: u64) \<Longrightarrow> unat (x - of_nat k) = unat x - k"
  using unsigned_less[of x, where ?'a = nat]
  by (subst unat_sub) (simp_all add: word_le_nat_alt unat_of_nat take_bit_nat_eq_self)

lemma unat_depth: "unat (d :: u64) + c < 100 \<Longrightarrow> unat (d + of_nat c) = unat d + c"
  by (simp add: unat_word_ariths unat_of_nat)

lemma skipped_append:
  assumes "skipped_as k1 t1 c1 bs1" and "skipped_as k2 t2 c2 bs2" and "1 \<le> k2"
  shows "skipped_as (k1 + k2) (t1 + t2) (c1 + c2) (bs1 @ bs2)"
  unfolding skipped_as_def
proof (intro allI impI)
  fix initial :: u64 and r :: reader and rest
  assume r: "mr_remaining r = (bs1 @ bs2) @ rest" and i: "initial \<noteq> 0" "unat initial + (k1 + k2) \<le> Suc (unat (mr_tags r))"
    and t: "unat (mr_tags r) + (t1 + t2) < 2 ^ 64" and d: "unat (mr_depth r) < 100"
  let ?r1 = "r\<lparr>mr_remaining := bs2 @ rest, mr_tags := mr_tags r - of_nat k1, mr_depth := mr_depth r + of_nat c1\<rparr>"
  have tags: "unat (mr_tags ?r1) = unat (mr_tags r) - k1"
    using i assms(3) by (simp add: unat_minus_of_nat)
  then have go: "initial \<le> mr_tags ?r1" using i(2) assms(3) by (simp add: word_le_nat_alt)
  have first: "skip_loop initial r = (if unat (mr_depth r) + c1 < 100 then skip_loop initial ?r1 else Inl (Schema Maximum_depth))"
    using skipped_asD[OF assms(1), of r "bs2 @ rest" initial] r i t d assms(3) go by (simp add: Let_def)
  show "skip_loop initial r =
       (if unat (mr_depth r) + (c1 + c2) < 100 then
          let r' = r\<lparr>mr_remaining := rest, mr_tags := mr_tags r - of_nat (k1 + k2), mr_depth := mr_depth r + of_nat (c1 + c2)\<rparr> in
          if initial \<le> mr_tags r' then skip_loop initial r' else Inr r'
        else Inl (Schema Maximum_depth))"
  proof (cases "unat (mr_depth r) + c1 < 100")
    case True
    have second: "skip_loop initial ?r1 = (if unat (mr_depth ?r1) + c2 < 100 then
          let r' = ?r1\<lparr>mr_remaining := rest, mr_tags := mr_tags ?r1 - of_nat k2, mr_depth := mr_depth ?r1 + of_nat c2\<rparr> in
          if initial \<le> mr_tags r' then skip_loop initial r' else Inr r'
        else Inl (Schema Maximum_depth))"
      using i t tags True assms(3) by (intro skipped_asD[OF assms(2)]) (auto simp: unat_depth)
    show ?thesis unfolding first second using True by (simp add: unat_depth add.assoc diff_diff_eq)
  next
    case False
    then show ?thesis unfolding first by simp
  qed
qed

text \<open>The first bytes of an array or object with \<open>n\<close> values in it.\<close>

definition opens :: "nat \<Rightarrow> span \<Rightarrow> bool" where
  "opens n bs \<longleftrightarrow> (\<forall>r rest. mr_remaining r = bs @ rest \<longrightarrow> mr_tags r \<noteq> 0 \<longrightarrow> unat (mr_tags r) + n < 2 ^ 64 \<longrightarrow> unat (mr_depth r) < 100 \<longrightarrow>
     skip_step r =
       (if unat (mr_depth r) + 1 < 100
        then Inr (r\<lparr>mr_remaining := rest, mr_tags := mr_tags r + of_nat n - 1, mr_depth := mr_depth r + 1\<rparr>)
        else Inl (Schema Maximum_depth)))"

lemma skipped_container:
  assumes "opens n hs" and "n = 0 \<and> t = 0 \<and> c = 0 \<and> bs = [] \<or> 1 \<le> n \<and> skipped_as n t c bs"
  shows "skipped_as 1 (Suc (n + t)) (Suc c) (hs @ bs)"
  unfolding skipped_as_def
proof (intro allI impI)
  fix initial :: u64 and r :: reader and rest
  assume r: "mr_remaining r = (hs @ bs) @ rest" and i: "initial \<noteq> 0" "unat initial + 1 \<le> Suc (unat (mr_tags r))"
    and t: "unat (mr_tags r) + Suc (n + t) < 2 ^ 64" and d: "unat (mr_depth r) < 100"
  let ?r1 = "r\<lparr>mr_remaining := bs @ rest, mr_tags := mr_tags r + of_nat n - 1, mr_depth := mr_depth r + 1\<rparr>"
  have nz: "mr_tags r \<noteq> 0" using i by (auto simp: unat_eq_zero)
  have step: "skip_step r = (if unat (mr_depth r) + 1 < 100 then Inr ?r1 else Inl (Schema Maximum_depth))"
    using assms(1)[unfolded opens_def, rule_format, of r "bs @ rest"] r nz t d by simp
  show "skip_loop initial r =
       (if unat (mr_depth r) + Suc c < 100 then
          let r' = r\<lparr>mr_remaining := rest, mr_tags := mr_tags r - of_nat 1, mr_depth := mr_depth r + of_nat (Suc c)\<rparr> in
          if initial \<le> mr_tags r' then skip_loop initial r' else Inr r'
        else Inl (Schema Maximum_depth))"
  proof (cases "unat (mr_depth r) + 1 < 100")
    case False
    then show ?thesis by (subst skip_loop.simps) (simp add: step)
  next
    case True
    from assms(2) show ?thesis
    proof
      assume "n = 0 \<and> t = 0 \<and> c = 0 \<and> bs = []"
      with True show ?thesis by (subst skip_loop.simps) (simp add: step Let_def)
    next
      assume n: "1 \<le> n \<and> skipped_as n t c bs"
      have sum: "unat (mr_tags r + of_nat n) = unat (mr_tags r) + n"
        using t by (simp add: unat_word_ariths unat_of_nat)
      have "unat (mr_tags r + of_nat n - 1) = unat (mr_tags r) + n - 1"
        using n sum unat_minus_of_nat[of 1 "mr_tags r + of_nat n"] by simp
      then have tags: "unat (mr_tags ?r1) = unat (mr_tags r) + n - 1" by simp
      then have go: "initial \<le> mr_tags ?r1" using n[THEN conjunct1] i(2) unfolding word_le_nat_alt tags by linarith
      have d1: "unat (mr_depth ?r1) = unat (mr_depth r) + 1" using unat_depth[of "mr_depth r" 1] True by simp
      have first: "skip_loop initial r = skip_loop initial ?r1" using True go by (subst skip_loop.simps) (simp add: step)
      have "skip_loop initial ?r1 = (if unat (mr_depth ?r1) + c < 100 then
          let r' = ?r1\<lparr>mr_remaining := rest, mr_tags := mr_tags ?r1 - of_nat n, mr_depth := mr_depth ?r1 + of_nat c\<rparr> in
          if initial \<le> mr_tags r' then skip_loop initial r' else Inr r'
        else Inl (Schema Maximum_depth))"
        using n i t tags d1 True by (intro skipped_asD[of n t c bs]) auto
      then show ?thesis unfolding first using d1 by (simp add: Let_def add.assoc)
    qed
  qed
qed

lemma read_count_header:
  assumes "f \<in> {ftag_array, ftag_object}" and "types = (if f = ftag_array then array_types else object_types)" and "n < 2 ^ 64"
    and "write_count f types (of_nat n) w = Inr w'"
  shows "\<exists>b hs. w' = put (b # hs) w \<and> (ft_matches f b \<or> is_tag (map snd types) b) \<and>
    (\<forall>r rest. mr_remaining r = b # hs @ rest \<longrightarrow> read_count f types e r = Inr (of_nat n, r\<lparr>mr_remaining := rest\<rparr>))"
proof -
  have "f \<in> {ftag_string, ftag_array, ftag_object}" using assms(1) by blast
  from write_count_put[OF assms(4,3) this] consider b where "w' = put [b] w" "ft_matches f b" "unat (ft_extract f b) = n"
    | m t where "(m, t) \<in> set types" "w' = put (tag_byte t # be_bytes m (of_nat n)) w" "n < 256 ^ m" by auto
  then show ?thesis
  proof cases
    case 1
    then have "ucast (ft_extract f b) = (of_nat n :: u64)" by (metis of_nat_unat)
    with 1 show ?thesis by (intro exI[of _ b] exI[of _ "[]"]) (simp add: read_count_def get_tag_def peek_tag_def remove_prefix_def)
  next
    case (2 m t)
    have small: "unat (of_nat n :: u64) mod 256 ^ m = n"
      using 2(3) assms(3) by (simp add: unat_of_nat take_bit_nat_eq_self)
    have "distinct (map snd types)" using assms(2) by (auto simp: array_types_def object_types_def)
    with 2(1) have typed: "read_count_types types e (tag_byte t) r = check (read_endian m r) (\<lambda>(x, r). Inr (of_nat x, r))" for r
      by (induction types) (auto simp: image_iff)
    have "\<not> ft_matches f (tag_byte t)" using assms(1) by auto
    with 2 small show ?thesis
      by (intro exI[of _ "tag_byte t"] exI[of _ "be_bytes m (of_nat n)"])
        (auto simp: read_count_def get_tag_def peek_tag_def remove_prefix_def typed read_endian_be_bytes intro: rev_image_eqI)
  qed
qed

lemma skip_token_array:
  assumes "ft_matches ftag_array b \<or> is_tag [Array16, Array32] b"
  shows "skip_token b r = check (start_array 0 r) (\<lambda>(_, r). Inr r)"
proof (cases "ft_matches ftag_array b")
  case True
  then have "\<not> is_tag ts b" "\<not> ft_matches ftag_string b" for ts using is_tag_range[of ts b] by (auto simp: matches_ranges)
  with True show ?thesis by (simp add: skip_token_def)
next
  case False
  with assms obtain t where "b = tag_byte t" "t = Array16 \<or> t = Array32" by (auto simp: is_tag_def)
  then show ?thesis by (auto simp: skip_token_def)
qed

lemma skip_token_object:
  assumes "ft_matches ftag_object b \<or> is_tag [Object16, Object32] b"
  shows "skip_token b r = check (start_object r) (\<lambda>(_, r). Inr r)"
proof (cases "ft_matches ftag_object b")
  case True
  then have "\<not> is_tag ts b" "\<not> ft_matches ftag_string b" "\<not> ft_matches ftag_array b" for ts
    using is_tag_range[of ts b] by (auto simp: matches_ranges)
  with True show ?thesis by (simp add: skip_token_def)
next
  case False
  with assms obtain t where "b = tag_byte t" "t = Object16 \<or> t = Object32" by (auto simp: is_tag_def)
  then show ?thesis by (auto simp: skip_token_def)
qed

lemma no_overflow: "unat (x :: u64) + n < 2 ^ 64 \<Longrightarrow> \<not> - 1 - x < of_nat n"
proof -
  assume sum: "unat x + n < 2 ^ 64"
  have "unat (- 1 - x) = 2 ^ 64 - 1 - unat x"
    by (subst unat_sub) (simp_all add: unsigned_minus_1_eq_mask mask_eq_exp_minus_1)
  moreover have "unat (of_nat n :: u64) = n" using sum by (simp add: unat_of_nat take_bit_nat_eq_self)
  ultimately show ?thesis using sum by (simp add: word_less_nat_alt)
qed

lemma increment_depth_eq:
  "unat (mr_depth r) < 100 \<Longrightarrow> increment_depth r =
     (if unat (mr_depth r) + 1 < 100 then Inr (r\<lparr>mr_depth := mr_depth r + 1\<rparr>) else Inl (Schema Maximum_depth))"
  by (auto simp: increment_depth_def max_read_depth_def word_unat_eq_iff unat_word_ariths)

text \<open>Both containers begin with a count; \<open>m\<close> is how many values one of them stands for.\<close>

lemma opens_header:
  assumes count: "\<And>r rest. mr_remaining r = b # hs @ rest \<Longrightarrow> unat (mr_tags r) + m < 2 ^ 64 \<Longrightarrow>
      skip_token b r = check (increment_depth (r\<lparr>mr_remaining := rest, mr_tags := mr_tags r + of_nat m\<rparr>)) Inr"
  shows "opens m (b # hs)"
  unfolding opens_def
proof (intro allI impI)
  fix r :: reader and rest
  assume r: "mr_remaining r = (b # hs) @ rest" "mr_tags r \<noteq> 0" "unat (mr_tags r) + m < 2 ^ 64" "unat (mr_depth r) < 100"
  have "unat (mr_tags r + of_nat m) \<noteq> 0" using r(2,3) by (simp add: unat_word_ariths unat_of_nat unat_eq_zero)
  then have "mr_tags r + of_nat m \<noteq> 0" by (simp add: unat_eq_zero)
  with r count[of r rest] show "skip_step r = (if unat (mr_depth r) + 1 < 100
      then Inr (r\<lparr>mr_remaining := rest, mr_tags := mr_tags r + of_nat m - 1, mr_depth := mr_depth r + 1\<rparr>)
      else Inl (Schema Maximum_depth))"
    by (simp add: skip_step_def peek_tag_def increment_depth_eq update_tags_def)
qed

lemma array_header:
  assumes "write_start_array (of_nat n) w = Inr w'" and "n < 2 ^ 64"
  obtains b hs where "w' = put (b # hs) w\<lparr>wr_expected := wr_expected w + of_nat n\<rparr>" and "ft_matches ftag_array b \<or> is_tag [Array16, Array32] b"
    and "\<And>r rest m. mr_remaining r = b # hs @ rest \<Longrightarrow> unat (mr_tags r) + n < 2 ^ 64 \<Longrightarrow> m = 0 \<or> n \<le> length rest div m \<Longrightarrow>
      start_array m r = check (increment_depth (r\<lparr>mr_remaining := rest, mr_tags := mr_tags r + of_nat n\<rparr>)) (\<lambda>r. Inr (of_nat n, r))"
proof -
  from assms(1) obtain w1 where w1: "write_count ftag_array array_types (of_nat n) w = Inr w1"
    and w': "w' = w1\<lparr>wr_expected := wr_expected w1 + of_nat n\<rparr>" by (auto simp: write_start_array_def check_Inr_iff)
  from read_count_header[OF _ _ assms(2) w1, of Expected_array] obtain b hs where hs: "w1 = put (b # hs) w"
    "ft_matches ftag_array b \<or> is_tag [Array16, Array32] b"
    "\<And>r rest. mr_remaining r = b # hs @ rest \<Longrightarrow> read_count ftag_array array_types Expected_array r = Inr (of_nat n, r\<lparr>mr_remaining := rest\<rparr>)"
    by (auto simp: array_types_def)
  have "unat (of_nat n :: u64) = n" using assms(2) by (simp add: unat_of_nat take_bit_nat_eq_self)
  with hs w' show thesis
    by (intro that[of b hs]) (auto simp: put_def start_array_def no_overflow not_less)
qed

lemma object_header:
  assumes "write_start_object (of_nat n) w = Inr w'" and "n < 2 ^ 63"
  obtains b hs where "w' = put (b # hs) w\<lparr>wr_expected := wr_expected w + of_nat n * 2\<rparr>" and "ft_matches ftag_object b \<or> is_tag [Object16, Object32] b"
    and "\<And>r rest. mr_remaining r = b # hs @ rest \<Longrightarrow> unat (mr_tags r) + 2 * n < 2 ^ 64 \<Longrightarrow>
      start_object r = check (increment_depth (r\<lparr>mr_remaining := rest, mr_tags := mr_tags r + of_nat (2 * n)\<rparr>)) (\<lambda>r. Inr (of_nat n, r))"
proof -
  from assms(1) obtain w1 where w1: "write_count ftag_object object_types (of_nat n) w = Inr w1"
    and w': "w' = w1\<lparr>wr_expected := wr_expected w1 + of_nat n * 2\<rparr>" by (auto simp: write_start_object_def check_Inr_iff)
  from assms(2) have n: "n < 2 ^ 64" by simp
  from read_count_header[OF _ _ n w1, of Expected_object] obtain b hs where hs: "w1 = put (b # hs) w"
    "ft_matches ftag_object b \<or> is_tag [Object16, Object32] b"
    "\<And>r rest. mr_remaining r = b # hs @ rest \<Longrightarrow> read_count ftag_object object_types Expected_object r = Inr (of_nat n, r\<lparr>mr_remaining := rest\<rparr>)"
    by (auto simp: object_types_def fixed_tag_defs)
  have half: "\<not> 9223372036854775807 < (of_nat n :: u64)"
    using assms(2) by (simp add: word_less_nat_alt unat_of_nat)
  have twice: "(of_nat n :: u64) * 2 = of_nat (2 * n)" by (simp add: mult.commute)
  have over: "\<not> - 1 - x < 2 * of_nat n" if "unat x + 2 * n < 2 ^ 64" for x :: u64
    using no_overflow[OF that] by simp
  from hs w' show thesis
    by (intro that[of b hs]) (auto simp: put_def start_object_def half twice over)
qed

lemma opens_array:
  assumes "write_start_array (of_nat n) w = Inr w'" and "n < 2 ^ 64"
  shows "\<exists>hs. opens n hs \<and> w' = put hs w\<lparr>wr_expected := wr_expected w + of_nat n\<rparr>"
proof (rule array_header[OF assms])
  fix b hs
  assume w': "w' = put (b # hs) w\<lparr>wr_expected := wr_expected w + of_nat n\<rparr>" and b: "ft_matches ftag_array b \<or> is_tag [Array16, Array32] b"
    and start: "\<And>r rest m. mr_remaining r = b # hs @ rest \<Longrightarrow> unat (mr_tags r) + n < 2 ^ 64 \<Longrightarrow> m = 0 \<or> n \<le> length rest div m \<Longrightarrow>
      start_array m r = check (increment_depth (r\<lparr>mr_remaining := rest, mr_tags := mr_tags r + of_nat n\<rparr>)) (\<lambda>r. Inr (of_nat n, r))"
  have "opens n (b # hs)"
    by (rule opens_header) (simp add: skip_token_array[OF b] start check_def split: sum.splits)
  with w' show ?thesis by blast
qed

lemma opens_object:
  assumes "write_start_object (of_nat n) w = Inr w'" and "n < 2 ^ 63"
  shows "\<exists>hs. opens (2 * n) hs \<and> w' = put hs w\<lparr>wr_expected := wr_expected w + of_nat n * 2\<rparr>"
proof (rule object_header[OF assms])
  fix b hs
  assume w': "w' = put (b # hs) w\<lparr>wr_expected := wr_expected w + of_nat n * 2\<rparr>" and b: "ft_matches ftag_object b \<or> is_tag [Object16, Object32] b"
    and start: "\<And>r rest. mr_remaining r = b # hs @ rest \<Longrightarrow> unat (mr_tags r) + 2 * n < 2 ^ 64 \<Longrightarrow>
      start_object r = check (increment_depth (r\<lparr>mr_remaining := rest, mr_tags := mr_tags r + of_nat (2 * n)\<rparr>)) (\<lambda>r. Inr (of_nat n, r))"
  have "opens (2 * n) (b # hs)"
    by (rule opens_header) (simp add: skip_token_object[OF b] start check_def split: sum.splits)
  with w' show ?thesis by blast
qed

section \<open>Skipping what was written\<close>

definition value_skipped :: "wire_value \<Rightarrow> bool" where
  "value_skipped v \<longleftrightarrow> (\<forall>w w'. write_value v w = Inr w' \<longrightarrow> sized v \<longrightarrow>
     (\<exists>bs. w' = written (put bs w) \<and> skipped_as 1 (tokens v) (containers v) bs))"

lemma put_Nil [simp]: "put [] w = w"
  by (simp add: put_def)

lemma written_put: "put bs (written w) = written (put bs w)"
  by (simp add: put_def written_def)

lemma values_skipped:
  assumes "\<And>v. v \<in> set vs \<Longrightarrow> value_skipped v" and "write_values vs w = Inr w'" and "list_all sized vs"
  shows "\<exists>bs. w' = (put bs w)\<lparr>wr_expected := wr_expected w - of_nat (length vs)\<rparr> \<and> (vs = [] \<and> bs = [] \<or>
    vs \<noteq> [] \<and> skipped_as (length vs) (sum_list (map tokens vs)) (sum_list (map containers vs)) bs)"
  using assms
proof (induction vs arbitrary: w)
  case (Cons v vs)
  from Cons.prems(2) obtain w1 where w1: "write_value v w = Inr w1" "write_values vs w1 = Inr w'" by (auto simp: check_Inr_iff)
  from Cons.prems(1)[of v] w1(1) Cons.prems(3) obtain bs where bs: "w1 = written (put bs w)" "skipped_as 1 (tokens v) (containers v) bs"
    by (auto simp: value_skipped_def)
  from Cons.IH[OF _ w1(2)] Cons.prems obtain cs where cs: "w' = (put cs w1)\<lparr>wr_expected := wr_expected w1 - of_nat (length vs)\<rparr>"
    "vs = [] \<and> cs = [] \<or> vs \<noteq> [] \<and> skipped_as (length vs) (sum_list (map tokens vs)) (sum_list (map containers vs)) cs"
    by auto
  have "skipped_as (length (v # vs)) (sum_list (map tokens (v # vs))) (sum_list (map containers (v # vs))) (bs @ cs)"
    using cs(2) bs(2) skipped_append[OF bs(2), of "length vs" _ _ cs] by (auto simp: Suc_le_eq)
  moreover have "w' = (put (bs @ cs) w)\<lparr>wr_expected := wr_expected w - of_nat (length (v # vs))\<rparr>"
    using cs(1) bs(1) by (simp add: written_def put_def algebra_simps)
  ultimately show ?case by blast
qed simp

text \<open>The fields of an object are written like a list that alternates between keys and values.\<close>

definition kids :: "(wire_value \<times> wire_value) list \<Rightarrow> wire_value list" where
  "kids kvs = concat (map (\<lambda>(k, v). [k, v]) kvs)"

lemma kids_Nil: "kids [] = []" "kids kvs = [] \<longleftrightarrow> kvs = []"
  by (simp add: kids_def) (cases kvs, auto simp: kids_def)

lemma kids_simps:
  "write_pairs kvs w = write_values (kids kvs) w"
  "length (kids kvs) = 2 * length kvs"
  "set (kids kvs) = (\<Union>(k, v) \<in> set kvs. {k, v})"
  "sum_list (map tokens (kids kvs)) = sum_list (map (\<lambda>(k, v). tokens k + tokens v) kvs)"
  "sum_list (map containers (kids kvs)) = sum_list (map (\<lambda>(k, v). containers k + containers v) kvs)"
  "list_all sized (kids kvs) = list_all (\<lambda>(k, v). sized k \<and> sized v) kvs"
proof -
  show "write_pairs kvs w = write_values (kids kvs) w"
    by (induction kvs arbitrary: w) (auto simp: kids_def check_def split: sum.splits)
  show "length (kids kvs) = 2 * length kvs" by (induction kvs) (auto simp: kids_def)
  show "set (kids kvs) = (\<Union>(k, v) \<in> set kvs. {k, v})" by (auto simp: kids_def)
  show "sum_list (map tokens (kids kvs)) = sum_list (map (\<lambda>(k, v). tokens k + tokens v) kvs)"
    by (induction kvs) (auto simp: kids_def)
  show "sum_list (map containers (kids kvs)) = sum_list (map (\<lambda>(k, v). containers k + containers v) kvs)"
    by (induction kvs) (auto simp: kids_def)
  show "list_all sized (kids kvs) = list_all (\<lambda>(k, v). sized k \<and> sized v) kvs"
    by (induction kvs) (auto simp: kids_def)
qed

lemma value_skippedI:
  "(\<And>w w'. write_value v w = Inr w' \<Longrightarrow> sized v \<Longrightarrow> \<exists>bs. w' = written (put bs w) \<and> skips bs) \<Longrightarrow> containers v = 0 \<Longrightarrow> value_skipped v"
  using skipped_scalar unfolding value_skipped_def by metis

lemma write_value_skipped: "value_skipped v"
proof (induction v)
  case (Boolean_value b)
  show ?case using boolean_token(2)[of b] by (intro value_skippedI) (auto simp: write_boolean_def)
next
  case (Integer_value v)
  show ?case by (rule value_skippedI) (metis Inr_inject write_value.simps(2) written_signed, simp)
next
  case (Unsigned_value v)
  show ?case by (rule value_skippedI) (metis Inr_inject write_value.simps(3) written_unsigned, simp)
next
  case (Real_value bs)
  show ?case using real_token(2)[of bs] by (intro value_skippedI) (auto simp: write_real_def)
next
  case (String_value bs)
  show ?case using written_string[of bs] by (intro value_skippedI) auto
next
  case (Binary_value bs)
  show ?case using written_binary[of bs] by (intro value_skippedI) auto
next
  case (Array_value vs)
  show ?case unfolding value_skipped_def
  proof (intro allI impI)
    fix w w' assume run: "write_value (Array_value vs) w = Inr w'" and ok: "sized (Array_value vs)"
    from run obtain w1 w2 where w1: "write_start_array (of_nat (length vs)) w = Inr w1" "write_values vs w1 = Inr w2" "w' = written w2"
      by (auto simp: check_Inr_iff)
    from ok have "length vs < 2 ^ 64" by simp
    from opens_array[OF w1(1) this] obtain hs where hs: "opens (length vs) hs" "w1 = put hs w\<lparr>wr_expected := wr_expected w + of_nat (length vs)\<rparr>"
      by blast
    from values_skipped[OF Array_value w1(2)] ok obtain bs where bs: "w2 = (put bs w1)\<lparr>wr_expected := wr_expected w1 - of_nat (length vs)\<rparr>"
      "vs = [] \<and> bs = [] \<or> vs \<noteq> [] \<and> skipped_as (length vs) (sum_list (map tokens vs)) (sum_list (map containers vs)) bs" by auto
    have "skipped_as 1 (Suc (length vs + sum_list (map tokens vs))) (Suc (sum_list (map containers vs))) (hs @ bs)"
      using bs(2) by (intro skipped_container[OF hs(1)]) (auto simp: Suc_le_eq)
    moreover have "w' = written (put (hs @ bs) w)" using hs(2) bs(1) w1(3) by (simp add: put_def written_def)
    ultimately show "\<exists>bs. w' = written (put bs w) \<and> skipped_as 1 (tokens (Array_value vs)) (containers (Array_value vs)) bs"
      by auto
  qed
next
  case (Object_value kvs)
  show ?case unfolding value_skipped_def
  proof (intro allI impI)
    fix w w' assume run: "write_value (Object_value kvs) w = Inr w'" and ok: "sized (Object_value kvs)"
    from run obtain w1 w2 where w1: "write_start_object (of_nat (length kvs)) w = Inr w1" "write_values (kids kvs) w1 = Inr w2" "w' = written w2"
      by (auto simp: check_Inr_iff kids_simps(1))
    from ok have "length kvs < 2 ^ 63" by simp
    from opens_object[OF w1(1) this] obtain hs where hs: "opens (2 * length kvs) hs" "w1 = put hs w\<lparr>wr_expected := wr_expected w + of_nat (length kvs) * 2\<rparr>"
      by blast
    have "value_skipped x" if "x \<in> set (kids kvs)" for x
      using that Object_value by (auto simp: kids_simps(3))
    from values_skipped[OF this w1(2)] ok obtain bs where bs: "w2 = (put bs w1)\<lparr>wr_expected := wr_expected w1 - of_nat (length (kids kvs))\<rparr>"
      "kids kvs = [] \<and> bs = [] \<or> kids kvs \<noteq> [] \<and> skipped_as (length (kids kvs)) (sum_list (map tokens (kids kvs))) (sum_list (map containers (kids kvs))) bs"
      by (auto simp: kids_simps(6))
    have "skipped_as 1 (Suc (2 * length kvs + sum_list (map tokens (kids kvs)))) (Suc (sum_list (map containers (kids kvs)))) (hs @ bs)"
      using bs(2) by (intro skipped_container[OF hs(1)]) (auto simp: Suc_le_eq kids_simps(2) kids_Nil)
    moreover have "w' = written (put (hs @ bs) w)" using hs(2) bs(1) w1(3) by (simp add: put_def written_def kids_simps(2) mult.commute)
    ultimately show "\<exists>bs. w' = written (put bs w) \<and> skipped_as 1 (tokens (Object_value kvs)) (containers (Object_value kvs)) bs"
      by (auto simp: kids_simps)
  qed
qed

text \<open>
  C33: A value that the writer produces is skipped as exactly its bytes and as one of the expected values;
  but every array and object in it, nested or not, raises the depth of the reader for good, so it is
  refused when there are too many of them.
\<close>

theorem skip_value_written:
  assumes "write_value v w = Inr w'" and "sized v" and "wr_bytes w' = wr_bytes w @ bs"
    and "mr_remaining r = bs @ rest" and "mr_tags r \<noteq> 0" and "unat (mr_tags r) + tokens v < 2 ^ 64" and "mr_depth r < max_read_depth"
  shows "skip_value r =
    (if unat (mr_depth r) + containers v < 100
     then Inr (r\<lparr>mr_remaining := rest, mr_tags := mr_tags r - 1, mr_depth := mr_depth r + of_nat (containers v)\<rparr>)
     else Inl (Schema Maximum_depth))"
proof -
  from write_value_skipped assms(1,2) obtain cs where cs: "w' = written (put cs w)" "skipped_as 1 (tokens v) (containers v) cs"
    unfolding value_skipped_def by blast
  with assms(3) have [simp]: "cs = bs" by (simp add: put_def written_def)
  have "unat (mr_tags r) + 1 < 2 ^ 64" using assms(6) by (cases v) auto
  then have "mr_tags r \<noteq> - 1" by (auto simp: unsigned_minus_1_eq_mask mask_eq_exp_minus_1)
  moreover have "skip_loop (mr_tags r) r = (if unat (mr_depth r) + containers v < 100 then
      let r' = r\<lparr>mr_remaining := rest, mr_tags := mr_tags r - of_nat 1, mr_depth := mr_depth r + of_nat (containers v)\<rparr> in
      if mr_tags r \<le> mr_tags r' then skip_loop (mr_tags r) r' else Inr r'
    else Inl (Schema Maximum_depth))"
    using assms cs by (intro skipped_asD) (auto simp: max_read_depth_def word_less_nat_alt)
  moreover have "\<not> mr_tags r \<le> mr_tags r - 1"
    using assms(5) unat_minus_of_nat[of 1 "mr_tags r"] unat_gt_0[of "mr_tags r"] by (simp add: word_le_nat_alt Suc_le_eq)
  ultimately show ?thesis by (auto simp: skip_value_def Let_def)
qed

text \<open>
  C35: Whatever the bytes are, skipping ends; a value that it accepts has at least one byte, is read from
  the front of the input, counts as one of the expected values, and leaves the depth below its bound.
\<close>

theorem skip_value_bounds:
  assumes "skip_value r = Inr r'" and "mr_tags r \<noteq> 0" and "mr_depth r < max_read_depth"
  shows "(\<exists>bs. bs \<noteq> [] \<and> mr_remaining r = bs @ mr_remaining r') \<and> mr_tags r' = mr_tags r - 1 \<and>
    mr_depth r \<le> mr_depth r' \<and> mr_depth r' < max_read_depth"
proof -
  have "skip_loop (mr_tags r) r = Inr r'" using assms(1) by (simp add: skip_value_def split: if_splits)
  from skip_loop_bounds[OF this _ assms(2,3)] show ?thesis by (auto simp: leaves_def suffix_def)
qed

definition demo_tree :: wire_value where
  "demo_tree = Array_value [Object_value [(String_value [104, 105], Integer_value (- 5))], Unsigned_value 300, Binary_value [1, 2, 3]]"

definition demo_tree_bytes :: span where
  "demo_tree_bytes = [0x93, 0x81, 0xa2, 104, 105, 0xd0, 0xfb, 0xcd, 1, 44, 0xc4, 3, 1, 2, 3]"

lemma be_bytes_code [code]: "be_bytes n v = rev (map (\<lambda>i. word_of_int (uint v div 256 ^ i)) [0..<n])"
proof -
  have "nat_le n (nat x) = map (\<lambda>i. word_of_int (x div 256 ^ i)) [0..<n]" if "0 \<le> x" for x
    using that
  proof (induction n arbitrary: x)
    case (Suc n)
    have "[0..<Suc n] = 0 # map Suc [0..<n]" by (simp add: upt_conv_Cons map_Suc_upt)
    moreover have "(of_nat (nat x mod 256) :: u8) = word_of_int x"
    proof -
      have "int (nat x mod 256) = x mod 256" using Suc.prems by (simp add: zmod_int)
      then have "(of_nat (nat x mod 256) :: u8) = word_of_int (x mod 256)" by (metis of_int_of_nat_eq)
      then show ?thesis by (simp add: word_of_int_eq_iff take_bit_eq_mod)
    qed
    moreover have "nat x div 256 = nat (x div 256)" using Suc.prems by (simp add: nat_div_distrib)
    ultimately show ?case using Suc.IH[of "x div 256"] Suc.prems by (simp add: comp_def zdiv_zmult2_eq)
  qed simp
  from this[of "uint v"] show ?thesis by (simp add: be_bytes_def flip: unat_eq_nat_uint)
qed

lemma demo_tree_written:
  "write_value demo_tree (new_writer [] False) = Inr \<lparr>wr_bytes = demo_tree_bytes, wr_expected = 0, wr_integer_keys = False\<rparr>"
  by code_simp

theorem skip_value_written_witness:
  "skip_value \<lparr>mr_remaining = demo_tree_bytes @ [7], mr_tags = 1, mr_depth = 90\<rparr> = Inr \<lparr>mr_remaining = [7], mr_tags = 0, mr_depth = 92\<rparr> \<and>
   skip_value \<lparr>mr_remaining = demo_tree_bytes @ [7], mr_tags = 1, mr_depth = 98\<rparr> = Inl (Schema Maximum_depth)"
proof -
  have count: "sized demo_tree" "tokens demo_tree = 11" "containers demo_tree = 2" by (simp_all add: demo_tree_def)
  note skipped = skip_value_written[OF demo_tree_written count(1), unfolded count, of demo_tree_bytes]
  show ?thesis using skipped by (simp add: new_writer_def max_read_depth_def)
qed

theorem skip_value_bounds_witness:
  "\<exists>r'. skip_value (new_reader demo_tree_bytes) = Inr r' \<and> mr_tags r' = 0 \<and> mr_depth r' < max_read_depth"
proof -
  obtain r' where r': "skip_value (new_reader demo_tree_bytes) = Inr r'"
  proof -
    have "skip_value (new_reader demo_tree_bytes) = Inr \<lparr>mr_remaining = [], mr_tags = 0, mr_depth = 2\<rparr>" by code_simp
    then show thesis by (rule that)
  qed
  have start: "mr_tags (new_reader demo_tree_bytes) \<noteq> 0" "mr_depth (new_reader demo_tree_bytes) < max_read_depth"
    "mr_tags (new_reader demo_tree_bytes) = 1" by (simp_all add: new_reader_def max_read_depth_def)
  from skip_value_bounds[OF r' start(1,2)] r' start(3) show ?thesis by auto
qed

text \<open>A number that is cut off by the end of the input is skipped like a complete one.\<close>

lemma truncated_is_skipped:
  "skip_value (new_reader [tag_byte Uint64, 1]) = Inr \<lparr>mr_remaining = [], mr_tags = 0, mr_depth = 0\<rparr>"
  by code_simp

text \<open>No negative number is written as a single byte, although the format and the writer provide for it.\<close>

lemma negative_has_tag:
  assumes "sint v < 0" and "write_integer v w = Inr w'"
  shows "\<exists>p \<in> set signed_types. wr_bytes w' = wr_bytes w @ tag_byte (snd p) # be_bytes (fst p) v"
proof -
  from assms obtain w1 where "write_signed signed_types v w = Inr w1" "w' = written w1"
    by (auto simp: write_integer_def do_write_integer_def check_Inr_iff split: if_splits)
  with write_signed_put[OF this(1)] show ?thesis by (auto simp: written_def put_def intro: rev_bexI)
qed

end
