(* ===== verification/WireObject.thy ===== *)
theory WireObject
  imports MsgpackSkip
begin

text \<open>
  Arrays and objects on the wire: \<open>wire_read::array\<close>, \<open>wire_read::object\<close> (\<open>src/src/wire/read.h\<close>) and
  \<open>wire_write\<close> (\<open>src/src/wire/write.h\<close>) with msgpack, and two things that are stored or sent this way:
  the data of webhooks in the database and the first command of a scanner.

  A field of an object fills a part of the structure that is read; templates over the type of a
  value are functions that read or write it.
\<close>

section \<open>Reading\<close>

text \<open>An unsigned integer of a smaller type.\<close>

definition cast_unsigned :: "u64 \<Rightarrow> u64 \<Rightarrow> wire_error + u64" where
  "cast_unsigned limit v = (if limit < v then Inl (Schema Smaller_integer) else Inr v)"

definition read_uint32 :: "u32 reads" where
  "read_uint32 r = check (read_unsigned r) (\<lambda>(v, r). check (cast_unsigned (2 ^ 32 - 1) v) (\<lambda>v. Inr (ucast v, r)))"

function array_loop :: "'a reads \<Rightarrow> nat \<Rightarrow> nat \<Rightarrow> nat \<Rightarrow> bool \<Rightarrow> u64 \<Rightarrow> 'a list \<Rightarrow> 'a list reads" where
  "array_loop elem min_size max_count start_bytes again count dest r =
     check (if again then Inr (False, r) else is_array_end count r) (\<lambda>(ended, r).
       if ended then Inr (dest, r)
       else if max_count \<le> length dest then Inl (Schema Array_max_element)
       else check (elem r) (\<lambda>(x, r).
         let dest = dest @ [x]; count = count - 1 in
         if (start_bytes - length (mr_remaining r)) div length dest < min_size then Inl (Schema Array_min_size)
         else array_loop elem min_size max_count start_bytes (again \<and> count \<noteq> 0) count dest r))"
  by pat_completeness auto
termination
  by (relation "measure (\<lambda>(elem, min_size, max_count, start_bytes, again, count, dest, r). max_count - length dest)") auto

declare array_loop.simps [simp del]

definition read_array :: "'a reads \<Rightarrow> nat \<Rightarrow> nat \<Rightarrow> 'a list reads" where
  "read_array elem min_size max_count r =
     check (start_array min_size r) (\<lambda>(count, r).
       if max_count < unat count then Inl (Schema Array_max_element)
       else if min_size \<noteq> 0 \<and> length (mr_remaining r) div min_size < unat count then Inl (Schema Array_min_size)
       else check (array_loop elem min_size max_count (length (mr_remaining r)) (count \<noteq> 0) count [] r) (\<lambda>(dest, r).
         check (decrement_depth r) (\<lambda>r. Inr (dest, r))))"

text \<open>A field knows how its value is put into the structure, and what an omitted optional one leaves.\<close>

record 's field =
  fd_name :: span
  fd_id :: u32
  fd_required :: bool
  fd_unpack :: "'s \<Rightarrow> 's reads"
  fd_reset :: "'s \<Rightarrow> 's"

definition key_map :: "'s field list \<Rightarrow> key_entry list" where
  "key_map fs = map (\<lambda>f. \<lparr>ke_name = fd_name f, ke_id = fd_id f\<rparr>) fs"

lemma read_key_less: "read_key known state r = Inr (Some (i, state'), r') \<Longrightarrow> unat state' < unat state \<and> i < length known"
proof (induction known state r rule: read_key.induct)
  case (1 known state r)
  from "1.prems" have nz: "state \<noteq> 0" by (subst (asm) read_key.simps) (auto simp: check_Inr_iff split: if_splits)
  then have less: "unat (state - 1) < unat state" by (rule measure_unat)
  from "1.prems" nz obtain index r1 where m: "match_key known r = Inr (index, r1)"
    and cont: "(if index < length known then Inr (Some (index, state - 1), r1)
        else check (skip_value r1) (\<lambda>r. read_key known (state - 1) r)) = Inr (Some (i, state'), r')"
    by (subst (asm) read_key.simps) (auto simp: check_Inr_iff)
  show ?case
  proof (cases "index < length known")
    case True
    with cont less show ?thesis by auto
  next
    case False
    with cont obtain r2 where r2: "skip_value r1 = Inr r2" "read_key known (state - 1) r2 = Inr (Some (i, state'), r')"
      by (auto simp: check_Inr_iff)
    from "1.IH"[OF nz m _ _ r2] False less show ?thesis by auto
  qed
qed

text \<open>Every known field is read once; the number of required fields that are missing is counted down.\<close>

function object_loop :: "'s field list \<Rightarrow> u64 \<Rightarrow> nat \<Rightarrow> bool list \<Rightarrow> 's \<Rightarrow> (nat \<times> bool list \<times> 's) reads" where
  "object_loop fs state required seen s r =
     check (read_key (key_map fs) state r) (\<lambda>(found, r).
       case found of
         None \<Rightarrow> Inr ((required, seen, s), r)
       | Some (index, state) \<Rightarrow>
           if seen ! index then Inl (Schema Invalid_key)
           else check (fd_unpack (fs ! index) s r) (\<lambda>(s, r).
             object_loop fs state (if fd_required (fs ! index) then required - 1 else required) (seen[index := True]) s r))"
  by pat_completeness auto
termination
  by (relation "measure (\<lambda>(fs, state, required, seen, s, r). unat state)") (auto dest: read_key_less)

declare object_loop.simps [simp del]

definition reset_omitted :: "'s field list \<Rightarrow> bool list \<Rightarrow> 's \<Rightarrow> 's" where
  "reset_omitted fs seen s = fold (\<lambda>(f, b) s. if \<not> fd_required f \<and> \<not> b then fd_reset f s else s) (zip fs seen) s"

definition read_object :: "'s field list \<Rightarrow> 's \<Rightarrow> 's reads" where
  "read_object fs s r =
     check (start_object r) (\<lambda>(state, r).
     check (object_loop fs state (length (filter fd_required fs)) (replicate (length fs) False) s r) (\<lambda>((required, seen, s), r).
       if required \<noteq> 0 then Inl (Schema Missing_key)
       else check (decrement_depth r) (\<lambda>r. Inr (reset_omitted fs seen s, r))))"

definition from_bytes :: "'a reads \<Rightarrow> span \<Rightarrow> wire_error + 'a" where
  "from_bytes rd bs = check (rd (new_reader bs)) (\<lambda>(x, r). check (check_complete r) (\<lambda>_. Inr x))"

section \<open>Writing\<close>

text \<open>A field as it is written; without a value when it is not available.\<close>

record out_field =
  of_name :: span
  of_id :: u32
  of_write :: "(writer \<Rightarrow> wire_error + writer) option"

fun write_fields :: "out_field list \<Rightarrow> writer \<Rightarrow> wire_error + writer" where
  "write_fields [] w = Inr w"
| "write_fields (f # fs) w =
     (case of_write f of
        None \<Rightarrow> write_fields fs w
      | Some bytes \<Rightarrow> check (write_key (of_id f) (of_name f) w) (\<lambda>w. check (bytes w) (\<lambda>w. write_fields fs w)))"

definition write_object :: "out_field list \<Rightarrow> writer \<Rightarrow> wire_error + writer" where
  "write_object fs w =
     check (write_start_object (of_nat (length (filter (\<lambda>f. of_write f \<noteq> None) fs))) w) (\<lambda>w.
     check (write_fields fs w) (\<lambda>w. Inr (written w)))"

fun write_elements :: "('a \<Rightarrow> writer \<Rightarrow> wire_error + writer) \<Rightarrow> 'a list \<Rightarrow> writer \<Rightarrow> wire_error + writer" where
  "write_elements bytes [] w = Inr w"
| "write_elements bytes (x # xs) w = check (bytes x w) (\<lambda>w. write_elements bytes xs w)"

definition write_array :: "('a \<Rightarrow> writer \<Rightarrow> wire_error + writer) \<Rightarrow> 'a list \<Rightarrow> writer \<Rightarrow> wire_error + writer" where
  "write_array bytes xs w =
     check (write_start_array (of_nat (length xs)) w) (\<lambda>w.
     check (write_elements bytes xs w) (\<lambda>w. Inr (written w)))"

section \<open>Reading back\<close>

text \<open>
  The bytes \<open>bs\<close> are read as \<open>x\<close> when there is room for \<open>t\<close> more expected values and \<open>d\<close> more levels.
\<close>

definition decodes :: "nat \<Rightarrow> nat \<Rightarrow> 'a reads \<Rightarrow> span \<Rightarrow> 'a \<Rightarrow> bool" where
  "decodes t d rd bs x \<longleftrightarrow> (\<forall>r rest. mr_remaining r = bs @ rest \<longrightarrow> mr_tags r \<noteq> 0 \<longrightarrow> unat (mr_tags r) + t < 2 ^ 64 \<longrightarrow>
     unat (mr_depth r) + d < 100 \<longrightarrow> rd r = Inr (x, r\<lparr>mr_remaining := rest, mr_tags := mr_tags r - 1\<rparr>))"

lemma decodesD:
  "decodes t d rd bs x \<Longrightarrow> mr_remaining r = bs @ rest \<Longrightarrow> mr_tags r \<noteq> 0 \<Longrightarrow> unat (mr_tags r) + t < 2 ^ 64 \<Longrightarrow>
     unat (mr_depth r) + d < 100 \<Longrightarrow> rd r = Inr (x, r\<lparr>mr_remaining := rest, mr_tags := mr_tags r - 1\<rparr>)"
  by (simp add: decodes_def)

lemma decodes_reads: "reads rd bs x \<Longrightarrow> decodes t d rd bs x"
  by (simp add: reads_def decodes_def)

lemma decodes_mono: "decodes t d rd bs x \<Longrightarrow> t \<le> t' \<Longrightarrow> d \<le> d' \<Longrightarrow> decodes t' d' rd bs x"
  by (auto simp: decodes_def)

lemma decodes_uint32:
  "\<exists>bs. write_unsigned (ucast v) w = Inr (written (put bs w)) \<and> decodes t d read_uint32 bs (v :: u32)"
proof -
  obtain bs where bs: "write_unsigned (ucast v) w = Inr (written (put bs w))" "reads read_unsigned bs (ucast v)"
    using written_unsigned[of "ucast v" w] by blast
  have "uint v < 2 ^ 32" using unsigned_less[of v, where ?'a = int] by simp
  then have "\<not> 2 ^ 32 - 1 < (ucast v :: u64)" by (simp add: word_less_def uint_up_ucast is_up)
  moreover have "ucast (ucast v :: u64) = v" by (simp add: ucast_up_ucast_id is_up)
  ultimately have "reads read_uint32 bs v" using bs(2) by (simp add: reads_def read_uint32_def cast_unsigned_def)
  with bs(1) show ?thesis by (intro exI[of _ bs] conjI decodes_reads)
qed

text \<open>Finding the field of a key.\<close>

lemma written_key:
  assumes "write_key key_id name w = Inr w'" and "length name < 2 ^ 64"
  shows "\<exists>bs. w' = written (put bs w) \<and> reads (match_key known) bs
    (find_key (\<lambda>e. if wr_integer_keys w then ke_id e = key_id else ke_name e = name) known)"
proof (cases "wr_integer_keys w")
  case True
  have range: "uint (ucast key_id :: u64) = uint key_id" "uint key_id \<le> 2 ^ 32 - 1"
    using unsigned_less[of key_id, where ?'a = int] by (simp_all add: uint_up_ucast is_up)
  have same: "uint (ke_id e) = uint key_id \<longleftrightarrow> ke_id e = key_id" for e :: key_entry by (simp add: word_uint_eq_iff)
  show ?thesis
  proof (cases rule: write_unsigned_cases[of "ucast key_id" w])
    case (1 b)
    have "uint (ucast b :: u64) = uint b" by (simp add: uint_up_ucast is_up)
    then have "uint b = uint key_id" using 1(3) range(1) by simp
    then have "reads (match_key known) [b] (find_key (\<lambda>e. ke_id e = key_id) known)"
      using 1(2) same by (simp add: reads_def match_key_def update_tags_def get_tag_def peek_tag_def remove_prefix_def)
    with 1(1) True assms(1) show ?thesis by (intro exI[of _ "[b]"]) (simp add: write_key_def)
  next
    case (2 n t)
    have "t \<in> {Uint8, Uint16, Uint32, Uint64}" using 2(2) by (auto simp: unsigned_types_def)
    then have "reads (match_key known) (tag_byte t # be_bytes n (ucast key_id)) (find_key (\<lambda>e. ke_id e = key_id) known)"
      using read_unsigned_number[OF 2(2,3), where lo = 0 and hi = "2 ^ 32 - 1"] range same
      by (auto simp: reads_def match_key_def update_tags_def get_tag_def peek_tag_def remove_prefix_def)
    with 2(1) True assms(1) show ?thesis by (intro exI[of _ "tag_byte t # be_bytes n (ucast key_id)"]) (simp add: write_key_def)
  qed
next
  case False
  then have "write_string name w = Inr w'" using assms(1) by (simp add: write_key_def)
  then show ?thesis
  proof (rule write_string_cases[OF _ assms(2)])
    fix b cs
    assume w': "w' = written (put (b # cs) w)" and b: "ft_matches ftag_string b \<or> is_tag [String8, String16, String32] b"
      and rd: "\<And>r rest. mr_remaining r = cs @ rest \<Longrightarrow> read_string_bytes b r = Inr (name, r\<lparr>mr_remaining := rest\<rparr>)"
    have no: "\<not> ft_matches ftag_unsigned b" using b is_tag_range[of _ b] by (auto simp: matches_ranges)
    have "\<not> is_tag [Uint8, Uint16, Uint32, Uint64] b"
    proof
      assume u: "is_tag [Uint8, Uint16, Uint32, Uint64] b"
      then obtain t where "b = tag_byte t" "t \<in> {Uint8, Uint16, Uint32, Uint64}" by (auto simp: is_tag_def)
      with b show False by auto
    qed
    with no b have "reads (match_key known) (b # cs) (find_key (\<lambda>e. name = ke_name e) known)"
      by (auto simp: reads_def match_key_def update_tags_def get_tag_def peek_tag_def remove_prefix_def rd)
    then have "reads (match_key known) (b # cs) (find_key (\<lambda>e. ke_name e = name) known)" by (simp only: eq_commute)
    with w' False show ?thesis by auto
  qed
qed

subsection \<open>Objects\<close>

text \<open>
  A field of an object on the wire: the entry it matches, if it is known, with what reading it does to
  the structure.
\<close>

record 's item =
  it_key :: span
  it_body :: span
  it_known :: "(nat \<times> ('s \<Rightarrow> 's)) option"

definition item_ok :: "nat \<Rightarrow> nat \<Rightarrow> 's field list \<Rightarrow> 's item \<Rightarrow> bool" where
  "item_ok t d fs it \<longleftrightarrow> (case it_known it of
     None \<Rightarrow> (\<exists>i. length fs \<le> i \<and> reads (match_key (key_map fs)) (it_key it) i) \<and> skips (it_body it)
   | Some (i, f) \<Rightarrow> i < length fs \<and> reads (match_key (key_map fs)) (it_key it) i \<and>
       (\<forall>s. decodes t d (fd_unpack (fs ! i) s) (it_body it) (f s)))"

definition it_bytes :: "'s item \<Rightarrow> span" where
  "it_bytes it = it_key it @ it_body it"

definition effect :: "'s item \<Rightarrow> 's \<Rightarrow> 's" where
  "effect it s = (case it_known it of None \<Rightarrow> s | Some (i, f) \<Rightarrow> f s)"

definition known_of :: "'s item list \<Rightarrow> nat list" where
  "known_of its = map fst (List.map_filter it_known its)"

lemma known_of_simps [simp]:
  "known_of [] = []"
  "known_of (it # its) = (case it_known it of None \<Rightarrow> known_of its | Some (i, f) \<Rightarrow> i # known_of its)"
  by (auto simp: known_of_def List.map_filter_simps split: option.splits)

lemma skip_value_skips:
  assumes "skips bs" and "mr_remaining r = bs @ rest" and "mr_tags r \<noteq> 0" and "unat (mr_tags r) + 1 < 2 ^ 64"
  shows "skip_value r = Inr (r\<lparr>mr_remaining := rest, mr_tags := mr_tags r - 1\<rparr>)"
proof -
  have "mr_tags r \<noteq> - 1" using assms(4) by (auto simp: unsigned_minus_1_eq_mask mask_eq_exp_minus_1)
  moreover have "\<not> mr_tags r \<le> mr_tags r - 1"
    using assms(3) unat_minus_of_nat[of 1 "mr_tags r"] unat_gt_0[of "mr_tags r"] by (simp add: word_le_nat_alt Suc_le_eq)
  moreover have "skip_step r = Inr (r\<lparr>mr_remaining := rest, mr_tags := mr_tags r - 1\<rparr>)"
    using assms(1-3) by (simp add: skips_def update_tags_def)
  ultimately show ?thesis by (simp add: skip_value_def skip_loop.simps)
qed

text \<open>The fields of an object that remain to be read.\<close>

lemma object_loop_items:
  assumes "list_all (item_ok t d fs) its" and "mr_remaining r = concat (map it_bytes its) @ rest"
    and "state = of_nat (length its)" and "2 * length its < unat (mr_tags r)" and "unat (mr_tags r) + t < 2 ^ 64" and "unat (mr_depth r) + d < 100"
    and "length seen = length fs" and "distinct (known_of its)" and "\<forall>i \<in> set (known_of its). \<not> seen ! i" and "1 \<le> t"
  shows "object_loop fs state required seen s r =
    Inr ((required - length (filter (\<lambda>i. fd_required (fs ! i)) (known_of its)),
      map (\<lambda>i. seen ! i \<or> i \<in> set (known_of its)) [0..<length fs], fold effect its s),
      r\<lparr>mr_remaining := rest, mr_tags := mr_tags r - of_nat (2 * length its) - 1\<rparr>)"
  using assms
proof (induction its arbitrary: r state required seen s)
  case Nil
  then have "read_key (key_map fs) state r = Inr (None, r\<lparr>mr_remaining := rest, mr_tags := mr_tags r - 1\<rparr>)"
    using unat_gt_0[of "mr_tags r"] by (subst read_key.simps) (simp add: update_tags_def)
  moreover have "map ((!) seen) [0..<length fs] = seen" using Nil(7) by (metis map_nth)
  ultimately show ?case using Nil by (subst object_loop.simps) simp
next
  case (Cons it its)
  let ?r1 = "r\<lparr>mr_remaining := it_body it @ concat (map it_bytes its) @ rest, mr_tags := mr_tags r - 1\<rparr>"
  let ?r2 = "r\<lparr>mr_remaining := concat (map it_bytes its) @ rest, mr_tags := mr_tags r - 2\<rparr>"
  have tags: "unat (mr_tags r - 1) = unat (mr_tags r) - 1" "unat (mr_tags r - 2) = unat (mr_tags r) - 2"
    using Cons.prems(4) unat_minus_of_nat[of 1 "mr_tags r"] unat_minus_of_nat[of 2 "mr_tags r"] by simp_all
  have nz: "mr_tags r \<noteq> 0" "mr_tags r - 1 \<noteq> 0"
    using Cons.prems(4) tags(1) unat_gt_0[of "mr_tags r"] unat_gt_0[of "mr_tags r - 1"] by simp_all
  have "Suc (length its) < 2 ^ 64" using Cons.prems(4,5) by simp
  then have "unat (of_nat (Suc (length its)) :: u64) = Suc (length its)" by (simp only: unat_of_nat take_bit_nat_eq_self) simp
  then have "unat state \<noteq> 0" using Cons.prems(3) by simp
  then have state: "state \<noteq> 0" "state - 1 = of_nat (length its)" using Cons.prems(3) by auto
  have twice: "mr_tags r - 1 - 1 = mr_tags r - 2" by simp
  have rem: "mr_remaining r = it_key it @ it_body it @ concat (map it_bytes its) @ rest"
    using Cons.prems(2) by (simp add: it_bytes_def[of it])
  note IH = Cons.IH[where r = ?r2 and state = "state - 1"]
  show ?case
  proof (cases "it_known it")
    case None
    with Cons.prems(1) obtain i where i: "length fs \<le> i" "reads (match_key (key_map fs)) (it_key it) i" and sk: "skips (it_body it)"
      by (auto simp: item_ok_def)
    have m: "match_key (key_map fs) r = Inr (i, ?r1)" using i(2) rem nz(1) by (simp add: reads_def)
    have v: "skip_value ?r1 = Inr ?r2"
      using skip_value_skips[OF sk, of ?r1 "concat (map it_bytes its) @ rest"] nz(2) tags(1) Cons.prems(5,10) twice by simp
    have "read_key (key_map fs) state r = read_key (key_map fs) (state - 1) ?r2"
      using m v state(1) i(1) by (subst read_key.simps) (simp add: key_map_def)
    then have "object_loop fs state required seen s r = object_loop fs (state - 1) required seen s ?r2"
      by (subst (1 2) object_loop.simps) simp
    with IH[where required = required and seen = seen and s = s] Cons.prems None state(2) tags(2) show ?thesis
      by (simp add: effect_def algebra_simps)
  next
    case (Some p)
    obtain i f where p: "p = (i, f)" by force
    with Some Cons.prems(1) have i: "i < length fs" "reads (match_key (key_map fs)) (it_key it) i"
      and dec: "decodes t d (fd_unpack (fs ! i) s) (it_body it) (f s)" by (auto simp: item_ok_def)
    have m: "match_key (key_map fs) r = Inr (i, ?r1)" using i(2) rem nz(1) by (simp add: reads_def)
    have k: "read_key (key_map fs) state r = Inr (Some (i, state - 1), ?r1)"
      using m state(1) i(1) by (subst read_key.simps) (simp add: key_map_def)
    have u: "fd_unpack (fs ! i) s ?r1 = Inr (f s, ?r2)"
      using decodesD[OF dec, of ?r1 "concat (map it_bytes its) @ rest"] nz(2) tags(1) Cons.prems(5,6) twice by simp
    have "\<not> seen ! i" using Cons.prems(9) Some p by simp
    then have "object_loop fs state required seen s r =
        object_loop fs (state - 1) (if fd_required (fs ! i) then required - 1 else required) (seen[i := True]) (f s) ?r2"
      using k u by (subst object_loop.simps) simp
    also have "\<dots> = Inr (((if fd_required (fs ! i) then required - 1 else required) - length (filter (\<lambda>i. fd_required (fs ! i)) (known_of its)),
        map (\<lambda>j. seen[i := True] ! j \<or> j \<in> set (known_of its)) [0..<length fs], fold effect its (f s)),
        ?r2\<lparr>mr_remaining := rest, mr_tags := mr_tags ?r2 - of_nat (2 * length its) - 1\<rparr>)"
      using Cons.prems Some p state(2) tags(2) i(1) by (intro IH) (auto simp: nth_list_update split: if_splits)
    also have "map (\<lambda>j. seen[i := True] ! j \<or> j \<in> set (known_of its)) [0..<length fs] =
        map (\<lambda>j. seen ! j \<or> j \<in> set (known_of (it # its))) [0..<length fs]"
      using Some p Cons.prems(7) i(1) by (auto simp: nth_list_update)
    finally show ?thesis using Some p by (simp add: effect_def algebra_simps)
  qed
qed

text \<open>The required fields are known ones, and no known one comes twice.\<close>

definition items_ok :: "nat \<Rightarrow> nat \<Rightarrow> 's field list \<Rightarrow> 's item list \<Rightarrow> bool" where
  "items_ok t d fs its \<longleftrightarrow> list_all (item_ok t d fs) its \<and> distinct (known_of its) \<and> length its < 2 ^ 63 \<and>
     (\<forall>i < length fs. fd_required (fs ! i) \<longrightarrow> i \<in> set (known_of its))"

lemma required_counted:
  assumes "items_ok t d fs its"
  shows "length (filter fd_required fs) \<le> length (filter (\<lambda>i. fd_required (fs ! i)) (known_of its))"
proof -
  have "{i. i < length fs \<and> fd_required (fs ! i)} \<subseteq> set (filter (\<lambda>i. fd_required (fs ! i)) (known_of its))"
    using assms by (auto simp: items_ok_def)
  then have "card {i. i < length fs \<and> fd_required (fs ! i)} \<le> card (set (filter (\<lambda>i. fd_required (fs ! i)) (known_of its)))"
    by (rule card_mono[rotated]) simp
  moreover have "distinct (filter (\<lambda>i. fd_required (fs ! i)) (known_of its))" using assms by (simp add: items_ok_def)
  ultimately show ?thesis unfolding length_filter_conv_card[of fd_required fs] by (simp only: distinct_card)
qed

lemma object_decodes:
  assumes "items_ok t d fs its" and "write_start_object (of_nat (length its)) w = Inr w'" and "1 \<le> t"
  shows "\<exists>hs. w' = put hs w\<lparr>wr_expected := wr_expected w + of_nat (length its) * 2\<rparr> \<and>
    decodes (2 * length its + t) (Suc d) (read_object fs s) (hs @ concat (map it_bytes its))
      (reset_omitted fs (map (\<lambda>i. i \<in> set (known_of its)) [0..<length fs]) (fold effect its s))"
proof -
  have n: "length its < 2 ^ 63" using assms(1) by (simp add: items_ok_def)
  show ?thesis
  proof (rule object_header[OF assms(2) n])
    fix b hs
    assume w': "w' = put (b # hs) w\<lparr>wr_expected := wr_expected w + of_nat (length its) * 2\<rparr>"
      and start: "\<And>r rest. mr_remaining r = b # hs @ rest \<Longrightarrow> unat (mr_tags r) + 2 * length its < 2 ^ 64 \<Longrightarrow>
        start_object r = check (increment_depth (r\<lparr>mr_remaining := rest, mr_tags := mr_tags r + of_nat (2 * length its)\<rparr>)) (\<lambda>r. Inr (of_nat (length its), r))"
    have "decodes (2 * length its + t) (Suc d) (read_object fs s) ((b # hs) @ concat (map it_bytes its))
      (reset_omitted fs (map (\<lambda>i. i \<in> set (known_of its)) [0..<length fs]) (fold effect its s))"
      unfolding decodes_def
    proof (intro allI impI)
      fix r :: reader and rest
      assume r: "mr_remaining r = ((b # hs) @ concat (map it_bytes its)) @ rest" "mr_tags r \<noteq> 0"
        "unat (mr_tags r) + (2 * length its + t) < 2 ^ 64" "unat (mr_depth r) + Suc d < 100"
      let ?r1 = "r\<lparr>mr_remaining := concat (map it_bytes its) @ rest, mr_tags := mr_tags r + of_nat (2 * length its), mr_depth := mr_depth r + 1\<rparr>"
      let ?seen = "map (\<lambda>i. i \<in> set (known_of its)) [0..<length fs]"
      have tags: "unat (mr_tags ?r1) = unat (mr_tags r) + 2 * length its"
        using r(3) unat_of_nat[of "2 * length its", where ?'a = 64] by (simp add: unat_word_ariths(1) take_bit_nat_eq_self del: of_nat_mult)
      have depth: "unat (mr_depth ?r1) = unat (mr_depth r) + 1" using unat_depth[of "mr_depth r" 1] r(4) by simp
      have s1: "start_object r = Inr (of_nat (length its), ?r1)"
        using start[of r "concat (map it_bytes its) @ rest"] r by (simp add: increment_depth_eq del: of_nat_mult)
      have seen: "map (\<lambda>i. replicate (length fs) False ! i \<or> i \<in> set (known_of its)) [0..<length fs] = ?seen"
        by (rule map_cong) simp_all
      have known: "\<forall>i \<in> set (known_of its). \<not> replicate (length fs) False ! i"
        using assms(1) by (auto simp: items_ok_def list_all_iff item_ok_def known_of_def List.map_filter_def split: option.splits)
      have loop: "object_loop fs (of_nat (length its)) (length (filter fd_required fs)) (replicate (length fs) False) s ?r1 =
          Inr ((0, ?seen, fold effect its s), ?r1\<lparr>mr_remaining := rest, mr_tags := mr_tags ?r1 - of_nat (2 * length its) - 1\<rparr>)"
        using object_loop_items[of t d fs its ?r1 rest, OF _ _ refl] assms(1,3) r tags depth seen known required_counted[OF assms(1)]
          unat_gt_0[of "mr_tags r"] by (simp add: items_ok_def del: of_nat_mult)
      have "mr_depth r + 1 \<noteq> 0" using depth by (auto simp: unat_eq_zero)
      with s1 loop show "read_object fs s r = Inr (reset_omitted fs ?seen (fold effect its s), r\<lparr>mr_remaining := rest, mr_tags := mr_tags r - 1\<rparr>)"
        by (simp add: read_object_def decrement_depth_def del: of_nat_mult)
    qed
    with w' show ?thesis by (intro exI[of _ "b # hs"]) simp
  qed
qed

text \<open>A way to write a value whose bytes have a property.\<close>

definition writes :: "(writer \<Rightarrow> wire_error + writer) \<Rightarrow> (span \<Rightarrow> bool) \<Rightarrow> bool" where
  "writes bytes P \<longleftrightarrow> (\<forall>w w'. bytes w = Inr w' \<longrightarrow> (\<exists>bs. w' = written (put bs w) \<and> P bs))"

text \<open>The field that a written one is for; there is none from the length of the list on.\<close>

definition field_index :: "bool \<Rightarrow> 's field list \<Rightarrow> out_field \<Rightarrow> nat" where
  "field_index integer_keys fs f =
     find_key (\<lambda>e. if integer_keys then ke_id e = of_id f else ke_name e = of_name f) (key_map fs)"

definition available :: "out_field list \<Rightarrow> out_field list" where
  "available os = filter (\<lambda>f. of_write f \<noteq> None) os"

definition out_ok :: "nat \<Rightarrow> nat \<Rightarrow> 's field list \<Rightarrow> bool \<Rightarrow> (nat \<Rightarrow> 's \<Rightarrow> 's) \<Rightarrow> out_field \<Rightarrow> bool" where
  "out_ok t d fs integer_keys eff f \<longleftrightarrow> length (of_name f) < 2 ^ 64 \<and>
     (case of_write f of
        None \<Rightarrow> True
      | Some bytes \<Rightarrow>
          let i = field_index integer_keys fs f in
          if i < length fs then writes bytes (\<lambda>bs. \<forall>s. decodes t d (fd_unpack (fs ! i) s) bs (eff i s))
          else writes bytes skips)"

definition known_fields :: "bool \<Rightarrow> 's field list \<Rightarrow> out_field list \<Rightarrow> nat list" where
  "known_fields integer_keys fs os = filter (\<lambda>i. i < length fs) (map (field_index integer_keys fs) (available os))"

lemma available_simps [simp]:
  "available [] = []" "available (f # os) = (if of_write f = None then available os else f # available os)"
  by (simp_all add: available_def)

lemma known_fields_simps [simp]:
  "known_fields k fs [] = []"
  "known_fields k fs (f # os) = (if of_write f \<noteq> None \<and> field_index k fs f < length fs then field_index k fs f # known_fields k fs os
     else known_fields k fs os)"
  by (simp_all add: known_fields_def)

lemma write_fields_items:
  "write_fields os w = Inr w' \<Longrightarrow> list_all (out_ok t d fs (wr_integer_keys w) eff) os \<Longrightarrow>
     \<exists>its. list_all (item_ok t d fs) its \<and> length its = length (available os) \<and> known_of its = known_fields (wr_integer_keys w) fs os \<and>
       (\<forall>s. fold effect its s = fold eff (known_fields (wr_integer_keys w) fs os) s) \<and>
       w' = (put (concat (map it_bytes its)) w)\<lparr>wr_expected := wr_expected w - of_nat (2 * length its)\<rparr>"
proof (induction os arbitrary: w)
  case Nil
  then show ?case by (intro exI[of _ "[]"]) simp
next
  case (Cons f os)
  show ?case
  proof (cases "of_write f")
    case None
    with Cons.IH[of w] Cons.prems show ?thesis by simp
  next
    case (Some bytes)
    let ?k = "wr_integer_keys w" and ?i = "field_index (wr_integer_keys w) fs f"
    from Some Cons.prems(1) obtain w1 w2 where w1: "write_key (of_id f) (of_name f) w = Inr w1" "bytes w1 = Inr w2" "write_fields os w2 = Inr w'"
      by (auto simp: check_Inr_iff)
    have ok: "length (of_name f) < 2 ^ 64" using Cons.prems(2) by (simp add: out_ok_def)
    from written_key[OF w1(1) ok, of "key_map fs"] obtain ks where ks: "w1 = written (put ks w)" "reads (match_key (key_map fs)) ks ?i"
      by (auto simp: field_index_def)
    have item: "\<exists>it bs. it_key it = ks \<and> it_body it = bs \<and> w2 = written (put bs w1) \<and> item_ok t d fs it \<and>
      it_known it = (if ?i < length fs then Some (?i, eff ?i) else None)"
    proof (cases "?i < length fs")
      case True
      with Cons.prems(2) Some w1(2) obtain bs where "w2 = written (put bs w1)" "\<forall>s. decodes t d (fd_unpack (fs ! ?i) s) bs (eff ?i s)"
        by (auto simp: out_ok_def writes_def Let_def)
      with True ks(2) show ?thesis
        by (intro exI[of _ "\<lparr>it_key = ks, it_body = bs, it_known = Some (?i, eff ?i)\<rparr>"] exI[of _ bs]) (simp add: item_ok_def)
    next
      case False
      with Cons.prems(2) Some w1(2) obtain bs where "w2 = written (put bs w1)" "skips bs"
        by (auto simp: out_ok_def writes_def Let_def)
      with False ks(2) show ?thesis
        by (intro exI[of _ "\<lparr>it_key = ks, it_body = bs, it_known = None\<rparr>"] exI[of _ bs]) (auto simp: item_ok_def not_less)
    qed
    then obtain it where it: "it_key it = ks" "w2 = written (put (it_body it) w1)" "item_ok t d fs it"
      "it_known it = (if ?i < length fs then Some (?i, eff ?i) else None)" by blast
    have keys: "wr_integer_keys w2 = ?k" using ks(1) it(2) by (simp add: written_def put_def)
    from Cons.IH[OF w1(3)] Cons.prems(2) obtain its where its: "list_all (item_ok t d fs) its" "length its = length (available os)"
      "known_of its = known_fields ?k fs os" "\<forall>s. fold effect its s = fold eff (known_fields ?k fs os) s"
      "w' = (put (concat (map it_bytes its)) w2)\<lparr>wr_expected := wr_expected w2 - of_nat (2 * length its)\<rparr>"
      by (auto simp: keys)
    have "w' = (put (concat (map it_bytes (it # its))) w)\<lparr>wr_expected := wr_expected w - of_nat (2 * length (it # its))\<rparr>"
      unfolding its(5) it(2) ks(1) by (simp add: written_def put_def it_bytes_def it(1) algebra_simps)
    moreover have "effect it = (if ?i < length fs then eff ?i else id)" using it(4) by (auto simp: effect_def fun_eq_iff)
    ultimately show ?thesis using its(1-4) it(3,4) Some by (intro exI[of _ "it # its"]) simp
  qed
qed

text \<open>
  What \<open>wire_write::object\<close> wrote, \<open>wire_read::object\<close> reads: fields may be omitted or in another order if
  no required one is missing, and unknown fields with scalar values are passed over.
\<close>

lemma object_reads_back:
  assumes "write_object os w = Inr w'" and "list_all (out_ok t d fs (wr_integer_keys w) eff) os" and "1 \<le> t"
    and "distinct (known_fields (wr_integer_keys w) fs os)" and "length os < 2 ^ 63"
    and "\<forall>i < length fs. fd_required (fs ! i) \<longrightarrow> i \<in> set (known_fields (wr_integer_keys w) fs os)"
  shows "\<exists>bs. w' = written (put bs w) \<and> (\<forall>s. decodes (2 * length os + t) (Suc d) (read_object fs s) bs
    (reset_omitted fs (map (\<lambda>i. i \<in> set (known_fields (wr_integer_keys w) fs os)) [0..<length fs])
      (fold eff (known_fields (wr_integer_keys w) fs os) s)))"
proof -
  let ?k = "wr_integer_keys w"
  from assms(1) obtain w1 w2 where w1: "write_start_object (of_nat (length (available os))) w = Inr w1" "write_fields os w1 = Inr w2" "w' = written w2"
    by (auto simp: write_object_def available_def check_Inr_iff)
  have keys: "wr_integer_keys w1 = ?k"
    using w1(1) by (auto simp: write_start_object_def write_count_def check_Inr_iff put_def split: if_splits dest!: write_sized_put)
  from write_fields_items[OF w1(2), of t d fs eff] assms(2) obtain its where its: "list_all (item_ok t d fs) its" "length its = length (available os)"
    "known_of its = known_fields ?k fs os" "\<forall>s. fold effect its s = fold eff (known_fields ?k fs os) s"
    "w2 = (put (concat (map it_bytes its)) w1)\<lparr>wr_expected := wr_expected w1 - of_nat (2 * length its)\<rparr>"
    by (auto simp: keys)
  have len: "length its \<le> length os" using its(2) by (simp add: available_def)
  then have ok: "items_ok t d fs its" using its assms(4-6) by (simp add: items_ok_def)
  have start: "write_start_object (of_nat (length its)) w = Inr w1" using w1(1) its(2) by simp
  let ?body = "concat (map it_bytes its)"
  let ?out = "\<lambda>s. reset_omitted fs (map (\<lambda>i. i \<in> set (known_of its)) [0..<length fs]) (fold effect its s)"
  from object_decodes[OF ok start assms(3)] obtain hs where hs: "w1 = put hs w\<lparr>wr_expected := wr_expected w + of_nat (length its) * 2\<rparr>"
    "decodes (2 * length its + t) (Suc d) (read_object fs undefined) (hs @ ?body) (?out undefined)" by blast
  have "decodes (2 * length its + t) (Suc d) (read_object fs s) (hs @ ?body) (?out s)" for s
  proof -
    from object_decodes[OF ok start assms(3), of s] obtain hs' where hs': "w1 = put hs' w\<lparr>wr_expected := wr_expected w + of_nat (length its) * 2\<rparr>"
      "decodes (2 * length its + t) (Suc d) (read_object fs s) (hs' @ ?body) (?out s)" by blast
    have "hs' = hs" using arg_cong[OF hs(1), of wr_bytes] hs'(1) by (simp add: put_def)
    with hs'(2) show ?thesis by simp
  qed
  then have "decodes (2 * length os + t) (Suc d) (read_object fs s) (hs @ ?body) (?out s)" for s
    by (rule decodes_mono) (use len in auto)
  moreover have "w' = written (put (hs @ ?body) w)" unfolding w1(3) its(5) hs(1) by (simp add: put_def mult.commute)
  ultimately show ?thesis using its(3,4) by (intro exI[of _ "hs @ ?body"]) simp
qed

subsection \<open>Arrays\<close>

lemma array_loop_elements:
  assumes "list_all2 (\<lambda>bs x. decodes t d elem bs x \<and> m \<le> length bs) bss xs" and "mr_remaining r = concat bss @ rest"
    and "count = of_nat (length xs)" and "again = (xs \<noteq> [])" and "length dest + length xs \<le> max_count"
    and "length xs < unat (mr_tags r)" and "unat (mr_tags r) + t < 2 ^ 64" and "unat (mr_depth r) + d < 100"
    and "length (mr_remaining r) + m * length dest \<le> start"
  shows "array_loop elem m max_count start again count dest r =
    Inr (dest @ xs, r\<lparr>mr_remaining := rest, mr_tags := mr_tags r - of_nat (length xs) - 1\<rparr>)"
  using assms
proof (induction bss xs arbitrary: r count again dest rule: list_all2_induct)
  case Nil
  then show ?case using unat_gt_0[of "mr_tags r"] by (subst array_loop.simps) (simp add: is_array_end_def update_tags_def)
next
  case (Cons bs bss x xs)
  let ?r1 = "r\<lparr>mr_remaining := concat bss @ rest, mr_tags := mr_tags r - 1\<rparr>"
  have tags: "unat (mr_tags r - 1) = unat (mr_tags r) - 1" "mr_tags r \<noteq> 0"
    using Cons.prems(5) unat_minus_of_nat[of 1 "mr_tags r"] unat_gt_0[of "mr_tags r"] by simp_all
  have "elem r = Inr (x, ?r1)"
    using Cons.hyps(1) Cons.prems(1,6,7) tags(2) decodesD[of t d elem bs x r "concat bss @ rest"] by simp
  moreover have "length xs < 2 ^ 64" using Cons.prems(5,6) by simp
  then have "unat (of_nat (length xs) :: u64) = length xs" by (simp add: unat_of_nat take_bit_nat_eq_self)
  then have "((of_nat (length xs) :: u64) \<noteq> 0) = (xs \<noteq> [])" by (auto simp: word_unat_eq_iff)
  moreover have count: "count - 1 = of_nat (length xs)" "again" using Cons.prems(2,3) by simp_all
  moreover have room: "length (mr_remaining ?r1) + m * length (dest @ [x]) \<le> start"
    using Cons.prems(1,8) Cons.hyps(1) by simp
  then have "m * length (dest @ [x]) \<le> start - length (mr_remaining ?r1)" by linarith
  then have "m \<le> (start - length (mr_remaining ?r1)) div length (dest @ [x])"
    by (subst less_eq_div_iff_mult_less_eq) simp_all
  moreover have "array_loop elem m max_count start (xs \<noteq> []) (of_nat (length xs)) (dest @ [x]) ?r1 =
      Inr ((dest @ [x]) @ xs, ?r1\<lparr>mr_remaining := rest, mr_tags := mr_tags ?r1 - of_nat (length xs) - 1\<rparr>)"
    using Cons.prems tags room by (intro Cons.IH) auto
  ultimately show ?case using Cons.prems(4) by (subst array_loop.simps) (simp add: Let_def algebra_simps)
qed

text \<open>
  What \<open>wire_write::array\<close> wrote, \<open>wire_read::array\<close> reads, if no element is smaller than the reader
  demands and there are not too many.
\<close>

lemma array_reads_back:
  assumes "write_array bytes xs w = Inr w'" and "\<And>x. x \<in> set xs \<Longrightarrow> writes (bytes x) (\<lambda>bs. decodes t d elem bs x \<and> m \<le> length bs)"
    and "length xs \<le> max_count" and "length xs < 2 ^ 64"
  shows "\<exists>bs. w' = written (put bs w) \<and> decodes (length xs + t) (Suc d) (read_array elem m max_count) bs xs"
proof -
  from assms(1) obtain w1 w2 where w1: "write_start_array (of_nat (length xs)) w = Inr w1" "write_elements bytes xs w1 = Inr w2" "w' = written w2"
    by (auto simp: write_array_def check_Inr_iff)
  have "\<exists>bss. list_all2 (\<lambda>bs x. decodes t d elem bs x \<and> m \<le> length bs) bss xs \<and>
      w2 = (put (concat bss) w1)\<lparr>wr_expected := wr_expected w1 - of_nat (length xs)\<rparr>"
    using w1(2) assms(2)
  proof (induction xs arbitrary: w1)
    case Nil
    then show ?case by simp
  next
    case (Cons x xs)
    from Cons.prems(1) obtain w3 where w3: "bytes x w1 = Inr w3" "write_elements bytes xs w3 = Inr w2" by (auto simp: check_Inr_iff)
    from Cons.prems(2)[of x] w3(1) obtain bs where bs: "w3 = written (put bs w1)" "decodes t d elem bs x" "m \<le> length bs"
      by (auto simp: writes_def)
    from Cons.IH[OF w3(2)] Cons.prems(2) obtain bss where bss: "list_all2 (\<lambda>bs x. decodes t d elem bs x \<and> m \<le> length bs) bss xs"
      "w2 = (put (concat bss) w3)\<lparr>wr_expected := wr_expected w3 - of_nat (length xs)\<rparr>" by auto
    with bs show ?case by (intro exI[of _ "bs # bss"]) (simp add: put_def written_def algebra_simps)
  qed
  then obtain bss where bss: "list_all2 (\<lambda>bs x. decodes t d elem bs x \<and> m \<le> length bs) bss xs"
    "w2 = (put (concat bss) w1)\<lparr>wr_expected := wr_expected w1 - of_nat (length xs)\<rparr>" by blast
  have size: "m * length xs \<le> length (concat bss)"
    using bss(1) by (induction rule: list_all2_induct) auto
  show ?thesis
  proof (rule array_header[OF w1(1) assms(4)])
    fix b hs
    assume w1': "w1 = put (b # hs) w\<lparr>wr_expected := wr_expected w + of_nat (length xs)\<rparr>"
      and start: "\<And>r rest m. mr_remaining r = b # hs @ rest \<Longrightarrow> unat (mr_tags r) + length xs < 2 ^ 64 \<Longrightarrow> m = 0 \<or> length xs \<le> length rest div m \<Longrightarrow>
        start_array m r = check (increment_depth (r\<lparr>mr_remaining := rest, mr_tags := mr_tags r + of_nat (length xs)\<rparr>)) (\<lambda>r. Inr (of_nat (length xs), r))"
    have "decodes (length xs + t) (Suc d) (read_array elem m max_count) ((b # hs) @ concat bss) xs"
      unfolding decodes_def
    proof (intro allI impI)
      fix r :: reader and rest
      assume r: "mr_remaining r = ((b # hs) @ concat bss) @ rest" "mr_tags r \<noteq> 0"
        "unat (mr_tags r) + (length xs + t) < 2 ^ 64" "unat (mr_depth r) + Suc d < 100"
      let ?r1 = "r\<lparr>mr_remaining := concat bss @ rest, mr_tags := mr_tags r + of_nat (length xs), mr_depth := mr_depth r + 1\<rparr>"
      have tags: "unat (mr_tags ?r1) = unat (mr_tags r) + length xs"
        using r(3) unat_of_nat[of "length xs", where ?'a = 64] by (simp add: unat_word_ariths(1) take_bit_nat_eq_self)
      have depth: "unat (mr_depth ?r1) = unat (mr_depth r) + 1" using unat_depth[of "mr_depth r" 1] r(4) by simp
      have len: "unat (of_nat (length xs) :: u64) = length xs" using assms(4) by (simp add: unat_of_nat take_bit_nat_eq_self)
      have room: "m = 0 \<or> length xs \<le> length (concat bss @ rest) div m"
        using size by (cases "m = 0") (auto simp: less_eq_div_iff_mult_less_eq mult.commute)
      have s1: "start_array m r = Inr (of_nat (length xs), ?r1)"
        using start[of r "concat bss @ rest" m] r room by (simp add: increment_depth_eq)
      have again: "((of_nat (length xs) :: u64) \<noteq> 0) = (xs \<noteq> [])" using len by (auto simp: word_unat_eq_iff)
      have loop: "array_loop elem m max_count (length (mr_remaining ?r1)) ((of_nat (length xs) :: u64) \<noteq> 0) (of_nat (length xs)) [] ?r1 =
          Inr ([] @ xs, ?r1\<lparr>mr_remaining := rest, mr_tags := mr_tags ?r1 - of_nat (length xs) - 1\<rparr>)"
        using r tags depth unat_gt_0[of "mr_tags r"] again assms(3)
        by (intro array_loop_elements[OF bss(1), where ?start = "length (mr_remaining ?r1)"]) auto
      have "mr_depth r + 1 \<noteq> 0" using depth by (auto simp: unat_eq_zero)
      with s1 loop len room assms(3) show "read_array elem m max_count r = Inr (xs, r\<lparr>mr_remaining := rest, mr_tags := mr_tags r - 1\<rparr>)"
        by (auto simp: read_array_def decrement_depth_def)
    qed
    with w1' bss(2) w1(3) show ?thesis by (intro exI[of _ "(b # hs) @ concat bss"]) (simp add: put_def)
  qed
qed

end
