(* ===== verification/WireData.thy ===== *)
theory WireData
  imports WireObject
begin

text \<open>
  What is kept or sent in msgpack: the values of webhooks in the database (\<open>src/src/lmdb/msgpack_table.h\<close>,
  \<open>src/src/db/data.cpp\<close>), and the commands between the server and its scanners
  (\<open>src/src/rpc/scanner/commands.cpp\<close>, \<open>read_commands.h\<close>, \<open>write_commands.cpp\<close>): a stream of messages, each
  with a header and an object.

  The fixed part of a database value is given by its bytes. A handler of commands changes the state of
  its connection and says whether to go on; reads from the socket are the bytes that have arrived.
\<close>

section \<open>Text\<close>

definition string_bytes :: "string \<Rightarrow> span" where
  "string_bytes s = map (\<lambda>c. of_nat (of_char c)) s"

definition bytes_string :: "span \<Rightarrow> string" where
  "bytes_string bs = map (\<lambda>b. char_of (unat b)) bs"

lemma length_string_bytes [simp]: "length (string_bytes s) = length s"
  by (simp add: string_bytes_def)

lemma bytes_string_bytes [simp]: "bytes_string (string_bytes s) = s"
proof -
  have "unat (of_nat (of_char c) :: u8) = of_char c" for c
    using nat_of_char_less_256[of c] by (simp add: unat_of_nat take_bit_nat_eq_self)
  then show ?thesis by (simp add: string_bytes_def bytes_string_def comp_def)
qed

text \<open>A field with a string or a number of 32 bits.\<close>

definition string_field :: "string \<Rightarrow> u32 \<Rightarrow> (string \<Rightarrow> 's \<Rightarrow> 's) \<Rightarrow> 's field" where
  "string_field name key_id set_field = \<lparr>fd_name = string_bytes name, fd_id = key_id, fd_required = True,
     fd_unpack = (\<lambda>s r. check (read_string r) (\<lambda>(bs, r). Inr (set_field (bytes_string bs) s, r))), fd_reset = (\<lambda>s. s)\<rparr>"

definition uint32_field :: "string \<Rightarrow> u32 \<Rightarrow> (u32 \<Rightarrow> 's \<Rightarrow> 's) \<Rightarrow> 's field" where
  "uint32_field name key_id set_field = \<lparr>fd_name = string_bytes name, fd_id = key_id, fd_required = True,
     fd_unpack = (\<lambda>s r. check (read_uint32 r) (\<lambda>(v, r). Inr (set_field v s, r))), fd_reset = (\<lambda>s. s)\<rparr>"

definition out_string :: "string \<Rightarrow> u32 \<Rightarrow> string \<Rightarrow> out_field" where
  "out_string name key_id v = \<lparr>of_name = string_bytes name, of_id = key_id, of_write = Some (write_string (string_bytes v))\<rparr>"

definition out_uint32 :: "string \<Rightarrow> u32 \<Rightarrow> u32 \<Rightarrow> out_field" where
  "out_uint32 name key_id v = \<lparr>of_name = string_bytes name, of_id = key_id, of_write = Some (write_unsigned (ucast v))\<rparr>"

lemma decodes_map:
  "decodes t d rd bs x \<Longrightarrow> decodes t d (\<lambda>r. check (rd r) (\<lambda>(x, r). Inr (f x, r))) bs (f x)"
  by (simp add: decodes_def)

lemma writes_string_field:
  assumes "length v < 2 ^ 64"
  shows "writes (write_string (string_bytes v)) (\<lambda>bs. \<forall>s. decodes t d (fd_unpack (string_field name key_id set_field) s) bs (set_field v s))"
  unfolding writes_def
proof (intro allI impI)
  fix w w' assume "write_string (string_bytes v) w = Inr w'"
  from written_string[OF this] assms obtain bs where bs: "w' = written (put bs w)" "reads read_string bs (string_bytes v)" by auto
  have "decodes t d (fd_unpack (string_field name key_id set_field) s) bs (set_field v s)" for s
    using decodes_map[OF decodes_reads[OF bs(2)], of t d "\<lambda>x. set_field (bytes_string x) s"] by (simp add: string_field_def)
  with bs(1) show "\<exists>bs. w' = written (put bs w) \<and> (\<forall>s. decodes t d (fd_unpack (string_field name key_id set_field) s) bs (set_field v s))"
    by blast
qed

lemma writes_uint32_field:
  "writes (write_unsigned (ucast v)) (\<lambda>bs. \<forall>s. decodes t d (fd_unpack (uint32_field name key_id set_field) s) bs (set_field v s))"
  unfolding writes_def
proof (intro allI impI)
  fix w w' assume run: "write_unsigned (ucast v) w = Inr w'"
  from decodes_uint32[of v w t d] run obtain bs where bs: "w' = written (put bs w)" "decodes t d read_uint32 bs v" by auto
  have "decodes t d (fd_unpack (uint32_field name key_id set_field) s) bs (set_field v s)" for s
    using decodes_map[OF bs(2), of "\<lambda>x. set_field x s"] by (simp add: uint32_field_def)
  with bs(1) show "\<exists>bs. w' = written (put bs w) \<and> (\<forall>s. decodes t d (fd_unpack (uint32_field name key_id set_field) s) bs (set_field v s))"
    by blast
qed

lemma out_sel [simp]:
  "of_write (out_string n i v) = Some (write_string (string_bytes v))" "of_name (out_string n i v) = string_bytes n" "of_id (out_string n i v) = i"
  "of_write (out_uint32 n i u) = Some (write_unsigned (ucast u))" "of_name (out_uint32 n i u) = string_bytes n" "of_id (out_uint32 n i u) = i"
  "fd_name (string_field n i f) = string_bytes n" "fd_id (string_field n i f) = i" "fd_required (string_field n i f)"
  "fd_name (uint32_field n i g) = string_bytes n" "fd_id (uint32_field n i g) = i" "fd_required (uint32_field n i g)"
  by (simp_all add: out_string_def out_uint32_def string_field_def uint32_field_def)

lemma string_bytes_inj [simp]: "string_bytes a = string_bytes b \<longleftrightarrow> a = b"
  by (metis bytes_string_bytes)

text \<open>A written field for one that is read.\<close>

lemma out_ok_string:
  assumes "field_index k fs (out_string n i v) = j" and "j < length fs" and "fs ! j = string_field n' i' f" and "eff j = f v"
    and "length n < 2 ^ 64" and "length v < 2 ^ 64"
  shows "out_ok t d fs k eff (out_string n i v)"
  using assms writes_string_field[OF assms(6), of t d n' i' f] by (simp add: out_ok_def)

lemma out_ok_uint32:
  assumes "field_index k fs (out_uint32 n i v) = j" and "j < length fs" and "fs ! j = uint32_field n' i' f" and "eff j = f v"
    and "length n < 2 ^ 64"
  shows "out_ok t d fs k eff (out_uint32 n i v)"
  using assms writes_uint32_field[of v t d n' i' f] by (simp add: out_ok_def)

section \<open>Values with a fixed part and an object\<close>

datatype value_error = Bad_valsize | Wire wire_error

definition make_value :: "span \<Rightarrow> (writer \<Rightarrow> wire_error + writer) \<Rightarrow> wire_error + span" where
  "make_value fixed bytes = check (bytes (new_writer fixed True)) take_msgpack"

definition get_value :: "nat \<Rightarrow> 'a reads \<Rightarrow> span \<Rightarrow> value_error + span \<times> 'a" where
  "get_value n rd v =
     (if length v < n then Inl Bad_valsize
      else case from_bytes rd (drop n v) of
        Inl e \<Rightarrow> Inl (Wire e)
      | Inr x \<Rightarrow> Inr (take n v, x))"

definition webhook_fields :: "webhook_data field list" where
  "webhook_fields =
     [string_field ''url'' 0 (\<lambda>v s. s\<lparr>wh_url := v\<rparr>), string_field ''token'' 1 (\<lambda>v s. s\<lparr>wh_token := v\<rparr>),
      uint32_field ''confirmations'' 2 (\<lambda>v s. s\<lparr>wh_confirmations := v\<rparr>)]"

definition empty_webhook :: webhook_data where
  "empty_webhook = \<lparr>wh_url = [], wh_token = [], wh_confirmations = 0\<rparr>"

definition read_webhook :: "webhook_data reads" where
  "read_webhook = read_object webhook_fields empty_webhook"

definition write_webhook :: "webhook_data \<Rightarrow> writer \<Rightarrow> wire_error + writer" where
  "write_webhook data = write_object
     [out_string ''url'' 0 (wh_url data), out_string ''token'' 1 (wh_token data), out_uint32 ''confirmations'' 2 (wh_confirmations data)]"

lemma from_bytes_decodes:
  assumes "decodes t d rd bs x" and "Suc t < 2 ^ 64" and "d < 100"
  shows "from_bytes rd (bs @ rest) = Inr x"
  using decodesD[OF assms(1), of "new_reader (bs @ rest)" rest] assms(2,3)
  by (simp add: from_bytes_def new_reader_def check_complete_def)

lemma write_sized_Inr: "(n, t) \<in> set types \<Longrightarrow> uint v < 2 ^ (8 * n) \<Longrightarrow> \<exists>w'. write_sized types v w = Inr w'"
  by (induction types) auto

lemma write_count_total:
  assumes "(4, t) \<in> set types" and "n < 2 ^ 32"
  shows "\<exists>w'. write_count f types (of_nat n) w = Inr w'"
proof -
  have "uint (of_nat n :: u64) < 2 ^ (8 * 4)" using assms(2) by (simp add: uint_nat unat_of_nat take_bit_nat_eq_self)
  from write_sized_Inr[OF assms(1) this] show ?thesis by (simp add: write_count_def)
qed

lemma write_string_total: "length bs < 2 ^ 32 \<Longrightarrow> \<exists>w'. write_string bs w = Inr w'"
  using write_count_total[of String32 string_types "length bs" ftag_string w]
  by (auto simp: write_string_def string_types_def)

lemma write_unsigned_total: "\<exists>w'. write_unsigned v w = Inr w'"
  using written_unsigned[of v w] by blast

lemma write_key_total: "length name < 2 ^ 32 \<Longrightarrow> \<exists>w'. write_key i name w = Inr w'"
  using write_string_total[of name w] write_unsigned_total[of "ucast i" w] by (auto simp: write_key_def)

lemma write_object_total:
  assumes "list_all (\<lambda>f. length (of_name f) < 2 ^ 32 \<and> (\<forall>bytes. of_write f = Some bytes \<longrightarrow> (\<forall>w. \<exists>w'. bytes w = Inr w'))) os"
    and "length os < 2 ^ 32"
  shows "\<exists>w'. write_object os w = Inr w'"
proof -
  have fs: "\<exists>w'. write_fields os w = Inr w'" for w
    using assms(1)
  proof (induction os arbitrary: w)
    case (Cons f os)
    show ?case
    proof (cases "of_write f")
      case None
      with Cons show ?thesis by simp
    next
      case (Some bytes)
      obtain w1 where w1: "write_key (of_id f) (of_name f) w = Inr w1" using Cons.prems write_key_total[of "of_name f" "of_id f" w] by auto
      obtain w2 where "bytes w1 = Inr w2" using Cons.prems Some by auto
      moreover obtain w3 where "write_fields os w2 = Inr w3" using Cons by force
      ultimately show ?thesis using Some w1 by simp
    qed
  qed simp
  have "length (available os) < 2 ^ 32" using assms(2) by (simp add: available_def less_le_trans le_less_trans[OF length_filter_le])
  then obtain w1 where "write_start_object (of_nat (length (available os))) w = Inr w1"
    using write_count_total[of Object32 object_types "length (available os)" ftag_object w]
    by (auto simp: write_start_object_def object_types_def)
  with fs[of w1] show ?thesis unfolding write_object_def available_def by (elim exE) simp
qed

lemma write_webhook_total:
  assumes "length (wh_url data) < 2 ^ 32" and "length (wh_token data) < 2 ^ 32"
  shows "\<exists>w'. write_webhook data w = Inr w'"
  unfolding write_webhook_def
proof (rule write_object_total)
  have "\<exists>w'. write_string (string_bytes (wh_url data)) w = Inr w'" "\<exists>w'. write_string (string_bytes (wh_token data)) w = Inr w'" for w
    using assms by (simp_all add: write_string_total)
  then show "list_all (\<lambda>f. length (of_name f) < 2 ^ 32 \<and> (\<forall>bytes. of_write f = Some bytes \<longrightarrow> (\<forall>w. \<exists>w'. bytes w = Inr w')))
      [out_string ''url'' 0 (wh_url data), out_string ''token'' 1 (wh_token data), out_uint32 ''confirmations'' 2 (wh_confirmations data)]"
    by (simp add: write_unsigned_total)
qed simp

lemma write_webhook_decodes:
  assumes "write_webhook data w = Inr w'" and "length (wh_url data) < 2 ^ 64" and "length (wh_token data) < 2 ^ 64"
  shows "\<exists>bs. w' = written (put bs w) \<and> decodes 7 1 read_webhook bs data"
proof -
  let ?os = "[out_string ''url'' 0 (wh_url data), out_string ''token'' 1 (wh_token data), out_uint32 ''confirmations'' 2 (wh_confirmations data)]"
  let ?eff = "\<lambda>(i :: nat) s. if i = 0 then s\<lparr>wh_url := wh_url data\<rparr> else if i = 1 then s\<lparr>wh_token := wh_token data\<rparr> else s\<lparr>wh_confirmations := wh_confirmations data\<rparr>"
  have fs: "length webhook_fields = 3" "webhook_fields ! 0 = string_field ''url'' 0 (\<lambda>v s. s\<lparr>wh_url := v\<rparr>)"
    "webhook_fields ! 1 = string_field ''token'' 1 (\<lambda>v s. s\<lparr>wh_token := v\<rparr>)"
    "webhook_fields ! 2 = uint32_field ''confirmations'' 2 (\<lambda>v s. s\<lparr>wh_confirmations := v\<rparr>)"
    by (simp_all add: webhook_fields_def)
  have index: "field_index k webhook_fields (out_string ''url'' 0 u) = 0" "field_index k webhook_fields (out_string ''token'' 1 u) = 1"
    "field_index k webhook_fields (out_uint32 ''confirmations'' 2 n) = 2" for k u n
    by (cases k; simp add: field_index_def key_map_def webhook_fields_def)+
  have known: "known_fields k webhook_fields ?os = [0, 1, 2]" for k by (simp add: index fs)
  have ok: "list_all (out_ok 1 0 webhook_fields (wr_integer_keys w) ?eff) ?os"
    using assms(2,3) by (simp add: out_ok_string[OF index(1) _ fs(2)] out_ok_string[OF index(2) _ fs(3)] out_ok_uint32[OF index(3) _ fs(4)] fs(1))
  have req: "\<forall>i < length webhook_fields. fd_required (webhook_fields ! i) \<longrightarrow> i \<in> set [0, 1, 2]" by (auto simp: fs(1))
  have "distinct [0, 1, 2 :: nat]" "length ?os < 2 ^ 63" by simp_all
  from object_reads_back[OF assms(1)[unfolded write_webhook_def] ok, unfolded known, OF order_refl this req]
  obtain bs where bs: "w' = written (put bs w)" "\<forall>s. decodes (2 * length ?os + 1) (Suc 0) (read_object webhook_fields s) bs
    (reset_omitted webhook_fields (map (\<lambda>i. i \<in> set [0, 1, 2]) [0..<length webhook_fields]) (fold ?eff [0, 1, 2] s))"
    by (elim exE conjE)
  have "reset_omitted webhook_fields (map (\<lambda>i. i \<in> set [0, 1, 2]) [0..<length webhook_fields]) (fold ?eff [0, 1, 2] empty_webhook) = data"
    by (simp add: reset_omitted_def webhook_fields_def string_field_def uint32_field_def upt_rec)
  from bs(2)[rule_format, of empty_webhook, unfolded this] bs(1) show ?thesis
    by (intro exI[of _ bs]) (simp add: read_webhook_def)
qed

text \<open>
  C34: The value of a webhook is stored as bytes and read back as it was, its fixed part included, and it
  can be stored when its strings are shorter than four gigabytes.
\<close>

theorem webhook_value_reads_back:
  assumes "length (wh_url data) < 2 ^ 32" and "length (wh_token data) < 2 ^ 32"
  shows "\<exists>bs. make_value fixed (write_webhook data) = Inr bs \<and> get_value (length fixed) read_webhook bs = Inr (fixed, data)"
proof -
  obtain w' where w': "write_webhook data (new_writer fixed True) = Inr w'"
    using write_webhook_total[OF assms] by blast
  from write_webhook_decodes[OF this] assms obtain bs where bs: "w' = written (put bs (new_writer fixed True))" "decodes 7 1 read_webhook bs data"
    by auto
  have "make_value fixed (write_webhook data) = Inr (fixed @ bs)"
    using w' bs(1) by (simp add: make_value_def take_msgpack_def written_def put_def new_writer_def)
  moreover have "from_bytes read_webhook bs = Inr data" using from_bytes_decodes[OF bs(2), of "[]"] by simp
  ultimately show ?thesis by (simp add: get_value_def)
qed

section \<open>Commands\<close>

record initialize =
  in_pass :: string
  in_threads :: u32

definition initialize_fields :: "initialize field list" where
  "initialize_fields =
     [string_field ''pass'' 0 (\<lambda>v s. s\<lparr>in_pass := v\<rparr>), uint32_field ''threads'' 1 (\<lambda>v s. s\<lparr>in_threads := v\<rparr>)]"

definition read_initialize :: "initialize reads" where
  "read_initialize = read_object initialize_fields \<lparr>in_pass = [], in_threads = 0\<rparr>"

definition write_initialize :: "initialize \<Rightarrow> writer \<Rightarrow> wire_error + writer" where
  "write_initialize cmd = write_object [out_string ''pass'' 0 (in_pass cmd), out_uint32 ''threads'' 1 (in_threads cmd)]"

definition initialize_id :: u8 where "initialize_id = 0"

text \<open>A version, an id and the size of the message.\<close>

definition header_size :: nat where "header_size = 6"

definition header_bytes :: "u8 \<Rightarrow> u32 \<Rightarrow> span" where
  "header_bytes cmd_id len = [0, cmd_id] @ bytes_u32 len"

text \<open>The header replaces the bytes that were put in front for it; \<open>None\<close> if the message is too large.\<close>

definition complete_command :: "u8 \<Rightarrow> span \<Rightarrow> span option" where
  "complete_command cmd_id sink =
     (if length sink < header_size then None
      else if 2 ^ 32 - 1 < length sink - header_size then None
      else Some (header_bytes cmd_id (of_nat (length sink - header_size)) @ drop header_size sink))"

definition write_command :: "u8 \<Rightarrow> (writer \<Rightarrow> wire_error + writer) \<Rightarrow> wire_error + span option" where
  "write_command cmd_id bytes =
     check (bytes (new_writer (replicate header_size 0) True)) (\<lambda>w.
     check (take_msgpack w) (\<lambda>sink. Inr (complete_command cmd_id sink)))"

text \<open>The next message that has arrived completely: its id, its bytes and what comes after it.\<close>

definition next_command :: "span \<Rightarrow> (u8 \<times> span \<times> span) option" where
  "next_command bs =
     (if length bs < header_size then None
      else
        let cmd_id = bs ! 1; len = unat (read_u32 (drop 2 bs)); bs = drop header_size bs in
        if length bs < len then None else Some (cmd_id, take len bs, drop len bs))"

type_synonym 's handler = "span \<Rightarrow> 's \<Rightarrow> bool \<times> 's"

definition call_handler :: "'a reads \<Rightarrow> ('a \<Rightarrow> 's \<Rightarrow> bool \<times> 's) \<Rightarrow> 's handler" where
  "call_handler rd handle bs s = (case from_bytes rd bs of Inl e \<Rightarrow> (False, s) | Inr data \<Rightarrow> handle data s)"

datatype 's served = Waiting span 's | Cleaned_up 's

lemma next_command_less: "next_command bs = Some (i, payload, rest) \<Longrightarrow> length rest < length bs"
  by (auto simp: next_command_def header_size_def Let_def split: if_splits)

function read_commands :: "'s handler list \<Rightarrow> span \<Rightarrow> 's \<Rightarrow> 's served" where
  "read_commands commands bs s =
     (case next_command bs of
        None \<Rightarrow> Waiting bs s
      | Some (i, payload, rest) \<Rightarrow>
          if length commands \<le> unat i then Cleaned_up s
          else let (ok, s) = (commands ! unat i) payload s in
            if ok then read_commands commands rest s else Cleaned_up s)"
  by pat_completeness auto
termination
  by (relation "measure (\<lambda>(commands, bs, s). length bs)") (auto dest: next_command_less)

declare read_commands.simps [simp del]

lemma length_bytes_u32 [simp]: "length (bytes_u32 x) = 4"
  by (simp add: bytes_u32_def)

text \<open>More bytes do not change a message that is there.\<close>

lemma next_command_append:
  "next_command bs = Some (i, payload, rest) \<Longrightarrow> next_command (bs @ extra) = Some (i, payload, rest @ extra)"
proof -
  assume next_is: "next_command bs = Some (i, payload, rest)"
  let ?len = "unat (read_u32 (drop 2 bs))"
  from next_is have long: "header_size \<le> length bs" "?len \<le> length (drop header_size bs)"
    "i = bs ! 1" "payload = take ?len (drop header_size bs)" "rest = drop ?len (drop header_size bs)"
    by (auto simp: next_command_def Let_def split: if_splits)
  have "read_u32 (drop 2 (bs @ extra)) = read_u32 (drop 2 bs)"
    using long(1) by (simp add: read_u32_def header_size_def)
  moreover have "(bs @ extra) ! 1 = bs ! 1" using long(1) by (simp add: nth_append header_size_def)
  ultimately show ?thesis using long by (simp add: next_command_def Let_def)
qed

text \<open>
  How the bytes of a stream are cut into reads makes no difference to which commands are handled.
\<close>

lemma commands_fragmented:
  "read_commands commands (bs @ extra) s =
     (case read_commands commands bs s of Waiting rest s' \<Rightarrow> read_commands commands (rest @ extra) s' | Cleaned_up s' \<Rightarrow> Cleaned_up s')"
proof (induction commands bs s rule: read_commands.induct)
  case (1 commands bs s)
  show ?case
  proof (cases "next_command bs")
    case None
    then show ?thesis by (simp add: read_commands.simps[of commands bs])
  next
    case (Some m)
    obtain i payload rest where m: "m = (i, payload, rest)" by (cases m)
    obtain ok s1 where run: "(commands ! unat i) payload s = (ok, s1)" by force
    note IH = "1.IH"[OF Some[unfolded m] refl refl _ refl run[symmetric]]
    show ?thesis using Some m run next_command_append[of bs i payload rest extra] IH
      by (cases "length commands \<le> unat i"; cases ok)
        (simp_all add: read_commands.simps[of commands bs] read_commands.simps[of commands "bs @ extra"])
  qed
qed

lemma next_command_completed:
  assumes "complete_command i (replicate header_size 0 @ payload) = Some bs"
  shows "next_command (bs @ rest) = Some (i, payload, rest)"
proof -
  from assms have bs: "bs = header_bytes i (of_nat (length payload)) @ payload" and small: "length payload < 2 ^ 32"
    by (auto simp: complete_command_def header_size_def split: if_splits)
  have len: "unat (of_nat (length payload) :: u32) = length payload" using small by (simp add: unat_of_nat take_bit_nat_eq_self)
  have "drop 2 (bs @ rest) = bytes_u32 (of_nat (length payload)) @ payload @ rest" by (simp add: bs header_bytes_def)
  then have "unat (read_u32 (drop 2 (bs @ rest))) = length payload" using len by (simp only: read_bytes_u32)
  moreover have "drop header_size (bs @ rest) = payload @ rest" by (simp add: bs header_bytes_def header_size_def)
  moreover have "(bs @ rest) ! 1 = i" "\<not> length (bs @ rest) < header_size" by (simp_all add: bs header_bytes_def header_size_def)
  ultimately show ?thesis by (simp add: next_command_def Let_def)
qed

lemma write_initialize_decodes:
  assumes "write_initialize cmd w = Inr w'" and "length (in_pass cmd) < 2 ^ 64"
  shows "\<exists>bs. w' = written (put bs w) \<and> decodes 5 1 read_initialize bs cmd"
proof -
  let ?os = "[out_string ''pass'' 0 (in_pass cmd), out_uint32 ''threads'' 1 (in_threads cmd)]"
  let ?eff = "\<lambda>(i :: nat) s. if i = 0 then s\<lparr>in_pass := in_pass cmd\<rparr> else s\<lparr>in_threads := in_threads cmd\<rparr>"
  have fs: "length initialize_fields = 2" "initialize_fields ! 0 = string_field ''pass'' 0 (\<lambda>v s. s\<lparr>in_pass := v\<rparr>)"
    "initialize_fields ! 1 = uint32_field ''threads'' 1 (\<lambda>v s. s\<lparr>in_threads := v\<rparr>)"
    by (simp_all add: initialize_fields_def)
  have index: "field_index k initialize_fields (out_string ''pass'' 0 u) = 0" "field_index k initialize_fields (out_uint32 ''threads'' 1 n) = 1" for k u n
    by (cases k; simp add: field_index_def key_map_def initialize_fields_def)+
  have known: "known_fields k initialize_fields ?os = [0, 1]" for k by (simp add: index fs)
  have ok: "list_all (out_ok 1 0 initialize_fields (wr_integer_keys w) ?eff) ?os"
    using assms(2) by (simp add: out_ok_string[OF index(1) _ fs(2)] out_ok_uint32[OF index(2) _ fs(3)] fs(1))
  have req: "\<forall>i < length initialize_fields. fd_required (initialize_fields ! i) \<longrightarrow> i \<in> set [0, 1]" by (auto simp: fs(1))
  have "distinct [0, 1 :: nat]" "length ?os < 2 ^ 63" by simp_all
  from object_reads_back[OF assms(1)[unfolded write_initialize_def] ok, unfolded known, OF order_refl this req]
  obtain bs where bs: "w' = written (put bs w)" "\<forall>s. decodes (2 * length ?os + 1) (Suc 0) (read_object initialize_fields s) bs
    (reset_omitted initialize_fields (map (\<lambda>i. i \<in> set [0, 1]) [0..<length initialize_fields]) (fold ?eff [0, 1] s))"
    by (elim exE conjE)
  have "reset_omitted initialize_fields (map (\<lambda>i. i \<in> set [0, 1]) [0..<length initialize_fields]) (fold ?eff [0, 1] \<lparr>in_pass = [], in_threads = 0\<rparr>) = cmd"
    by (simp add: reset_omitted_def initialize_fields_def string_field_def uint32_field_def upt_rec)
  from bs(2)[rule_format, of "\<lparr>in_pass = [], in_threads = 0\<rparr>", unfolded this] bs(1) show ?thesis
    by (intro exI[of _ bs]) (simp add: read_initialize_def)
qed

text \<open>
  The first command of a scanner arrives: its handler is called once, with the password and the
  number of threads that were sent, and the bytes after it are the next message.
\<close>

theorem initialize_arrives:
  assumes "write_command initialize_id (write_initialize cmd) = Inr (Some bs)" and "length (in_pass cmd) < 2 ^ 64"
  shows "read_commands (call_handler read_initialize handle # commands) (bs @ rest) s =
    (let (ok, s') = handle cmd s in
     if ok then read_commands (call_handler read_initialize handle # commands) rest s' else Cleaned_up s')"
proof -
  let ?w = "new_writer (replicate header_size 0) True"
  from assms(1) obtain w' where w': "write_initialize cmd ?w = Inr w'" by (auto simp: write_command_def check_Inr_iff)
  from write_initialize_decodes[OF this assms(2)] obtain cs where cs: "w' = written (put cs ?w)" "decodes 5 1 read_initialize cs cmd" by blast
  have "complete_command initialize_id (replicate header_size 0 @ cs) = Some bs"
    using assms(1) w' cs(1) by (simp add: write_command_def take_msgpack_def written_def put_def new_writer_def)
  from next_command_completed[OF this] have next_is: "next_command (bs @ rest) = Some (initialize_id, cs, rest)" .
  have "from_bytes read_initialize cs = Inr cmd" using from_bytes_decodes[OF cs(2), of "[]"] by simp
  with next_is show ?thesis by (subst read_commands.simps) (simp add: initialize_id_def call_handler_def)
qed

text \<open>A webhook, and a scanner with four threads.\<close>

definition demo_webhook :: webhook_data where
  "demo_webhook = \<lparr>wh_url = ''http://h'', wh_token = ''t'', wh_confirmations = 300\<rparr>"

theorem webhook_value_reads_back_witness:
  "\<exists>bs. make_value [9, 8] (write_webhook demo_webhook) = Inr bs \<and> get_value 2 read_webhook bs = Inr ([9, 8], demo_webhook)"
proof -
  have "length (wh_url demo_webhook) < 2 ^ 32" "length (wh_token demo_webhook) < 2 ^ 32" "length [9, 8 :: u8] = 2"
    by (simp_all add: demo_webhook_def)
  from webhook_value_reads_back[OF this(1,2), of "[9, 8]", unfolded this(3)] show ?thesis .
qed

definition demo_initialize :: initialize where
  "demo_initialize = \<lparr>in_pass = ''pw'', in_threads = 4\<rparr>"

definition demo_frame :: span where
  "demo_frame = [0, 0, 7, 0, 0, 0, 0x82, 0, 0xa2, 112, 119, 1, 4]"

lemma complete_command_code [code]: "complete_command cmd_id sink =
     (if length sink < header_size then None
      else if 4294967295 < int (length sink) - int header_size then None
      else Some (header_bytes cmd_id (of_nat (length sink - header_size)) @ drop header_size sink))"
  by (auto simp: complete_command_def)

lemma demo_command_written: "write_command initialize_id (write_initialize demo_initialize) = Inr (Some demo_frame)"
  by code_simp

definition remember :: "initialize \<Rightarrow> initialize list \<Rightarrow> bool \<times> initialize list" where
  "remember cmd s = (True, s @ [cmd])"

theorem initialize_arrives_witness:
  "read_commands [call_handler read_initialize remember] demo_frame [] = Waiting [] [demo_initialize]"
proof -
  have "length (in_pass demo_initialize) < 2 ^ 64" by (simp add: demo_initialize_def)
  from initialize_arrives[OF demo_command_written this, of remember "[]" "[]" "[]"] show ?thesis
    by (simp add: remember_def read_commands.simps[of _ "[]"] next_command_def header_size_def)
qed

end
