(* ===== verification/ScanUsers.thy ===== *)
theory ScanUsers
  imports ScanServer ScanLoop WireData
begin

text \<open>
  The server that shares the accounts among the local scan threads and the remote scanners
  (\<open>src/src/rpc/scanner/server.cpp\<close>): the check that is done every few seconds for accounts that came
  or went, the commands of a remote scanner, and stopping.

  A connection to a remote scanner is the number of its threads, which is zero until it has told
  it; \<open>None\<close> is a connection that was lost. What is sent to the connections is returned. The read
  transaction of a check is taken to open; when no slot is free for it the check does nothing.
\<close>

section \<open>The server\<close>

record server =
  sv_local :: "queue list"
  sv_remote :: "nat option list"
  sv_active :: "account_id list"
  sv_next_thread :: nat
  sv_stop :: bool
  sv_balance_new_addresses :: bool

datatype sent = Send_push nat "lws_account list" | Send_replace nat "lws_account list"

definition new_server :: "queue list \<Rightarrow> account_id list \<Rightarrow> bool \<Rightarrow> server" where
  "new_server local ids balance =
     \<lparr>sv_local = local, sv_remote = [], sv_active = sort ids, sv_next_thread = 0, sv_stop = False,
      sv_balance_new_addresses = balance\<rparr>"

text \<open>The number of threads must not exceed what a \<open>size_t\<close> holds.\<close>

fun count_threads :: "nat \<Rightarrow> nat option list \<Rightarrow> error + nat option" where
  "count_threads n [] = Inr (Some n)"
| "count_threads n (None # remotes) = Inr None"
| "count_threads n (Some threads # remotes) =
     (if 2 ^ 64 - 1 - n < threads then Inl (Lws configuration) else count_threads (n + threads) remotes)"

definition replace_all :: "'t lmdb \<Rightarrow> (account_address \<Rightarrow> string) \<Rightarrow> 't tables \<Rightarrow> server \<Rightarrow> error + server \<times> sent list" where
  "replace_all L address_string s v =
     (let connected = List.map_filter (\<lambda>r. r) (sv_remote v); v = v\<lparr>sv_remote := map Some connected\<rparr> in
      check (count_threads (length (sv_local v)) (sv_remote v)) (\<lambda>_.
        case do_replace_users L address_string s connected (sv_local v) of
          None \<Rightarrow> Inr (v, [])
        | Some (queues, to_remote, ids) \<Rightarrow>
            Inr (v\<lparr>sv_local := queues, sv_next_thread := 0, sv_active := ids\<rparr>,
              map (\<lambda>(i, next). Send_replace i next) (enumerate 0 to_remote))))"

section \<open>Accounts that came or went\<close>

definition replace_threshold :: nat where
  "replace_threshold = 10000"

text \<open>
  The ids of the accounts that are known and not seen yet, all known ids, and the accounts that
  are not known. \<open>None\<close>: there are too many of these.
\<close>

fun find_new :: "(account \<Rightarrow> lws_account) \<Rightarrow> account_id list \<Rightarrow> account_id list \<Rightarrow> lws_account list \<Rightarrow> account list \<Rightarrow>
    (account_id list \<times> account_id list \<times> lws_account list) option" where
  "find_new full active_copy known new_accounts [] = Some (active_copy, known, new_accounts)"
| "find_new full active_copy known new_accounts (user # users) =
     (let user_id = a_id user; loc = from_bound user_id active_copy in
      if loc = [] \<or> hd loc \<noteq> user_id then
        let new_accounts = new_accounts @ [full user] in
        if replace_threshold < length new_accounts then None
        else find_new full active_copy (takeWhile (\<lambda>i. i < user_id) known @ user_id # from_bound user_id known) new_accounts users
      else find_new full (takeWhile (\<lambda>i. i < user_id) active_copy @ tl loc) known new_accounts users)"

text \<open>What the round robin orders: pushes to local queues, and commands to remote scanners.\<close>

fun carry_out :: "(target \<times> lws_account list) list \<Rightarrow> queue list \<Rightarrow> queue list \<times> sent list" where
  "carry_out [] queues = (queues, [])"
| "carry_out ((Local i, accounts) # events) queues = carry_out events (queues[i := push_accounts accounts (queues ! i)])"
| "carry_out ((Remote j, accounts) # events) queues = (case carry_out events queues of (queues, sent) \<Rightarrow> (queues, Send_push j accounts # sent))"

text \<open>The thread after the last one that was given accounts.\<close>

fun thread_after :: "nat \<Rightarrow> nat list \<Rightarrow> nat \<Rightarrow> (target \<times> lws_account list) list \<Rightarrow> nat" where
  "thread_after locals remotes next_thread [] = next_thread"
| "thread_after locals remotes next_thread ((t, _) # events) =
     thread_after locals remotes
       ((next_thread + (case t of Local _ \<Rightarrow> 1 | Remote j \<Rightarrow> remotes ! j)) mod (locals + sum_list remotes)) events"

text \<open>
  The check. \<open>None\<close> is the undefined behaviour of the round robin.
\<close>

definition check_users :: "'t lmdb \<Rightarrow> (account_address \<Rightarrow> string) \<Rightarrow> 't tables \<Rightarrow> server \<Rightarrow> (error + server \<times> sent list) option" where
  "check_users L address_string s v =
     (if sv_stop v then Some (Inr (v, []))
      else case count_threads (length (sv_local v)) (sv_remote v) of
        Inl e \<Rightarrow> Some (Inl e)
      | Inr None \<Rightarrow> Some (replace_all L address_string s v)
      | Inr (Some total_threads) \<Rightarrow>
          if total_threads = 0 then Some (Inr (v, []))
          else
            let current_users = m_dups (accounts_m L) (accounts_t s) active; remotes = map the (sv_remote v) in
            if length current_users < length (sv_active v) then Some (replace_all L address_string s v)
            else case find_new (\<lambda>user. get_full_account L address_string user s) (sv_active v) (sv_active v) [] current_users of
              None \<Rightarrow> Some (replace_all L address_string s v)
            | Some (gone, known, new_accounts) \<Rightarrow>
                let v = v\<lparr>sv_active := known\<rparr> in
                if gone \<noteq> [] then Some (replace_all L address_string s v)
                else if sv_balance_new_addresses v \<and> sv_local v \<noteq> [] then
                  Some (Inr (v\<lparr>sv_local := balance_new_accounts new_accounts (sv_local v)\<rparr>, []))
                else
                  let next_thread = sv_next_thread v mod total_threads in
                  map_option (\<lambda>events.
                    case carry_out events (sv_local v) of (queues, sent) \<Rightarrow>
                      Inr (v\<lparr>sv_local := queues, sv_next_thread := thread_after (length (sv_local v)) remotes next_thread events\<rparr>, sent))
                    (round_robin (length (sv_local v)) remotes next_thread new_accounts))"

section \<open>Commands of a remote scanner\<close>

text \<open>
  The first command of a connection tells the number of its threads and the password. \<open>None\<close> ends
  the connection; otherwise all accounts are shared anew.
\<close>

definition handle_initialize :: "(string \<Rightarrow> bool) \<Rightarrow> initialize \<Rightarrow> nat \<Rightarrow> nat option" where
  "handle_initialize check_pass msg threads =
     (if threads \<noteq> 0 then None
      else if in_threads msg = 0 then None
      else if \<not> check_pass (in_pass msg) then None
      else Some (unat (in_threads msg)))"

definition connection_initialize :: "'t lmdb \<Rightarrow> (account_address \<Rightarrow> string) \<Rightarrow> 't tables \<Rightarrow> (string \<Rightarrow> bool) \<Rightarrow> nat \<Rightarrow> initialize \<Rightarrow> server \<Rightarrow>
    error + server \<times> sent list" where
  "connection_initialize L address_string s check_pass i msg v =
     (case sv_remote v ! i of
        None \<Rightarrow> Inr (v, [])
      | Some threads \<Rightarrow>
          (case handle_initialize check_pass msg threads of
             None \<Rightarrow> Inr (v\<lparr>sv_remote := (sv_remote v)[i := None]\<rparr>, [])
           | Some threads \<Rightarrow> replace_all L address_string s (v\<lparr>sv_remote := (sv_remote v)[i := Some threads]\<rparr>)))"

definition do_stop :: "server \<Rightarrow> server" where
  "do_stop v = v\<lparr>sv_stop := True\<rparr>"

text \<open>
  The accounts that a remote scanner has scanned are stored in the order of their heights; when
  that fails the server stops. Whether the connection has told its password is not looked at.
\<close>

definition connection_update :: "'t lmdb \<Rightarrow> checkpoints \<Rightarrow> nat \<Rightarrow> lws_account list \<Rightarrow> hash list \<Rightarrow> 't tables \<Rightarrow> server \<Rightarrow>
    error + server \<times> 't tables" where
  "connection_update L cp i users blocks s v =
     (if sv_remote v ! i = None \<or> users = [] then Inr (v, s)
      else check (store_users L cp blocks (sort_key la_height users) [] s) (\<lambda>(stored, out, s).
        Inr (if stored then v else do_stop v, s)))"

text \<open>
  Only a connection that has not told its threads is accepted, with the password; but a connection
  that was not accepted stores as well.
\<close>

lemma handle_initialize_Some:
  "handle_initialize check_pass msg threads = Some n \<Longrightarrow> threads = 0 \<and> check_pass (in_pass msg) \<and> 0 < n \<and> n < 2 ^ 32"
  using unsigned_less[of "in_threads msg", where ?'a = nat] by (auto simp: handle_initialize_def unat_gt_0 split: if_splits)

lemma update_without_password:
  assumes "sv_remote v ! i = Some 0" and "users \<noteq> []" and "store_users L cp blocks (sort_key la_height users) [] s = Inr (True, out, s')"
  shows "connection_update L cp i users blocks s v = Inr (v, s')"
  using assms by (simp add: connection_update_def)

section \<open>What a check finds\<close>

lemma from_bound_member: "sorted_wrt (<) (xs :: 'a::linorder list) \<Longrightarrow> from_bound x xs = [] \<or> hd (from_bound x xs) \<noteq> x \<longleftrightarrow> x \<notin> set xs"
  by (induction xs) (auto simp: from_bound_def)

lemma erase_bound: "sorted_wrt (<) (xs :: 'a::linorder list) \<Longrightarrow> x \<in> set xs \<Longrightarrow>
    takeWhile (\<lambda>y. y < x) xs @ tl (from_bound x xs) = filter (\<lambda>y. y \<noteq> x) xs"
proof (induction xs)
  case (Cons a xs)
  then show ?case by (cases "a < x") (auto simp: from_bound_def intro!: filter_True[symmetric])
qed simp

lemma insert_at_bound:
  "sorted_wrt (<) (xs :: 'a::linorder list) \<Longrightarrow> x \<notin> set xs \<Longrightarrow>
     sorted_wrt (<) (takeWhile (\<lambda>y. y < x) xs @ x # from_bound x xs) \<and> set (takeWhile (\<lambda>y. y < x) xs @ x # from_bound x xs) = insert x (set xs)"
  using insert_bound_sorted[of xs x]
  by (simp add: strict_sorted_iff insert_bound_def from_bound_def[symmetric] set_insort_key distinct_insort sorted_insort)

lemma find_new_spec:
  assumes "sorted_wrt (<) gone" and "sorted_wrt (<) known" and "distinct (map a_id users)"
    and "\<forall>user \<in> set users. a_id user \<in> set known \<longleftrightarrow> a_id user \<in> set gone" and "length found \<le> replace_threshold"
  shows "find_new full gone known found users =
    (let new = filter (\<lambda>user. a_id user \<notin> set gone) users in
     if replace_threshold < length found + length new then None
     else Some (filter (\<lambda>i. i \<notin> a_id ` set users) gone, sorted_list_of_set (set known \<union> a_id ` set users), found @ map full new))"
  using assms
proof (induction users arbitrary: gone known found)
  case Nil
  then show ?case by (simp add: Let_def sorted_list_of_set.idem_if_sorted_distinct strict_sorted_iff)
next
  case (Cons user users)
  let ?id = "a_id user"
  have ids: "?id \<notin> a_id ` set users" "distinct (map a_id users)" using Cons.prems(3) by auto
  show ?case
  proof (cases "?id \<in> set gone")
    case True
    have same: "filter (\<lambda>u. a_id u \<notin> set (filter (\<lambda>y. y \<noteq> ?id) gone)) users = filter (\<lambda>u. a_id u \<notin> set gone) users"
      using ids(1) by (intro filter_cong) (auto simp: image_iff)
    have other: "\<forall>u \<in> set users. a_id u \<in> set known \<longleftrightarrow> a_id u \<in> set (filter (\<lambda>y. y \<noteq> ?id) gone)"
      using Cons.prems(4) ids(1) by (auto simp: image_iff)
    have "find_new full gone known found (user # users) = find_new full (filter (\<lambda>y. y \<noteq> ?id) gone) known found users"
      using True from_bound_member[OF Cons.prems(1), of ?id] erase_bound[OF Cons.prems(1) True] by (simp add: Let_def)
    also have "\<dots> = (let new = filter (\<lambda>u. a_id u \<notin> set gone) users in
        if replace_threshold < length found + length new then None
        else Some (filter (\<lambda>i. i \<notin> a_id ` set users) (filter (\<lambda>y. y \<noteq> ?id) gone), sorted_list_of_set (set known \<union> a_id ` set users), found @ map full new))"
      by (rule Cons.IH[OF sorted_wrt_filter[OF Cons.prems(1)] Cons.prems(2) ids(2) other Cons.prems(5), unfolded same])
    also have "\<dots> = (let new = filter (\<lambda>u. a_id u \<notin> set gone) (user # users) in
        if replace_threshold < length found + length new then None
        else Some (filter (\<lambda>i. i \<notin> a_id ` set (user # users)) gone, sorted_list_of_set (set known \<union> a_id ` set (user # users)), found @ map full new))"
      using True Cons.prems(4) by (simp add: insert_absorb conj_commute Let_def)
    finally show ?thesis .
  next
    case False
    let ?known = "takeWhile (\<lambda>i. i < ?id) known @ ?id # from_bound ?id known"
    have k: "?id \<notin> set known" using False Cons.prems(4) by simp
    note ins = insert_at_bound[OF Cons.prems(2) k]
    show ?thesis
    proof (cases "replace_threshold < Suc (length found)")
      case True
      then show ?thesis using False from_bound_member[OF Cons.prems(1), of ?id] by (simp add: Let_def)
    next
      case small: False
      have "find_new full gone known found (user # users) = find_new full gone ?known (found @ [full user]) users"
        using False small from_bound_member[OF Cons.prems(1), of ?id] by (simp add: Let_def)
      moreover have "\<forall>u \<in> set users. a_id u \<in> set ?known \<longleftrightarrow> a_id u \<in> set gone"
        using Cons.prems(4) ids(1) ins by (auto simp: image_iff)
      moreover have "filter (\<lambda>i. i \<noteq> ?id \<and> i \<notin> a_id ` set users) gone = filter (\<lambda>i. i \<notin> a_id ` set users) gone"
        using False by (intro filter_cong) auto
      ultimately show ?thesis
        using Cons.IH[OF Cons.prems(1) conjunct1[OF ins] ids(2), of "found @ [full user]"] small False ins
        by (simp add: Let_def)
    qed
  qed
qed

section \<open>What the queues are given\<close>

text \<open>The accounts that wait in queues.\<close>

definition pushed :: "queue list \<Rightarrow> lws_account multiset" where
  "pushed queues = mset (concat (map q_push queues))"

lemma pushed_update: "i < length queues \<Longrightarrow> pushed (queues[i := push_accounts users (queues ! i)]) = pushed queues + mset users"
proof -
  assume i: "i < length queues"
  have "pushed queues = mset (concat (map q_push (take i queues @ queues ! i # drop (Suc i) queues)))"
    unfolding pushed_def id_take_nth_drop[OF i, symmetric] ..
  with i show ?thesis by (simp add: pushed_def upd_conv_take_nth_drop push_accounts_def)
qed

lemma replace_update: "map q_replace (queues[i := push_accounts users (queues ! i)]) = map q_replace queues"
  by (cases "i < length queues") (simp_all add: map_update push_accounts_def list_update_same_conv list_update_beyond not_less)

lemma push_balanced_pushes:
  "queues \<noteq> [] \<Longrightarrow> pushed (push_balanced accounts queues) = pushed queues + mset accounts \<and>
     map q_replace (push_balanced accounts queues) = map q_replace queues"
proof (induction accounts arbitrary: queues)
  case (Cons account accounts)
  let ?i = "choose_thread (la_height account) (map (\<lambda>q. (q_min_height q, q_user_count q)) queues)"
  have "?i < length queues" using choose_thread_best[of "map (\<lambda>q. (q_min_height q, q_user_count q)) queues"] Cons.prems by simp
  with Cons.IH[of "queues[?i := push_accounts [account] (queues ! ?i)]"] Cons.prems show ?case
    by (simp add: pushed_update replace_update Let_def)
qed simp

lemma carry_out_local:
  "\<forall>event \<in> set events. \<exists>i < length queues. fst event = Local i \<Longrightarrow>
     \<exists>queues'. carry_out events queues = (queues', []) \<and> pushed queues' = pushed queues + mset (concat (map snd events)) \<and>
       map q_replace queues' = map q_replace queues"
proof (induction events arbitrary: queues)
  case (Cons event events)
  obtain i where i: "i < length queues" "fst event = Local i" using Cons.prems by auto
  from Cons.IH[of "queues[i := push_accounts (snd event) (queues ! i)]"] Cons.prems i show ?case
    by (cases event) (auto simp: pushed_update replace_update)
qed simp

text \<open>With local threads only, replacing gives every account to one queue and empties the queues before.\<close>

definition replaced :: "queue list \<Rightarrow> lws_account list \<Rightarrow> bool" where
  "replaced queues accounts \<longleftrightarrow> (\<forall>q \<in> set queues. q_replace q \<noteq> None \<and> q_push q = []) \<and>
     mset (concat (map (\<lambda>q. the (q_replace q)) queues)) = mset accounts"

lemma replaced_queues:
  "length nexts = length queues \<Longrightarrow> replaced (map2 (\<lambda>next q. replace_accounts (map full next) q) nexts queues) (map full (concat nexts))"
proof (induction nexts queues rule: list_induct2)
  case (Cons n ns q qs)
  then show ?case by (simp add: replaced_def) (simp add: replace_accounts_def)
qed (simp add: replaced_def)

lemma replaced_cong: "mset xs = mset ys \<Longrightarrow> replaced queues (map f xs) \<longleftrightarrow> replaced queues (map f ys)"
  by (simp add: replaced_def mset_map)

context lmdb_store begin

lemma sorted_ids: "sorted_wrt (<) (map a_id (accounts_rows L s status))"
  using accounts.dups_sorted[of "accounts_t s" status] by (simp add: sorted_rows_def sorted_wrt_map)

lemma replace_all_local:
  assumes "sv_remote v = []" and "sv_local v \<noteq> []"
  shows "\<exists>queues. replace_all L address_string s v =
      Inr (v\<lparr>sv_local := queues, sv_next_thread := 0, sv_active := map a_id (accounts_rows L s active)\<rparr>, []) \<and>
    replaced queues (map (\<lambda>user. get_full_account L address_string user s) (accounts_rows L s active))"
proof -
  let ?users = "accounts_rows L s active" and ?full = "\<lambda>user. get_full_account L address_string user s"
  obtain to_local to_remote left where r: "replace_users (length (sv_local v)) [] ?users = (to_local, to_remote, left)" by (metis prod_cases3)
  from replace_users_mset[OF r] have len: "length to_local = length (sv_local v)" "to_remote = []" by auto
  from replace_users_gives[of "length (sv_local v)" ?users "[]"] assms(2) r have m: "mset (concat to_local) = mset ?users"
    by simp
  have ids: "sort (map a_id ?users) = map a_id ?users"
    using sorted_ids[of s active] by (simp add: sorted_sort_id strict_sorted_iff)
  have v: "v\<lparr>sv_remote := []\<rparr> = v" using assms(1) by simp
  let ?queues = "map2 (\<lambda>next q. replace_accounts (map ?full next) q) to_local (sv_local v)"
  have "replaced ?queues (map ?full ?users)"
    using replaced_queues[OF len(1), of ?full] replaced_cong[OF m, of ?queues ?full] by simp
  moreover have "replace_all L address_string s v =
      Inr (v\<lparr>sv_local := ?queues, sv_next_thread := 0, sv_active := map a_id ?users\<rparr>, [])"
    using assms r len(2) by (simp add: replace_all_def do_replace_users_def Let_def map_filter_simps v ids)
  ultimately show ?thesis by blast
qed

end

section \<open>Runs of the server\<close>

text \<open>
  Between its own steps the database can change, connections come and get lost, and the threads
  take accounts from their queues.
\<close>

inductive server_run :: "'t lmdb \<Rightarrow> (account_address \<Rightarrow> string) \<Rightarrow> server \<Rightarrow> bool" for L address_string where
  start: "distinct ids \<Longrightarrow> server_run L address_string (new_server queues ids balance)"
| check: "server_run L address_string v \<Longrightarrow> check_users L address_string s v = Some (Inr (v', sent)) \<Longrightarrow> server_run L address_string v'"
| accept: "server_run L address_string v \<Longrightarrow> server_run L address_string (v\<lparr>sv_remote := sv_remote v @ [Some 0]\<rparr>)"
| lost: "server_run L address_string v \<Longrightarrow> server_run L address_string (v\<lparr>sv_remote := (sv_remote v)[i := None]\<rparr>)"
| initialize: "server_run L address_string v \<Longrightarrow> connection_initialize L address_string s check_pass i msg v = Inr (v', sent) \<Longrightarrow>
    server_run L address_string v'"
| store: "server_run L address_string v \<Longrightarrow> connection_update L cp i users blocks s v = Inr (v', s') \<Longrightarrow> server_run L address_string v'"
| work: "server_run L address_string v \<Longrightarrow> length queues = length (sv_local v) \<Longrightarrow> server_run L address_string (v\<lparr>sv_local := queues\<rparr>)"
| stop: "server_run L address_string v \<Longrightarrow> server_run L address_string (do_stop v)"

context lmdb_store begin

lemma replace_all_sorted:
  assumes "replace_all L address_string s v = Inr (v', sent)" and "sorted_wrt (<) (sv_active v)"
  shows "sorted_wrt (<) (sv_active v')"
proof -
  have ids: "sort (map a_id (accounts_rows L s active)) = map a_id (accounts_rows L s active)"
    using sorted_ids[of s active] by (simp add: sorted_sort_id strict_sorted_iff)
  from assms sorted_ids[of s active] show ?thesis
    by (auto simp: replace_all_def do_replace_users_def Let_def check_Inr_iff ids split: if_splits prod.splits option.splits)
qed

lemma check_users_sorted:
  assumes "check_users L address_string s v = Some (Inr (v', sent))" and "sorted_wrt (<) (sv_active v)"
  shows "sorted_wrt (<) (sv_active v')"
proof -
  have dist: "distinct (map a_id (accounts_rows L s active))" using sorted_ids[of s active] by (simp add: strict_sorted_iff)
  have found: "sorted_wrt (<) known" if "find_new full (sv_active v) (sv_active v) [] (accounts_rows L s active) = Some (gone, known, found)"
    for full gone known found
    using that find_new_spec[OF assms(2,2) dist, of "[]" full] by (auto simp: Let_def split: if_splits)
  have rep: "sorted_wrt (<) (sv_active v')" if "replace_all L address_string s w = Inr (v', sent)" "sv_active w = sv_active v \<or> sorted_wrt (<) (sv_active w)" for w
    using replace_all_sorted[OF that(1)] that(2) assms(2) by auto
  have carried: "(case carry_out es qs of (a, b) \<Rightarrow> f a b) = f (fst (carry_out es qs)) (snd (carry_out es qs))"
    for es qs and f :: "queue list \<Rightarrow> sent list \<Rightarrow> error + server \<times> sent list"
    by (simp add: case_prod_beta)
  from assms(1) show ?thesis
    using assms(2) by (auto simp: check_users_def Let_def carried dest!: found intro: rep split: if_splits sum.splits option.splits prod.splits)
qed

end

lemma server_run_sorted:
  "server_run L address_string v \<Longrightarrow> lmdb_store L \<Longrightarrow> sorted_wrt (<) (sv_active v)"
proof (induction rule: server_run.induct)
  case (start ids queues balance)
  then show ?case by (simp add: new_server_def strict_sorted_iff)
next
  case (check v s v' sent)
  then show ?case using lmdb_store.check_users_sorted by blast
next
  case (initialize v s check_pass i msg v' sent)
  then show ?case
    by (auto simp: connection_initialize_def split: option.splits dest: lmdb_store.replace_all_sorted)
next
  case (store v cp i users blocks s v' s')
  then show ?case
    by (auto simp: connection_update_def do_stop_def check_Inr_iff split: if_splits)
qed (simp_all add: do_stop_def)

section \<open>What a check does\<close>

lemma check_users_found:
  assumes "lmdb_store L" and "sorted_wrt (<) (sv_active v)"
  shows "find_new full (sv_active v) (sv_active v) [] (accounts_rows L s active) =
    (let users = accounts_rows L s active; new = filter (\<lambda>user. a_id user \<notin> set (sv_active v)) users in
     if replace_threshold < length new then None
     else Some (filter (\<lambda>i. i \<notin> a_id ` set users) (sv_active v), sorted_list_of_set (set (sv_active v) \<union> a_id ` set users), map full new))"
  using find_new_spec[OF assms(2,2), of "accounts_rows L s active" "[]" full] lmdb_store.sorted_ids[OF assms(1), of s active]
  by (simp add: strict_sorted_iff Let_def)

text \<open>When accounts only came, they are pushed.\<close>

lemma check_users_push:
  assumes "lmdb_store L" and "sorted_wrt (<) (sv_active v)" and "sv_remote v = []" and "sv_local v \<noteq> []" and "\<not> sv_stop v"
    and grown: "set (sv_active v) \<subseteq> a_id ` set (accounts_rows L s active)"
      "length (filter (\<lambda>user. a_id user \<notin> set (sv_active v)) (accounts_rows L s active)) \<le> replace_threshold"
  shows "\<exists>v'. check_users L address_string s v = Some (Inr (v', [])) \<and> sv_active v' = map a_id (accounts_rows L s active) \<and>
    pushed (sv_local v') = pushed (sv_local v) + mset (map (\<lambda>user. get_full_account L address_string user s)
      (filter (\<lambda>user. a_id user \<notin> set (sv_active v)) (accounts_rows L s active))) \<and>
    map q_replace (sv_local v') = map q_replace (sv_local v)"
proof -
  let ?users = "accounts_rows L s active" and ?n = "length (sv_local v)" and ?full = "\<lambda>user. get_full_account L address_string user s"
  let ?accounts = "map ?full (filter (\<lambda>user. a_id user \<notin> set (sv_active v)) ?users)"
  let ?next = "sv_next_thread v mod ?n" and ?v = "v\<lparr>sv_active := map a_id ?users\<rparr>"
  note ids = lmdb_store.sorted_ids[OF assms(1), of s active]
  have none: "filter (\<lambda>i. i \<notin> a_id ` set ?users) (sv_active v) = []" using grown by (auto simp: filter_empty_conv)
  have known: "sorted_list_of_set (set (sv_active v) \<union> a_id ` set ?users) = map a_id ?users"
    using grown ids sorted_list_of_set.idem_if_sorted_distinct[of "map a_id ?users"] by (simp add: Un_absorb1 strict_sorted_iff)
  have "card (set (sv_active v)) \<le> card (set (map a_id ?users))" using grown(1) by (intro card_mono) auto
  then have size: "\<not> length ?users < length (sv_active v)"
    using card_length[of "map a_id ?users"] assms(2) by (simp add: strict_sorted_iff distinct_card)
  have found: "find_new ?full (sv_active v) (sv_active v) [] ?users = Some ([], map a_id ?users, ?accounts)"
    using check_users_found[OF assms(1,2), of ?full s] none known grown(2) by (simp add: Let_def)
  have run: "check_users L address_string s v =
      (if sv_balance_new_addresses v then Some (Inr (?v\<lparr>sv_local := balance_new_accounts ?accounts (sv_local v)\<rparr>, []))
       else map_option (\<lambda>events. case carry_out events (sv_local v) of (queues, sent) \<Rightarrow>
           Inr (?v\<lparr>sv_local := queues, sv_next_thread := thread_after ?n [] ?next events\<rparr>, sent))
         (round_robin ?n [] ?next ?accounts))"
    unfolding check_users_def using size assms(3-5) found by (simp add: Let_def)
  have "?next < ?n" using assms(4) by simp
  then obtain events where e: "round_robin ?n [] ?next ?accounts = Some events" "mset (concat (map snd events)) = mset ?accounts"
    "map fst events = map (\<lambda>i. Local ((?next + i) mod ?n)) [0..<length ?accounts]"
    using round_robin_local[of ?n ?next ?accounts] assms(4) by auto
  have "set (map fst events) \<subseteq> Local ` {..<?n}" unfolding e(3) using assms(4) by auto
  then have "\<forall>event \<in> set events. \<exists>i < ?n. fst event = Local i" by auto
  then obtain queues where "carry_out events (sv_local v) = (queues, [])"
    "pushed queues = pushed (sv_local v) + mset (concat (map snd events))" "map q_replace queues = map q_replace (sv_local v)"
    using carry_out_local by metis
  with e(1,2) push_balanced_pushes[OF assms(4), of "rev ?accounts"] show ?thesis
    by (cases "sv_balance_new_addresses v") (simp_all add: run balance_new_accounts_def)
qed

text \<open>When accounts went or too many came, everything is shared anew.\<close>

lemma check_users_replace:
  assumes "lmdb_store L" and "sorted_wrt (<) (sv_active v)" and "sv_remote v = []" and "sv_local v \<noteq> []" and "\<not> sv_stop v"
    and "\<not> (set (sv_active v) \<subseteq> a_id ` set (accounts_rows L s active) \<and>
      length (filter (\<lambda>user. a_id user \<notin> set (sv_active v)) (accounts_rows L s active)) \<le> replace_threshold)"
  shows "check_users L address_string s v = Some (replace_all L address_string s v)"
proof -
  have any: "replace_all L address_string s (v\<lparr>sv_active := known\<rparr>) = replace_all L address_string s v" for known
    by (simp add: replace_all_def Let_def assms(3,4) do_replace_users_def split: prod.splits)
  have "filter (\<lambda>i. i \<notin> a_id ` set (accounts_rows L s active)) (sv_active v) \<noteq> [] \<or>
      replace_threshold < length (filter (\<lambda>user. a_id user \<notin> set (sv_active v)) (accounts_rows L s active))"
    using assms(6) by (auto simp: filter_empty_conv)
  then show ?thesis
    using assms(3-5) check_users_found[OF assms(1,2), of "\<lambda>user. get_full_account L address_string user s" s] any
    by (auto simp: check_users_def Let_def)
qed

section \<open>Properties\<close>

text \<open>
  C31: In every run, a check of a server with local threads only never fails, and afterwards the server knows
  exactly the active accounts of the database. When none of the accounts it knew went and not too
  many came, every new account is pushed to one queue and nothing else changes; otherwise all
  accounts are shared anew.
\<close>

theorem check_users_tracks:
  assumes "lmdb_store L" and "server_run L address_string v" and "sv_remote v = []" and "sv_local v \<noteq> []" and "\<not> sv_stop v"
  shows "let users = accounts_rows L s active; full = (\<lambda>user. get_full_account L address_string user s);
      new = filter (\<lambda>user. a_id user \<notin> set (sv_active v)) users in
    \<exists>v'. check_users L address_string s v = Some (Inr (v', [])) \<and> sv_active v' = map a_id users \<and>
      (if set (sv_active v) \<subseteq> a_id ` set users \<and> length new \<le> replace_threshold
       then pushed (sv_local v') = pushed (sv_local v) + mset (map full new) \<and> map q_replace (sv_local v') = map q_replace (sv_local v)
       else replaced (sv_local v') (map full users))"
proof -
  note old = server_run_sorted[OF assms(2,1)]
  let ?users = "accounts_rows L s active"
  let ?grown = "set (sv_active v) \<subseteq> a_id ` set ?users \<and> length (filter (\<lambda>user. a_id user \<notin> set (sv_active v)) ?users) \<le> replace_threshold"
  show ?thesis
  proof (cases ?grown)
    case True
    then show ?thesis
      using check_users_push[OF assms(1) old assms(3-5), of s address_string] by (auto simp: Let_def)
  next
    case False
    with check_users_replace[OF assms(1) old assms(3-5) this] lmdb_store.replace_all_local[OF assms(1,3,4), of address_string s]
    show ?thesis by (auto simp: Let_def)
  qed
qed

theorem check_users_tracks_witness:
  "\<exists>v'. check_users log_lmdb (\<lambda>a. []) demo (new_server [new_queue] [] True) = Some (Inr (v', [])) \<and> sv_active v' = [1] \<and>
     pushed (sv_local v') = {#get_full_account log_lmdb (\<lambda>a. []) demo_account demo#}"
proof -
  have run: "server_run log_lmdb (\<lambda>a. []) (new_server [new_queue] [] True)" by (rule server_run.start) simp
  have rows: "accounts_rows log_lmdb demo active = [demo_account]" by (simp add: demo_accounts)
  have v: "sv_remote (new_server [new_queue] [] True) = []" "sv_local (new_server [new_queue] [] True) \<noteq> []"
    "\<not> sv_stop (new_server [new_queue] [] True)" by (simp_all add: new_server_def)
  have none: "pushed (sv_local (new_server [new_queue] [] True)) = {#}" "sv_active (new_server [new_queue] [] True) = []"
    by (simp_all add: new_server_def new_queue_def pushed_def)
  show ?thesis
    using check_users_tracks[OF log.lmdb_store_axioms run v, of demo] unfolding rows
    by (auto simp: none Let_def replace_threshold_def) (simp add: demo_account_def)
qed

end
