(* ===== verification/Spec2Isabelle.thy ===== *)
theory Spec2Isabelle
  imports Lookahead KeyImages Threads AddressTxs RestMultisig RestRequests RandomOutputs Admin Ports ScanUsers
begin

text \<open>
  A model of the light wallet server (\<open>src/src\<close>): its LMDB database of accounts, outputs, spends
  and webhooks, the scanner that fills it, the queues between the scan server and its threads, and
  the parts of the REST server that answer from it. Each theory opens with the source it follows.

  \<^bold>\<open>How code is read.\<close> Machine integers are words of their width, so sums wrap where the code wraps;
  enumerations are datatypes, structures are records with the fields of the code, byte arrays are
  lists or words. An \<open>expect<T>\<close> is a sum: \<open>Inl\<close> is the error, and an exception that the caller turns
  into a failure is one as well. State is passed and returned. A loop that may not end is a
  \<open>partial_function\<close>; its value \<open>None\<close> means that the call does not return. Loops with a known bound
  are structural or have a termination proof, so no fuel is used anywhere.

  \<^bold>\<open>What is assumed.\<close> LMDB (\<open>Mdb\<close>), the cryptography, the clock, the daemon, the file system and the
  network are arguments of the definitions. The laws of an LMDB table are the locale \<open>mdb_store\<close> of
  \<open>Mdb\<close>; \<open>Demo\<close> has sorted lists for tables and interprets the locale on them, and the witnesses of
  the properties run on that database. Ordered containers of the code are lists in that order.

  \<^bold>\<open>Database\<close> (\<open>src/src/db\<close>, \<open>src/src/lmdb\<close>).
  \<^item> \<open>Prelude\<close>: errors as values, the check-and-continue combinator, lemmas on lists, maps and words.
  \<^item> \<open>Data\<close> (\<open>db/data.h\<close>, \<open>db/data.cpp\<close>): the stored values with their orders, packing and the wire
    objects of outputs and spends; \<open>Compare\<close> (\<open>db/storage.cpp\<close>): the byte comparators given to LMDB,
    shown to be the orders of the keys.
  \<^item> \<open>Mdb\<close>, \<open>Store\<close> (\<open>lmdb/lws_database.h\<close>, \<open>db/storage.cpp\<close>): tables, bulk insertion, the write
    transaction with its retries, and the record of all tables; \<open>Wellformed\<close>: the invariant of a
    database; \<open>Demo\<close>: a concrete database.
  \<^item> \<open>Rollback\<close>, \<open>Chain\<close>: undoing blocks, and following the chain of the daemon by hashes or by
    proof of work; blocks up to a checkpoint stay.
  \<^item> \<open>Accounts\<close>, \<open>Subaddress\<close>, \<open>Lookahead\<close>, \<open>Requests\<close>: accounts with their status and their index
    by height, requests, ranges of subaddresses and their provisioning in advance, rescans.
  \<^item> \<open>Update\<close>, \<open>KeyImages\<close>, \<open>Webhooks\<close>: storing what a scan found with the events of webhooks, the
    import of key images (a refinement of updating a map), and webhooks.
  \<^item> \<open>LwsAccount\<close> (\<open>db/account.cpp\<close>): the object that the scanner fills.
  \<^item> \<open>MultisigStore\<close> (\<open>db/multisig_store.cpp\<close>): the store of multisig addresses and wallets.

  \<^bold>\<open>Scanner\<close> (\<open>src/src/scanner.cpp\<close>, \<open>src/src/rpc/scanner\<close>).
  \<^item> \<open>Threads\<close>: how accounts are divided among threads.
  \<^item> \<open>ScanServer\<close>: the queue of a thread and the distribution of accounts to local and remote
    threads.
  \<^item> \<open>ScanUsers\<close>: the check of the server for accounts that came or went, and the commands of remote
    scanners. A run of the server always knows its accounts in order and without doubles.
  \<^item> \<open>ScanTx\<close>: scanning one transaction for the outputs and spends of accounts.
  \<^item> \<open>Sync\<close> (with \<open>util/blocks.cpp\<close>): the synchronization of the block table with the daemon, by
    hashes alone or with the proof of work of every block.
  \<^item> \<open>ScanLoop\<close>: the rounds of a scan thread. A round scans a batch of blocks for the accounts of the
    thread, checks the proof of work for daemons that are not trusted, and stores the result; at the
    top of the chain it waits for news and reports payments in the pool. Its inputs are the answers of
    the daemon and what other threads put into the queue and the database between rounds.

  \<^bold>\<open>Wire format\<close> (\<open>src/src/wire\<close>, \<open>src/src/rpc/scanner\<close>, \<open>src/src/lmdb/msgpack_table.h\<close>).
  \<^item> \<open>Msgpack\<close>: the writer and the reader of msgpack tokens; every token is read back.
  \<^item> \<open>MsgpackSkip\<close>: values that the reader does not know are skipped.
  \<^item> \<open>WireObject\<close>: reading and writing arrays and objects, and that what was written is read back.
  \<^item> \<open>WireData\<close>: the values of webhooks in the database and the stream of commands of a scanner.

  \<^bold>\<open>REST server\<close> (\<open>src/src/rest_server.cpp\<close>).
  \<^item> \<open>Dispatch\<close> (with \<open>error.cpp\<close>): which handler a request is given to, and the status of errors. The
    search misses one endpoint because its table is not sorted.
  \<^item> \<open>Ports\<close>: the addresses and prefixes the server listens at; administration is served where it was
    asked for, but not always with TLS.
  \<^item> \<open>Admin\<close> (\<open>rpc/admin.cpp\<close>, \<open>admin_main.cpp\<close>): the administration handlers and the key that they need.
  \<^item> \<open>RestAccount\<close>: opening an account, limits, locked outputs, the rescan after an import.
  \<^item> \<open>Balance\<close>: the balance and the unspent outputs, and that the two agree.
  \<^item> \<open>AddressTxs\<close>: the transactions of an account, and that they agree with the balance.
  \<^item> \<open>RestRequests\<close>: the handlers that change the database: login, imports, rescans, subaddresses and
    submitted transactions.
  \<^item> \<open>Kex\<close>, \<open>RestMultisig\<close>: the registry of multisig key exchanges, the handlers over the multisig
    store, and the registry of transaction sets.
  \<^item> \<open>RandomOutputs\<close> (with \<open>util/random_outputs.cpp\<close>, \<open>util/gamma_picker.cpp\<close>): decoys for rings.

  \<^bold>\<open>What the lemmas show.\<close> For each group of operations: on which inputs they fail, what they change
  and what they leave alone, and that the invariant of \<open>Wellformed\<close> (or the one of the component) is
  kept. Comments called properties are the main results; where the code fails its purpose the
  property states what it does instead.

  \<^bold>\<open>Not modelled.\<close> Sockets, the event loops and the threads themselves (only what they compute);
  opening and migrating the LMDB environment; JSON (values are taken as the objects they
  stand for), and msgpack outside of the theories on the wire format; parsing of URLs and command lines; exchange rates; logging.
\<close>

end
